(* ===== verification/Prelude.thy ===== *)
theory Prelude
  imports Main "HOL-Library.Word"
begin

text \<open>
  Shared vocabulary of the development: the machine integer types of the Rust code, byte
  slices, little-endian integers, the checked arithmetic of \<open>u64\<close> and \<open>usize\<close>, and the
  interface of the fixed-width codecs.  The collections \<open>bytes_simps\<close> and \<open>map_simps\<close>
  carry the component proofs.
\<close>

named_theorems bytes_simps
named_theorems map_simps

section \<open>Machine integers\<close>

type_synonym u8 = "8 word"
type_synonym u32 = "32 word"
type_synonym u64 = "64 word"

text \<open>An \<open>i64\<close> is kept as its 64 bits and read with \<open>sint\<close>.\<close>

type_synonym i64 = "64 word"

abbreviation usize_limit :: nat where
  "usize_limit \<equiv> 2 ^ 64"

abbreviation u32_limit :: nat where
  "u32_limit \<equiv> 2 ^ 32"

definition checked_add :: "u64 \<Rightarrow> u64 \<Rightarrow> u64 option" where
  "checked_add a b = (if unat a + unat b < 2 ^ 64 then Some (a + b) else None)"

text \<open>The same operations on \<open>usize\<close> counters, which the model keeps as natural numbers.\<close>

definition usize_checked_add :: "nat \<Rightarrow> nat \<Rightarrow> nat option" where
  "usize_checked_add a b = (if a + b < usize_limit then Some (a + b) else None)"

definition saturating_add :: "nat \<Rightarrow> nat \<Rightarrow> nat" where
  "saturating_add a b = min (a + b) (usize_limit - 1)"

definition checked_sub :: "u64 \<Rightarrow> u64 \<Rightarrow> u64 option" where
  "checked_sub a b = (if unat b \<le> unat a then Some (a - b) else None)"

lemma checked_add_Some [bytes_simps]:
  "checked_add a b = Some c \<longleftrightarrow> unat a + unat b < 2 ^ 64 \<and> c = a + b"
  by (auto simp: checked_add_def)

lemma checked_add_None [bytes_simps]:
  "checked_add a b = None \<longleftrightarrow> 2 ^ 64 \<le> unat a + unat b"
  by (auto simp: checked_add_def)

lemma unat_checked_add: "checked_add a b = Some c \<Longrightarrow> unat c = unat a + unat b"
  by (auto simp: checked_add_def unat_word_ariths split: if_splits)

lemma unat_of_nat_64: "n < 2 ^ 64 \<Longrightarrow> unat (of_nat n :: 64 word) = n"
  by (simp add: unsigned_of_nat take_bit_nat_eq_self)

lemma unat_of_nat_32: "n < 2 ^ 32 \<Longrightarrow> unat (of_nat n :: 32 word) = n"
  by (simp add: unsigned_of_nat take_bit_nat_eq_self)

lemma unat_of_nat_8: "n < 256 \<Longrightarrow> unat (of_nat n :: 8 word) = n"
  by (simp add: unsigned_of_nat take_bit_nat_eq_self)

lemma unat_less_8: "unat (w :: 8 word) < 256"
  using unsigned_less [of w] by simp

lemma unat_less_32: "unat (w :: 32 word) < 2 ^ 32"
  using unsigned_less [of w] by simp

lemma unat_less_64: "unat (w :: 64 word) < 2 ^ 64"
  using unsigned_less [of w] by simp

lemma unat_u64_of_u32: "unat (ucast (w :: u32) :: u64) = unat w"
  using unat_less_32 [of w] by (simp add: unsigned_ucast_eq take_bit_nat_eq_self)

section \<open>Slices\<close>

text \<open>\<open>bytes[from..to]\<close>; the callers of the code have checked the range.\<close>

definition subslice :: "nat \<Rightarrow> nat \<Rightarrow> 'a list \<Rightarrow> 'a list" where
  "subslice from to xs = take (to - from) (drop from xs)"

lemma length_subslice [bytes_simps]:
  "to \<le> length xs \<Longrightarrow> length (subslice from to xs) = to - from"
  by (simp add: subslice_def)

lemma slice_append_left: "to \<le> length xs \<Longrightarrow> subslice from to (xs @ ys) = subslice from to xs"
  by (cases "from \<le> to") (auto simp: subslice_def)

lemma slice_append_right:
  "length xs \<le> from \<Longrightarrow> subslice from to (xs @ ys) = subslice (from - length xs) (to - length xs) ys"
  by (simp add: subslice_def)

lemma slice_append_exact: "subslice (length xs) (length xs + length ys) (xs @ ys @ zs) = ys"
  by (simp add: subslice_def)

lemma slice_all: "n = length xs \<Longrightarrow> subslice 0 n xs = xs"
  by (simp add: subslice_def)

lemma slice_0: "subslice 0 n xs = take n xs"
  by (simp add: subslice_def)

lemma slice_slice:
  "b \<le> d - c \<Longrightarrow> subslice a b (subslice c d xs) = subslice (c + a) (c + b) xs"
  by (simp add: subslice_def drop_take min_def add.commute)

lemma append_slices:
  assumes "a \<le> b" and "b \<le> c"
  shows "subslice a b xs @ subslice b c xs = subslice a c xs"
proof -
  have "c - a = (b - a) + (c - b)" and "drop b xs = drop (b - a) (drop a xs)"
    using assms by simp_all
  then show ?thesis by (simp only: subslice_def take_add)
qed

section \<open>Little-endian integers\<close>

text \<open>\<open>to_le_bytes\<close> and \<open>from_le_bytes\<close>, on the value of the integer.\<close>

fun le_enc :: "nat \<Rightarrow> nat \<Rightarrow> u8 list" where
  "le_enc 0 x = []"
| "le_enc (Suc n) x = of_nat (x mod 256) # le_enc n (x div 256)"

fun le_dec :: "u8 list \<Rightarrow> nat" where
  "le_dec [] = 0"
| "le_dec (b # bs) = unat b + 256 * le_dec bs"

lemma length_le_enc [simp]: "length (le_enc n x) = n"
  by (induction n arbitrary: x) auto

lemma le_dec_enc: "le_dec (le_enc n x) = x mod 256 ^ n"
proof (induction n arbitrary: x)
  case 0
  then show ?case by simp
next
  case (Suc n)
  have "unat (of_nat (x mod 256) :: u8) = x mod 256"
    by (rule unat_of_nat_8) simp
  then show ?case
    using Suc.IH [of "x div 256"] by (simp add: mod_mult2_eq)
qed

lemma le_dec_bound: "le_dec bs < 256 ^ length bs"
proof (induction bs)
  case Nil
  then show ?case by simp
next
  case (Cons b bs)
  have "unat b < 256" by (rule unat_less_8)
  with Cons.IH show ?case by simp
qed

lemma le_enc_dec: "n = length bs \<Longrightarrow> le_enc n (le_dec bs) = bs"
proof (induction bs arbitrary: n)
  case Nil
  then show ?case by simp
next
  case (Cons b bs)
  have "unat b < 256" by (rule unat_less_8)
  then show ?case using Cons by simp
qed

definition u32_to_le :: "u32 \<Rightarrow> u8 list" where
  "u32_to_le w = le_enc 4 (unat w)"

definition u32_from_le :: "u8 list \<Rightarrow> u32" where
  "u32_from_le bs = of_nat (le_dec bs)"

definition u64_to_le :: "u64 \<Rightarrow> u8 list" where
  "u64_to_le w = le_enc 8 (unat w)"

definition u64_from_le :: "u8 list \<Rightarrow> u64" where
  "u64_from_le bs = of_nat (le_dec bs)"

lemma length_u32_to_le [simp]: "length (u32_to_le w) = 4"
  by (simp add: u32_to_le_def)

lemma length_u64_to_le [simp]: "length (u64_to_le w) = 8"
  by (simp add: u64_to_le_def)

lemma u32_from_to_le [simp]: "u32_from_le (u32_to_le w) = w"
  using unat_less_32 [of w] by (simp add: u32_from_le_def u32_to_le_def le_dec_enc)

lemma u64_from_to_le [simp]: "u64_from_le (u64_to_le w) = w"
  using unat_less_64 [of w] by (simp add: u64_from_le_def u64_to_le_def le_dec_enc)

lemma u32_to_from_le: "length bs = 4 \<Longrightarrow> u32_to_le (u32_from_le bs) = bs"
  using le_dec_bound [of bs]
  by (simp add: u32_from_le_def u32_to_le_def unat_of_nat_32 le_enc_dec)

lemma u64_to_from_le: "length bs = 8 \<Longrightarrow> u64_to_le (u64_from_le bs) = bs"
  using le_dec_bound [of bs]
  by (simp add: u64_from_le_def u64_to_le_def unat_of_nat_64 le_enc_dec)

lemma u32_to_le_inject [simp]: "u32_to_le a = u32_to_le b \<longleftrightarrow> a = b"
  by (metis u32_from_to_le)

lemma u64_to_le_inject [simp]: "u64_to_le a = u64_to_le b \<longleftrightarrow> a = b"
  by (metis u64_from_to_le)

lemma le_enc_0: "le_enc n 0 = replicate n 0"
  by (induction n) auto

lemma replicate_4: "replicate 4 x = [x, x, x, x]"
  by (simp add: numeral_eq_Suc)

lemma u32_to_le_0: "u32_to_le 0 = [0, 0, 0, 0]"
  by (simp add: u32_to_le_def le_enc_0 replicate_4)

section \<open>Fixed-width codecs\<close>

text \<open>
  Every on-disk header of the program is a fixed-width checksummed record.  The interface of
  such a format: encoding has a fixed width, decoding inverts it, and decoding accepts nothing
  but encodings.
\<close>

locale fixed_codec =
  fixes enc :: "'a \<Rightarrow> u8 list"
    and dec :: "u8 list \<Rightarrow> 'e + 'a"
    and width :: nat
  assumes enc_length: "length (enc x) = width"
    and dec_enc: "dec (enc x) = Inr x"
    and enc_dec: "length bs = width \<Longrightarrow> dec bs = Inr x \<Longrightarrow> enc x = bs"
begin

lemma enc_inject: "enc x = enc y \<longleftrightarrow> x = y"
  using dec_enc by (metis sum.inject(2))

lemma dec_iff: "length bs = width \<Longrightarrow> dec bs = Inr x \<longleftrightarrow> bs = enc x"
  using dec_enc enc_dec by metis

lemma dec_unique:
  "length bs = width \<Longrightarrow> length bs' = width \<Longrightarrow> dec bs = Inr x \<Longrightarrow> dec bs' = Inr x \<Longrightarrow> bs = bs'"
  using enc_dec by metis

end

section \<open>A concrete checksum for the witnesses\<close>

text \<open>
  The theorems hold for every checksum function; where a witness needs one, it takes the sum of
  the bytes.
\<close>

definition sum_crc :: "u8 list \<Rightarrow> u32" where
  "sum_crc bs = of_nat (sum_list (map unat bs))"

end
