(* ===== verification/Ordered_Map.thy ===== *)
theory Ordered_Map
  imports Prelude
begin

text \<open>
  \<open>std::collections::BTreeMap\<close> as the program uses it: \<open>get\<close>, \<open>insert\<close>, \<open>get_mut\<close> and iteration in key
  order.  The interface is a locale; the model's maps are association lists sorted by key.
\<close>

section \<open>The interface\<close>

locale ordered_map =
  fixes empty :: 'm
    and get :: "'m \<Rightarrow> 'k::linorder \<Rightarrow> 'v option"
    and ins :: "'k \<Rightarrow> 'v \<Rightarrow> 'm \<Rightarrow> 'm"
    and entries :: "'m \<Rightarrow> ('k \<times> 'v) list"
    and ok :: "'m \<Rightarrow> bool"
  assumes ok_empty: "ok empty"
    and entries_empty: "entries empty = []"
    and ok_ins: "ok m \<Longrightarrow> ok (ins k v m)"
    and get_ins: "ok m \<Longrightarrow> get (ins k v m) k' = (if k' = k then Some v else get m k')"
    and entries_sorted: "ok m \<Longrightarrow> sorted_wrt (<) (map fst (entries m))"
    and entries_get: "ok m \<Longrightarrow> (k, v) \<in> set (entries m) \<longleftrightarrow> get m k = Some v"
begin

lemma get_empty: "get empty k = None"
  using entries_get [OF ok_empty] by (cases "get empty k") (auto simp: entries_empty)

lemma keys_distinct: "ok m \<Longrightarrow> distinct (map fst (entries m))"
  using entries_sorted by (simp add: strict_sorted_iff)

lemma entries_distinct: "ok m \<Longrightarrow> distinct (entries m)"
  using keys_distinct distinct_map by blast

text \<open>Iteration order is determined by the contents.\<close>

lemma entries_ext:
  assumes "ok m" and "ok m'" and same: "\<And>k. get m k = get m' k"
  shows "entries m = entries m'"
proof -
  have sub: "set (entries m) = set (entries m')"
    using entries_get [OF assms(1)] entries_get [OF assms(2)] same by (auto simp: set_eq_iff)
  show ?thesis
  proof (rule map_sorted_distinct_set_unique [where f = fst])
    show "inj_on fst (set (entries m) \<union> set (entries m'))"
      using keys_distinct [OF assms(1)] sub by (simp add: distinct_map)
    show "sorted (map fst (entries m))" "sorted (map fst (entries m'))"
      using entries_sorted assms(1,2) by (auto simp: strict_sorted_iff)
  qed (use keys_distinct assms(1,2) sub in auto)
qed

lemma ins_overwrite: "ok m \<Longrightarrow> entries (ins k v (ins k w m)) = entries (ins k v m)"
  by (intro entries_ext ok_ins) (auto simp: get_ins ok_ins)

lemma ins_commute: "ok m \<Longrightarrow> k \<noteq> k' \<Longrightarrow> entries (ins k v (ins k' w m)) = entries (ins k' w (ins k v m))"
  by (intro entries_ext ok_ins) (auto simp: get_ins ok_ins)

end

section \<open>Sorted association lists\<close>

type_synonym ('k, 'v) btree_map = "('k \<times> 'v) list"

definition om_get :: "('k, 'v) btree_map \<Rightarrow> 'k \<Rightarrow> 'v option" where
  "om_get m k = map_of m k"

fun om_insert :: "'k::linorder \<Rightarrow> 'v \<Rightarrow> ('k, 'v) btree_map \<Rightarrow> ('k, 'v) btree_map" where
  "om_insert k v [] = [(k, v)]"
| "om_insert k v ((k', v') # m) =
     (if k < k' then (k, v) # (k', v') # m
      else if k = k' then (k, v) # m
      else (k', v') # om_insert k v m)"

definition om_ok :: "('k::linorder, 'v) btree_map \<Rightarrow> bool" where
  "om_ok m \<longleftrightarrow> sorted_wrt (<) (map fst m)"

lemma om_get_insert: "om_get (om_insert k v m) k' = (if k' = k then Some v else om_get m k')"
  by (induction k v m rule: om_insert.induct) (auto simp: om_get_def)

lemma om_insert_keys: "fst ` set (om_insert k v m) = insert k (fst ` set m)"
  by (induction k v m rule: om_insert.induct) auto

lemma om_ok_insert: "om_ok m \<Longrightarrow> om_ok (om_insert k v m)"
proof (induction k v m rule: om_insert.induct)
  case (2 k v k' v' m)
  have "k' < x" if "x \<in> fst ` set (om_insert k v m)" "k' < k" for x
    using that 2(2) by (auto simp: om_insert_keys om_ok_def)
  with 2 show ?case
    by (fastforce simp: om_ok_def)
qed (simp add: om_ok_def)

lemma om_entries: "om_ok m \<Longrightarrow> (k, v) \<in> set m \<longleftrightarrow> om_get m k = Some v"
  by (simp add: om_get_def om_ok_def strict_sorted_iff)

interpretation bt: ordered_map "[]" om_get om_insert id om_ok
  by unfold_locales (auto simp: om_get_insert om_ok_insert om_entries om_ok_def [symmetric], auto simp: om_ok_def)

text \<open>Sums over the values change by the inserted value when the key is new or replaced.\<close>

lemma sum_om_insert_new:
  fixes f :: "'v \<Rightarrow> nat"
  assumes "om_get m k = None"
  shows "sum_list (map (\<lambda>e. f (snd e)) (om_insert k v m)) = f v + sum_list (map (\<lambda>e. f (snd e)) m)"
  using assms by (induction k v m rule: om_insert.induct) (auto simp: om_get_def split: if_splits)

lemma sum_om_insert_update:
  fixes f :: "'v \<Rightarrow> nat"
  assumes "om_get m k = Some w" and "om_ok m"
  shows "sum_list (map (\<lambda>e. f (snd e)) (om_insert k v m)) + f w = f v + sum_list (map (\<lambda>e. f (snd e)) m)"
  using assms
proof (induction k v m rule: om_insert.induct)
  case (2 k v k' v' m)
  have "k' < x" if "x \<in> fst ` set m" for x
    using 2(3) that by (auto simp: om_ok_def)
  moreover have "k \<in> fst ` set m" if "k \<noteq> k'"
    using 2(2) that by (auto simp: om_get_def dest!: map_of_SomeD intro: rev_image_eqI)
  ultimately show ?case
    using 2 by (fastforce simp: om_get_def om_ok_def)
qed (simp add: om_get_def)

end
