(* ===== verification/Dictionary.thy ===== *)
theory Dictionary
  imports Ordered_Map
begin

text \<open>
  The dictionaries of one segment (\<open>crates/kronika-format/src/dictionary.rs\<close>, \<open>str_id.rs\<close>): limits,
  the accumulated requirements of a value, the single insertion path with its collision, placement
  and capacity checks, the public \<open>intern*\<close> calls, and the read views.  The hash functions of the
  external crates (\<open>xxh3_64\<close> and SHA-256) are parameters.  Lengths and byte counts are natural
  numbers.
\<close>

section \<open>Limits\<close>

definition DEFAULT_BLOB_THRESHOLD :: nat where
  "DEFAULT_BLOB_THRESHOLD = 4 * 1024"

definition DEFAULT_TRUNCATE_LIMIT :: nat where
  "DEFAULT_TRUNCATE_LIMIT = 1024 * 1024"

definition DEFAULT_MAX_TOTAL_BYTES :: nat where
  "DEFAULT_MAX_TOTAL_BYTES = 64 * 1024 * 1024"

record dict_limits =
  dl_blob_threshold :: nat
  dl_truncate_limit :: nat
  dl_max_total_bytes :: nat

datatype invalid_limits = InvalidLimits nat nat nat

definition validate_limits :: "dict_limits \<Rightarrow> invalid_limits + dict_limits" where
  "validate_limits limits =
     (if dl_blob_threshold limits = 0
         \<or> dl_blob_threshold limits > dl_truncate_limit limits
         \<or> dl_truncate_limit limits > dl_max_total_bytes limits
      then Inl (InvalidLimits (dl_blob_threshold limits) (dl_truncate_limit limits) (dl_max_total_bytes limits))
      else Inr limits)"

definition dict_limits_new :: "nat \<Rightarrow> nat \<Rightarrow> invalid_limits + dict_limits" where
  "dict_limits_new blob_threshold truncate_limit =
     validate_limits \<lparr>dl_blob_threshold = blob_threshold, dl_truncate_limit = truncate_limit,
       dl_max_total_bytes = DEFAULT_MAX_TOTAL_BYTES\<rparr>"

definition with_max_total_bytes :: "dict_limits \<Rightarrow> nat \<Rightarrow> invalid_limits + dict_limits" where
  "with_max_total_bytes limits max_total_bytes = validate_limits (limits\<lparr>dl_max_total_bytes := max_total_bytes\<rparr>)"

definition dict_limits_default :: dict_limits where
  "dict_limits_default = \<lparr>dl_blob_threshold = DEFAULT_BLOB_THRESHOLD,
     dl_truncate_limit = DEFAULT_TRUNCATE_LIMIT, dl_max_total_bytes = DEFAULT_MAX_TOTAL_BYTES\<rparr>"

section \<open>Ids and errors\<close>

text \<open>A \<open>StrId\<close> is a non-zero \<open>u64\<close>; \<open>StrId::of\<close> hashes the value.\<close>

type_synonym str_id = u64

definition str_id_of :: "(u8 list \<Rightarrow> u64) \<Rightarrow> u8 list \<Rightarrow> str_id option" where
  "str_id_of xxh bytes = (if xxh bytes = 0 then None else Some (xxh bytes))"

definition str_id_from_raw :: "u64 \<Rightarrow> str_id option" where
  "str_id_from_raw raw = (if raw = 0 then None else Some raw)"

datatype dict_error = Collision u64 | PlacementConflict str_id | Full nat nat

definition id_or_collision :: "str_id option \<Rightarrow> dict_error + str_id" where
  "id_or_collision hashed = (case hashed of Some sid \<Rightarrow> Inr sid | None \<Rightarrow> Inl (Collision 0))"

section \<open>Stored values\<close>

record requirements =
  rq_blob :: bool
  rq_hot_hard :: bool
  rq_hot_soft :: bool

definition no_requirements :: requirements where
  "no_requirements = \<lparr>rq_blob = False, rq_hot_hard = False, rq_hot_soft = False\<rparr>"

definition merge_requirements :: "requirements \<Rightarrow> requirements \<Rightarrow> requirements" where
  "merge_requirements a b = \<lparr>rq_blob = (rq_blob a \<or> rq_blob b),
     rq_hot_hard = (rq_hot_hard a \<or> rq_hot_hard b), rq_hot_soft = (rq_hot_soft a \<or> rq_hot_soft b)\<rparr>"

record stored =
  st_bytes :: "u8 list"
  st_full_len :: nat
  st_full_sha256 :: "u8 list option"
  st_oversized :: bool
  st_req :: requirements

definition is_blob :: "stored \<Rightarrow> bool" where
  "is_blob s \<longleftrightarrow> rq_blob (st_req s) \<or> st_oversized s"

definition is_hot :: "stored \<Rightarrow> bool" where
  "is_hot s \<longleftrightarrow> \<not> is_blob s \<and> (rq_hot_hard (st_req s) \<or> rq_hot_soft (st_req s))"

record segment_dicts =
  sd_limits :: dict_limits
  sd_entries :: "(str_id, stored) btree_map"
  sd_stored_bytes :: nat

definition dicts_new :: "dict_limits \<Rightarrow> segment_dicts" where
  "dicts_new limits = \<lparr>sd_limits = limits, sd_entries = [], sd_stored_bytes = 0\<rparr>"

section \<open>The insertion path\<close>

definition check_same_value ::
    "(u8 list \<Rightarrow> u8 list) \<Rightarrow> str_id \<Rightarrow> stored \<Rightarrow> u8 list \<Rightarrow> dict_error + unit" where
  "check_same_value sha sid existing bytes =
     (if st_full_len existing = length bytes
         \<and> (case st_full_sha256 existing of
              None \<Rightarrow> st_bytes existing = bytes
            | Some digest \<Rightarrow> sha bytes = digest)
      then Inr () else Inl (Collision sid))"

text \<open>The value record a new id gets.\<close>

definition new_stored :: "(u8 list \<Rightarrow> u8 list) \<Rightarrow> dict_limits \<Rightarrow> u8 list \<Rightarrow> requirements \<Rightarrow> stored" where
  "new_stored sha limits bytes req =
     (let truncated = length bytes > dl_truncate_limit limits in
      \<lparr>st_bytes = (if truncated then take (dl_truncate_limit limits) bytes else bytes),
       st_full_len = length bytes,
       st_full_sha256 = (if truncated then Some (sha bytes) else None),
       st_oversized = (length bytes \<ge> dl_blob_threshold limits),
       st_req = req\<rparr>)"

text \<open>The result and the dictionaries after the call.\<close>

definition try_insert ::
    "(u8 list \<Rightarrow> u8 list) \<Rightarrow> str_id \<Rightarrow> u8 list \<Rightarrow> requirements \<Rightarrow> segment_dicts
       \<Rightarrow> (dict_error + str_id) \<times> segment_dicts" where
  "try_insert sha sid bytes req d =
     (case om_get (sd_entries d) sid of
        Some existing \<Rightarrow>
          (case check_same_value sha sid existing bytes of
             Inl e \<Rightarrow> (Inl e, d)
           | Inr _ \<Rightarrow>
               let merged = merge_requirements (st_req existing) req in
               if rq_hot_hard merged \<and> (rq_blob merged \<or> st_oversized existing)
               then (Inl (PlacementConflict sid), d)
               else (Inr sid, d\<lparr>sd_entries := om_insert sid (existing\<lparr>st_req := merged\<rparr>) (sd_entries d)\<rparr>))
      | None \<Rightarrow>
          let oversized = length bytes \<ge> dl_blob_threshold (sd_limits d) in
          if rq_hot_hard req \<and> (rq_blob req \<or> oversized) then (Inl (PlacementConflict sid), d)
          else
            let stored_len = min (length bytes) (dl_truncate_limit (sd_limits d)) in
            if \<not> rq_hot_hard req
               \<and> saturating_add (sd_stored_bytes d) stored_len > dl_max_total_bytes (sd_limits d)
            then (Inl (Full (sd_stored_bytes d) (dl_max_total_bytes (sd_limits d))), d)
            else (Inr sid, d\<lparr>sd_stored_bytes := sd_stored_bytes d + stored_len,
                            sd_entries := om_insert sid (new_stored sha (sd_limits d) bytes req) (sd_entries d)\<rparr>))"

definition dict_insert ::
    "(u8 list \<Rightarrow> u64) \<Rightarrow> (u8 list \<Rightarrow> u8 list) \<Rightarrow> u8 list \<Rightarrow> requirements \<Rightarrow> segment_dicts
       \<Rightarrow> (dict_error + str_id) \<times> segment_dicts" where
  "dict_insert xxh sha bytes req d =
     (case id_or_collision (str_id_of xxh bytes) of
        Inl e \<Rightarrow> (Inl e, d)
      | Inr sid \<Rightarrow> try_insert sha sid bytes req d)"

definition dict_intern where
  "dict_intern xxh sha bytes d = dict_insert xxh sha bytes no_requirements d"

definition dict_intern_blob where
  "dict_intern_blob xxh sha bytes d = dict_insert xxh sha bytes (no_requirements\<lparr>rq_blob := True\<rparr>) d"

definition dict_intern_hot where
  "dict_intern_hot xxh sha bytes d = dict_insert xxh sha bytes (no_requirements\<lparr>rq_hot_hard := True\<rparr>) d"

definition dict_intern_hot_best_effort ::
    "(u8 list \<Rightarrow> u64) \<Rightarrow> (u8 list \<Rightarrow> u8 list) \<Rightarrow> u8 list \<Rightarrow> segment_dicts
       \<Rightarrow> (dict_error + str_id \<times> bool) \<times> segment_dicts" where
  "dict_intern_hot_best_effort xxh sha bytes d =
     (case dict_insert xxh sha bytes (no_requirements\<lparr>rq_hot_soft := True\<rparr>) d of
        (Inl e, d') \<Rightarrow> (Inl e, d')
      | (Inr sid, d') \<Rightarrow>
          (Inr (sid, (case om_get (sd_entries d') sid of None \<Rightarrow> False | Some s \<Rightarrow> is_hot s)), d'))"

section \<open>Views\<close>

record blob_entry =
  be_str_id :: str_id
  be_stored_bytes :: "u8 list"
  be_full_len :: nat
  be_truncated :: bool
  be_full_sha256 :: "u8 list option"

datatype resolved = Str "u8 list" | Blob blob_entry

datatype placement = PStrings | PBlobs

datatype hot_mark = HotNone | HotSoft | HotHard

record entry_snapshot =
  es_str_id :: str_id
  es_stored_bytes :: "u8 list"
  es_full_len :: nat
  es_truncated :: bool
  es_full_sha256 :: "u8 list option"
  es_placement :: placement
  es_hot :: hot_mark
  es_blob_required :: bool

record dict_stats =
  ds_string_count :: nat
  ds_blob_count :: nat
  ds_hot_count :: nat
  ds_string_bytes :: nat
  ds_blob_bytes :: nat

definition blob_entry_of :: "str_id \<Rightarrow> stored \<Rightarrow> blob_entry" where
  "blob_entry_of sid s = \<lparr>be_str_id = sid, be_stored_bytes = st_bytes s, be_full_len = st_full_len s,
     be_truncated = (st_full_sha256 s \<noteq> None), be_full_sha256 = st_full_sha256 s\<rparr>"

definition resolve :: "segment_dicts \<Rightarrow> str_id \<Rightarrow> resolved option" where
  "resolve d sid =
     (case om_get (sd_entries d) sid of
        None \<Rightarrow> None
      | Some s \<Rightarrow> Some (if is_blob s then Blob (blob_entry_of sid s) else Str (st_bytes s)))"

definition dict_len :: "segment_dicts \<Rightarrow> nat" where
  "dict_len d = length (sd_entries d)"

definition dict_strings :: "segment_dicts \<Rightarrow> (str_id \<times> u8 list) list" where
  "dict_strings d = map (\<lambda>(sid, s). (sid, st_bytes s)) (filter (\<lambda>(_, s). \<not> is_blob s) (sd_entries d))"

definition dict_blobs :: "segment_dicts \<Rightarrow> blob_entry list" where
  "dict_blobs d = map (\<lambda>(sid, s). blob_entry_of sid s) (filter (\<lambda>(_, s). is_blob s) (sd_entries d))"

definition dict_hot_strings :: "segment_dicts \<Rightarrow> (str_id \<times> u8 list) list" where
  "dict_hot_strings d = map (\<lambda>(sid, s). (sid, st_bytes s)) (filter (\<lambda>(_, s). is_hot s) (sd_entries d))"

definition snapshot_of :: "str_id \<Rightarrow> stored \<Rightarrow> entry_snapshot" where
  "snapshot_of sid s = \<lparr>es_str_id = sid, es_stored_bytes = st_bytes s, es_full_len = st_full_len s,
     es_truncated = (st_full_sha256 s \<noteq> None), es_full_sha256 = st_full_sha256 s,
     es_placement = (if is_blob s then PBlobs else PStrings),
     es_hot = (if rq_hot_hard (st_req s) then HotHard else if rq_hot_soft (st_req s) then HotSoft else HotNone),
     es_blob_required = rq_blob (st_req s)\<rparr>"

definition dict_entries :: "segment_dicts \<Rightarrow> entry_snapshot list" where
  "dict_entries d = map (\<lambda>(sid, s). snapshot_of sid s) (sd_entries d)"

fun stats_step :: "dict_stats \<Rightarrow> stored \<Rightarrow> dict_stats" where
  "stats_step stats s =
     (if is_blob s then
        stats\<lparr>ds_blob_count := ds_blob_count stats + 1,
              ds_blob_bytes := ds_blob_bytes stats + length (st_bytes s)\<rparr>
      else
        let stats1 = stats\<lparr>ds_string_count := ds_string_count stats + 1,
                           ds_string_bytes := ds_string_bytes stats + length (st_bytes s)\<rparr> in
        if is_hot s then stats1\<lparr>ds_hot_count := ds_hot_count stats1 + 1\<rparr> else stats1)"

definition empty_stats :: dict_stats where
  "empty_stats = \<lparr>ds_string_count = 0, ds_blob_count = 0, ds_hot_count = 0, ds_string_bytes = 0, ds_blob_bytes = 0\<rparr>"

definition dict_stats_of :: "segment_dicts \<Rightarrow> dict_stats" where
  "dict_stats_of d = foldl stats_step empty_stats (map snd (sd_entries d))"

section \<open>Sequences of calls\<close>

datatype dict_call = CIntern "u8 list" | CBlob "u8 list" | CHot "u8 list" | CBestEffort "u8 list"

fun call_value :: "dict_call \<Rightarrow> u8 list" where
  "call_value (CIntern v) = v"
| "call_value (CBlob v) = v"
| "call_value (CHot v) = v"
| "call_value (CBestEffort v) = v"

fun call_req :: "dict_call \<Rightarrow> requirements" where
  "call_req (CIntern v) = no_requirements"
| "call_req (CBlob v) = no_requirements\<lparr>rq_blob := True\<rparr>"
| "call_req (CHot v) = no_requirements\<lparr>rq_hot_hard := True\<rparr>"
| "call_req (CBestEffort v) = no_requirements\<lparr>rq_hot_soft := True\<rparr>"

text \<open>One public call; the hot flag of the best-effort call is dropped.\<close>

fun do_call ::
    "(u8 list \<Rightarrow> u64) \<Rightarrow> (u8 list \<Rightarrow> u8 list) \<Rightarrow> dict_call \<Rightarrow> segment_dicts
       \<Rightarrow> (dict_error + str_id) \<times> segment_dicts" where
  "do_call xxh sha (CIntern v) d = dict_intern xxh sha v d"
| "do_call xxh sha (CBlob v) d = dict_intern_blob xxh sha v d"
| "do_call xxh sha (CHot v) d = dict_intern_hot xxh sha v d"
| "do_call xxh sha (CBestEffort v) d =
     map_prod (map_sum (\<lambda>e. e) fst) (\<lambda>d'. d') (dict_intern_hot_best_effort xxh sha v d)"

lemma do_call_insert: "do_call xxh sha c d = dict_insert xxh sha (call_value c) (call_req c) d"
  by (cases c) (auto simp: dict_intern_def dict_intern_blob_def dict_intern_hot_def
      dict_intern_hot_best_effort_def split: prod.splits sum.splits)

text \<open>The dictionaries after a sequence of calls, failed ones included, and whether all succeeded.\<close>

fun run_calls :: "(u8 list \<Rightarrow> u64) \<Rightarrow> (u8 list \<Rightarrow> u8 list) \<Rightarrow> dict_call list \<Rightarrow> segment_dicts \<Rightarrow> segment_dicts" where
  "run_calls xxh sha [] d = d"
| "run_calls xxh sha (c # cs) d = run_calls xxh sha cs (snd (do_call xxh sha c d))"

fun all_ok :: "(u8 list \<Rightarrow> u64) \<Rightarrow> (u8 list \<Rightarrow> u8 list) \<Rightarrow> dict_call list \<Rightarrow> segment_dicts \<Rightarrow> bool" where
  "all_ok xxh sha [] d = True"
| "all_ok xxh sha (c # cs) d =
     (\<not> isl (fst (do_call xxh sha c d)) \<and> all_ok xxh sha cs (snd (do_call xxh sha c d)))"

lemma run_calls_append: "run_calls xxh sha (cs @ cs') d = run_calls xxh sha cs' (run_calls xxh sha cs d)"
  by (induction cs arbitrary: d) auto

section \<open>The invariant\<close>

text \<open>
  Every entry stores one of the interned values under its hash: the full value or its prefix, the
  length and, when truncated, the digest of the full value; strict-hot values are in
  \<open>dict.strings\<close>.
\<close>

definition stores :: "(u8 list \<Rightarrow> u64) \<Rightarrow> (u8 list \<Rightarrow> u8 list) \<Rightarrow> dict_limits \<Rightarrow> u8 list \<Rightarrow> str_id \<Rightarrow> stored \<Rightarrow> bool" where
  "stores xxh sha limits v i s \<longleftrightarrow> i = xxh v \<and> i \<noteq> 0 \<and> (\<exists>r. s = new_stored sha limits v r)
     \<and> \<not> (rq_hot_hard (st_req s) \<and> is_blob s)"

definition stored_sum :: "segment_dicts \<Rightarrow> nat" where
  "stored_sum d = sum_list (map (\<lambda>e. length (st_bytes (snd e))) (sd_entries d))"

definition strict_hot_sum :: "segment_dicts \<Rightarrow> nat" where
  "strict_hot_sum d =
     sum_list (map (\<lambda>e. if rq_hot_hard (st_req (snd e)) then length (st_bytes (snd e)) else 0) (sd_entries d))"

definition dict_inv :: "(u8 list \<Rightarrow> u64) \<Rightarrow> (u8 list \<Rightarrow> u8 list) \<Rightarrow> u8 list set \<Rightarrow> segment_dicts \<Rightarrow> bool" where
  "dict_inv xxh sha V d \<longleftrightarrow> om_ok (sd_entries d)
     \<and> (\<forall>(i, s) \<in> set (sd_entries d). \<exists>v \<in> V. stores xxh sha (sd_limits d) v i s)
     \<and> sd_stored_bytes d = stored_sum d
     \<and> sd_stored_bytes d \<le> dl_max_total_bytes (sd_limits d) + strict_hot_sum d"

lemma dict_inv_get:
  "dict_inv xxh sha V d \<Longrightarrow> om_get (sd_entries d) i = Some s \<Longrightarrow>
     \<exists>v \<in> V. stores xxh sha (sd_limits d) v i s"
  using om_entries [of "sd_entries d" i s] by (auto simp: dict_inv_def)

lemma dict_inv_mono: "dict_inv xxh sha V d \<Longrightarrow> V \<subseteq> W \<Longrightarrow> dict_inv xxh sha W d"
  by (fastforce simp: dict_inv_def)

lemma dict_inv_new: "dict_inv xxh sha V (dicts_new limits)"
  by (simp add: dict_inv_def dicts_new_def om_ok_def stored_sum_def strict_hot_sum_def)

text \<open>A call fails and changes nothing, adds requirements to an entry, or adds an entry.\<close>

lemma dict_insert_cases:
  obtains (failed) e where "dict_insert xxh sha v req d = (Inl e, d)"
  | (merged) s where "dict_insert xxh sha v req d =
        (Inr (xxh v), d\<lparr>sd_entries := om_insert (xxh v) (s\<lparr>st_req := merge_requirements (st_req s) req\<rparr>) (sd_entries d)\<rparr>)"
      and "xxh v \<noteq> 0" and "om_get (sd_entries d) (xxh v) = Some s" and "check_same_value sha (xxh v) s v = Inr ()"
      and "\<not> (rq_hot_hard (merge_requirements (st_req s) req) \<and> (rq_blob (merge_requirements (st_req s) req) \<or> st_oversized s))"
  | (added) "dict_insert xxh sha v req d =
        (Inr (xxh v), d\<lparr>sd_stored_bytes := sd_stored_bytes d + min (length v) (dl_truncate_limit (sd_limits d)),
                        sd_entries := om_insert (xxh v) (new_stored sha (sd_limits d) v req) (sd_entries d)\<rparr>)"
      and "xxh v \<noteq> 0" and "om_get (sd_entries d) (xxh v) = None"
      and "\<not> (rq_hot_hard req \<and> (rq_blob req \<or> dl_blob_threshold (sd_limits d) \<le> length v))"
      and "rq_hot_hard req \<or> saturating_add (sd_stored_bytes d) (min (length v) (dl_truncate_limit (sd_limits d)))
             \<le> dl_max_total_bytes (sd_limits d)"
proof (cases "xxh v = 0")
  case True
  then show ?thesis by (intro failed) (simp add: dict_insert_def str_id_of_def id_or_collision_def)
next
  case False
  then have ins: "dict_insert xxh sha v req d = try_insert sha (xxh v) v req d"
    by (simp add: dict_insert_def str_id_of_def id_or_collision_def)
  show ?thesis
  proof (cases "om_get (sd_entries d) (xxh v)")
    case None
    consider (conflict) "rq_hot_hard req \<and> (rq_blob req \<or> dl_blob_threshold (sd_limits d) \<le> length v)"
      | (full) "\<not> (rq_hot_hard req \<and> (rq_blob req \<or> dl_blob_threshold (sd_limits d) \<le> length v))"
          "\<not> rq_hot_hard req" "saturating_add (sd_stored_bytes d) (min (length v) (dl_truncate_limit (sd_limits d)))
             > dl_max_total_bytes (sd_limits d)"
      | (room) "\<not> (rq_hot_hard req \<and> (rq_blob req \<or> dl_blob_threshold (sd_limits d) \<le> length v))"
          "rq_hot_hard req \<or> saturating_add (sd_stored_bytes d) (min (length v) (dl_truncate_limit (sd_limits d)))
             \<le> dl_max_total_bytes (sd_limits d)"
      by linarith
    then show ?thesis
    proof cases
      case conflict
      with None show ?thesis by (intro failed) (simp add: ins try_insert_def)
    next
      case full
      with None show ?thesis by (intro failed) (simp add: ins try_insert_def Let_def)
    next
      case room
      have "\<not> (\<not> rq_hot_hard req
          \<and> dl_max_total_bytes (sd_limits d) < saturating_add (sd_stored_bytes d) (min (length v) (dl_truncate_limit (sd_limits d))))"
        using room(2) by auto
      with None False room show ?thesis
        by (intro added) (simp_all only: ins try_insert_def Let_def option.case if_False not_False_eq_True)
    qed
  next
    case (Some s)
    show ?thesis
    proof (cases "check_same_value sha (xxh v) s v")
      case (Inl e)
      with Some show ?thesis by (intro failed) (simp add: ins try_insert_def)
    next
      case (Inr u)
      show ?thesis
      proof (cases "rq_hot_hard (merge_requirements (st_req s) req)
          \<and> (rq_blob (merge_requirements (st_req s) req) \<or> st_oversized s)")
        case True
        with Some Inr show ?thesis by (intro failed) (simp add: ins try_insert_def)
      next
        case ok: False
        with False Some Inr show ?thesis by (intro merged [of s]) (simp_all add: ins try_insert_def Let_def)
      qed
    qed
  qed
qed

lemma length_new_stored: "length (st_bytes (new_stored sha limits v req)) = min (length v) (dl_truncate_limit limits)"
  by (simp add: new_stored_def Let_def)

lemma new_stored_simps [simp]:
  "st_req (new_stored sha limits v req) = req"
  "st_oversized (new_stored sha limits v req) = (dl_blob_threshold limits \<le> length v)"
  "st_full_len (new_stored sha limits v req) = length v"
  "st_full_sha256 (new_stored sha limits v req) = (if dl_truncate_limit limits < length v then Some (sha v) else None)"
  "st_bytes (new_stored sha limits v req) = take (dl_truncate_limit limits) v"
  "(new_stored sha limits v req)\<lparr>st_req := req'\<rparr> = new_stored sha limits v req'"
  by (simp_all add: new_stored_def Let_def)

lemma stores_merge:
  assumes "stores xxh sha limits v i s"
    and "\<not> (rq_hot_hard (merge_requirements (st_req s) req) \<and> (rq_blob (merge_requirements (st_req s) req) \<or> st_oversized s))"
  shows "stores xxh sha limits v i (s\<lparr>st_req := merge_requirements (st_req s) req\<rparr>)"
  using assms by (auto simp: stores_def is_blob_def)

lemma stores_new:
  "xxh v \<noteq> 0 \<Longrightarrow> \<not> (rq_hot_hard req \<and> (rq_blob req \<or> dl_blob_threshold limits \<le> length v))
     \<Longrightarrow> stores xxh sha limits v (xxh v) (new_stored sha limits v req)"
  by (auto simp: stores_def is_blob_def)

lemma limits_insert [simp]: "sd_limits (snd (dict_insert xxh sha v req d)) = sd_limits d"
  by (rule dict_insert_cases [of xxh sha v req d]) simp_all

lemma set_om_insert: "om_ok m \<Longrightarrow> e \<in> set (om_insert k v m) \<Longrightarrow> e = (k, v) \<or> e \<in> set m"
  using om_entries [OF om_ok_insert, of m "fst e" "snd e" k v] om_entries [of m "fst e" "snd e"]
  by (auto simp: om_get_insert split: if_splits)

lemma dict_inv_insert:
  assumes inv: "dict_inv xxh sha V d" and v: "v \<in> V" and cap: "dl_max_total_bytes (sd_limits d) < usize_limit - 1"
  shows "dict_inv xxh sha V (snd (dict_insert xxh sha v req d))"
proof (cases rule: dict_insert_cases [of xxh sha v req d])
  case (failed e)
  with inv show ?thesis by simp
next
  case (merged s)
  let ?s = "s\<lparr>st_req := merge_requirements (st_req s) req\<rparr>"
  let ?m = "om_insert (xxh v) ?s (sd_entries d)"
  have ok: "om_ok (sd_entries d)" using inv by (simp add: dict_inv_def)
  obtain w where w: "w \<in> V" "stores xxh sha (sd_limits d) w (xxh v) s"
    using dict_inv_get [OF inv merged(3)] by blast
  have st: "stores xxh sha (sd_limits d) w (xxh v) ?s"
    by (rule stores_merge [OF w(2) merged(5)])
  have all: "\<forall>(i, s) \<in> set ?m. \<exists>v \<in> V. stores xxh sha (sd_limits d) v i s"
    using inv w(1) st set_om_insert [OF ok] by (fastforce simp: dict_inv_def)
  have "sum_list (map (\<lambda>e. length (st_bytes (snd e))) ?m) = stored_sum d"
    using sum_om_insert_update [OF merged(3) ok, of "\<lambda>s. length (st_bytes s)" ?s] by (simp add: stored_sum_def)
  moreover have "strict_hot_sum d \<le> sum_list (map (\<lambda>e. if rq_hot_hard (st_req (snd e)) then length (st_bytes (snd e)) else 0) ?m)"
    using sum_om_insert_update [OF merged(3) ok, of "\<lambda>s. if rq_hot_hard (st_req s) then length (st_bytes s) else 0" ?s]
    by (auto simp: strict_hot_sum_def merge_requirements_def split: if_splits)
  ultimately show ?thesis
    using inv merged(1) all om_ok_insert [OF ok] by (simp add: dict_inv_def stored_sum_def strict_hot_sum_def)
next
  case added
  let ?s = "new_stored sha (sd_limits d) v req"
  let ?m = "om_insert (xxh v) ?s (sd_entries d)"
  have ok: "om_ok (sd_entries d)" using inv by (simp add: dict_inv_def)
  have all: "\<forall>(i, s) \<in> set ?m. \<exists>v \<in> V. stores xxh sha (sd_limits d) v i s"
    using inv v stores_new [where xxh = xxh and v = v and sha = sha, OF added(2,4)] set_om_insert [OF ok] by (fastforce simp: dict_inv_def)
  have len: "length (st_bytes ?s) = min (length v) (dl_truncate_limit (sd_limits d))"
    by (rule length_new_stored)
  have sum: "sum_list (map (\<lambda>e. length (st_bytes (snd e))) ?m) = length (st_bytes ?s) + stored_sum d"
    using sum_om_insert_new [OF added(3), of "\<lambda>s. length (st_bytes s)" ?s] by (simp add: stored_sum_def)
  have hot: "sum_list (map (\<lambda>e. if rq_hot_hard (st_req (snd e)) then length (st_bytes (snd e)) else 0) ?m) =
      (if rq_hot_hard req then length (st_bytes ?s) else 0) + strict_hot_sum d"
    using sum_om_insert_new [OF added(3), of "\<lambda>s. if rq_hot_hard (st_req s) then length (st_bytes s) else 0" ?s]
    by (simp add: strict_hot_sum_def new_stored_def Let_def)
  have "sd_stored_bytes d + length (st_bytes ?s) \<le> dl_max_total_bytes (sd_limits d)" if "\<not> rq_hot_hard req"
    using added(5) that cap by (simp add: len saturating_add_def min_def split: if_splits)
  then show ?thesis
    using inv added(1) all om_ok_insert [OF ok] sum hot len
    by (auto simp: dict_inv_def stored_sum_def strict_hot_sum_def)
qed

section \<open>Runs\<close>

definition usable :: "dict_limits \<Rightarrow> bool" where
  "usable limits \<longleftrightarrow> dl_max_total_bytes limits < usize_limit - 1"

lemma limits_call [simp]: "sd_limits (snd (do_call xxh sha c d)) = sd_limits d"
  by (simp add: do_call_insert)

lemma limits_run [simp]: "sd_limits (run_calls xxh sha cs d) = sd_limits d"
  by (induction cs arbitrary: d) auto

lemma dict_inv_call:
  "dict_inv xxh sha V d \<Longrightarrow> call_value c \<in> V \<Longrightarrow> usable (sd_limits d) \<Longrightarrow>
     dict_inv xxh sha V (snd (do_call xxh sha c d))"
  using dict_inv_insert [of xxh sha V d "call_value c" "call_req c"] by (simp add: do_call_insert usable_def)

lemma dict_inv_run:
  "dict_inv xxh sha V d \<Longrightarrow> call_value ` set cs \<subseteq> V \<Longrightarrow> usable (sd_limits d) \<Longrightarrow>
     dict_inv xxh sha V (run_calls xxh sha cs d)"
proof (induction cs arbitrary: d)
  case (Cons c cs)
  then show ?case using dict_inv_call [of xxh sha V d c] by simp
qed simp

text \<open>The requirements a set of calls puts on an id.\<close>

definition reqs_of :: "(u8 list \<Rightarrow> u64) \<Rightarrow> dict_call set \<Rightarrow> str_id \<Rightarrow> requirements" where
  "reqs_of xxh C i =
     \<lparr>rq_blob = (\<exists>c \<in> C. xxh (call_value c) = i \<and> rq_blob (call_req c)),
      rq_hot_hard = (\<exists>c \<in> C. xxh (call_value c) = i \<and> rq_hot_hard (call_req c)),
      rq_hot_soft = (\<exists>c \<in> C. xxh (call_value c) = i \<and> rq_hot_soft (call_req c))\<rparr>"

text \<open>What a set of successful calls has stored.\<close>

definition holds :: "(u8 list \<Rightarrow> u64) \<Rightarrow> (u8 list \<Rightarrow> u8 list) \<Rightarrow> dict_call set \<Rightarrow> segment_dicts \<Rightarrow> bool" where
  "holds xxh sha C d \<longleftrightarrow> om_ok (sd_entries d)
     \<and> (\<forall>i. om_get (sd_entries d) i = None \<longleftrightarrow> i \<notin> (\<lambda>c. xxh (call_value c)) ` C)
     \<and> (\<forall>i s. om_get (sd_entries d) i = Some s \<longrightarrow>
          (\<exists>v \<in> call_value ` C. s = new_stored sha (sd_limits d) v (reqs_of xxh C i)
             \<and> (\<forall>c \<in> C. xxh (call_value c) = i \<longrightarrow> call_value c = v)))"

lemma reqs_of_insert:
  "reqs_of xxh (insert c C) i =
     (if xxh (call_value c) = i then merge_requirements (reqs_of xxh C i) (call_req c) else reqs_of xxh C i)"
  by (auto simp: reqs_of_def merge_requirements_def)

lemma reqs_of_none: "i \<notin> (\<lambda>c. xxh (call_value c)) ` C \<Longrightarrow> reqs_of xxh C i = no_requirements"
  by (auto simp: reqs_of_def no_requirements_def)

lemma merge_no_requirements [simp]: "merge_requirements no_requirements r = r"
  by (cases r) (simp add: merge_requirements_def no_requirements_def)

lemma same_value_eq:
  assumes "check_same_value sha i (new_stored sha limits w r) v = Inr ()"
    and "sha v = sha w \<Longrightarrow> v = w"
  shows "v = w"
  using assms by (auto simp: check_same_value_def split: if_splits)

lemma holds_insert:
  assumes h: "holds xxh sha C d" and ok: "\<not> isl (fst (do_call xxh sha c d))"
    and inj: "inj_on sha (call_value ` insert c C)"
  shows "holds xxh sha (insert c C) (snd (do_call xxh sha c d))"
proof -
  let ?v = "call_value c" and ?i = "xxh (call_value c)"
  have m: "om_ok (sd_entries d)" using h by (simp add: holds_def)
  show ?thesis
  proof (cases rule: dict_insert_cases [of xxh sha ?v "call_req c" d])
    case (failed e)
    with ok show ?thesis by (simp add: do_call_insert)
  next
    case (merged s)
    obtain w where w: "w \<in> call_value ` C" and s: "s = new_stored sha (sd_limits d) w (reqs_of xxh C ?i)"
      and u: "\<forall>c' \<in> C. xxh (call_value c') = ?i \<longrightarrow> call_value c' = w"
      using h merged(3) unfolding holds_def by blast
    have "check_same_value sha ?i (new_stored sha (sd_limits d) w (reqs_of xxh C ?i)) ?v = Inr ()"
      using merged(4) s by simp
    then have vw: "?v = w"
      by (rule same_value_eq) (use inj w in \<open>auto dest: inj_onD\<close>)
    let ?s = "s\<lparr>st_req := merge_requirements (st_req s) (call_req c)\<rparr>"
    have s': "?s = new_stored sha (sd_limits d) w (reqs_of xxh (insert c C) ?i)"
      by (simp add: s reqs_of_insert)
    show ?thesis
      unfolding holds_def do_call_insert merged(1)
    proof (intro conjI allI impI, goal_cases)
      case 1
      then show ?case using om_ok_insert [OF m] by simp
    next
      case (2 i)
      then show ?case using h merged(3) by (auto simp: holds_def om_get_insert)
    next
      case (3 i t)
      show ?case
      proof (cases "i = ?i")
        case True
        with 3 s' vw u show ?thesis by (auto simp: om_get_insert)
      next
        case False
        with 3 have "om_get (sd_entries d) i = Some t" by (simp add: om_get_insert)
        with h False show ?thesis by (fastforce simp: holds_def reqs_of_insert)
      qed
    qed
  next
    case added
    have fresh: "?i \<notin> (\<lambda>c. xxh (call_value c)) ` C" using h added(3) by (simp add: holds_def)
    have s': "new_stored sha (sd_limits d) ?v (call_req c) = new_stored sha (sd_limits d) ?v (reqs_of xxh (insert c C) ?i)"
      using fresh by (simp add: reqs_of_insert reqs_of_none)
    show ?thesis
      unfolding holds_def do_call_insert added(1)
    proof (intro conjI allI impI, goal_cases)
      case 1
      then show ?case using om_ok_insert [OF m] by simp
    next
      case (2 i)
      then show ?case using h by (auto simp: holds_def om_get_insert)
    next
      case (3 i t)
      show ?case
      proof (cases "i = ?i")
        case True
        have u: "\<forall>c' \<in> insert c C. xxh (call_value c') = i \<longrightarrow> call_value c' = ?v"
        proof
          fix c' assume "c' \<in> insert c C"
          then consider "c' = c" | "xxh (call_value c') \<in> (\<lambda>c. xxh (call_value c)) ` C" by auto
          then show "xxh (call_value c') = i \<longrightarrow> call_value c' = ?v"
            using fresh True by cases metis+
        qed
        have t: "t = new_stored sha (sd_limits d) ?v (reqs_of xxh (insert c C) ?i)"
        proof -
          have "Some (new_stored sha (sd_limits d) ?v (call_req c)) = Some t"
            using 3 True by (simp add: om_get_insert)
          then show ?thesis unfolding s' by (simp only: option.inject)
        qed
        show ?thesis
        proof (rule bexI [of _ ?v], rule conjI [OF _ u])
        qed (use t True in simp_all)
      next
        case False
        with 3 have "om_get (sd_entries d) i = Some t" by (simp add: om_get_insert)
        with h False show ?thesis by (fastforce simp: holds_def reqs_of_insert)
      qed
    qed
  qed
qed

lemma holds_run:
  "holds xxh sha C d \<Longrightarrow> all_ok xxh sha cs d \<Longrightarrow> inj_on sha (call_value ` (C \<union> set cs)) \<Longrightarrow>
     holds xxh sha (C \<union> set cs) (run_calls xxh sha cs d)"
proof (induction cs arbitrary: C d)
  case Nil
  then show ?case by simp
next
  case (Cons c cs)
  have "holds xxh sha (insert c C) (snd (do_call xxh sha c d))"
    using Cons.prems by (intro holds_insert) (auto intro: inj_on_subset)
  then show ?case
    using Cons.IH [of "insert c C" "snd (do_call xxh sha c d)"] Cons.prems by simp
qed

lemma holds_new: "holds xxh sha {} (dicts_new limits)"
  by (simp add: holds_def dicts_new_def om_ok_def om_get_def)

lemma holds_unique:
  assumes "holds xxh sha C d" and "holds xxh sha C d'" and "sd_limits d = sd_limits d'"
  shows "sd_entries d = sd_entries d'"
proof -
  have "om_get (sd_entries d) i = om_get (sd_entries d') i" for i
  proof (cases "i \<in> (\<lambda>c. xxh (call_value c)) ` C")
    case False
    then have "om_get (sd_entries d) i = None" and "om_get (sd_entries d') i = None"
      using assms(1,2) unfolding holds_def by blast+
    then show ?thesis by simp
  next
    case True
    then obtain c where c: "c \<in> C" "xxh (call_value c) = i" by blast
    have "om_get x i = Some (new_stored sha (sd_limits d) (call_value c) (reqs_of xxh C i))"
      if "x = sd_entries d \<or> x = sd_entries d'" for x
      using that assms c True unfolding holds_def by (metis (no_types, lifting) not_None_eq)
    then show ?thesis by simp
  qed
  with bt.entries_ext [of "sd_entries d" "sd_entries d'"] assms show ?thesis
    by (simp add: holds_def)
qed

section \<open>Resolving\<close>

text \<open>An id issued for a value keeps naming that value.\<close>

definition names_value :: "(u8 list \<Rightarrow> u8 list) \<Rightarrow> segment_dicts \<Rightarrow> str_id \<Rightarrow> u8 list \<Rightarrow> bool" where
  "names_value sha d i v \<longleftrightarrow>
     (\<exists>r. om_get (sd_entries d) i = Some (new_stored sha (sd_limits d) v r))"

lemma names_value_call: "names_value sha d i v \<Longrightarrow> names_value sha (snd (do_call xxh sha c d)) i v"
  unfolding do_call_insert
  by (rule dict_insert_cases [of xxh sha "call_value c" "call_req c" d])
     (auto simp: names_value_def om_get_insert, blast+)

lemma names_value_run: "names_value sha d i v \<Longrightarrow> names_value sha (run_calls xxh sha cs d) i v"
  by (induction cs arbitrary: d) (auto intro: names_value_call)

lemma names_value_intern:
  assumes inv: "dict_inv xxh sha V d" and inj: "inj_on sha V" and v: "call_value c \<in> V"
    and ok: "fst (do_call xxh sha c d) = Inr i"
  shows "names_value sha (snd (do_call xxh sha c d)) i (call_value c)"
proof (cases rule: dict_insert_cases [of xxh sha "call_value c" "call_req c" d])
  case (failed e)
  with ok show ?thesis by (simp add: do_call_insert)
next
  case (merged s)
  obtain w r where w: "w \<in> V" and s: "s = new_stored sha (sd_limits d) w r"
    using dict_inv_get [OF inv merged(3)] by (auto simp: stores_def)
  have "check_same_value sha i (new_stored sha (sd_limits d) w r) (call_value c) = Inr ()"
    using merged(1,4) ok s by (simp add: do_call_insert)
  then have "call_value c = w"
    by (rule same_value_eq) (use inj v w in \<open>auto dest: inj_onD\<close>)
  with merged(1) ok s show ?thesis
    by (auto simp: names_value_def do_call_insert om_get_insert)
next
  case added
  with ok show ?thesis by (auto simp: names_value_def do_call_insert om_get_insert)
qed

text \<open>The reader's view of a value.\<close>

definition reads_as :: "(u8 list \<Rightarrow> u8 list) \<Rightarrow> dict_limits \<Rightarrow> str_id \<Rightarrow> u8 list \<Rightarrow> resolved \<Rightarrow> bool" where
  "reads_as sha limits i v r \<longleftrightarrow>
     (case r of
        Str bytes \<Rightarrow> bytes = v \<and> length v < dl_blob_threshold limits
      | Blob b \<Rightarrow> be_str_id b = i \<and> be_stored_bytes b = take (dl_truncate_limit limits) v
          \<and> be_full_len b = length v \<and> (be_truncated b \<longleftrightarrow> dl_truncate_limit limits < length v)
          \<and> be_full_sha256 b = (if be_truncated b then Some (sha v) else None))"

lemma names_value_resolve:
  assumes "names_value sha d i v" and "dl_blob_threshold (sd_limits d) \<le> dl_truncate_limit (sd_limits d)"
  shows "\<exists>r. resolve d i = Some r \<and> reads_as sha (sd_limits d) i v r"
proof -
  obtain r where "om_get (sd_entries d) i = Some (new_stored sha (sd_limits d) v r)"
    using assms(1) by (auto simp: names_value_def)
  then show ?thesis
    using assms(2)
    by (auto simp: resolve_def reads_as_def is_blob_def blob_entry_of_def)
qed

section \<open>The views\<close>

lemma sorted_filter_map:
  "sorted_wrt (<) (map fst m) \<Longrightarrow> sorted_wrt (<) (map fst (filter P m))"
  by (induction m) auto

lemma stats_fold:
  "foldl stats_step st ss =
     \<lparr>ds_string_count = ds_string_count st + length (filter (\<lambda>s. \<not> is_blob s) ss),
      ds_blob_count = ds_blob_count st + length (filter is_blob ss),
      ds_hot_count = ds_hot_count st + length (filter is_hot ss),
      ds_string_bytes = ds_string_bytes st + sum_list (map (length \<circ> st_bytes) (filter (\<lambda>s. \<not> is_blob s) ss)),
      ds_blob_bytes = ds_blob_bytes st + sum_list (map (length \<circ> st_bytes) (filter is_blob ss))\<rparr>"
  by (induction ss arbitrary: st) (auto simp: is_hot_def)

lemma filter_snd: "filter P (map snd m) = map snd (filter (\<lambda>e. P (snd e)) m)"
  by (induction m) auto

lemma length_partition: "length (filter P xs) + length (filter (\<lambda>x. \<not> P x) xs) = length xs"
  by (induction xs) auto

lemma sum_partition:
  fixes f :: "'a \<Rightarrow> nat"
  shows "sum_list (map f (filter (\<lambda>x. \<not> P x) xs)) + sum_list (map f (filter P xs)) = sum_list (map f xs)"
  by (induction xs) auto

definition views_consistent :: "segment_dicts \<Rightarrow> bool" where
  "views_consistent d \<longleftrightarrow>
     sorted_wrt (<) (map fst (dict_strings d)) \<and> sorted_wrt (<) (map be_str_id (dict_blobs d))
     \<and> sorted_wrt (<) (map es_str_id (dict_entries d))
     \<and> set (dict_hot_strings d) \<subseteq> set (dict_strings d)
     \<and> fst ` set (dict_strings d) \<inter> be_str_id ` set (dict_blobs d) = {}
     \<and> dict_stats_of d = \<lparr>ds_string_count = length (dict_strings d), ds_blob_count = length (dict_blobs d),
          ds_hot_count = length (dict_hot_strings d),
          ds_string_bytes = sum_list (map (length \<circ> snd) (dict_strings d)),
          ds_blob_bytes = sum_list (map (length \<circ> be_stored_bytes) (dict_blobs d))\<rparr>
     \<and> length (dict_strings d) + length (dict_blobs d) = dict_len d
     \<and> ds_string_bytes (dict_stats_of d) + ds_blob_bytes (dict_stats_of d) = sd_stored_bytes d"

lemma dict_inv_views:
  assumes "dict_inv xxh sha V d"
  shows "views_consistent d"
proof -
  let ?m = "sd_entries d"
  have srt: "sorted_wrt (<) (map fst ?m)" and dist: "distinct (map fst ?m)"
    using assms bt.keys_distinct [of ?m] by (simp_all add: dict_inv_def om_ok_def)
  have strings: "map fst (dict_strings d) = map fst (filter (\<lambda>e. \<not> is_blob (snd e)) ?m)"
    by (simp add: dict_strings_def case_prod_beta')
  have blobs: "map be_str_id (dict_blobs d) = map fst (filter (\<lambda>e. is_blob (snd e)) ?m)"
    by (simp add: dict_blobs_def case_prod_beta' blob_entry_of_def)
  have snaps: "map es_str_id (dict_entries d) = map fst ?m"
    by (simp add: dict_entries_def case_prod_beta' snapshot_of_def)
  have hot: "set (dict_hot_strings d) \<subseteq> set (dict_strings d)"
    by (auto simp: dict_hot_strings_def dict_strings_def is_hot_def)
  have "fst ` set (dict_strings d) = fst ` set (filter (\<lambda>e. \<not> is_blob (snd e)) ?m)"
    and "be_str_id ` set (dict_blobs d) = fst ` set (filter (\<lambda>e. is_blob (snd e)) ?m)"
    using arg_cong [OF strings, of set] arg_cong [OF blobs, of set] by simp_all
  then have disj: "fst ` set (dict_strings d) \<inter> be_str_id ` set (dict_blobs d) = {}"
    using dist by (auto simp: distinct_map dest: inj_onD)
  have stats: "dict_stats_of d = \<lparr>ds_string_count = length (dict_strings d), ds_blob_count = length (dict_blobs d),
      ds_hot_count = length (dict_hot_strings d),
      ds_string_bytes = sum_list (map (length \<circ> snd) (dict_strings d)),
      ds_blob_bytes = sum_list (map (length \<circ> be_stored_bytes) (dict_blobs d))\<rparr>"
    by (simp add: dict_stats_of_def stats_fold empty_stats_def dict_strings_def dict_blobs_def dict_hot_strings_def
        filter_snd case_prod_beta' comp_def blob_entry_of_def)
  have count: "length (dict_strings d) + length (dict_blobs d) = dict_len d"
    using length_partition [of "\<lambda>e. is_blob (snd e)" ?m]
    by (simp add: dict_strings_def dict_blobs_def dict_len_def case_prod_beta')
  have "sum_list (map (length \<circ> snd) (dict_strings d)) + sum_list (map (length \<circ> be_stored_bytes) (dict_blobs d)) = stored_sum d"
    using sum_partition [of "\<lambda>e. length (st_bytes (snd e))" "\<lambda>e. is_blob (snd e)" ?m]
    by (simp add: dict_strings_def dict_blobs_def stored_sum_def case_prod_beta' comp_def blob_entry_of_def)
  moreover have "sorted_wrt (<) (map fst (dict_strings d))" and "sorted_wrt (<) (map be_str_id (dict_blobs d))"
    unfolding strings blobs by (rule sorted_filter_map [OF srt])+
  ultimately show ?thesis
    using assms srt snaps hot disj stats count
    by (simp add: views_consistent_def dict_inv_def)
qed

section \<open>Properties\<close>

text \<open>
  C21. Whatever calls are made, failed ones included, the dictionaries keep their invariant: entries
  are sorted by id, each holds one of the interned values under its hash with exact length, prefix
  and digest, strict-hot values are never placed in the blobs, the byte counter is the sum of the
  stored bytes, and only strict-hot values can take it above the cap.
\<close>

theorem dicts_invariant:
  assumes "usable limits"
  shows "dict_inv xxh sha (call_value ` set cs) (run_calls xxh sha cs (dicts_new limits))"
  using assms by (intro dict_inv_run dict_inv_new) (simp_all add: dicts_new_def)

definition demo_hash :: "u8 list \<Rightarrow> u64" where
  "demo_hash v = of_nat (1 + sum_list (map unat v))"

definition demo_sha :: "u8 list \<Rightarrow> u8 list" where
  "demo_sha v = v"

definition demo_dict_limits :: dict_limits where
  "demo_dict_limits = \<lparr>dl_blob_threshold = 2, dl_truncate_limit = 3, dl_max_total_bytes = 8\<rparr>"

lemma dicts_invariant_witness:
  "dict_inv demo_hash demo_sha {[1], [2, 2, 2, 2]}
     (run_calls demo_hash demo_sha [CHot [1], CIntern [2, 2, 2, 2]] (dicts_new demo_dict_limits))"
  using dicts_invariant [of demo_dict_limits demo_hash demo_sha "[CHot [1], CIntern [2, 2, 2, 2]]"]
  by (simp add: usable_def demo_dict_limits_def)

text \<open>
  C22. The final dictionaries do not depend on the order of the calls: two sequences with the same
  set of calls that all succeed leave the same entries, byte counter and views, unless SHA-256
  itself collides on the values.
\<close>

theorem dicts_order_independent:
  assumes "set cs = set cs'" and "inj_on sha (call_value ` set cs)" and "usable limits"
    and "all_ok xxh sha cs (dicts_new limits)" and "all_ok xxh sha cs' (dicts_new limits)"
  shows "run_calls xxh sha cs (dicts_new limits) = run_calls xxh sha cs' (dicts_new limits)"
proof -
  let ?d = "run_calls xxh sha cs (dicts_new limits)" and ?d' = "run_calls xxh sha cs' (dicts_new limits)"
  have "holds xxh sha (set cs) ?d" and "holds xxh sha (set cs) ?d'"
    using holds_run [OF holds_new assms(4)] holds_run [OF holds_new assms(5)] assms(1,2) by simp_all
  then have e: "sd_entries ?d = sd_entries ?d'"
    by (rule holds_unique) simp
  have "dict_inv xxh sha UNIV (run_calls xxh sha cs0 (dicts_new limits))" for cs0
    using assms(3) by (intro dict_inv_run dict_inv_new) (simp_all add: dicts_new_def)
  then have "sd_stored_bytes (run_calls xxh sha cs0 (dicts_new limits)) =
      stored_sum (run_calls xxh sha cs0 (dicts_new limits))" for cs0
    by (simp add: dict_inv_def)
  with e show ?thesis by (intro segment_dicts.equality) (simp_all add: stored_sum_def)
qed

lemmas demo_simps = dicts_new_def demo_hash_def demo_sha_def demo_dict_limits_def do_call_insert dict_insert_def
  str_id_of_def id_or_collision_def try_insert_def om_get_def check_same_value_def saturating_add_def
  merge_requirements_def no_requirements_def Let_def

lemma dicts_order_independent_witness:
  "run_calls demo_hash demo_sha [CBlob [1], CIntern [1]] (dicts_new demo_dict_limits) =
   run_calls demo_hash demo_sha [CIntern [1], CBlob [1]] (dicts_new demo_dict_limits)"
proof (rule dicts_order_independent)
  show "all_ok demo_hash demo_sha [CBlob [1], CIntern [1]] (dicts_new demo_dict_limits)"
    and "all_ok demo_hash demo_sha [CIntern [1], CBlob [1]] (dicts_new demo_dict_limits)"
    by (simp_all add: demo_simps)
qed (auto simp: inj_on_def demo_sha_def usable_def demo_dict_limits_def)

text \<open>
  An id, once issued for a value, resolves after any further calls to that value: the full
  bytes from \<open>dict.strings\<close>, or from \<open>dict.blobs\<close> the stored prefix with the full length and, when
  truncated, the digest of the full value.
\<close>

theorem issued_id_resolves:
  assumes "usable limits" and "dl_blob_threshold limits \<le> dl_truncate_limit limits"
    and "inj_on sha (call_value ` set (before @ c # after))"
    and "fst (do_call xxh sha c (run_calls xxh sha before (dicts_new limits))) = Inr i"
  shows "\<exists>r. resolve (run_calls xxh sha (before @ c # after) (dicts_new limits)) i = Some r
    \<and> reads_as sha limits i (call_value c) r"
proof -
  let ?V = "call_value ` set (before @ c # after)"
  have "dict_inv xxh sha ?V (run_calls xxh sha before (dicts_new limits))"
    using assms(1) by (intro dict_inv_run dict_inv_new) (auto simp: dicts_new_def)
  from names_value_intern [OF this assms(3) _ assms(4)]
  have "names_value sha (run_calls xxh sha (before @ c # after) (dicts_new limits)) i (call_value c)"
    by (simp add: run_calls_append names_value_run)
  from names_value_resolve [OF this] show ?thesis
    using assms(2) by (simp add: dicts_new_def)
qed

lemma issued_id_resolves_witness:
  "\<exists>r. resolve (run_calls demo_hash demo_sha [CIntern [1, 1, 1, 1], CBlob [9]] (dicts_new demo_dict_limits)) 5 = Some r
    \<and> reads_as demo_sha demo_dict_limits 5 [1, 1, 1, 1] r"
proof -
  have "fst (do_call demo_hash demo_sha (CIntern [1, 1, 1, 1]) (dicts_new demo_dict_limits)) = Inr 5"
    by (simp add: demo_simps)
  then show ?thesis
    using issued_id_resolves [of demo_dict_limits demo_sha "[]" "CIntern [1, 1, 1, 1]" "[CBlob [9]]" demo_hash 5]
    by (simp add: usable_def demo_dict_limits_def inj_on_def demo_sha_def)
qed

text \<open>
  The read views agree after any calls: strings, blobs and snapshots are in id order, no id is
  in both dictionaries, every hot string is a string, and the statistics count exactly the rows and
  bytes of the views.
\<close>

theorem dict_views_consistent:
  assumes "usable limits"
  shows "views_consistent (run_calls xxh sha cs (dicts_new limits))"
  by (rule dict_inv_views [OF dict_inv_run [OF dict_inv_new subset_UNIV]]) (use assms in \<open>simp add: dicts_new_def\<close>)

lemma dict_views_consistent_witness:
  "views_consistent (run_calls demo_hash demo_sha [CBestEffort [1], CBlob [1], CIntern [3]] (dicts_new demo_dict_limits))"
  by (rule dict_views_consistent) (simp add: usable_def demo_dict_limits_def)

end
