(* ===== verification/Interner.thy ===== *)
theory Interner
  imports Dictionary
begin

text \<open>
  The per-segment string interner (\<open>crates/kronika-writer/src/interner.rs\<close>): the in-memory window of
  dictionaries, the compact records of values already flushed to the journal, the strict-hot values
  pinned into every window, and the requests, flush and seal that move values between them.  The
  map of flushed records is a hash map in the code; its iteration order is never observed (\<open>seal\<close>
  sorts, \<open>stats\<close> sums), so a sorted map stands for it.
\<close>

section \<open>Flushed records\<close>

record flushed =
  fl_full_len :: nat
  fl_check :: "u8 list"
  fl_blob_required :: bool
  fl_hot_hard :: bool
  fl_hot_soft :: bool

definition check16 :: "(u8 list \<Rightarrow> u8 list) \<Rightarrow> u8 list \<Rightarrow> u8 list" where
  "check16 sha bytes = take 16 (sha bytes)"

definition first16 :: "u8 list \<Rightarrow> u8 list" where
  "first16 digest = take 16 digest"

definition flushed_matches :: "(u8 list \<Rightarrow> u8 list) \<Rightarrow> flushed \<Rightarrow> u8 list \<Rightarrow> bool" where
  "flushed_matches sha f bytes \<longleftrightarrow> fl_full_len f = length bytes \<and> check16 sha bytes = fl_check f"

definition flushed_placement :: "flushed \<Rightarrow> dict_limits \<Rightarrow> placement" where
  "flushed_placement f limits =
     (if fl_blob_required f \<or> fl_full_len f \<ge> dl_blob_threshold limits then PBlobs else PStrings)"

definition flushed_hot :: "flushed \<Rightarrow> hot_mark" where
  "flushed_hot f = (if fl_hot_hard f then HotHard else if fl_hot_soft f then HotSoft else HotNone)"

record flushed_entry =
  fe_str_id :: str_id
  fe_full_len :: nat
  fe_placement :: placement
  fe_hot :: hot_mark

record sealed_segment =
  se_window :: segment_dicts
  se_flushed :: "flushed_entry list"

record interner =
  in_window :: segment_dicts
  in_flushed :: "(str_id, flushed) btree_map"
  in_pinned :: "(str_id, u8 list) btree_map"

definition interner_new :: "dict_limits \<Rightarrow> interner" where
  "interner_new limits = \<lparr>in_window = dicts_new limits, in_flushed = [], in_pinned = []\<rparr>"

section \<open>Requests\<close>

text \<open>\<open>Request\<close> has the three flags of \<open>Requirements\<close>; each flag is one call on the window.\<close>

definition apply_flags ::
    "(u8 list \<Rightarrow> u64) \<Rightarrow> (u8 list \<Rightarrow> u8 list) \<Rightarrow> str_id \<Rightarrow> u8 list \<Rightarrow> requirements \<Rightarrow> segment_dicts
       \<Rightarrow> (dict_error + str_id \<times> bool) \<times> segment_dicts" where
  "apply_flags xxh sha sid bytes req w1 =
     (case (if rq_blob req then dict_intern_blob xxh sha bytes w1 else (Inr sid, w1)) of
        (Inl e, w2) \<Rightarrow> (Inl e, w2)
      | (Inr _, w2) \<Rightarrow>
          (case (if rq_hot_hard req then dict_intern_hot xxh sha bytes w2 else (Inr sid, w2)) of
             (Inl e, w3) \<Rightarrow> (Inl e, w3)
           | (Inr _, w3) \<Rightarrow>
               if rq_hot_soft req then
                 (case dict_intern_hot_best_effort xxh sha bytes w3 of
                    (Inl e, w4) \<Rightarrow> (Inl e, w4)
                  | (Inr (_, hot), w4) \<Rightarrow> (Inr (sid, hot), w4))
               else (Inr (sid, rq_hot_hard req), w3)))"

definition apply_to_window ::
    "(u8 list \<Rightarrow> u64) \<Rightarrow> (u8 list \<Rightarrow> u8 list) \<Rightarrow> u8 list \<Rightarrow> requirements \<Rightarrow> segment_dicts
       \<Rightarrow> (dict_error + str_id \<times> bool) \<times> segment_dicts" where
  "apply_to_window xxh sha bytes req w =
     (let oversized = length bytes \<ge> dl_blob_threshold (sd_limits w) in
      if rq_hot_hard req \<and> (rq_blob req \<or> oversized) then (Inl (PlacementConflict (xxh bytes)), w)
      else
        (case dict_intern xxh sha bytes w of
           (Inl e, w1) \<Rightarrow> (Inl e, w1)
         | (Inr sid, w1) \<Rightarrow> apply_flags xxh sha sid bytes req w1))"

definition record_flushed_bits :: "str_id \<Rightarrow> requirements \<Rightarrow> interner \<Rightarrow> interner" where
  "record_flushed_bits sid merged st =
     (case om_get (in_flushed st) sid of
        None \<Rightarrow> st
      | Some entry \<Rightarrow>
          st\<lparr>in_flushed := om_insert sid
               (entry\<lparr>fl_blob_required := rq_blob merged, fl_hot_hard := rq_hot_hard merged,
                      fl_hot_soft := rq_hot_soft merged\<rparr>) (in_flushed st)\<rparr>)"

definition with_window ::
    "interner \<Rightarrow> ('a \<times> segment_dicts) \<Rightarrow> 'a \<times> interner" where
  "with_window st r = (fst r, st\<lparr>in_window := snd r\<rparr>)"

definition request ::
    "(u8 list \<Rightarrow> u64) \<Rightarrow> (u8 list \<Rightarrow> u8 list) \<Rightarrow> u8 list \<Rightarrow> requirements \<Rightarrow> interner
       \<Rightarrow> (dict_error + str_id \<times> bool) \<times> interner" where
  "request xxh sha bytes req st =
     (case str_id_of xxh bytes of
        None \<Rightarrow> (Inl (Collision 0), st)
      | Some sid \<Rightarrow>
          if resolve (in_window st) sid \<noteq> None then
            with_window st (apply_to_window xxh sha bytes req (in_window st))
          else
            (case om_get (in_flushed st) sid of
               Some f \<Rightarrow>
                 if \<not> flushed_matches sha f bytes then (Inl (Collision sid), st)
                 else
                   let merged = \<lparr>rq_blob = (fl_blob_required f \<or> rq_blob req),
                                 rq_hot_hard = (fl_hot_hard f \<or> rq_hot_hard req),
                                 rq_hot_soft = (fl_hot_soft f \<or> rq_hot_soft req)\<rparr>;
                       oversized = fl_full_len f \<ge> dl_blob_threshold (sd_limits (in_window st)) in
                   if rq_hot_hard merged \<and> (rq_blob merged \<or> oversized)
                   then (Inl (PlacementConflict sid), st)
                   else
                     let placement_is_blob = (rq_blob merged \<or> oversized);
                         durable_upgrade = (rq_blob merged \<noteq> fl_blob_required f
                                            \<or> rq_hot_hard merged \<noteq> fl_hot_hard f);
                         soft_became_effective = (rq_hot_soft merged \<noteq> fl_hot_soft f \<and> \<not> placement_is_blob) in
                     if durable_upgrade then
                       (case with_window st (apply_to_window xxh sha bytes merged (in_window st)) of
                          (Inl e, st') \<Rightarrow> (Inl e, st')
                        | (Inr result, st') \<Rightarrow> (Inr result, record_flushed_bits sid merged st'))
                     else
                       let st' = (if soft_became_effective then record_flushed_bits sid merged st else st);
                           hot = ((rq_hot_hard merged \<or> rq_hot_soft merged) \<and> \<not> placement_is_blob)
                       in (Inr (sid, hot), st')
             | None \<Rightarrow> with_window st (apply_to_window xxh sha bytes req (in_window st))))"

definition interner_intern where
  "interner_intern xxh sha bytes st =
     map_prod (map_sum (\<lambda>e. e) fst) (\<lambda>s. s) (request xxh sha bytes no_requirements st)"

definition interner_intern_blob where
  "interner_intern_blob xxh sha bytes st =
     map_prod (map_sum (\<lambda>e. e) fst) (\<lambda>s. s) (request xxh sha bytes (no_requirements\<lparr>rq_blob := True\<rparr>) st)"

definition interner_intern_hot ::
    "(u8 list \<Rightarrow> u64) \<Rightarrow> (u8 list \<Rightarrow> u8 list) \<Rightarrow> u8 list \<Rightarrow> interner \<Rightarrow> (dict_error + str_id) \<times> interner" where
  "interner_intern_hot xxh sha bytes st =
     (case request xxh sha bytes (no_requirements\<lparr>rq_hot_hard := True\<rparr>) st of
        (Inl e, st') \<Rightarrow> (Inl e, st')
      | (Inr (sid, _), st') \<Rightarrow>
          (Inr sid,
           (case om_get (in_pinned st') sid of
              Some _ \<Rightarrow> st'
            | None \<Rightarrow> st'\<lparr>in_pinned := om_insert sid bytes (in_pinned st')\<rparr>)))"

definition interner_intern_hot_best_effort where
  "interner_intern_hot_best_effort xxh sha bytes st =
     request xxh sha bytes (no_requirements\<lparr>rq_hot_soft := True\<rparr>) st"

section \<open>Flush, seal and views\<close>

definition flushed_of :: "(u8 list \<Rightarrow> u8 list) \<Rightarrow> entry_snapshot \<Rightarrow> flushed" where
  "flushed_of sha snap =
     \<lparr>fl_full_len = es_full_len snap,
      fl_check = (case es_full_sha256 snap of
                    None \<Rightarrow> check16 sha (es_stored_bytes snap) | Some digest \<Rightarrow> first16 digest),
      fl_blob_required = es_blob_required snap,
      fl_hot_hard = (es_hot snap = HotHard),
      fl_hot_soft = (es_hot snap = HotSoft)\<rparr>"

fun flush_entries ::
    "(u8 list \<Rightarrow> u8 list) \<Rightarrow> entry_snapshot list \<Rightarrow> (str_id, flushed) btree_map \<Rightarrow> (str_id, flushed) btree_map" where
  "flush_entries sha [] m = m"
| "flush_entries sha (snap # snaps) m =
     flush_entries sha snaps (om_insert (es_str_id snap) (flushed_of sha snap) m)"

fun repin ::
    "(u8 list \<Rightarrow> u64) \<Rightarrow> (u8 list \<Rightarrow> u8 list) \<Rightarrow> u8 list list \<Rightarrow> segment_dicts \<Rightarrow> segment_dicts" where
  "repin xxh sha [] w = w"
| "repin xxh sha (v # vs) w = repin xxh sha vs (snd (dict_intern_hot xxh sha v w))"

text \<open>\<open>write_result\<close> is what the caller's writer returns for the window.\<close>

definition flush_window ::
    "(u8 list \<Rightarrow> u64) \<Rightarrow> (u8 list \<Rightarrow> u8 list) \<Rightarrow> (segment_dicts \<Rightarrow> 'e + unit) \<Rightarrow> interner
       \<Rightarrow> ('e + nat) \<times> interner" where
  "flush_window xxh sha write st =
     (case write (in_window st) of
        Inl e \<Rightarrow> (Inl e, st)
      | Inr _ \<Rightarrow>
          (Inr (dict_len (in_window st)),
           st\<lparr>in_flushed := flush_entries sha (dict_entries (in_window st)) (in_flushed st),
              in_window := repin xxh sha (map snd (in_pinned st)) (dicts_new (sd_limits (in_window st)))\<rparr>))"

definition flushed_directive :: "dict_limits \<Rightarrow> str_id \<Rightarrow> flushed \<Rightarrow> flushed_entry" where
  "flushed_directive limits sid f =
     \<lparr>fe_str_id = sid, fe_full_len = fl_full_len f, fe_placement = flushed_placement f limits, fe_hot = flushed_hot f\<rparr>"

definition seal :: "interner \<Rightarrow> sealed_segment \<times> interner" where
  "seal st =
     (let limits = sd_limits (in_window st) in
      (\<lparr>se_window = in_window st,
        se_flushed = sort_key fe_str_id (map (\<lambda>(sid, f). flushed_directive limits sid f) (in_flushed st))\<rparr>,
       \<lparr>in_window = dicts_new limits, in_flushed = [], in_pinned = []\<rparr>))"

fun interner_stats_step ::
    "segment_dicts \<Rightarrow> dict_stats \<Rightarrow> str_id \<times> flushed \<Rightarrow> dict_stats" where
  "interner_stats_step w stats (sid, f) =
     (if resolve w sid \<noteq> None then stats
      else
        let stored_len = min (fl_full_len f) (dl_truncate_limit (sd_limits w)) in
        (case flushed_placement f (sd_limits w) of
           PBlobs \<Rightarrow>
             stats\<lparr>ds_blob_count := ds_blob_count stats + 1, ds_blob_bytes := ds_blob_bytes stats + stored_len\<rparr>
         | PStrings \<Rightarrow>
             let stats1 = stats\<lparr>ds_string_count := ds_string_count stats + 1,
                                ds_string_bytes := ds_string_bytes stats + stored_len\<rparr> in
             if flushed_hot f \<noteq> HotNone then stats1\<lparr>ds_hot_count := ds_hot_count stats1 + 1\<rparr> else stats1))"

definition interner_stats :: "interner \<Rightarrow> dict_stats" where
  "interner_stats st =
     foldl (interner_stats_step (in_window st)) (dict_stats_of (in_window st)) (in_flushed st)"

definition is_interned :: "interner \<Rightarrow> str_id \<Rightarrow> bool" where
  "is_interned st sid \<longleftrightarrow> resolve (in_window st) sid \<noteq> None \<or> om_get (in_flushed st) sid \<noteq> None"

section \<open>One flag at a time\<close>

text \<open>The window calls of one request amount to a single insertion, and a failing one changes nothing.\<close>

definition conflicts :: "requirements \<Rightarrow> stored \<Rightarrow> bool" where
  "conflicts req s \<longleftrightarrow> rq_hot_hard (merge_requirements (st_req s) req)
     \<and> (rq_blob (merge_requirements (st_req s) req) \<or> st_oversized s)"

definition put_req :: "u64 \<Rightarrow> stored \<Rightarrow> requirements \<Rightarrow> segment_dicts \<Rightarrow> segment_dicts" where
  "put_req i s req d =
     d\<lparr>sd_entries := om_insert i (s\<lparr>st_req := merge_requirements (st_req s) req\<rparr>) (sd_entries d)\<rparr>"

lemma insert_existing:
  assumes "xxh v \<noteq> 0" and "om_get (sd_entries d) (xxh v) = Some s" and "check_same_value sha (xxh v) s v = Inr ()"
  shows "dict_insert xxh sha v req d =
    (if conflicts req s then (Inl (PlacementConflict (xxh v)), d) else (Inr (xxh v), put_req (xxh v) s req d))"
  using assms by (simp add: dict_insert_def str_id_of_def id_or_collision_def try_insert_def conflicts_def put_req_def Let_def)

lemma om_insert_overwrite: "om_ok m \<Longrightarrow> om_insert k v (om_insert k w m) = om_insert k v m"
  using bt.ins_overwrite [of m k v w] by simp

lemma om_insert_same: "om_ok m \<Longrightarrow> om_get m k = Some v \<Longrightarrow> om_insert k v m = m"
  using bt.entries_ext [of "om_insert k v m" m] by (auto simp: om_ok_insert om_get_insert)

lemma check_same_req [simp]: "check_same_value sha i (s\<lparr>st_req := r\<rparr>) v = check_same_value sha i s v"
  by (simp add: check_same_value_def split: option.split)

lemma merge_assoc: "merge_requirements (merge_requirements a b) c = merge_requirements a (merge_requirements b c)"
  by (auto simp: merge_requirements_def)

lemma merge_none_right [simp]: "merge_requirements r no_requirements = r"
  by (cases r) (simp add: merge_requirements_def no_requirements_def)

lemma put_req_get:
  "om_get (sd_entries (put_req i s req d)) i = Some (s\<lparr>st_req := merge_requirements (st_req s) req\<rparr>)"
  by (simp add: put_req_def om_get_insert)

lemma put_req_put_req:
  assumes "om_ok (sd_entries d)"
  shows "put_req i (s\<lparr>st_req := merge_requirements (st_req s) r1\<rparr>) r2 (put_req i s r1 d) =
    put_req i s (merge_requirements r1 r2) d"
  using assms by (simp add: put_req_def om_insert_overwrite merge_assoc)

lemma put_req_none:
  "om_ok (sd_entries d) \<Longrightarrow> om_get (sd_entries d) i = Some s \<Longrightarrow> put_req i s no_requirements d = d"
  by (simp add: put_req_def om_insert_same)

lemma merge_sel [simp]:
  "rq_blob (merge_requirements a b) = (rq_blob a \<or> rq_blob b)"
  "rq_hot_hard (merge_requirements a b) = (rq_hot_hard a \<or> rq_hot_hard b)"
  "rq_hot_soft (merge_requirements a b) = (rq_hot_soft a \<or> rq_hot_soft b)"
  by (simp_all add: merge_requirements_def)

lemma merge_record:
  "merge_requirements \<lparr>rq_blob = b, rq_hot_hard = h, rq_hot_soft = f\<rparr> \<lparr>rq_blob = b', rq_hot_hard = h', rq_hot_soft = f'\<rparr> =
     \<lparr>rq_blob = (b \<or> b'), rq_hot_hard = (h \<or> h'), rq_hot_soft = (f \<or> f')\<rparr>"
  by (simp add: merge_requirements_def)

lemma apply_flags_existing:
  assumes "xxh v \<noteq> 0" and "om_ok (sd_entries w)" and "om_get (sd_entries w) (xxh v) = Some s"
    and "check_same_value sha (xxh v) s v = Inr ()" and "\<not> conflicts no_requirements s"
    and "\<not> (rq_hot_hard req \<and> (rq_blob req \<or> st_oversized s))"
  shows "(\<exists>e. apply_flags xxh sha (xxh v) v req w = (Inl e, w) \<and> conflicts req s)
    \<or> (\<exists>h. apply_flags xxh sha (xxh v) v req w = (Inr (xxh v, h), put_req (xxh v) s req w) \<and> \<not> conflicts req s)"
proof -
  note ins = insert_existing [of xxh v _ _ sha, OF assms(1)]
  note simps = apply_flags_def dict_intern_blob_def dict_intern_hot_def dict_intern_hot_best_effort_def
    ins [OF assms(3,4)] ins [OF put_req_get] assms(4) conflicts_def
    put_req_put_req [OF assms(2)] merge_record no_requirements_def
  obtain b h f where req: "req = \<lparr>rq_blob = b, rq_hot_hard = h, rq_hot_soft = f\<rparr>" by (cases req)
  have none: "put_req (xxh v) s \<lparr>rq_blob = False, rq_hot_hard = False, rq_hot_soft = False\<rparr> w = w"
    using put_req_none [OF assms(2,3)] by (simp add: no_requirements_def)
  show ?thesis
    using assms(5,6) none unfolding req
    by (cases b; cases h; cases f) (auto simp: simps)
qed

lemma apply_to_window_cases:
  assumes inv: "dict_inv xxh sha V w" and nz: "xxh v \<noteq> 0"
  shows "(\<exists>e. apply_to_window xxh sha v req w = (Inl e, w))
    \<or> (\<exists>h. apply_to_window xxh sha v req w = (Inr (xxh v, h), snd (dict_insert xxh sha v req w))
         \<and> fst (dict_insert xxh sha v req w) = Inr (xxh v))"
proof (cases "rq_hot_hard req \<and> (rq_blob req \<or> dl_blob_threshold (sd_limits w) \<le> length v)")
  case True
  then show ?thesis by (simp add: apply_to_window_def)
next
  case pre: False
  have ok: "om_ok (sd_entries w)" using inv by (simp add: dict_inv_def)
  show ?thesis
  proof (cases rule: dict_insert_cases [of xxh sha v no_requirements w])
    case (failed e)
    then have "apply_to_window xxh sha v req w = (Inl e, w)"
      unfolding apply_to_window_def Let_def dict_intern_def using pre by (simp only: if_False) simp
    then show ?thesis by blast
  next
    case (merged s)
    obtain u r where s: "s = new_stored sha (sd_limits w) u r"
      using dict_inv_get [OF inv merged(3)] by (auto simp: stores_def)
    then have over: "st_oversized s \<longleftrightarrow> dl_blob_threshold (sd_limits w) \<le> length v"
      using merged(4) by (auto simp: check_same_value_def split: if_splits)
    have same: "put_req (xxh v) s no_requirements w = w"
      by (rule put_req_none [OF ok merged(3)])
    have "apply_to_window xxh sha v req w = apply_flags xxh sha (xxh v) v req w"
      unfolding apply_to_window_def Let_def dict_intern_def using pre same
      by (simp only: if_False) (simp add: merged(1) put_req_def)
    moreover have "\<not> conflicts no_requirements s"
      using merged(5) by (simp add: conflicts_def)
    ultimately show ?thesis
      using apply_flags_existing [of xxh v w s sha req] insert_existing [of xxh v w s sha req] nz ok merged(3,4) pre over
      by auto
  next
    case added
    let ?s0 = "new_stored sha (sd_limits w) v no_requirements"
    let ?w1 = "w\<lparr>sd_stored_bytes := sd_stored_bytes w + min (length v) (dl_truncate_limit (sd_limits w)),
      sd_entries := om_insert (xxh v) ?s0 (sd_entries w)\<rparr>"
    have get: "om_get (sd_entries ?w1) (xxh v) = Some ?s0" and ok1: "om_ok (sd_entries ?w1)"
      by (simp_all add: om_get_insert om_ok_insert ok)
    have same: "check_same_value sha (xxh v) ?s0 v = Inr ()"
      by (simp add: check_same_value_def)
    have none: "\<not> conflicts no_requirements ?s0" and noc: "\<not> conflicts req ?s0"
      using pre by (auto simp: conflicts_def no_requirements_def)
    have "apply_to_window xxh sha v req w = apply_flags xxh sha (xxh v) v req ?w1"
      unfolding apply_to_window_def Let_def dict_intern_def using pre
      by (simp only: if_False) (simp add: added(1))
    then obtain h where "apply_to_window xxh sha v req w = (Inr (xxh v, h), put_req (xxh v) ?s0 req ?w1)"
      using apply_flags_existing [of xxh v ?w1 ?s0 sha req] nz ok1 get same none pre noc by auto
    moreover have "dict_insert xxh sha v req w = (Inr (xxh v), put_req (xxh v) ?s0 req ?w1)"
    proof (cases rule: dict_insert_cases [of xxh sha v req w])
      case (failed e)
      have cap: "saturating_add (sd_stored_bytes w) (min (length v) (dl_truncate_limit (sd_limits w)))
          \<le> dl_max_total_bytes (sd_limits w)"
        using added(5) by (simp add: no_requirements_def)
      have "fst (dict_insert xxh sha v req w) = Inr (xxh v)"
        using added(3) nz pre cap
        by (auto simp: dict_insert_def str_id_of_def id_or_collision_def try_insert_def Let_def)
      with failed show ?thesis by simp
    next
      case (merged s)
      then show ?thesis using added(3) by simp
    next
      case added': added
      then show ?thesis by (simp add: put_req_def om_insert_overwrite ok)
    qed
    ultimately show ?thesis by auto
  qed
qed

section \<open>The invariant\<close>

definition limits_ok :: "dict_limits \<Rightarrow> bool" where
  "limits_ok limits \<longleftrightarrow> validate_limits limits = Inr limits \<and> usable limits"

lemma limits_ok_bounds:
  "limits_ok limits \<Longrightarrow> dl_blob_threshold limits \<le> dl_truncate_limit limits"
  by (auto simp: limits_ok_def validate_limits_def split: if_splits)

definition pinned_in_window :: "(u8 list \<Rightarrow> u64) \<Rightarrow> (u8 list \<Rightarrow> u8 list) \<Rightarrow> segment_dicts \<Rightarrow> str_id \<Rightarrow> u8 list \<Rightarrow> bool" where
  "pinned_in_window xxh sha w i v \<longleftrightarrow> i = xxh v \<and> i \<noteq> 0 \<and> length v < dl_blob_threshold (sd_limits w)
     \<and> (\<exists>r. om_get (sd_entries w) i = Some (new_stored sha (sd_limits w) v r) \<and> rq_hot_hard r)"

text \<open>A window entry is at least as strongly required as the record of an earlier flush.\<close>

definition covered :: "flushed \<Rightarrow> requirements \<Rightarrow> bool" where
  "covered f r \<longleftrightarrow> (fl_blob_required f \<longrightarrow> rq_blob r) \<and> (fl_hot_hard f \<longrightarrow> rq_hot_hard r)
     \<and> (fl_hot_soft f \<longrightarrow> rq_hot_soft r \<or> rq_hot_hard r)"

text \<open>The ids of \<open>P\<close> are about to be pinned.\<close>

definition interner_inv ::
    "(u8 list \<Rightarrow> u64) \<Rightarrow> (u8 list \<Rightarrow> u8 list) \<Rightarrow> dict_limits \<Rightarrow> str_id set \<Rightarrow> interner \<Rightarrow> bool" where
  "interner_inv xxh sha limits P st \<longleftrightarrow>
     sd_limits (in_window st) = limits \<and> dict_inv xxh sha UNIV (in_window st)
     \<and> om_ok (in_flushed st) \<and> om_ok (in_pinned st)
     \<and> (\<forall>i v. om_get (in_pinned st) i = Some v \<longrightarrow> pinned_in_window xxh sha (in_window st) i v)
     \<and> (\<forall>i s. om_get (sd_entries (in_window st)) i = Some s \<longrightarrow> rq_hot_hard (st_req s) \<longrightarrow>
          om_get (in_pinned st) i \<noteq> None \<or> i \<in> P)
     \<and> (\<forall>i f. om_get (in_flushed st) i = Some f \<longrightarrow> fl_hot_hard f \<longrightarrow> om_get (in_pinned st) i \<noteq> None \<or> i \<in> P)
     \<and> (\<forall>i s f. om_get (sd_entries (in_window st)) i = Some s \<longrightarrow> om_get (in_flushed st) i = Some f \<longrightarrow>
          covered f (st_req s))"

lemma interner_inv_mono: "interner_inv xxh sha limits P st \<Longrightarrow> P \<subseteq> Q \<Longrightarrow> interner_inv xxh sha limits Q st"
  unfolding interner_inv_def by blast

lemma interner_inv_pinned:
  "interner_inv xxh sha limits P st \<Longrightarrow> (\<And>i. i \<in> P \<Longrightarrow> om_get (in_pinned st) i \<noteq> None) \<Longrightarrow>
     interner_inv xxh sha limits {} st"
  unfolding interner_inv_def by blast

lemma interner_inv_new: "interner_inv xxh sha limits P (interner_new limits)"
  using dict_inv_new by (simp add: interner_inv_def interner_new_def dicts_new_def om_ok_def om_get_def)

text \<open>What a successful insertion does to the entries.\<close>

lemma insert_get:
  assumes "fst (dict_insert xxh sha v req w) = Inr i" and ok: "om_ok (sd_entries w)"
  obtains s' where "i = xxh v" and "xxh v \<noteq> 0"
    and "om_get (sd_entries (snd (dict_insert xxh sha v req w))) = (om_get (sd_entries w))(xxh v \<mapsto> s')"
    and "\<not> (rq_hot_hard (st_req s') \<and> is_blob s')"
    and "case om_get (sd_entries w) (xxh v) of
           None \<Rightarrow> s' = new_stored sha (sd_limits w) v req
         | Some s \<Rightarrow> s' = s\<lparr>st_req := merge_requirements (st_req s) req\<rparr> \<and> check_same_value sha (xxh v) s v = Inr ()"
proof (cases rule: dict_insert_cases [of xxh sha v req w])
  case (failed e)
  with assms show ?thesis by simp
next
  case (merged s)
  with assms show ?thesis
    by (intro that [of "s\<lparr>st_req := merge_requirements (st_req s) req\<rparr>"]) (auto simp: om_get_insert is_blob_def)
next
  case added
  with assms show ?thesis
    by (intro that [of "new_stored sha (sd_limits w) v req"]) (auto simp: om_get_insert is_blob_def)
qed

text \<open>One insertion into the window keeps the invariant, for an id that may be pinned next.\<close>

lemma window_insert_inv:
  assumes inv: "interner_inv xxh sha limits P st" and lim: "limits_ok limits"
    and ok: "fst (dict_insert xxh sha v req (in_window st)) = Inr i"
    and hard: "rq_hot_hard req \<Longrightarrow> om_get (in_pinned st) (xxh v) \<noteq> None \<or> xxh v \<in> P"
    and fl: "\<And>f. om_get (in_flushed st) (xxh v) = Some f \<Longrightarrow> om_get (sd_entries (in_window st)) (xxh v) = None
               \<Longrightarrow> covered f req"
  shows "interner_inv xxh sha limits P (st\<lparr>in_window := snd (dict_insert xxh sha v req (in_window st))\<rparr>)"
proof -
  let ?w = "in_window st" and ?w' = "snd (dict_insert xxh sha v req (in_window st))"
  have L: "sd_limits ?w = limits" and di: "dict_inv xxh sha UNIV ?w" using inv by (simp_all add: interner_inv_def)
  have w': "dict_inv xxh sha UNIV ?w'"
    using dict_inv_insert [OF di UNIV_I] lim L by (simp add: limits_ok_def usable_def)
  have m: "om_ok (sd_entries ?w)" using di by (simp add: dict_inv_def)
  obtain s' where "i = xxh v" "xxh v \<noteq> 0" and get: "om_get (sd_entries ?w') = (om_get (sd_entries ?w))(xxh v \<mapsto> s')"
    and "\<not> (rq_hot_hard (st_req s') \<and> is_blob s')"
    and s0: "case om_get (sd_entries ?w) (xxh v) of
           None \<Rightarrow> s' = new_stored sha (sd_limits ?w) v req
         | Some s \<Rightarrow> s' = s\<lparr>st_req := merge_requirements (st_req s) req\<rparr> \<and> check_same_value sha (xxh v) s v = Inr ()"
    by (rule insert_get [OF ok m])
  note s' = s0 [unfolded L]
  have pinned: "pinned_in_window xxh sha ?w' j u" if "om_get (in_pinned st) j = Some u" for j u
  proof -
    have p: "pinned_in_window xxh sha ?w j u" using inv that by (simp add: interner_inv_def)
    then obtain r where r: "om_get (sd_entries ?w) j = Some (new_stored sha limits u r)" "rq_hot_hard r"
      unfolding pinned_in_window_def L by blast
    have "\<exists>r. om_get (sd_entries ?w') j = Some (new_stored sha limits u r) \<and> rq_hot_hard r"
    proof (cases "j = xxh v")
      case False
      with r show ?thesis by (intro exI [of _ r]) (simp add: get)
    next
      case True
      with r s' have "s' = new_stored sha limits u (merge_requirements r req)" by simp
      with r True show ?thesis by (intro exI [of _ "merge_requirements r req"]) (simp add: get)
    qed
    with p L show ?thesis by (auto simp: pinned_in_window_def)
  qed
  have strict: "om_get (in_pinned st) j \<noteq> None \<or> j \<in> P"
    if "om_get (sd_entries ?w') j = Some s" "rq_hot_hard (st_req s)" for j s
  proof (cases "j = xxh v")
    case False
    with that inv show ?thesis by (simp add: get interner_inv_def)
  next
    case True
    with that(1) have "s = s'" by (simp add: get)
    with that(2) s' hard inv True show ?thesis
      by (cases "om_get (sd_entries ?w) (xxh v)") (auto simp: interner_inv_def)
  qed
  have cov: "covered f (st_req s)" if "om_get (sd_entries ?w') j = Some s" "om_get (in_flushed st) j = Some f" for j s f
  proof (cases "j = xxh v")
    case False
    with that inv show ?thesis by (simp add: get interner_inv_def)
  next
    case True
    with that(1) have "s = s'" by (simp add: get)
    with that(2) s' fl inv True show ?thesis
      by (cases "om_get (sd_entries ?w) (xxh v)") (fastforce simp: interner_inv_def covered_def)+
  qed
  show ?thesis
    using inv w' L pinned strict cov by (simp add: interner_inv_def)
qed

lemma resolve_None: "resolve w i = None \<longleftrightarrow> om_get (sd_entries w) i = None"
  by (simp add: resolve_def split: option.splits)

text \<open>A strict-hot entry stores exactly the requested value.\<close>

lemma insert_hot_pinned:
  assumes inv: "dict_inv xxh sha UNIV w" and lim: "limits_ok (sd_limits w)"
    and ok: "fst (dict_insert xxh sha v req w) = Inr i" and hard: "rq_hot_hard req"
  shows "pinned_in_window xxh sha (snd (dict_insert xxh sha v req w)) i v"
proof -
  let ?L = "sd_limits w"
  have m: "om_ok (sd_entries w)" using inv by (simp add: dict_inv_def)
  obtain s' where i: "i = xxh v" "xxh v \<noteq> 0"
    and get: "om_get (sd_entries (snd (dict_insert xxh sha v req w))) = (om_get (sd_entries w))(xxh v \<mapsto> s')"
    and str: "\<not> (rq_hot_hard (st_req s') \<and> is_blob s')"
    and s': "case om_get (sd_entries w) (xxh v) of
           None \<Rightarrow> s' = new_stored sha ?L v req
         | Some s \<Rightarrow> s' = s\<lparr>st_req := merge_requirements (st_req s) req\<rparr> \<and> check_same_value sha (xxh v) s v = Inr ()"
    by (rule insert_get [OF ok m])
  have "\<exists>r. s' = new_stored sha ?L v r \<and> rq_hot_hard r"
  proof (cases "om_get (sd_entries w) (xxh v)")
    case None
    with s' hard show ?thesis by auto
  next
    case (Some s)
    obtain u r where u: "s = new_stored sha ?L u r" using dict_inv_get [OF inv Some] by (auto simp: stores_def)
    have same: "check_same_value sha (xxh v) s v = Inr ()" and s'': "s' = new_stored sha ?L u (merge_requirements r req)"
      using Some s' u by simp_all
    have "length u < dl_blob_threshold ?L" using str hard s'' by (auto simp: is_blob_def not_le)
    then have "length u \<le> dl_truncate_limit ?L" using limits_ok_bounds [OF lim] by simp
    then have "u = v" using same by (simp add: u check_same_value_def split: if_splits)
    with s'' hard show ?thesis by auto
  qed
  then obtain r where r: "s' = new_stored sha ?L v r" "rq_hot_hard r" by blast
  with str i get show ?thesis by (auto simp: pinned_in_window_def is_blob_def)
qed

section \<open>Requests keep the invariant\<close>

definition flushed_req :: "flushed \<Rightarrow> requirements" where
  "flushed_req f = \<lparr>rq_blob = fl_blob_required f, rq_hot_hard = fl_hot_hard f, rq_hot_soft = fl_hot_soft f\<rparr>"

lemma covered_merge [simp]: "covered f (merge_requirements (flushed_req f) req)"
  by (simp add: covered_def flushed_req_def)

lemma with_window_result:
  "with_window st (Inl e, in_window st) = (Inl e, st)"
  "with_window st (Inr x, w) = (Inr x, st\<lparr>in_window := w\<rparr>)"
  by (simp_all add: with_window_def)

lemma request_cases:
  assumes inv: "interner_inv xxh sha limits P st"
  obtains (failed) e where "request xxh sha v req st = (Inl e, st)"
  | (window) h where "request xxh sha v req st =
        (Inr (xxh v, h), st\<lparr>in_window := snd (dict_insert xxh sha v req (in_window st))\<rparr>)"
      and "xxh v \<noteq> 0" and "fst (dict_insert xxh sha v req (in_window st)) = Inr (xxh v)"
      and "om_get (sd_entries (in_window st)) (xxh v) \<noteq> None \<or> om_get (in_flushed st) (xxh v) = None"
  | (upgrade) f h where "request xxh sha v req st =
        (Inr (xxh v, h), record_flushed_bits (xxh v) (merge_requirements (flushed_req f) req)
           (st\<lparr>in_window := snd (dict_insert xxh sha v (merge_requirements (flushed_req f) req) (in_window st))\<rparr>))"
      and "xxh v \<noteq> 0"
      and "fst (dict_insert xxh sha v (merge_requirements (flushed_req f) req) (in_window st)) = Inr (xxh v)"
      and "om_get (in_flushed st) (xxh v) = Some f" and "om_get (sd_entries (in_window st)) (xxh v) = None"
  | (flushed) f h r where "request xxh sha v req st = (Inr (xxh v, h), record_flushed_bits (xxh v) r st)"
      and "xxh v \<noteq> 0" and "r = merge_requirements (flushed_req f) req \<or> r = flushed_req f"
      and "om_get (in_flushed st) (xxh v) = Some f" and "om_get (sd_entries (in_window st)) (xxh v) = None"
      and "rq_hot_hard req \<longrightarrow> fl_hot_hard f"
proof (cases "xxh v = 0")
  case True
  then show ?thesis by (intro failed) (simp add: request_def str_id_of_def)
next
  case nz: False
  have di: "dict_inv xxh sha UNIV (in_window st)" using inv by (simp add: interner_inv_def)
  note cases = apply_to_window_cases [OF di nz]
  show ?thesis
  proof (cases "om_get (sd_entries (in_window st)) (xxh v) = None \<and> om_get (in_flushed st) (xxh v) \<noteq> None")
    case False
    have "request xxh sha v req st = with_window st (apply_to_window xxh sha v req (in_window st))"
      using nz False by (auto simp: request_def str_id_of_def resolve_None)
    with cases [of req] nz False show ?thesis
      using failed window by (auto simp: with_window_result)
  next
    case True
    then obtain f where f: "om_get (in_flushed st) (xxh v) = Some f" and w: "om_get (sd_entries (in_window st)) (xxh v) = None"
      by blast
    let ?m = "merge_requirements (flushed_req f) req"
    let ?over = "dl_blob_threshold (sd_limits (in_window st)) \<le> fl_full_len f"
    have m: "\<lparr>rq_blob = (fl_blob_required f \<or> rq_blob req), rq_hot_hard = (fl_hot_hard f \<or> rq_hot_hard req),
        rq_hot_soft = (fl_hot_soft f \<or> rq_hot_soft req)\<rparr> = ?m"
      by (simp add: merge_requirements_def flushed_req_def)
    have same: "record_flushed_bits (xxh v) (flushed_req f) st = st"
    proof -
      have "om_ok (in_flushed st)" using inv by (simp add: interner_inv_def)
      moreover have "f\<lparr>fl_blob_required := rq_blob (flushed_req f), fl_hot_hard := rq_hot_hard (flushed_req f),
          fl_hot_soft := rq_hot_soft (flushed_req f)\<rparr> = f"
        by (cases f) (simp add: flushed_req_def)
      ultimately show ?thesis using f by (simp add: record_flushed_bits_def om_insert_same)
    qed
    consider (bad) "\<not> flushed_matches sha f v"
      | (conflict) "flushed_matches sha f v" "rq_hot_hard ?m \<and> (rq_blob ?m \<or> ?over)"
      | (good) "flushed_matches sha f v" "\<not> (rq_hot_hard ?m \<and> (rq_blob ?m \<or> ?over))"
      by blast
    then show ?thesis
    proof cases
      case bad
      with nz f w show ?thesis by (intro failed) (simp add: request_def str_id_of_def resolve_None)
    next
      case conflict
      with nz f w show ?thesis
        by (intro failed) (simp add: request_def str_id_of_def resolve_None m Let_def del: merge_sel)
    next
      case good
      show ?thesis
      proof (cases "rq_blob ?m \<noteq> fl_blob_required f \<or> rq_hot_hard ?m \<noteq> fl_hot_hard f")
        case True
        with nz f w good have "request xxh sha v req st =
            (case with_window st (apply_to_window xxh sha v ?m (in_window st)) of
               (Inl e, st') \<Rightarrow> (Inl e, st')
             | (Inr result, st') \<Rightarrow> (Inr result, record_flushed_bits (xxh v) ?m st'))"
          by (auto simp: request_def str_id_of_def resolve_None m Let_def simp del: merge_sel)
        note eq = this
        from cases [of ?m] show ?thesis
        proof (elim disjE exE conjE)
          fix e assume "apply_to_window xxh sha v ?m (in_window st) = (Inl e, in_window st)"
          with eq show ?thesis by (intro failed) (simp add: with_window_result)
        next
          fix h assume "apply_to_window xxh sha v ?m (in_window st) = (Inr (xxh v, h), snd (dict_insert xxh sha v ?m (in_window st)))"
            and "fst (dict_insert xxh sha v ?m (in_window st)) = Inr (xxh v)"
          with eq nz f w show ?thesis by (intro upgrade [of h f]) (simp_all add: with_window_result)
        qed
      next
        case False
        let ?soft = "rq_hot_soft ?m \<noteq> fl_hot_soft f \<and> \<not> (rq_blob ?m \<or> ?over)"
        from False nz f w good have "\<exists>h. request xxh sha v req st =
            (Inr (xxh v, h), if ?soft then record_flushed_bits (xxh v) ?m st else st)"
          by (simp add: request_def str_id_of_def resolve_None m Let_def del: merge_sel)
        then obtain h where r: "request xxh sha v req st =
            (Inr (xxh v, h), record_flushed_bits (xxh v) (if ?soft then ?m else flushed_req f) st)"
          using same by (cases ?soft) auto
        have "rq_hot_hard req \<longrightarrow> fl_hot_hard f" using False by (auto simp: flushed_req_def)
        with r nz f w show ?thesis by (intro flushed [of h "if ?soft then ?m else flushed_req f" f]) auto
      qed
    qed
  qed
qed

lemma record_bits_window [simp]: "in_window (record_flushed_bits i r st) = in_window st"
  by (simp add: record_flushed_bits_def split: option.splits)

lemma record_bits_pinned [simp]: "in_pinned (record_flushed_bits i r st) = in_pinned st"
  by (simp add: record_flushed_bits_def split: option.splits)

lemma record_bits_get:
  "om_get (in_flushed (record_flushed_bits i r st)) j =
     (if j = i then map_option (\<lambda>f. f\<lparr>fl_blob_required := rq_blob r, fl_hot_hard := rq_hot_hard r,
                                     fl_hot_soft := rq_hot_soft r\<rparr>) (om_get (in_flushed st) i)
      else om_get (in_flushed st) j)"
  by (auto simp: record_flushed_bits_def om_get_insert split: option.splits)

lemma record_bits_ok: "om_ok (in_flushed st) \<Longrightarrow> om_ok (in_flushed (record_flushed_bits i r st))"
  by (simp add: record_flushed_bits_def om_ok_insert split: option.splits)

lemma record_bits_inv:
  assumes "interner_inv xxh sha limits P st"
    and "rq_hot_hard r \<Longrightarrow> om_get (in_flushed st) i \<noteq> None \<Longrightarrow> om_get (in_pinned st) i \<noteq> None \<or> i \<in> P"
    and "\<And>s. om_get (sd_entries (in_window st)) i = Some s \<Longrightarrow> om_get (in_flushed st) i \<noteq> None \<Longrightarrow>
           (rq_blob r \<longrightarrow> rq_blob (st_req s)) \<and> (rq_hot_hard r \<longrightarrow> rq_hot_hard (st_req s))
           \<and> (rq_hot_soft r \<longrightarrow> rq_hot_soft (st_req s) \<or> rq_hot_hard (st_req s))"
  shows "interner_inv xxh sha limits P (record_flushed_bits i r st)"
proof -
  let ?st = "record_flushed_bits i r st"
  have hard: "om_get (in_pinned st) j \<noteq> None \<or> j \<in> P"
    if "om_get (in_flushed ?st) j = Some f" "fl_hot_hard f" for j f
    using that assms(1,2) by (cases "j = i") (auto simp: record_bits_get interner_inv_def)
  have cov: "covered f (st_req s)"
    if "om_get (sd_entries (in_window st)) j = Some s" "om_get (in_flushed ?st) j = Some f" for j s f
    using that assms(1,3) by (cases "j = i") (auto simp: record_bits_get interner_inv_def covered_def)
  show ?thesis
    using assms(1) hard cov record_bits_ok by (simp add: interner_inv_def)
qed

lemma request_inv:
  assumes inv: "interner_inv xxh sha limits P st" and lim: "limits_ok limits"
    and hard: "rq_hot_hard req \<Longrightarrow> xxh v \<in> P"
  shows "interner_inv xxh sha limits P (snd (request xxh sha v req st))"
  using inv
proof (cases rule: request_cases [where v = v and req = req])
  case (failed e)
  with inv show ?thesis by simp
next
  case (window h)
  have "interner_inv xxh sha limits P (st\<lparr>in_window := snd (dict_insert xxh sha v req (in_window st))\<rparr>)"
    using window(4) hard by (intro window_insert_inv [OF inv lim window(3)]) auto
  with window show ?thesis by simp
next
  case (upgrade f h)
  let ?m = "merge_requirements (flushed_req f) req"
  let ?st = "st\<lparr>in_window := snd (dict_insert xxh sha v ?m (in_window st))\<rparr>"
  have m: "om_ok (sd_entries (in_window st))" using inv by (simp add: interner_inv_def dict_inv_def)
  have pin: "om_get (in_pinned st) (xxh v) \<noteq> None \<or> xxh v \<in> P" if "rq_hot_hard ?m"
    using that hard inv upgrade(4) by (auto simp: interner_inv_def flushed_req_def)
  have inv': "interner_inv xxh sha limits P ?st"
    using pin upgrade(4) by (intro window_insert_inv [OF inv lim upgrade(3)]) auto
  have "st_req s = ?m" if "om_get (sd_entries (in_window ?st)) (xxh v) = Some s" for s
    using that upgrade(5) by (auto intro: insert_get [OF upgrade(3) m])
  then have "interner_inv xxh sha limits P (record_flushed_bits (xxh v) ?m ?st)"
    using pin by (intro record_bits_inv [OF inv']) auto
  with upgrade(1) show ?thesis by simp
next
  case (flushed f h r)
  have "rq_hot_hard r \<Longrightarrow> fl_hot_hard f"
    using flushed(3,6) by (auto simp: flushed_req_def)
  moreover have "fl_hot_hard f \<Longrightarrow> om_get (in_pinned st) (xxh v) \<noteq> None \<or> xxh v \<in> P"
    using inv flushed(4) unfolding interner_inv_def by blast
  ultimately have "interner_inv xxh sha limits P (record_flushed_bits (xxh v) r st)"
    using flushed(5) by (intro record_bits_inv [OF inv]) auto
  with flushed show ?thesis by simp
qed

lemma pin_inv:
  assumes inv: "interner_inv xxh sha limits {i} st" and pin: "pinned_in_window xxh sha (in_window st) i v"
    and new: "om_get (in_pinned st) i = None"
  shows "interner_inv xxh sha limits {} (st\<lparr>in_pinned := om_insert i v (in_pinned st)\<rparr>)"
proof -
  have ok: "om_ok (in_pinned st)" using inv by (simp add: interner_inv_def)
  then have get: "om_get (om_insert i v (in_pinned st)) j = (if j = i then Some v else om_get (in_pinned st) j)" for j
    by (simp add: om_get_insert)
  have "om_get (om_insert i v (in_pinned st)) j \<noteq> None"
    if "om_get (in_pinned st) j \<noteq> None \<or> j \<in> {i}" for j using that by (auto simp: get)
  with inv pin ok show ?thesis
    by (simp add: interner_inv_def om_ok_insert get del: not_None_eq)
qed

lemma flushed_hard_pinned:
  "interner_inv xxh sha limits P st \<Longrightarrow> om_get (in_flushed st) i = Some f \<Longrightarrow> fl_hot_hard f \<Longrightarrow>
     om_get (in_pinned st) i \<noteq> None \<or> i \<in> P"
  unfolding interner_inv_def by blast

lemma pinned_entry:
  "interner_inv xxh sha limits P st \<Longrightarrow> om_get (in_pinned st) i = Some v \<Longrightarrow>
     pinned_in_window xxh sha (in_window st) i v"
  unfolding interner_inv_def by blast

text \<open>A successful strict-hot request leaves its value in the window.\<close>

lemma request_hot_window:
  assumes inv: "interner_inv xxh sha limits {} st" and lim: "limits_ok limits"
    and hard: "rq_hot_hard req" and ok: "request xxh sha v req st = (Inr (i, h), st')"
  shows "pinned_in_window xxh sha (in_window st') i v"
proof -
  have di: "dict_inv xxh sha UNIV (in_window st)" and L: "limits_ok (sd_limits (in_window st))"
    using inv lim by (simp_all add: interner_inv_def)
  from inv show ?thesis
  proof (cases rule: request_cases [where v = v and req = req])
    case (failed e)
    with ok show ?thesis by simp
  next
    case (window h)
    with ok insert_hot_pinned [OF di L window(3) hard] show ?thesis by auto
  next
    case (upgrade f h)
    have "rq_hot_hard (merge_requirements (flushed_req f) req)" using hard by simp
    from insert_hot_pinned [OF di L upgrade(3) this] upgrade(1) ok show ?thesis by auto
  next
    case (flushed f h r)
    then have "om_get (in_pinned st) (xxh v) \<noteq> None"
      using hard flushed_hard_pinned [OF inv flushed(4)] by simp
    then obtain u where "om_get (in_pinned st) (xxh v) = Some u" by blast
    from pinned_entry [OF inv this] flushed(5) show ?thesis by (simp add: pinned_in_window_def)
  qed
qed

lemma request_pinned [simp]: "in_pinned (snd (request xxh sha v req st)) = in_pinned st"
  by (auto simp: request_def with_window_def Let_def split: option.splits sum.splits prod.splits)

lemma intern_hot_inv:
  assumes inv: "interner_inv xxh sha limits {} st" and lim: "limits_ok limits"
  shows "interner_inv xxh sha limits {} (snd (interner_intern_hot xxh sha v st))"
proof -
  let ?req = "no_requirements\<lparr>rq_hot_hard := True\<rparr>"
  obtain res st' where r: "request xxh sha v ?req st = (res, st')" by fastforce
  have failed_or: "(\<exists>e. res = Inl e \<and> st' = st) \<or> (\<exists>h. res = Inr (xxh v, h))"
    using inv by (cases rule: request_cases [where v = v and req = ?req]) (use r in auto)
  show ?thesis
  proof (cases res)
    case (Inl e)
    with failed_or r inv show ?thesis by (auto simp: interner_intern_hot_def)
  next
    case (Inr p)
    then obtain h where res: "res = Inr (xxh v, h)" using failed_or by auto
    have inv': "interner_inv xxh sha limits {xxh v} st'"
      using request_inv [OF interner_inv_mono [OF inv empty_subsetI] lim, of ?req v "{xxh v}"] r by simp
    have pin: "pinned_in_window xxh sha (in_window st') (xxh v) v"
      using request_hot_window [OF inv lim _ r [unfolded res]] by simp
    show ?thesis
    proof (cases "om_get (in_pinned st') (xxh v)")
      case None
      with pin_inv [OF inv' pin] r res show ?thesis by (simp add: interner_intern_hot_def)
    next
      case (Some u)
      then have "interner_inv xxh sha limits {} st'"
        by (intro interner_inv_pinned [OF inv']) simp
      with Some r res show ?thesis by (simp add: interner_intern_hot_def)
    qed
  qed
qed

section \<open>Flush keeps the invariant\<close>

lemma flush_entries_ok: "om_ok m \<Longrightarrow> om_ok (flush_entries sha snaps m)"
  by (induction snaps arbitrary: m) (auto simp: om_ok_insert)

lemma flush_entries_get:
  "distinct (map fst m') \<Longrightarrow>
   om_get (flush_entries sha (map (\<lambda>(i, s). snapshot_of i s) m') m) j =
     (case map_of m' j of None \<Rightarrow> om_get m j | Some s \<Rightarrow> Some (flushed_of sha (snapshot_of j s)))"
proof (induction m' arbitrary: m)
  case Nil
  then show ?case by simp
next
  case (Cons e m')
  obtain i s where e: "e = (i, s)" by (cases e)
  have "es_str_id (snapshot_of i s) = i" by (simp add: snapshot_of_def)
  with Cons e show ?case
    by (auto simp: om_get_insert map_of_eq_None_iff image_iff split: option.splits dest: map_of_SomeD)
qed

lemma flush_window_entries:
  assumes "om_ok (sd_entries w)"
  shows "om_get (flush_entries sha (dict_entries w) m) j =
    (case om_get (sd_entries w) j of None \<Rightarrow> om_get m j | Some s \<Rightarrow> Some (flushed_of sha (snapshot_of j s)))"
  using flush_entries_get [of "sd_entries w" sha m j] bt.keys_distinct [of "sd_entries w"] assms
  by (simp add: dict_entries_def om_get_def)

definition hot_req :: requirements where
  "hot_req = no_requirements\<lparr>rq_hot_hard := True\<rparr>"

lemma insert_hot_new:
  assumes "xxh v \<noteq> 0" and "om_get (sd_entries w) (xxh v) = None" and "length v < dl_blob_threshold (sd_limits w)"
  shows "dict_insert xxh sha v hot_req w = (Inr (xxh v),
    w\<lparr>sd_stored_bytes := sd_stored_bytes w + min (length v) (dl_truncate_limit (sd_limits w)),
      sd_entries := om_insert (xxh v) (new_stored sha (sd_limits w) v hot_req) (sd_entries w)\<rparr>)"
  using assms by (simp add: dict_insert_def str_id_of_def id_or_collision_def try_insert_def hot_req_def
      no_requirements_def)

lemma repin_get:
  assumes "\<forall>v \<in> set vs. xxh v \<noteq> 0 \<and> length v < dl_blob_threshold (sd_limits w) \<and> om_get (sd_entries w) (xxh v) = None"
    and "distinct (map xxh vs)"
  shows "om_get (sd_entries (repin xxh sha vs w)) j =
      (case map_of (map (\<lambda>v. (xxh v, v)) vs) j of
         None \<Rightarrow> om_get (sd_entries w) j
       | Some v \<Rightarrow> Some (new_stored sha (sd_limits w) v hot_req))
    \<and> sd_limits (repin xxh sha vs w) = sd_limits w"
  using assms
proof (induction vs arbitrary: w)
  case Nil
  then show ?case by simp
next
  case (Cons v vs)
  let ?w = "snd (dict_intern_hot xxh sha v w)"
  have ins: "?w = w\<lparr>sd_stored_bytes := sd_stored_bytes w + min (length v) (dl_truncate_limit (sd_limits w)),
      sd_entries := om_insert (xxh v) (new_stored sha (sd_limits w) v hot_req) (sd_entries w)\<rparr>"
    using Cons.prems insert_hot_new [of xxh v w sha] by (simp add: dict_intern_hot_def hot_req_def)
  have ne: "xxh u \<noteq> xxh v" if "u \<in> set vs" for u using Cons.prems(2) that by (auto simp: image_iff)
  have "\<forall>u \<in> set vs. xxh u \<noteq> 0 \<and> length u < dl_blob_threshold (sd_limits ?w) \<and> om_get (sd_entries ?w) (xxh u) = None"
    using Cons.prems(1) ne by (simp add: ins om_get_insert)
  note IH = Cons.IH [OF this]
  have "map_of (map (\<lambda>v. (xxh v, v)) vs) (xxh v) = None"
    using ne by (force simp: map_of_eq_None_iff)
  with IH Cons.prems(2) show ?case
    by (auto simp: ins om_get_insert split: option.splits)
qed

lemma repin_inv:
  "dict_inv xxh sha UNIV w \<Longrightarrow> usable (sd_limits w) \<Longrightarrow> dict_inv xxh sha UNIV (repin xxh sha vs w)"
proof (induction vs arbitrary: w)
  case (Cons v vs)
  have "dict_inv xxh sha UNIV (snd (dict_intern_hot xxh sha v w))"
    unfolding dict_intern_hot_def using Cons.prems by (intro dict_inv_insert) (simp_all add: usable_def)
  with Cons show ?case by (simp add: dict_intern_hot_def)
qed simp

lemma snapshot_flushed:
  "flushed_of sha (snapshot_of i s) =
     \<lparr>fl_full_len = st_full_len s,
      fl_check = (case st_full_sha256 s of None \<Rightarrow> check16 sha (st_bytes s) | Some digest \<Rightarrow> first16 digest),
      fl_blob_required = rq_blob (st_req s), fl_hot_hard = rq_hot_hard (st_req s),
      fl_hot_soft = (\<not> rq_hot_hard (st_req s) \<and> rq_hot_soft (st_req s))\<rparr>"
  by (simp add: flushed_of_def snapshot_of_def split: option.split)

lemma flush_window_get:
  assumes inv: "interner_inv xxh sha limits {} st" and lim: "limits_ok limits"
    and ok: "flush_window xxh sha write st = (Inr n, st')"
  shows "sd_limits (in_window st') = limits \<and> in_pinned st' = in_pinned st
    \<and> dict_inv xxh sha UNIV (in_window st') \<and> om_ok (in_flushed st')
    \<and> om_get (sd_entries (in_window st')) j =
        map_option (\<lambda>v. new_stored sha limits v hot_req) (om_get (in_pinned st) j)
    \<and> om_get (in_flushed st') j =
        (case om_get (sd_entries (in_window st)) j of
           None \<Rightarrow> om_get (in_flushed st) j
         | Some s \<Rightarrow> Some (flushed_of sha (snapshot_of j s)))"
proof -
  let ?vs = "map snd (in_pinned st)" and ?w0 = "dicts_new (sd_limits (in_window st))"
  have L: "sd_limits (in_window st) = limits" and m: "om_ok (sd_entries (in_window st))" and p: "om_ok (in_pinned st)"
    and f: "om_ok (in_flushed st)" using inv by (simp_all add: interner_inv_def dict_inv_def)
  have st': "st' = st\<lparr>in_flushed := flush_entries sha (dict_entries (in_window st)) (in_flushed st),
      in_window := repin xxh sha ?vs ?w0\<rparr>"
    using ok by (auto simp: flush_window_def split: sum.splits)
  have pw: "pinned_in_window xxh sha (in_window st) i v" if "(i, v) \<in> set (in_pinned st)" for i v
    using pinned_entry [OF inv] om_entries [OF p] that by blast
  then have keys: "map xxh ?vs = map fst (in_pinned st)"
    by (auto simp: pinned_in_window_def)
  have vs: "\<forall>v \<in> set ?vs. xxh v \<noteq> 0 \<and> length v < dl_blob_threshold (sd_limits ?w0) \<and> om_get (sd_entries ?w0) (xxh v) = None"
  proof
    fix v assume "v \<in> set ?vs"
    then obtain i where "(i, v) \<in> set (in_pinned st)" by auto
    with pw L show "xxh v \<noteq> 0 \<and> length v < dl_blob_threshold (sd_limits ?w0) \<and> om_get (sd_entries ?w0) (xxh v) = None"
      by (auto simp: pinned_in_window_def dicts_new_def om_get_def)
  qed
  have dist: "distinct (map xxh ?vs)"
    unfolding keys using bt.keys_distinct [OF p] by simp
  have pairs: "map (\<lambda>v. (xxh v, v)) ?vs = in_pinned st"
    using pw by (auto simp: pinned_in_window_def intro!: map_idI)
  have "om_get (sd_entries (repin xxh sha ?vs ?w0)) j =
        map_option (\<lambda>v. new_stored sha limits v hot_req) (om_get (in_pinned st) j)"
    and "sd_limits (repin xxh sha ?vs ?w0) = limits"
    using repin_get [OF vs dist, of sha j] unfolding pairs
    by (auto simp: L om_get_def dicts_new_def split: option.splits)
  moreover have "dict_inv xxh sha UNIV (repin xxh sha ?vs ?w0)"
    using lim L by (intro repin_inv dict_inv_new) (simp add: limits_ok_def dicts_new_def)
  ultimately show ?thesis
    using st' flush_window_entries [OF m] flush_entries_ok [OF f] by simp
qed

lemma flush_inv:
  assumes inv: "interner_inv xxh sha limits {} st" and lim: "limits_ok limits"
  shows "interner_inv xxh sha limits {} (snd (flush_window xxh sha write st))"
proof (cases "write (in_window st)")
  case (Inl e)
  then show ?thesis using inv by (simp add: flush_window_def)
next
  case (Inr u)
  then obtain n st' where fl: "flush_window xxh sha write st = (Inr n, st')"
    by (simp add: flush_window_def)
  note get = flush_window_get [OF inv lim fl]
  have pin: "pinned_in_window xxh sha (in_window st') i v" if "om_get (in_pinned st') i = Some v" for i v
  proof -
    have p: "om_get (in_pinned st) i = Some v" using that get [of i] by simp
    have "sd_limits (in_window st) = limits" using inv by (simp add: interner_inv_def)
    then have v: "i = xxh v" "i \<noteq> 0" "length v < dl_blob_threshold limits"
      using pinned_entry [OF inv p] by (auto simp: pinned_in_window_def)
    have "om_get (sd_entries (in_window st')) i = Some (new_stored sha limits v hot_req)"
      and "sd_limits (in_window st') = limits" using get [of i] p by simp_all
    with v show ?thesis unfolding pinned_in_window_def by (auto simp: hot_req_def)
  qed
  have strict: "om_get (in_pinned st') i \<noteq> None" if "om_get (sd_entries (in_window st')) i = Some s" for i s
    using that get [of i] by auto
  have hard: "om_get (in_pinned st') i \<noteq> None"
    if "om_get (in_flushed st') i = Some f" "fl_hot_hard f" for i f
  proof (cases "om_get (sd_entries (in_window st)) i")
    case None
    with that get [of i] flushed_hard_pinned [OF inv, of i f] show ?thesis by simp
  next
    case (Some s)
    with that get [of i] have "rq_hot_hard (st_req s)" by (auto simp: snapshot_flushed)
    with Some inv have "om_get (in_pinned st) i \<noteq> None" unfolding interner_inv_def by blast
    with get [of i] show ?thesis by simp
  qed
  have cov: "covered f (st_req s)"
    if s: "om_get (sd_entries (in_window st')) i = Some s" and f: "om_get (in_flushed st') i = Some f" for i s f
  proof -
    obtain v where v: "om_get (in_pinned st) i = Some v" and s': "s = new_stored sha limits v hot_req"
      using s get [of i] by (auto split: option.splits)
    obtain r where r: "om_get (sd_entries (in_window st)) i = Some (new_stored sha limits v r)" "rq_hot_hard r"
      using pinned_entry [OF inv v] inv by (auto simp: pinned_in_window_def interner_inv_def)
    have di: "dict_inv xxh sha UNIV (in_window st)" using inv by (simp add: interner_inv_def)
    have "\<not> rq_blob r"
      using dict_inv_get [OF di r(1)] r(2) by (auto simp: stores_def is_blob_def)
    moreover have "f = flushed_of sha (snapshot_of i (new_stored sha limits v r))"
      using f get [of i] r(1) by simp
    ultimately show ?thesis using r(2) s' by (simp add: covered_def snapshot_flushed hot_req_def)
  qed
  have "interner_inv xxh sha limits {} st'"
    using inv get pin strict hard cov by (simp add: interner_inv_def)
  with fl show ?thesis by simp
qed

section \<open>Reachable interners\<close>

fun interner_call ::
    "(u8 list \<Rightarrow> u64) \<Rightarrow> (u8 list \<Rightarrow> u8 list) \<Rightarrow> dict_call \<Rightarrow> interner \<Rightarrow> (dict_error + str_id) \<times> interner" where
  "interner_call xxh sha (CIntern v) st = interner_intern xxh sha v st"
| "interner_call xxh sha (CBlob v) st = interner_intern_blob xxh sha v st"
| "interner_call xxh sha (CHot v) st = interner_intern_hot xxh sha v st"
| "interner_call xxh sha (CBestEffort v) st =
     map_prod (map_sum (\<lambda>e. e) fst) (\<lambda>s. s) (interner_intern_hot_best_effort xxh sha v st)"

text \<open>The interner between seals: calls and flushes whose writer succeeds or fails.\<close>

inductive interner_step ::
    "(u8 list \<Rightarrow> u64) \<Rightarrow> (u8 list \<Rightarrow> u8 list) \<Rightarrow> interner \<Rightarrow> interner \<Rightarrow> bool" for xxh sha where
  step_call: "interner_step xxh sha st (snd (interner_call xxh sha c st))"
| step_flush: "interner_step xxh sha st (snd (flush_window xxh sha (\<lambda>_. Inr () :: string + unit) st))"
| step_flush_failed: "interner_step xxh sha st (snd (flush_window xxh sha (\<lambda>_. Inl e :: string + unit) st))"

inductive interner_reach ::
    "(u8 list \<Rightarrow> u64) \<Rightarrow> (u8 list \<Rightarrow> u8 list) \<Rightarrow> dict_limits \<Rightarrow> interner \<Rightarrow> bool" for xxh sha limits where
  reach_new: "interner_reach xxh sha limits (interner_new limits)"
| reach_step: "interner_reach xxh sha limits st \<Longrightarrow> interner_step xxh sha st st' \<Longrightarrow> interner_reach xxh sha limits st'"
| reach_seal: "interner_reach xxh sha limits st \<Longrightarrow> interner_reach xxh sha limits (snd (seal st))"

lemma interner_call_inv:
  assumes "interner_inv xxh sha limits {} st" and "limits_ok limits"
  shows "interner_inv xxh sha limits {} (snd (interner_call xxh sha c st))"
  using request_inv [OF assms, of no_requirements] request_inv [OF assms, of "no_requirements\<lparr>rq_blob := True\<rparr>"]
    request_inv [OF assms, of "no_requirements\<lparr>rq_hot_soft := True\<rparr>"] intern_hot_inv [OF assms]
  by (cases c) (auto simp: interner_intern_def interner_intern_blob_def interner_intern_hot_best_effort_def
      no_requirements_def)

lemma interner_step_inv:
  "interner_step xxh sha st st' \<Longrightarrow> interner_inv xxh sha limits {} st \<Longrightarrow> limits_ok limits \<Longrightarrow>
     interner_inv xxh sha limits {} st'"
  by (induction rule: interner_step.induct) (simp_all add: interner_call_inv flush_inv)

lemma seal_inv:
  "interner_inv xxh sha limits P st \<Longrightarrow> interner_inv xxh sha limits {} (snd (seal st))"
  using interner_inv_new [of xxh sha limits "{}"]
  by (simp add: seal_def interner_new_def interner_inv_def Let_def)

lemma interner_reach_inv:
  "interner_reach xxh sha limits st \<Longrightarrow> limits_ok limits \<Longrightarrow> interner_inv xxh sha limits {} st"
  by (induction rule: interner_reach.induct) (auto intro: interner_inv_new interner_step_inv seal_inv)

lemma call_error_request:
  assumes "fst (interner_call xxh sha c st) = Inl e"
  shows "fst (request xxh sha (call_value c) (call_req c) st) = Inl e
    \<and> (snd (request xxh sha (call_value c) (call_req c) st) = st \<longrightarrow> snd (interner_call xxh sha c st) = st)"
proof -
  obtain res st' where "request xxh sha (call_value c) (call_req c) st = (res, st')" by fastforce
  with assms show ?thesis
    by (cases c; cases res) (auto simp: interner_intern_def interner_intern_blob_def interner_intern_hot_def
        interner_intern_hot_best_effort_def)
qed

section \<open>Directives\<close>

fun hot_rank :: "hot_mark \<Rightarrow> nat" where
  "hot_rank HotNone = 0"
| "hot_rank HotSoft = 1"
| "hot_rank HotHard = 2"

definition stored_hot :: "stored \<Rightarrow> hot_mark" where
  "stored_hot s = es_hot (snapshot_of 0 s)"

text \<open>What the interner currently demands for an id: blob placement and hot mark.\<close>

definition directive :: "interner \<Rightarrow> str_id \<Rightarrow> (bool \<times> hot_mark) option" where
  "directive st i =
     (case om_get (sd_entries (in_window st)) i of
        Some s \<Rightarrow> Some (rq_blob (st_req s), stored_hot s)
      | None \<Rightarrow>
          (case om_get (in_flushed st) i of
             None \<Rightarrow> None
           | Some f \<Rightarrow> Some (fl_blob_required f, flushed_hot f)))"

definition directive_le :: "(bool \<times> hot_mark) option \<Rightarrow> (bool \<times> hot_mark) option \<Rightarrow> bool" where
  "directive_le a b \<longleftrightarrow>
     (case a of
        None \<Rightarrow> True
      | Some (blob, hot) \<Rightarrow>
          (case b of None \<Rightarrow> False | Some (blob', hot') \<Rightarrow> (blob \<longrightarrow> blob') \<and> hot_rank hot \<le> hot_rank hot'))"

lemma directive_le_refl [simp]: "directive_le a a"
  by (auto simp: directive_le_def split: option.splits)

lemma stored_hot_simp:
  "stored_hot s = (if rq_hot_hard (st_req s) then HotHard else if rq_hot_soft (st_req s) then HotSoft else HotNone)"
  by (simp add: stored_hot_def snapshot_of_def)

lemma directive_window_insert:
  assumes ok: "fst (dict_insert xxh sha v req (in_window st)) = Inr i" and m: "om_ok (sd_entries (in_window st))"
    and fl: "\<And>f. om_get (sd_entries (in_window st)) (xxh v) = None \<Longrightarrow> om_get (in_flushed st) (xxh v) = Some f
               \<Longrightarrow> \<exists>r. req = merge_requirements (flushed_req f) r"
    and w: "in_window st' = snd (dict_insert xxh sha v req (in_window st))"
    and f: "\<And>j. j \<noteq> xxh v \<Longrightarrow> om_get (in_flushed st') j = om_get (in_flushed st) j"
  shows "directive_le (directive st j) (directive st' j)"
proof -
  obtain s' where "i = xxh v" "xxh v \<noteq> 0"
    and get: "om_get (sd_entries (snd (dict_insert xxh sha v req (in_window st)))) = (om_get (sd_entries (in_window st)))(xxh v \<mapsto> s')"
    and "\<not> (rq_hot_hard (st_req s') \<and> is_blob s')"
    and s': "case om_get (sd_entries (in_window st)) (xxh v) of
           None \<Rightarrow> s' = new_stored sha (sd_limits (in_window st)) v req
         | Some s \<Rightarrow> s' = s\<lparr>st_req := merge_requirements (st_req s) req\<rparr> \<and> check_same_value sha (xxh v) s v = Inr ()"
    by (rule insert_get [OF ok m])
  show ?thesis
  proof (cases "j = xxh v")
    case False
    then have "directive st' j = directive st j" by (simp add: directive_def w get f split: option.split)
    then show ?thesis by simp
  next
    case True
    then have d': "directive st' j = Some (rq_blob (st_req s'), stored_hot s')"
      by (simp add: directive_def w get)
    show ?thesis
    proof (cases "om_get (sd_entries (in_window st)) (xxh v)")
      case (Some s)
      with s' True d' show ?thesis
        by (simp add: directive_le_def directive_def stored_hot_simp)
    next
      case None
      show ?thesis
      proof (cases "om_get (in_flushed st) (xxh v)")
        case None2: None
        with None True show ?thesis by (simp add: directive_le_def directive_def)
      next
        case (Some g)
        obtain r where "req = merge_requirements (flushed_req g) r" using fl [OF None Some] by blast
        with None Some s' True d' show ?thesis
          by (simp add: directive_le_def directive_def stored_hot_simp flushed_hot_def flushed_req_def)
      qed
    qed
  qed
qed

lemma directive_request:
  assumes inv: "interner_inv xxh sha limits {} st"
  shows "directive_le (directive st j) (directive (snd (request xxh sha v req st)) j)"
proof -
  have m: "om_ok (sd_entries (in_window st))" using inv by (simp add: interner_inv_def dict_inv_def)
  from inv show ?thesis
  proof (cases rule: request_cases [where v = v and req = req])
    case (failed e)
    then show ?thesis by simp
  next
    case (window h)
    then show ?thesis by (intro directive_window_insert [OF window(3) m]) auto
  next
    case (upgrade f h)
    then show ?thesis by (intro directive_window_insert [OF upgrade(3) m]) (auto simp: record_bits_get)
  next
    case (flushed f h r)
    show ?thesis
    proof (cases "j = xxh v")
      case False
      with flushed show ?thesis by (simp add: directive_def record_bits_get directive_le_def split: option.splits)
    next
      case True
      with flushed show ?thesis
        by (auto simp: directive_def record_bits_get directive_le_def flushed_hot_def flushed_req_def)
    qed
  qed
qed

lemma directive_pin [simp]: "directive (st\<lparr>in_pinned := p\<rparr>) j = directive st j"
  by (simp add: directive_def split: option.split)

lemma directive_call:
  assumes "interner_inv xxh sha limits {} st"
  shows "directive_le (directive st j) (directive (snd (interner_call xxh sha c st)) j)"
proof (cases c)
  case (CHot v)
  obtain res st' where r: "request xxh sha v (no_requirements\<lparr>rq_hot_hard := True\<rparr>) st = (res, st')" by fastforce
  have "directive (snd (interner_intern_hot xxh sha v st)) j = directive st' j"
    by (simp add: interner_intern_hot_def r split: sum.splits prod.splits option.splits)
  with CHot directive_request [OF assms, of j v "no_requirements\<lparr>rq_hot_hard := True\<rparr>"] r show ?thesis by simp
qed (use directive_request [OF assms] in \<open>simp_all add: interner_intern_def interner_intern_blob_def
       interner_intern_hot_best_effort_def\<close>)

lemma directive_flush:
  assumes inv: "interner_inv xxh sha limits {} st" and lim: "limits_ok limits"
    and fl: "flush_window xxh sha write st = (Inr n, st')"
  shows "directive_le (directive st j) (directive st' j)"
proof -
  note get = flush_window_get [OF inv lim fl, of j]
  have di: "dict_inv xxh sha UNIV (in_window st)" using inv by (simp add: interner_inv_def)
  show ?thesis
  proof (cases "om_get (in_pinned st) j")
    case None
    with get show ?thesis
      by (cases "om_get (sd_entries (in_window st)) j")
         (simp_all add: directive_def snapshot_flushed stored_hot_simp flushed_hot_def directive_le_def split: option.splits)
  next
    case (Some v)
    obtain r where r: "om_get (sd_entries (in_window st)) j = Some (new_stored sha (sd_limits (in_window st)) v r)" "rq_hot_hard r"
      using pinned_entry [OF inv Some] by (auto simp: pinned_in_window_def)
    have "\<not> rq_blob r"
      using dict_inv_get [OF di r(1)] r(2) by (auto simp: stores_def is_blob_def)
    with Some get r show ?thesis
      by (simp add: directive_def stored_hot_simp directive_le_def hot_req_def)
  qed
qed

section \<open>Properties\<close>

text \<open>
  A failed call changes nothing: although a request makes several calls on the window, whenever
  one of them fails the interner is exactly as before.
\<close>

theorem interner_error_atomic:
  assumes "interner_reach xxh sha limits st" and "limits_ok limits"
    and "fst (interner_call xxh sha c st) = Inl e"
  shows "snd (interner_call xxh sha c st) = st"
proof -
  have inv: "interner_inv xxh sha limits {} st" by (rule interner_reach_inv [OF assms(1,2)])
  have "snd (request xxh sha v req st) = st" if "fst (request xxh sha v req st) = Inl e" for v req
    using inv by (cases rule: request_cases [where v = v and req = req]) (use that in auto)
  with call_error_request [OF assms(3)] show ?thesis by blast
qed

lemma demo_limits_ok: "limits_ok demo_dict_limits"
  by (simp add: limits_ok_def validate_limits_def usable_def demo_dict_limits_def)

lemma interner_error_atomic_witness:
  "snd (interner_call demo_hash demo_sha (CHot [1, 2]) (interner_new demo_dict_limits)) = interner_new demo_dict_limits"
proof (rule interner_error_atomic [OF reach_new demo_limits_ok])
  show "fst (interner_call demo_hash demo_sha (CHot [1, 2]) (interner_new demo_dict_limits)) = Inl (PlacementConflict 4)"
    by (simp add: interner_intern_hot_def request_def interner_new_def resolve_None demo_simps with_window_def
        apply_to_window_def)
qed

text \<open>
  C23. Strict-hot values are in every window: in every reachable state, right after a flush too, each
  pinned value resolves to its full bytes and is listed among the hot strings.
\<close>

theorem pinned_in_every_window:
  assumes "interner_reach xxh sha limits st" and "limits_ok limits" and "om_get (in_pinned st) i = Some v"
  shows "resolve (in_window st) i = Some (Str v) \<and> (i, v) \<in> set (dict_hot_strings (in_window st))"
proof -
  have inv: "interner_inv xxh sha limits {} st" by (rule interner_reach_inv [OF assms(1,2)])
  have di: "dict_inv xxh sha UNIV (in_window st)" and L: "sd_limits (in_window st) = limits"
    using inv by (simp_all add: interner_inv_def)
  obtain r where r: "om_get (sd_entries (in_window st)) i = Some (new_stored sha limits v r)" "rq_hot_hard r"
    and v: "length v < dl_blob_threshold limits"
    using pinned_entry [OF inv assms(3)] L by (auto simp: pinned_in_window_def)
  have "\<not> is_blob (new_stored sha limits v r)"
    using dict_inv_get [OF di r(1)] r(2) by (auto simp: stores_def)
  moreover have "take (dl_truncate_limit limits) v = v"
    using v limits_ok_bounds [OF assms(2)] by simp
  moreover have "(i, new_stored sha limits v r) \<in> set (sd_entries (in_window st))"
    using om_entries [of "sd_entries (in_window st)"] r(1) di by (simp add: dict_inv_def)
  ultimately show ?thesis
    using r by (force simp: resolve_def dict_hot_strings_def is_hot_def)
qed

lemma pinned_in_every_window_witness:
  "resolve (in_window (snd (flush_window demo_hash demo_sha (\<lambda>_. Inr () :: string + unit)
     (snd (interner_call demo_hash demo_sha (CHot [1]) (interner_new demo_dict_limits)))))) 2 = Some (Str [1])"
proof -
  let ?st = "snd (flush_window demo_hash demo_sha (\<lambda>_. Inr () :: string + unit)
     (snd (interner_call demo_hash demo_sha (CHot [1]) (interner_new demo_dict_limits))))"
  have "interner_reach demo_hash demo_sha demo_dict_limits ?st"
    by (intro reach_step [OF _ step_flush] reach_step [OF _ step_call] reach_new)
  moreover have "om_get (in_pinned ?st) 2 = Some [1]"
    by (simp add: interner_intern_hot_def request_def interner_new_def resolve_None demo_simps with_window_def
        apply_to_window_def apply_flags_def dict_intern_def dict_intern_hot_def flush_window_def)
  ultimately show ?thesis using pinned_in_every_window [OF _ demo_limits_ok] by blast
qed

text \<open>
  C24. What is demanded for an id never weakens before the segment is sealed: through calls, flushes
  and failed flushes a known id stays known, a forced blob placement stays forced and the hot mark
  never drops.
\<close>

theorem directives_never_weaken:
  assumes "interner_reach xxh sha limits st" and "limits_ok limits" and "interner_step xxh sha st st'"
  shows "directive_le (directive st i) (directive st' i)"
proof -
  have inv: "interner_inv xxh sha limits {} st" by (rule interner_reach_inv [OF assms(1,2)])
  from assms(3) show ?thesis
  proof cases
    case (step_call c)
    then show ?thesis using directive_call [OF inv] by simp
  next
    case step_flush
    then show ?thesis
      using directive_flush [OF inv assms(2), of "\<lambda>_. Inr () :: string + unit" _ st' i]
      by (simp add: flush_window_def)
  next
    case (step_flush_failed e)
    then show ?thesis by (simp add: flush_window_def)
  qed
qed

lemma directives_never_weaken_witness:
  "directive_le (directive (interner_new demo_dict_limits) 2)
     (directive (snd (interner_call demo_hash demo_sha (CHot [1]) (interner_new demo_dict_limits))) 2)"
  by (rule directives_never_weaken [OF reach_new demo_limits_ok step_call])

text \<open>
  The interner does not give strict-hot values the exemption from the byte cap that the
  dictionaries give them: a new strict-hot value that does not fit into the window is refused as
  \<open>Full\<close>, while the same strict-hot insertion on the same window succeeds.
\<close>

theorem intern_hot_full:
  assumes "xxh v \<noteq> 0" and "\<not> is_interned st (xxh v)" and "length v < dl_blob_threshold (sd_limits (in_window st))"
    and "dl_max_total_bytes (sd_limits (in_window st)) <
           saturating_add (sd_stored_bytes (in_window st)) (min (length v) (dl_truncate_limit (sd_limits (in_window st))))"
  shows "interner_intern_hot xxh sha v st =
      (Inl (Full (sd_stored_bytes (in_window st)) (dl_max_total_bytes (sd_limits (in_window st)))), st)
    \<and> fst (dict_intern_hot xxh sha v (in_window st)) = Inr (xxh v)"
proof -
  have w: "om_get (sd_entries (in_window st)) (xxh v) = None" and f: "om_get (in_flushed st) (xxh v) = None"
    using assms(2) by (simp_all add: is_interned_def resolve_None)
  have "request xxh sha v (no_requirements\<lparr>rq_hot_hard := True\<rparr>) st =
      (Inl (Full (sd_stored_bytes (in_window st)) (dl_max_total_bytes (sd_limits (in_window st)))), st)"
    using assms w f by (simp add: request_def str_id_of_def resolve_None with_window_def apply_to_window_def
        dict_intern_def dict_insert_def id_or_collision_def try_insert_def no_requirements_def)
  then show ?thesis
    using insert_hot_new [of xxh v "in_window st" sha] assms(1,3) w by (simp add: interner_intern_hot_def dict_intern_hot_def hot_req_def)
qed

lemma intern_hot_full_witness:
  "fst (interner_intern_hot demo_hash demo_sha [1] \<lparr>in_window = \<lparr>sd_limits = demo_dict_limits, sd_entries = [],
     sd_stored_bytes = 8\<rparr>, in_flushed = [], in_pinned = []\<rparr>) = Inl (Full 8 8)"
  using intern_hot_full [of demo_hash "[1]" "\<lparr>in_window = \<lparr>sd_limits = demo_dict_limits, sd_entries = [],
     sd_stored_bytes = 8\<rparr>, in_flushed = [], in_pinned = []\<rparr>" demo_sha]
  by (simp add: demo_hash_def is_interned_def resolve_None om_get_def demo_dict_limits_def saturating_add_def)

end
