(* ===== verification/Layout_Time.thy ===== *)
theory Layout_Time
  imports Prelude
begin

text \<open>
  Segment identities and their calendar buckets (\<open>crates/kronika-layout/src/time.rs\<close>): the proleptic
  Gregorian date of a day number, the accepted range of segment ids, calendar validation, segment
  addresses and the names built from them.  \<open>i64\<close> values are integers; the computations stay far
  from the \<open>i64\<close> bounds because the day number is at most \<open>2 ^ 63 / 86400000000\<close> in size.
\<close>

section \<open>Dates\<close>

definition MICROS_PER_DAY :: int where
  "MICROS_PER_DAY = 86400000000"

text \<open>The integer division of the source rounds towards zero.\<close>

definition rust_div :: "int \<Rightarrow> int \<Rightarrow> int" where
  "rust_div a b = (if 0 \<le> a then a div b else - ((- a) div b))"

definition is_leap_year :: "int \<Rightarrow> bool" where
  "is_leap_year year \<longleftrightarrow> year mod 4 = 0 \<and> (year mod 100 \<noteq> 0 \<or> year mod 400 = 0)"

definition days_in_month :: "int \<Rightarrow> int \<Rightarrow> int" where
  "days_in_month year month =
     (if month \<in> {1, 3, 5, 7, 8, 10, 12} then 31
      else if month \<in> {4, 6, 9, 11} then 30
      else if month = 2 \<and> is_leap_year year then 29
      else if month = 2 then 28
      else 0)"

definition civil_from_days :: "int \<Rightarrow> int \<times> int \<times> int" where
  "civil_from_days days_since_epoch =
     (let shifted = days_since_epoch + 719468;
          era = rust_div (if shifted \<ge> 0 then shifted else shifted - 146096) 146097;
          day_of_era = shifted - era * 146097;
          year_of_era = rust_div (day_of_era - rust_div day_of_era 1460 + rust_div day_of_era 36524
                                  - rust_div day_of_era 146096) 365;
          year = year_of_era + era * 400;
          day_of_year = day_of_era - (365 * year_of_era + rust_div year_of_era 4 - rust_div year_of_era 100);
          month_prime = rust_div (5 * day_of_year + 2) 153;
          day = day_of_year - rust_div (153 * month_prime + 2) 5 + 1;
          month = month_prime + (if month_prime < 10 then 3 else -9)
      in (if month \<le> 2 then year + 1 else year, month, day))"

section \<open>Segment ids and days\<close>

record utc_day =
  ud_year :: int
  ud_month :: int
  ud_day :: int

text \<open>
  The errors of the layout.  \<open>Io\<close> carries the raw error number of the operating system.
\<close>

datatype limit_kind = VisitedEntries | EntriesPerDay | Segments | MetadataBytes

datatype owner_kind = Writer | Overview

datatype layout_error =
    LayoutIo int
  | InvalidLimits limit_kind nat nat
  | SegmentIdOutOfRange int
  | UnsupportedFlatLayout string
  | SymlinkNotAllowed string
  | UnexpectedRootEntry string
  | UnexpectedRootEntryType string
  | MalformedYearDirectory string
  | MalformedMonthDirectory string
  | MalformedDayDirectory string
  | UnexpectedCalendarEntryType string
  | UnexpectedLeafEntry string
  | UnexpectedLeafEntryType string
  | MisbucketedSegment int utc_day utc_day
  | TraversalLimitExceeded limit_kind nat
  | SegmentAlreadyExists int
  | TemporaryChanged string
  | OwnerContended owner_kind
  | SourceChanged int
  | ActiveJournalMissing
  | RecoverySlotsExhausted nat

definition segment_utc_day :: "int \<Rightarrow> layout_error + utc_day" where
  "segment_utc_day sid =
     (let days = sid div MICROS_PER_DAY;
          (year, month, day) = civil_from_days days in
      if \<not> (0 \<le> year \<and> year \<le> 9999) then Inl (SegmentIdOutOfRange sid)
      else Inr \<lparr>ud_year = year, ud_month = month, ud_day = day\<rparr>)"

definition segment_id_new :: "int \<Rightarrow> layout_error + int" where
  "segment_id_new value = (case segment_utc_day value of Inl e \<Rightarrow> Inl e | Inr _ \<Rightarrow> Inr value)"

text \<open>Decimal text with leading zeros, as \<open>{:04}\<close> and \<open>{:02}\<close> print it.\<close>

fun dec_digits :: "nat \<Rightarrow> string" where
  "dec_digits n =
     (if n < 10 then [char_of (48 + n)] else dec_digits (n div 10) @ [char_of (48 + n mod 10)])"

declare dec_digits.simps [simp del]

definition padded :: "nat \<Rightarrow> int \<Rightarrow> string" where
  "padded width n = (let ds = dec_digits (nat n) in replicate (width - length ds) CHR ''0'' @ ds)"

definition display_int :: "int \<Rightarrow> string" where
  "display_int n = (if n < 0 then CHR ''-'' # dec_digits (nat (- n)) else dec_digits (nat n))"

definition display_day :: "int \<Rightarrow> int \<Rightarrow> int \<Rightarrow> string" where
  "display_day year month day = padded 4 year @ ''/'' @ padded 2 month @ ''/'' @ padded 2 day"

definition utc_day_new :: "int \<Rightarrow> int \<Rightarrow> int \<Rightarrow> layout_error + utc_day" where
  "utc_day_new year month day =
     (if year > 9999 \<or> \<not> (1 \<le> month \<and> month \<le> 12) \<or> day = 0 \<or> day > days_in_month year month
      then Inl (MalformedDayDirectory (display_day year month day))
      else Inr \<lparr>ud_year = year, ud_month = month, ud_day = day\<rparr>)"

definition year_component :: "utc_day \<Rightarrow> string" where
  "year_component d = padded 4 (ud_year d)"

definition month_component :: "utc_day \<Rightarrow> string" where
  "month_component d = padded 2 (ud_month d)"

definition day_component :: "utc_day \<Rightarrow> string" where
  "day_component d = padded 2 (ud_day d)"

record segment_address =
  sa_id :: int
  sa_day :: utc_day

definition address_new :: "int \<Rightarrow> layout_error + segment_address" where
  "address_new sid = (case segment_utc_day sid of Inl e \<Rightarrow> Inl e | Inr day \<Rightarrow> Inr \<lparr>sa_id = sid, sa_day = day\<rparr>)"

definition address_in_day :: "int \<Rightarrow> utc_day \<Rightarrow> layout_error + segment_address" where
  "address_in_day sid day =
     (case segment_utc_day sid of
        Inl e \<Rightarrow> Inl e
      | Inr expected \<Rightarrow>
          if expected \<noteq> day then Inl (MisbucketedSegment sid day expected)
          else Inr \<lparr>sa_id = sid, sa_day = day\<rparr>)"

definition pgm_name :: "segment_address \<Rightarrow> string" where
  "pgm_name a = display_int (sa_id a) @ ''.pgm''"

definition ovf_name :: "segment_address \<Rightarrow> string" where
  "ovf_name a = display_int (sa_id a) @ ''.ovf''"

section \<open>Eras, years and days\<close>

text \<open>
  A day of the 400-year era is a year of the era, which begins in March, and a day of that year.
\<close>

definition year_start :: "int \<Rightarrow> int" where
  "year_start y = 365 * y + y div 4 - y div 100 + y div 400"

definition year_of_day :: "int \<Rightarrow> int" where
  "year_of_day doe = (doe - doe div 1460 + doe div 36524 - doe div 146096) div 365"

definition march_date :: "int \<Rightarrow> int \<Rightarrow> int \<times> int \<times> int" where
  "march_date y doy =
     (let mp = (5 * doy + 2) div 153; m = mp + (if mp < 10 then 3 else -9) in
      (if m \<le> 2 then y + 1 else y, m, doy - (153 * mp + 2) div 5 + 1))"

lemma civil_from_days_march:
  assumes "0 \<le> doe" and "doe < 146097" and "0 \<le> y" and "y < 400"
    and "year_of_day doe = y" and "year_start y \<le> doe" and "n + 719468 = 146097 * era + doe"
  shows "civil_from_days n = march_date (400 * era + y) (doe - year_start y)"
proof -
  let ?s = "n + 719468"
  have era: "rust_div (if ?s \<ge> 0 then ?s else ?s - 146096) 146097 = era"
  proof (cases "0 \<le> ?s")
    case True
    then have "rust_div ?s 146097 = ?s div 146097" by (simp add: rust_div_def)
    also have "\<dots> = era" using assms by simp
    finally show ?thesis using True by simp
  next
    case False
    have "- (?s - 146096) = 146097 * (- era) + (146096 - doe)" using assms(7) by simp
    then have "(- (?s - 146096)) div 146097 = - era" using assms(1,2) by simp
    with False show ?thesis by (simp add: rust_div_def)
  qed
  have doe: "?s - era * 146097 = doe" using assms(7) by simp
  have pos: "0 \<le> doe - doe div 1460 + doe div 36524 - doe div 146096" using assms(1) by linarith
  have yoe: "rust_div (doe - rust_div doe 1460 + rust_div doe 36524 - rust_div doe 146096) 365 = y"
    using assms(1,5) pos by (simp add: rust_div_def year_of_day_def)
  have doy: "doe - (365 * y + rust_div y 4 - rust_div y 100) = doe - year_start y" (is "?doy = _")
    using assms(3,4) by (simp add: rust_div_def year_start_def)
  have "0 \<le> doe - year_start y" using assms(6) by simp
  then have mp: "rust_div (5 * (doe - year_start y) + 2) 153 = (5 * (doe - year_start y) + 2) div 153"
    and mp0: "0 \<le> (5 * (doe - year_start y) + 2) div 153" by (simp_all add: rust_div_def)
  then have d: "rust_div (153 * ((5 * (doe - year_start y) + 2) div 153) + 2) 5 =
      (153 * ((5 * (doe - year_start y) + 2) div 153) + 2) div 5" by (simp add: rust_div_def)
  show ?thesis
    unfolding civil_from_days_def Let_def era doe yoe doy mp d march_date_def
    by (simp add: add.commute mult.commute)
qed

text \<open>The year formula is monotone, so its value at the first and last day of each year decides it.\<close>

definition year_count :: "int \<Rightarrow> int" where
  "year_count doe = doe - doe div 1460 + doe div 36524 - doe div 146096"

lemma succ_div:
  fixes x k :: int
  assumes "0 < k"
  shows "(x + 1) div k = x div k + (if k dvd x + 1 then 1 else 0)"
proof (cases "x mod k + 1 < k")
  case True
  have x: "x + 1 = k * (x div k) + (x mod k + 1)" by simp
  have "(x + 1) div k = x div k" and "(x + 1) mod k = x mod k + 1"
    using assms True int_div_pos_eq [OF x] int_mod_pos_eq [OF x] by auto
  moreover have "0 \<le> x mod k" using assms by simp
  ultimately show ?thesis by (simp add: dvd_eq_mod_eq_0)
next
  case False
  then have m: "x mod k + 1 = k" using pos_mod_bound [OF assms, of x] by simp
  have "x + 1 = k * (x div k) + (x mod k + 1)" by simp
  then have x: "x + 1 = k * (x div k + 1) + 0" unfolding m by (simp add: algebra_simps)
  have "(x + 1) div k = x div k + 1" and "(x + 1) mod k = 0"
    using assms int_div_pos_eq [OF x] int_mod_pos_eq [OF x] by auto
  then show ?thesis by (simp add: dvd_eq_mod_eq_0)
qed

lemma year_count_step: "year_count x \<le> year_count (x + 1)"
proof -
  have "36524 dvd x + 1" if "146096 dvd x + 1"
    using dvd_trans [OF _ that, of 36524] by simp
  then show ?thesis
    by (simp add: year_count_def succ_div)
qed

lemma year_count_mono: "x \<le> y \<Longrightarrow> year_count x \<le> year_count y"
proof (induction "nat (y - x)" arbitrary: y)
  case 0
  then show ?case by simp
next
  case (Suc n)
  then have "year_count x \<le> year_count (y - 1)" by simp
  also have "\<dots> \<le> year_count y" using year_count_step [of "y - 1"] by simp
  finally show ?case .
qed

text \<open>Checked by evaluation for the 400 years of the era.\<close>

definition year_ok :: "int \<Rightarrow> bool" where
  "year_ok y \<longleftrightarrow> 0 \<le> year_start y \<and> year_start (y + 1) \<le> 146097 \<and> 365 * y \<le> year_count (year_start y) \<and> year_count (year_start (y + 1) - 1) < 365 * (y + 1)
     \<and> year_start (y + 1) = year_start y + (if is_leap_year (y + 1) then 366 else 365)"

lemma years_ok: "list_all year_ok [0..399]"
  by code_simp

lemma year_ok_all: "0 \<le> y \<Longrightarrow> y < 400 \<Longrightarrow> year_ok y"
  using years_ok by (simp add: list_all_iff)

lemma year_of_day_exact:
  assumes "0 \<le> y" and "y < 400" and "year_start y \<le> doe" and "doe < year_start (y + 1)"
  shows "year_of_day doe = y"
proof -
  have ok: "year_ok y" by (rule year_ok_all [OF assms(1,2)])
  then have "365 * y \<le> year_count (year_start y)" and up: "year_count (year_start (y + 1) - 1) < 365 * (y + 1)"
    unfolding year_ok_def by blast+
  then have lo: "365 * y \<le> year_count doe"
    using year_count_mono [OF assms(3)] by (metis order_trans)
  have "doe \<le> year_start (y + 1) - 1" using assms(4) by (simp only: zle_diff1_eq)
  then have hi: "year_count doe < 365 * (y + 1)"
    using up by (blast intro: order_le_less_trans year_count_mono)
  have "year_count doe = 365 * y + (year_count doe - 365 * y)" by simp
  then have "year_count doe div 365 = y"
    by (rule int_div_pos_eq) (use lo hi in \<open>simp_all add: algebra_simps\<close>)
  then show ?thesis by (simp add: year_of_day_def year_count_def)
qed

text \<open>The months of a year that begins in March, checked by evaluation for its 366 days.\<close>

definition day_ok :: "int \<Rightarrow> bool" where
  "day_ok doy \<longleftrightarrow>
     (let (y, m, d) = march_date 0 doy; (y', m', d') = march_date 0 (doy + 1) in
      1 \<le> m \<and> m \<le> 12 \<and> 1 \<le> d \<and> d \<le> (if m = 2 then 29 else days_in_month 1 m)
      \<and> (m = 2 \<longrightarrow> doy = 336 + d) \<and> (y = (if m \<le> 2 then 1 else 0))
      \<and> (doy < 365 \<longrightarrow>
           (if m \<noteq> 2 \<and> d = days_in_month 1 m
            then (y', m', d') = (if m = 12 then (1, 1, 1) else (y, m + 1, 1))
            else (y', m', d') = (y, m, d + 1))))"

lemma days_ok: "list_all day_ok [0..365]"
  by code_simp

lemma day_ok_all: "0 \<le> doy \<Longrightarrow> doy < 366 \<Longrightarrow> day_ok doy"
  using days_ok by (simp add: list_all_iff)

lemma march_date_shift: "march_date y doy = (case march_date 0 doy of (y', m, d) \<Rightarrow> (y + y', m, d))"
  by (simp add: march_date_def Let_def)

text \<open>Every day lies in one year of one era.\<close>

definition year_length :: "int \<Rightarrow> int" where
  "year_length y = (if is_leap_year (y + 1) then 366 else 365)"

definition at_day :: "int \<Rightarrow> int \<Rightarrow> int \<Rightarrow> int \<Rightarrow> bool" where
  "at_day n era y doy \<longleftrightarrow>
     0 \<le> y \<and> y < 400 \<and> 0 \<le> doy \<and> doy < year_length y \<and> n + 719468 = 146097 * era + year_start y + doy"

lemma year_start_succ: "0 \<le> y \<Longrightarrow> y < 400 \<Longrightarrow> year_start (y + 1) = year_start y + year_length y"
  using year_ok_all [of y] unfolding year_ok_def year_length_def by blast

lemma step_between:
  fixes f :: "nat \<Rightarrow> int"
  shows "f 0 \<le> x \<Longrightarrow> x < f n \<Longrightarrow> \<exists>k<n. f k \<le> x \<and> x < f (Suc k)"
proof (induction n)
  case (Suc n)
  then show ?case by (cases "x < f n") (auto intro: less_SucI)
qed simp

lemma at_day_exists: "\<exists>era y doy. at_day n era y doy"
proof -
  let ?s = "n + 719468"
  let ?doe = "?s mod 146097"
  have "year_start (int 0) \<le> ?doe" and "?doe < year_start (int 400)"
    by (simp_all add: year_start_def)
  then obtain k where k: "k < 400" "year_start (int k) \<le> ?doe" "?doe < year_start (int (Suc k))"
    using step_between [of "\<lambda>k. year_start (int k)" ?doe 400] by auto
  have "year_start (int (Suc k)) = year_start (int k) + year_length (int k)"
    using year_start_succ [of "int k"] k(1) by (simp add: add.commute)
  then have "at_day n (?s div 146097) (int k) (?doe - year_start (int k))"
    using k by (simp add: at_day_def)
  then show ?thesis by blast
qed

lemma year_start_range: "0 \<le> y \<Longrightarrow> y < 400 \<Longrightarrow> 0 \<le> year_start y \<and> year_start y + year_length y \<le> 146097"
  using year_ok_all [of y] year_start_succ [of y] unfolding year_ok_def by simp

lemma at_day_civil:
  assumes "at_day n era y doy"
  shows "civil_from_days n = march_date (400 * era + y) doy"
proof -
  let ?doe = "year_start y + doy"
  have y: "0 \<le> y" "y < 400" and d: "0 \<le> doy" "doy < year_length y"
    and n: "n + 719468 = 146097 * era + ?doe"
    using assms by (simp_all add: at_day_def)
  have "year_of_day ?doe = y"
    using y d by (intro year_of_day_exact) (simp_all add: year_start_succ [OF y])
  then have "civil_from_days n = march_date (400 * era + y) (?doe - year_start y)"
    using y d n year_start_range [OF y] by (intro civil_from_days_march) simp_all
  then show ?thesis by simp
qed

text \<open>The day after a day: the next day of its year, or the first day of the next year.\<close>

lemma at_day_succ:
  assumes "at_day n era y doy" and "doy + 1 < year_length y"
  shows "at_day (n + 1) era y (doy + 1)"
  using assms by (simp add: at_day_def)

lemma at_day_wrap:
  assumes "at_day n era y doy" and "doy + 1 = year_length y"
  shows "\<exists>era' y'. at_day (n + 1) era' y' 0 \<and> 400 * era' + y' = 400 * era + y + 1"
proof (cases "y = 399")
  case True
  have "year_start 399 + 366 = 146097" and "year_length 399 = 366"
    by (simp_all add: year_start_def year_length_def is_leap_year_def)
  then have "at_day (n + 1) (era + 1) 0 0"
    using assms True by (simp add: at_day_def year_start_def year_length_def is_leap_year_def)
  then show ?thesis using True by (intro exI [of _ "era + 1"] exI [of _ 0]) simp
next
  case False
  have "year_start (y + 1) = year_start y + (doy + 1)"
    using year_start_succ [of y] assms by (simp add: at_day_def)
  moreover have "0 < year_length (y + 1)" by (simp add: year_length_def)
  ultimately have "at_day (n + 1) era (y + 1) 0"
    using assms(1) False by (simp add: at_day_def)
  then show ?thesis by (intro exI [of _ era] exI [of _ "y + 1"]) simp
qed

section \<open>The calendar\<close>

text \<open>The date after a date of the proleptic Gregorian calendar.\<close>

definition valid_date :: "int \<times> int \<times> int \<Rightarrow> bool" where
  "valid_date = (\<lambda>(y, m, d). 1 \<le> m \<and> m \<le> 12 \<and> 1 \<le> d \<and> d \<le> days_in_month y m)"

definition next_date :: "int \<times> int \<times> int \<Rightarrow> int \<times> int \<times> int" where
  "next_date = (\<lambda>(y, m, d).
     if d < days_in_month y m then (y, m, d + 1)
     else if m < 12 then (y, m + 1, 1)
     else (y + 1, 1, 1))"

lemma days_in_month_february: "m \<noteq> 2 \<Longrightarrow> days_in_month y m = days_in_month 1 m"
  by (simp add: days_in_month_def)

lemma leap_year_shift: "is_leap_year (400 * era + y + 1) = is_leap_year (y + 1)"
proof -
  have eq: "400 * era + y + 1 = (y + 1) + 4 * (100 * era)" "400 * era + y + 1 = (y + 1) + 100 * (4 * era)"
      "400 * era + y + 1 = (y + 1) + 400 * era"
    by simp_all
  have "(400 * era + y + 1) mod 4 = (y + 1) mod 4"
    unfolding eq(1) by (rule mod_mult_self2)
  moreover have "(400 * era + y + 1) mod 100 = (y + 1) mod 100"
    unfolding eq(2) by (rule mod_mult_self2)
  moreover have "(400 * era + y + 1) mod 400 = (y + 1) mod 400"
    unfolding eq(3) by (rule mod_mult_self2)
  ultimately show ?thesis by (simp only: is_leap_year_def)
qed

lemma march_date_first: "march_date y 0 = (y, 3, 1)"
  by (simp add: march_date_def)

lemma civil_valid_next:
  assumes "at_day n era y doy"
  shows "valid_date (civil_from_days n) \<and> civil_from_days (n + 1) = next_date (civil_from_days n)"
proof -
  let ?Y = "400 * era + y"
  obtain b m d where c: "march_date 0 doy = (b, m, d)" by (cases "march_date 0 doy")
  obtain b' m' d' where c': "march_date 0 (doy + 1) = (b', m', d')" by (cases "march_date 0 (doy + 1)")
  have r: "0 \<le> doy" "doy < year_length y" "doy < 366"
    using assms by (auto simp: at_day_def year_length_def split: if_splits)
  have ok: "1 \<le> m" "m \<le> 12" "1 \<le> d" "d \<le> (if m = 2 then 29 else days_in_month 1 m)"
      "m = 2 \<Longrightarrow> doy = 336 + d" "b = (if m \<le> 2 then 1 else 0)"
    and step: "doy < 365 \<Longrightarrow>
           (if m \<noteq> 2 \<and> d = days_in_month 1 m
            then (b', m', d') = (if m = 12 then (1, 1, 1) else (b, m + 1, 1))
            else (b', m', d') = (b, m, d + 1))"
    using day_ok_all [OF r(1,3)] unfolding day_ok_def c c' Let_def prod.case by blast+
  have civil: "civil_from_days n = (?Y + b, m, d)"
    by (simp add: at_day_civil [OF assms] march_date_shift [of ?Y] c)
  have leap: "is_leap_year (?Y + 1) = is_leap_year (y + 1)" by (rule leap_year_shift)
  have feb: "days_in_month (?Y + b) m = year_length y - 337" if "m = 2"
    using that ok(6) leap by (simp add: days_in_month_def year_length_def)
  have valid: "valid_date (?Y + b, m, d)"
    using ok(1-5) feb r days_in_month_february [of m "?Y + b"]
    by (cases "m = 2") (simp_all add: valid_date_def)
  have succ: "civil_from_days (n + 1) = next_date (?Y + b, m, d)"
  proof (cases "doy + 1 < year_length y")
    case True
    have "civil_from_days (n + 1) = (?Y + b', m', d')"
      by (simp add: at_day_civil [OF at_day_succ [OF assms True]] march_date_shift [of ?Y] c')
    moreover have "doy < 365" using True by (simp add: year_length_def split: if_splits)
    note s = step [OF this]
    have "(?Y + b', m', d') = next_date (?Y + b, m, d)"
    proof (cases "m = 2")
      case m: True
      then show ?thesis using s True feb ok(5) by (simp add: next_date_def)
    next
      case False
      then have len: "days_in_month (?Y + b) m = days_in_month 1 m" by (rule days_in_month_february)
      show ?thesis
      proof (cases "d = days_in_month 1 m")
        case True
        with s False have "(b', m', d') = (if m = 12 then (1, 1, 1) else (b, m + 1, 1))" by simp
        then show ?thesis using True ok(2,6) len by (simp add: next_date_def split: if_splits)
      next
        case d: False
        with s False have "(b', m', d') = (b, m, d + 1)" by simp
        then show ?thesis using d ok(4) len False by (simp add: next_date_def)
      qed
    qed
    ultimately show ?thesis by simp
  next
    case False
    then have last: "doy + 1 = year_length y" using r by simp
    obtain era' y' where w: "at_day (n + 1) era' y' 0" "400 * era' + y' = ?Y + 1"
      using at_day_wrap [OF assms last] by blast
    have "doy = 364 \<or> doy = 365" using last by (simp add: year_length_def split: if_splits)
    then have "b = 1 \<and> m = 2" using c by (auto simp: march_date_def Let_def)
    moreover have "d = year_length y - 337" using ok(5) last calculation by simp
    ultimately show ?thesis
      using feb by (simp add: at_day_civil [OF w(1)] w(2) march_date_first next_date_def)
  qed
  show ?thesis using valid succ by (simp add: civil)
qed

lemma civil_step: "valid_date (civil_from_days n) \<and> civil_from_days (n + 1) = next_date (civil_from_days n)"
  using at_day_exists [of n] civil_valid_next by blast

lemma civil_from_days_0: "civil_from_days 0 = (1970, 1, 1)"
  by code_simp

section \<open>The accepted range\<close>

lemma next_date_year: "fst p \<le> fst (next_date p)"
  by (cases p) (simp add: next_date_def)

lemma civil_year_mono: "a \<le> b \<Longrightarrow> fst (civil_from_days a) \<le> fst (civil_from_days b)"
proof (induction "nat (b - a)" arbitrary: b)
  case 0
  then show ?case by simp
next
  case (Suc n)
  then have "fst (civil_from_days a) \<le> fst (civil_from_days (b - 1))" by simp
  also have "\<dots> \<le> fst (civil_from_days (b - 1 + 1))"
    using civil_step [of "b - 1"] next_date_year by simp
  finally show ?case by simp
qed

lemma civil_year_anchors:
  "fst (civil_from_days (-719529)) = -1" "fst (civil_from_days (-719528)) = 0"
  "fst (civil_from_days 2932896) = 9999" "fst (civil_from_days 2932897) = 10000"
  by code_simp+

lemma civil_year_range:
  "0 \<le> fst (civil_from_days n) \<and> fst (civil_from_days n) \<le> 9999 \<longleftrightarrow> -719528 \<le> n \<and> n \<le> 2932896"
proof -
  note mono = civil_year_mono and anchor = civil_year_anchors
  have "n < -719528 \<Longrightarrow> fst (civil_from_days n) \<le> -1" using mono [of n "-719529"] anchor by simp
  moreover have "-719528 \<le> n \<Longrightarrow> 0 \<le> fst (civil_from_days n)" using mono [of "-719528" n] anchor by simp
  moreover have "n \<le> 2932896 \<Longrightarrow> fst (civil_from_days n) \<le> 9999" using mono [of n 2932896] anchor by simp
  moreover have "2932896 < n \<Longrightarrow> 10000 \<le> fst (civil_from_days n)" using mono [of 2932897 n] anchor by simp
  ultimately show ?thesis by linarith
qed

definition MIN_SEGMENT_ID :: int where
  "MIN_SEGMENT_ID = -62167219200000000"

definition END_SEGMENT_ID :: int where
  "END_SEGMENT_ID = 253402300800000000"

lemma segment_utc_day_cases:
  "segment_utc_day sid =
     (if MIN_SEGMENT_ID \<le> sid \<and> sid < END_SEGMENT_ID
      then (case civil_from_days (sid div MICROS_PER_DAY) of (y, m, d) \<Rightarrow> Inr \<lparr>ud_year = y, ud_month = m, ud_day = d\<rparr>)
      else Inl (SegmentIdOutOfRange sid))"
proof -
  obtain y m d where c: "civil_from_days (sid div MICROS_PER_DAY) = (y, m, d)"
    by (cases "civil_from_days (sid div MICROS_PER_DAY)")
  have "-719528 \<le> sid div MICROS_PER_DAY \<and> sid div MICROS_PER_DAY \<le> 2932896 \<longleftrightarrow>
      MIN_SEGMENT_ID \<le> sid \<and> sid < END_SEGMENT_ID"
    unfolding MICROS_PER_DAY_def MIN_SEGMENT_ID_def END_SEGMENT_ID_def by linarith
  then have "0 \<le> y \<and> y \<le> 9999 \<longleftrightarrow> MIN_SEGMENT_ID \<le> sid \<and> sid < END_SEGMENT_ID"
    using civil_year_range [of "sid div MICROS_PER_DAY"] c by simp
  then show ?thesis by (simp only: segment_utc_day_def Let_def c prod.case if_not_P if_P) auto
qed

lemma segment_utc_day_SomeD:
  assumes "segment_utc_day sid = Inr day"
  shows "civil_from_days (sid div MICROS_PER_DAY) = (ud_year day, ud_month day, ud_day day)"
    and "0 \<le> ud_year day" and "ud_year day \<le> 9999" and "1 \<le> ud_month day" and "ud_month day \<le> 12"
    and "1 \<le> ud_day day" and "ud_day day \<le> days_in_month (ud_year day) (ud_month day)"
proof -
  obtain y m d where c: "civil_from_days (sid div MICROS_PER_DAY) = (y, m, d)"
    by (cases "civil_from_days (sid div MICROS_PER_DAY)")
  then have day: "day = \<lparr>ud_year = y, ud_month = m, ud_day = d\<rparr>" "0 \<le> y" "y \<le> 9999"
    using assms by (auto simp: segment_utc_day_def split: if_splits)
  have "valid_date (y, m, d)" using civil_step [of "sid div MICROS_PER_DAY"] c by simp
  then show "civil_from_days (sid div MICROS_PER_DAY) = (ud_year day, ud_month day, ud_day day)"
    "0 \<le> ud_year day" "ud_year day \<le> 9999" "1 \<le> ud_month day" "ud_month day \<le> 12"
    "1 \<le> ud_day day" "ud_day day \<le> days_in_month (ud_year day) (ud_month day)"
    using c day by (simp_all add: valid_date_def)
qed

lemma segment_utc_day_valid:
  assumes "segment_utc_day sid = Inr day"
  shows "utc_day_new (ud_year day) (ud_month day) (ud_day day) = Inr day"
  using segment_utc_day_SomeD [OF assms] by (simp add: utc_day_new_def)

section \<open>Properties\<close>

text \<open>
  C25. The calendar.  Day 0 is the first of January 1970; every day number has a valid date of the
  proleptic Gregorian calendar, and the date of the next day number is the next date.  These laws
  determine the function, so it is the Gregorian calendar on every day before and after the epoch.
\<close>

theorem civil_from_days_calendar:
  "civil_from_days 0 = (1970, 1, 1)
   \<and> valid_date (civil_from_days n)
   \<and> civil_from_days (n + 1) = next_date (civil_from_days n)"
  using civil_from_days_0 civil_step by blast

text \<open>
  The accepted segment ids are exactly the microseconds of the years 0000 to 9999; an id outside
  is refused with the error that carries it.
\<close>

theorem segment_id_range:
  "segment_id_new v =
     (if MIN_SEGMENT_ID \<le> v \<and> v < END_SEGMENT_ID then Inr v else Inl (SegmentIdOutOfRange v))"
  by (simp add: segment_id_new_def segment_utc_day_cases split: prod.split)

text \<open>
  C26. An accepted id has exactly one address: its derived day passes the calendar validation of the
  directory parser, and a directory of another day refuses the id, naming the expected day.
\<close>

theorem segment_address_unique:
  assumes "segment_id_new v = Inr sid"
  shows "\<exists>day. utc_day_new (ud_year day) (ud_month day) (ud_day day) = Inr day
     \<and> address_new sid = Inr \<lparr>sa_id = v, sa_day = day\<rparr>
     \<and> (\<forall>d. address_in_day sid d =
          (if d = day then address_new sid else Inl (MisbucketedSegment v d day)))"
proof -
  obtain day where day: "segment_utc_day v = Inr day" "sid = v"
    using assms by (auto simp: segment_id_new_def split: sum.splits)
  then show ?thesis
    using segment_utc_day_valid [OF day(1)]
    by (intro exI [of _ day]) (auto simp: address_new_def address_in_day_def)
qed

theorem segment_address_unique_witness:
  "\<exists>day. utc_day_new (ud_year day) (ud_month day) (ud_day day) = Inr day
     \<and> address_new 1709164800000000 = Inr \<lparr>sa_id = 1709164800000000, sa_day = day\<rparr>
     \<and> (\<forall>d. address_in_day 1709164800000000 d =
          (if d = day then address_new 1709164800000000 else Inl (MisbucketedSegment 1709164800000000 d day)))"
proof -
  have "segment_id_new 1709164800000000 = Inr 1709164800000000" by code_simp
  then show ?thesis by (rule segment_address_unique)
qed

end
