(* ===== verification/Layout_Names.thy ===== *)
theory Layout_Names
  imports Layout_Time
begin

text \<open>
  The closed name grammar of the data root (\<open>crates/kronika-layout/src/root.rs\<close>, the functions from
  \<open>is_control_name\<close> to \<open>parse_canonical_u64\<close> and the name constructors): calendar directories, final
  and temporary leaf files, and the root-level recovery names.  A name is a string of 8-bit
  characters, as the operating system returns it.  \<open>parse\<close> and \<open>to_string\<close> of the standard library
  are written out.
\<close>

section \<open>Numbers in names\<close>

definition is_digit :: "char \<Rightarrow> bool" where
  "is_digit c \<longleftrightarrow> 48 \<le> (of_char c :: nat) \<and> (of_char c :: nat) \<le> 57"

definition digit_value :: "char \<Rightarrow> nat" where
  "digit_value c = of_char c - 48"

definition digits_value :: "string \<Rightarrow> nat" where
  "digits_value ds = foldl (\<lambda>v c. 10 * v + digit_value c) 0 ds"

text \<open>\<open>str::parse\<close> for an unsigned type with the given largest value: an optional plus, then digits.\<close>

definition parse_digits :: "nat \<Rightarrow> string \<Rightarrow> nat option" where
  "parse_digits largest ds =
     (if ds = [] \<or> \<not> list_all is_digit ds \<or> digits_value ds > largest then None
      else Some (digits_value ds))"

definition parse_unsigned :: "nat \<Rightarrow> string \<Rightarrow> nat option" where
  "parse_unsigned largest s =
     (case s of c # ds \<Rightarrow> parse_digits largest (if c = CHR ''+'' then ds else s) | [] \<Rightarrow> None)"

text \<open>\<open>str::parse\<close> for \<open>i64\<close>.\<close>

definition parse_i64 :: "string \<Rightarrow> int option" where
  "parse_i64 s =
     (case s of
        c # ds \<Rightarrow>
          if c = CHR ''-'' then map_option (\<lambda>n. - int n) (parse_digits (2 ^ 63) ds)
          else map_option int (parse_digits (2 ^ 63 - 1) (if c = CHR ''+'' then ds else s))
      | [] \<Rightarrow> None)"

definition starts_with :: "string \<Rightarrow> string \<Rightarrow> bool" where
  "starts_with p s \<longleftrightarrow> take (length p) s = p"

definition parse_canonical_i64 :: "string \<Rightarrow> int option" where
  "parse_canonical_i64 value =
     (if value = [] \<or> starts_with ''+'' value \<or> value = ''-0''
         \<or> (starts_with ''0'' value \<and> length value > 1)
         \<or> (starts_with ''-0'' value \<and> length value > 2)
      then None
      else case parse_i64 value of
             None \<Rightarrow> None
           | Some parsed \<Rightarrow> if display_int parsed = value then Some parsed else None)"

definition parse_canonical_u64 :: "string \<Rightarrow> nat option" where
  "parse_canonical_u64 value =
     (if value = [] \<or> (starts_with ''0'' value \<and> length value > 1) then None
      else case parse_unsigned (2 ^ 64 - 1) value of
             None \<Rightarrow> None
           | Some parsed \<Rightarrow> if dec_digits parsed = value then Some parsed else None)"

section \<open>Calendar directories\<close>

definition parse_year :: "string \<Rightarrow> int option" where
  "parse_year name =
     (if length name = 4 \<and> list_all is_digit name then map_option int (parse_unsigned 65535 name) else None)"

definition parse_month :: "string \<Rightarrow> int option" where
  "parse_month name =
     (if length name \<noteq> 2 \<or> \<not> list_all is_digit name then None
      else case parse_unsigned 255 name of
             None \<Rightarrow> None
           | Some month \<Rightarrow> if 1 \<le> month \<and> month \<le> 12 then Some (int month) else None)"

definition parse_day :: "int \<Rightarrow> int \<Rightarrow> string \<Rightarrow> int option" where
  "parse_day year month name =
     (if length name \<noteq> 2 \<or> \<not> list_all is_digit name then None
      else case parse_unsigned 255 name of
             None \<Rightarrow> None
           | Some day \<Rightarrow>
               (case utc_day_new year month (int day) of Inl _ \<Rightarrow> None | Inr valid \<Rightarrow> Some (ud_day valid)))"

section \<open>Leaf files\<close>

datatype file_kind = FilePgm | FileOvf

datatype temporary_kind = TmpPgm | TmpOvf | TmpOverviewProbe

datatype parsed_leaf =
    LeafPgm segment_address
  | LeafOvf segment_address
  | LeafTemporary segment_address temporary_kind

definition parse_address :: "string \<Rightarrow> utc_day \<Rightarrow> layout_error + segment_address" where
  "parse_address sid day =
     (case parse_canonical_i64 sid of
        None \<Rightarrow> Inl (UnexpectedLeafEntry sid)
      | Some v \<Rightarrow> (case segment_id_new v of Inl e \<Rightarrow> Inl e | Inr i \<Rightarrow> address_in_day i day))"

text \<open>\<open>str::split\<close> on one character.\<close>

fun split_char :: "char \<Rightarrow> string \<Rightarrow> string list" where
  "split_char c [] = [[]]"
| "split_char c (x # xs) =
     (if x = c then [] # split_char c xs
      else (case split_char c xs of [] \<Rightarrow> [[x]] | y # ys \<Rightarrow> (x # y) # ys))"

definition leaf_result :: "(segment_address \<Rightarrow> parsed_leaf) \<Rightarrow> layout_error + segment_address \<Rightarrow> layout_error + parsed_leaf" where
  "leaf_result f r = (case r of Inl e \<Rightarrow> Inl e | Inr a \<Rightarrow> Inr (f a))"

definition parse_leaf :: "string \<Rightarrow> utc_day \<Rightarrow> layout_error + parsed_leaf" where
  "parse_leaf name day =
     (case split_char CHR ''.'' name of
        [sid, kind] \<Rightarrow>
          if kind = ''pgm'' then leaf_result LeafPgm (parse_address sid day)
          else if kind = ''ovf'' then leaf_result LeafOvf (parse_address sid day)
          else Inl (UnexpectedLeafEntry name)
      | [sid, kind, pid, seq, tmp] \<Rightarrow>
          if kind = ''pgm'' \<and> tmp = ''tmp'' \<and> parse_canonical_u64 pid \<noteq> None \<and> parse_canonical_u64 seq \<noteq> None
          then leaf_result (\<lambda>a. LeafTemporary a TmpPgm) (parse_address sid day)
          else if kind = ''ovf'' \<and> tmp = ''tmp'' \<and> parse_canonical_u64 pid \<noteq> None \<and> parse_canonical_u64 seq \<noteq> None
          then leaf_result (\<lambda>a. LeafTemporary a TmpOvf) (parse_address sid day)
          else Inl (UnexpectedLeafEntry name)
      | [sid, kind, probe, pid, seq, tmp] \<Rightarrow>
          if kind = ''ovf'' \<and> probe = ''probe'' \<and> tmp = ''tmp''
             \<and> parse_canonical_u64 pid \<noteq> None \<and> parse_canonical_u64 seq \<noteq> None
          then leaf_result (\<lambda>a. LeafTemporary a TmpOverviewProbe) (parse_address sid day)
          else Inl (UnexpectedLeafEntry name)
      | _ \<Rightarrow> Inl (UnexpectedLeafEntry name))"

text \<open>The process id and the sequence number come from the process.\<close>

definition temporary_name :: "segment_address \<Rightarrow> temporary_kind \<Rightarrow> nat \<Rightarrow> nat \<Rightarrow> string" where
  "temporary_name address kind pid sequence =
     display_int (sa_id address)
     @ (case kind of TmpPgm \<Rightarrow> ''.pgm.'' | TmpOvf \<Rightarrow> ''.ovf.'' | TmpOverviewProbe \<Rightarrow> ''.ovf.probe.'')
     @ dec_digits pid @ ''.'' @ dec_digits sequence @ ''.tmp''"

section \<open>Root names\<close>

definition ACTIVE_JOURNAL_NAME :: string where
  "ACTIVE_JOURNAL_NAME = ''active.parts''"

definition WRITER_OWNER_LOCK_NAME :: string where
  "WRITER_OWNER_LOCK_NAME = ''.pgkronika-writer.owner.lock''"

definition OVERVIEW_OWNER_LOCK_NAME :: string where
  "OVERVIEW_OWNER_LOCK_NAME = ''.pgkronika-overview.owner.lock''"

definition QUARANTINE_DIRECTORY_NAME :: string where
  "QUARANTINE_DIRECTORY_NAME = ''.pgkronika-quarantine-v1''"

definition PRODUCER_STATUS_NAME :: string where
  "PRODUCER_STATUS_NAME = ''producer-status.json''"

definition PRODUCER_STATUS_TEMP_NAME :: string where
  "PRODUCER_STATUS_TEMP_NAME = ''.producer-status.json.tmp''"

definition ROOT_GENERATION_PREFIX :: string where
  "ROOT_GENERATION_PREFIX = ''.pgkronika-generation-v1.''"

definition ROOT_GENERATION_SUFFIX :: string where
  "ROOT_GENERATION_SUFFIX = ''.parts''"

definition ROOT_EVIDENCE_PREFIX :: string where
  "ROOT_EVIDENCE_PREFIX = ''.pgkronika-evidence-v1.''"

definition ROOT_EVIDENCE_SUFFIX :: string where
  "ROOT_EVIDENCE_SUFFIX = ''.pending''"

definition ROOT_SLOT_HEX_LEN :: nat where
  "ROOT_SLOT_HEX_LEN = 2"

definition ROOT_NONCE_HEX_LEN :: nat where
  "ROOT_NONCE_HEX_LEN = 16"

definition is_control_name :: "string \<Rightarrow> bool" where
  "is_control_name name \<longleftrightarrow>
     name \<in> {ACTIVE_JOURNAL_NAME, WRITER_OWNER_LOCK_NAME, OVERVIEW_OWNER_LOCK_NAME,
             PRODUCER_STATUS_NAME, PRODUCER_STATUS_TEMP_NAME}"

definition is_dot :: "string \<Rightarrow> bool" where
  "is_dot name \<longleftrightarrow> name = ''.'' \<or> name = ''..''"

definition ascii_name :: "string \<Rightarrow> string option" where
  "ascii_name name = (if list_all (\<lambda>c. (of_char c :: nat) < 128) name then Some name else None)"

datatype pending_root_kind = Evidence | JournalGeneration

definition strip_prefix :: "string \<Rightarrow> string \<Rightarrow> string option" where
  "strip_prefix prefix s = (if starts_with prefix s then Some (drop (length prefix) s) else None)"

definition strip_suffix :: "string \<Rightarrow> string \<Rightarrow> string option" where
  "strip_suffix suffix s =
     (if length suffix \<le> length s \<and> drop (length s - length suffix) s = suffix
      then Some (take (length s - length suffix) s) else None)"

text \<open>\<open>is_ascii_hexdigit\<close> and not upper case.\<close>

definition is_lower_hex :: "char \<Rightarrow> bool" where
  "is_lower_hex c \<longleftrightarrow> is_digit c \<or> (97 \<le> (of_char c :: nat) \<and> (of_char c :: nat) \<le> 102)"

definition is_bounded_root_name :: "string \<Rightarrow> string \<Rightarrow> string \<Rightarrow> bool" where
  "is_bounded_root_name name prefix suffix =
     (case Option.bind (strip_prefix prefix name) (strip_suffix suffix) of
        None \<Rightarrow> False
      | Some middle \<Rightarrow>
          length middle = ROOT_NONCE_HEX_LEN + 1 + ROOT_SLOT_HEX_LEN
          \<and> middle ! ROOT_NONCE_HEX_LEN = CHR ''.''
          \<and> list_all is_lower_hex (take ROOT_NONCE_HEX_LEN middle)
          \<and> list_all is_lower_hex (drop (ROOT_NONCE_HEX_LEN + 1) middle))"

definition parse_pending_root_name :: "string \<Rightarrow> pending_root_kind option" where
  "parse_pending_root_name name =
     (if is_bounded_root_name name ROOT_EVIDENCE_PREFIX ROOT_EVIDENCE_SUFFIX then Some Evidence
      else if is_bounded_root_name name ROOT_GENERATION_PREFIX ROOT_GENERATION_SUFFIX then Some JournalGeneration
      else None)"

text \<open>The names the writer makes: \<open>{nonce:016x}.{slot:02x}\<close>, hexadecimal of fixed width.\<close>

definition hex_digit :: "nat \<Rightarrow> char" where
  "hex_digit n = char_of (if n < 10 then 48 + n else 87 + n)"

fun hex_fixed :: "nat \<Rightarrow> nat \<Rightarrow> string" where
  "hex_fixed 0 n = []"
| "hex_fixed (Suc w) n = hex_fixed w (n div 16) @ [hex_digit (n mod 16)]"

definition generation_name :: "nat \<Rightarrow> nat \<Rightarrow> string" where
  "generation_name nonce slot =
     ROOT_GENERATION_PREFIX @ hex_fixed 16 nonce @ ''.'' @ hex_fixed 2 slot @ ROOT_GENERATION_SUFFIX"

definition evidence_name :: "nat \<Rightarrow> nat \<Rightarrow> string" where
  "evidence_name nonce slot =
     ROOT_EVIDENCE_PREFIX @ hex_fixed 16 nonce @ ''.'' @ hex_fixed 2 slot @ ROOT_EVIDENCE_SUFFIX"

definition hash_name :: "string \<Rightarrow> u64" where
  "hash_name bytes = foldl (\<lambda>hash b. xor hash (of_char b) * 0x100000001b3) 0xcbf29ce484222325 bytes"

definition bounded_name_len :: "nat \<Rightarrow> nat" where
  "bounded_name_len len = (if len > 65535 then 65535 else len)"

section \<open>Decimal text\<close>

abbreviation all_digits :: "string \<Rightarrow> bool" where
  "all_digits ds \<equiv> list_all is_digit ds"

lemma digit_value_less: "is_digit c \<Longrightarrow> digit_value c < 10"
  by (simp add: is_digit_def digit_value_def) linarith

lemma char_of_digit_value: "is_digit c \<Longrightarrow> char_of (48 + digit_value c) = c"
  by (simp add: is_digit_def digit_value_def)

lemma of_char_digit: "n < 10 \<Longrightarrow> (of_char (char_of (48 + n)) :: nat) = 48 + n" for n :: nat
  by simp

lemma is_digit_char_of: "n < 10 \<Longrightarrow> is_digit (char_of (48 + n))" for n :: nat
  unfolding is_digit_def by (simp add: of_char_digit del: of_char_of)

lemma digit_value_char_of: "n < 10 \<Longrightarrow> digit_value (char_of (48 + n)) = n" for n :: nat
  unfolding digit_value_def by (simp only: of_char_digit)

lemma is_digit_0: "is_digit CHR ''0''" and digit_value_0: "digit_value CHR ''0'' = 0"
  by (simp_all add: is_digit_def digit_value_def)

lemma digits_value_Nil [simp]: "digits_value [] = 0"
  by (simp add: digits_value_def)

lemma digits_value_snoc [simp]: "digits_value (ds @ [c]) = 10 * digits_value ds + digit_value c"
  by (simp add: digits_value_def)

lemma dec_digits_digits [simp]: "all_digits (dec_digits n)"
  by (induction n rule: dec_digits.induct) (subst dec_digits.simps, simp add: is_digit_char_of)

lemma digits_value_dec [simp]: "digits_value (dec_digits n) = n"
proof (induction n rule: dec_digits.induct)
  case (1 n)
  show ?case
  proof (cases "n < 10")
    case True
    then have "dec_digits n = [] @ [char_of (48 + n)]" by (simp add: dec_digits.simps [of n])
    with True show ?thesis by (simp only: digits_value_snoc digits_value_Nil) (simp add: digit_value_char_of)
  next
    case False
    then have "dec_digits n = dec_digits (n div 10) @ [char_of (48 + n mod 10)]"
      by (simp add: dec_digits.simps [of n])
    with False 1 show ?thesis by (simp add: digit_value_char_of)
  qed
qed

lemma dec_digits_nonempty [simp]: "dec_digits n \<noteq> []"
  by (subst dec_digits.simps) simp

lemma dec_digits_0: "dec_digits 0 = ''0''"
  by code_simp

lemma dec_digits_hd: "0 < n \<Longrightarrow> hd (dec_digits n) \<noteq> CHR ''0''"
proof (induction n rule: dec_digits.induct)
  case (1 n)
  show ?case
  proof (cases "n < 10")
    case True
    then have "digit_value (hd (dec_digits n)) = n" by (simp add: dec_digits.simps [of n] digit_value_char_of)
    moreover have "digit_value CHR ''0'' = 0" by (simp add: digit_value_def)
    ultimately show ?thesis using 1(2) by force
  next
    case False
    with 1 have "hd (dec_digits (n div 10)) \<noteq> CHR ''0''" by simp
    with False show ?thesis by (simp add: dec_digits.simps [of n])
  qed
qed

text \<open>A digit string is the padded text of its value.\<close>

definition pad :: "nat \<Rightarrow> nat \<Rightarrow> string" where
  "pad width n = padded width (int n)"

lemma pad_eq: "pad width n = replicate (width - length (dec_digits n)) CHR ''0'' @ dec_digits n"
  by (simp add: pad_def padded_def Let_def)

lemma digits_value_zeros: "digits_value (replicate k CHR ''0'') = 0"
  by (induction k) (simp_all add: replicate_append_same [symmetric] digit_value_def)

lemma pad_zero: "pad (Suc k) 0 = replicate (Suc k) CHR ''0''"
  by (simp add: pad_eq dec_digits_0 replicate_append_same)

lemma pad_snoc:
  assumes "0 < k" and "d < 10"
  shows "pad (Suc k) (10 * v + d) = pad k v @ [char_of (48 + d)]"
proof (cases "v = 0")
  case True
  then have "dec_digits (10 * v + d) = [char_of (48 + d)]"
    using assms(2) by (simp add: dec_digits.simps [of d])
  moreover have "pad k v = replicate k CHR ''0''" using True assms(1) pad_zero by (cases k) simp_all
  ultimately show ?thesis by (simp add: pad_eq)
next
  case False
  then have "dec_digits (10 * v + d) = dec_digits v @ [char_of (48 + d)]"
    using assms(2) by (subst dec_digits.simps) simp
  then show ?thesis by (simp add: pad_eq)
qed

lemma pad_digits_value: "all_digits ds \<Longrightarrow> ds \<noteq> [] \<Longrightarrow> pad (length ds) (digits_value ds) = ds"
proof (induction ds rule: rev_induct)
  case Nil
  then show ?case by simp
next
  case (snoc c ds)
  then have c: "is_digit c" and ds: "all_digits ds" by simp_all
  show ?case
  proof (cases "ds = []")
    case True
    then show ?thesis
      using c digit_value_less [OF c] char_of_digit_value [OF c]
      by (simp add: pad_eq digits_value_def dec_digits.simps [of "digit_value c"])
  next
    case False
    then have "pad (Suc (length ds)) (10 * digits_value ds + digit_value c) =
        pad (length ds) (digits_value ds) @ [char_of (48 + digit_value c)]"
      by (intro pad_snoc digit_value_less c) simp
    then show ?thesis using snoc.IH [OF ds False] char_of_digit_value [OF c] by simp
  qed
qed

lemma digits_value_pad: "digits_value (pad w n) = n"
proof -
  have "digits_value (replicate k CHR ''0'' @ ds) = digits_value ds" for k ds
    by (induction k) (simp_all add: digits_value_def digit_value_def)
  then show ?thesis by (simp add: pad_eq)
qed

lemma pad_digits: "all_digits (pad w n)"
  using dec_digits_digits [of n] is_digit_0 by (auto simp: pad_eq list_all_iff simp del: dec_digits_digits)

lemma length_dec_digits_le: "n < 10 ^ k \<Longrightarrow> 0 < k \<Longrightarrow> length (dec_digits n) \<le> k"
proof (induction k arbitrary: n)
  case (Suc k)
  show ?case
  proof (cases "n < 10")
    case False
    then have "0 < k" using Suc.prems by (cases k) simp_all
    moreover have "n div 10 < 10 ^ k" using Suc.prems by (simp add: less_mult_imp_div_less mult.commute)
    ultimately show ?thesis using Suc.IH [of "n div 10"] False by (simp add: dec_digits.simps [of n])
  qed (simp add: dec_digits.simps [of n])
qed simp

lemma length_pad: "n < 10 ^ k \<Longrightarrow> 0 < k \<Longrightarrow> length (pad k n) = k"
  using length_dec_digits_le by (simp add: pad_eq)

lemma fixed_digits_iff:
  assumes "0 < k"
  shows "length s = k \<and> all_digits s \<and> digits_value s = n \<longleftrightarrow> n < 10 ^ k \<and> s = pad k n"
proof
  assume s: "length s = k \<and> all_digits s \<and> digits_value s = n"
  then have "pad k n = s" using pad_digits_value [of s] assms by auto
  moreover have "digits_value s < 10 ^ length s"
    using s digit_value_less
  proof (induction s arbitrary: k n rule: rev_induct)
    case (snoc c s)
    then have "digits_value s < 10 ^ length s" and "digit_value c < 10" by auto
    then show ?case by simp
  qed simp
  ultimately show "n < 10 ^ k \<and> s = pad k n" using s by simp
qed (use assms in \<open>simp add: length_pad pad_digits digits_value_pad\<close>)

lemma parse_digits_Some:
  "parse_digits largest ds = Some n \<longleftrightarrow> ds \<noteq> [] \<and> all_digits ds \<and> digits_value ds = n \<and> n \<le> largest"
  by (auto simp: parse_digits_def)

lemma not_digit_signs: "\<not> is_digit CHR ''-''" "\<not> is_digit CHR ''+''" "\<not> is_digit CHR ''.''"
  by (simp_all add: is_digit_def)

lemma digits_hd: "all_digits ds \<Longrightarrow> ds \<noteq> [] \<Longrightarrow> is_digit (hd ds)"
  by (cases ds) simp_all

lemma parse_unsigned_digits:
  "all_digits ds \<Longrightarrow> ds \<noteq> [] \<Longrightarrow> parse_unsigned largest ds = parse_digits largest ds"
  using not_digit_signs by (cases ds) (auto simp: parse_unsigned_def)

lemma parse_unsigned_fixed:
  "0 < k \<Longrightarrow> 10 ^ k \<le> Suc largest \<Longrightarrow> length s = k \<and> all_digits s \<and> parse_unsigned largest s = Some n \<longleftrightarrow> n < 10 ^ k \<and> s = pad k n"
proof -
  assume k: "0 < k" "10 ^ k \<le> Suc largest"
  have "parse_unsigned largest s = Some n \<longleftrightarrow> digits_value s = n \<and> n \<le> largest" if s: "length s = k \<and> all_digits s"
    using s k by (subst parse_unsigned_digits) (auto simp: parse_digits_Some)
  then have "length s = k \<and> all_digits s \<and> parse_unsigned largest s = Some n \<longleftrightarrow>
      (length s = k \<and> all_digits s \<and> digits_value s = n) \<and> n \<le> largest"
    by blast
  also have "\<dots> \<longleftrightarrow> n < 10 ^ k \<and> s = pad k n"
    unfolding fixed_digits_iff [OF k(1)] using k(2) by auto
  finally show ?thesis .
qed

lemma leading_zero_dec:
  assumes "starts_with ''0'' (dec_digits n)"
  shows "length (dec_digits n) \<le> 1"
proof (cases "n = 0")
  case False
  then have "hd (dec_digits n) \<noteq> CHR ''0''" by (simp add: dec_digits_hd)
  then show ?thesis using assms by (cases "dec_digits n") (simp_all add: starts_with_def)
qed (simp add: dec_digits_0)

lemma parse_canonical_u64_iff:
  "parse_canonical_u64 s = Some n \<longleftrightarrow> s = dec_digits n \<and> n < 2 ^ 64"
proof
  assume "parse_canonical_u64 s = Some n"
  then have s: "s = dec_digits n" and p: "parse_unsigned (2 ^ 64 - 1) s = Some n"
    by (auto simp: parse_canonical_u64_def split: if_splits option.splits)
  from p have "n \<le> 2 ^ 64 - 1" by (auto simp: s parse_unsigned_digits parse_digits_Some)
  with s show "s = dec_digits n \<and> n < 2 ^ 64" by simp
next
  assume s: "s = dec_digits n \<and> n < 2 ^ 64"
  then have "parse_unsigned (2 ^ 64 - 1) s = Some n" by (simp add: parse_unsigned_digits parse_digits_Some)
  with s leading_zero_dec [of n] show "parse_canonical_u64 s = Some n"
    by (auto simp: parse_canonical_u64_def)
qed

lemma parse_i64_display:
  assumes "- (2 ^ 63) \<le> v" and "v < 2 ^ 63"
  shows "parse_i64 (display_int v) = Some v"
proof (cases "v < 0")
  case True
  then show ?thesis using assms by (simp add: display_int_def parse_i64_def parse_digits_Some)
next
  case False
  obtain c ds where c: "dec_digits (nat v) = c # ds" by (cases "dec_digits (nat v)") simp_all
  then have "is_digit c" using dec_digits_digits [of "nat v"] by simp
  then have "c \<noteq> CHR ''-''" "c \<noteq> CHR ''+''" using not_digit_signs by auto
  moreover have "parse_digits (2 ^ 63 - 1) (dec_digits (nat v)) = Some (nat v)"
    using assms False by (simp add: parse_digits_Some)
  ultimately show ?thesis using False c by (simp add: display_int_def parse_i64_def)
qed

lemma parse_i64_range: "parse_i64 s = Some v \<Longrightarrow> - (2 ^ 63) \<le> v \<and> v < 2 ^ 63"
  by (auto simp: parse_i64_def parse_digits_Some split: list.splits if_splits)

lemma parse_canonical_i64_iff:
  "parse_canonical_i64 s = Some v \<longleftrightarrow> s = display_int v \<and> - (2 ^ 63) \<le> v \<and> v < 2 ^ 63"
proof
  assume "parse_canonical_i64 s = Some v"
  then show "s = display_int v \<and> - (2 ^ 63) \<le> v \<and> v < 2 ^ 63"
    using parse_i64_range by (auto simp: parse_canonical_i64_def split: if_splits option.splits)
next
  assume v: "s = display_int v \<and> - (2 ^ 63) \<le> v \<and> v < 2 ^ 63"
  have guards: "display_int v \<noteq> []" "\<not> starts_with ''+'' (display_int v)" "display_int v \<noteq> ''-0''"
    "\<not> (starts_with ''0'' (display_int v) \<and> length (display_int v) > 1)"
    "\<not> (starts_with ''-0'' (display_int v) \<and> length (display_int v) > 2)"
  proof -
    obtain c ds where c: "dec_digits (nat \<bar>v\<bar>) = c # ds" by (cases "dec_digits (nat \<bar>v\<bar>)") simp_all
    then have dc: "is_digit c" using dec_digits_digits [of "nat \<bar>v\<bar>"] by simp
    have neg: "c \<noteq> CHR ''0''" if "v < 0" using dec_digits_hd [of "nat \<bar>v\<bar>"] that c by simp
    show "display_int v \<noteq> []" "\<not> starts_with ''+'' (display_int v)" "display_int v \<noteq> ''-0''"
      "\<not> (starts_with ''0'' (display_int v) \<and> length (display_int v) > 1)"
      "\<not> (starts_with ''-0'' (display_int v) \<and> length (display_int v) > 2)"
      using c dc neg not_digit_signs leading_zero_dec [of "nat v"]
      by (auto simp: display_int_def starts_with_def)
  qed
  show "parse_canonical_i64 s = Some v"
    using v parse_i64_display [of v] guards by (simp add: parse_canonical_i64_def)
qed

text \<open>The directory names.\<close>

lemma parse_year_iff: "parse_year s = Some y \<longleftrightarrow> 0 \<le> y \<and> y \<le> 9999 \<and> s = padded 4 y"
proof -
  have "parse_year s = Some y \<longleftrightarrow> (\<exists>n. y = int n \<and> length s = 4 \<and> all_digits s \<and> parse_unsigned 65535 s = Some n)"
    by (auto simp: parse_year_def)
  also have "\<dots> \<longleftrightarrow> (\<exists>n. y = int n \<and> n < 10 ^ 4 \<and> s = pad 4 n)"
    using parse_unsigned_fixed [of 4 65535 s] by simp
  also have "\<dots> \<longleftrightarrow> 0 \<le> y \<and> y \<le> 9999 \<and> s = padded 4 y"
    by (auto simp: pad_def intro!: exI [of _ "nat y"])
  finally show ?thesis .
qed

lemma parse_two_digits:
  "length s = 2 \<and> all_digits s \<and> parse_unsigned 255 s = Some n \<longleftrightarrow> n < 100 \<and> s = pad 2 n"
  using parse_unsigned_fixed [of 2 255 s n] by simp

lemma parse_month_iff: "parse_month s = Some m \<longleftrightarrow> 1 \<le> m \<and> m \<le> 12 \<and> s = padded 2 m"
proof -
  have "parse_month s = Some m \<longleftrightarrow>
      (\<exists>n. m = int n \<and> 1 \<le> n \<and> n \<le> 12 \<and> length s = 2 \<and> all_digits s \<and> parse_unsigned 255 s = Some n)"
    by (auto simp: parse_month_def split: option.splits)
  also have "\<dots> \<longleftrightarrow> (\<exists>n. m = int n \<and> 1 \<le> n \<and> n \<le> 12 \<and> s = pad 2 n)"
    using parse_two_digits by auto
  also have "\<dots> \<longleftrightarrow> 1 \<le> m \<and> m \<le> 12 \<and> s = padded 2 m"
    by (auto simp: pad_def intro!: exI [of _ "nat m"])
  finally show ?thesis .
qed

lemma days_in_month_le_31: "days_in_month y m \<le> 31"
  by (simp add: days_in_month_def)

lemma parse_day_iff:
  "parse_day y m s = Some d \<longleftrightarrow>
     y \<le> 9999 \<and> 1 \<le> m \<and> m \<le> 12 \<and> 1 \<le> d \<and> d \<le> days_in_month y m \<and> s = padded 2 d"
proof -
  have "parse_day y m s = Some d \<longleftrightarrow>
      (\<exists>n. d = int n \<and> y \<le> 9999 \<and> 1 \<le> m \<and> m \<le> 12 \<and> 1 \<le> n \<and> int n \<le> days_in_month y m
         \<and> length s = 2 \<and> all_digits s \<and> parse_unsigned 255 s = Some n)"
    by (auto simp: parse_day_def utc_day_new_def split: option.splits if_splits)
  also have "\<dots> \<longleftrightarrow> (\<exists>n. d = int n \<and> y \<le> 9999 \<and> 1 \<le> m \<and> m \<le> 12 \<and> 1 \<le> n \<and> int n \<le> days_in_month y m
      \<and> s = pad 2 n)"
    using parse_two_digits days_in_month_le_31 [of y m] by fastforce
  also have "\<dots> \<longleftrightarrow> y \<le> 9999 \<and> 1 \<le> m \<and> m \<le> 12 \<and> 1 \<le> d \<and> d \<le> days_in_month y m \<and> s = padded 2 d"
    by (auto simp: pad_def intro!: exI [of _ "nat d"])
  finally show ?thesis .
qed

section \<open>Leaf names\<close>

fun join_char :: "char \<Rightarrow> string list \<Rightarrow> string" where
  "join_char c [] = []"
| "join_char c [f] = f"
| "join_char c (f # g # fs) = f @ c # join_char c (g # fs)"

lemma split_char_nonempty [simp]: "split_char c s \<noteq> []"
  by (cases s) (auto split: list.split)

lemma join_split_char: "join_char c (split_char c s) = s"
proof (induction s)
  case (Cons x xs)
  obtain y ys where y: "split_char c xs = y # ys" by (cases "split_char c xs") simp_all
  then show ?case using Cons.IH by (cases ys) simp_all
qed simp

lemma split_char_field: "c \<notin> set f \<Longrightarrow> split_char c f = [f]"
  by (induction f) auto

lemma split_char_append: "c \<notin> set f \<Longrightarrow> split_char c (f @ c # s) = f # split_char c s"
  by (induction f) auto

lemma dec_digits_no_dot: "CHR ''.'' \<notin> set (dec_digits n)"
  using dec_digits_digits [of n] not_digit_signs(3) by (auto simp: list_all_iff simp del: dec_digits_digits)

lemma display_int_no_dot: "CHR ''.'' \<notin> set (display_int v)"
  by (simp add: display_int_def dec_digits_no_dot)

lemma split_two: "c \<notin> set a \<Longrightarrow> c \<notin> set b \<Longrightarrow> split_char c (a @ c # b) = [a, b]"
  by (simp add: split_char_append split_char_field)

lemma split_temporary:
  "split_char CHR ''.'' (temporary_name a TmpPgm pid seq) =
     [display_int (sa_id a), ''pgm'', dec_digits pid, dec_digits seq, ''tmp'']"
  "split_char CHR ''.'' (temporary_name a TmpOvf pid seq) =
     [display_int (sa_id a), ''ovf'', dec_digits pid, dec_digits seq, ''tmp'']"
  "split_char CHR ''.'' (temporary_name a TmpOverviewProbe pid seq) =
     [display_int (sa_id a), ''ovf'', ''probe'', dec_digits pid, dec_digits seq, ''tmp'']"
  by (simp_all add: temporary_name_def split_char_append split_char_field display_int_no_dot dec_digits_no_dot)

lemma split_final:
  "split_char CHR ''.'' (pgm_name a) = [display_int (sa_id a), ''pgm'']"
  "split_char CHR ''.'' (ovf_name a) = [display_int (sa_id a), ''ovf'']"
  by (simp_all add: pgm_name_def ovf_name_def split_char_append split_char_field display_int_no_dot)

definition addressed :: "segment_address \<Rightarrow> utc_day \<Rightarrow> bool" where
  "addressed a day \<longleftrightarrow> segment_utc_day (sa_id a) = Inr day \<and> sa_day a = day"

lemma addressed_range: "addressed a day \<Longrightarrow> - (2 ^ 63) \<le> sa_id a \<and> sa_id a < 2 ^ 63"
  by (auto simp: addressed_def segment_utc_day_cases MIN_SEGMENT_ID_def END_SEGMENT_ID_def split: if_splits)

lemma address_new_eq: "address_new sid = Inr a \<longleftrightarrow> addressed a (sa_day a) \<and> sa_id a = sid"
  by (cases a) (auto simp: address_new_def addressed_def split: sum.split)

lemma parse_address_iff: "parse_address s day = Inr a \<longleftrightarrow> addressed a day \<and> s = display_int (sa_id a)"
proof
  assume r: "parse_address s day = Inr a"
  then obtain v where v: "parse_canonical_i64 s = Some v" "segment_utc_day v = Inr day" "a = \<lparr>sa_id = v, sa_day = day\<rparr>"
    by (auto simp: parse_address_def segment_id_new_def address_in_day_def split: option.splits sum.splits if_splits)
  then show "addressed a day \<and> s = display_int (sa_id a)"
    by (simp add: parse_canonical_i64_iff addressed_def)
next
  assume a: "addressed a day \<and> s = display_int (sa_id a)"
  then have "parse_canonical_i64 s = Some (sa_id a)"
    using addressed_range [of a day] by (simp add: parse_canonical_i64_iff)
  with a show "parse_address s day = Inr a"
    by (simp add: parse_address_def segment_id_new_def address_in_day_def addressed_def)
qed

lemma leaf_result_Inr: "leaf_result f r = Inr l \<longleftrightarrow> (\<exists>a. r = Inr a \<and> l = f a)"
  by (auto simp: leaf_result_def split: sum.split)

definition leaf_address :: "parsed_leaf \<Rightarrow> segment_address" where
  "leaf_address l = (case l of LeafPgm a \<Rightarrow> a | LeafOvf a \<Rightarrow> a | LeafTemporary a k \<Rightarrow> a)"

definition names_leaf :: "parsed_leaf \<Rightarrow> string \<Rightarrow> bool" where
  "names_leaf l name \<longleftrightarrow>
     (case l of
        LeafPgm a \<Rightarrow> name = pgm_name a
      | LeafOvf a \<Rightarrow> name = ovf_name a
      | LeafTemporary a k \<Rightarrow> \<exists>pid seq. pid < 2 ^ 64 \<and> seq < 2 ^ 64 \<and> name = temporary_name a k pid seq)"

lemma parse_leaf_complete:
  assumes "addressed (leaf_address l) day" and "names_leaf l name"
  shows "parse_leaf name day = Inr l"
proof -
  have a: "parse_address (display_int (sa_id (leaf_address l))) day = Inr (leaf_address l)"
    using assms(1) by (simp add: parse_address_iff)
  show ?thesis
  proof (cases l)
    case (LeafPgm b)
    then show ?thesis
      using a assms(2) by (simp add: leaf_address_def names_leaf_def parse_leaf_def split_final leaf_result_def)
  next
    case (LeafOvf b)
    then show ?thesis
      using a assms(2) by (simp add: leaf_address_def names_leaf_def parse_leaf_def split_final leaf_result_def)
  next
    case (LeafTemporary b k)
    then obtain pid seq where n: "name = temporary_name b k pid seq"
      and "parse_canonical_u64 (dec_digits pid) = Some pid" "parse_canonical_u64 (dec_digits seq) = Some seq"
      using assms(2) by (auto simp: names_leaf_def parse_canonical_u64_iff)
    then show ?thesis
      using a LeafTemporary by (cases k) (simp_all add: leaf_address_def parse_leaf_def split_temporary leaf_result_def)
  qed
qed

lemma parse_leaf_sound:
  assumes "parse_leaf name day = Inr l"
  shows "addressed (leaf_address l) day \<and> names_leaf l name"
proof -
  let ?fs = "split_char CHR ''.'' name"
  have name: "name = join_char CHR ''.'' ?fs" by (simp add: join_split_char)
  have canonical: "\<exists>n<2 ^ 64. s = dec_digits n" if "parse_canonical_u64 s \<noteq> None" for s
    using that parse_canonical_u64_iff [of s] by auto
  consider (final) sid kind where "?fs = [sid, kind]"
    | (temporary) sid kind pid seq tmp where "?fs = [sid, kind, pid, seq, tmp]"
    | (probe) sid kind probe pid seq tmp where "?fs = [sid, kind, probe, pid, seq, tmp]"
    using assms by (auto simp: parse_leaf_def split: list.splits)
  then show ?thesis
  proof cases
    case final
    then have "name = sid @ ''.'' @ kind" using name by simp
    with final assms show ?thesis
      by (auto simp: parse_leaf_def leaf_result_Inr parse_address_iff leaf_address_def names_leaf_def
          pgm_name_def ovf_name_def split: if_splits)
  next
    case temporary
    then have n: "name = sid @ ''.'' @ kind @ ''.'' @ pid @ ''.'' @ seq @ ''.'' @ tmp" using name by simp
    from temporary assms have f: "tmp = ''tmp''" "parse_canonical_u64 pid \<noteq> None" "parse_canonical_u64 seq \<noteq> None"
      by (auto simp: parse_leaf_def split: if_splits)
    obtain p q where pq: "p < 2 ^ 64" "pid = dec_digits p" "q < 2 ^ 64" "seq = dec_digits q"
      using canonical [OF f(2)] canonical [OF f(3)] by blast
    from temporary assms f obtain a k where a: "parse_address sid day = Inr a" and l: "l = LeafTemporary a k"
      and k: "kind = ''pgm'' \<and> k = TmpPgm \<or> kind = ''ovf'' \<and> k = TmpOvf"
      by (auto simp: parse_leaf_def leaf_result_Inr split: if_splits)
    have "name = temporary_name a k p q"
      using n k a pq f by (auto simp: temporary_name_def parse_address_iff)
    then show ?thesis using a l pq by (auto simp: parse_address_iff leaf_address_def names_leaf_def)
  next
    case probe
    then have n: "name = sid @ ''.'' @ kind @ ''.'' @ probe @ ''.'' @ pid @ ''.'' @ seq @ ''.'' @ tmp" using name by simp
    from probe assms have f: "kind = ''ovf''" "probe = ''probe''" "tmp = ''tmp''"
        "parse_canonical_u64 pid \<noteq> None" "parse_canonical_u64 seq \<noteq> None"
      by (auto simp: parse_leaf_def split: if_splits)
    obtain p q where pq: "p < 2 ^ 64" "pid = dec_digits p" "q < 2 ^ 64" "seq = dec_digits q"
      using canonical [OF f(4)] canonical [OF f(5)] by blast
    from probe assms f obtain a where a: "parse_address sid day = Inr a" and l: "l = LeafTemporary a TmpOverviewProbe"
      by (auto simp: parse_leaf_def leaf_result_Inr split: if_splits)
    have "name = temporary_name a TmpOverviewProbe p q"
      using n a pq f by (simp add: temporary_name_def parse_address_iff)
    then show ?thesis using a l pq by (auto simp: parse_address_iff leaf_address_def names_leaf_def)
  qed
qed

section \<open>Root recovery names\<close>

definition hex_value :: "char \<Rightarrow> nat" where
  "hex_value c = (if is_digit c then of_char c - 48 else of_char c - 87)"

lemma of_char_nat: "n < 256 \<Longrightarrow> (of_char (char_of n) :: nat) = n" for n :: nat
  by simp

lemma hex_digit_char: "n < 16 \<Longrightarrow> (of_char (hex_digit n) :: nat) = (if n < 10 then 48 + n else 87 + n)"
  by (simp add: hex_digit_def)

lemma hex_digit_lower: "n < 16 \<Longrightarrow> is_lower_hex (hex_digit n)"
  by (simp add: is_lower_hex_def is_digit_def hex_digit_char)

lemma hex_value_less: "is_lower_hex c \<Longrightarrow> hex_value c < 16"
  by (simp add: hex_value_def is_lower_hex_def is_digit_def split: if_splits) linarith+

lemma hex_digit_value: "is_lower_hex c \<Longrightarrow> hex_digit (hex_value c) = c"
  by (auto simp: hex_value_def hex_digit_def is_lower_hex_def is_digit_def)

lemma length_hex_fixed [simp]: "length (hex_fixed w n) = w"
  by (induction w arbitrary: n) simp_all

lemma hex_fixed_lower: "list_all is_lower_hex (hex_fixed w n)"
  by (induction w arbitrary: n) (simp_all add: hex_digit_lower)

lemma hex_fixed_surj: "list_all is_lower_hex s \<Longrightarrow> \<exists>n. n < 16 ^ length s \<and> s = hex_fixed (length s) n"
proof (induction s rule: rev_induct)
  case Nil
  then show ?case by simp
next
  case (snoc c s)
  then obtain n where n: "n < 16 ^ length s" "s = hex_fixed (length s) n" by auto
  have c: "hex_value c < 16" "hex_digit (hex_value c) = c"
    using snoc.prems by (simp_all add: hex_value_less hex_digit_value)
  have "16 * n + hex_value c < 16 ^ length (s @ [c])" using n(1) c(1) by simp
  moreover have "hex_fixed (length (s @ [c])) (16 * n + hex_value c) = s @ [c]"
    using n(2) c by simp
  ultimately show ?case by metis
qed

lemma strip_affixes:
  "Option.bind (strip_prefix p name) (strip_suffix s) = Some middle \<longleftrightarrow> name = p @ middle @ s"
proof
  assume "Option.bind (strip_prefix p name) (strip_suffix s) = Some middle"
  then have p: "take (length p) name = p" and r: "strip_suffix s (drop (length p) name) = Some middle"
    by (auto simp: strip_prefix_def starts_with_def split: if_splits)
  have split: "t = middle @ s" if "strip_suffix s t = Some middle" for t
    using that unfolding strip_suffix_def by (metis append_take_drop_id option.distinct(1) option.inject)
  have "drop (length p) name = middle @ s" by (rule split [OF r])
  with p show "name = p @ middle @ s" by (metis append_take_drop_id)
qed (simp add: strip_prefix_def strip_suffix_def starts_with_def)

lemma bounded_root_name_iff:
  "is_bounded_root_name name p s \<longleftrightarrow>
     (\<exists>nonce slot. nonce < 2 ^ 64 \<and> slot < 2 ^ 8 \<and> name = p @ hex_fixed 16 nonce @ ''.'' @ hex_fixed 2 slot @ s)"
  (is "?L \<longleftrightarrow> ?R")
proof
  assume ?L
  then obtain middle where name: "name = p @ middle @ s" and len: "length middle = 19" and dot: "middle ! 16 = CHR ''.''"
    and hex: "list_all is_lower_hex (take 16 middle)" "list_all is_lower_hex (drop 17 middle)"
    using strip_affixes [of p name s]
    by (auto simp: is_bounded_root_name_def ROOT_NONCE_HEX_LEN_def ROOT_SLOT_HEX_LEN_def split: option.splits)
  have middle: "middle = take 16 middle @ CHR ''.'' # drop 17 middle"
    using len dot id_take_nth_drop [of 16 middle] by simp
  obtain a where a: "a < 16 ^ 16" "take 16 middle = hex_fixed 16 a"
    using hex_fixed_surj [OF hex(1)] len by auto
  obtain b where b: "b < 16 ^ 2" "drop 17 middle = hex_fixed 2 b"
    using hex_fixed_surj [OF hex(2)] len by auto
  have "name = p @ hex_fixed 16 a @ ''.'' @ hex_fixed 2 b @ s"
    using name middle a(2) b(2) by (metis append_Cons append_Nil append_assoc)
  then show ?R using a(1) b(1) by (intro exI [of _ a] exI [of _ b]) simp
next
  assume ?R
  then obtain a b where "name = p @ (hex_fixed 16 a @ ''.'' @ hex_fixed 2 b) @ s" by auto
  then have "Option.bind (strip_prefix p name) (strip_suffix s) = Some (hex_fixed 16 a @ ''.'' @ hex_fixed 2 b)"
    by (simp only: strip_affixes)
  then show ?L
    by (simp add: is_bounded_root_name_def ROOT_NONCE_HEX_LEN_def ROOT_SLOT_HEX_LEN_def nth_append hex_fixed_lower)
qed

lemma root_prefixes_differ: "ROOT_EVIDENCE_PREFIX @ a \<noteq> ROOT_GENERATION_PREFIX @ b"
  by (simp add: ROOT_EVIDENCE_PREFIX_def ROOT_GENERATION_PREFIX_def)

section \<open>Properties\<close>

text \<open>
  C27. The leaf grammar is exact: in the directory of a day a name is read as a final file or as a
  temporary exactly when it is the name the writer gives to an address of that day; no other spelling
  of the number, the process id or the sequence is read as one.
\<close>

theorem leaf_names_exact:
  "parse_leaf name day = Inr leaf \<longleftrightarrow>
     address_new (sa_id (leaf_address leaf)) = Inr (leaf_address leaf)
     \<and> sa_day (leaf_address leaf) = day \<and> names_leaf leaf name"
proof -
  have "addressed (leaf_address leaf) day \<longleftrightarrow>
      address_new (sa_id (leaf_address leaf)) = Inr (leaf_address leaf) \<and> sa_day (leaf_address leaf) = day"
    by (auto simp: address_new_eq addressed_def)
  then show ?thesis using parse_leaf_sound parse_leaf_complete by blast
qed

text \<open>
  The calendar path is canonical: for any three directory names and a file name, the parsers lead
  to the segment with an address exactly when the names are that address's own year, month and day
  components and its PGM name.  So a segment has one path, and a path has one segment.
\<close>

theorem segment_path_exact:
  "(\<exists>y m d day. parse_year ys = Some y \<and> parse_month ms = Some m \<and> parse_day y m ds = Some d
      \<and> utc_day_new y m d = Inr day \<and> parse_leaf name day = Inr (LeafPgm a))
   \<longleftrightarrow> address_new (sa_id a) = Inr a \<and> ys = year_component (sa_day a) \<and> ms = month_component (sa_day a)
       \<and> ds = day_component (sa_day a) \<and> name = pgm_name a"
  (is "?L \<longleftrightarrow> ?R")
proof
  assume ?L
  then obtain y m d day where p: "parse_year ys = Some y" "parse_month ms = Some m" "parse_day y m ds = Some d"
    "utc_day_new y m d = Inr day" "parse_leaf name day = Inr (LeafPgm a)"
    by blast
  have "addressed a day" "name = pgm_name a"
    using parse_leaf_sound [OF p(5)] by (simp_all add: leaf_address_def names_leaf_def)
  moreover have "day = \<lparr>ud_year = y, ud_month = m, ud_day = d\<rparr>"
    using p(4) by (simp add: utc_day_new_def split: if_splits)
  ultimately show ?R
    using p(1-3) by (auto simp: addressed_def address_new_def parse_year_iff parse_month_iff parse_day_iff
        year_component_def month_component_def day_component_def)
next
  assume r: ?R
  let ?d = "sa_day a"
  have d: "segment_utc_day (sa_id a) = Inr ?d"
    using r by (auto simp: address_new_eq addressed_def)
  have "addressed a ?d" using d by (simp add: addressed_def)
  then have "parse_leaf name ?d = Inr (LeafPgm a)"
    using r by (intro parse_leaf_complete) (simp_all add: leaf_address_def names_leaf_def)
  then show ?L
    using r segment_utc_day_SomeD [OF d] segment_utc_day_valid [OF d]
    by (intro exI [of _ "ud_year ?d"] exI [of _ "ud_month ?d"] exI [of _ "ud_day ?d"] exI [of _ ?d])
      (simp add: parse_year_iff parse_month_iff parse_day_iff year_component_def month_component_def day_component_def)
qed

text \<open>
  The root recovery names are recognised exactly: a name is taken as retained evidence or as a
  fresh journal generation exactly when the writer can have made it, and never as both.
\<close>

theorem root_recovery_names_exact:
  "parse_pending_root_name name = Some kind \<longleftrightarrow>
     (\<exists>nonce slot. nonce < 2 ^ 64 \<and> slot < 2 ^ 8
        \<and> name = (case kind of Evidence \<Rightarrow> evidence_name nonce slot | JournalGeneration \<Rightarrow> generation_name nonce slot))"
proof (cases kind)
  case Evidence
  then show ?thesis
    by (simp add: parse_pending_root_name_def bounded_root_name_iff evidence_name_def)
next
  case JournalGeneration
  have "\<not> is_bounded_root_name (generation_name n s) ROOT_EVIDENCE_PREFIX ROOT_EVIDENCE_SUFFIX" for n s
    unfolding bounded_root_name_iff generation_name_def using root_prefixes_differ by metis
  then have "parse_pending_root_name name = Some JournalGeneration \<longleftrightarrow>
      is_bounded_root_name name ROOT_GENERATION_PREFIX ROOT_GENERATION_SUFFIX"
    unfolding bounded_root_name_iff [of name ROOT_GENERATION_PREFIX] generation_name_def
    by (auto simp: parse_pending_root_name_def bounded_root_name_iff [of name ROOT_GENERATION_PREFIX])
  then show ?thesis using JournalGeneration
    by (simp add: bounded_root_name_iff generation_name_def)
qed

end
