(* ===== verification/Layout_Scan.thy ===== *)
theory Layout_Scan
  imports Layout_Names Ordered_Map "HOL-Library.Product_Lexorder" "HOL-Library.Multiset"
begin

text \<open>
  The bounded traversal of the data root (\<open>crates/kronika-layout/src/root.rs\<close>, \<open>DataRoot::scan\<close>
  down to \<open>scan_day\<close>, \<open>ScanState\<close> and \<open>LayoutLimits\<close>).  What the operating system returns is a
  tree: a listing is the sequence of the directory iterator, whose items are read errors or names
  with the outcome of \<open>statat\<close>, and a directory carries the outcome of opening it.  A listing that
  cannot be started is one whose first item is the error.  The sizes that \<open>size_of\<close> charges are
  chosen by the compiler and are a parameter.
\<close>

section \<open>What the operating system returns\<close>

datatype entry_file_type = RegularFile | Directory | Symlink | OtherType

record file_identity =
  fi_device :: nat
  fi_inode :: nat
  fi_len :: nat
  fi_mtime_seconds :: int
  fi_mtime_nanoseconds :: int
  fi_ctime_seconds :: int
  fi_ctime_nanoseconds :: int

datatype node =
    StatFails int
  | Found entry_file_type file_identity "int + (int + string \<times> node) list"

type_synonym dir_listing = "(int + string \<times> node) list"

definition ENOENT :: int where "ENOENT = 2"

definition ELOOP :: int where "ELOOP = 40"

definition open_directory_at :: "string \<Rightarrow> int + dir_listing \<Rightarrow> layout_error + dir_listing" where
  "open_directory_at name opened =
     (case opened of
        Inr entries \<Rightarrow> Inr entries
      | Inl e \<Rightarrow> if e = ELOOP then Inl (SymlinkNotAllowed name) else Inl (LayoutIo e))"

section \<open>Limits\<close>

definition HARD_MAX_VISITED_ENTRIES :: nat where "HARD_MAX_VISITED_ENTRIES = 4000000"

definition HARD_MAX_ENTRIES_PER_DAY :: nat where "HARD_MAX_ENTRIES_PER_DAY = 1000000"

definition HARD_MAX_SEGMENTS :: nat where "HARD_MAX_SEGMENTS = 2000000"

definition HARD_MAX_METADATA_BYTES :: nat where "HARD_MAX_METADATA_BYTES = 128 * 1024 * 1024"

definition ENTRY_METADATA_BYTES :: nat where "ENTRY_METADATA_BYTES = 128"

definition SCAN_RACE_ATTEMPTS :: nat where "SCAN_RACE_ATTEMPTS = 4"

record layout_limits =
  max_visited_entries :: nat
  max_entries_per_day :: nat
  max_segments :: nat
  max_metadata_bytes :: nat

definition validate_limit :: "limit_kind \<Rightarrow> nat \<Rightarrow> nat \<Rightarrow> layout_error + unit" where
  "validate_limit kind value hard_max =
     (if value = 0 \<or> value > hard_max then Inl (InvalidLimits kind value hard_max) else Inr ())"

text \<open>The question mark operator: continue with the value, or return the error.\<close>

definition and_then :: "'e + 'a \<Rightarrow> ('a \<Rightarrow> 'e + 'b) \<Rightarrow> 'e + 'b" where
  "and_then r f = (case r of Inl e \<Rightarrow> Inl e | Inr x \<Rightarrow> f x)"

definition limits_validate :: "layout_limits \<Rightarrow> layout_error + layout_limits" where
  "limits_validate l =
     and_then (validate_limit VisitedEntries (max_visited_entries l) HARD_MAX_VISITED_ENTRIES) (\<lambda>_.
     and_then (validate_limit EntriesPerDay (max_entries_per_day l) HARD_MAX_ENTRIES_PER_DAY) (\<lambda>_.
     and_then (validate_limit Segments (max_segments l) HARD_MAX_SEGMENTS) (\<lambda>_.
     and_then (validate_limit MetadataBytes (max_metadata_bytes l) HARD_MAX_METADATA_BYTES) (\<lambda>_.
     Inr l))))"

definition limits_default :: layout_limits where
  "limits_default = \<lparr>max_visited_entries = 1000000, max_entries_per_day = 10000, max_segments = 500000,
     max_metadata_bytes = HARD_MAX_METADATA_BYTES\<rparr>"

record type_sizes =
  size_ForeignEntry :: nat
  size_PendingRootEntry :: nat
  size_UtcDay :: nat
  size_SegmentArtifacts :: nat
  size_SegmentAddress :: nat

section \<open>Results\<close>

datatype entry_scope = ScopeRoot | ScopeYear int | ScopeMonth int int | ScopeDay utc_day | ScopeQuarantine

datatype entry_parent = ParentRoot | ParentYear int | ParentMonth int int | ParentDay utc_day

definition parent_scope :: "entry_parent \<Rightarrow> entry_scope" where
  "parent_scope p =
     (case p of ParentRoot \<Rightarrow> ScopeRoot | ParentYear y \<Rightarrow> ScopeYear y | ParentMonth y m \<Rightarrow> ScopeMonth y m
      | ParentDay d \<Rightarrow> ScopeDay d)"

record path_identity =
  pi_scope :: entry_scope
  pi_name_hash :: u64
  pi_name_len :: nat
  pi_file_type :: entry_file_type
  pi_file :: file_identity

definition path_identity_of :: "entry_parent \<Rightarrow> string \<Rightarrow> entry_file_type \<Rightarrow> file_identity \<Rightarrow> path_identity" where
  "path_identity_of parent name ft stat =
     \<lparr>pi_scope = parent_scope parent, pi_name_hash = hash_name name,
      pi_name_len = min (length name) 65535, pi_file_type = ft, pi_file = stat\<rparr>"

datatype foreign_entry_reason =
    UnsupportedName | UnsupportedType | SymbolicLink | UnsupportedFlatArtifact | NonAsciiName | MisbucketedReason

record foreign_entry =
  fe_path :: path_identity
  fe_reason :: foreign_entry_reason
  fe_parent :: entry_parent
  fe_name :: string

record pending_root_entry =
  pr_kind :: pending_root_kind
  pr_identity :: path_identity
  pr_name :: string

datatype quarantine_directory_state = QuarantineAbsent | QuarantinePresent path_identity | QuarantineUnavailable path_identity

record segment_artifacts =
  sg_address :: segment_address
  sg_pgm_identity :: file_identity
  sg_pgm_bytes :: nat
  sg_ovf_bytes :: "nat option"

record temporary_object =
  to_address :: segment_address
  to_kind :: temporary_kind
  to_identity :: file_identity
  to_file_name :: string

record layout_snapshot =
  ls_days :: "utc_day list"
  ls_segments :: "segment_artifacts list"
  ls_orphan_overviews :: "segment_address list"
  ls_temporaries :: "temporary_object list"
  ls_foreign_entries :: "foreign_entry list"
  ls_pending_root_entries :: "pending_root_entry list"
  ls_quarantine_directory :: quarantine_directory_state
  ls_visited_entries :: nat
  ls_metadata_bytes :: nat

section \<open>The scan state\<close>

record scan_state =
  ss_limits :: layout_limits
  ss_visited_entries :: nat
  ss_metadata_bytes :: nat
  ss_days :: "utc_day list"
  ss_segments :: "segment_artifacts list"
  ss_orphan_overviews :: "segment_address list"
  ss_temporaries :: "temporary_object list"
  ss_foreign_entries :: "foreign_entry list"
  ss_pending_root_entries :: "pending_root_entry list"
  ss_quarantine_directory :: quarantine_directory_state

definition scan_state_new :: "layout_limits \<Rightarrow> nat \<Rightarrow> scan_state" where
  "scan_state_new limits visited =
     \<lparr>ss_limits = limits, ss_visited_entries = visited, ss_metadata_bytes = 0, ss_days = [], ss_segments = [],
      ss_orphan_overviews = [], ss_temporaries = [], ss_foreign_entries = [], ss_pending_root_entries = [],
      ss_quarantine_directory = QuarantineAbsent\<rparr>"

definition account_metadata :: "nat \<Rightarrow> scan_state \<Rightarrow> layout_error + scan_state" where
  "account_metadata bytes st =
     (case usize_checked_add (ss_metadata_bytes st) bytes of
        None \<Rightarrow> Inl (TraversalLimitExceeded MetadataBytes (max_metadata_bytes (ss_limits st)))
      | Some bytes' \<Rightarrow>
          if bytes' > max_metadata_bytes (ss_limits st)
          then Inl (TraversalLimitExceeded MetadataBytes (max_metadata_bytes (ss_limits st)))
          else Inr (st\<lparr>ss_metadata_bytes := bytes'\<rparr>))"

definition account :: "nat \<Rightarrow> scan_state \<Rightarrow> layout_error + scan_state" where
  "account name_bytes st =
     (case usize_checked_add (ss_visited_entries st) 1 of
        None \<Rightarrow> Inl (TraversalLimitExceeded VisitedEntries (max_visited_entries (ss_limits st)))
      | Some visited \<Rightarrow>
          if visited > max_visited_entries (ss_limits st)
          then Inl (TraversalLimitExceeded VisitedEntries (max_visited_entries (ss_limits st)))
          else account_metadata (saturating_add name_bytes ENTRY_METADATA_BYTES) (st\<lparr>ss_visited_entries := visited\<rparr>))"

definition account_segment :: "type_sizes \<Rightarrow> scan_state \<Rightarrow> layout_error + scan_state" where
  "account_segment sz st =
     (if length (ss_segments st) \<ge> max_segments (ss_limits st)
      then Inl (TraversalLimitExceeded Segments (max_segments (ss_limits st)))
      else account_metadata (size_SegmentArtifacts sz) st)"

definition record_foreign ::
  "type_sizes \<Rightarrow> entry_parent \<Rightarrow> string \<Rightarrow> entry_file_type \<Rightarrow> file_identity \<Rightarrow> foreign_entry_reason \<Rightarrow> scan_state
   \<Rightarrow> layout_error + scan_state" where
  "record_foreign sz parent name ft stat reason st =
     and_then (account_metadata (size_ForeignEntry sz) st) (\<lambda>st.
       Inr (st\<lparr>ss_foreign_entries := ss_foreign_entries st @
         [\<lparr>fe_path = path_identity_of parent name ft stat, fe_reason = reason, fe_parent = parent, fe_name = name\<rparr>]\<rparr>))"

definition record_pending_root ::
  "type_sizes \<Rightarrow> pending_root_kind \<Rightarrow> string \<Rightarrow> entry_file_type \<Rightarrow> file_identity \<Rightarrow> scan_state
   \<Rightarrow> layout_error + scan_state" where
  "record_pending_root sz kind name ft stat st =
     and_then (account_metadata (size_PendingRootEntry sz) st) (\<lambda>st.
       Inr (st\<lparr>ss_pending_root_entries := ss_pending_root_entries st @
         [\<lparr>pr_kind = kind, pr_identity = path_identity_of ParentRoot name ft stat, pr_name = name\<rparr>]\<rparr>))"

text \<open>Derived \<open>Ord\<close> compares fields in order and variants by position.\<close>

definition day_key :: "utc_day \<Rightarrow> int \<times> int \<times> int" where
  "day_key d = (ud_year d, ud_month d, ud_day d)"

definition scope_key :: "entry_scope \<Rightarrow> nat \<times> int \<times> int \<times> int" where
  "scope_key s =
     (case s of ScopeRoot \<Rightarrow> (0, 0, 0, 0) | ScopeYear y \<Rightarrow> (1, y, 0, 0) | ScopeMonth y m \<Rightarrow> (2, y, m, 0)
      | ScopeDay d \<Rightarrow> (3, day_key d) | ScopeQuarantine \<Rightarrow> (4, 0, 0, 0))"

definition file_type_key :: "entry_file_type \<Rightarrow> nat" where
  "file_type_key t = (case t of RegularFile \<Rightarrow> 0 | Directory \<Rightarrow> 1 | Symlink \<Rightarrow> 2 | OtherType \<Rightarrow> 3)"

definition file_key :: "file_identity \<Rightarrow> nat \<times> nat \<times> nat \<times> int \<times> int \<times> int \<times> int" where
  "file_key f = (fi_device f, fi_inode f, fi_len f, fi_mtime_seconds f, fi_mtime_nanoseconds f,
     fi_ctime_seconds f, fi_ctime_nanoseconds f)"

definition path_key ::
  "path_identity \<Rightarrow> (nat \<times> int \<times> int \<times> int) \<times> nat \<times> nat \<times> nat \<times> nat \<times> nat \<times> nat \<times> int \<times> int \<times> int \<times> int" where
  "path_key p = (scope_key (pi_scope p), unat (pi_name_hash p), pi_name_len p, file_type_key (pi_file_type p), file_key (pi_file p))"

definition temporary_kind_index :: "temporary_kind \<Rightarrow> nat" where
  "temporary_kind_index k = (case k of TmpPgm \<Rightarrow> 0 | TmpOvf \<Rightarrow> 1 | TmpOverviewProbe \<Rightarrow> 2)"

definition pending_kind_index :: "pending_root_kind \<Rightarrow> nat" where
  "pending_kind_index k = (case k of Evidence \<Rightarrow> 0 | JournalGeneration \<Rightarrow> 1)"

definition scan_finish :: "scan_state \<Rightarrow> layout_snapshot" where
  "scan_finish st =
     \<lparr>ls_days = sort_key day_key (ss_days st),
      ls_segments = sort_key (\<lambda>s. sa_id (sg_address s)) (ss_segments st),
      ls_orphan_overviews = sort_key sa_id (ss_orphan_overviews st),
      ls_temporaries = sort_key (\<lambda>t. (sa_id (to_address t), temporary_kind_index (to_kind t))) (ss_temporaries st),
      ls_foreign_entries = sort_key (\<lambda>e. path_key (fe_path e)) (ss_foreign_entries st),
      ls_pending_root_entries =
        sort_key (\<lambda>e. (pending_kind_index (pr_kind e), path_key (pr_identity e))) (ss_pending_root_entries st),
      ls_quarantine_directory = ss_quarantine_directory st,
      ls_visited_entries = ss_visited_entries st,
      ls_metadata_bytes = ss_metadata_bytes st\<rparr>"

definition foreign_type_reason :: "entry_file_type \<Rightarrow> foreign_entry_reason" where
  "foreign_type_reason ft = (if ft = Symlink then SymbolicLink else UnsupportedType)"

definition unsupported_name_reason :: "entry_file_type \<Rightarrow> foreign_entry_reason" where
  "unsupported_name_reason ft = (if ft = Symlink then SymbolicLink else UnsupportedName)"

text \<open>\<open>Path::extension\<close> of a single path component.\<close>

definition root_extension :: "string \<Rightarrow> string option" where
  "root_extension name =
     (if CHR ''.'' \<in> set name
      then (let ext = rev (takeWhile (\<lambda>c. c \<noteq> CHR ''.'') (rev name)) in
            if length ext + 1 = length name then None else Some ext)
      else None)"

section \<open>The traversal\<close>

record day_artifacts =
  da_pgm :: "file_identity option"
  da_ovf :: "nat option"

definition artifacts_of :: "(int, day_artifacts) btree_map \<Rightarrow> int \<Rightarrow> day_artifacts" where
  "artifacts_of finals sid =
     (case om_get finals sid of Some a \<Rightarrow> a | None \<Rightarrow> \<lparr>da_pgm = None, da_ovf = None\<rparr>)"

text \<open>One regular file of a day directory whose name is parsed.\<close>

definition scan_leaf ::
  "type_sizes \<Rightarrow> utc_day \<Rightarrow> string \<Rightarrow> file_identity \<Rightarrow> (int, day_artifacts) btree_map \<times> scan_state
   \<Rightarrow> layout_error + (int, day_artifacts) btree_map \<times> scan_state" where
  "scan_leaf sz day name stat = (\<lambda>(finals, st).
     (case parse_leaf name day of
        Inl e \<Rightarrow>
          and_then (record_foreign sz (ParentDay day) name RegularFile stat
                      (case e of MisbucketedSegment _ _ _ \<Rightarrow> MisbucketedReason | _ \<Rightarrow> UnsupportedName) st) (\<lambda>st.
            Inr (finals, st))
      | Inr (LeafPgm a) \<Rightarrow>
          Inr (om_insert (sa_id a) ((artifacts_of finals (sa_id a))\<lparr>da_pgm := Some stat\<rparr>) finals, st)
      | Inr (LeafOvf a) \<Rightarrow>
          Inr (om_insert (sa_id a) ((artifacts_of finals (sa_id a))\<lparr>da_ovf := Some (fi_len stat)\<rparr>) finals, st)
      | Inr (LeafTemporary a kind) \<Rightarrow>
          and_then (account_metadata ENTRY_METADATA_BYTES st) (\<lambda>st.
            Inr (finals, st\<lparr>ss_temporaries := ss_temporaries st @
              [\<lparr>to_address = a, to_kind = kind, to_identity = stat, to_file_name = name\<rparr>]\<rparr>))))"

fun scan_day_entries ::
  "type_sizes \<Rightarrow> utc_day \<Rightarrow> dir_listing \<Rightarrow> nat \<Rightarrow> (int, day_artifacts) btree_map \<Rightarrow> scan_state
   \<Rightarrow> layout_error + (int, day_artifacts) btree_map \<times> scan_state" where
  "scan_day_entries sz day [] day_entries finals st = Inr (finals, st)"
| "scan_day_entries sz day (Inl e # entries) day_entries finals st = Inl (LayoutIo e)"
| "scan_day_entries sz day (Inr (name, node) # entries) day_entries finals st =
     (if is_dot name then scan_day_entries sz day entries day_entries finals st
      else
        case usize_checked_add day_entries 1 of
          None \<Rightarrow> Inl (TraversalLimitExceeded EntriesPerDay (max_entries_per_day (ss_limits st)))
        | Some day_entries \<Rightarrow>
            if day_entries > max_entries_per_day (ss_limits st)
            then Inl (TraversalLimitExceeded EntriesPerDay (max_entries_per_day (ss_limits st)))
            else
              and_then (account (length name) st) (\<lambda>st.
                case node of
                  StatFails e \<Rightarrow> Inl (LayoutIo e)
                | Found ft stat _ \<Rightarrow>
                    and_then
                      (case ascii_name name of
                         None \<Rightarrow>
                           and_then (record_foreign sz (ParentDay day) name ft stat NonAsciiName st) (\<lambda>st. Inr (finals, st))
                       | Some name_string \<Rightarrow>
                           if ft \<noteq> RegularFile
                           then and_then (record_foreign sz (ParentDay day) name ft stat (foreign_type_reason ft) st)
                                  (\<lambda>st. Inr (finals, st))
                           else scan_leaf sz day name_string stat (finals, st))
                      (\<lambda>(finals, st). scan_day_entries sz day entries day_entries finals st)))"

fun push_finals ::
  "type_sizes \<Rightarrow> utc_day \<Rightarrow> (int \<times> day_artifacts) list \<Rightarrow> scan_state \<Rightarrow> layout_error + scan_state" where
  "push_finals sz day [] st = Inr st"
| "push_finals sz day ((sid, artifacts) # finals) st =
     and_then (address_in_day sid day) (\<lambda>address.
     and_then
       (case da_pgm artifacts of
          Some pgm_identity \<Rightarrow>
            and_then (account_segment sz st) (\<lambda>st.
              Inr (st\<lparr>ss_segments := ss_segments st @
                [\<lparr>sg_address = address, sg_pgm_identity = pgm_identity, sg_pgm_bytes = fi_len pgm_identity,
                  sg_ovf_bytes = da_ovf artifacts\<rparr>]\<rparr>))
        | None \<Rightarrow>
            if da_ovf artifacts \<noteq> None
            then and_then (account_metadata (size_SegmentAddress sz) st) (\<lambda>st.
              Inr (st\<lparr>ss_orphan_overviews := ss_orphan_overviews st @ [address]\<rparr>))
            else Inr st)
       (push_finals sz day finals))"

definition scan_day :: "type_sizes \<Rightarrow> dir_listing \<Rightarrow> utc_day \<Rightarrow> scan_state \<Rightarrow> layout_error + scan_state" where
  "scan_day sz entries day st =
     and_then (scan_day_entries sz day entries 0 [] st) (\<lambda>(finals, st). push_finals sz day finals st)"

text \<open>
  The three upper levels have the same shape: account, stat, reject names that are not text, then
  the body of the level.
\<close>

fun scan_listing ::
  "(string \<Rightarrow> entry_file_type \<Rightarrow> file_identity \<Rightarrow> int + dir_listing \<Rightarrow> scan_state \<Rightarrow> layout_error + scan_state)
   \<Rightarrow> type_sizes \<Rightarrow> entry_parent \<Rightarrow> dir_listing \<Rightarrow> scan_state \<Rightarrow> layout_error + scan_state" where
  "scan_listing body sz parent [] st = Inr st"
| "scan_listing body sz parent (Inl e # entries) st = Inl (LayoutIo e)"
| "scan_listing body sz parent (Inr (name, node) # entries) st =
     (if is_dot name then scan_listing body sz parent entries st
      else
        and_then (account (length name) st) (\<lambda>st.
          case node of
            StatFails e \<Rightarrow> Inl (LayoutIo e)
          | Found ft stat opened \<Rightarrow>
              and_then
                (case ascii_name name of
                   None \<Rightarrow> record_foreign sz parent name ft stat NonAsciiName st
                 | Some name_string \<Rightarrow> body name_string ft stat opened st)
                (scan_listing body sz parent entries)))"

definition scan_month_entry ::
  "type_sizes \<Rightarrow> int \<Rightarrow> int \<Rightarrow> string \<Rightarrow> entry_file_type \<Rightarrow> file_identity \<Rightarrow> int + dir_listing \<Rightarrow> scan_state
   \<Rightarrow> layout_error + scan_state" where
  "scan_month_entry sz year month name ft stat opened st =
     (case parse_day year month name of
        None \<Rightarrow> record_foreign sz (ParentMonth year month) name ft stat (unsupported_name_reason ft) st
      | Some day_number \<Rightarrow>
          if ft \<noteq> Directory
          then record_foreign sz (ParentMonth year month) name ft stat (foreign_type_reason ft) st
          else
            and_then (open_directory_at name opened) (\<lambda>day_directory.
            and_then (utc_day_new year month day_number) (\<lambda>day.
            and_then (account_metadata (size_UtcDay sz) st) (\<lambda>st.
              scan_day sz day_directory day (st\<lparr>ss_days := ss_days st @ [day]\<rparr>)))))"

definition scan_month :: "type_sizes \<Rightarrow> dir_listing \<Rightarrow> int \<Rightarrow> int \<Rightarrow> scan_state \<Rightarrow> layout_error + scan_state" where
  "scan_month sz entries year month =
     scan_listing (scan_month_entry sz year month) sz (ParentMonth year month) entries"

definition scan_year_entry ::
  "type_sizes \<Rightarrow> int \<Rightarrow> string \<Rightarrow> entry_file_type \<Rightarrow> file_identity \<Rightarrow> int + dir_listing \<Rightarrow> scan_state
   \<Rightarrow> layout_error + scan_state" where
  "scan_year_entry sz year name ft stat opened st =
     (case parse_month name of
        None \<Rightarrow> record_foreign sz (ParentYear year) name ft stat (unsupported_name_reason ft) st
      | Some month \<Rightarrow>
          if ft \<noteq> Directory then record_foreign sz (ParentYear year) name ft stat (foreign_type_reason ft) st
          else and_then (open_directory_at name opened) (\<lambda>month_directory. scan_month sz month_directory year month st))"

definition scan_year :: "type_sizes \<Rightarrow> dir_listing \<Rightarrow> int \<Rightarrow> scan_state \<Rightarrow> layout_error + scan_state" where
  "scan_year sz entries year = scan_listing (scan_year_entry sz year) sz (ParentYear year) entries"

definition scan_root_entry ::
  "type_sizes \<Rightarrow> string \<Rightarrow> entry_file_type \<Rightarrow> file_identity \<Rightarrow> int + dir_listing \<Rightarrow> scan_state
   \<Rightarrow> layout_error + scan_state" where
  "scan_root_entry sz name ft stat opened st =
     (if name = QUARANTINE_DIRECTORY_NAME then
        (let identity = path_identity_of ParentRoot name ft stat in
         if ft = Directory then Inr (st\<lparr>ss_quarantine_directory := QuarantinePresent identity\<rparr>)
         else record_foreign sz ParentRoot name ft stat (foreign_type_reason ft)
                (st\<lparr>ss_quarantine_directory := QuarantineUnavailable identity\<rparr>))
      else case parse_pending_root_name name of
        Some kind \<Rightarrow>
          if ft = RegularFile then record_pending_root sz kind name ft stat st
          else record_foreign sz ParentRoot name ft stat (foreign_type_reason ft) st
      | None \<Rightarrow>
          if is_control_name name then
            (if ft \<noteq> RegularFile then record_foreign sz ParentRoot name ft stat (foreign_type_reason ft) st else Inr st)
          else if root_extension name \<in> {Some ''pgm'', Some ''ovf''} then
            record_foreign sz ParentRoot name ft stat
              (if ft = RegularFile then UnsupportedFlatArtifact else foreign_type_reason ft) st
          else case parse_year name of
            None \<Rightarrow> record_foreign sz ParentRoot name ft stat (unsupported_name_reason ft) st
          | Some year \<Rightarrow>
              if ft \<noteq> Directory then record_foreign sz ParentRoot name ft stat (foreign_type_reason ft) st
              else and_then (open_directory_at name opened) (\<lambda>year_directory. scan_year sz year_directory year st))"

definition scan_once :: "type_sizes \<Rightarrow> layout_limits \<Rightarrow> dir_listing \<Rightarrow> nat \<Rightarrow> layout_error + layout_snapshot" where
  "scan_once sz limits root visited =
     and_then (scan_listing (scan_root_entry sz) sz ParentRoot root (scan_state_new limits visited)) (\<lambda>st.
       Inr (scan_finish st))"

text \<open>
  The retry loop; attempt \<open>k\<close> sees the tree \<open>view k\<close>.  Running past the last attempt is the panic of
  \<open>unreachable!\<close>, the value \<open>None\<close>.
\<close>

fun scan_attempts ::
  "type_sizes \<Rightarrow> layout_limits \<Rightarrow> (nat \<Rightarrow> dir_listing) \<Rightarrow> nat list \<Rightarrow> (layout_error + layout_snapshot) option" where
  "scan_attempts sz limits view [] = None"
| "scan_attempts sz limits view (attempt # attempts) =
     (case scan_once sz limits (view attempt) 0 of
        Inl (LayoutIo e) \<Rightarrow>
          if e = ENOENT \<and> attempt + 1 < SCAN_RACE_ATTEMPTS then scan_attempts sz limits view attempts
          else Some (Inl (LayoutIo e))
      | result \<Rightarrow> Some result)"

definition scan :: "type_sizes \<Rightarrow> layout_limits \<Rightarrow> (nat \<Rightarrow> dir_listing) \<Rightarrow> (layout_error + layout_snapshot) option" where
  "scan sz limits view =
     (case limits_validate limits of
        Inl e \<Rightarrow> Some (Inl e)
      | Inr limits \<Rightarrow> scan_attempts sz limits view [0..<SCAN_RACE_ATTEMPTS])"

section \<open>Looking a path up\<close>

text \<open>
  The reference for the traversal: what a name denotes in a listing, independent of the order in
  which the iterator returns the entries.
\<close>

fun entry_of :: "dir_listing \<Rightarrow> string \<Rightarrow> node option" where
  "entry_of [] name = None"
| "entry_of (Inl e # entries) name = entry_of entries name"
| "entry_of (Inr (n, node) # entries) name = (if n = name then Some node else entry_of entries name)"

fun listing_names :: "dir_listing \<Rightarrow> string list" where
  "listing_names [] = []"
| "listing_names (Inl e # entries) = listing_names entries"
| "listing_names (Inr (n, node) # entries) = n # listing_names entries"

definition regular_file :: "dir_listing \<Rightarrow> string \<Rightarrow> file_identity option" where
  "regular_file entries name =
     (case entry_of entries name of
        Some (Found ft stat opened) \<Rightarrow> if ft = RegularFile then Some stat else None
      | _ \<Rightarrow> None)"

definition dir_at :: "dir_listing \<Rightarrow> string \<Rightarrow> dir_listing option" where
  "dir_at entries name =
     (case entry_of entries name of
        Some (Found ft stat (Inr l)) \<Rightarrow> if ft = Directory then Some l else None
      | _ \<Rightarrow> None)"

definition valid_day :: "utc_day \<Rightarrow> bool" where
  "valid_day d \<longleftrightarrow> 0 \<le> ud_year d \<and> 0 \<le> ud_day d \<and> utc_day_new (ud_year d) (ud_month d) (ud_day d) = Inr d"

definition day_dir :: "dir_listing \<Rightarrow> utc_day \<Rightarrow> dir_listing option" where
  "day_dir root day =
     (if valid_day day
      then Option.bind (Option.bind (dir_at root (year_component day)) (\<lambda>ys. dir_at ys (month_component day)))
             (\<lambda>ms. dir_at ms (day_component day))
      else None)"

lemma entry_of_None: "name \<notin> set (listing_names entries) \<Longrightarrow> entry_of entries name = None"
  by (induction entries name rule: entry_of.induct) auto

lemma entry_of_iff:
  "distinct (listing_names entries) \<Longrightarrow> entry_of entries name = Some node \<longleftrightarrow> Inr (name, node) \<in> set entries"
proof (induction entries name rule: entry_of.induct)
  case (3 n nd entries name)
  have "Inr (n, node) \<notin> set entries" if "n \<notin> set (listing_names entries)"
    using that by (induction entries rule: listing_names.induct) auto
  with 3 show ?case by auto
qed auto

section \<open>What a directory contributes\<close>

datatype scan_item =
    ItemDay utc_day
  | ItemSegment segment_artifacts
  | ItemOrphan segment_address
  | ItemTemporary temporary_object

fun item_day :: "scan_item \<Rightarrow> utc_day" where
  "item_day (ItemDay d) = d"
| "item_day (ItemSegment s) = sa_day (sg_address s)"
| "item_day (ItemOrphan a) = sa_day a"
| "item_day (ItemTemporary t) = sa_day (to_address t)"

definition scan_items :: "scan_state \<Rightarrow> scan_item list" where
  "scan_items st = map ItemDay (ss_days st) @ map ItemSegment (ss_segments st)
     @ map ItemOrphan (ss_orphan_overviews st) @ map ItemTemporary (ss_temporaries st)"

definition temporary_in :: "dir_listing \<Rightarrow> utc_day \<Rightarrow> temporary_object \<Rightarrow> bool" where
  "temporary_in entries day t \<longleftrightarrow>
     addressed (to_address t) day \<and> names_leaf (LeafTemporary (to_address t) (to_kind t)) (to_file_name t)
     \<and> regular_file entries (to_file_name t) = Some (to_identity t)"

definition segment_in :: "dir_listing \<Rightarrow> utc_day \<Rightarrow> segment_artifacts \<Rightarrow> bool" where
  "segment_in entries day s \<longleftrightarrow>
     addressed (sg_address s) day
     \<and> regular_file entries (pgm_name (sg_address s)) = Some (sg_pgm_identity s)
     \<and> sg_pgm_bytes s = fi_len (sg_pgm_identity s)
     \<and> sg_ovf_bytes s = map_option fi_len (regular_file entries (ovf_name (sg_address s)))"

definition orphan_in :: "dir_listing \<Rightarrow> utc_day \<Rightarrow> segment_address \<Rightarrow> bool" where
  "orphan_in entries day a \<longleftrightarrow>
     addressed a day \<and> regular_file entries (pgm_name a) = None \<and> regular_file entries (ovf_name a) \<noteq> None"

definition day_items :: "dir_listing \<Rightarrow> utc_day \<Rightarrow> scan_item set" where
  "day_items entries day =
     ItemSegment ` {s. segment_in entries day s} \<union> ItemOrphan ` {a. orphan_in entries day a}
     \<union> ItemTemporary ` {t. temporary_in entries day t}"

lemma day_items_day: "x \<in> day_items entries day \<Longrightarrow> item_day x = day"
  by (auto simp: day_items_def segment_in_def orphan_in_def temporary_in_def addressed_def)

text \<open>A step that adds each item of a set once.\<close>

definition adds :: "scan_state \<Rightarrow> scan_state \<Rightarrow> scan_item set \<Rightarrow> bool" where
  "adds st st' C \<longleftrightarrow> (\<exists>L. distinct L \<and> set L = C \<and> mset (scan_items st') = mset (scan_items st) + mset L)"

lemma adds_none: "scan_items st' = scan_items st \<Longrightarrow> adds st st' {}"
  by (auto simp: adds_def)

lemma adds_trans:
  assumes "adds st st' C" and "adds st' st'' D" and "C \<inter> D = {}"
  shows "adds st st'' (C \<union> D)"
proof -
  obtain L M where L: "distinct L" "set L = C" "mset (scan_items st') = mset (scan_items st) + mset L"
    and M: "distinct M" "set M = D" "mset (scan_items st'') = mset (scan_items st') + mset M"
    using assms(1,2) by (auto simp: adds_def)
  have "distinct (L @ M)" using L M assms(3) by simp
  then show ?thesis using L M by (auto simp: adds_def intro!: exI [of _ "L @ M"])
qed

lemma adds_quiet: "adds st st' C \<Longrightarrow> scan_items st0 = scan_items st \<Longrightarrow> adds st0 st' C"
  by (simp add: adds_def)

section \<open>Accounting\<close>

lemma and_then_Inr: "and_then r f = Inr y \<longleftrightarrow> (\<exists>x. r = Inr x \<and> f x = Inr y)"
  by (cases r) (auto simp: and_then_def)

lemma and_then_Inl: "and_then r f = Inl e \<longleftrightarrow> r = Inl e \<or> (\<exists>x. r = Inr x \<and> f x = Inl e)"
  by (cases r) (auto simp: and_then_def)

lemma account_metadata_Inr:
  "account_metadata n st = Inr st' \<longleftrightarrow>
     st' = st\<lparr>ss_metadata_bytes := ss_metadata_bytes st + n\<rparr>
     \<and> ss_metadata_bytes st + n \<le> max_metadata_bytes (ss_limits st) \<and> ss_metadata_bytes st + n < usize_limit"
  by (auto simp: account_metadata_def usize_checked_add_def split: if_splits option.splits)

lemma account_Inr:
  assumes "account n st = Inr st'"
  shows "scan_items st' = scan_items st" and "ss_limits st' = ss_limits st" and "ss_segments st' = ss_segments st"
    and "ss_visited_entries st' \<le> max_visited_entries (ss_limits st)"
    and "ss_metadata_bytes st' \<le> max_metadata_bytes (ss_limits st)"
  using assms
  by (auto simp: account_def usize_checked_add_def account_metadata_Inr scan_items_def split: if_splits option.splits)

lemma record_foreign_Inr:
  assumes "record_foreign sz parent name ft stat reason st = Inr st'"
  shows "scan_items st' = scan_items st" and "ss_limits st' = ss_limits st" and "ss_segments st' = ss_segments st"
    and "ss_visited_entries st' = ss_visited_entries st"
    and "ss_metadata_bytes st' \<le> max_metadata_bytes (ss_limits st)"
  using assms by (auto simp: record_foreign_def and_then_Inr account_metadata_Inr scan_items_def)

lemma record_pending_root_Inr:
  assumes "record_pending_root sz kind name ft stat st = Inr st'"
  shows "scan_items st' = scan_items st" and "ss_limits st' = ss_limits st" and "ss_segments st' = ss_segments st"
    and "ss_visited_entries st' = ss_visited_entries st"
    and "ss_metadata_bytes st' \<le> max_metadata_bytes (ss_limits st)"
  using assms by (auto simp: record_pending_root_def and_then_Inr account_metadata_Inr scan_items_def)

end
