(* ===== verification/Layout_Scan_Exact.thy ===== *)
theory Layout_Scan_Exact
  imports Layout_Scan "HOL-Library.Code_Target_Nat"
begin

text \<open>
  The traversal of the data root finds exactly the segments, sidecars and temporaries that the path
  of an address leads to, in id order, within its limits, and fails only for limits and I/O.
\<close>

section \<open>A day directory\<close>

lemma dec_digits_ascii: "c \<in> set (dec_digits n) \<Longrightarrow> (of_char c :: nat) < 128"
  using dec_digits_digits [of n] by (auto simp: list_all_iff is_digit_def simp del: dec_digits_digits)

lemma display_int_ascii: "c \<in> set (display_int v) \<Longrightarrow> (of_char c :: nat) < 128"
  by (auto simp: display_int_def dec_digits_ascii split: if_splits)

lemma names_leaf_ascii: "names_leaf l name \<Longrightarrow> ascii_name name = Some name"
  by (cases l)
    (auto simp: names_leaf_def ascii_name_def list_all_iff pgm_name_def ovf_name_def temporary_name_def
      display_int_ascii dec_digits_ascii split: temporary_kind.splits)

lemma names_leaf_long: "names_leaf l name \<Longrightarrow> \<not> is_dot name"
proof -
  assume "names_leaf l name"
  then have "4 < length name"
    using dec_digits_nonempty
    by (cases l) (auto simp: names_leaf_def pgm_name_def ovf_name_def temporary_name_def display_int_def
        split: temporary_kind.splits)
  then show ?thesis by (auto simp: is_dot_def)
qed

text \<open>The artifacts of an id after some entries: what was known, overridden by the two names of the id.\<close>

definition merge_artifacts :: "dir_listing \<Rightarrow> utc_day \<Rightarrow> int \<Rightarrow> day_artifacts \<Rightarrow> day_artifacts" where
  "merge_artifacts entries day sid old =
     (let a = \<lparr>sa_id = sid, sa_day = day\<rparr> in
      if addressed a day
      then \<lparr>da_pgm = (case regular_file entries (pgm_name a) of Some f \<Rightarrow> Some f | None \<Rightarrow> da_pgm old),
            da_ovf = (case regular_file entries (ovf_name a) of Some f \<Rightarrow> Some (fi_len f) | None \<Rightarrow> da_ovf old)\<rparr>
      else old)"

lemma regular_file_Cons:
  "regular_file (Inr (n, node) # entries) name =
     (if n = name then (case node of Found ft stat opened \<Rightarrow> if ft = RegularFile then Some stat else None | _ \<Rightarrow> None)
      else regular_file entries name)"
  by (simp add: regular_file_def split: node.split)

lemma regular_file_Nil [simp]: "regular_file [] name = None"
  by (simp add: regular_file_def)

lemma regular_file_None: "name \<notin> set (listing_names entries) \<Longrightarrow> regular_file entries name = None"
  by (simp add: regular_file_def entry_of_None)

lemma final_names_inject:
  "pgm_name a = pgm_name b \<longleftrightarrow> sa_id a = sa_id b" "ovf_name a = ovf_name b \<longleftrightarrow> sa_id a = sa_id b"
  "pgm_name a \<noteq> ovf_name b"
proof -
  have "display_int v = display_int w \<longleftrightarrow> v = w" for v w
  proof
    have eq: "n = m" if "dec_digits n = dec_digits m" for n m
      using that by (metis digits_value_dec)
    have minus: "CHR ''-'' # s \<noteq> dec_digits n" for s n
    proof
      assume "CHR ''-'' # s = dec_digits n"
      then have "all_digits (CHR ''-'' # s)" by simp
      then show False using not_digit_signs(1) by simp
    qed
    assume "display_int v = display_int w"
    then show "v = w"
      using eq [of "nat (- v)" "nat (- w)"] eq [of "nat v" "nat w"] minus minus [THEN not_sym]
      by (auto simp: display_int_def split: if_splits)
  qed simp
  then show "pgm_name a = pgm_name b \<longleftrightarrow> sa_id a = sa_id b" "ovf_name a = ovf_name b \<longleftrightarrow> sa_id a = sa_id b"
    "pgm_name a \<noteq> ovf_name b"
    by (simp_all add: pgm_name_def ovf_name_def)
qed

lemma regular_file_append:
  "n \<notin> set (listing_names entries) \<Longrightarrow>
     regular_file (Inr (n, node) # entries) name =
       (case regular_file [Inr (n, node)] name of Some f \<Rightarrow> Some f | None \<Rightarrow> regular_file entries name)"
  using regular_file_None [of n entries]
  by (auto simp: regular_file_Cons regular_file_None split: node.split option.split)

lemma merge_artifacts_Cons:
  assumes "n \<notin> set (listing_names entries)"
  shows "merge_artifacts (Inr (n, node) # entries) day sid old =
    merge_artifacts entries day sid (merge_artifacts [Inr (n, node)] day sid old)"
proof -
  have "regular_file entries name = None" if "regular_file [Inr (n, node)] name \<noteq> None" for name
    using that regular_file_None [OF assms] by (auto simp: regular_file_def split: if_splits)
  then show ?thesis
    by (auto simp: merge_artifacts_def Let_def regular_file_append [OF assms] split: option.split)
qed

lemma temporary_in_Cons:
  assumes "n \<notin> set (listing_names entries)"
  shows "temporary_in (Inr (n, node) # entries) day t \<longleftrightarrow>
    temporary_in [Inr (n, node)] day t \<or> temporary_in entries day t"
    and "\<not> (temporary_in [Inr (n, node)] day t \<and> temporary_in entries day t)"
  using regular_file_None [OF assms]
  by (auto simp: temporary_in_def regular_file_append [OF assms] regular_file_Cons [of n node "[]"] split: option.splits if_splits)

text \<open>One entry that is not a leaf of the grammar contributes nothing.\<close>

definition leafless :: "string \<Rightarrow> node \<Rightarrow> utc_day \<Rightarrow> bool" where
  "leafless n node day \<longleftrightarrow> (\<forall>l stat opened. node = Found RegularFile stat opened \<longrightarrow> parse_leaf n day \<noteq> Inr l)"

lemma addressed_leaves:
  assumes "addressed a day"
  shows "parse_leaf (pgm_name a) day = Inr (LeafPgm a)" and "parse_leaf (ovf_name a) day = Inr (LeafOvf a)"
  using assms by (auto intro!: parse_leaf_complete simp: leaf_address_def names_leaf_def)

lemma regular_file_single:
  "regular_file [Inr (n, node)] name = Some f \<longleftrightarrow> n = name \<and> (\<exists>opened. node = Found RegularFile f opened)"
  by (auto simp: regular_file_def split: node.splits)

lemma leafless_nothing:
  assumes "leafless n node day"
  shows "merge_artifacts [Inr (n, node)] day sid old = old" and "\<not> temporary_in [Inr (n, node)] day t"
proof -
  have "regular_file [Inr (n, node)] (pgm_name a) = None \<and> regular_file [Inr (n, node)] (ovf_name a) = None"
    if "addressed a day" for a
    using assms addressed_leaves [OF that] regular_file_single [of n node]
    by (auto simp: leafless_def) (metis not_Some_eq)+
  then show "merge_artifacts [Inr (n, node)] day sid old = old" by (simp add: merge_artifacts_def Let_def)
  show "\<not> temporary_in [Inr (n, node)] day t"
    using assms parse_leaf_complete [of "LeafTemporary (to_address t) (to_kind t)" day "to_file_name t"]
    by (auto simp: temporary_in_def leafless_def regular_file_single leaf_address_def)
qed

lemma artifacts_of_insert:
  "artifacts_of (om_insert k v m) sid = (if sid = k then v else artifacts_of m sid)"
  by (simp add: artifacts_of_def om_get_insert)

lemma single_leaf:
  assumes "parse_leaf n day = Inr l" and "addressed a day"
  shows "regular_file [Inr (n, Found RegularFile stat opened)] (pgm_name a) = (if l = LeafPgm a then Some stat else None)"
    and "regular_file [Inr (n, Found RegularFile stat opened)] (ovf_name a) = (if l = LeafOvf a then Some stat else None)"
proof -
  have l: "names_leaf l n" using parse_leaf_sound [OF assms(1)] by simp
  have "n = pgm_name a \<longleftrightarrow> l = LeafPgm a" "n = ovf_name a \<longleftrightarrow> l = LeafOvf a"
    using addressed_leaves [OF assms(2)] assms(1) l by (auto simp: names_leaf_def)
  then show "regular_file [Inr (n, Found RegularFile stat opened)] (pgm_name a) = (if l = LeafPgm a then Some stat else None)"
    and "regular_file [Inr (n, Found RegularFile stat opened)] (ovf_name a) = (if l = LeafOvf a then Some stat else None)"
    by (auto simp: regular_file_def)
qed

lemma single_final:
  assumes "parse_leaf n day = Inr l"
  shows "merge_artifacts [Inr (n, Found RegularFile stat opened)] day sid old =
    (if l = LeafPgm \<lparr>sa_id = sid, sa_day = day\<rparr> then old\<lparr>da_pgm := Some stat\<rparr>
     else if l = LeafOvf \<lparr>sa_id = sid, sa_day = day\<rparr> then old\<lparr>da_ovf := Some (fi_len stat)\<rparr> else old)"
proof (cases "addressed \<lparr>sa_id = sid, sa_day = day\<rparr> day")
  case True
  then show ?thesis by (simp add: merge_artifacts_def Let_def single_leaf [OF assms True])
next
  case False
  then have "l \<noteq> LeafPgm \<lparr>sa_id = sid, sa_day = day\<rparr>" "l \<noteq> LeafOvf \<lparr>sa_id = sid, sa_day = day\<rparr>"
    using parse_leaf_sound [OF assms] by (auto simp: leaf_address_def)
  with False show ?thesis by (simp add: merge_artifacts_def)
qed

lemma single_temporary:
  assumes "parse_leaf n day = Inr l"
  shows "temporary_in [Inr (n, Found RegularFile stat opened)] day t \<longleftrightarrow>
    l = LeafTemporary (to_address t) (to_kind t) \<and> to_file_name t = n \<and> to_identity t = stat"
  using parse_leaf_sound [OF assms]
    parse_leaf_complete [of "LeafTemporary (to_address t) (to_kind t)" day "to_file_name t"] assms
  by (auto simp: temporary_in_def regular_file_single leaf_address_def split: parsed_leaf.splits)

lemma leaf_address_day: "parse_leaf n day = Inr l \<Longrightarrow> sa_day (leaf_address l) = day"
  using parse_leaf_sound [of n day l] by (simp add: addressed_def)

lemma scan_leaf_effect:
  assumes "scan_leaf sz day n stat (finals, st) = Inr (finals', st')" and "om_ok finals"
  shows "om_ok finals' \<and> (\<forall>sid. artifacts_of finals' sid =
          merge_artifacts [Inr (n, Found RegularFile stat opened)] day sid (artifacts_of finals sid))
    \<and> adds st st' (ItemTemporary ` {t. temporary_in [Inr (n, Found RegularFile stat opened)] day t})"
proof (cases "parse_leaf n day")
  case (Inl e)
  then have r: "finals' = finals" "\<exists>reason. record_foreign sz (ParentDay day) n RegularFile stat reason st = Inr st'"
    using assms(1) by (auto simp: scan_leaf_def and_then_Inr)
  then have "scan_items st' = scan_items st" using record_foreign_Inr(1) by blast
  moreover have "leafless n (Found RegularFile stat opened) day" using Inl by (simp add: leafless_def)
  ultimately show ?thesis using r(1) assms(2) by (simp add: leafless_nothing adds_none)
next
  case (Inr l)
  have day: "sa_day (leaf_address l) = day" by (rule leaf_address_day [OF Inr])
  show ?thesis
  proof (cases l)
    case (LeafPgm a)
    then have "a = \<lparr>sa_id = sa_id a, sa_day = day\<rparr>" using day by (simp add: leaf_address_def)
    moreover have "finals' = om_insert (sa_id a) ((artifacts_of finals (sa_id a))\<lparr>da_pgm := Some stat\<rparr>) finals" "st' = st"
      using assms(1) Inr LeafPgm by (simp_all add: scan_leaf_def)
    ultimately show ?thesis using LeafPgm assms(2)
      by (auto simp: om_ok_insert artifacts_of_insert single_final [OF Inr] single_temporary [OF Inr] adds_none)
  next
    case (LeafOvf a)
    then have "a = \<lparr>sa_id = sa_id a, sa_day = day\<rparr>" using day by (simp add: leaf_address_def)
    moreover have "finals' = om_insert (sa_id a) ((artifacts_of finals (sa_id a))\<lparr>da_ovf := Some (fi_len stat)\<rparr>) finals" "st' = st"
      using assms(1) Inr LeafOvf by (simp_all add: scan_leaf_def)
    ultimately show ?thesis using LeafOvf assms(2)
      by (auto simp: om_ok_insert artifacts_of_insert single_final [OF Inr] single_temporary [OF Inr] adds_none)
  next
    case (LeafTemporary a k)
    let ?t = "\<lparr>to_address = a, to_kind = k, to_identity = stat, to_file_name = n\<rparr>"
    have r: "finals' = finals"
      "st' = st\<lparr>ss_metadata_bytes := ss_metadata_bytes st + ENTRY_METADATA_BYTES, ss_temporaries := ss_temporaries st @ [?t]\<rparr>"
      using assms(1) Inr LeafTemporary by (auto simp: scan_leaf_def and_then_Inr account_metadata_Inr)
    have "{t. temporary_in [Inr (n, Found RegularFile stat opened)] day t} = {?t}"
      using LeafTemporary by (auto simp: single_temporary [OF Inr])
    moreover have "adds st st' {ItemTemporary ?t}"
      unfolding adds_def r(2) by (intro exI [of _ "[ItemTemporary ?t]"]) (simp add: scan_items_def)
    ultimately show ?thesis using r(1) assms(2) LeafTemporary by (auto simp: single_final [OF Inr])
  qed
qed

text \<open>All entries of a day directory.\<close>

lemma scan_day_entries_effect:
  assumes "scan_day_entries sz day entries k finals st = Inr (finals', st')" and "om_ok finals"
    and "distinct (listing_names entries)"
  shows "om_ok finals' \<and> (\<forall>sid. artifacts_of finals' sid = merge_artifacts entries day sid (artifacts_of finals sid))
    \<and> adds st st' (ItemTemporary ` {t. temporary_in entries day t})"
  using assms
proof (induction sz day entries k finals st rule: scan_day_entries.induct)
  case (1 sz day k finals st)
  then show ?case by (simp add: merge_artifacts_def Let_def temporary_in_def adds_none)
next
  case (2 sz day e entries k finals st)
  then show ?case by simp
next
  case (3 sz day n node entries k finals st)
  have names: "n \<notin> set (listing_names entries)" "distinct (listing_names entries)" using 3(5) by simp_all
  have split: "ItemTemporary ` {t. temporary_in (Inr (n, node) # entries) day t} =
      ItemTemporary ` {t. temporary_in [Inr (n, node)] day t} \<union> ItemTemporary ` {t. temporary_in entries day t}"
    "ItemTemporary ` {t. temporary_in [Inr (n, node)] day t} \<inter> ItemTemporary ` {t. temporary_in entries day t} = {}"
    using temporary_in_Cons [OF names(1)] by auto
  have compose: ?case
    if one: "om_ok f1" "\<And>sid. artifacts_of f1 sid = merge_artifacts [Inr (n, node)] day sid (artifacts_of finals sid)"
        "adds st s1 (ItemTemporary ` {t. temporary_in [Inr (n, node)] day t})"
      and rest: "om_ok finals' \<and> (\<forall>sid. artifacts_of finals' sid = merge_artifacts entries day sid (artifacts_of f1 sid))
          \<and> adds s1 st' (ItemTemporary ` {t. temporary_in entries day t})" for f1 s1
    using rest adds_trans [OF one(3) _ split(2)] one(2)
    by (simp add: merge_artifacts_Cons [OF names(1)] split(1))
  show ?case
  proof (cases "is_dot n")
    case True
    have "leafless n node day"
      using names_leaf_long parse_leaf_sound True unfolding leafless_def by blast
    then show ?thesis
      using 3(1) [OF True _ 3(4) names(2)] 3(3) True 3(4)
      by (intro compose [of finals st]) (simp_all add: leafless_nothing adds_none)
  next
    case False
    have lim: "usize_checked_add k 1 = Some (Suc k)" "\<not> Suc k > max_entries_per_day (ss_limits st)"
      using 3(3) False by (auto simp: usize_checked_add_def split: if_splits)
    obtain s0 where s0: "account (length n) st = Inr s0"
      using 3(3) False lim by (auto simp: and_then_Inr)
    obtain ft stat opened where node: "node = Found ft stat opened"
      using 3(3) False lim s0 by (cases node) (simp_all add: and_then_Inr)
    let ?step = "case ascii_name n of
        None \<Rightarrow> and_then (record_foreign sz (ParentDay day) n ft stat NonAsciiName s0) (\<lambda>st. Inr (finals, st))
      | Some name_string \<Rightarrow>
          if ft \<noteq> RegularFile
          then and_then (record_foreign sz (ParentDay day) n ft stat (foreign_type_reason ft) s0) (\<lambda>st. Inr (finals, st))
          else scan_leaf sz day name_string stat (finals, s0)"
    obtain f1 s1 where step: "?step = Inr (f1, s1)"
      and rest: "scan_day_entries sz day entries (Suc k) f1 s1 = Inr (finals', st')"
      using 3(3) False lim s0 node by (auto simp: and_then_Inr)
    have quiet: "scan_items s0 = scan_items st" by (rule account_Inr(1) [OF s0])
    have one: "om_ok f1 \<and> (\<forall>sid. artifacts_of f1 sid = merge_artifacts [Inr (n, node)] day sid (artifacts_of finals sid))
        \<and> adds s0 s1 (ItemTemporary ` {t. temporary_in [Inr (n, node)] day t})"
    proof (cases "ascii_name n = None \<or> ft \<noteq> RegularFile")
      case True
      then have "leafless n node day"
        using names_leaf_ascii parse_leaf_sound node by (fastforce simp: leafless_def)
      moreover have "f1 = finals \<and> scan_items s1 = scan_items s0"
        using step True by (auto simp: and_then_Inr dest: record_foreign_Inr(1) split: option.splits)
      ultimately show ?thesis using 3(4) by (simp add: leafless_nothing adds_none)
    next
      case False
      then have "scan_leaf sz day n stat (finals, s0) = Inr (f1, s1)" and "node = Found RegularFile stat opened"
        using step node by (auto simp: ascii_name_def split: if_splits)
      then show ?thesis using scan_leaf_effect 3(4) by blast
    qed
    have IH: "om_ok finals' \<and> (\<forall>sid. artifacts_of finals' sid = merge_artifacts entries day sid (artifacts_of f1 sid))
          \<and> adds s1 st' (ItemTemporary ` {t. temporary_in entries day t})"
      using 3(2) [OF False lim node rest _ names(2)] one by blast
    show ?thesis using compose [of f1 s1] one IH adds_quiet [OF _ quiet [symmetric]] by blast
  qed
qed

text \<open>The collected finals become segments and orphan sidecars.\<close>

definition final_items :: "utc_day \<Rightarrow> (int \<times> day_artifacts) list \<Rightarrow> scan_item list" where
  "final_items day finals = concat (map (\<lambda>(sid, a).
     case da_pgm a of
       Some f \<Rightarrow> [ItemSegment \<lparr>sg_address = \<lparr>sa_id = sid, sa_day = day\<rparr>, sg_pgm_identity = f,
                    sg_pgm_bytes = fi_len f, sg_ovf_bytes = da_ovf a\<rparr>]
     | None \<Rightarrow> if da_ovf a \<noteq> None then [ItemOrphan \<lparr>sa_id = sid, sa_day = day\<rparr>] else []) finals)"

lemma address_in_day_Inr: "address_in_day sid day = Inr a \<longleftrightarrow> addressed a day \<and> a = \<lparr>sa_id = sid, sa_day = day\<rparr>"
  by (cases a) (auto simp: address_in_day_def addressed_def split: sum.split)

lemma push_finals_effect:
  assumes "push_finals sz day finals st = Inr st'"
  shows "mset (scan_items st') = mset (scan_items st) + mset (final_items day finals)
    \<and> (\<forall>sid \<in> fst ` set finals. addressed \<lparr>sa_id = sid, sa_day = day\<rparr> day)"
  using assms
proof (induction sz day finals st rule: push_finals.induct)
  case (1 sz day st)
  then show ?case by (simp add: final_items_def)
next
  case (2 sz day sid a finals st)
  let ?addr = "\<lparr>sa_id = sid, sa_day = day\<rparr>"
  have addr: "address_in_day sid day = Inr ?addr" "addressed ?addr day"
    using 2(2) by (auto simp: and_then_Inr address_in_day_Inr)
  let ?step = "case da_pgm a of
          Some pgm_identity \<Rightarrow>
            and_then (account_segment sz st) (\<lambda>st.
              Inr (st\<lparr>ss_segments := ss_segments st @
                [\<lparr>sg_address = ?addr, sg_pgm_identity = pgm_identity, sg_pgm_bytes = fi_len pgm_identity,
                  sg_ovf_bytes = da_ovf a\<rparr>]\<rparr>))
        | None \<Rightarrow>
            if da_ovf a \<noteq> None
            then and_then (account_metadata (size_SegmentAddress sz) st) (\<lambda>st.
              Inr (st\<lparr>ss_orphan_overviews := ss_orphan_overviews st @ [?addr]\<rparr>))
            else Inr st"
  obtain s1 where step: "?step = Inr s1" and rest: "push_finals sz day finals s1 = Inr st'"
    using 2(2) addr(1) by (auto simp: and_then_Inr)
  have one: "mset (scan_items s1) = mset (scan_items st) + mset (final_items day [(sid, a)])"
  proof (cases "da_pgm a")
    case None
    then show ?thesis using step
      by (auto simp: and_then_Inr account_metadata_Inr scan_items_def final_items_def split: if_splits)
  next
    case (Some f)
    then show ?thesis using step
      by (auto simp: and_then_Inr account_segment_def account_metadata_Inr scan_items_def final_items_def split: if_splits)
  qed
  have "mset (scan_items st') = mset (scan_items s1) + mset (final_items day finals)
      \<and> (\<forall>sid \<in> fst ` set finals. addressed \<lparr>sa_id = sid, sa_day = day\<rparr> day)"
  proof (rule 2(1))
    show "push_finals sz day finals s1 = Inr st'" by (rule rest)
  qed
  moreover have "final_items day ((sid, a) # finals) = final_items day [(sid, a)] @ final_items day finals"
    by (simp add: final_items_def)
  ultimately show ?case using one addr(2) by simp
qed

lemma artifacts_of_entry: "om_ok m \<Longrightarrow> (k, v) \<in> set m \<Longrightarrow> artifacts_of m k = v"
  by (simp add: artifacts_of_def om_entries)

lemma artifacts_of_absent: "om_ok m \<Longrightarrow> k \<notin> fst ` set m \<Longrightarrow> artifacts_of m k = \<lparr>da_pgm = None, da_ovf = None\<rparr>"
  using om_entries [of m k] by (force simp: artifacts_of_def split: option.split)

lemma final_items_elements:
  assumes "om_ok finals"
  shows "distinct (final_items day finals)"
    and "set (final_items day finals) =
      {x. \<exists>sid f. da_pgm (artifacts_of finals sid) = Some f \<and> x = ItemSegment \<lparr>sg_address = \<lparr>sa_id = sid, sa_day = day\<rparr>,
         sg_pgm_identity = f, sg_pgm_bytes = fi_len f, sg_ovf_bytes = da_ovf (artifacts_of finals sid)\<rparr>}
      \<union> {x. \<exists>sid. da_pgm (artifacts_of finals sid) = None \<and> da_ovf (artifacts_of finals sid) \<noteq> None
          \<and> x = ItemOrphan \<lparr>sa_id = sid, sa_day = day\<rparr>}" (is "_ = ?R")
proof -
  have keys: "distinct (map fst finals)" using assms by (simp add: om_ok_def strict_sorted_iff)
  have ids: "\<exists>sid \<in> fst ` set finals. x = ItemOrphan \<lparr>sa_id = sid, sa_day = day\<rparr>
      \<or> (\<exists>s. x = ItemSegment s \<and> sa_id (sg_address s) = sid)" if "x \<in> set (final_items day finals)" for x finals
    using that by (force simp: final_items_def split: option.splits if_splits)
  show "distinct (final_items day finals)"
    using keys
  proof (induction finals)
    case (Cons p finals)
    obtain sid a where p: "p = (sid, a)" by (cases p)
    have "final_items day (p # finals) = final_items day [p] @ final_items day finals" by (simp add: final_items_def)
    moreover have "distinct (final_items day [p])" by (simp add: final_items_def p split: option.split)
    moreover have "set (final_items day [p]) \<inter> set (final_items day finals) = {}"
      using ids [of _ "[p]"] ids [of _ finals] Cons.prems p by fastforce
    ultimately show ?case using Cons by simp
  qed (simp add: final_items_def)
  show "set (final_items day finals) = ?R"
  proof (intro set_eqI iffI)
    fix x assume "x \<in> set (final_items day finals)"
    then obtain sid a where "(sid, a) \<in> set finals" "x \<in> set (final_items day [(sid, a)])"
      by (auto simp: final_items_def)
    then show "x \<in> ?R"
      using artifacts_of_entry [OF assms] by (auto simp: final_items_def split: option.splits if_splits)
  next
    fix x assume x: "x \<in> ?R"
    have "\<exists>sid. artifacts_of finals sid \<noteq> \<lparr>da_pgm = None, da_ovf = None\<rparr>
        \<and> x \<in> set (final_items day [(sid, artifacts_of finals sid)])"
      using x
    proof (elim UnE CollectE exE conjE)
      fix sid f
      assume "da_pgm (artifacts_of finals sid) = Some f"
        "x = ItemSegment \<lparr>sg_address = \<lparr>sa_id = sid, sa_day = day\<rparr>,
         sg_pgm_identity = f, sg_pgm_bytes = fi_len f, sg_ovf_bytes = da_ovf (artifacts_of finals sid)\<rparr>"
      then show ?thesis by (intro exI [of _ sid]) (auto simp: final_items_def)
    next
      fix sid
      assume "da_pgm (artifacts_of finals sid) = None" "da_ovf (artifacts_of finals sid) \<noteq> None"
        "x = ItemOrphan \<lparr>sa_id = sid, sa_day = day\<rparr>"
      then show ?thesis by (intro exI [of _ sid]) (auto simp: final_items_def)
    qed
    then obtain sid where sid: "artifacts_of finals sid \<noteq> \<lparr>da_pgm = None, da_ovf = None\<rparr>"
      and item: "x \<in> set (final_items day [(sid, artifacts_of finals sid)])"
      by blast
    have "sid \<in> fst ` set finals" using artifacts_of_absent [OF assms] sid by blast
    then have "(sid, artifacts_of finals sid) \<in> set finals" using artifacts_of_entry [OF assms] by auto
    moreover have "set (final_items day [p]) \<subseteq> set (final_items day finals)" if p: "p \<in> set finals" for p
    proof -
      obtain xs ys where "finals = xs @ p # ys" using p by (auto dest: split_list)
      then have "final_items day finals = final_items day xs @ final_items day [p] @ final_items day ys"
        by (simp add: final_items_def)
      then show ?thesis by auto
    qed
    ultimately show "x \<in> set (final_items day finals)" using item by blast
  qed
qed

lemma scan_day_effect:
  assumes "scan_day sz entries day st = Inr st'" and "distinct (listing_names entries)"
  shows "adds st st' (day_items entries day)"
proof -
  obtain finals s1 where e: "scan_day_entries sz day entries 0 [] st = Inr (finals, s1)"
    and p: "push_finals sz day finals s1 = Inr st'"
    using assms(1) by (auto simp: scan_day_def and_then_Inr)
  have ok: "om_ok finals"
    and art: "\<And>sid. artifacts_of finals sid = merge_artifacts entries day sid \<lparr>da_pgm = None, da_ovf = None\<rparr>"
    and temps: "adds st s1 (ItemTemporary ` {t. temporary_in entries day t})"
    using scan_day_entries_effect [OF e _ assms(2)] by (auto simp: om_ok_def artifacts_of_def om_get_def)
  have pgm: "da_pgm (artifacts_of finals sid) = Some f \<longleftrightarrow>
      addressed \<lparr>sa_id = sid, sa_day = day\<rparr> day \<and> regular_file entries (pgm_name \<lparr>sa_id = sid, sa_day = day\<rparr>) = Some f"
    and ovf: "da_ovf (artifacts_of finals sid) = (if addressed \<lparr>sa_id = sid, sa_day = day\<rparr> day
        then map_option fi_len (regular_file entries (ovf_name \<lparr>sa_id = sid, sa_day = day\<rparr>)) else None)" for sid f
    by (auto simp: art merge_artifacts_def Let_def split: option.splits)
  have seg: "segment_in entries day s \<longleftrightarrow>
      (\<exists>sid f. da_pgm (artifacts_of finals sid) = Some f \<and> s = \<lparr>sg_address = \<lparr>sa_id = sid, sa_day = day\<rparr>,
         sg_pgm_identity = f, sg_pgm_bytes = fi_len f, sg_ovf_bytes = da_ovf (artifacts_of finals sid)\<rparr>)" for s
  proof
    assume s: "segment_in entries day s"
    then have "sg_address s = \<lparr>sa_id = sa_id (sg_address s), sa_day = day\<rparr>"
      by (simp add: segment_in_def addressed_def)
    with s show "\<exists>sid f. da_pgm (artifacts_of finals sid) = Some f \<and> s = \<lparr>sg_address = \<lparr>sa_id = sid, sa_day = day\<rparr>,
         sg_pgm_identity = f, sg_pgm_bytes = fi_len f, sg_ovf_bytes = da_ovf (artifacts_of finals sid)\<rparr>"
      by (intro exI [of _ "sa_id (sg_address s)"] exI [of _ "sg_pgm_identity s"])
        (simp add: segment_in_def pgm ovf)
  qed (auto simp: segment_in_def pgm ovf)
  have orph: "orphan_in entries day a \<longleftrightarrow> (\<exists>sid. da_pgm (artifacts_of finals sid) = None
      \<and> da_ovf (artifacts_of finals sid) \<noteq> None \<and> a = \<lparr>sa_id = sid, sa_day = day\<rparr>)" for a
  proof
    assume a: "orphan_in entries day a"
    then have "a = \<lparr>sa_id = sa_id a, sa_day = day\<rparr>" by (simp add: orphan_in_def addressed_def)
    then show "\<exists>sid. da_pgm (artifacts_of finals sid) = None
        \<and> da_ovf (artifacts_of finals sid) \<noteq> None \<and> a = \<lparr>sa_id = sid, sa_day = day\<rparr>"
      using a pgm [of "sa_id a"] by (intro exI [of _ "sa_id a"]) (auto simp: orphan_in_def ovf)
  next
    assume "\<exists>sid. da_pgm (artifacts_of finals sid) = None
        \<and> da_ovf (artifacts_of finals sid) \<noteq> None \<and> a = \<lparr>sa_id = sid, sa_day = day\<rparr>"
    then obtain sid where "da_pgm (artifacts_of finals sid) = None" "da_ovf (artifacts_of finals sid) \<noteq> None"
      and a: "a = \<lparr>sa_id = sid, sa_day = day\<rparr>" by blast
    then show "orphan_in entries day a"
      using pgm [of sid] by (auto simp: orphan_in_def ovf split: if_splits)
  qed
  have set: "set (final_items day finals) = ItemSegment ` {s. segment_in entries day s} \<union> ItemOrphan ` {a. orphan_in entries day a}"
    unfolding final_items_elements(2) [OF ok] using seg orph by auto
  have "adds s1 st' (ItemSegment ` {s. segment_in entries day s} \<union> ItemOrphan ` {a. orphan_in entries day a})"
    using push_finals_effect [OF p] final_items_elements(1) [OF ok, of day] set unfolding adds_def by blast
  then have "adds st st' (ItemTemporary ` {t. temporary_in entries day t}
      \<union> (ItemSegment ` {s. segment_in entries day s} \<union> ItemOrphan ` {a. orphan_in entries day a}))"
    by (rule adds_trans [OF temps]) auto
  then show ?thesis by (simp add: day_items_def Un_commute Un_assoc)
qed

section \<open>The upper levels\<close>

fun listing_items ::
  "(string \<Rightarrow> entry_file_type \<Rightarrow> int + dir_listing \<Rightarrow> scan_item set) \<Rightarrow> dir_listing \<Rightarrow> scan_item set" where
  "listing_items C [] = {}"
| "listing_items C (Inl e # entries) = listing_items C entries"
| "listing_items C (Inr (n, node) # entries) =
     (case node of StatFails e \<Rightarrow> {} | Found ft stat opened \<Rightarrow> C n ft opened) \<union> listing_items C entries"

lemma listing_items_iff:
  assumes "distinct (listing_names entries)"
  shows "x \<in> listing_items C entries \<longleftrightarrow>
    (\<exists>n ft stat opened. entry_of entries n = Some (Found ft stat opened) \<and> x \<in> C n ft opened)"
proof -
  have "x \<in> listing_items C entries \<longleftrightarrow>
      (\<exists>n ft stat opened. Inr (n, Found ft stat opened) \<in> set entries \<and> x \<in> C n ft opened)"
    by (induction C entries rule: listing_items.induct) (auto split: node.splits)
  then show ?thesis by (simp add: entry_of_iff [OF assms])
qed

lemma listing_items_names:
  "x \<in> listing_items C entries \<Longrightarrow> \<exists>n ft opened. n \<in> set (listing_names entries) \<and> x \<in> C n ft opened"
proof (induction C entries rule: listing_items.induct)
  case (3 C n node entries)
  then show ?case by (cases node) (simp_all, blast+)
qed simp_all

lemma scan_listing_adds:
  assumes "scan_listing body sz parent entries st = Inr st'" and "distinct (listing_names entries)"
    and body: "\<And>n ft stat opened st st'. Inr (n, Found ft stat opened) \<in> set entries \<Longrightarrow>
        body n ft stat opened st = Inr st' \<Longrightarrow> adds st st' (C n ft opened)"
    and skip: "\<And>n ft opened. is_dot n \<or> ascii_name n = None \<Longrightarrow> C n ft opened = {}"
    and disj: "\<And>n ft opened n' ft' opened'. n \<noteq> n' \<Longrightarrow> C n ft opened \<inter> C n' ft' opened' = {}"
  shows "adds st st' (listing_items C entries)"
  using assms(1-3)
proof (induction body sz parent entries st rule: scan_listing.induct)
  case (1 body sz parent st)
  then show ?case by (simp add: adds_none)
next
  case (2 body sz parent e entries st)
  then show ?case by simp
next
  case (3 body sz parent n node entries st)
  have rest_body: "\<And>n ft stat opened st st'. Inr (n, Found ft stat opened) \<in> set entries \<Longrightarrow>
        body n ft stat opened st = Inr st' \<Longrightarrow> adds st st' (C n ft opened)"
    using 3(5) by (meson list.set_intros(2))
  have names: "n \<notin> set (listing_names entries)" "distinct (listing_names entries)" using 3(4) by simp_all
  show ?case
  proof (cases "is_dot n")
    case True
    have "adds st st' (listing_items C entries)"
      using 3(1) [OF True _ names(2) rest_body] 3(3) True by simp
    then show ?thesis using skip True by (auto split: node.split)
  next
    case False
    obtain s0 where s0: "account (length n) st = Inr s0" using 3(3) False by (auto simp: and_then_Inr)
    obtain ft stat opened where node: "node = Found ft stat opened"
      using 3(3) False s0 by (cases node) (simp_all add: and_then_Inr)
    let ?step = "case ascii_name n of None \<Rightarrow> record_foreign sz parent n ft stat NonAsciiName s0
        | Some name_string \<Rightarrow> body name_string ft stat opened s0"
    obtain s1 where step: "?step = Inr s1" and rest: "scan_listing body sz parent entries s1 = Inr st'"
      using 3(3) False s0 node by (auto simp: and_then_Inr)
    have one: "adds s0 s1 (C n ft opened)"
    proof (cases "ascii_name n")
      case None
      then show ?thesis using step record_foreign_Inr(1) skip by (auto intro!: adds_none)
    next
      case (Some name)
      then have "name = n" by (simp add: ascii_name_def split: if_splits)
      then have "body n ft stat opened s0 = Inr s1" using step Some by simp
      then show ?thesis by (rule 3(5) [rotated]) (simp add: node)
    qed
    have "C n ft opened \<inter> listing_items C entries = {}"
    proof (rule ccontr)
      assume "C n ft opened \<inter> listing_items C entries \<noteq> {}"
      then obtain x where x: "x \<in> C n ft opened" "x \<in> listing_items C entries" by auto
      obtain n' ft' opened' where n': "n' \<in> set (listing_names entries)" "x \<in> C n' ft' opened'"
        using listing_items_names [OF x(2)] by auto
      then have "n \<noteq> n'" using names(1) by auto
      then show False using disj [of n n' ft opened ft' opened'] x(1) n'(2) by auto
    qed
    moreover have "adds s1 st' (listing_items C entries)"
      by (rule 3(2) [OF False node rest names(2)]) (rule rest_body)
    ultimately have "adds s0 st' (C n ft opened \<union> listing_items C entries)"
      using adds_trans [OF one] by blast
    then show ?thesis using adds_quiet [OF _ account_Inr(1) [OF s0, symmetric]] node by simp
  qed
qed

text \<open>What each level contributes, by looking the names up.\<close>

definition day_contribution :: "utc_day \<Rightarrow> dir_listing \<Rightarrow> scan_item set" where
  "day_contribution day l = insert (ItemDay day) (day_items l day)"

definition month_items :: "dir_listing \<Rightarrow> int \<Rightarrow> int \<Rightarrow> scan_item set" where
  "month_items entries y m = {x. \<exists>day l. valid_day day \<and> ud_year day = y \<and> ud_month day = m
     \<and> dir_at entries (day_component day) = Some l \<and> x \<in> day_contribution day l}"

definition year_items :: "dir_listing \<Rightarrow> int \<Rightarrow> scan_item set" where
  "year_items entries y = {x. \<exists>m l. dir_at entries (padded 2 m) = Some l \<and> 1 \<le> m \<and> m \<le> 12 \<and> x \<in> month_items l y m}"

definition root_items :: "dir_listing \<Rightarrow> scan_item set" where
  "root_items entries = {x. \<exists>y l. dir_at entries (padded 4 y) = Some l \<and> 0 \<le> y \<and> y \<le> 9999 \<and> x \<in> year_items l y}"

lemma dir_at_iff: "dir_at entries n = Some l \<longleftrightarrow> (\<exists>stat. entry_of entries n = Some (Found Directory stat (Inr l)))"
  by (auto simp: dir_at_def split: option.splits node.splits sum.splits)

lemma contribution_day: "x \<in> day_contribution day l \<Longrightarrow> item_day x = day"
  by (auto simp: day_contribution_def day_items_day)

lemma month_items_day: "x \<in> month_items l y m \<Longrightarrow> ud_year (item_day x) = y \<and> ud_month (item_day x) = m"
  by (auto simp: month_items_def dest!: contribution_day)

lemma year_items_day: "x \<in> year_items l y \<Longrightarrow> ud_year (item_day x) = y"
  by (auto simp: year_items_def dest: month_items_day)

lemma padded_inject:
  "0 \<le> y \<Longrightarrow> y \<le> 9999 \<Longrightarrow> 0 \<le> y' \<Longrightarrow> y' \<le> 9999 \<Longrightarrow> padded 4 y = padded 4 y' \<Longrightarrow> y = y'"
  "1 \<le> m \<Longrightarrow> m \<le> 12 \<Longrightarrow> 1 \<le> m' \<Longrightarrow> m' \<le> 12 \<Longrightarrow> padded 2 m = padded 2 m' \<Longrightarrow> m = m'"
  using parse_year_iff [of "padded 4 y"] parse_month_iff [of "padded 2 m"] by (metis option.inject)+

lemma valid_day_range:
  "valid_day d \<Longrightarrow> 0 \<le> ud_year d \<and> ud_year d \<le> 9999 \<and> 1 \<le> ud_month d \<and> ud_month d \<le> 12 \<and> 1 \<le> ud_day d
     \<and> ud_day d \<le> days_in_month (ud_year d) (ud_month d)"
  by (auto simp: valid_day_def utc_day_new_def split: if_splits)

lemma digits_not_special: "all_digits n \<Longrightarrow> n \<noteq> [] \<Longrightarrow> \<not> is_dot n \<and> ascii_name n = Some n"
  using not_digit_signs(3) by (auto simp: is_dot_def ascii_name_def list_all_iff is_digit_def)

lemma padded_digits: "0 \<le> n \<Longrightarrow> all_digits (padded w n) \<and> padded w n \<noteq> []"
  using pad_digits [of w "nat n"] dec_digits_nonempty by (auto simp: pad_def padded_def Let_def)

text \<open>File names are unique in their directory, on each level the traversal enters.\<close>

definition all_subdirs :: "(dir_listing \<Rightarrow> bool) \<Rightarrow> dir_listing \<Rightarrow> bool" where
  "all_subdirs P entries = list_all (\<lambda>r. case r of
      Inr (n, Found ft stat (Inr l)) \<Rightarrow> ft = Directory \<longrightarrow> P l | _ \<Rightarrow> True) entries"

definition unique_names :: "dir_listing \<Rightarrow> bool" where
  "unique_names root \<longleftrightarrow>
     distinct (listing_names root) \<and> all_subdirs (\<lambda>ys. distinct (listing_names ys)
       \<and> all_subdirs (\<lambda>ms. distinct (listing_names ms) \<and> all_subdirs (\<lambda>ds. distinct (listing_names ds)) ms) ys) root"

lemma all_subdirsD: "all_subdirs P entries \<Longrightarrow> Inr (n, Found Directory stat (Inr l)) \<in> set entries \<Longrightarrow> P l"
  by (force simp: all_subdirs_def list_all_iff)

lemma open_directory_Inr: "open_directory_at n opened = Inr l \<longleftrightarrow> opened = Inr l"
  by (auto simp: open_directory_at_def split: sum.splits)

lemma scan_month_effect:
  assumes "scan_month sz entries y m st = Inr st'" and "distinct (listing_names entries)"
    and "all_subdirs (\<lambda>ds. distinct (listing_names ds)) entries" and "0 \<le> y"
  shows "adds st st' (month_items entries y m)"
proof -
  define C where "C n ft opened = {x. \<exists>day l. valid_day day \<and> ud_year day = y \<and> ud_month day = m
     \<and> n = day_component day \<and> ft = Directory \<and> opened = Inr l \<and> x \<in> day_contribution day l}"
    for n ft and opened :: "int + dir_listing"
  have "adds st st' (listing_items C entries)"
  proof (rule scan_listing_adds [OF assms(1) [unfolded scan_month_def] assms(2)])
    fix n ft stat opened st st'
    assume entry: "Inr (n, Found ft stat opened) \<in> set entries"
      and run: "scan_month_entry sz y m n ft stat opened st = Inr st'"
    show "adds st st' (C n ft opened)"
    proof (cases "parse_day y m n = None \<or> ft \<noteq> Directory")
      case True
      have "C n ft opened = {}"
      proof (cases "ft = Directory")
        case True
        then have none: "parse_day y m n = None" using \<open>parse_day y m n = None \<or> ft \<noteq> Directory\<close> by simp
        then show ?thesis
          using parse_day_iff [of y m n] valid_day_range
          by (force simp: C_def day_component_def)
      qed (simp add: C_def)
      moreover have "scan_items st' = scan_items st"
        using run True record_foreign_Inr(1) by (auto simp: scan_month_entry_def split: option.splits if_splits)
      ultimately show ?thesis by (simp add: adds_none)
    next
      case False
      then obtain d where d: "parse_day y m n = Some d" and ft: "ft = Directory" by auto
      obtain l day st1 where run': "opened = Inr l" "utc_day_new y m d = Inr day"
        "account_metadata (size_UtcDay sz) st = Inr st1"
        "scan_day sz l day (st1\<lparr>ss_days := ss_days st1 @ [day]\<rparr>) = Inr st'"
        using run d ft by (auto simp: scan_month_entry_def and_then_Inr open_directory_Inr)
      let ?st2 = "st1\<lparr>ss_days := ss_days st1 @ [day]\<rparr>"
      have day: "day = \<lparr>ud_year = y, ud_month = m, ud_day = d\<rparr>"
        using run'(2) by (simp add: utc_day_new_def split: if_splits)
      have valid: "valid_day day"
        using run'(2) d assms(4) by (simp add: valid_day_def day parse_day_iff)
      have n: "n = day_component day" using d by (simp add: parse_day_iff day day_component_def)
      have C: "C n ft opened = day_contribution day l"
      proof -
        have "day' = day" if "valid_day day'" "ud_year day' = y" "ud_month day' = m" "n = day_component day'" for day'
        proof -
          have "parse_day y m n = Some (ud_day day')"
            using that valid_day_range [OF that(1)] by (simp add: parse_day_iff day_component_def)
          then show ?thesis using d that day by simp
        qed
        then show ?thesis using valid n ft run'(1) by (auto simp: C_def day)
      qed
      have "adds st ?st2 {ItemDay day}"
        using run'(3) by (auto simp: adds_def account_metadata_Inr scan_items_def intro!: exI [of _ "[ItemDay day]"])
      moreover have "adds ?st2 st' (day_items l day)"
        using run'(4) all_subdirsD [OF assms(3)] entry ft run'(1) by (intro scan_day_effect) auto
      moreover have "{ItemDay day} \<inter> day_items l day = {}" by (auto simp: day_items_def)
      ultimately have "adds st st' ({ItemDay day} \<union> day_items l day)" by (rule adds_trans)
      then show ?thesis by (simp add: C day_contribution_def)
    qed
  next
    fix n ft and opened :: "int + dir_listing"
    assume n: "is_dot n \<or> ascii_name n = None"
    have "\<not> (valid_day day \<and> n = day_component day)" for day
      using n digits_not_special [of n] padded_digits [of "ud_day day" 2] valid_day_range [of day]
      by (auto simp: day_component_def)
    then show "C n ft opened = {}" by (auto simp: C_def)
  next
    fix n n' :: string and ft ft' and opened opened' :: "int + dir_listing"
    assume "n \<noteq> n'"
    then show "C n ft opened \<inter> C n' ft' opened' = {}" by (auto simp: C_def dest!: contribution_day)
  qed
  moreover have "listing_items C entries = month_items entries y m"
    using assms(2) by (auto simp: listing_items_iff C_def month_items_def dir_at_iff) blast+
  ultimately show ?thesis by simp
qed

lemma scan_year_effect:
  assumes "scan_year sz entries y st = Inr st'" and "distinct (listing_names entries)"
    and subs: "all_subdirs (\<lambda>ms. distinct (listing_names ms) \<and> all_subdirs (\<lambda>ds. distinct (listing_names ds)) ms) entries"
    and "0 \<le> y"
  shows "adds st st' (year_items entries y)"
proof -
  define C where "C n ft opened = {x. \<exists>m l. 1 \<le> m \<and> m \<le> 12 \<and> n = padded 2 m \<and> ft = Directory
     \<and> opened = Inr l \<and> x \<in> month_items l y m}"
    for n ft and opened :: "int + dir_listing"
  have "adds st st' (listing_items C entries)"
  proof (rule scan_listing_adds [OF assms(1) [unfolded scan_year_def] assms(2)])
    fix n ft stat opened st st'
    assume entry: "Inr (n, Found ft stat opened) \<in> set entries"
      and run: "scan_year_entry sz y n ft stat opened st = Inr st'"
    show "adds st st' (C n ft opened)"
    proof (cases "parse_month n = None \<or> ft \<noteq> Directory")
      case True
      have "C n ft opened = {}"
        using True parse_month_iff [of n] by (auto simp: C_def) blast
      moreover have "scan_items st' = scan_items st"
        using run True record_foreign_Inr(1) by (auto simp: scan_year_entry_def split: option.splits if_splits)
      ultimately show ?thesis by (simp add: adds_none)
    next
      case False
      then obtain m where m: "parse_month n = Some m" and ft: "ft = Directory" by auto
      obtain l where run': "opened = Inr l" "scan_month sz l y m st = Inr st'"
        using run m ft by (auto simp: scan_year_entry_def and_then_Inr open_directory_Inr)
      have "m' = m" if "1 \<le> m'" "m' \<le> 12" "n = padded 2 m'" for m'
        using that m padded_inject(2) by (auto simp: parse_month_iff)
      then have C: "C n ft opened = month_items l y m"
        using m ft run'(1) by (auto simp: C_def parse_month_iff)
      show ?thesis
        unfolding C using run'(2) all_subdirsD [OF subs] entry ft run'(1) assms(4)
        by (intro scan_month_effect) auto
    qed
  next
    fix n ft and opened :: "int + dir_listing"
    assume n: "is_dot n \<or> ascii_name n = None"
    have "\<not> (1 \<le> m \<and> n = padded 2 m)" for m
      using n digits_not_special [of n] padded_digits [of m 2] by auto
    then show "C n ft opened = {}" by (auto simp: C_def)
  next
    fix n n' :: string and ft ft' and opened opened' :: "int + dir_listing"
    assume "n \<noteq> n'"
    then show "C n ft opened \<inter> C n' ft' opened' = {}" by (auto simp: C_def dest!: month_items_day)
  qed
  moreover have "listing_items C entries = year_items entries y"
    using assms(2) by (auto simp: listing_items_iff C_def year_items_def dir_at_iff) blast+
  ultimately show ?thesis by simp
qed

text \<open>A year name is none of the reserved root names.\<close>

lemma year_name_plain:
  assumes "parse_year n = Some y"
  shows "n \<noteq> QUARANTINE_DIRECTORY_NAME" and "parse_pending_root_name n = None" and "\<not> is_control_name n"
    and "root_extension n = None"
proof -
  have n: "length n = 4" "all_digits n" using assms by (auto simp: parse_year_def split: if_splits)
  then have dot: "CHR ''.'' \<notin> set n" using not_digit_signs(3) by (auto simp: list_all_iff)
  then show "n \<noteq> QUARANTINE_DIRECTORY_NAME" by (auto simp: QUARANTINE_DIRECTORY_NAME_def)
  show "parse_pending_root_name n = None"
    using dot by (auto simp: parse_pending_root_name_def bounded_root_name_iff ROOT_EVIDENCE_PREFIX_def
        ROOT_GENERATION_PREFIX_def split: if_splits)
  show "\<not> is_control_name n"
    using dot by (auto simp: is_control_name_def ACTIVE_JOURNAL_NAME_def WRITER_OWNER_LOCK_NAME_def
        OVERVIEW_OWNER_LOCK_NAME_def PRODUCER_STATUS_NAME_def PRODUCER_STATUS_TEMP_NAME_def)
  show "root_extension n = None" using dot by (simp add: root_extension_def)
qed

lemma scan_items_quarantine: "scan_items (st\<lparr>ss_quarantine_directory := q\<rparr>) = scan_items st"
  by (simp add: scan_items_def)

lemma scan_root_effect:
  assumes "scan_listing (scan_root_entry sz) sz ParentRoot root st = Inr st'" and "unique_names root"
  shows "adds st st' (root_items root)"
proof -
  define C where "C n ft opened = {x. \<exists>y l. 0 \<le> y \<and> y \<le> 9999 \<and> n = padded 4 y \<and> ft = Directory
     \<and> opened = Inr l \<and> x \<in> year_items l y}"
    for n ft and opened :: "int + dir_listing"
  have names: "distinct (listing_names root)" and
    subs: "all_subdirs (\<lambda>ys. distinct (listing_names ys) \<and> all_subdirs (\<lambda>ms. distinct (listing_names ms)
      \<and> all_subdirs (\<lambda>ds. distinct (listing_names ds)) ms) ys) root"
    using assms(2) by (auto simp: unique_names_def)
  have "adds st st' (listing_items C root)"
  proof (rule scan_listing_adds [OF assms(1) names])
    fix n ft stat opened st st'
    assume entry: "Inr (n, Found ft stat opened) \<in> set root"
      and run: "scan_root_entry sz n ft stat opened st = Inr st'"
    show "adds st st' (C n ft opened)"
    proof (cases "parse_year n = None \<or> ft \<noteq> Directory")
      case True
      have "C n ft opened = {}"
        using True parse_year_iff [of n] by (auto simp: C_def) blast
      moreover have "scan_items st' = scan_items st"
        using run True year_name_plain [of n]
        by (auto simp: scan_root_entry_def Let_def scan_items_quarantine
            dest: record_foreign_Inr(1) record_pending_root_Inr(1) split: option.splits if_splits)
      ultimately show ?thesis by (simp add: adds_none)
    next
      case False
      then obtain y where y: "parse_year n = Some y" and ft: "ft = Directory" by auto
      obtain l where run': "opened = Inr l" "scan_year sz l y st = Inr st'"
        using run y ft year_name_plain [OF y] by (auto simp: scan_root_entry_def and_then_Inr open_directory_Inr)
      have range: "0 \<le> y" "y \<le> 9999" "n = padded 4 y" using y by (auto simp: parse_year_iff)
      have "y' = y" if "0 \<le> y'" "y' \<le> 9999" "n = padded 4 y'" for y'
        using that range padded_inject(1) by auto
      then have C: "C n ft opened = year_items l y"
        using range ft run'(1) by (auto simp: C_def)
      show ?thesis
        unfolding C using run'(2) all_subdirsD [OF subs] entry ft run'(1) range(1)
        by (intro scan_year_effect) auto
    qed
  next
    fix n ft and opened :: "int + dir_listing"
    assume n: "is_dot n \<or> ascii_name n = None"
    have "\<not> (0 \<le> y \<and> n = padded 4 y)" for y
      using n digits_not_special [of n] padded_digits [of y 4] by auto
    then show "C n ft opened = {}" by (auto simp: C_def)
  next
    fix n n' :: string and ft ft' and opened opened' :: "int + dir_listing"
    assume "n \<noteq> n'"
    then show "C n ft opened \<inter> C n' ft' opened' = {}" by (auto simp: C_def dest!: year_items_day)
  qed
  moreover have "listing_items C root = root_items root"
    using names by (auto simp: listing_items_iff C_def root_items_def dir_at_iff) blast+
  ultimately show ?thesis by simp
qed

lemma root_items_day_dir:
  "x \<in> root_items root \<longleftrightarrow> (\<exists>l. day_dir root (item_day x) = Some l \<and> x \<in> day_contribution (item_day x) l)"
proof
  assume "x \<in> root_items root"
  then obtain y ys m ms day l where "dir_at root (padded 4 y) = Some ys" "dir_at ys (padded 2 m) = Some ms"
    "valid_day day" "ud_year day = y" "ud_month day = m" "dir_at ms (day_component day) = Some l"
    and x: "x \<in> day_contribution day l"
    by (auto simp: root_items_def year_items_def month_items_def)
  moreover have "item_day x = day" by (rule contribution_day [OF x])
  ultimately show "\<exists>l. day_dir root (item_day x) = Some l \<and> x \<in> day_contribution (item_day x) l"
    by (auto simp: day_dir_def year_component_def month_component_def)
next
  assume "\<exists>l. day_dir root (item_day x) = Some l \<and> x \<in> day_contribution (item_day x) l"
  then show "x \<in> root_items root"
    using valid_day_range [of "item_day x"]
    by (fastforce simp: day_dir_def root_items_def year_items_def month_items_def year_component_def month_component_def
        split: if_splits bind_splits)
qed

section \<open>Limits and errors\<close>

text \<open>A step that keeps the counters within the limits.\<close>

definition within :: "scan_state \<Rightarrow> bool" where
  "within st \<longleftrightarrow> ss_visited_entries st \<le> max_visited_entries (ss_limits st)
     \<and> ss_metadata_bytes st \<le> max_metadata_bytes (ss_limits st) \<and> length (ss_segments st) \<le> max_segments (ss_limits st)"

definition keeps :: "scan_state \<Rightarrow> scan_state \<Rightarrow> bool" where
  "keeps st st' \<longleftrightarrow> (within st \<longrightarrow> within st') \<and> ss_limits st' = ss_limits st"

lemma keeps_refl: "keeps st st"
  by (simp add: keeps_def)

lemma keeps_trans: "keeps st st' \<Longrightarrow> keeps st' st'' \<Longrightarrow> keeps st st''"
  by (auto simp: keeps_def)

lemma keeps_account: "account n st = Inr st' \<Longrightarrow> keeps st st'"
  using account_Inr [of n st st'] by (simp add: keeps_def within_def)

lemma keeps_metadata: "account_metadata n st = Inr st' \<Longrightarrow> keeps st st'"
  by (auto simp: keeps_def within_def account_metadata_Inr)

lemma keeps_foreign: "record_foreign sz parent n ft stat reason st = Inr st' \<Longrightarrow> keeps st st'"
  using record_foreign_Inr [of sz parent n ft stat reason st st'] by (simp add: keeps_def within_def)

lemma keeps_pending: "record_pending_root sz kind n ft stat st = Inr st' \<Longrightarrow> keeps st st'"
  using record_pending_root_Inr [of sz kind n ft stat st st'] by (simp add: keeps_def within_def)

lemma keeps_leaf: "scan_leaf sz day n stat (finals, st) = Inr (finals', st') \<Longrightarrow> keeps st st'"
  by (auto simp: scan_leaf_def and_then_Inr keeps_foreign keeps_refl account_metadata_Inr keeps_def within_def
      split: sum.splits parsed_leaf.splits dest!: keeps_foreign)

lemma keeps_day_entries:
  "scan_day_entries sz day entries k finals st = Inr (finals', st') \<Longrightarrow> keeps st st'"
proof (induction sz day entries k finals st rule: scan_day_entries.induct)
  case (3 sz day n node entries k finals st)
  show ?case
  proof (cases "is_dot n")
    case True
    then show ?thesis using 3 by simp
  next
    case False
    have lim: "usize_checked_add k 1 = Some (Suc k)" "\<not> Suc k > max_entries_per_day (ss_limits st)"
      using 3(3) False by (auto simp: usize_checked_add_def split: if_splits)
    obtain s0 where s0: "account (length n) st = Inr s0"
      using 3(3) False lim by (auto simp: and_then_Inr)
    obtain ft stat opened where node: "node = Found ft stat opened"
      using 3(3) False lim s0 by (cases node) (simp_all add: and_then_Inr)
    let ?step = "case ascii_name n of
        None \<Rightarrow> and_then (record_foreign sz (ParentDay day) n ft stat NonAsciiName s0) (\<lambda>st. Inr (finals, st))
      | Some name_string \<Rightarrow>
          if ft \<noteq> RegularFile
          then and_then (record_foreign sz (ParentDay day) n ft stat (foreign_type_reason ft) s0) (\<lambda>st. Inr (finals, st))
          else scan_leaf sz day name_string stat (finals, s0)"
    obtain f1 s1 where step: "?step = Inr (f1, s1)"
      and rest: "scan_day_entries sz day entries (Suc k) f1 s1 = Inr (finals', st')"
      using 3(3) False lim s0 node by (auto simp: and_then_Inr)
    have "keeps s0 s1"
      using step by (auto simp: and_then_Inr dest: keeps_foreign keeps_leaf split: option.splits if_splits)
    then show ?thesis
      using 3(2) [OF False lim node rest] keeps_account [OF s0] keeps_trans by blast
  qed
qed (simp_all add: keeps_refl)

lemma keeps_finals: "push_finals sz day finals st = Inr st' \<Longrightarrow> keeps st st'"
proof (induction sz day finals st rule: push_finals.induct)
  case (2 sz day sid a finals st)
  obtain address s1 where
    step: "(case da_pgm a of
          Some pgm_identity \<Rightarrow>
            and_then (account_segment sz st) (\<lambda>st.
              Inr (st\<lparr>ss_segments := ss_segments st @
                [\<lparr>sg_address = address, sg_pgm_identity = pgm_identity, sg_pgm_bytes = fi_len pgm_identity,
                  sg_ovf_bytes = da_ovf a\<rparr>]\<rparr>))
        | None \<Rightarrow>
            if da_ovf a \<noteq> None
            then and_then (account_metadata (size_SegmentAddress sz) st) (\<lambda>st.
              Inr (st\<lparr>ss_orphan_overviews := ss_orphan_overviews st @ [address]\<rparr>))
            else Inr st) = Inr s1"
    and rest: "push_finals sz day finals s1 = Inr st'"
    using 2(2) by (auto simp: and_then_Inr)
  have "keeps st s1"
  proof (cases "da_pgm a")
    case None
    then show ?thesis using step
      by (auto simp: and_then_Inr account_metadata_Inr keeps_def within_def split: if_splits)
  next
    case (Some f)
    then show ?thesis using step
      by (auto simp: and_then_Inr account_segment_def account_metadata_Inr keeps_def within_def split: if_splits)
  qed
  moreover have "keeps s1 st'" by (rule 2(1) [OF rest])
  ultimately show ?case by (rule keeps_trans)
qed (simp add: keeps_refl)

lemma keeps_day: "scan_day sz entries day st = Inr st' \<Longrightarrow> keeps st st'"
  by (auto simp: scan_day_def and_then_Inr intro: keeps_trans dest: keeps_day_entries keeps_finals)

lemma keeps_listing:
  assumes "scan_listing body sz parent entries st = Inr st'"
    and "\<And>n ft stat opened st st'. body n ft stat opened st = Inr st' \<Longrightarrow> keeps st st'"
  shows "keeps st st'"
  using assms
proof (induction body sz parent entries st rule: scan_listing.induct)
  case (3 body sz parent n node entries st)
  show ?case
  proof (cases "is_dot n")
    case True
    then show ?thesis using 3 by simp
  next
    case False
    obtain s0 where s0: "account (length n) st = Inr s0" using 3(3) False by (auto simp: and_then_Inr)
    obtain ft stat opened where node: "node = Found ft stat opened"
      using 3(3) False s0 by (cases node) (simp_all add: and_then_Inr)
    let ?step = "case ascii_name n of None \<Rightarrow> record_foreign sz parent n ft stat NonAsciiName s0
        | Some name_string \<Rightarrow> body name_string ft stat opened s0"
    obtain s1 where step: "?step = Inr s1" and rest: "scan_listing body sz parent entries s1 = Inr st'"
      using 3(3) False s0 node by (auto simp: and_then_Inr)
    have "keeps s0 s1" using step 3(4) by (auto dest: keeps_foreign split: option.splits)
    moreover have "keeps s1 st'" by (rule 3(2) [OF False node rest]) (rule 3(4))
    ultimately show ?thesis using keeps_account [OF s0] keeps_trans by blast
  qed
qed (simp_all add: keeps_refl)

lemma keeps_month: "scan_month sz entries y m st = Inr st' \<Longrightarrow> keeps st st'"
  unfolding scan_month_def
proof (erule keeps_listing)
  fix n ft stat opened st st'
  assume "scan_month_entry sz y m n ft stat opened st = Inr st'"
  moreover have "keeps s (s\<lparr>ss_days := ds\<rparr>)" for s ds by (simp add: keeps_def within_def)
  ultimately show "keeps st st'"
    by (auto simp: scan_month_entry_def and_then_Inr dest!: keeps_foreign keeps_metadata keeps_day
        split: option.splits if_splits) (metis keeps_trans)
qed

lemma keeps_year: "scan_year sz entries y st = Inr st' \<Longrightarrow> keeps st st'"
  unfolding scan_year_def
  by (erule keeps_listing)
    (auto simp: scan_year_entry_def and_then_Inr dest: keeps_foreign keeps_month split: option.splits if_splits)

lemma keeps_root: "scan_listing (scan_root_entry sz) sz ParentRoot root st = Inr st' \<Longrightarrow> keeps st st'"
proof (erule keeps_listing)
  fix n ft stat opened st st'
  assume "scan_root_entry sz n ft stat opened st = Inr st'"
  moreover have "keeps s (s\<lparr>ss_quarantine_directory := q\<rparr>)" for s q by (simp add: keeps_def within_def)
  ultimately show "keeps st st'"
    by (auto simp: scan_root_entry_def Let_def and_then_Inr keeps_refl dest!: keeps_foreign keeps_pending keeps_year
        intro: keeps_trans split: option.splits if_splits)
qed

text \<open>Where the operating system reports no failure on the calendar path, only a limit can stop a scan.\<close>

definition no_failures :: "dir_listing \<Rightarrow> bool" where
  "no_failures entries = list_all (\<lambda>r. case r of Inr (n, Found ft stat opened) \<Rightarrow> True | _ \<Rightarrow> False) entries"

definition readable :: "(string \<Rightarrow> bool) \<Rightarrow> (string \<Rightarrow> dir_listing \<Rightarrow> bool) \<Rightarrow> dir_listing \<Rightarrow> bool" where
  "readable calendar P entries = list_all (\<lambda>r. case r of
      Inr (n, Found ft stat opened) \<Rightarrow>
        calendar n \<and> ft = Directory \<longrightarrow> (case opened of Inl e \<Rightarrow> False | Inr l \<Rightarrow> P n l)
    | _ \<Rightarrow> False) entries"

definition readable_tree :: "dir_listing \<Rightarrow> bool" where
  "readable_tree root =
     readable (\<lambda>n. parse_year n \<noteq> None) (\<lambda>yn. readable (\<lambda>n. parse_month n \<noteq> None) (\<lambda>mn.
       readable (\<lambda>n. parse_day (the (parse_year yn)) (the (parse_month mn)) n \<noteq> None) (\<lambda>dn. no_failures))) root"

definition limit_error :: "layout_error \<Rightarrow> bool" where
  "limit_error e \<longleftrightarrow> (\<exists>kind limit. e = TraversalLimitExceeded kind limit)"

lemma limit_error_intro [simp]: "limit_error (TraversalLimitExceeded kind limit)"
  by (simp add: limit_error_def)

lemma metadata_error: "account_metadata n st = Inl e \<Longrightarrow> limit_error e"
  by (auto simp: account_metadata_def split: option.splits if_splits)

lemma account_error: "account n st = Inl e \<Longrightarrow> limit_error e"
  by (auto simp: account_def metadata_error split: option.splits if_splits)

lemma foreign_error: "record_foreign sz parent n ft stat reason st = Inl e \<Longrightarrow> limit_error e"
  by (auto simp: record_foreign_def and_then_Inl metadata_error)

lemma pending_error: "record_pending_root sz kind n ft stat st = Inl e \<Longrightarrow> limit_error e"
  by (auto simp: record_pending_root_def and_then_Inl metadata_error)

lemma leaf_error: "scan_leaf sz day n stat fst_st = Inl e \<Longrightarrow> limit_error e"
  by (auto simp: scan_leaf_def and_then_Inl foreign_error metadata_error split: sum.splits parsed_leaf.splits prod.splits)

lemma readable_Cons:
  "readable calendar P (r # entries) \<longleftrightarrow>
     (\<exists>n ft stat opened. r = Inr (n, Found ft stat opened)
        \<and> (calendar n \<and> ft = Directory \<longrightarrow> (\<exists>l. opened = Inr l \<and> P n l)))
     \<and> readable calendar P entries"
  by (auto simp: readable_def split: sum.splits prod.splits node.splits) (metis sum.exhaust)+

lemma no_failures_Cons:
  "no_failures (r # entries) \<longleftrightarrow> (\<exists>n ft stat opened. r = Inr (n, Found ft stat opened)) \<and> no_failures entries"
  by (auto simp: no_failures_def split: sum.splits prod.splits node.splits)

lemma day_entries_error:
  "scan_day_entries sz day entries k finals st = Inl e \<Longrightarrow> no_failures entries \<Longrightarrow> limit_error e"
proof (induction sz day entries k finals st rule: scan_day_entries.induct)
  case (3 sz day n node entries k finals st)
  obtain ft stat opened where node: "node = Found ft stat opened" and ok: "no_failures entries"
    using 3(4) by (auto simp: no_failures_Cons)
  show ?case
  proof (cases "is_dot n \<or> usize_checked_add k 1 = None \<or> Suc k > max_entries_per_day (ss_limits st)")
    case True
    then show ?thesis using 3(1) 3(3) ok
      by (auto simp: usize_checked_add_def split: if_splits)
  next
    case False
    then have dot: "\<not> is_dot n" and lim: "usize_checked_add k 1 = Some (Suc k)" "\<not> Suc k > max_entries_per_day (ss_limits st)"
      by (auto simp: usize_checked_add_def split: if_splits)
    let ?step = "\<lambda>s0. case ascii_name n of
        None \<Rightarrow> and_then (record_foreign sz (ParentDay day) n ft stat NonAsciiName s0) (\<lambda>st. Inr (finals, st))
      | Some name_string \<Rightarrow>
          if ft \<noteq> RegularFile
          then and_then (record_foreign sz (ParentDay day) n ft stat (foreign_type_reason ft) s0) (\<lambda>st. Inr (finals, st))
          else scan_leaf sz day name_string stat (finals, s0)"
    consider "account (length n) st = Inl e" | s0 where "?step s0 = Inl e"
      | f1 s1 where "scan_day_entries sz day entries (Suc k) f1 s1 = Inl e"
      using 3(3) dot lim node by (auto simp: and_then_Inl)
    then show ?thesis
    proof cases
      case 1
      then show ?thesis by (rule account_error)
    next
      case 2
      then show ?thesis
        by (auto simp: and_then_Inl foreign_error leaf_error split: option.splits if_splits)
    next
      case more: 3
      show ?thesis by (rule 3(2) [OF dot lim node more ok])
    qed
  qed
qed (simp_all add: no_failures_Cons)

lemma finals_error:
  assumes "push_finals sz day finals st = Inl e"
    and "\<And>sid. sid \<in> fst ` set finals \<Longrightarrow> addressed \<lparr>sa_id = sid, sa_day = day\<rparr> day"
  shows "limit_error e"
  using assms
proof (induction sz day finals st rule: push_finals.induct)
  case (2 sz day sid a finals st)
  have "address_in_day sid day = Inr \<lparr>sa_id = sid, sa_day = day\<rparr>"
    using 2(3) by (simp add: address_in_day_Inr)
  then consider "(case da_pgm a of
          Some pgm_identity \<Rightarrow>
            and_then (account_segment sz st) (\<lambda>st.
              Inr (st\<lparr>ss_segments := ss_segments st @
                [\<lparr>sg_address = \<lparr>sa_id = sid, sa_day = day\<rparr>, sg_pgm_identity = pgm_identity, sg_pgm_bytes = fi_len pgm_identity,
                  sg_ovf_bytes = da_ovf a\<rparr>]\<rparr>))
        | None \<Rightarrow>
            if da_ovf a \<noteq> None
            then and_then (account_metadata (size_SegmentAddress sz) st) (\<lambda>st.
              Inr (st\<lparr>ss_orphan_overviews := ss_orphan_overviews st @ [\<lparr>sa_id = sid, sa_day = day\<rparr>]\<rparr>))
            else Inr st) = Inl e"
    | s1 where "push_finals sz day finals s1 = Inl e"
    using 2(2) by (auto simp: and_then_Inl)
  then show ?case
  proof cases
    case 1
    then show ?thesis
      by (auto simp: and_then_Inl account_segment_def metadata_error split: option.splits if_splits)
  next
    case more: 2
    show ?thesis by (rule 2(1) [OF more]) (use 2(3) in simp)
  qed
qed simp

lemma finals_addressed:
  assumes "scan_day_entries sz day entries k finals st = Inr (finals', st')"
    and "\<And>sid. sid \<in> fst ` set finals \<Longrightarrow> addressed \<lparr>sa_id = sid, sa_day = day\<rparr> day"
    and "sid \<in> fst ` set finals'"
  shows "addressed \<lparr>sa_id = sid, sa_day = day\<rparr> day"
  using assms
proof (induction sz day entries k finals st rule: scan_day_entries.induct)
  case (3 sz day n node entries k finals st)
  show ?case
  proof (cases "is_dot n")
    case True
    then show ?thesis using 3 by simp
  next
    case False
    have lim: "usize_checked_add k 1 = Some (Suc k)" "\<not> Suc k > max_entries_per_day (ss_limits st)"
      using 3(3) False by (auto simp: usize_checked_add_def split: if_splits)
    obtain s0 where s0: "account (length n) st = Inr s0"
      using 3(3) False lim by (auto simp: and_then_Inr)
    obtain ft stat opened where node: "node = Found ft stat opened"
      using 3(3) False lim s0 by (cases node) (simp_all add: and_then_Inr)
    let ?step = "case ascii_name n of
        None \<Rightarrow> and_then (record_foreign sz (ParentDay day) n ft stat NonAsciiName s0) (\<lambda>st. Inr (finals, st))
      | Some name_string \<Rightarrow>
          if ft \<noteq> RegularFile
          then and_then (record_foreign sz (ParentDay day) n ft stat (foreign_type_reason ft) s0) (\<lambda>st. Inr (finals, st))
          else scan_leaf sz day name_string stat (finals, s0)"
    obtain f1 s1 where step: "?step = Inr (f1, s1)"
      and rest: "scan_day_entries sz day entries (Suc k) f1 s1 = Inr (finals', st')"
      using 3(3) False lim s0 node by (auto simp: and_then_Inr)
    have leaf: "addressed \<lparr>sa_id = x, sa_day = day\<rparr> day"
      if "scan_leaf sz day m stat (finals, s0) = Inr (f1, s1)" "x \<in> fst ` set f1" for m x
    proof -
      have "x \<in> fst ` set finals \<or> (\<exists>a. x = sa_id a \<and> (parse_leaf m day = Inr (LeafPgm a) \<or> parse_leaf m day = Inr (LeafOvf a)))"
      proof (cases "parse_leaf m day")
        case (Inl e)
        then show ?thesis using that by (auto simp: scan_leaf_def and_then_Inr)
      next
        case (Inr l)
        show ?thesis
        proof (cases l)
          case (LeafPgm a)
          then have "f1 = om_insert (sa_id a) ((artifacts_of finals (sa_id a))\<lparr>da_pgm := Some stat\<rparr>) finals"
            using that(1) Inr by (simp add: scan_leaf_def)
          then have "x \<in> insert (sa_id a) (fst ` set finals)" using that(2) by (simp only: om_insert_keys)
          then show ?thesis using Inr LeafPgm by blast
        next
          case (LeafOvf a)
          then have "f1 = om_insert (sa_id a) ((artifacts_of finals (sa_id a))\<lparr>da_ovf := Some (fi_len stat)\<rparr>) finals"
            using that(1) Inr by (simp add: scan_leaf_def)
          then have "x \<in> insert (sa_id a) (fst ` set finals)" using that(2) by (simp only: om_insert_keys)
          then show ?thesis using Inr LeafOvf by blast
        next
          case (LeafTemporary a k)
          then show ?thesis using that Inr by (auto simp: scan_leaf_def and_then_Inr)
        qed
      qed
      moreover have "addressed \<lparr>sa_id = sa_id a, sa_day = day\<rparr> day"
        if "parse_leaf m day = Inr (LeafPgm a) \<or> parse_leaf m day = Inr (LeafOvf a)" for a
      proof -
        have "addressed a day" using that parse_leaf_sound by (auto simp: leaf_address_def dest!: parse_leaf_sound)
        then show ?thesis by (simp add: addressed_def)
      qed
      ultimately show ?thesis using 3(4) by blast
    qed
    have "addressed \<lparr>sa_id = x, sa_day = day\<rparr> day" if "x \<in> fst ` set f1" for x
      using step that 3(4) leaf by (auto simp: and_then_Inr split: option.splits if_splits)
    then show ?thesis using 3(2) [OF False lim node rest _ 3(5)] by blast
  qed
qed auto

lemma day_error:
  assumes "scan_day sz entries day st = Inl e" and "no_failures entries"
  shows "limit_error e"
proof -
  consider "scan_day_entries sz day entries 0 [] st = Inl e"
    | finals s1 where "scan_day_entries sz day entries 0 [] st = Inr (finals, s1)" "push_finals sz day finals s1 = Inl e"
    using assms(1) by (auto simp: scan_day_def and_then_Inl)
  then show ?thesis
  proof cases
    case 1
    then show ?thesis using day_entries_error assms(2) by blast
  next
    case 2
    show ?thesis by (rule finals_error [OF 2(2)]) (use finals_addressed [OF 2(1)] in auto)
  qed
qed

lemma listing_error:
  assumes "scan_listing body sz parent entries st = Inl e" and "readable calendar P entries"
    and "\<And>n ft stat opened st e. body n ft stat opened st = Inl e \<Longrightarrow>
      (calendar n \<and> ft = Directory \<longrightarrow> (\<exists>l. opened = Inr l \<and> P n l)) \<Longrightarrow> limit_error e"
  shows "limit_error e"
  using assms
proof (induction body sz parent entries st rule: scan_listing.induct)
  case (3 body sz parent n node entries st)
  obtain ft stat opened where node: "node = Found ft stat opened" and ok: "readable calendar P entries"
    and here: "calendar n \<and> ft = Directory \<longrightarrow> (\<exists>l. opened = Inr l \<and> P n l)"
    using 3(4) by (auto simp: readable_Cons)
  show ?case
  proof (cases "is_dot n")
    case True
    then have "scan_listing body sz parent entries st = Inl e" using 3(3) by simp
    then show ?thesis by (rule 3(1) [OF True _ ok]) (rule 3(5))
  next
    case False
    consider "account (length n) st = Inl e"
      | s0 where "(case ascii_name n of None \<Rightarrow> record_foreign sz parent n ft stat NonAsciiName s0
        | Some name_string \<Rightarrow> body name_string ft stat opened s0) = Inl e"
      | s1 where "scan_listing body sz parent entries s1 = Inl e"
      using 3(3) False node by (auto simp: and_then_Inl)
    then show ?thesis
    proof cases
      case 1
      then show ?thesis by (rule account_error)
    next
      case 2
      then show ?thesis using 3(5) [of n ft stat opened s0 e] here
        by (auto simp: foreign_error ascii_name_def split: option.splits if_splits)
    next
      case more: 3
      show ?thesis by (rule 3(2) [OF False node more ok]) (rule 3(5))
    qed
  qed
qed (simp_all add: readable_def)

lemma month_error:
  assumes "scan_month sz entries y m st = Inl e"
    and "readable (\<lambda>n. parse_day y m n \<noteq> None) (\<lambda>dn. no_failures) entries"
  shows "limit_error e"
proof (rule listing_error [OF assms(1) [unfolded scan_month_def] assms(2)])
  fix n ft stat opened st e
  assume run: "scan_month_entry sz y m n ft stat opened st = Inl e"
    and ok: "parse_day y m n \<noteq> None \<and> ft = Directory \<longrightarrow> (\<exists>l. opened = Inr l \<and> no_failures l)"
  show "limit_error e"
  proof (cases "parse_day y m n = None \<or> ft \<noteq> Directory")
    case True
    then show ?thesis using run by (auto simp: scan_month_entry_def foreign_error split: option.splits if_splits)
  next
    case False
    then obtain d l where d: "parse_day y m n = Some d" "ft = Directory" "opened = Inr l" "no_failures l"
      using ok by auto
    then have "\<exists>day. utc_day_new y m d = Inr day"
      by (auto simp: parse_day_def split: option.splits if_splits sum.splits)
        (auto simp: utc_day_new_def split: if_splits)
    then show ?thesis
      using run d by (auto simp: scan_month_entry_def and_then_Inl open_directory_at_def metadata_error day_error)
  qed
qed

lemma year_error:
  assumes "scan_year sz entries y st = Inl e"
    and "readable (\<lambda>n. parse_month n \<noteq> None) (\<lambda>mn. readable (\<lambda>n. parse_day y (the (parse_month mn)) n \<noteq> None) (\<lambda>dn. no_failures)) entries"
  shows "limit_error e"
proof (rule listing_error [OF assms(1) [unfolded scan_year_def] assms(2)])
  fix n ft stat opened st e
  assume run: "scan_year_entry sz y n ft stat opened st = Inl e"
    and ok: "parse_month n \<noteq> None \<and> ft = Directory \<longrightarrow>
      (\<exists>l. opened = Inr l \<and> readable (\<lambda>na. parse_day y (the (parse_month n)) na \<noteq> None) (\<lambda>dn. no_failures) l)"
  show "limit_error e"
  proof (cases "parse_month n = None \<or> ft \<noteq> Directory")
    case True
    then show ?thesis using run by (auto simp: scan_year_entry_def foreign_error split: option.splits if_splits)
  next
    case False
    then show ?thesis using run ok
      by (auto simp: scan_year_entry_def and_then_Inl open_directory_at_def month_error)
  qed
qed

lemma root_error:
  assumes "scan_listing (scan_root_entry sz) sz ParentRoot root st = Inl e" and "readable_tree root"
  shows "limit_error e"
proof (rule listing_error [OF assms(1) assms(2) [unfolded readable_tree_def]])
  fix n ft stat opened st e
  assume run: "scan_root_entry sz n ft stat opened st = Inl e"
    and ok: "parse_year n \<noteq> None \<and> ft = Directory \<longrightarrow>
      (\<exists>l. opened = Inr l \<and> readable (\<lambda>n. parse_month n \<noteq> None)
        (\<lambda>mn. readable (\<lambda>na. parse_day (the (parse_year n)) (the (parse_month mn)) na \<noteq> None) (\<lambda>dn. no_failures)) l)"
  show "limit_error e"
  proof (cases "parse_year n = None \<or> ft \<noteq> Directory")
    case True
    then show ?thesis using run
      by (auto simp: scan_root_entry_def Let_def foreign_error pending_error split: option.splits if_splits)
  next
    case False
    then obtain y where "parse_year n = Some y" by auto
    then show ?thesis using run ok False year_name_plain [of n y]
      by (auto simp: scan_root_entry_def and_then_Inl open_directory_at_def year_error)
  qed
qed

section \<open>Properties\<close>

definition file_of :: "dir_listing \<Rightarrow> segment_address \<Rightarrow> string \<Rightarrow> file_identity option" where
  "file_of root a name = Option.bind (day_dir root (sa_day a)) (\<lambda>l. regular_file l name)"

lemma addressed_address: "addressed a (sa_day a) \<longleftrightarrow> address_new (sa_id a) = Inr a"
  by (simp add: address_new_eq)

lemma scan_once_items:
  assumes "scan_once sz limits root visited = Inr snap" and "unique_names root"
  obtains st where "snap = scan_finish st" and "distinct (scan_items st)" and "set (scan_items st) = root_items root"
proof -
  obtain st where run: "scan_listing (scan_root_entry sz) sz ParentRoot root (scan_state_new limits visited) = Inr st"
    and snap: "snap = scan_finish st"
    using assms(1) by (auto simp: scan_once_def and_then_Inr)
  have "scan_items (scan_state_new limits visited) = []" by (simp add: scan_items_def scan_state_new_def)
  then obtain L where L: "distinct L" "set L = root_items root" "mset (scan_items st) = mset L"
    using scan_root_effect [OF run assms(2)] by (auto simp: adds_def)
  then have "distinct (scan_items st)" "set (scan_items st) = root_items root"
    using mset_eq_imp_distinct_iff mset_eq_setD by blast+
  with snap show ?thesis by (rule that)
qed

lemma sorted_distinct_keys:
  fixes f :: "'a \<Rightarrow> 'k::linorder"
  assumes "distinct xs" and "inj_on f (set xs)"
  shows "sorted_wrt (<) (map f (sort_key f xs))"
  using assms by (simp add: strict_sorted_iff distinct_map)

text \<open>A small data root for the witnesses: one segment with its sidecar, a foreign file, the journal.\<close>

definition demo_file :: "nat \<Rightarrow> file_identity" where
  "demo_file len = \<lparr>fi_device = 1, fi_inode = len, fi_len = len, fi_mtime_seconds = 0, fi_mtime_nanoseconds = 0,
     fi_ctime_seconds = 0, fi_ctime_nanoseconds = 0\<rparr>"

definition demo_root :: dir_listing where
  "demo_root =
     [Inr (''.'', Found Directory (demo_file 1) (Inl 20)),
      Inr (''active.parts'', Found RegularFile (demo_file 36) (Inl 20)),
      Inr (''1970'', Found Directory (demo_file 1) (Inr
        [Inr (''01'', Found Directory (demo_file 1) (Inr
          [Inr (''01'', Found Directory (demo_file 1) (Inr
            [Inr (''0.ovf'', Found RegularFile (demo_file 7) (Inl 20)),
             Inr (''x'', Found Symlink (demo_file 3) (Inl 20)),
             Inr (''0.pgm'', Found RegularFile (demo_file 100) (Inl 20))]))]))]))]"

definition demo_sizes :: type_sizes where
  "demo_sizes = \<lparr>size_ForeignEntry = 120, size_PendingRootEntry = 120, size_UtcDay = 4, size_SegmentArtifacts = 96,
     size_SegmentAddress = 16\<rparr>"

lemma demo_scan: "\<exists>snap. scan_once demo_sizes limits_default demo_root 0 = Inr snap \<and> length (ls_segments snap) = 1"
proof -
  have "case scan_once demo_sizes limits_default demo_root 0 of Inl e \<Rightarrow> False | Inr snap \<Rightarrow> length (ls_segments snap) = 1"
    by code_simp
  then show ?thesis by (simp split: sum.splits)
qed

lemma demo_unique: "unique_names demo_root"
  by code_simp

text \<open>
  C12. A successful scan returns exactly the tree.  Its segments are the addresses whose own path leads
  to a regular file, each with the identity of that file and the size of its sidecar; its orphan
  sidecars are the addresses with a sidecar and no segment; its days are the calendar directories.
  All three are strictly increasing, so nothing is listed twice.
\<close>

theorem scan_exact:
  assumes "scan_once sz limits root visited = Inr snap" and "unique_names root"
  shows "set (ls_segments snap) =
      {s. address_new (sa_id (sg_address s)) = Inr (sg_address s)
          \<and> file_of root (sg_address s) (pgm_name (sg_address s)) = Some (sg_pgm_identity s)
          \<and> sg_pgm_bytes s = fi_len (sg_pgm_identity s)
          \<and> sg_ovf_bytes s = map_option fi_len (file_of root (sg_address s) (ovf_name (sg_address s)))}
    \<and> sorted_wrt (<) (map (\<lambda>s. sa_id (sg_address s)) (ls_segments snap))
    \<and> set (ls_orphan_overviews snap) =
      {a. address_new (sa_id a) = Inr a \<and> file_of root a (pgm_name a) = None \<and> file_of root a (ovf_name a) \<noteq> None}
    \<and> sorted_wrt (<) (map sa_id (ls_orphan_overviews snap))
    \<and> set (ls_days snap) = {d. day_dir root d \<noteq> None}
    \<and> sorted_wrt (<) (map day_key (ls_days snap))"
proof -
  obtain st where snap: "snap = scan_finish st" and dist: "distinct (scan_items st)" and items: "set (scan_items st) = root_items root"
    using scan_once_items [OF assms] .
  have lists: "ls_segments snap = sort_key (\<lambda>s. sa_id (sg_address s)) (ss_segments st)"
    "ls_orphan_overviews snap = sort_key sa_id (ss_orphan_overviews st)" "ls_days snap = sort_key day_key (ss_days st)"
    by (simp_all add: snap scan_finish_def)
  have parts: "distinct (ss_segments st)" "distinct (ss_orphan_overviews st)" "distinct (ss_days st)"
    using dist by (auto simp: scan_items_def distinct_map)
  have mem: "s \<in> set (ss_segments st) \<longleftrightarrow> ItemSegment s \<in> root_items root"
    "a \<in> set (ss_orphan_overviews st) \<longleftrightarrow> ItemOrphan a \<in> root_items root"
    "d \<in> set (ss_days st) \<longleftrightarrow> ItemDay d \<in> root_items root" for s a d
    using items by (auto simp: scan_items_def)
  have segments: "s \<in> set (ss_segments st) \<longleftrightarrow> address_new (sa_id (sg_address s)) = Inr (sg_address s)
          \<and> file_of root (sg_address s) (pgm_name (sg_address s)) = Some (sg_pgm_identity s)
          \<and> sg_pgm_bytes s = fi_len (sg_pgm_identity s)
          \<and> sg_ovf_bytes s = map_option fi_len (file_of root (sg_address s) (ovf_name (sg_address s)))" for s
    by (auto simp: mem root_items_day_dir day_contribution_def day_items_def segment_in_def file_of_def addressed_address
        bind_eq_Some_conv)
  have orphans: "a \<in> set (ss_orphan_overviews st) \<longleftrightarrow> address_new (sa_id a) = Inr a
      \<and> file_of root a (pgm_name a) = None \<and> file_of root a (ovf_name a) \<noteq> None" for a
    by (cases "day_dir root (sa_day a)")
      (auto simp: mem root_items_day_dir day_contribution_def day_items_def orphan_in_def file_of_def addressed_address)
  have days: "d \<in> set (ss_days st) \<longleftrightarrow> day_dir root d \<noteq> None" for d
    by (auto simp: mem root_items_day_dir day_contribution_def)
  have "inj_on (\<lambda>s. sa_id (sg_address s)) (set (ss_segments st))"
    by (auto simp: inj_on_def segments intro!: segment_artifacts.equality)
  moreover have "inj_on sa_id (set (ss_orphan_overviews st))"
    by (auto simp: inj_on_def orphans)
  moreover have "inj_on day_key (set (ss_days st))"
    by (auto simp: inj_on_def day_key_def intro!: utc_day.equality)
  ultimately show ?thesis
    using sorted_distinct_keys [OF parts(1)] sorted_distinct_keys [OF parts(2)] sorted_distinct_keys [OF parts(3)]
    by (auto simp: lists segments orphans days)
qed

theorem scan_exact_witness:
  "\<exists>snap. scan_once demo_sizes limits_default demo_root 0 = Inr snap \<and> length (ls_segments snap) = 1
    \<and> set (ls_segments snap) =
      {s. address_new (sa_id (sg_address s)) = Inr (sg_address s)
          \<and> file_of demo_root (sg_address s) (pgm_name (sg_address s)) = Some (sg_pgm_identity s)
          \<and> sg_pgm_bytes s = fi_len (sg_pgm_identity s)
          \<and> sg_ovf_bytes s = map_option fi_len (file_of demo_root (sg_address s) (ovf_name (sg_address s)))}"
  using demo_scan scan_exact [OF _ demo_unique] by blast

text \<open>
  The returned snapshot respects the configured limits on visited entries, accounted metadata and
  returned segments, so that no directory tree can make a scan exceed its budget.
\<close>

theorem scan_within_limits:
  assumes "scan_once sz limits root 0 = Inr snap"
  shows "ls_visited_entries snap \<le> max_visited_entries limits
    \<and> ls_metadata_bytes snap \<le> max_metadata_bytes limits
    \<and> length (ls_segments snap) \<le> max_segments limits"
proof -
  obtain st where run: "scan_listing (scan_root_entry sz) sz ParentRoot root (scan_state_new limits 0) = Inr st"
    and snap: "snap = scan_finish st"
    using assms by (auto simp: scan_once_def and_then_Inr)
  have "within (scan_state_new limits 0)" "ss_limits (scan_state_new limits 0) = limits"
    by (simp_all add: within_def scan_state_new_def)
  then show ?thesis using keeps_root [OF run] by (auto simp: keeps_def within_def snap scan_finish_def)
qed

theorem scan_within_limits_witness:
  "\<exists>snap. scan_once demo_sizes limits_default demo_root 0 = Inr snap
    \<and> ls_visited_entries snap \<le> max_visited_entries limits_default
    \<and> ls_metadata_bytes snap \<le> max_metadata_bytes limits_default
    \<and> length (ls_segments snap) \<le> max_segments limits_default"
  using demo_scan scan_within_limits by blast

text \<open>
  C28. Foreign entries never abort a scan: on a tree whose calendar path can be read, whatever else the
  tree holds (symbolic links, control names of the wrong type, files of other days, names that are not
  text), a scan fails only because a limit is exceeded.
\<close>

theorem scan_tolerates_foreign:
  assumes "readable_tree root" and "scan_once sz limits root visited = Inl e"
  shows "\<exists>kind limit. e = TraversalLimitExceeded kind limit"
  using root_error [OF _ assms(1)] assms(2) by (auto simp: scan_once_def and_then_Inl limit_error_def)

theorem scan_tolerates_foreign_witness:
  "\<exists>kind limit. scan_once demo_sizes (limits_default\<lparr>max_segments := 0\<rparr>) demo_root 0
      = Inl (TraversalLimitExceeded kind limit)"
proof -
  have "isl (scan_once demo_sizes (limits_default\<lparr>max_segments := 0\<rparr>) demo_root 0)" by code_simp
  then obtain e where e: "scan_once demo_sizes (limits_default\<lparr>max_segments := 0\<rparr>) demo_root 0 = Inl e"
    by (auto simp: isl_def)
  have "readable_tree demo_root" by code_simp
  from scan_tolerates_foreign [OF this e] e show ?thesis by blast
qed

text \<open>
  C29. The retry loop always returns and never reaches its panic: with valid limits, the result is that
  of the first attempt that did not lose an entry to a concurrent removal, or of the fourth.
\<close>

theorem scan_returns_first_stable:
  assumes "limits_validate limits = Inr limits"
  shows "\<exists>k < SCAN_RACE_ATTEMPTS. scan sz limits view = Some (scan_once sz limits (view k) 0)
    \<and> (\<forall>j<k. scan_once sz limits (view j) 0 = Inl (LayoutIo ENOENT))
    \<and> (scan_once sz limits (view k) 0 = Inl (LayoutIo ENOENT) \<longrightarrow> k + 1 = SCAN_RACE_ATTEMPTS)"
proof -
  let ?once = "\<lambda>k. scan_once sz limits (view k) 0"
  let ?N = SCAN_RACE_ATTEMPTS
  have "\<exists>k < ?N. scan_attempts sz limits view [j..<?N] = Some (?once k) \<and> j \<le> k
      \<and> (\<forall>i. j \<le> i \<and> i < k \<longrightarrow> ?once i = Inl (LayoutIo ENOENT)) \<and> (?once k = Inl (LayoutIo ENOENT) \<longrightarrow> k + 1 = ?N)"
    if "j < ?N" for j
    using that
  proof (induction "?N - j" arbitrary: j)
    case 0
    then show ?case by simp
  next
    case (Suc n)
    then have upt: "[j..<?N] = j # [Suc j..<?N]" by (simp add: upt_conv_Cons)
    show ?case
    proof (cases "?once j = Inl (LayoutIo ENOENT) \<and> j + 1 < ?N")
      case True
      then have eq: "scan_attempts sz limits view [j..<?N] = scan_attempts sz limits view [Suc j..<?N]"
        by (simp add: upt)
      have "n = ?N - Suc j" "Suc j < ?N" using Suc(2) True by simp_all
      then obtain k where k: "k < ?N" "scan_attempts sz limits view [Suc j..<?N] = Some (?once k)" "Suc j \<le> k"
        "\<forall>i. Suc j \<le> i \<and> i < k \<longrightarrow> ?once i = Inl (LayoutIo ENOENT)" "?once k = Inl (LayoutIo ENOENT) \<longrightarrow> k + 1 = ?N"
        using Suc(1) [of "Suc j"] by blast
      have "?once i = Inl (LayoutIo ENOENT)" if "j \<le> i" "i < k" for i
        using k(4) True that by (cases "i = j") auto
      then show ?thesis using eq k by (intro exI [of _ k]) auto
    next
      case False
      then have "scan_attempts sz limits view [j..<?N] = Some (?once j)"
        by (auto simp: upt split: sum.split layout_error.split)
      then show ?thesis using False Suc(3) by (intro exI [of _ j]) auto
    qed
  qed
  from this [of 0] show ?thesis
    using assms by (auto simp: scan_def) (simp add: SCAN_RACE_ATTEMPTS_def)
qed

theorem scan_returns_first_stable_witness:
  "\<exists>k < SCAN_RACE_ATTEMPTS. scan demo_sizes limits_default (\<lambda>n. if n < 2 then [Inl ENOENT] else demo_root)
      = Some (scan_once demo_sizes limits_default (if k < 2 then [Inl ENOENT] else demo_root) 0)"
proof -
  have "limits_validate limits_default = Inr limits_default" by code_simp
  from scan_returns_first_stable [OF this, of demo_sizes "\<lambda>n. if n < 2 then [Inl ENOENT] else demo_root"]
  show ?thesis by auto
qed

end
