(* ===== verification/Catalog.thy ===== *)
theory Catalog
  imports Prelude
begin

text \<open>
  The end catalog of a PGM segment (\<open>crates/kronika-format/src/catalog.rs\<close>, with the constants
  of \<open>lib.rs\<close> and the zeroed-field checksum of \<open>crc.rs\<close>): catalog entries, metadata block and
  tail index, their encoding and decoding, and the canonical physical section layout.

  CRC32C comes from the external \<open>crc\<close> crate, so it is the argument \<open>crc\<close> of every definition
  that checksums.  The incremental digest of that crate is documented to give the checksum of the
  concatenated updates, so the model keeps the concatenation and applies \<open>crc\<close> to it.
\<close>

section \<open>Constants\<close>

definition MAGIC :: "u8 list" where
  "MAGIC = [80, 71, 77, 49]"

definition FORMAT_VERSION :: u32 where
  "FORMAT_VERSION = 2"

definition ENTRY_LEN :: nat where
  "ENTRY_LEN = 32"

definition META_LEN :: nat where
  "META_LEN = 32"

definition TAIL_INDEX_LEN :: nat where
  "TAIL_INDEX_LEN = 8"

definition META_CRC_OFFSET :: nat where
  "META_CRC_OFFSET = 24"

definition DICT_STRINGS_TYPE_ID :: u32 where
  "DICT_STRINGS_TYPE_ID = 3001001"

definition DICT_BLOBS_TYPE_ID :: u32 where
  "DICT_BLOBS_TYPE_ID = 3002001"

definition MAX_PHYSICAL_SECTION_BYTES :: u64 where
  "MAX_PHYSICAL_SECTION_BYTES = 8 * 1024 * 1024"

definition MAX_PHYSICAL_SECTION_ROWS :: u32 where
  "MAX_PHYSICAL_SECTION_ROWS = 65536"

lemma length_MAGIC [simp]: "length MAGIC = 4"
  by (simp add: MAGIC_def)

lemmas layout_lens = ENTRY_LEN_def META_LEN_def TAIL_INDEX_LEN_def META_CRC_OFFSET_def

section \<open>Data\<close>

record entry =
  e_type_id :: u32
  e_flags :: u32
  e_offset :: u64
  e_len :: u64
  e_rows :: u32
  e_crc32c :: u32

record catalog =
  c_entries :: "entry list"
  c_min_ts :: i64
  c_max_ts :: i64
  c_format_version :: u32
  c_window_count :: u32

text \<open>The borrowed view keeps the undecoded entry bytes.\<close>

record catalog_view =
  v_entries :: "u8 list"
  v_min_ts :: i64
  v_max_ts :: i64
  v_entry_count :: u32
  v_format_version :: u32
  v_window_count :: u32

record tail_index =
  t_catalog_len :: u32

datatype catalog_layout_error = CatalogLayoutError "u32 option" string

datatype decode_error =
    BadTailMagic "u8 list"
  | BadCatalogLen nat
  | EntryCountMismatch u32 u32
  | BadCrc u32 u32

text \<open>\<open>io::ErrorKind::InvalidInput\<close> with its message.\<close>

datatype encode_error = InvalidInput string

section \<open>Canonical section order\<close>

datatype section_order = Data u32 | Strings | Blobs

fun order_rank :: "section_order \<Rightarrow> nat" where
  "order_rank (Data _) = 0"
| "order_rank Strings = 1"
| "order_rank Blobs = 2"

fun order_payload :: "section_order \<Rightarrow> nat" where
  "order_payload (Data t) = unat t"
| "order_payload _ = 0"

text \<open>The derived \<open>Ord\<close> of the Rust enum: variant order first, then the payload.\<close>

instantiation section_order :: linorder
begin

definition less_section_order :: "section_order \<Rightarrow> section_order \<Rightarrow> bool" where
  "less_section_order a b \<longleftrightarrow> order_rank a < order_rank b \<or>
     order_rank a = order_rank b \<and> order_payload a < order_payload b"

definition less_eq_section_order :: "section_order \<Rightarrow> section_order \<Rightarrow> bool" where
  "less_eq_section_order a b \<longleftrightarrow> order_rank a < order_rank b \<or>
     order_rank a = order_rank b \<and> order_payload a \<le> order_payload b"

instance
proof
  fix a b c :: section_order
  show "(a < b) = (a \<le> b \<and> \<not> b \<le> a)"
    by (auto simp: less_section_order_def less_eq_section_order_def)
  show "a \<le> a"
    by (simp add: less_eq_section_order_def)
  show "a \<le> b \<Longrightarrow> b \<le> c \<Longrightarrow> a \<le> c"
    by (auto simp: less_eq_section_order_def)
  show "a \<le> b \<Longrightarrow> b \<le> a \<Longrightarrow> a = b"
    by (cases a; cases b) (auto simp: less_eq_section_order_def word_unat_eq_iff)
  show "a \<le> b \<or> b \<le> a"
    by (auto simp: less_eq_section_order_def)
qed

end

definition section_order_of :: "u32 \<Rightarrow> section_order" where
  "section_order_of type_id =
     (if type_id = DICT_STRINGS_TYPE_ID then Strings
      else if type_id = DICT_BLOBS_TYPE_ID then Blobs
      else Data type_id)"

lemma section_order_of_inject: "section_order_of a = section_order_of b \<longleftrightarrow> a = b"
  by (auto simp: section_order_of_def split: if_splits)

section \<open>Layout validation\<close>

text \<open>The loop over the entries: the expected body offset and the previous section's order.\<close>

fun validate_entries :: "entry list \<Rightarrow> u64 \<Rightarrow> section_order option \<Rightarrow> catalog_layout_error + u64" where
  "validate_entries [] expected_offset previous = Inr expected_offset"
| "validate_entries (entry # rest) expected_offset previous =
     (let err = (\<lambda>reason. Inl (CatalogLayoutError (Some (e_type_id entry)) reason)) in
      if e_flags entry \<noteq> 0 then err ''reserved flags are not zero''
      else if e_rows entry = 0 then err ''populated section has zero rows''
      else if e_len entry = 0 then err ''section body is empty''
      else if e_len entry > MAX_PHYSICAL_SECTION_BYTES then err ''body length is above the physical cap''
      else if e_rows entry > MAX_PHYSICAL_SECTION_ROWS then err ''row count is above the physical cap''
      else if e_offset entry \<noteq> expected_offset then
        err ''body is not contiguous with the preceding section''
      else
        let order = section_order_of (e_type_id entry) in
        if previous = Some order then err ''section type occurs more than once''
        else if (case previous of None \<Rightarrow> False | Some p \<Rightarrow> order < p) then
          err ''section is out of canonical order''
        else
          (case checked_add (e_offset entry) (e_len entry) of
             None \<Rightarrow> err ''body range overflows the container''
           | Some next \<Rightarrow> validate_entries rest next (Some order)))"

definition validate_catalog_layout :: "catalog \<Rightarrow> u64 \<Rightarrow> catalog_layout_error + unit" where
  "validate_catalog_layout catalog catalog_at =
     (case validate_entries (c_entries catalog) (of_nat (length MAGIC)) None of
        Inl e \<Rightarrow> Inl e
      | Inr expected_offset \<Rightarrow>
          if expected_offset \<noteq> catalog_at
          then Inl (CatalogLayoutError None ''section bodies do not end at the catalog start'')
          else Inr ())"

section \<open>Encoding\<close>

definition tail_encode :: "tail_index \<Rightarrow> u8 list" where
  "tail_encode t = u32_to_le (t_catalog_len t) @ MAGIC"

definition tail_decode :: "u8 list \<Rightarrow> decode_error + tail_index" where
  "tail_decode bytes =
     (let magic = subslice 4 8 bytes in
      if magic \<noteq> MAGIC then Inl (BadTailMagic magic)
      else Inr \<lparr>t_catalog_len = u32_from_le (subslice 0 4 bytes)\<rparr>)"

definition encoded_len :: "catalog \<Rightarrow> nat" where
  "encoded_len c = length (c_entries c) * ENTRY_LEN + META_LEN"

definition encode_entry :: "entry \<Rightarrow> u8 list" where
  "encode_entry e = u32_to_le (e_type_id e) @ u32_to_le (e_flags e) @ u64_to_le (e_offset e)
     @ u64_to_le (e_len e) @ u32_to_le (e_rows e) @ u32_to_le (e_crc32c e)"

text \<open>The metadata block with the given value in its checksum field.\<close>

definition encode_meta :: "catalog \<Rightarrow> u32 \<Rightarrow> u8 list" where
  "encode_meta c checksum = u64_to_le (c_min_ts c) @ u64_to_le (c_max_ts c)
     @ u32_to_le (of_nat (length (c_entries c))) @ u32_to_le (c_format_version c)
     @ u32_to_le checksum @ u32_to_le (c_window_count c)"

definition write_encoded :: "(u8 list \<Rightarrow> u32) \<Rightarrow> catalog \<Rightarrow> encode_error + u8 list" where
  "write_encoded crc c =
     (if \<not> encoded_len c < u32_limit then
        Inl (InvalidInput ''catalog length does not fit the PGM tail index'')
      else
        let entries = concat (map encode_entry (c_entries c)) in
        if \<not> length (c_entries c) < u32_limit then
          Inl (InvalidInput ''catalog entry count does not fit the PGM metadata'')
        else
          let checksum = crc (entries @ encode_meta c 0) in
          Inr (entries @ encode_meta c checksum
               @ tail_encode \<lparr>t_catalog_len = of_nat (encoded_len c)\<rparr>))"

text \<open>\<open>Catalog::encode\<close> panics (\<open>None\<close>) when the block does not fit.\<close>

definition catalog_encode :: "(u8 list \<Rightarrow> u32) \<Rightarrow> catalog \<Rightarrow> u8 list option" where
  "catalog_encode crc c = (case write_encoded crc c of Inl _ \<Rightarrow> None | Inr out \<Rightarrow> Some out)"

section \<open>Decoding\<close>

definition u32_at :: "u8 list \<Rightarrow> nat \<Rightarrow> u32" where
  "u32_at bytes at = u32_from_le (subslice at (at + 4) bytes)"

definition u64_at :: "u8 list \<Rightarrow> nat \<Rightarrow> u64" where
  "u64_at bytes at = u64_from_le (subslice at (at + 8) bytes)"

definition decode_entry :: "u8 list \<Rightarrow> entry" where
  "decode_entry bytes = \<lparr>e_type_id = u32_at bytes 0, e_flags = u32_at bytes 4,
     e_offset = u64_at bytes 8, e_len = u64_at bytes 16,
     e_rows = u32_at bytes 24, e_crc32c = u32_at bytes 28\<rparr>"

text \<open>\<open>chunks_exact(n)\<close> for \<open>n > 0\<close>: a shorter remainder is dropped.\<close>

function chunks_exact :: "nat \<Rightarrow> 'a list \<Rightarrow> 'a list list" where
  "chunks_exact n xs =
     (if n = 0 \<or> length xs < n then [] else take n xs # chunks_exact n (drop n xs))"
  by pat_completeness auto
termination
  by (relation "measure (\<lambda>(n, xs). length xs)") auto

declare chunks_exact.simps [simp del]

definition view_entries :: "catalog_view \<Rightarrow> entry list" where
  "view_entries v = map decode_entry (chunks_exact ENTRY_LEN (v_entries v))"

definition crc32c_with_zeroed_field :: "(u8 list \<Rightarrow> u32) \<Rightarrow> u8 list \<Rightarrow> nat \<Rightarrow> u32" where
  "crc32c_with_zeroed_field crc bytes zero_at =
     crc (take zero_at bytes @ [0, 0, 0, 0] @ drop (zero_at + 4) bytes)"

definition catalog_view_of :: "(u8 list \<Rightarrow> u32) \<Rightarrow> u8 list \<Rightarrow> decode_error + catalog_view" where
  "catalog_view_of crc bytes =
     (if length bytes < META_LEN \<or> (length bytes - META_LEN) mod ENTRY_LEN \<noteq> 0 then
        Inl (BadCatalogLen (length bytes))
      else
        let count = (length bytes - META_LEN) div ENTRY_LEN in
        if \<not> count < u32_limit then Inl (BadCatalogLen (length bytes))
        else
          let derived = of_nat count;
              meta = drop (length bytes - META_LEN) bytes;
              stored_count = u32_at meta 16 in
          if stored_count \<noteq> derived then Inl (EntryCountMismatch stored_count derived)
          else
            let stored_crc = u32_at meta META_CRC_OFFSET;
                crc_at = length bytes - META_LEN + META_CRC_OFFSET;
                computed = crc32c_with_zeroed_field crc bytes crc_at in
            if stored_crc \<noteq> computed then Inl (BadCrc stored_crc computed)
            else Inr \<lparr>v_entries = take (length bytes - META_LEN) bytes,
                      v_min_ts = u64_at meta 0, v_max_ts = u64_at meta 8,
                      v_entry_count = stored_count, v_format_version = u32_at meta 20,
                      v_window_count = u32_at meta 28\<rparr>)"

definition catalog_decode :: "(u8 list \<Rightarrow> u32) \<Rightarrow> u8 list \<Rightarrow> decode_error + catalog" where
  "catalog_decode crc bytes =
     (case catalog_view_of crc bytes of
        Inl e \<Rightarrow> Inl e
      | Inr view \<Rightarrow> Inr \<lparr>c_entries = view_entries view, c_min_ts = v_min_ts view,
          c_max_ts = v_max_ts view, c_format_version = v_format_version view,
          c_window_count = v_window_count view\<rparr>)"

section \<open>Canonical layout as a specification\<close>

text \<open>
  What the scan of the entries promises, stated without the loop: every entry is well formed, the
  section types are strictly increasing in canonical order, and the bodies tile the bytes from the
  leading magic up to the catalog.
\<close>

definition entry_wf :: "entry \<Rightarrow> bool" where
  "entry_wf e \<longleftrightarrow> e_flags e = 0 \<and> e_rows e \<noteq> 0 \<and> e_rows e \<le> MAX_PHYSICAL_SECTION_ROWS
     \<and> e_len e \<noteq> 0 \<and> e_len e \<le> MAX_PHYSICAL_SECTION_BYTES"

definition entry_orders :: "entry list \<Rightarrow> section_order list" where
  "entry_orders es = map (\<lambda>e. section_order_of (e_type_id e)) es"

definition body_lens :: "entry list \<Rightarrow> nat list" where
  "body_lens es = map (\<lambda>e. unat (e_len e)) es"

definition bodies_tile :: "nat \<Rightarrow> entry list \<Rightarrow> bool" where
  "bodies_tile start es \<longleftrightarrow>
     (\<forall>i < length es. unat (e_offset (es ! i)) = start + sum_list (take i (body_lens es)))"

definition canonical_layout :: "entry list \<Rightarrow> nat \<Rightarrow> bool" where
  "canonical_layout es catalog_at \<longleftrightarrow>
     list_all entry_wf es \<and> sorted_wrt (<) (entry_orders es)
     \<and> bodies_tile (length MAGIC) es \<and> length MAGIC + sum_list (body_lens es) = catalog_at"

lemma bodies_tile_Nil [simp]: "bodies_tile start []"
  by (simp add: bodies_tile_def)

lemma bodies_tile_Cons [simp]:
  "bodies_tile start (e # es) \<longleftrightarrow>
     unat (e_offset e) = start \<and> bodies_tile (start + unat (e_len e)) es"
  by (auto simp: bodies_tile_def body_lens_def nth_Cons less_Suc_eq_0_disj all_conj_distrib
      split: nat.splits)

text \<open>The order of the previous section, when there is one, precedes the remaining sections.\<close>

definition prev_before :: "section_order option \<Rightarrow> section_order list \<Rightarrow> bool" where
  "prev_before previous os \<longleftrightarrow> (case previous of None \<Rightarrow> True | Some p \<Rightarrow> \<forall>x \<in> set os. p < x)"

lemma prev_before_Cons:
  "sorted_wrt (<) (x # os) \<Longrightarrow>
   prev_before previous (x # os) \<longleftrightarrow> (case previous of None \<Rightarrow> True | Some p \<Rightarrow> p < x)"
  by (cases previous) (auto simp: prev_before_def)

lemma entry_wf_len_bound: "entry_wf e \<Longrightarrow> unat (e_len e) \<le> 8388608"
  by (auto simp: entry_wf_def MAX_PHYSICAL_SECTION_BYTES_def word_le_nat_alt)

lemma validate_entries_iff:
  "validate_entries es off previous = Inr off' \<longleftrightarrow>
     list_all entry_wf es \<and> sorted_wrt (<) (entry_orders es) \<and> prev_before previous (entry_orders es)
     \<and> bodies_tile (unat off) es \<and> unat off + sum_list (body_lens es) = unat off'"
proof (induction es arbitrary: off previous)
  case Nil
  then show ?case
    by (auto simp: entry_orders_def body_lens_def prev_before_def word_unat_eq_iff split: option.splits)
next
  case (Cons e es)
  let ?o = "section_order_of (e_type_id e)"
  have os: "entry_orders (e # es) = ?o # entry_orders es"
    and ls: "body_lens (e # es) = unat (e_len e) # body_lens es"
    by (simp_all add: entry_orders_def body_lens_def)
  have pb: "prev_before (Some ?o) (entry_orders es) \<longleftrightarrow> (\<forall>x \<in> set (entry_orders es). ?o < x)"
    by (simp add: prev_before_def)
  have lt: "(case previous of None \<Rightarrow> True | Some p \<Rightarrow> p < ?o) \<longleftrightarrow>
      previous \<noteq> Some ?o \<and> \<not> (case previous of None \<Rightarrow> False | Some p \<Rightarrow> ?o < p)"
    by (auto split: option.splits)
  show ?case
  proof (cases "entry_wf e \<and> e_offset e = off \<and> previous \<noteq> Some ?o
      \<and> \<not> (case previous of None \<Rightarrow> False | Some p \<Rightarrow> ?o < p)")
    case False
    then have "\<not> (\<exists>x. validate_entries (e # es) off previous = Inr x)"
      by (auto simp: entry_wf_def Let_def not_less)
    moreover have "\<not> (list_all entry_wf (e # es) \<and> sorted_wrt (<) (entry_orders (e # es))
        \<and> prev_before previous (entry_orders (e # es)) \<and> bodies_tile (unat off) (e # es))"
      using False prev_before_Cons [of ?o "entry_orders es" previous] lt
      by (auto simp: os word_unat_eq_iff)
    ultimately show ?thesis by blast
  next
    case True
    then have step: "validate_entries (e # es) off previous =
        (case checked_add off (e_len e) of
           None \<Rightarrow> Inl (CatalogLayoutError (Some (e_type_id e)) ''body range overflows the container'')
         | Some next \<Rightarrow> validate_entries es next (Some ?o))"
      by (simp add: Let_def entry_wf_def leD)
    have ok: "list_all entry_wf (e # es) \<longleftrightarrow> list_all entry_wf es"
      using True by simp
    have srt: "sorted_wrt (<) (entry_orders (e # es)) \<and> prev_before previous (entry_orders (e # es)) \<longleftrightarrow>
        sorted_wrt (<) (entry_orders es) \<and> prev_before (Some ?o) (entry_orders es)"
      using True lt prev_before_Cons [of ?o "entry_orders es" previous] by (auto simp: os pb)
    have tile: "bodies_tile (unat off) (e # es) \<longleftrightarrow> bodies_tile (unat off + unat (e_len e)) es"
      using True by simp
    show ?thesis
    proof (cases "checked_add off (e_len e)")
      case None
      then have "2 ^ 64 \<le> unat off + unat (e_len e)"
        by (simp add: checked_add_None)
      then have "unat off + sum_list (body_lens (e # es)) \<noteq> unat off'"
        using unat_less_64 [of off'] by (simp add: ls)
      with None step show ?thesis by simp
    next
      case (Some nxt)
      then have "unat nxt = unat off + unat (e_len e)"
        by (rule unat_checked_add)
      with Some step Cons.IH [of nxt "Some ?o"] ok srt tile show ?thesis
        by (auto simp: ls add.assoc)
    qed
  qed
qed

lemma validate_catalog_layout_iff:
  "validate_catalog_layout c at = Inr () \<longleftrightarrow> canonical_layout (c_entries c) (unat at)"
proof -
  have "(validate_catalog_layout c at = Inr ()) \<longleftrightarrow>
      validate_entries (c_entries c) (of_nat (length MAGIC)) None = Inr at"
    by (auto simp: validate_catalog_layout_def split: sum.splits)
  then show ?thesis
    by (simp add: validate_entries_iff canonical_layout_def prev_before_def)
qed

section \<open>Encoding and decoding agree\<close>

lemma length_encode_entry [simp]: "length (encode_entry e) = 32"
  by (simp add: encode_entry_def)

lemma length_encode_meta [simp]: "length (encode_meta c x) = 32"
  by (simp add: encode_meta_def)

lemma length_tail_encode [simp]: "length (tail_encode t) = 8"
  by (simp add: tail_encode_def)

lemma length_concat_entries [simp]: "length (concat (map encode_entry es)) = 32 * length es"
  by (induction es) auto

lemma decode_encode_entry [simp]: "decode_entry (encode_entry e) = e"
  by (simp add: decode_entry_def encode_entry_def u32_at_def u64_at_def subslice_def)

lemma encode_decode_entry:
  assumes "length bs = 32"
  shows "encode_entry (decode_entry bs) = bs"
proof -
  have "bs = subslice 0 4 bs @ subslice 4 8 bs @ subslice 8 16 bs @ subslice 16 24 bs @ subslice 24 28 bs @ subslice 28 32 bs"
    using assms by (simp add: append_slices slice_all)
  with assms show ?thesis
    by (simp add: encode_entry_def decode_entry_def u32_at_def u64_at_def
        u32_to_from_le u64_to_from_le length_subslice)
qed

lemma chunks_exact_encoded:
  "map decode_entry (chunks_exact 32 (concat (map encode_entry es))) = es"
proof (induction es)
  case Nil
  then show ?case by (simp add: chunks_exact.simps)
next
  case (Cons e es)
  then show ?case by (simp add: chunks_exact.simps [of 32 "encode_entry e @ _"])
qed

lemma encode_chunks_exact:
  assumes "length bs mod 32 = 0"
  shows "concat (map encode_entry (map decode_entry (chunks_exact 32 bs))) = bs"
    and "length (chunks_exact 32 bs) = length bs div 32"
proof -
  have "concat (map encode_entry (map decode_entry (chunks_exact 32 bs))) = bs
      \<and> length (chunks_exact 32 bs) = length bs div 32"
    using assms
  proof (induction "length bs" arbitrary: bs rule: less_induct)
    case less
    show ?case
    proof (cases "length bs < 32")
      case True
      with less.prems have "bs = []" by simp
      then show ?thesis by (simp add: chunks_exact.simps)
    next
      case False
      have IH: "concat (map encode_entry (map decode_entry (chunks_exact 32 (drop 32 bs)))) = drop 32 bs
          \<and> length (chunks_exact 32 (drop 32 bs)) = length (drop 32 bs) div 32"
        using False less.prems by (intro less.hyps) (auto simp: le_mod_geq)
      have "encode_entry (decode_entry (take 32 bs)) = take 32 bs"
        using False by (intro encode_decode_entry) simp
      with IH False show ?thesis
        by (simp add: chunks_exact.simps [of 32 bs] le_div_geq [of 32])
    qed
  qed
  then show "concat (map encode_entry (map decode_entry (chunks_exact 32 bs))) = bs"
    and "length (chunks_exact 32 bs) = length bs div 32" by simp_all
qed

lemma tail_decode_encode: "tail_decode (tail_encode t) = Inr t"
  by (simp add: tail_decode_def tail_encode_def subslice_def)

lemma tail_encode_decode:
  assumes "length bs = 8" and "tail_decode bs = Inr t"
  shows "tail_encode t = bs"
proof -
  have "bs = subslice 0 4 bs @ subslice 4 8 bs"
    using assms(1) by (simp add: append_slices slice_all)
  with assms show ?thesis
    by (auto simp: tail_decode_def tail_encode_def Let_def u32_to_from_le length_subslice split: if_splits)
qed

interpretation tail: fixed_codec tail_encode tail_decode TAIL_INDEX_LEN
  by unfold_locales (auto simp: TAIL_INDEX_LEN_def tail_decode_encode tail_encode_decode)

text \<open>The catalog block is everything before the tail index.\<close>

definition catalog_block :: "(u8 list \<Rightarrow> u32) \<Rightarrow> catalog \<Rightarrow> u8 list" where
  "catalog_block crc c = (let entries = concat (map encode_entry (c_entries c)) in
     entries @ encode_meta c (crc (entries @ encode_meta c 0)))"

lemma length_catalog_block: "length (catalog_block crc c) = encoded_len c"
  by (simp add: catalog_block_def encoded_len_def Let_def layout_lens)

lemma write_encoded_Inr:
  "write_encoded crc c = Inr out \<longleftrightarrow> encoded_len c < u32_limit \<and>
     out = catalog_block crc c @ tail_encode \<lparr>t_catalog_len = of_nat (encoded_len c)\<rparr>"
  by (auto simp: write_encoded_def catalog_block_def Let_def encoded_len_def layout_lens)

lemma meta_fields:
  "u64_at (encode_meta c k) 0 = c_min_ts c"
  "u64_at (encode_meta c k) 8 = c_max_ts c"
  "u32_at (encode_meta c k) 16 = of_nat (length (c_entries c))"
  "u32_at (encode_meta c k) 20 = c_format_version c"
  "u32_at (encode_meta c k) 24 = k"
  "u32_at (encode_meta c k) 28 = c_window_count c"
  by (simp_all add: encode_meta_def u32_at_def u64_at_def subslice_def)

lemma zeroed_meta:
  "take 24 (encode_meta c k) @ [0, 0, 0, 0] @ drop 28 (encode_meta c k) = encode_meta c 0"
  by (simp add: encode_meta_def u32_to_le_0)

lemma zeroed_block:
  assumes "length m = 32"
  shows "crc32c_with_zeroed_field crc (es @ m) (length es + 24)
     = crc (es @ take 24 m @ [0, 0, 0, 0] @ drop 28 m)"
  using assms by (simp add: crc32c_with_zeroed_field_def)

lemma catalog_decode_block:
  assumes "length (c_entries c) < u32_limit"
  shows "catalog_decode crc (catalog_block crc c) = Inr c"
proof -
  let ?es = "concat (map encode_entry (c_entries c))"
  let ?k = "crc (?es @ encode_meta c 0)"
  let ?bs = "?es @ encode_meta c ?k"
  have len: "length ?bs = 32 * length (c_entries c) + 32" by simp
  have crc_ok: "crc32c_with_zeroed_field crc ?bs (length ?es + 24) = ?k"
    by (simp only: zeroed_block length_encode_meta zeroed_meta)
  have "catalog_view_of crc ?bs = Inr \<lparr>v_entries = ?es, v_min_ts = c_min_ts c, v_max_ts = c_max_ts c,
      v_entry_count = of_nat (length (c_entries c)), v_format_version = c_format_version c,
      v_window_count = c_window_count c\<rparr>"
    using assms crc_ok by (simp add: catalog_view_of_def layout_lens len meta_fields Let_def)
  then show ?thesis
    by (simp add: catalog_decode_def catalog_block_def Let_def view_entries_def ENTRY_LEN_def
        chunks_exact_encoded)
qed

lemma encode_meta_of_bytes:
  assumes "length m = 32" and "u32_at m 16 = of_nat (length es)"
  shows "encode_meta \<lparr>c_entries = es, c_min_ts = u64_at m 0, c_max_ts = u64_at m 8,
      c_format_version = u32_at m 20, c_window_count = u32_at m 28\<rparr> (u32_at m 24) = m"
proof -
  have "m = subslice 0 8 m @ subslice 8 16 m @ subslice 16 20 m @ subslice 20 24 m @ subslice 24 28 m @ subslice 28 32 m"
    using assms(1) by (simp add: append_slices slice_all)
  with assms show ?thesis
    by (simp add: encode_meta_def u32_at_def u64_at_def u32_to_from_le u64_to_from_le length_subslice
        flip: assms(2))
qed

lemma catalog_decode_Inr:
  assumes "catalog_decode crc bs = Inr c"
  shows "bs = catalog_block crc c" and "length (c_entries c) < u32_limit"
proof -
  let ?e = "take (length bs - 32) bs"
  let ?m = "drop (length bs - 32) bs"
  from assms have long: "32 \<le> length bs" and md: "(length bs - 32) mod 32 = 0"
    and cnt: "(length bs - 32) div 32 < u32_limit"
    and count: "u32_at ?m 16 = of_nat ((length bs - 32) div 32)"
    and crc_ok: "u32_at ?m 24 = crc32c_with_zeroed_field crc bs (length bs - 32 + 24)"
    and c: "c = \<lparr>c_entries = map decode_entry (chunks_exact 32 ?e), c_min_ts = u64_at ?m 0,
      c_max_ts = u64_at ?m 8, c_format_version = u32_at ?m 20, c_window_count = u32_at ?m 28\<rparr>"
    by (auto simp: catalog_decode_def catalog_view_of_def layout_lens Let_def view_entries_def not_less
        split: if_splits)
  have e: "concat (map encode_entry (c_entries c)) = ?e"
    and n: "length (c_entries c) = (length bs - 32) div 32"
    using encode_chunks_exact [of ?e] long md by (simp_all add: c)
  have m: "encode_meta c (u32_at ?m 24) = ?m"
    using encode_meta_of_bytes [of ?m "c_entries c"] long n count by (simp add: c)
  have "crc32c_with_zeroed_field crc (?e @ ?m) (length ?e + 24) =
      crc (?e @ take 24 ?m @ [0, 0, 0, 0] @ drop 28 ?m)"
    using long by (intro zeroed_block) simp
  moreover have "take 24 ?m @ [0, 0, 0, 0] @ drop 28 ?m = encode_meta c 0"
    using zeroed_meta [of c "u32_at ?m 24"] by (simp only: m)
  moreover have "?e @ ?m = bs" and "length ?e = length bs - 32"
    using long by simp_all
  ultimately have "u32_at ?m 24 = crc (?e @ encode_meta c 0)"
    using crc_ok by (simp only:)
  then show "bs = catalog_block crc c"
    using m by (simp add: catalog_block_def Let_def e)
  show "length (c_entries c) < u32_limit"
    using n cnt by simp
qed

lemma catalog_decode_iff:
  "catalog_decode crc bs = Inr c \<longleftrightarrow> bs = catalog_block crc c \<and> length (c_entries c) < u32_limit"
  using catalog_decode_Inr catalog_decode_block by blast

end
