(* ===== verification/Journal_Frames.thy ===== *)
theory Journal_Frames
  imports Catalog
begin

text \<open>
  The fixed-size records of the \<open>active.parts\<close> journal
  (\<open>crates/kronika-format/src/parts.rs\<close>): the 36-byte root header, the 32-byte reset marker with
  the classification of an observed header during a committed reset, and the 16-byte frame header.
  Byte arrays of a fixed size are lists; the codec laws are stated at the exact widths.
\<close>

section \<open>Constants\<close>

definition FRAME_MAGIC :: "u8 list" where
  "FRAME_MAGIC = [80, 71, 77, 80]"

definition JOURNAL_MAGIC :: "u8 list" where
  "JOURNAL_MAGIC = [80, 71, 75, 74, 78, 76, 49, 0]"

definition JOURNAL_VERSION :: u32 where
  "JOURNAL_VERSION = 1"

definition JOURNAL_HEADER_LEN :: nat where
  "JOURNAL_HEADER_LEN = 36"

definition RESET_MARKER_MAGIC :: "u8 list" where
  "RESET_MARKER_MAGIC = [80, 71, 75, 82, 83, 84, 49, 0]"

definition RESET_MARKER_LEN :: nat where
  "RESET_MARKER_LEN = 32"

definition FRAME_HEADER_LEN :: nat where
  "FRAME_HEADER_LEN = 16"

lemma length_magics [simp]:
  "length FRAME_MAGIC = 4" "length JOURNAL_MAGIC = 8" "length RESET_MARKER_MAGIC = 8"
  by (simp_all add: FRAME_MAGIC_def JOURNAL_MAGIC_def RESET_MARKER_MAGIC_def)

lemmas frame_lens = JOURNAL_HEADER_LEN_def RESET_MARKER_LEN_def FRAME_HEADER_LEN_def

section \<open>Root header\<close>

datatype journal_state = Empty | Active i64

record journal_header =
  jh_state :: journal_state
  jh_body_len :: u64

datatype journal_header_error =
    UnsupportedMagic "u8 list"
  | UnsupportedVersion u32
  | BadChecksum u32 u32
  | InvalidState u8
  | MissingIdentity
  | UnexpectedIdentity
  | NonZeroReserved

definition header_EMPTY :: journal_header where
  "header_EMPTY = \<lparr>jh_state = Empty, jh_body_len = 0\<rparr>"

text \<open>Bytes 12..24: state, identity flag, two reserved bytes, segment id.\<close>

definition encode_state :: "journal_state \<Rightarrow> u8 list" where
  "encode_state s = (case s of
      Empty \<Rightarrow> [0, 0, 0, 0] @ u64_to_le 0
    | Active segment_id \<Rightarrow> [1, 1, 0, 0] @ u64_to_le segment_id)"

definition header_encode :: "(u8 list \<Rightarrow> u32) \<Rightarrow> journal_header \<Rightarrow> u8 list" where
  "header_encode crc h =
     (let bytes = JOURNAL_MAGIC @ u32_to_le JOURNAL_VERSION @ encode_state (jh_state h)
                  @ u64_to_le (jh_body_len h)
      in bytes @ u32_to_le (crc bytes))"

definition header_decode :: "(u8 list \<Rightarrow> u32) \<Rightarrow> u8 list \<Rightarrow> journal_header_error + journal_header" where
  "header_decode crc bytes =
     (if subslice 0 8 bytes \<noteq> JOURNAL_MAGIC then Inl (UnsupportedMagic (subslice 0 8 bytes))
      else
        let version = u32_from_le (subslice 8 12 bytes) in
        if version \<noteq> JOURNAL_VERSION then Inl (UnsupportedVersion version)
        else
          let stored = u32_from_le (subslice 32 36 bytes); computed = crc (subslice 0 32 bytes) in
          if stored \<noteq> computed then Inl (BadChecksum stored computed)
          else if bytes ! 14 \<noteq> 0 \<or> bytes ! 15 \<noteq> 0 then Inl NonZeroReserved
          else
            let id_present = bytes ! 13;
                segment_id = u64_from_le (subslice 16 24 bytes);
                body_len = u64_from_le (subslice 24 32 bytes);
                ok = (\<lambda>s. Inr \<lparr>jh_state = s, jh_body_len = body_len\<rparr>) in
            if bytes ! 12 = 0 \<and> id_present = 0 then
              (if segment_id \<noteq> 0 then Inl UnexpectedIdentity else ok Empty)
            else if bytes ! 12 = 1 \<and> id_present = 1 then ok (Active segment_id)
            else if bytes ! 12 = 1 \<and> id_present = 0 then Inl MissingIdentity
            else if bytes ! 12 = 0 \<and> id_present = 1 then Inl UnexpectedIdentity
            else Inl (InvalidState (bytes ! 12)))"

section \<open>Frame header\<close>

record frame_header =
  fh_part_len :: u64

datatype frame_error = FrameBadMagic "u8 list" | FrameBadCrc u32 u32

definition frame_encode :: "(u8 list \<Rightarrow> u32) \<Rightarrow> frame_header \<Rightarrow> u8 list" where
  "frame_encode crc h =
     (let out = FRAME_MAGIC @ u64_to_le (fh_part_len h) in out @ u32_to_le (crc out))"

definition split_header :: "u8 list \<Rightarrow> u8 list \<times> u32" where
  "split_header bytes = (subslice 0 12 bytes, u32_from_le (subslice 12 16 bytes))"

definition frame_decode :: "(u8 list \<Rightarrow> u32) \<Rightarrow> u8 list \<Rightarrow> frame_error + frame_header" where
  "frame_decode crc bytes =
     (let (meta, stored_crc) = split_header bytes in
      if subslice 0 4 meta \<noteq> FRAME_MAGIC then Inl (FrameBadMagic (subslice 0 4 meta))
      else
        let computed = crc meta in
        if stored_crc \<noteq> computed then Inl (FrameBadCrc stored_crc computed)
        else Inr \<lparr>fh_part_len = u64_from_le (subslice 4 12 meta)\<rparr>)"

section \<open>Reset marker\<close>

record reset_marker =
  rm_previous_len :: u64
  rm_previous_segment_id :: i64
  rm_previous_header_crc :: u32

datatype reset_header_transition = Previous | EmptyHeader | Torn

definition marker_new :: "(u8 list \<Rightarrow> u32) \<Rightarrow> u64 \<Rightarrow> i64 \<Rightarrow> reset_marker option" where
  "marker_new crc previous_len previous_segment_id =
     (if previous_len \<le> of_nat JOURNAL_HEADER_LEN then None
      else
        let header = \<lparr>jh_state = Active previous_segment_id,
                      jh_body_len = previous_len - of_nat JOURNAL_HEADER_LEN\<rparr> in
        Some \<lparr>rm_previous_len = previous_len, rm_previous_segment_id = previous_segment_id,
              rm_previous_header_crc = crc (header_encode crc header)\<rparr>)"

definition marker_encode :: "(u8 list \<Rightarrow> u32) \<Rightarrow> reset_marker \<Rightarrow> u8 list" where
  "marker_encode crc m =
     (let bytes = RESET_MARKER_MAGIC @ u64_to_le (rm_previous_len m)
                  @ u64_to_le (rm_previous_segment_id m) @ u32_to_le (rm_previous_header_crc m)
      in bytes @ u32_to_le (crc bytes))"

definition marker_decode :: "(u8 list \<Rightarrow> u32) \<Rightarrow> u8 list \<Rightarrow> reset_marker option" where
  "marker_decode crc bytes =
     (if subslice 0 8 bytes \<noteq> RESET_MARKER_MAGIC then None
      else
        let stored = u32_from_le (subslice 28 32 bytes) in
        if stored \<noteq> crc (subslice 0 28 bytes) then None
        else Some \<lparr>rm_previous_len = u64_from_le (subslice 8 16 bytes),
                   rm_previous_segment_id = u64_from_le (subslice 16 24 bytes),
                   rm_previous_header_crc = u32_from_le (subslice 24 28 bytes)\<rparr>)"

definition expected_previous_header :: "(u8 list \<Rightarrow> u32) \<Rightarrow> reset_marker \<Rightarrow> journal_header option" where
  "expected_previous_header crc m =
     (case marker_new crc (rm_previous_len m) (rm_previous_segment_id m) of
        None \<Rightarrow> None
      | Some marker \<Rightarrow>
          if rm_previous_header_crc marker = rm_previous_header_crc m then
            Some \<lparr>jh_state = Active (rm_previous_segment_id m),
                  jh_body_len = rm_previous_len m - of_nat JOURNAL_HEADER_LEN\<rparr>
          else None)"

definition classify_header_transition ::
    "(u8 list \<Rightarrow> u32) \<Rightarrow> reset_marker \<Rightarrow> u8 list \<Rightarrow> reset_header_transition option" where
  "classify_header_transition crc m observed =
     (case expected_previous_header crc m of
        None \<Rightarrow> None
      | Some header \<Rightarrow>
          let previous = header_encode crc header; empty = header_encode crc header_EMPTY in
          if observed = previous then Some Previous
          else if observed = empty then Some EmptyHeader
          else if list_ex (\<lambda>split. take split observed = take split empty
                                 \<and> drop split observed = drop split previous)
                    [1..<JOURNAL_HEADER_LEN]
          then Some Torn
          else None)"

section \<open>Codec laws\<close>

lemma length_encode_state [simp]: "length (encode_state s) = 12"
  by (simp add: encode_state_def split: journal_state.splits)

lemma length_header_encode [simp]: "length (header_encode crc h) = 36"
  by (simp add: header_encode_def Let_def)

lemma length_frame_encode [simp]: "length (frame_encode crc h) = 16"
  by (simp add: frame_encode_def Let_def)

lemma length_marker_encode [simp]: "length (marker_encode crc m) = 32"
  by (simp add: marker_encode_def Let_def)

lemma u64_to_le_0: "u64_to_le 0 = replicate 8 0"
  by (simp add: u64_to_le_def le_enc_0)

lemma header_decode_encode: "header_decode crc (header_encode crc h) = Inr h"
  by (cases "jh_state h")
     (simp_all add: header_decode_def header_encode_def encode_state_def Let_def subslice_def nth_append)

lemma header_encode_decode:
  assumes "length bs = 36" and "header_decode crc bs = Inr h"
  shows "header_encode crc h = bs"
proof -
  let ?mid = "subslice 12 16 bs"
  have mid: "?mid = [bs ! 12, bs ! 13, bs ! 14, bs ! 15]"
  proof (rule nth_equalityI)
    show "length ?mid = length [bs ! 12, bs ! 13, bs ! 14, bs ! 15]"
      using assms(1) by (simp add: length_subslice)
  next
    fix i assume "i < length ?mid"
    then have "i < 4" using assms(1) by (simp add: length_subslice)
    then show "?mid ! i = [bs ! 12, bs ! 13, bs ! 14, bs ! 15] ! i"
      using assms(1) by (auto simp: subslice_def less_Suc_eq numeral_eq_Suc)
  qed
  have pre: "subslice 0 8 bs @ subslice 8 12 bs @ ?mid @ subslice 16 24 bs @ subslice 24 32 bs = subslice 0 32 bs"
    and all: "subslice 0 32 bs @ subslice 32 36 bs = bs"
    using assms(1) by (simp_all add: append_slices slice_all)
  from assms(2) have magic: "JOURNAL_MAGIC = subslice 0 8 bs"
    and ver: "JOURNAL_VERSION = u32_from_le (subslice 8 12 bs)"
    and sum: "u32_from_le (subslice 32 36 bs) = crc (subslice 0 32 bs)"
    and body: "jh_body_len h = u64_from_le (subslice 24 32 bs)"
    by (auto simp: header_decode_def Let_def split: if_splits)
  have seg: "u64_to_le (u64_from_le (subslice 16 24 bs)) = subslice 16 24 bs"
    using assms(1) by (simp add: u64_to_from_le length_subslice)
  have state: "encode_state (jh_state h) = ?mid @ subslice 16 24 bs"
    using assms(2) seg by (auto simp: header_decode_def Let_def mid encode_state_def split: if_splits)
  have "JOURNAL_MAGIC @ u32_to_le JOURNAL_VERSION @ encode_state (jh_state h) @ u64_to_le (jh_body_len h)
      = subslice 0 32 bs"
    using assms(1) pre by (simp add: magic ver state body u32_to_from_le u64_to_from_le length_subslice)
  then show ?thesis
    using assms(1) all sum by (simp add: header_encode_def Let_def u32_to_from_le length_subslice flip: sum)
qed

lemma frame_decode_encode: "frame_decode crc (frame_encode crc h) = Inr h"
  by (simp add: frame_decode_def split_header_def frame_encode_def Let_def subslice_def)

lemma frame_encode_decode:
  assumes "length bs = 16" and "frame_decode crc bs = Inr h"
  shows "frame_encode crc h = bs"
proof -
  have pre: "subslice 0 4 bs @ subslice 4 12 bs = subslice 0 12 bs"
    and all: "subslice 0 12 bs @ subslice 12 16 bs = bs"
    using assms(1) by (simp_all add: append_slices slice_all)
  from assms(2) have magic: "FRAME_MAGIC = subslice 0 4 bs"
    and sum: "u32_from_le (subslice 12 16 bs) = crc (subslice 0 12 bs)"
    and len: "fh_part_len h = u64_from_le (subslice 4 12 bs)"
    by (auto simp: frame_decode_def split_header_def Let_def slice_slice split: if_splits)
  have "FRAME_MAGIC @ u64_to_le (fh_part_len h) = subslice 0 12 bs"
    using assms(1) pre by (simp add: magic len u64_to_from_le length_subslice)
  then show ?thesis
    using assms(1) all by (simp add: frame_encode_def Let_def u32_to_from_le length_subslice flip: sum)
qed

lemma marker_decode_encode: "marker_decode crc (marker_encode crc m) = Some m"
  by (simp add: marker_decode_def marker_encode_def Let_def subslice_def)

lemma marker_encode_decode:
  assumes "length bs = 32" and "marker_decode crc bs = Some m"
  shows "marker_encode crc m = bs"
proof -
  have pre: "subslice 0 8 bs @ subslice 8 16 bs @ subslice 16 24 bs @ subslice 24 28 bs = subslice 0 28 bs"
    and all: "subslice 0 28 bs @ subslice 28 32 bs = bs"
    using assms(1) by (simp_all add: append_slices slice_all)
  from assms(2) have magic: "RESET_MARKER_MAGIC = subslice 0 8 bs"
    and sum: "u32_from_le (subslice 28 32 bs) = crc (subslice 0 28 bs)"
    and m: "m = \<lparr>rm_previous_len = u64_from_le (subslice 8 16 bs),
                 rm_previous_segment_id = u64_from_le (subslice 16 24 bs),
                 rm_previous_header_crc = u32_from_le (subslice 24 28 bs)\<rparr>"
    by (auto simp: marker_decode_def Let_def split: if_splits)
  have "RESET_MARKER_MAGIC @ u64_to_le (rm_previous_len m) @ u64_to_le (rm_previous_segment_id m)
      @ u32_to_le (rm_previous_header_crc m) = subslice 0 28 bs"
    using assms(1) pre by (simp add: magic m u32_to_from_le u64_to_from_le length_subslice)
  then show ?thesis
    using assms(1) all by (simp add: marker_encode_def Let_def u32_to_from_le length_subslice flip: sum)
qed

text \<open>The option-valued marker decoder, as a codec with a unit error.\<close>

definition marker_result :: "(u8 list \<Rightarrow> u32) \<Rightarrow> u8 list \<Rightarrow> unit + reset_marker" where
  "marker_result crc bs = (case marker_decode crc bs of None \<Rightarrow> Inl () | Some m \<Rightarrow> Inr m)"

interpretation header: fixed_codec "header_encode crc" "header_decode crc" JOURNAL_HEADER_LEN for crc
  by unfold_locales (auto simp: frame_lens header_decode_encode header_encode_decode)

interpretation frame: fixed_codec "frame_encode crc" "frame_decode crc" FRAME_HEADER_LEN for crc
  by unfold_locales (auto simp: frame_lens frame_decode_encode frame_encode_decode)

interpretation marker: fixed_codec "marker_encode crc" "marker_result crc" RESET_MARKER_LEN for crc
  by unfold_locales
     (auto simp: frame_lens marker_result_def marker_decode_encode marker_encode_decode split: option.splits)

section \<open>Committed reset transitions\<close>

lemma marker_new_Some:
  "marker_new crc len sid = Some m \<longleftrightarrow> 36 < unat len \<and>
     m = \<lparr>rm_previous_len = len, rm_previous_segment_id = sid, rm_previous_header_crc =
       crc (header_encode crc \<lparr>jh_state = Active sid, jh_body_len = len - 36\<rparr>)\<rparr>"
  by (auto simp: marker_new_def frame_lens word_le_nat_alt not_le Let_def)

lemma expected_previous_header_new:
  "marker_new crc len sid = Some m \<Longrightarrow>
     expected_previous_header crc m = Some \<lparr>jh_state = Active sid, jh_body_len = len - 36\<rparr>"
  by (auto simp: expected_previous_header_def marker_new_Some frame_lens split: option.splits)

text \<open>The bytes of a header rewrite that stopped after \<open>k\<close> bytes.\<close>

definition torn_rewrite :: "nat \<Rightarrow> 'a list \<Rightarrow> 'a list \<Rightarrow> 'a list" where
  "torn_rewrite k new old = take k new @ drop k old"

lemma classify_iff:
  assumes "length observed = 36" and "expected_previous_header crc m = Some h"
  shows "classify_header_transition crc m observed \<noteq> None \<longleftrightarrow>
    (\<exists>k \<le> 36. observed = torn_rewrite k (header_encode crc header_EMPTY) (header_encode crc h))"
    (is "?l \<longleftrightarrow> ?r")
proof -
  let ?new = "header_encode crc header_EMPTY" and ?old = "header_encode crc h"
  have split_iff: "take k observed = take k ?new \<and> drop k observed = drop k ?old
      \<longleftrightarrow> observed = torn_rewrite k ?new ?old" if "k \<le> 36" for k
    using that assms(1) append_take_drop_id [of k observed]
    by (auto simp: torn_rewrite_def) (metis append_take_drop_id)
  have "?l \<longleftrightarrow> observed = ?old \<or> observed = ?new \<or>
      (\<exists>k \<in> {1..<36}. observed = torn_rewrite k ?new ?old)"
    using assms(2) split_iff
    by (auto simp: classify_header_transition_def Let_def list_ex_iff frame_lens)
  also have "\<dots> \<longleftrightarrow> (\<exists>k \<le> 36. observed = torn_rewrite k ?new ?old)" (is "?a \<longleftrightarrow> ?b")
  proof
    assume ?a
    then have "\<exists>k \<in> {0, 36} \<union> {1..<36}. observed = torn_rewrite k ?new ?old"
      by (auto simp: torn_rewrite_def)
    then obtain k where "k \<in> {0, 36} \<union> {1..<36}" and obs: "observed = torn_rewrite k ?new ?old"
      by blast
    then have "k \<le> 36" by auto
    with obs show ?b by blast
  next
    assume ?b
    then obtain k where k: "k \<le> 36" "observed = torn_rewrite k ?new ?old" by blast
    then consider "k = 0" | "k = 36" | "k \<in> {1..<36}" by fastforce
    then show ?a using k(2) by cases (auto simp: torn_rewrite_def)
  qed
  finally show ?thesis .
qed

section \<open>Properties\<close>

text \<open>
  The root header codec is exact: among 36-byte strings, the decoder accepts precisely the
  encodings, and it returns the encoded header.
\<close>

theorem header_codec_exact:
  assumes "length bs = 36"
  shows "header_decode crc bs = Inr h \<longleftrightarrow> bs = header_encode crc h"
  using header.dec_iff [of bs crc h] assms by (simp add: frame_lens)

lemma header_codec_exact_witness:
  "header_decode sum_crc (header_encode sum_crc \<lparr>jh_state = Active 9, jh_body_len = 60\<rparr>) =
     Inr \<lparr>jh_state = Active 9, jh_body_len = 60\<rparr>"
  using header_codec_exact [of "header_encode sum_crc \<lparr>jh_state = Active 9, jh_body_len = 60\<rparr>"] by simp

text \<open>
  Reset transitions: for the marker of a non-empty generation, an observed 36-byte header is
  classified as a reset transition exactly when it is what a rewrite of the previous active header
  into the empty header leaves after some number of bytes, from none to all 36.
\<close>

theorem reset_transition_exact:
  assumes "marker_new crc previous_len segment_id = Some m" and "length observed = 36"
  shows "classify_header_transition crc m observed \<noteq> None \<longleftrightarrow>
    (\<exists>k \<le> 36. observed = torn_rewrite k (header_encode crc header_EMPTY)
       (header_encode crc \<lparr>jh_state = Active segment_id, jh_body_len = previous_len - 36\<rparr>))"
  using classify_iff [OF assms(2) expected_previous_header_new [OF assms(1)]] .

lemma reset_transition_exact_witness:
  "\<exists>m. marker_new sum_crc 100 9 = Some m
    \<and> classify_header_transition sum_crc m (torn_rewrite 20 (header_encode sum_crc header_EMPTY)
        (header_encode sum_crc \<lparr>jh_state = Active 9, jh_body_len = 64\<rparr>)) \<noteq> None"
proof -
  obtain m where m: "marker_new sum_crc 100 9 = Some m"
    by (simp add: marker_new_def frame_lens)
  show ?thesis
    using reset_transition_exact [OF m, of "torn_rewrite 20 (header_encode sum_crc header_EMPTY)
        (header_encode sum_crc \<lparr>jh_state = Active 9, jh_body_len = 64\<rparr>)"] m
    by (auto simp: torn_rewrite_def intro: exI [of _ 20])
qed

end
