(* ===== verification/Parts.thy ===== *)
theory Parts
  imports Journal_Frames
begin

text \<open>
  Self-contained PGM parts (\<open>crates/kronika-format/src/parts.rs\<close>): assembling section bodies
  with \<open>build_part\<close>, and validating the framing, catalog, layout and section checksums of a
  byte range with \<open>validate_part\<close>.
\<close>

section \<open>Validation\<close>

datatype part_error =
    TooShort nat
  | PartBadMagic "u8 list"
  | Tail decode_error
  | PartBadCatalogLen u32
  | PartCatalog decode_error
  | PartLayout catalog_layout_error
  | SectionOutOfBounds u32
  | SectionCrc u32 u32 u32

definition decode_and_bound :: "(u8 list \<Rightarrow> u32) \<Rightarrow> u8 list \<Rightarrow> part_error + catalog" where
  "decode_and_bound crc bytes =
     (let min_len = length MAGIC + META_LEN + TAIL_INDEX_LEN in
      if length bytes < min_len then Inl (TooShort (length bytes))
      else if subslice 0 4 bytes \<noteq> MAGIC then Inl (PartBadMagic (subslice 0 4 bytes))
      else
        (case tail_decode (drop (length bytes - TAIL_INDEX_LEN) bytes) of
           Inl e \<Rightarrow> Inl (Tail e)
         | Inr tail \<Rightarrow>
             let catalog_len = unat (t_catalog_len tail);
                 body_end = length bytes - TAIL_INDEX_LEN in
             if body_end < catalog_len then Inl (PartBadCatalogLen (t_catalog_len tail))
             else
               let catalog_start = body_end - catalog_len in
               if catalog_start < length MAGIC then Inl (PartBadCatalogLen (t_catalog_len tail))
               else
                 (case catalog_decode crc (subslice catalog_start body_end bytes) of
                    Inl e \<Rightarrow> Inl (PartCatalog e)
                  | Inr catalog \<Rightarrow>
                      (case validate_catalog_layout catalog (of_nat catalog_start) of
                         Inl e \<Rightarrow> Inl (PartLayout e)
                       | Inr _ \<Rightarrow> Inr catalog))))"

definition entry_body :: "u8 list \<Rightarrow> entry \<Rightarrow> u8 list" where
  "entry_body bytes e = subslice (unat (e_offset e)) (unat (e_offset e + e_len e)) bytes"

fun check_sections :: "(u8 list \<Rightarrow> u32) \<Rightarrow> u8 list \<Rightarrow> entry list \<Rightarrow> part_error option" where
  "check_sections crc bytes [] = None"
| "check_sections crc bytes (e # es) =
     (let computed = crc (entry_body bytes e) in
      if computed \<noteq> e_crc32c e then Some (SectionCrc (e_type_id e) (e_crc32c e) computed)
      else check_sections crc bytes es)"

definition validate_part :: "(u8 list \<Rightarrow> u32) \<Rightarrow> u8 list \<Rightarrow> part_error + catalog" where
  "validate_part crc bytes =
     (case decode_and_bound crc bytes of
        Inl e \<Rightarrow> Inl e
      | Inr catalog \<Rightarrow>
          (case check_sections crc bytes (c_entries catalog) of
             Some e \<Rightarrow> Inl e
           | None \<Rightarrow> Inr catalog))"

definition validate_part_catalog :: "(u8 list \<Rightarrow> u32) \<Rightarrow> u8 list \<Rightarrow> part_error + catalog" where
  "validate_part_catalog crc bytes = decode_and_bound crc bytes"

section \<open>Assembly\<close>

record section_input =
  si_type_id :: u32
  si_rows :: u32
  si_body :: "u8 list"

record part_meta =
  pm_min_ts :: i64
  pm_max_ts :: i64

text \<open>The closure over the sections: it appends the body to \<open>out\<close> and yields its entry.\<close>

fun build_entries :: "(u8 list \<Rightarrow> u32) \<Rightarrow> section_input list \<Rightarrow> u8 list \<Rightarrow> entry list \<times> u8 list" where
  "build_entries crc [] out = ([], out)"
| "build_entries crc (s # ss) out =
     (let offset = of_nat (length out);
          (es, out') = build_entries crc ss (out @ si_body s)
      in (\<lparr>e_type_id = si_type_id s, e_flags = 0, e_offset = offset,
           e_len = of_nat (length (si_body s)), e_rows = si_rows s,
           e_crc32c = crc (si_body s)\<rparr> # es, out'))"

definition part_catalog :: "entry list \<Rightarrow> part_meta \<Rightarrow> catalog" where
  "part_catalog entries meta = \<lparr>c_entries = entries, c_min_ts = pm_min_ts meta,
     c_max_ts = pm_max_ts meta, c_format_version = FORMAT_VERSION, c_window_count = 1\<rparr>"

definition build_part :: "(u8 list \<Rightarrow> u32) \<Rightarrow> section_input list \<Rightarrow> part_meta \<Rightarrow> u8 list option" where
  "build_part crc sections meta =
     (let (entries, out) = build_entries crc sections MAGIC in
      case catalog_encode crc (part_catalog entries meta) of
        None \<Rightarrow> None
      | Some encoded \<Rightarrow> Some (out @ encoded))"

section \<open>The canonical part format\<close>

text \<open>
  The bytes of a canonical part for a catalog and the section area between the leading magic and
  the catalog.
\<close>

definition part_bytes :: "(u8 list \<Rightarrow> u32) \<Rightarrow> catalog \<Rightarrow> u8 list \<Rightarrow> u8 list" where
  "part_bytes crc c area =
     MAGIC @ area @ catalog_block crc c @ tail_encode \<lparr>t_catalog_len = of_nat (encoded_len c)\<rparr>"

definition part_layout :: "catalog \<Rightarrow> u8 list \<Rightarrow> bool" where
  "part_layout c area \<longleftrightarrow> encoded_len c < u32_limit \<and> canonical_layout (c_entries c) (4 + length area)"

lemma length_part_bytes: "length (part_bytes crc c area) = length area + encoded_len c + 12"
  by (simp add: part_bytes_def length_catalog_block)

lemma encoded_len_entries: "encoded_len c < u32_limit \<Longrightarrow> length (c_entries c) < u32_limit"
  by (simp add: encoded_len_def layout_lens)

lemma decode_and_bound_part_bytes:
  assumes "part_layout c area" and "length (part_bytes crc c area) < usize_limit"
  shows "decode_and_bound crc (part_bytes crc c area) = Inr c"
proof -
  let ?tail = "tail_encode \<lparr>t_catalog_len = of_nat (encoded_len c)\<rparr>"
  let ?bs = "part_bytes crc c area"
  have len: "length ?bs = length area + encoded_len c + 12"
    by (rule length_part_bytes)
  have el: "unat (of_nat (encoded_len c) :: u32) = encoded_len c"
    using assms(1) by (simp add: part_layout_def unat_of_nat_32)
  have min: "32 \<le> encoded_len c"
    by (simp add: encoded_len_def layout_lens)
  have tl: "drop (length ?bs - 8) ?bs = ?tail"
    by (simp add: len) (simp add: part_bytes_def length_catalog_block)
  have blk: "subslice (length area + 4) (length area + encoded_len c + 4) ?bs = catalog_block crc c"
    by (simp add: part_bytes_def subslice_def length_catalog_block)
  have dec: "catalog_decode crc (catalog_block crc c) = Inr c"
    using assms(1) by (intro catalog_decode_block encoded_len_entries) (simp add: part_layout_def)
  have at: "unat (of_nat (length area + 4) :: u64) = length area + 4"
    using assms(2) len by (intro unat_of_nat_64) linarith
  have lay: "validate_catalog_layout c (of_nat (length area + 4)) = Inr ()"
    using assms(1) by (simp only: validate_catalog_layout_iff at part_layout_def add.commute)
  have lay': "validate_catalog_layout c (of_nat (length area) + 4) = Inr ()"
    using lay by (simp only: of_nat_add of_nat_numeral)
  have magic: "subslice 0 4 ?bs = MAGIC"
    by (simp add: part_bytes_def subslice_def)
  have start: "length area + encoded_len c + 12 - 8 - encoded_len c = length area + 4"
    "length area + encoded_len c + 12 - 8 = length area + encoded_len c + 4" by simp_all
  show ?thesis
    using min
    unfolding decode_and_bound_def Let_def layout_lens tl tail_decode_encode magic
    by (simp add: len el start blk dec lay')
qed

lemma decode_and_bound_Inr:
  assumes "decode_and_bound crc bs = Inr c" and small: "length bs < usize_limit"
  obtains area where "bs = part_bytes crc c area" and "part_layout c area"
proof -
  let ?stop = "length bs - 8"
  let ?tail = "drop ?stop bs"
  from assms(1) obtain t where long: "44 \<le> length bs" and magic: "subslice 0 4 bs = MAGIC"
    and t: "tail_decode ?tail = Inr t" and fits: "unat (t_catalog_len t) \<le> ?stop"
    and start: "4 \<le> ?stop - unat (t_catalog_len t)"
    and dec: "catalog_decode crc (subslice (?stop - unat (t_catalog_len t)) ?stop bs) = Inr c"
    and lay: "validate_catalog_layout c (of_nat (?stop - unat (t_catalog_len t))) = Inr ()"
    by (auto simp: decode_and_bound_def Let_def layout_lens not_less split: if_splits sum.splits)
  define cat_at where "cat_at = ?stop - unat (t_catalog_len t)"
  let ?area = "subslice 4 cat_at bs"
  have blk: "subslice cat_at ?stop bs = catalog_block crc c" and n: "length (c_entries c) < u32_limit"
    using dec catalog_decode_Inr [of crc _ c] by (simp_all add: cat_at_def)
  have el: "encoded_len c = unat (t_catalog_len t)"
    using arg_cong [OF blk, of length] fits by (simp add: length_catalog_block length_subslice cat_at_def)
  have "tail_encode \<lparr>t_catalog_len = t_catalog_len t\<rparr> = tail_encode t"
    by (cases t) simp
  then have tail: "tail_encode \<lparr>t_catalog_len = of_nat (encoded_len c)\<rparr> = ?tail"
    using tail_encode_decode [OF _ t] long by (simp add: el)
  have la: "4 + length ?area = cat_at"
    using start by (simp add: length_subslice cat_at_def)
  have "bs = subslice 0 4 bs @ ?area @ subslice cat_at ?stop bs @ subslice ?stop (length bs) bs"
    using start fits long by (simp add: append_slices slice_all cat_at_def)
  then have bs: "bs = part_bytes crc c ?area"
    using magic blk tail long by (simp add: part_bytes_def subslice_def)
  have "unat (of_nat cat_at :: u64) = cat_at"
    using small by (intro unat_of_nat_64) (simp add: cat_at_def)
  then have "canonical_layout (c_entries c) cat_at"
    using lay [folded cat_at_def, unfolded validate_catalog_layout_iff] by (simp only:)
  then have "canonical_layout (c_entries c) (4 + length ?area)"
    by (simp only: la)
  then have "part_layout c ?area"
    using unat_less_32 [of "t_catalog_len t"] by (simp add: part_layout_def el)
  with bs show ?thesis by (rule that)
qed

section \<open>Section bodies\<close>

lemma check_sections_None:
  "check_sections crc bs es = None \<longleftrightarrow> (\<forall>e \<in> set es. crc (entry_body bs e) = e_crc32c e)"
  by (induction es) (auto simp: Let_def)

lemma entry_body_tile:
  assumes "unat (e_offset e) = n" and "n + unat (e_len e) \<le> length bs" and "length bs < usize_limit"
  shows "entry_body bs e = subslice n (n + unat (e_len e)) bs"
proof -
  have "unat (e_offset e + e_len e) = n + unat (e_len e)"
    using assms by (simp add: unat_word_ariths)
  with assms(1) show ?thesis by (simp add: entry_body_def)
qed

lemma concat_bodies:
  assumes "bodies_tile n es" and "n + sum_list (body_lens es) \<le> length bs" and "length bs < usize_limit"
  shows "concat (map (entry_body bs) es) = subslice n (n + sum_list (body_lens es)) bs"
  using assms
proof (induction es arbitrary: n)
  case Nil
  then show ?case by (simp add: body_lens_def subslice_def)
next
  case (Cons e es)
  have "concat (map (entry_body bs) es) = subslice (n + unat (e_len e))
      (n + unat (e_len e) + sum_list (body_lens es)) bs"
    using Cons.prems by (intro Cons.IH) (simp_all add: body_lens_def)
  moreover have "entry_body bs e = subslice n (n + unat (e_len e)) bs"
    using Cons.prems by (intro entry_body_tile) (simp_all add: body_lens_def)
  ultimately show ?case
    by (simp add: append_slices body_lens_def add.assoc)
qed

lemma length_entry_bodies:
  assumes "bodies_tile n es" and "n + sum_list (body_lens es) \<le> length bs" and "length bs < usize_limit"
  shows "map (\<lambda>e. length (entry_body bs e)) es = body_lens es"
  using assms
proof (induction es arbitrary: n)
  case Nil
  then show ?case by (simp add: body_lens_def)
next
  case (Cons e es)
  have "map (\<lambda>e. length (entry_body bs e)) es = body_lens es"
    using Cons.prems by (intro Cons.IH [of "n + unat (e_len e)"]) (simp_all add: body_lens_def)
  moreover have "entry_body bs e = subslice n (n + unat (e_len e)) bs"
    using Cons.prems by (intro entry_body_tile) (simp_all add: body_lens_def)
  ultimately show ?case
    using Cons.prems by (simp add: body_lens_def length_subslice)
qed

lemma validate_part_Inr:
  "validate_part crc bs = Inr c \<longleftrightarrow>
     decode_and_bound crc bs = Inr c \<and> (\<forall>e \<in> set (c_entries c). crc (entry_body bs e) = e_crc32c e)"
  using check_sections_None [of crc bs "c_entries c"]
  by (auto simp: validate_part_def split: sum.splits option.splits)

section \<open>Assembled parts\<close>

definition section_ok :: "section_input \<Rightarrow> bool" where
  "section_ok s \<longleftrightarrow> si_rows s \<noteq> 0 \<and> si_rows s \<le> MAX_PHYSICAL_SECTION_ROWS
     \<and> si_body s \<noteq> [] \<and> length (si_body s) \<le> 8 * 1024 * 1024"

definition sections_canonical :: "section_input list \<Rightarrow> bool" where
  "sections_canonical ss \<longleftrightarrow> list_all section_ok ss
     \<and> sorted_wrt (<) (map (\<lambda>s. section_order_of (si_type_id s)) ss)"

lemma build_entries_Cons [simp]:
  "fst (build_entries crc (s # ss) out) =
     \<lparr>e_type_id = si_type_id s, e_flags = 0, e_offset = of_nat (length out),
      e_len = of_nat (length (si_body s)), e_rows = si_rows s, e_crc32c = crc (si_body s)\<rparr>
     # fst (build_entries crc ss (out @ si_body s))"
  "snd (build_entries crc (s # ss) out) = snd (build_entries crc ss (out @ si_body s))"
  by (simp_all add: Let_def case_prod_beta)

declare build_entries.simps(2) [simp del]

lemma build_entries_out: "snd (build_entries crc ss out) = out @ concat (map si_body ss)"
  by (induction ss arbitrary: out) auto

lemma build_entries_fields:
  "map e_type_id (fst (build_entries crc ss out)) = map si_type_id ss"
  "map e_rows (fst (build_entries crc ss out)) = map si_rows ss"
  "map e_crc32c (fst (build_entries crc ss out)) = map (\<lambda>s. crc (si_body s)) ss"
  "length (fst (build_entries crc ss out)) = length ss"
  by (induction ss arbitrary: out) auto

lemma build_entries_lens:
  "length (out @ concat (map si_body ss)) < usize_limit \<Longrightarrow>
     body_lens (fst (build_entries crc ss out)) = map (\<lambda>s. length (si_body s)) ss"
  by (induction ss arbitrary: out)
     (auto simp: body_lens_def unat_of_nat_64)

lemma build_entries_tile:
  "length (out @ concat (map si_body ss)) < usize_limit \<Longrightarrow>
     bodies_tile (length out) (fst (build_entries crc ss out))"
proof (induction ss arbitrary: out)
  case Nil
  then show ?case by simp
next
  case (Cons s ss)
  have "bodies_tile (length (out @ si_body s)) (fst (build_entries crc ss (out @ si_body s)))"
    using Cons.prems by (intro Cons.IH) simp
  then show ?case
    using Cons.prems by (simp add: unat_of_nat_64)
qed

lemma build_entries_orders:
  "entry_orders (fst (build_entries crc ss out)) = map (\<lambda>s. section_order_of (si_type_id s)) ss"
  using arg_cong [OF build_entries_fields(1), of "map section_order_of" crc ss out]
  by (simp add: entry_orders_def comp_def)

lemma build_entries_wf:
  "list_all section_ok ss \<Longrightarrow> list_all entry_wf (fst (build_entries crc ss out))"
proof (induction ss arbitrary: out)
  case Nil
  then show ?case by simp
next
  case (Cons s ss)
  have s: "si_rows s \<noteq> 0" "si_rows s \<le> MAX_PHYSICAL_SECTION_ROWS"
    "0 < length (si_body s)" "length (si_body s) \<le> 8388608"
    using Cons.prems by (simp_all add: section_ok_def)
  have "unat (of_nat (length (si_body s)) :: u64) = length (si_body s)"
    using s(4) by (intro unat_of_nat_64) simp
  then have "of_nat (length (si_body s)) \<noteq> (0 :: u64)"
    "of_nat (length (si_body s)) \<le> MAX_PHYSICAL_SECTION_BYTES"
    using s(3,4) by (auto simp: MAX_PHYSICAL_SECTION_BYTES_def word_le_nat_alt dest: arg_cong [of _ _ unat])
  with s Cons show ?case
    by (simp add: entry_wf_def)
qed

lemma build_part_Some:
  "build_part crc ss meta = Some bytes \<longleftrightarrow>
     (let c = part_catalog (fst (build_entries crc ss MAGIC)) meta in
      encoded_len c < u32_limit \<and> bytes = part_bytes crc c (concat (map si_body ss)))"
proof -
  let ?c = "part_catalog (fst (build_entries crc ss MAGIC)) meta"
  have "build_part crc ss meta =
      map_option (\<lambda>e. (MAGIC @ concat (map si_body ss)) @ e) (catalog_encode crc ?c)"
    by (simp add: build_part_def build_entries_out case_prod_beta option.case_eq_if option.map_sel
        Let_def flip: map_option_case) (cases "catalog_encode crc ?c"; simp)
  moreover have "catalog_encode crc ?c = Some e \<longleftrightarrow> write_encoded crc ?c = Inr e" for e
    by (simp add: catalog_encode_def split: sum.splits)
  ultimately show ?thesis
    by (auto simp: write_encoded_Inr part_bytes_def Let_def)
qed

definition sections_of :: "u8 list \<Rightarrow> catalog \<Rightarrow> section_input list" where
  "sections_of bs c = map (\<lambda>e. \<lparr>si_type_id = e_type_id e, si_rows = e_rows e,
     si_body = entry_body bs e\<rparr>) (c_entries c)"

definition meta_of :: "catalog \<Rightarrow> part_meta" where
  "meta_of c = \<lparr>pm_min_ts = c_min_ts c, pm_max_ts = c_max_ts c\<rparr>"

text \<open>Extracting the bodies of a canonical part gives back its section area.\<close>

lemma part_area_bodies:
  assumes "part_layout c area" and "length (part_bytes crc c area) < usize_limit"
  shows "concat (map (entry_body (part_bytes crc c area)) (c_entries c)) = area"
    and "map (\<lambda>e. length (entry_body (part_bytes crc c area) e)) (c_entries c) = body_lens (c_entries c)"
proof -
  let ?bs = "part_bytes crc c area"
  have tile: "bodies_tile 4 (c_entries c)" and sum: "sum_list (body_lens (c_entries c)) = length area"
    using assms(1) by (simp_all add: part_layout_def canonical_layout_def)
  have fit: "4 + sum_list (body_lens (c_entries c)) \<le> length ?bs"
    by (simp add: sum length_part_bytes)
  have "concat (map (entry_body ?bs) (c_entries c)) = subslice 4 (4 + length area) ?bs"
    using concat_bodies [OF tile fit assms(2)] by (simp add: sum)
  then show "concat (map (entry_body ?bs) (c_entries c)) = area"
    by (simp add: part_bytes_def subslice_def)
  show "map (\<lambda>e. length (entry_body ?bs e)) (c_entries c) = body_lens (c_entries c)"
    by (rule length_entry_bodies [OF tile fit assms(2)])
qed

text \<open>Two lists of chunks with equal lengths and equal concatenations are equal.\<close>

lemma concat_eq_lengths:
  "map length xs = map length ys \<Longrightarrow> concat xs = concat ys \<Longrightarrow> xs = ys"
proof (induction xs arbitrary: ys)
  case Nil
  then show ?case by simp
next
  case (Cons x xs)
  then obtain y ys' where "ys = y # ys'" by (cases ys) auto
  with Cons show ?case by (auto simp: append_eq_append_conv)
qed

lemma assembled_valid:
  assumes ss: "sections_canonical ss" and ce: "c_entries c = fst (build_entries crc ss MAGIC)"
    and fits: "encoded_len c < u32_limit" and small: "length (part_bytes crc c (concat (map si_body ss))) < usize_limit"
  shows "part_layout c (concat (map si_body ss))"
    and "validate_part crc (part_bytes crc c (concat (map si_body ss))) = Inr c"
    and "map (entry_body (part_bytes crc c (concat (map si_body ss)))) (c_entries c) = map si_body ss"
proof -
  let ?area = "concat (map si_body ss)" and ?es = "fst (build_entries crc ss MAGIC)"
  let ?bytes = "part_bytes crc c ?area"
  have short: "length (MAGIC @ ?area) < usize_limit" using small by (simp add: length_part_bytes)
  have lens: "body_lens ?es = map (\<lambda>s. length (si_body s)) ss"
    by (rule build_entries_lens [OF short])
  then have sum: "sum_list (body_lens ?es) = length ?area"
    by (simp add: length_concat comp_def)
  show lay: "part_layout c ?area"
    using ss fits build_entries_tile [OF short] build_entries_wf [of ss crc MAGIC] sum
    by (simp add: part_layout_def canonical_layout_def ce sections_canonical_def build_entries_orders)
  have "map (entry_body ?bytes) ?es = map si_body ss"
    using part_area_bodies [OF lay small] lens
    by (intro concat_eq_lengths) (simp_all add: ce comp_def)
  then show bodies: "map (entry_body ?bytes) (c_entries c) = map si_body ss"
    by (simp add: ce)
  have "map (\<lambda>e. crc (entry_body ?bytes e)) (c_entries c) = map e_crc32c (c_entries c)"
    using arg_cong [OF bodies, of "map crc"] by (simp add: ce build_entries_fields comp_def)
  then show "validate_part crc ?bytes = Inr c"
    using decode_and_bound_part_bytes [OF lay small]
    by (auto simp: validate_part_Inr map_eq_conv)
qed

lemma build_part_parts:
  assumes ss: "sections_canonical ss" and built: "build_part crc ss meta = Some bytes" and small: "length bytes < usize_limit"
  defines "c \<equiv> part_catalog (fst (build_entries crc ss MAGIC)) meta"
  shows "bytes = part_bytes crc c (concat (map si_body ss))"
    and "part_layout c (concat (map si_body ss))"
    and "validate_part crc bytes = Inr c"
    and "map (entry_body bytes) (c_entries c) = map si_body ss"
proof -
  have fits: "encoded_len c < u32_limit" and bytes: "bytes = part_bytes crc c (concat (map si_body ss))"
    using built by (simp_all add: build_part_Some c_def Let_def)
  have "c_entries c = fst (build_entries crc ss MAGIC)" by (simp add: c_def part_catalog_def)
  note valid = assembled_valid [OF ss this fits small [unfolded bytes]]
  show "bytes = part_bytes crc c (concat (map si_body ss))" by (rule bytes)
  show "part_layout c (concat (map si_body ss))" and "validate_part crc bytes = Inr c"
    and "map (entry_body bytes) (c_entries c) = map si_body ss"
    using valid by (simp_all add: bytes)
qed

lemma validate_part_sections_canonical:
  assumes "validate_part crc bs = Inr c" and "length bs < usize_limit"
  shows "sections_canonical (sections_of bs c)"
proof -
  from assms obtain area where bs: "bs = part_bytes crc c area" and lay: "part_layout c area"
    by (auto simp: validate_part_Inr elim: decode_and_bound_Inr)
  have lens: "map (\<lambda>e. length (entry_body bs e)) (c_entries c) = body_lens (c_entries c)"
    using part_area_bodies(2) [OF lay] assms(2) bs by simp
  then have ln: "e \<in> set (c_entries c) \<Longrightarrow> length (entry_body bs e) = unat (e_len e)" for e
    by (simp add: body_lens_def)
  have wf: "\<forall>e \<in> set (c_entries c). entry_wf e"
    using lay by (simp add: part_layout_def canonical_layout_def list_all_iff)
  then have "section_ok \<lparr>si_type_id = e_type_id e, si_rows = e_rows e, si_body = entry_body bs e\<rparr>"
    if "e \<in> set (c_entries c)" for e
    using that ln [OF that] entry_wf_len_bound [of e]
    by (auto simp: section_ok_def entry_wf_def unat_eq_0 dest!: arg_cong [of _ "[]" length])
  moreover have "sorted_wrt (<) (entry_orders (c_entries c))"
    using lay by (simp add: part_layout_def canonical_layout_def)
  ultimately show ?thesis
    by (simp add: sections_canonical_def sections_of_def list_all_iff entry_orders_def comp_def)
qed

lemma build_entries_of_entries:
  assumes "bodies_tile (length out) es"
    and "\<forall>e \<in> set es. e_flags e = 0 \<and> crc (entry_body bs e) = e_crc32c e
           \<and> length (entry_body bs e) = unat (e_len e)"
  shows "fst (build_entries crc (map (\<lambda>e. \<lparr>si_type_id = e_type_id e, si_rows = e_rows e,
     si_body = entry_body bs e\<rparr>) es) out) = es"
  using assms
proof (induction es arbitrary: out)
  case Nil
  then show ?case by simp
next
  case (Cons e es)
  have "of_nat (unat (e_len e)) = e_len e" and "of_nat (unat (e_offset e)) = e_offset e"
    by simp_all
  with Cons show ?case by simp
qed

lemma accepted_parts:
  assumes ok: "validate_part crc bs = Inr c" and small: "length bs < usize_limit"
  shows "fst (build_entries crc (sections_of bs c) MAGIC) = c_entries c"
    and "bs = part_bytes crc c (concat (map si_body (sections_of bs c)))"
    and "encoded_len c < u32_limit"
proof -
  from ok small obtain area where bs: "bs = part_bytes crc c area" and lay: "part_layout c area"
    by (auto simp: validate_part_Inr elim: decode_and_bound_Inr)
  have small': "length (part_bytes crc c area) < usize_limit"
    using small bs by simp
  have area: "concat (map (entry_body bs) (c_entries c)) = area"
    and lens: "map (\<lambda>e. length (entry_body bs e)) (c_entries c) = body_lens (c_entries c)"
    using part_area_bodies [OF lay small'] bs by simp_all
  have "\<forall>e \<in> set (c_entries c). e_flags e = 0 \<and> crc (entry_body bs e) = e_crc32c e
      \<and> length (entry_body bs e) = unat (e_len e)"
    using ok lay lens
    by (auto simp: validate_part_Inr part_layout_def canonical_layout_def list_all_iff entry_wf_def
        body_lens_def)
  moreover have "bodies_tile (length MAGIC) (c_entries c)"
    using lay by (simp add: part_layout_def canonical_layout_def)
  ultimately show "fst (build_entries crc (sections_of bs c) MAGIC) = c_entries c"
    unfolding sections_of_def by (intro build_entries_of_entries)
  have "concat (map si_body (sections_of bs c)) = area"
    using area by (simp add: sections_of_def comp_def)
  then show "bs = part_bytes crc c (concat (map si_body (sections_of bs c)))"
    using bs by simp
  show "encoded_len c < u32_limit" using lay by (simp add: part_layout_def)
qed

lemma part_catalog_self:
  "part_catalog (c_entries c) (meta_of c) = c \<longleftrightarrow> c_format_version c = FORMAT_VERSION \<and> c_window_count c = 1"
  by (cases c) (auto simp: part_catalog_def meta_of_def)

lemma rebuild_part:
  assumes ok: "validate_part crc bs = Inr c" and small: "length bs < usize_limit"
  shows "build_part crc (sections_of bs c) (meta_of c) = Some bs
    \<longleftrightarrow> c_format_version c = FORMAT_VERSION \<and> c_window_count c = 1"
proof
  assume built: "build_part crc (sections_of bs c) (meta_of c) = Some bs"
  have "validate_part crc bs = Inr (part_catalog (c_entries c) (meta_of c))"
    using build_part_parts(3) [OF validate_part_sections_canonical [OF assms] built small]
    by (simp add: accepted_parts(1) [OF assms])
  then have "part_catalog (c_entries c) (meta_of c) = c" using ok by simp
  then show "c_format_version c = FORMAT_VERSION \<and> c_window_count c = 1"
    unfolding part_catalog_self .
next
  assume "c_format_version c = FORMAT_VERSION \<and> c_window_count c = 1"
  then have "part_catalog (c_entries c) (meta_of c) = c" unfolding part_catalog_self .
  then show "build_part crc (sections_of bs c) (meta_of c) = Some bs"
    using accepted_parts [OF assms] by (simp add: build_part_Some Let_def)
qed

section \<open>Properties\<close>

definition demo_sections :: "section_input list" where
  "demo_sections = [\<lparr>si_type_id = 7, si_rows = 2, si_body = [1, 2, 3]\<rparr>,
                    \<lparr>si_type_id = 3001001, si_rows = 1, si_body = [9]\<rparr>]"

definition demo_meta :: part_meta where
  "demo_meta = \<lparr>pm_min_ts = 5, pm_max_ts = 6\<rparr>"

definition demo_part :: "u8 list" where
  "demo_part = part_bytes sum_crc (part_catalog (fst (build_entries sum_crc demo_sections MAGIC)) demo_meta)
     (concat (map si_body demo_sections))"

lemma demo_part_built: "build_part sum_crc demo_sections demo_meta = Some demo_part"
  by (simp add: build_part_Some Let_def demo_part_def encoded_len_def part_catalog_def
      build_entries_fields layout_lens demo_sections_def)

lemma length_demo_part: "length demo_part = 112"
  by (simp add: demo_part_def length_part_bytes encoded_len_def part_catalog_def build_entries_fields
      layout_lens demo_sections_def)

lemma demo_sections_canonical: "sections_canonical demo_sections"
  by (simp add: sections_canonical_def demo_sections_def section_ok_def MAX_PHYSICAL_SECTION_ROWS_def
      section_order_of_def DICT_STRINGS_TYPE_ID_def DICT_BLOBS_TYPE_ID_def less_section_order_def
      word_le_nat_alt)

lemma demo_part_valid:
  "validate_part sum_crc demo_part =
     Inr (part_catalog (fst (build_entries sum_crc demo_sections MAGIC)) demo_meta)"
  using build_part_parts(3) [OF demo_sections_canonical demo_part_built] length_demo_part by simp

text \<open>
  C1. Round trip of parts: whatever checksum function is used, the bytes that \<open>build_part\<close>
  assembles from a canonical list of sections are accepted by \<open>validate_part\<close>, and the catalog it
  returns lists the same section types and row counts, the given metadata, and entries whose body
  ranges read back exactly the given bodies.
\<close>

theorem build_part_roundtrip:
  assumes "sections_canonical ss" and "build_part crc ss meta = Some bytes"
    and "length bytes < usize_limit"
  shows "\<exists>c. validate_part crc bytes = Inr c
    \<and> map e_type_id (c_entries c) = map si_type_id ss
    \<and> map e_rows (c_entries c) = map si_rows ss
    \<and> map (entry_body bytes) (c_entries c) = map si_body ss
    \<and> c_min_ts c = pm_min_ts meta \<and> c_max_ts c = pm_max_ts meta"
  using build_part_parts(3,4) [OF assms]
  by (intro exI [of _ "part_catalog (fst (build_entries crc ss MAGIC)) meta"])
     (simp add: part_catalog_def build_entries_fields)

lemma build_part_roundtrip_witness:
  "\<exists>c. validate_part sum_crc demo_part = Inr c
    \<and> map e_type_id (c_entries c) = [7, 3001001] \<and> map (entry_body demo_part) (c_entries c) = [[1, 2, 3], [9]]"
  using build_part_roundtrip [OF demo_sections_canonical demo_part_built]
  by (auto simp: length_demo_part demo_sections_def)

text \<open>
  C2. \<open>validate_part\<close> accepts canonical parts only.  An accepted byte range lists a canonical list of
  sections, its catalog entries are the ones that the builder computes for those sections, and the
  bytes are exactly the magic, the bodies of those sections, the encoded catalog and the tail index:
  nothing lies between, before or behind them, so the catalog and the bodies determine the bytes.  The
  format version and the window count are stored as they are and not checked: \<open>build_part\<close> with the
  stored metadata gives back the same bytes exactly when they are the version and the one window that
  the builder writes.
\<close>

theorem validate_part_canonical:
  assumes "validate_part crc bs = Inr c" and "length bs < usize_limit"
  shows "sections_canonical (sections_of bs c)
    \<and> c_entries c = fst (build_entries crc (sections_of bs c) MAGIC)
    \<and> bs = part_bytes crc c (concat (map si_body (sections_of bs c)))
    \<and> (build_part crc (sections_of bs c) (meta_of c) = Some bs
        \<longleftrightarrow> c_format_version c = FORMAT_VERSION \<and> c_window_count c = 1)"
  using validate_part_sections_canonical [OF assms] accepted_parts [OF assms] rebuild_part [OF assms] by simp

text \<open>The sample part, and the same part with two windows in its catalog, which is accepted and not rebuilt.\<close>

definition windows_catalog :: catalog where
  "windows_catalog = (part_catalog (fst (build_entries sum_crc demo_sections MAGIC)) demo_meta)\<lparr>c_window_count := 2\<rparr>"

definition windows_part :: "u8 list" where
  "windows_part = part_bytes sum_crc windows_catalog (concat (map si_body demo_sections))"

lemma windows_part_valid: "validate_part sum_crc windows_part = Inr windows_catalog" "length windows_part = 112"
proof -
  have lens: "length windows_part = 112" "encoded_len windows_catalog = 96"
    by (simp_all add: windows_part_def length_part_bytes encoded_len_def windows_catalog_def part_catalog_def
        build_entries_fields layout_lens demo_sections_def)
  have "c_entries windows_catalog = fst (build_entries sum_crc demo_sections MAGIC)"
    by (simp add: windows_catalog_def part_catalog_def)
  from assembled_valid(2) [OF demo_sections_canonical this] lens
  show "validate_part sum_crc windows_part = Inr windows_catalog" "length windows_part = 112"
    by (simp_all add: windows_part_def)
qed

lemma validate_part_canonical_witness:
  "(\<exists>c. validate_part sum_crc demo_part = Inr c
      \<and> build_part sum_crc (sections_of demo_part c) (meta_of c) = Some demo_part)
    \<and> build_part sum_crc (sections_of windows_part windows_catalog) (meta_of windows_catalog) \<noteq> Some windows_part"
  using validate_part_canonical [OF demo_part_valid] validate_part_canonical [OF windows_part_valid(1)]
  by (auto simp: demo_part_valid length_demo_part windows_part_valid(2) part_catalog_def windows_catalog_def)

text \<open>
  Exact size of an assembled part: 4 bytes of magic, the bodies, 32 bytes per section, 32 bytes
  of catalog metadata and the 8-byte tail index.
\<close>

theorem build_part_length:
  assumes "build_part crc ss meta = Some bytes"
  shows "length bytes = sum_list (map (\<lambda>s. length (si_body s)) ss) + 32 * length ss + 44"
  using assms
  by (auto simp: build_part_Some Let_def length_part_bytes encoded_len_def part_catalog_def
      build_entries_fields layout_lens length_concat comp_def)

lemma build_part_length_witness:
  "build_part sum_crc demo_sections demo_meta = Some demo_part \<and> length demo_part = 4 + 64 + 44"
  using build_part_length [OF demo_part_built] demo_part_built by (simp add: demo_sections_def)

text \<open>
  The layout check of \<open>validate_catalog_layout\<close> accepts a catalog exactly when it is canonical:
  well-formed entries, section types strictly increasing with the dictionaries last, and bodies
  that tile the bytes from the leading magic to the catalog.
\<close>

theorem layout_check_exact:
  "validate_catalog_layout c catalog_at = Inr () \<longleftrightarrow> canonical_layout (c_entries c) (unat catalog_at)"
  by (rule validate_catalog_layout_iff)

text \<open>
  The end catalog decodes back: the encoder's output is a catalog block of \<open>encoded_len\<close> bytes
  followed by the tail index, the tail index decodes to that length, and a byte string decodes to
  the catalog exactly when it is that block.
\<close>

theorem catalog_codec:
  assumes "write_encoded crc c = Inr out"
  shows "tail_decode (drop (encoded_len c) out) = Inr \<lparr>t_catalog_len = of_nat (encoded_len c)\<rparr>
    \<and> unat (of_nat (encoded_len c) :: u32) = encoded_len c
    \<and> (catalog_decode crc bs = Inr c \<longleftrightarrow> bs = take (encoded_len c) out)"
proof -
  from assms have small: "encoded_len c < u32_limit"
    and out: "out = catalog_block crc c @ tail_encode \<lparr>t_catalog_len = of_nat (encoded_len c)\<rparr>"
    by (simp_all add: write_encoded_Inr)
  then show ?thesis
    using encoded_len_entries [OF small]
    by (simp add: length_catalog_block tail_decode_encode catalog_decode_iff unat_of_nat_32)
qed

lemma catalog_codec_witness:
  "\<exists>out. write_encoded sum_crc (part_catalog [] demo_meta) = Inr out
    \<and> catalog_decode sum_crc (take 32 out) = Inr (part_catalog [] demo_meta)"
proof -
  have "encoded_len (part_catalog [] demo_meta) = 32"
    by (simp add: encoded_len_def part_catalog_def layout_lens)
  moreover have "write_encoded sum_crc (part_catalog [] demo_meta) =
      Inr (catalog_block sum_crc (part_catalog [] demo_meta) @ tail_encode \<lparr>t_catalog_len = 32\<rparr>)"
    by (simp add: write_encoded_Inr calculation)
  ultimately show ?thesis
    using catalog_codec [of sum_crc "part_catalog [] demo_meta"] by auto
qed

end
