(* ===== verification/Journal_Scan.thy ===== *)
theory Journal_Scan
  imports Parts
begin

text \<open>
  Scanning the frames of a journal (\<open>crates/kronika-format/src/parts.rs\<close> and \<open>read_at.rs\<close>): the
  positional byte source \<open>ReadAt\<close> and its slice implementation, the classification of one frame
  position, the in-memory scanner with resynchronisation, and the strict streaming scanner that
  stops at the first damage.  Offsets and lengths (\<open>usize\<close>, 64 bits) are natural numbers.
\<close>

section \<open>Positional reads\<close>

datatype io_error = UnexpectedEof | IoInvalidInput string | IoInvalidData string | OsError nat

text \<open>A source: \<open>read_exact_at\<close> for an offset and a buffer length.\<close>

type_synonym reader = "u64 \<Rightarrow> nat \<Rightarrow> io_error + u8 list"

definition slice_read :: "u8 list \<Rightarrow> reader" where
  "slice_read data offset n =
     (let start = unat offset in
      case usize_checked_add start n of
        None \<Rightarrow> Inl UnexpectedEof
      | Some end_at \<Rightarrow>
          if end_at > length data then Inl UnexpectedEof
          else Inr (subslice start end_at data))"

definition slice_byte_len :: "u8 list \<Rightarrow> io_error + u64" where
  "slice_byte_len data = Inr (of_nat (length data))"

text \<open>
  The contract of \<open>ReadAt\<close>: an exact read returns the bytes at that offset, and fails with
  \<open>UnexpectedEof\<close> when fewer are available.
\<close>

locale read_at =
  fixes rd :: reader and data :: "u8 list"
  assumes read_exact: "length data < usize_limit \<Longrightarrow>
    rd offset n = (if unat offset + n \<le> length data
                   then Inr (subslice (unat offset) (unat offset + n) data)
                   else Inl UnexpectedEof)"
begin

lemma read_in_range:
  "length data < usize_limit \<Longrightarrow> pos + n \<le> length data \<Longrightarrow>
     rd (of_nat pos) n = Inr (subslice pos (pos + n) data)"
  by (simp add: read_exact unat_of_nat_64)

end

interpretation slice_reader: read_at "slice_read data" data for data
  by unfold_locales (auto simp: slice_read_def usize_checked_add_def Let_def)

section \<open>One frame position\<close>

record journal_limits =
  jl_max_part_len :: u64

datatype frame_check = Valid nat | TornFrame | Damaged "nat option"

definition frame_at :: "(u8 list \<Rightarrow> u32) \<Rightarrow> u8 list \<Rightarrow> nat \<Rightarrow> journal_limits \<Rightarrow> frame_check" where
  "frame_at crc bytes pos limits =
     (let rem = length bytes - pos in
      if rem < FRAME_HEADER_LEN then TornFrame
      else
        (case frame_decode crc (subslice pos (pos + FRAME_HEADER_LEN) bytes) of
           Inl _ \<Rightarrow> Damaged None
         | Inr header \<Rightarrow>
             if fh_part_len header > jl_max_part_len limits then Damaged None
             else
               let body_len = unat (fh_part_len header) in
               if rem - FRAME_HEADER_LEN < body_len then TornFrame
               else
                 let body = subslice (pos + FRAME_HEADER_LEN) (pos + FRAME_HEADER_LEN + body_len) bytes in
                 (case validate_part crc body of
                    Inl _ \<Rightarrow> Damaged (Some (pos + FRAME_HEADER_LEN + body_len))
                  | Inr _ \<Rightarrow> Valid body_len)))"

section \<open>The in-memory scanner\<close>

text \<open>\<open>haystack.windows(4).position(|w| w == FRAME_MAGIC)\<close>.\<close>

fun find_magic :: "u8 list \<Rightarrow> nat option" where
  "find_magic [] = None"
| "find_magic (x # xs) =
     (if take (length FRAME_MAGIC) (x # xs) = FRAME_MAGIC then Some 0
      else map_option Suc (find_magic xs))"

fun is_valid :: "frame_check \<Rightarrow> bool" where
  "is_valid (Valid _) = True"
| "is_valid _ = False"

function resync_from :: "(u8 list \<Rightarrow> u32) \<Rightarrow> u8 list \<Rightarrow> journal_limits \<Rightarrow> nat \<Rightarrow> nat option" where
  "resync_from crc bytes limits cand =
     (if cand + FRAME_HEADER_LEN \<le> length bytes then
        (case find_magic (drop cand bytes) of
           None \<Rightarrow> None
         | Some found \<Rightarrow>
             let at = cand + found in
             if is_valid (frame_at crc bytes at limits) then Some at
             else resync_from crc bytes limits (at + 1))
      else None)"
  by pat_completeness auto
termination
  by (relation "measure (\<lambda>(crc, bytes, limits, cand). length bytes - cand)")
     (auto simp: FRAME_HEADER_LEN_def)

declare resync_from.simps [simp del]

definition resync ::
    "(u8 list \<Rightarrow> u32) \<Rightarrow> u8 list \<Rightarrow> nat \<Rightarrow> nat option \<Rightarrow> journal_limits \<Rightarrow> nat option" where
  "resync crc bytes damaged_at implied_end limits =
     (case implied_end of
        Some boundary \<Rightarrow>
          if boundary < length bytes \<and> is_valid (frame_at crc bytes boundary limits) then Some boundary
          else resync_from crc bytes limits (damaged_at + 1)
      | None \<Rightarrow> resync_from crc bytes limits (damaged_at + 1))"

record part_ref =
  pr_offset :: nat
  pr_len :: nat

datatype damage_kind = TornTail | Middle nat | QuarantinedTail

record damage_region =
  dr_from :: nat
  dr_kind :: damage_kind

record scan_report =
  sr_parts :: "part_ref list"
  sr_damages :: "damage_region list"
  sr_valid_len :: nat

definition is_clean :: "scan_report \<Rightarrow> bool" where
  "is_clean r \<longleftrightarrow> sr_damages r = []"

definition report_part :: "scan_report \<Rightarrow> nat \<Rightarrow> nat \<Rightarrow> scan_report" where
  "report_part r pos body_len =
     r\<lparr>sr_parts := sr_parts r @ [\<lparr>pr_offset = pos + FRAME_HEADER_LEN, pr_len = body_len\<rparr>],
       sr_valid_len := pos + FRAME_HEADER_LEN + body_len\<rparr>"

definition report_damage :: "scan_report \<Rightarrow> nat \<Rightarrow> damage_kind \<Rightarrow> scan_report" where
  "report_damage r pos kind = r\<lparr>sr_damages := sr_damages r @ [\<lparr>dr_from = pos, dr_kind = kind\<rparr>]\<rparr>"

lemma frame_at_Damaged_Some:
  "frame_at crc bytes pos limits = Damaged (Some e) \<Longrightarrow> pos + 16 \<le> e \<and> e \<le> length bytes"
  by (auto simp: frame_at_def Let_def FRAME_HEADER_LEN_def split: if_splits sum.splits)

lemma resync_from_bounds:
  "resync_from crc bytes limits cand = Some at \<Longrightarrow> cand \<le> at"
proof (induction crc bytes limits cand rule: resync_from.induct)
  case (1 crc bytes limits cand)
  then show ?case
    by (auto simp: resync_from.simps [of crc bytes limits cand] Let_def split: if_splits option.splits)
      fastforce
qed

lemma find_magic_bound: "find_magic xs = Some i \<Longrightarrow> i + 4 \<le> length xs"
proof (induction xs arbitrary: i)
  case Nil
  then show ?case by simp
next
  case (Cons x xs)
  have "4 \<le> length (x # xs)" if "take 4 (x # xs) = FRAME_MAGIC"
    using arg_cong [OF that, of length] by (simp add: min_def split: if_splits)
  with Cons show ?case by (auto split: if_splits)
qed

lemma resync_from_le:
  "resync_from crc bytes limits cand = Some at \<Longrightarrow> at \<le> length bytes"
proof (induction crc bytes limits cand rule: resync_from.induct)
  case (1 crc bytes limits cand)
  show ?case
    using "1.prems" "1.IH" find_magic_bound [of "drop cand bytes"]
    by (fastforce simp: resync_from.simps [of crc bytes limits cand] Let_def split: if_splits option.splits)
qed

lemma resync_le: "resync crc bytes pos implied_end limits = Some at \<Longrightarrow> at \<le> length bytes"
  by (auto simp: resync_def dest: resync_from_le split: option.splits if_splits)

lemma resync_gt:
  assumes "frame_at crc bytes pos limits = Damaged implied_end"
    and "resync crc bytes pos implied_end limits = Some at"
  shows "pos < at"
  using assms frame_at_Damaged_Some [of crc bytes pos limits]
  by (auto simp: resync_def dest: resync_from_bounds split: option.splits if_splits)

function scan_loop ::
    "(u8 list \<Rightarrow> u32) \<Rightarrow> u8 list \<Rightarrow> journal_limits \<Rightarrow> nat \<Rightarrow> scan_report \<Rightarrow> scan_report" where
  "scan_loop crc bytes limits pos report =
     (if pos < length bytes then
        (case frame_at crc bytes pos limits of
           Valid body_len \<Rightarrow>
             scan_loop crc bytes limits (pos + FRAME_HEADER_LEN + body_len)
               (report_part report pos body_len)
         | TornFrame \<Rightarrow> report_damage report pos TornTail
         | Damaged implied_end \<Rightarrow>
             (case resync crc bytes pos implied_end limits of
                Some next \<Rightarrow> scan_loop crc bytes limits next (report_damage report pos (Middle next))
              | None \<Rightarrow>
                  report_damage report pos
                    (if implied_end = Some (length bytes) then TornTail else QuarantinedTail)))
      else report)"
  by pat_completeness auto
termination
  by (relation "measure (\<lambda>(crc, bytes, limits, pos, report). length bytes - pos)")
     (auto simp: FRAME_HEADER_LEN_def dest: resync_gt)

declare scan_loop.simps [simp del]

definition scan_journal :: "(u8 list \<Rightarrow> u32) \<Rightarrow> u8 list \<Rightarrow> journal_limits \<Rightarrow> scan_report" where
  "scan_journal crc bytes limits =
     scan_loop crc bytes limits 0 \<lparr>sr_parts = [], sr_damages = [], sr_valid_len = 0\<rparr>"

section \<open>The strict streaming scanner\<close>

datatype recovery_damage_reason =
    TornFrameHeader | TornFrameBody | InvalidFrameHeader | PartTooLarge | InvalidPart | WorkLimit

datatype streaming_frame =
    SValid nat u64
  | SDamaged recovery_damage_reason "nat option" bool

fun sum_rows :: "entry list \<Rightarrow> u64 \<Rightarrow> u64 option" where
  "sum_rows [] rows = Some rows"
| "sum_rows (e # es) rows =
     (case checked_add rows (ucast (e_rows e)) of
        None \<Rightarrow> None
      | Some rows' \<Rightarrow> sum_rows es rows')"

definition streaming_frame_at ::
    "(u8 list \<Rightarrow> u32) \<Rightarrow> reader \<Rightarrow> nat \<Rightarrow> nat \<Rightarrow> journal_limits \<Rightarrow> io_error + streaming_frame" where
  "streaming_frame_at crc rd total_len pos limits =
     (let rem = total_len - pos in
      if rem < FRAME_HEADER_LEN then Inr (SDamaged TornFrameHeader None False)
      else
        (case rd (of_nat pos) FRAME_HEADER_LEN of
           Inl e \<Rightarrow> Inl e
         | Inr header_bytes \<Rightarrow>
             (case frame_decode crc header_bytes of
                Inl _ \<Rightarrow> Inr (SDamaged InvalidFrameHeader None True)
              | Inr header \<Rightarrow>
                  if fh_part_len header > jl_max_part_len limits then
                    let implied_end =
                      (case Option.bind (usize_checked_add pos FRAME_HEADER_LEN)
                              (\<lambda>body_at. usize_checked_add body_at (unat (fh_part_len header))) of
                         None \<Rightarrow> None
                       | Some end_at \<Rightarrow> if end_at \<le> total_len then Some end_at else None) in
                    Inr (SDamaged PartTooLarge implied_end (implied_end \<noteq> None))
                  else
                    let body_len = unat (fh_part_len header) in
                    if rem - FRAME_HEADER_LEN < body_len then Inr (SDamaged TornFrameBody None False)
                    else
                      (case rd (of_nat (pos + FRAME_HEADER_LEN)) body_len of
                         Inl e \<Rightarrow> Inl e
                       | Inr part_buf \<Rightarrow>
                           let bad = SDamaged InvalidPart (Some (pos + FRAME_HEADER_LEN + body_len)) True in
                           (case validate_part crc part_buf of
                              Inl _ \<Rightarrow> Inr bad
                            | Inr catalog \<Rightarrow>
                                (case sum_rows (c_entries catalog) 0 of
                                   None \<Rightarrow> Inr bad
                                 | Some rows \<Rightarrow> Inr (SValid body_len rows)))))))"

datatype journal_scan_error = ScanIo io_error | PartLimitExceeded nat

function strict_loop ::
    "(u8 list \<Rightarrow> u32) \<Rightarrow> reader \<Rightarrow> nat \<Rightarrow> journal_limits \<Rightarrow> nat \<Rightarrow> nat \<Rightarrow> scan_report
       \<Rightarrow> journal_scan_error + scan_report" where
  "strict_loop crc rd total_len limits max_parts pos report =
     (if pos < total_len then
        (case streaming_frame_at crc rd total_len pos limits of
           Inl e \<Rightarrow> Inl (ScanIo e)
         | Inr (SValid body_len rows) \<Rightarrow>
             if length (sr_parts report) \<ge> max_parts then Inl (PartLimitExceeded max_parts)
             else strict_loop crc rd total_len limits max_parts (pos + FRAME_HEADER_LEN + body_len)
                    (report_part report pos body_len)
         | Inr (SDamaged reason implied_end can_resync) \<Rightarrow>
             if reason = TornFrameHeader \<or> reason = TornFrameBody
             then Inr (report_damage report pos TornTail)
             else Inr (report_damage report pos
                         (if implied_end = Some total_len then TornTail else QuarantinedTail)))
      else Inr report)"
  by pat_completeness auto
termination
  by (relation "measure (\<lambda>(crc, rd, total_len, limits, max_parts, pos, report). total_len - pos)")
     (auto simp: FRAME_HEADER_LEN_def)

declare strict_loop.simps [simp del]

definition scan_journal_streaming_strict_from ::
    "(u8 list \<Rightarrow> u32) \<Rightarrow> reader \<Rightarrow> io_error + u64 \<Rightarrow> u64 \<Rightarrow> journal_limits \<Rightarrow> nat
       \<Rightarrow> journal_scan_error + scan_report" where
  "scan_journal_streaming_strict_from crc rd byte_len start_at limits max_parts =
     (case byte_len of
        Inl e \<Rightarrow> Inl (ScanIo e)
      | Inr source_len \<Rightarrow>
          let total_len = unat source_len; pos = unat start_at in
          if pos > total_len then
            Inl (ScanIo (IoInvalidInput ''start_at is beyond the journal source''))
          else strict_loop crc rd total_len limits max_parts pos
                 \<lparr>sr_parts = [], sr_damages = [], sr_valid_len = pos\<rparr>)"

section \<open>Frames\<close>

text \<open>A frame on disk, and the parts the scanners may return under a limit.\<close>

definition frame_bytes :: "(u8 list \<Rightarrow> u32) \<Rightarrow> u8 list \<Rightarrow> u8 list" where
  "frame_bytes crc part = frame_encode crc \<lparr>fh_part_len = of_nat (length part)\<rparr> @ part"

definition part_ok :: "(u8 list \<Rightarrow> u32) \<Rightarrow> journal_limits \<Rightarrow> u8 list \<Rightarrow> bool" where
  "part_ok crc limits part \<longleftrightarrow> (\<exists>c. validate_part crc part = Inr c)
     \<and> length part \<le> unat (jl_max_part_len limits)"

definition frames_of :: "(u8 list \<Rightarrow> u32) \<Rightarrow> u8 list list \<Rightarrow> u8 list" where
  "frames_of crc ps = concat (map (frame_bytes crc) ps)"

fun refs_from :: "nat \<Rightarrow> u8 list list \<Rightarrow> part_ref list" where
  "refs_from pos [] = []"
| "refs_from pos (p # ps) =
     \<lparr>pr_offset = pos + FRAME_HEADER_LEN, pr_len = length p\<rparr> # refs_from (pos + FRAME_HEADER_LEN + length p) ps"

lemma length_frame_bytes [simp]: "length (frame_bytes crc p) = 16 + length p"
  by (simp add: frame_bytes_def)

lemma frames_of_simps [simp]:
  "frames_of crc [] = []" "frames_of crc (p # ps) = frame_bytes crc p @ frames_of crc ps"
  "frames_of crc (ps @ qs) = frames_of crc ps @ frames_of crc qs"
  by (simp_all add: frames_of_def)

lemma refs_from_append:
  "refs_from pos (ps @ qs) = refs_from pos ps @ refs_from (pos + length (frames_of crc ps)) qs"
  by (induction ps arbitrary: pos) (simp_all add: FRAME_HEADER_LEN_def add.assoc)

lemma length_refs_from [simp]: "length (refs_from pos ps) = length ps"
  by (induction ps arbitrary: pos) auto

lemma part_ok_small: "part_ok crc limits p \<Longrightarrow> length p < usize_limit"
  using unat_less_64 [of "jl_max_part_len limits"] by (simp add: part_ok_def)

lemma part_ok_le: "part_ok crc limits p \<Longrightarrow> of_nat (length p) \<le> jl_max_part_len limits"
  using part_ok_small [of crc limits p] by (simp add: part_ok_def word_le_nat_alt unat_of_nat_64)

lemma take_16_frame [simp]:
  "take 16 (frame_bytes crc p) = frame_encode crc \<lparr>fh_part_len = of_nat (length p)\<rparr>"
  by (simp add: frame_bytes_def)

lemma frame_at_frame:
  assumes "part_ok crc limits p"
  shows "frame_at crc (pre @ frame_bytes crc p @ post) (length pre) limits = Valid (length p)"
proof -
  have n: "unat (of_nat (length p) :: u64) = length p"
    using assms by (intro unat_of_nat_64 part_ok_small)
  have le: "(jl_max_part_len limits < of_nat (length p)) = False"
    using part_ok_le [OF assms] by (simp add: not_less)
  obtain c where "validate_part crc p = Inr c"
    using assms by (auto simp: part_ok_def)
  then show ?thesis
    by (simp add: frame_at_def frame_lens Let_def subslice_def frame_bytes_def frame_decode_encode n le)
qed

lemma frame_at_Valid:
  assumes "frame_at crc bytes pos limits = Valid n" and "pos \<le> length bytes"
  obtains p where "length p = n" and "part_ok crc limits p"
    and "subslice pos (pos + 16 + n) bytes = frame_bytes crc p" and "pos + 16 + n \<le> length bytes"
proof -
  let ?hd = "subslice pos (pos + 16) bytes" and ?p = "subslice (pos + 16) (pos + 16 + n) bytes"
  from assms(1) obtain h c where room: "16 \<le> length bytes - pos" "n \<le> length bytes - pos - 16"
    and dec: "frame_decode crc ?hd = Inr h" and lim: "fh_part_len h \<le> jl_max_part_len limits"
    and n: "n = unat (fh_part_len h)" and ok: "validate_part crc ?p = Inr c"
    by (auto simp: frame_at_def Let_def frame_lens not_less split: if_splits sum.splits)
  have fits: "pos + 16 + n \<le> length bytes"
    using room by linarith
  have lp: "length ?p = n"
    using fits by (simp add: length_subslice)
  have "frame_encode crc h = ?hd"
    using fits by (intro frame_encode_decode [OF _ dec]) (simp add: length_subslice)
  moreover have "h = \<lparr>fh_part_len = of_nat (length ?p)\<rparr>"
    using lp n by (cases h) simp
  ultimately have "frame_bytes crc ?p = ?hd @ ?p"
    by (simp add: frame_bytes_def)
  then have "subslice pos (pos + 16 + n) bytes = frame_bytes crc ?p"
    by (simp add: append_slices)
  moreover have "part_ok crc limits ?p"
    using ok lim lp n by (auto simp: part_ok_def word_le_nat_alt)
  ultimately show ?thesis
    using lp fits by (intro that)
qed

lemma frame_at_torn:
  assumes "part_ok crc limits p" and "0 < k" and "k < 16 + length p"
  shows "frame_at crc (pre @ take k (frame_bytes crc p)) (length pre) limits = TornFrame"
proof (cases "k < 16")
  case True
  then show ?thesis by (simp add: frame_at_def frame_lens Let_def)
next
  case False
  have n: "unat (of_nat (length p) :: u64) = length p"
    using assms(1) by (intro unat_of_nat_64 part_ok_small)
  have le: "of_nat (length p) \<le> jl_max_part_len limits"
    by (rule part_ok_le [OF assms(1)])
  have "subslice (length pre) (length pre + 16) (pre @ take k (frame_bytes crc p)) =
      frame_encode crc \<lparr>fh_part_len = of_nat (length p)\<rparr>"
    using False by (simp add: subslice_def min_def)
  moreover have "k - 16 < length p"
    using False assms(3) by linarith
  ultimately show ?thesis
    using False le assms(3)
    by (simp add: frame_at_def frame_lens Let_def frame_decode_encode n leD min_def)
qed

section \<open>The in-memory scanner on well-formed journals\<close>

definition report_parts :: "scan_report \<Rightarrow> nat \<Rightarrow> u8 list list \<Rightarrow> scan_report" where
  "report_parts r pos ps = r\<lparr>sr_parts := sr_parts r @ refs_from pos ps,
     sr_valid_len := (if ps = [] then sr_valid_len r
                      else pos + sum_list (map (\<lambda>p. 16 + length p) ps))\<rparr>"

lemma report_parts_Nil [simp]: "report_parts r pos [] = r"
  by (simp add: report_parts_def)

lemma report_parts_Cons:
  "report_parts r pos (p # ps) = report_parts (report_part r pos (length p)) (pos + 16 + length p) ps"
  by (simp add: report_parts_def report_part_def FRAME_HEADER_LEN_def)

lemma scan_loop_frames:
  assumes "\<forall>p \<in> set ps. part_ok crc limits p"
  shows "scan_loop crc (pre @ frames_of crc ps @ post) limits (length pre) r =
    scan_loop crc (pre @ frames_of crc ps @ post) limits (length (pre @ frames_of crc ps))
      (report_parts r (length pre) ps)"
  using assms
proof (induction ps arbitrary: pre r)
  case Nil
  then show ?case by simp
next
  case (Cons p ps)
  define bytes where "bytes = pre @ frames_of crc (p # ps) @ post"
  have step: "frame_at crc bytes (length pre) limits = Valid (length p)" "length pre < length bytes"
    using Cons.prems frame_at_frame [of crc limits p pre "frames_of crc ps @ post"]
    by (simp_all add: bytes_def)
  have "scan_loop crc bytes limits (length pre) r =
      scan_loop crc bytes limits (length (pre @ frame_bytes crc p)) (report_part r (length pre) (length p))"
    by (subst scan_loop.simps) (simp add: step FRAME_HEADER_LEN_def add.assoc)
  also have "\<dots> = scan_loop crc bytes limits (length ((pre @ frame_bytes crc p) @ frames_of crc ps))
      (report_parts (report_part r (length pre) (length p)) (length (pre @ frame_bytes crc p)) ps)"
    using Cons.IH [of "pre @ frame_bytes crc p" "report_part r (length pre) (length p)"] Cons.prems
    by (simp add: bytes_def)
  finally show ?case
    unfolding bytes_def [symmetric] by (simp add: report_parts_Cons add.assoc)
qed

lemma length_frames_of: "length (frames_of crc ps) = sum_list (map (\<lambda>p. 16 + length p) ps)"
  by (induction ps) auto

lemma report_parts_init:
  "report_parts \<lparr>sr_parts = [], sr_damages = [], sr_valid_len = n\<rparr> n ps =
     \<lparr>sr_parts = refs_from n ps, sr_damages = [], sr_valid_len = n + length (frames_of crc ps)\<rparr>"
  by (simp add: report_parts_def length_frames_of)

lemma scan_loop_end: "length bytes \<le> pos \<Longrightarrow> scan_loop crc bytes limits pos r = r"
  by (subst scan_loop.simps) simp

lemma scan_journal_frames:
  assumes "\<forall>p \<in> set ps. part_ok crc limits p"
  shows "scan_journal crc (frames_of crc ps @ post) limits =
    scan_loop crc (frames_of crc ps @ post) limits (length (frames_of crc ps))
      \<lparr>sr_parts = refs_from 0 ps, sr_damages = [], sr_valid_len = length (frames_of crc ps)\<rparr>"
  using scan_loop_frames [OF assms, of "[]" post "\<lparr>sr_parts = [], sr_damages = [], sr_valid_len = 0\<rparr>"]
    report_parts_init [of 0 ps crc]
  by (simp add: scan_journal_def)

section \<open>Soundness of the in-memory scanner on arbitrary bytes\<close>

definition ref_ok :: "(u8 list \<Rightarrow> u32) \<Rightarrow> journal_limits \<Rightarrow> u8 list \<Rightarrow> part_ref \<Rightarrow> bool" where
  "ref_ok crc limits bytes ref \<longleftrightarrow> FRAME_HEADER_LEN \<le> pr_offset ref
     \<and> pr_offset ref + pr_len ref \<le> length bytes
     \<and> (\<exists>p. length p = pr_len ref \<and> part_ok crc limits p
          \<and> subslice (pr_offset ref - FRAME_HEADER_LEN) (pr_offset ref + pr_len ref) bytes = frame_bytes crc p)"

definition refs_ordered :: "part_ref list \<Rightarrow> bool" where
  "refs_ordered refs \<longleftrightarrow>
     sorted_wrt (\<lambda>a b. pr_offset a + pr_len a + FRAME_HEADER_LEN \<le> pr_offset b) refs"

definition refs_end :: "nat \<Rightarrow> part_ref list \<Rightarrow> nat" where
  "refs_end start refs = (if refs = [] then start else pr_offset (last refs) + pr_len (last refs))"

definition report_sound :: "(u8 list \<Rightarrow> u32) \<Rightarrow> journal_limits \<Rightarrow> u8 list \<Rightarrow> nat \<Rightarrow> scan_report \<Rightarrow> bool" where
  "report_sound crc limits bytes pos r \<longleftrightarrow>
     (\<forall>ref \<in> set (sr_parts r). ref_ok crc limits bytes ref \<and> pr_offset ref + pr_len ref \<le> pos)
     \<and> refs_ordered (sr_parts r) \<and> sr_valid_len r = refs_end 0 (sr_parts r)
     \<and> sorted_wrt (<) (map dr_from (sr_damages r)) \<and> (\<forall>d \<in> set (sr_damages r). dr_from d < pos)"

lemma report_sound_mono: "report_sound crc limits bytes pos r \<Longrightarrow> pos \<le> pos' \<Longrightarrow> report_sound crc limits bytes pos' r"
  by (fastforce simp: report_sound_def)

lemma report_sound_damage:
  "report_sound crc limits bytes pos r \<Longrightarrow> pos < pos' \<Longrightarrow>
     report_sound crc limits bytes pos' (report_damage r pos kind)"
  by (fastforce simp: report_sound_def report_damage_def sorted_wrt_append)

lemma ref_ok_Valid:
  assumes "frame_at crc bytes pos limits = Valid n" and "pos \<le> length bytes"
  shows "ref_ok crc limits bytes \<lparr>pr_offset = pos + FRAME_HEADER_LEN, pr_len = n\<rparr>"
  using assms by (auto simp: ref_ok_def FRAME_HEADER_LEN_def elim!: frame_at_Valid)

lemma report_sound_part:
  assumes "report_sound crc limits bytes pos r" and "frame_at crc bytes pos limits = Valid n"
    and "pos \<le> length bytes"
  shows "report_sound crc limits bytes (pos + FRAME_HEADER_LEN + n) (report_part r pos n)"
  using assms(1) ref_ok_Valid [OF assms(2,3)]
  by (fastforce simp: report_sound_def report_part_def refs_ordered_def refs_end_def sorted_wrt_append)

lemma scan_loop_sound:
  "report_sound crc limits bytes pos r \<Longrightarrow> pos \<le> length bytes \<Longrightarrow>
     report_sound crc limits bytes (length bytes) (scan_loop crc bytes limits pos r)"
proof (induction crc bytes limits pos r rule: scan_loop.induct)
  case (1 crc bytes limits pos r)
  show ?case
  proof (cases "pos < length bytes")
    case False
    with "1.prems" show ?thesis by (simp add: scan_loop_end)
  next
    case True
    note damage = report_sound_damage [OF "1.prems"(1), of "length bytes"]
    show ?thesis
    proof (cases "frame_at crc bytes pos limits")
      case (Valid n)
      have "pos + FRAME_HEADER_LEN + n \<le> length bytes"
        using Valid True by (auto simp: FRAME_HEADER_LEN_def elim: frame_at_Valid)
      with True Valid "1.IH"(1) [OF True Valid] report_sound_part [OF "1.prems"(1) Valid] show ?thesis
        by (subst scan_loop.simps) simp
    next
      case TornFrame
      with True damage show ?thesis by (subst scan_loop.simps) simp
    next
      case (Damaged implied_end)
      show ?thesis
      proof (cases "resync crc bytes pos implied_end limits")
        case None
        with True Damaged damage show ?thesis by (subst scan_loop.simps) simp
      next
        case (Some nxt)
        have "pos < nxt" by (rule resync_gt [OF Damaged Some])
        moreover have "nxt \<le> length bytes" by (rule resync_le [OF Some])
        ultimately show ?thesis
          using True Damaged Some "1.IH"(2) [OF True Damaged Some]
            report_sound_damage [OF "1.prems"(1), of nxt]
          by (subst scan_loop.simps) simp
      qed
    qed
  qed
qed

section \<open>The strict scanner\<close>

text \<open>Whatever source honours the contract, the streaming check of a position reads the same bytes.\<close>

context read_at
begin

lemma streaming_frame_at_slice:
  assumes "length data < usize_limit" and "total_len \<le> length data" and "pos < total_len"
  shows "streaming_frame_at crc rd total_len pos limits =
    streaming_frame_at crc (slice_read data) total_len pos limits"
proof -
  have hdr: "rd (of_nat pos) 16 = slice_read data (of_nat pos) 16" if "16 \<le> total_len - pos"
    using assms that by (simp add: read_in_range slice_reader.read_in_range)
  have body: "rd (of_nat (pos + 16)) n = slice_read data (of_nat (pos + 16)) n"
    if "\<not> total_len - pos - 16 < n" and "16 \<le> total_len - pos" for n
    using assms that by (simp only: read_in_range slice_reader.read_in_range)
  show ?thesis
    unfolding streaming_frame_at_def Let_def FRAME_HEADER_LEN_def
    using hdr body by (auto simp: not_less simp del: of_nat_add split: sum.splits)
qed

end

lemma sum_rows_Some:
  "\<forall>e \<in> set es. entry_wf e \<Longrightarrow> unat acc + 65536 * length es < 2 ^ 64 \<Longrightarrow>
     \<exists>x. sum_rows es acc = Some x"
proof (induction es arbitrary: acc)
  case Nil
  then show ?case by simp
next
  case (Cons e es)
  have r: "unat (e_rows e) \<le> 65536"
    using Cons.prems(1) by (auto simp: entry_wf_def MAX_PHYSICAL_SECTION_ROWS_def word_le_nat_alt)
  obtain x where x: "checked_add acc (ucast (e_rows e)) = Some x"
    using Cons.prems(2) r by (simp add: checked_add_def unat_u64_of_u32)
  have "unat x = unat acc + unat (e_rows e)"
    using unat_checked_add [OF x] by (simp add: unat_u64_of_u32)
  then have "unat x + 65536 * length es < 2 ^ 64"
    using Cons.prems(2) r by simp
  with x Cons show ?case by auto
qed

lemma valid_part_rows:
  assumes "validate_part crc bs = Inr c" and "length bs < usize_limit"
  shows "\<exists>x. sum_rows (c_entries c) 0 = Some x"
proof -
  obtain area where "part_layout c area"
    using assms by (auto simp: validate_part_Inr elim: decode_and_bound_Inr)
  then have "\<forall>e \<in> set (c_entries c). entry_wf e" and "32 * length (c_entries c) + 32 < u32_limit"
    by (auto simp: part_layout_def canonical_layout_def list_all_iff encoded_len_def layout_lens)
  then show ?thesis by (intro sum_rows_Some) auto
qed

fun stream_matches :: "streaming_frame \<Rightarrow> frame_check \<Rightarrow> bool" where
  "stream_matches (SValid n _) check = (check = Valid n)"
| "stream_matches (SDamaged _ _ _) check = (\<not> is_valid check)"

lemma streaming_frame_slice:
  assumes small: "length bytes < usize_limit" and pos: "pos < length bytes"
  shows "\<exists>sf. streaming_frame_at crc (slice_read bytes) (length bytes) pos limits = Inr sf
    \<and> stream_matches sf (frame_at crc bytes pos limits)"
proof (cases "length bytes - pos < 16")
  case True
  then show ?thesis by (simp add: streaming_frame_at_def frame_at_def FRAME_HEADER_LEN_def Let_def)
next
  case False
  then have hdr: "slice_read bytes (of_nat pos) 16 = Inr (subslice pos (pos + 16) bytes)"
    using small pos by (intro slice_reader.read_in_range) auto
  show ?thesis
  proof (cases "frame_decode crc (subslice pos (pos + 16) bytes)")
    case (Inl e)
    with False hdr show ?thesis
      by (simp add: streaming_frame_at_def frame_at_def FRAME_HEADER_LEN_def Let_def)
  next
    case (Inr h)
    show ?thesis
    proof (cases "fh_part_len h > jl_max_part_len limits \<or> length bytes - pos - 16 < unat (fh_part_len h)")
      case True
      with False hdr Inr show ?thesis
        by (auto simp: streaming_frame_at_def frame_at_def FRAME_HEADER_LEN_def Let_def)
    next
      case fits: False
      let ?n = "unat (fh_part_len h)"
      let ?p = "subslice (pos + 16) (pos + 16 + ?n) bytes"
      have room: "pos + 16 + ?n \<le> length bytes"
        using fits False by linarith
      then have body: "slice_read bytes (of_nat (pos + 16)) ?n = Inr ?p"
        using small by (intro slice_reader.read_in_range) auto
      note simps = streaming_frame_at_def frame_at_def FRAME_HEADER_LEN_def Let_def
      show ?thesis
      proof (cases "validate_part crc ?p")
        case (Inl e)
        with False hdr Inr fits body show ?thesis
          by (simp add: simps del: of_nat_add)
      next
        case valid: (Inr c)
        have "length ?p < usize_limit"
          using small room by (simp add: length_subslice)
        with valid_part_rows [OF valid] obtain rows where "sum_rows (c_entries c) 0 = Some rows"
          by blast
        with False hdr Inr fits body valid show ?thesis
          by (simp add: simps del: of_nat_add)
      qed
    qed
  qed
qed

lemma frame_prefix:
  assumes "subslice pos (pos + 16 + n) bytes = frame_bytes crc p" and "length p = n"
    and "pos + 16 + n \<le> length bytes"
  shows "drop pos bytes = frame_bytes crc p @ drop (pos + 16 + n) bytes"
proof -
  have "drop (pos + 16 + n) bytes = drop (16 + n) (drop pos bytes)"
    by (simp add: add.commute add.left_commute)
  moreover have "subslice pos (pos + 16 + n) bytes = take (16 + n) (drop pos bytes)"
    by (simp add: subslice_def)
  ultimately have "drop pos bytes = subslice pos (pos + 16 + n) bytes @ drop (pos + 16 + n) bytes"
    by (simp only: append_take_drop_id)
  with assms(1) show ?thesis by simp
qed

lemma strict_loop_end: "total_len \<le> pos \<Longrightarrow> strict_loop crc rd total_len limits mx pos r = Inr r"
  by (subst strict_loop.simps) simp

lemma report_damage_neq: "sr_damages (report_damage r pos kind) \<noteq> sr_damages r"
  by (simp add: report_damage_def)

lemma report_parts_damages [simp]: "sr_damages (report_parts r pos ps) = sr_damages r"
  by (simp add: report_parts_def)

lemma report_part_damages [simp]: "sr_damages (report_part r pos n) = sr_damages r"
  by (simp add: report_part_def)

text \<open>What a strict scan of the bytes from \<open>pos\<close> has established when it returns.\<close>

definition strict_result :: "(u8 list \<Rightarrow> u32) \<Rightarrow> journal_limits \<Rightarrow> nat \<Rightarrow> u8 list \<Rightarrow> nat
    \<Rightarrow> scan_report \<Rightarrow> scan_report \<Rightarrow> u8 list list \<Rightarrow> u8 list \<Rightarrow> bool" where
  "strict_result crc limits mx bytes pos r r' ps rest \<longleftrightarrow>
     drop pos bytes = frames_of crc ps @ rest \<and> (\<forall>p \<in> set ps. part_ok crc limits p)
     \<and> sr_parts r' = sr_parts (report_parts r pos ps) \<and> sr_valid_len r' = sr_valid_len (report_parts r pos ps)
     \<and> (ps = [] \<or> length (sr_parts r) + length ps \<le> mx)
     \<and> (if rest = [] then r' = report_parts r pos ps
        else sr_damages r' \<noteq> sr_damages r
          \<and> \<not> is_valid (frame_at crc bytes (pos + length (frames_of crc ps)) limits))"

lemma strict_loop_sound:
  assumes "strict_loop crc (slice_read bytes) (length bytes) limits mx pos r = Inr r'"
    and "length bytes < usize_limit" and "pos \<le> length bytes"
  shows "\<exists>ps rest. strict_result crc limits mx bytes pos r r' ps rest"
  using assms
proof (induction "length bytes - pos" arbitrary: pos r rule: less_induct)
  case less
  show ?case
  proof (cases "pos < length bytes")
    case False
    then have "strict_result crc limits mx bytes pos r r' [] []"
      using less.prems by (simp add: strict_loop_end strict_result_def)
    then show ?thesis by blast
  next
    case True
    obtain sf where sf: "streaming_frame_at crc (slice_read bytes) (length bytes) pos limits = Inr sf"
      and m: "stream_matches sf (frame_at crc bytes pos limits)"
      using streaming_frame_slice [OF less.prems(2) True] by blast
    show ?thesis
    proof (cases sf)
      case (SDamaged why e can)
      have "strict_result crc limits mx bytes pos r r' [] (drop pos bytes)"
        using less.prems(1) True sf SDamaged m
        by (subst (asm) strict_loop.simps)
           (auto simp: strict_result_def report_damage_def split: if_splits)
      then show ?thesis by blast
    next
      case (SValid n rows)
      with m have v: "frame_at crc bytes pos limits = Valid n" by simp
      obtain p where p: "length p = n" "part_ok crc limits p"
        and sl: "subslice pos (pos + 16 + n) bytes = frame_bytes crc p" and room: "pos + 16 + n \<le> length bytes"
        using v less.prems(3) by (rule frame_at_Valid)
      have few: "length (sr_parts r) < mx"
        and rec: "strict_loop crc (slice_read bytes) (length bytes) limits mx (pos + 16 + n)
            (report_part r pos n) = Inr r'"
        using less.prems(1) True sf SValid
        by (subst (asm) strict_loop.simps, auto simp: FRAME_HEADER_LEN_def split: if_splits)+
      have "length bytes - (pos + 16 + n) < length bytes - pos"
        using True by simp
      from less.hyps [OF this rec less.prems(2) room] obtain ps rest where
        "strict_result crc limits mx bytes (pos + 16 + n) (report_part r pos n) r' ps rest"
        by blast
      then have "strict_result crc limits mx bytes pos r r' (p # ps) rest"
        using few p frame_prefix [OF sl p(1) room]
        by (auto simp: strict_result_def report_parts_Cons report_part_def add.assoc split: if_splits)
      then show ?thesis by blast
    qed
  qed
qed

lemma strict_loop_frames:
  assumes "\<forall>p \<in> set ps. part_ok crc limits p" and "length (pre @ frames_of crc ps) < usize_limit"
    and "length (sr_parts r) + length ps \<le> mx"
  shows "strict_loop crc (slice_read (pre @ frames_of crc ps)) (length (pre @ frames_of crc ps)) limits mx
    (length pre) r = Inr (report_parts r (length pre) ps)"
  using assms
proof (induction ps arbitrary: pre r)
  case Nil
  then show ?case by (simp add: strict_loop_end)
next
  case (Cons p ps)
  define bytes where "bytes = pre @ frames_of crc (p # ps)"
  have v: "frame_at crc bytes (length pre) limits = Valid (length p)"
    using Cons.prems frame_at_frame [of crc limits p pre "frames_of crc ps"] by (simp add: bytes_def)
  have pos: "length pre < length bytes" and small: "length bytes < usize_limit"
    using Cons.prems by (simp_all add: bytes_def)
  obtain rows where sf: "streaming_frame_at crc (slice_read bytes) (length bytes) (length pre) limits
      = Inr (SValid (length p) rows)"
    using streaming_frame_slice [OF small pos, of crc limits] v by (auto elim!: stream_matches.elims)
  have "strict_loop crc (slice_read bytes) (length bytes) limits mx (length pre) r =
      strict_loop crc (slice_read bytes) (length bytes) limits mx (length (pre @ frame_bytes crc p))
        (report_part r (length pre) (length p))"
    using Cons.prems(3) pos
    by (subst strict_loop.simps) (simp add: sf FRAME_HEADER_LEN_def add.assoc)
  also have "\<dots> = Inr (report_parts (report_part r (length pre) (length p)) (length (pre @ frame_bytes crc p)) ps)"
    using Cons.IH [of "pre @ frame_bytes crc p" "report_part r (length pre) (length p)"] Cons.prems
    by (simp add: bytes_def report_part_def)
  finally show ?case
    unfolding bytes_def [symmetric] by (simp add: report_parts_Cons add.assoc)
qed

context read_at
begin

lemma strict_loop_slice:
  assumes "length data < usize_limit"
  shows "strict_loop crc rd (length data) limits mx pos r =
    strict_loop crc (slice_read data) (length data) limits mx pos r"
proof (induction "length data - pos" arbitrary: pos r rule: less_induct)
  case less
  show ?case
  proof (cases "pos < length data")
    case False
    then show ?thesis by (simp add: strict_loop_end)
  next
    case True
    have eq: "streaming_frame_at crc rd (length data) pos limits =
        streaming_frame_at crc (slice_read data) (length data) pos limits"
      using assms True by (intro streaming_frame_at_slice) auto
    have IH: "strict_loop crc rd (length data) limits mx (pos + FRAME_HEADER_LEN + n) r' =
        strict_loop crc (slice_read data) (length data) limits mx (pos + FRAME_HEADER_LEN + n) r'" for n r'
      using True by (intro less.hyps) (simp add: FRAME_HEADER_LEN_def)
    show ?thesis
      by (subst (1 2) strict_loop.simps) (simp add: eq IH split: sum.splits streaming_frame.splits)
  qed
qed

text \<open>The strict scan of a source is the strict scan of its bytes.\<close>

lemma strict_scan_source:
  assumes "length data < usize_limit"
  shows "scan_journal_streaming_strict_from crc rd (Inr (of_nat (length data))) start_at limits mx =
    scan_journal_streaming_strict_from crc (slice_read data) (slice_byte_len data) start_at limits mx"
  using assms strict_loop_slice [OF assms]
  by (simp add: scan_journal_streaming_strict_from_def slice_byte_len_def unat_of_nat_64 Let_def)

end

lemma strict_scan_unfold:
  assumes "length bytes < usize_limit" and "start \<le> length bytes"
  shows "scan_journal_streaming_strict_from crc (slice_read bytes) (slice_byte_len bytes) (of_nat start) limits mx =
    strict_loop crc (slice_read bytes) (length bytes) limits mx start
      \<lparr>sr_parts = [], sr_damages = [], sr_valid_len = start\<rparr>"
  using assms by (simp add: scan_journal_streaming_strict_from_def slice_byte_len_def unat_of_nat_64 Let_def)

lemma strict_scan_clean_iff:
  assumes "length bytes < usize_limit" and "start \<le> length bytes"
  shows "scan_journal_streaming_strict_from crc (slice_read bytes) (slice_byte_len bytes) (of_nat start) limits mx
      = Inr r \<and> is_clean r \<longleftrightarrow>
    (\<exists>ps. drop start bytes = frames_of crc ps \<and> (\<forall>p \<in> set ps. part_ok crc limits p) \<and> length ps \<le> mx
       \<and> r = \<lparr>sr_parts = refs_from start ps, sr_damages = [], sr_valid_len = length bytes\<rparr>)" (is "?l \<longleftrightarrow> ?r")
proof
  let ?init = "\<lparr>sr_parts = [], sr_damages = [], sr_valid_len = start\<rparr>"
  assume ?l
  then have "strict_loop crc (slice_read bytes) (length bytes) limits mx start ?init = Inr r" and "is_clean r"
    by (simp_all add: strict_scan_unfold [OF assms])
  then obtain ps rest where "strict_result crc limits mx bytes start ?init r ps rest" and "is_clean r"
    using strict_loop_sound [OF _ assms] by blast
  then have sr: "strict_result crc limits mx bytes start ?init r ps []"
    by (auto simp: strict_result_def is_clean_def split: if_splits)
  have "drop start bytes = frames_of crc ps"
    using sr by (simp add: strict_result_def)
  then have "length (drop start bytes) = length (frames_of crc ps)" by simp
  then have "length bytes = start + length (frames_of crc ps)"
    using assms(2) by simp
  with sr show ?r
    using report_parts_init [of start ps crc] by (auto simp: strict_result_def intro!: exI [of _ ps])
next
  let ?init = "\<lparr>sr_parts = [], sr_damages = [], sr_valid_len = start\<rparr>"
  assume ?r
  then obtain ps where d: "drop start bytes = frames_of crc ps" and ok: "\<forall>p \<in> set ps. part_ok crc limits p"
    and few: "length ps \<le> mx"
    and r: "r = \<lparr>sr_parts = refs_from start ps, sr_damages = [], sr_valid_len = length bytes\<rparr>" by blast
  have b: "bytes = take start bytes @ frames_of crc ps" and l: "length (take start bytes) = start"
    using append_take_drop_id [of start bytes] assms(2) by (simp_all only: d) simp
  have "strict_loop crc (slice_read bytes) (length bytes) limits mx start ?init = Inr (report_parts ?init start ps)"
    using strict_loop_frames [OF ok, of "take start bytes" ?init mx] assms(1) few b l by simp
  moreover have "length bytes = start + length (frames_of crc ps)"
    using arg_cong [OF b, of length] l by simp
  ultimately show ?l
    using report_parts_init [of start ps crc] by (simp add: strict_scan_unfold [OF assms] r is_clean_def)
qed

section \<open>Agreement of the two scanners\<close>

lemma scan_loop_extends:
  "\<exists>ps ds. sr_parts (scan_loop crc bytes limits pos r) = sr_parts r @ ps
     \<and> sr_damages (scan_loop crc bytes limits pos r) = sr_damages r @ ds"
proof (induction crc bytes limits pos r rule: scan_loop.induct)
  case (1 crc bytes limits pos r)
  show ?case
  proof (cases "pos < length bytes")
    case False
    then show ?thesis by (simp add: scan_loop_end)
  next
    case True
    show ?thesis
    proof (cases "frame_at crc bytes pos limits")
      case (Valid n)
      with True "1.IH"(1) [OF True Valid] show ?thesis
        by (subst (1 2) scan_loop.simps) (auto simp: report_part_def)
    next
      case TornFrame
      with True show ?thesis by (subst (1 2) scan_loop.simps) (simp add: report_damage_def)
    next
      case (Damaged implied_end)
      show ?thesis
      proof (cases "resync crc bytes pos implied_end limits")
        case None
        with True Damaged show ?thesis by (subst (1 2) scan_loop.simps) (simp add: report_damage_def)
      next
        case (Some nxt)
        with True Damaged "1.IH"(2) [OF True Damaged Some] show ?thesis
          by (subst (1 2) scan_loop.simps) (auto simp: report_damage_def)
      qed
    qed
  qed
qed

lemma scan_loop_damaged:
  assumes "pos < length bytes" and "\<not> is_valid (frame_at crc bytes pos limits)"
  shows "sr_damages (scan_loop crc bytes limits pos r) \<noteq> sr_damages r"
proof (cases "frame_at crc bytes pos limits")
  case (Damaged implied_end)
  have "sr_damages (scan_loop crc bytes limits nxt (report_damage r pos kind)) \<noteq> sr_damages r" for nxt kind
    using scan_loop_extends [of crc bytes limits nxt "report_damage r pos kind"]
    by (auto simp: report_damage_def)
  with assms Damaged show ?thesis
    by (subst scan_loop.simps) (auto simp: report_damage_def split: option.splits)
qed (use assms in \<open>auto simp: scan_loop.simps [of crc bytes limits pos r] report_damage_def\<close>)

lemma scanners_agree:
  assumes "length bytes < usize_limit"
    and "scan_journal_streaming_strict_from crc (slice_read bytes) (slice_byte_len bytes) 0 limits mx = Inr r"
  shows "(is_clean r \<longrightarrow> scan_journal crc bytes limits = r)
    \<and> (is_clean r \<longleftrightarrow> is_clean (scan_journal crc bytes limits))
    \<and> (\<exists>ps. sr_parts (scan_journal crc bytes limits) = sr_parts r @ ps)"
proof -
  let ?init = "\<lparr>sr_parts = [], sr_damages = [], sr_valid_len = 0\<rparr>"
  have "strict_loop crc (slice_read bytes) (length bytes) limits mx 0 ?init = Inr r"
    using assms(2) strict_scan_unfold [OF assms(1), of 0] by simp
  then obtain ps rest where sr: "strict_result crc limits mx bytes 0 ?init r ps rest"
    using strict_loop_sound [OF _ assms(1)] by blast
  then have b: "bytes = frames_of crc ps @ rest" and ok: "\<forall>p \<in> set ps. part_ok crc limits p"
    and parts: "sr_parts r = refs_from 0 ps"
    by (auto simp: strict_result_def report_parts_def)
  let ?n = "length (frames_of crc ps)"
  let ?r1 = "\<lparr>sr_parts = refs_from 0 ps, sr_damages = [], sr_valid_len = ?n\<rparr>"
  have scan: "scan_journal crc bytes limits = scan_loop crc bytes limits ?n ?r1"
    using scan_journal_frames [OF ok, of rest] b by simp
  show ?thesis
  proof (cases "rest = []")
    case True
    then have "scan_journal crc bytes limits = ?r1"
      using scan b by (simp add: scan_loop_end)
    moreover have "r = ?r1"
      using sr True report_parts_init [of 0 ps crc] by (simp add: strict_result_def)
    ultimately show ?thesis by simp
  next
    case False
    then have "\<not> is_clean r" and nv: "\<not> is_valid (frame_at crc bytes ?n limits)"
      using sr by (auto simp: strict_result_def is_clean_def)
    moreover have "\<not> is_clean (scan_journal crc bytes limits)"
      using scan_loop_damaged [OF _ nv, of ?r1] False b scan by (simp add: is_clean_def)
    moreover have "\<exists>qs. sr_parts (scan_journal crc bytes limits) = sr_parts r @ qs"
      using scan_loop_extends [of crc bytes limits ?n ?r1] by (auto simp: scan parts)
    ultimately show ?thesis by simp
  qed
qed

section \<open>Properties\<close>

definition demo_limits :: journal_limits where
  "demo_limits = \<lparr>jl_max_part_len = 67108864\<rparr>"

lemma demo_part_ok: "part_ok sum_crc demo_limits demo_part"
  using demo_part_valid by (simp add: part_ok_def demo_limits_def length_demo_part)

text \<open>
  Recovery of an interrupted write: a journal body made of valid frames followed by any proper
  prefix of one more frame is scanned into exactly the references of the complete frames, with the
  cut-off tail reported as torn (no damage when nothing of it was written) and \<open>valid_len\<close> at the
  end of the last complete frame.
\<close>

theorem scan_recovers_prefix:
  assumes "\<forall>p \<in> set ps. part_ok crc limits p" and "part_ok crc limits q" and "k < 16 + length q"
  shows "scan_journal crc (frames_of crc ps @ take k (frame_bytes crc q)) limits =
    \<lparr>sr_parts = refs_from 0 ps,
     sr_damages = (if k = 0 then [] else [\<lparr>dr_from = length (frames_of crc ps), dr_kind = TornTail\<rparr>]),
     sr_valid_len = length (frames_of crc ps)\<rparr>"
proof (cases "k = 0")
  case True
  then show ?thesis
    using scan_journal_frames [OF assms(1), of "[]"] by (simp add: scan_loop_end)
next
  case False
  then have "frame_at crc (frames_of crc ps @ take k (frame_bytes crc q)) (length (frames_of crc ps)) limits
      = TornFrame"
    using assms(2,3) by (intro frame_at_torn) auto
  then show ?thesis
    using False scan_journal_frames [OF assms(1), of "take k (frame_bytes crc q)"]
    by (subst (asm) scan_loop.simps) (simp add: report_damage_def)
qed

lemma scan_recovers_prefix_witness:
  "sr_parts (scan_journal sum_crc (frame_bytes sum_crc demo_part @ take 50 (frame_bytes sum_crc demo_part))
     demo_limits) = [\<lparr>pr_offset = 16, pr_len = 112\<rparr>]"
  using scan_recovers_prefix [of "[demo_part]" sum_crc demo_limits demo_part 50] demo_part_ok
  by (simp add: length_demo_part FRAME_HEADER_LEN_def)

text \<open>
  C19. Soundness of the scanner on arbitrary bytes: every reported part lies inside the buffer right
  after its own frame header, its frame bytes are the encoding of a part that validates and respects
  the part limit, parts are disjoint and in order, \<open>valid_len\<close> ends the last part, and damages are
  in increasing order.
\<close>

theorem scan_journal_sound:
  "report_sound crc limits bytes (length bytes) (scan_journal crc bytes limits)"
  unfolding scan_journal_def
  by (rule scan_loop_sound) (simp_all add: report_sound_def refs_ordered_def refs_end_def)

text \<open>
  C11. The strict streaming scanner reports a clean scan exactly for a concatenation of at most
  \<open>max_parts\<close> valid frames, and then its report lists precisely those frames.
\<close>

theorem strict_scan_exact:
  assumes "length bytes < usize_limit" and "start \<le> length bytes"
  shows "scan_journal_streaming_strict_from crc (slice_read bytes) (slice_byte_len bytes) (of_nat start) limits mx
      = Inr r \<and> is_clean r \<longleftrightarrow>
    (\<exists>ps. drop start bytes = frames_of crc ps \<and> (\<forall>p \<in> set ps. part_ok crc limits p) \<and> length ps \<le> mx
       \<and> r = \<lparr>sr_parts = refs_from start ps, sr_damages = [], sr_valid_len = length bytes\<rparr>)"
  by (rule strict_scan_clean_iff [OF assms])

lemma strict_scan_exact_witness:
  "scan_journal_streaming_strict_from sum_crc (slice_read (frame_bytes sum_crc demo_part))
     (slice_byte_len (frame_bytes sum_crc demo_part)) 0 demo_limits 4
   = Inr \<lparr>sr_parts = [\<lparr>pr_offset = 16, pr_len = 112\<rparr>], sr_damages = [], sr_valid_len = 128\<rparr>"
  using strict_scan_exact [of "frame_bytes sum_crc demo_part" 0 sum_crc demo_limits 4
      "\<lparr>sr_parts = [\<lparr>pr_offset = 16, pr_len = 112\<rparr>], sr_damages = [], sr_valid_len = 128\<rparr>"] demo_part_ok
  by (auto simp: length_demo_part FRAME_HEADER_LEN_def intro: exI [of _ "[demo_part]"])

text \<open>
  The strict scanner and the in-memory scanner agree: when the strict scan of a buffer returns,
  its parts are a prefix of the in-memory scanner's parts, one is clean exactly when the other is,
  and on a clean buffer the two reports are equal.
\<close>

theorem strict_scan_agrees:
  assumes "length bytes < usize_limit"
    and "scan_journal_streaming_strict_from crc (slice_read bytes) (slice_byte_len bytes) 0 limits mx = Inr r"
  shows "(\<exists>ps. sr_parts (scan_journal crc bytes limits) = sr_parts r @ ps)
    \<and> (is_clean r \<longleftrightarrow> is_clean (scan_journal crc bytes limits))
    \<and> (is_clean r \<longrightarrow> scan_journal crc bytes limits = r)"
  using scanners_agree [OF assms] by blast

lemma strict_scan_agrees_witness:
  "\<exists>r. scan_journal_streaming_strict_from sum_crc (slice_read [1, 2]) (slice_byte_len [1, 2]) 0 demo_limits 4 = Inr r
    \<and> \<not> is_clean (scan_journal sum_crc [1, 2] demo_limits)"
proof -
  have "scan_journal_streaming_strict_from sum_crc (slice_read [1, 2]) (slice_byte_len [1, 2]) 0 demo_limits 4 =
      Inr \<lparr>sr_parts = [], sr_damages = [\<lparr>dr_from = 0, dr_kind = TornTail\<rparr>], sr_valid_len = 0\<rparr>"
    by (simp add: scan_journal_streaming_strict_from_def slice_byte_len_def strict_loop.simps
        streaming_frame_at_def FRAME_HEADER_LEN_def report_damage_def)
  from strict_scan_agrees [OF _ this] this show ?thesis by (simp add: is_clean_def)
qed

end
