(* ===== verification/Recovery_Scan.thy ===== *)
theory Recovery_Scan
  imports Journal_Scan
begin

text \<open>
  Best-effort recovery of a damaged journal (\<open>scan_journal_streaming_recovery_from\<close> in
  \<open>crates/kronika-format/src/parts.rs\<close>): the explicit work limits, the chunked search for the next
  frame magic with its three-byte carry, the bounded validation of candidates, the main loop and
  the exact accounting of the report.  Byte counts and offsets (\<open>u64\<close>, \<open>usize\<close>) are natural numbers
  with the overflow of every checked operation written out.
\<close>

section \<open>Limits and report types\<close>

definition MAX_JOURNAL_LEN :: nat where
  "MAX_JOURNAL_LEN = 1024 * 1024 * 1024"

definition MAX_PART_LEN :: nat where
  "MAX_PART_LEN = 64 * 1024 * 1024"

definition MAX_JOURNAL_PARTS :: nat where
  "MAX_JOURNAL_PARTS = 1000000"

definition RECOVERY_SCAN_CHUNK_LEN :: nat where
  "RECOVERY_SCAN_CHUNK_LEN = 64 * 1024"

definition MAX_RECOVERY_CANDIDATES :: nat where
  "MAX_RECOVERY_CANDIDATES = 1000000"

record recovery_scan_limits =
  rl_journal :: journal_limits
  rl_max_scan_bytes :: nat
  rl_max_parts :: nat
  rl_max_candidates :: nat
  rl_max_candidate_bytes :: nat

definition recovery_default_limits :: recovery_scan_limits where
  "recovery_default_limits = \<lparr>rl_journal = \<lparr>jl_max_part_len = of_nat MAX_PART_LEN\<rparr>,
     rl_max_scan_bytes = MAX_JOURNAL_LEN, rl_max_parts = MAX_JOURNAL_PARTS,
     rl_max_candidates = MAX_RECOVERY_CANDIDATES, rl_max_candidate_bytes = MAX_JOURNAL_LEN\<rparr>"

record recovery_damage_region =
  rd_from :: nat
  rd_to :: nat
  rd_reason :: recovery_damage_reason

datatype recovery_scan_stop =
    EndOfSource | ScanByteLimit nat | PartLimit nat | StopCandidateLimit nat | StopCandidateByteLimit nat

record recovery_scan_report =
  rr_parts :: "part_ref list"
  rr_damages :: "recovery_damage_region list"
  rr_physical_len :: nat
  rr_recovered_part_bytes :: nat
  rr_recovered_rows :: nat
  rr_discarded_bytes :: nat
  rr_discarded_suffix_bytes :: nat
  rr_candidate_headers_examined :: nat
  rr_candidate_validation_bytes :: nat
  rr_stop :: recovery_scan_stop

datatype recovery_limit_kind = PartBytes | ScanBytes | Parts | Candidates | CandidateBytes

datatype recovery_scan_error =
    RecIo io_error
  | SourceLengthChanged nat nat
  | AccountingOverflow string
  | InvalidLimits recovery_limit_kind nat nat nat

definition validate_recovery_limit :: "recovery_limit_kind \<Rightarrow> nat \<Rightarrow> nat \<Rightarrow> recovery_scan_error + unit" where
  "validate_recovery_limit kind value maximum =
     (if value = 0 \<or> value > maximum then Inl (InvalidLimits kind value 1 maximum) else Inr ())"

definition validate_recovery_limits :: "recovery_scan_limits \<Rightarrow> recovery_scan_error + unit" where
  "validate_recovery_limits limits =
     (case validate_recovery_limit PartBytes (unat (jl_max_part_len (rl_journal limits))) MAX_PART_LEN of
        Inl e \<Rightarrow> Inl e
      | Inr _ \<Rightarrow>
          (case validate_recovery_limit ScanBytes (rl_max_scan_bytes limits) MAX_JOURNAL_LEN of
             Inl e \<Rightarrow> Inl e
           | Inr _ \<Rightarrow>
               (case validate_recovery_limit Parts (rl_max_parts limits) MAX_JOURNAL_PARTS of
                  Inl e \<Rightarrow> Inl e
                | Inr _ \<Rightarrow>
                    (case validate_recovery_limit Candidates (rl_max_candidates limits) MAX_RECOVERY_CANDIDATES of
                       Inl e \<Rightarrow> Inl e
                     | Inr _ \<Rightarrow>
                         validate_recovery_limit CandidateBytes (rl_max_candidate_bytes limits) MAX_JOURNAL_LEN))))"

section \<open>Checked accounting\<close>

definition u64_checked_add :: "nat \<Rightarrow> nat \<Rightarrow> nat option" where
  "u64_checked_add a b = (if a + b < 2 ^ 64 then Some (a + b) else None)"

definition u64_checked_sub :: "nat \<Rightarrow> nat \<Rightarrow> nat option" where
  "u64_checked_sub a b = (if b \<le> a then Some (a - b) else None)"

definition u64_checked_mul :: "nat \<Rightarrow> nat \<Rightarrow> nat option" where
  "u64_checked_mul a b = (if a * b < 2 ^ 64 then Some (a * b) else None)"

definition checked_account :: "string \<Rightarrow> 'a option \<Rightarrow> recovery_scan_error + 'a" where
  "checked_account quantity x = (case x of None \<Rightarrow> Inl (AccountingOverflow quantity) | Some y \<Rightarrow> Inr y)"

definition recovery_offset :: "nat \<Rightarrow> string \<Rightarrow> recovery_scan_error + nat" where
  "recovery_offset value quantity = checked_account quantity (if value < 2 ^ 64 then Some value else None)"

definition push_stopped_damage ::
    "recovery_damage_region list \<Rightarrow> nat \<Rightarrow> nat \<Rightarrow> nat \<Rightarrow> recovery_damage_reason
       \<Rightarrow> recovery_scan_error + recovery_damage_region list" where
  "push_stopped_damage damages from_at searched_to physical_len reason =
     (case recovery_offset from_at ''damage offset'' of
        Inl e \<Rightarrow> Inl e
      | Inr start \<Rightarrow>
          (case recovery_offset searched_to ''search stop offset'' of
             Inl e \<Rightarrow> Inl e
           | Inr stop_at \<Rightarrow>
               let searched = min stop_at physical_len;
                   ds1 = (if start < searched
                          then damages @ [\<lparr>rd_from = start, rd_to = searched, rd_reason = reason\<rparr>]
                          else damages);
                   ds2 = (if searched < physical_len
                          then ds1 @ [\<lparr>rd_from = searched, rd_to = physical_len, rd_reason = WorkLimit\<rparr>]
                          else ds1)
               in Inr ds2))"

text \<open>The in-place compaction: \<open>acc\<close> is \<open>damages[..write]\<close>.\<close>

fun coalesce_into :: "recovery_damage_region list \<Rightarrow> recovery_damage_region list \<Rightarrow> recovery_damage_region list" where
  "coalesce_into acc [] = acc"
| "coalesce_into acc (d # ds) =
     (if acc \<noteq> [] \<and> rd_to (last acc) = rd_from d \<and> rd_reason (last acc) = rd_reason d
      then coalesce_into (butlast acc @ [(last acc)\<lparr>rd_to := rd_to d\<rparr>]) ds
      else coalesce_into (acc @ [d]) ds)"

definition coalesce_recovery_damages :: "recovery_damage_region list \<Rightarrow> recovery_damage_region list" where
  "coalesce_recovery_damages damages = coalesce_into [] damages"

section \<open>Candidates\<close>

datatype candidate_check = CValid | CInvalid | CLimit | CByteLimit

text \<open>The two work counters the scan threads through every candidate check.\<close>

record recovery_work =
  wk_candidates :: nat
  wk_bytes :: nat

definition check_recovery_candidate ::
    "(u8 list \<Rightarrow> u32) \<Rightarrow> reader \<Rightarrow> nat \<Rightarrow> nat \<Rightarrow> recovery_scan_limits \<Rightarrow> recovery_work
       \<Rightarrow> io_error + (candidate_check \<times> recovery_work)" where
  "check_recovery_candidate crc rd at scan_end limits w =
     (case usize_checked_add at FRAME_HEADER_LEN of
        None \<Rightarrow> Inr (CInvalid, w)
      | Some header_end \<Rightarrow>
          if header_end > scan_end then Inr (CInvalid, w)
          else if wk_candidates w \<ge> rl_max_candidates limits then Inr (CLimit, w)
          else
            let w1 = w\<lparr>wk_candidates := wk_candidates w + 1\<rparr> in
            (case u64_checked_add (wk_bytes w1) FRAME_HEADER_LEN of
               None \<Rightarrow> Inr (CByteLimit, w1)
             | Some after_header \<Rightarrow>
                 if after_header > rl_max_candidate_bytes limits then Inr (CByteLimit, w1)
                 else
                   let w2 = w1\<lparr>wk_bytes := after_header\<rparr> in
                   (case rd (of_nat at) FRAME_HEADER_LEN of
                      Inl e \<Rightarrow> Inl e
                    | Inr encoded \<Rightarrow>
                        (case frame_decode crc encoded of
                           Inl _ \<Rightarrow> Inr (CInvalid, w2)
                         | Inr header \<Rightarrow>
                             if fh_part_len header > jl_max_part_len (rl_journal limits) then Inr (CInvalid, w2)
                             else
                               let body_len = unat (fh_part_len header) in
                               if scan_end - header_end < body_len then Inr (CInvalid, w2)
                               else
                                 (case u64_checked_add (wk_bytes w2) (unat (fh_part_len header)) of
                                    None \<Rightarrow> Inr (CByteLimit, w2)
                                  | Some after_body \<Rightarrow>
                                      if after_body > rl_max_candidate_bytes limits then Inr (CByteLimit, w2)
                                      else
                                        let w3 = w2\<lparr>wk_bytes := after_body\<rparr> in
                                        (case rd (of_nat (at + FRAME_HEADER_LEN)) body_len of
                                           Inl e \<Rightarrow> Inl e
                                         | Inr part_buf \<Rightarrow>
                                             Inr ((case validate_part crc part_buf of
                                                     Inr _ \<Rightarrow> CValid | Inl _ \<Rightarrow> CInvalid), w3)))))))"

datatype streaming_resync =
    Found nat | NoCandidate nat | CandidateLimit nat | CandidateByteLimit nat

text \<open>How one candidate check continues or ends the search.\<close>

definition candidate_outcome :: "candidate_check \<Rightarrow> nat \<Rightarrow> streaming_resync option" where
  "candidate_outcome check at =
     (case check of
        CValid \<Rightarrow> Some (Found at)
      | CInvalid \<Rightarrow> None
      | CLimit \<Rightarrow> Some (CandidateLimit at)
      | CByteLimit \<Rightarrow> Some (CandidateByteLimit at))"

section \<open>The chunked search\<close>

text \<open>The inner loop over one buffer: \<open>chunk[..available]\<close> begins at \<open>absolute_start\<close>.\<close>

function search_chunk ::
    "(u8 list \<Rightarrow> u32) \<Rightarrow> reader \<Rightarrow> nat \<Rightarrow> recovery_scan_limits \<Rightarrow> nat \<Rightarrow> nat \<Rightarrow> u8 list \<Rightarrow> nat
       \<Rightarrow> recovery_work \<Rightarrow> io_error + (streaming_resync option \<times> recovery_work)" where
  "search_chunk crc rd scan_end limits search_start absolute_start chunk search_at w =
     (if search_at + length FRAME_MAGIC \<le> length chunk then
        (case find_magic (drop search_at chunk) of
           None \<Rightarrow> Inr (None, w)
         | Some relative \<Rightarrow>
             let found = search_at + relative;
                 candidate_at = absolute_start + found in
             if candidate_at \<ge> search_start \<and> candidate_at + FRAME_HEADER_LEN \<le> scan_end then
               (case check_recovery_candidate crc rd candidate_at scan_end limits w of
                  Inl e \<Rightarrow> Inl e
                | Inr (check, w') \<Rightarrow>
                    (case candidate_outcome check candidate_at of
                       Some outcome \<Rightarrow> Inr (Some outcome, w')
                     | None \<Rightarrow> search_chunk crc rd scan_end limits search_start absolute_start chunk (found + 1) w'))
             else search_chunk crc rd scan_end limits search_start absolute_start chunk (found + 1) w)
      else Inr (None, w))"
  by pat_completeness auto
termination
  by (relation "measure (\<lambda>(crc, rd, scan_end, limits, search_start, absolute_start, chunk, search_at, w).
        length chunk - search_at)") (auto simp: FRAME_MAGIC_def)

declare search_chunk.simps [simp del]

function chunk_loop ::
    "(u8 list \<Rightarrow> u32) \<Rightarrow> reader \<Rightarrow> nat \<Rightarrow> recovery_scan_limits \<Rightarrow> nat \<Rightarrow> nat \<Rightarrow> u8 list
       \<Rightarrow> recovery_work \<Rightarrow> io_error + (streaming_resync \<times> recovery_work)" where
  "chunk_loop crc rd scan_end limits search_start chunk_at carry w =
     (if chunk_at < scan_end then
        let read_len = min (scan_end - chunk_at) RECOVERY_SCAN_CHUNK_LEN in
        (case rd (of_nat chunk_at) read_len of
           Inl e \<Rightarrow> Inl e
         | Inr bytes \<Rightarrow>
             let chunk = carry @ bytes;
                 absolute_start = chunk_at - length carry in
             (case search_chunk crc rd scan_end limits search_start absolute_start chunk 0 w of
                Inl e \<Rightarrow> Inl e
              | Inr (Some outcome, w') \<Rightarrow> Inr (outcome, w')
              | Inr (None, w') \<Rightarrow>
                  let carry_len = min (length chunk) (length FRAME_MAGIC - 1) in
                  chunk_loop crc rd scan_end limits search_start (chunk_at + read_len)
                    (drop (length chunk - carry_len) chunk) w'))
      else Inr (NoCandidate scan_end, w))"
  by pat_completeness auto
termination
  by (relation "measure (\<lambda>(crc, rd, scan_end, limits, search_start, chunk_at, carry, w). scan_end - chunk_at)")
     (auto simp: RECOVERY_SCAN_CHUNK_LEN_def)

declare chunk_loop.simps [simp del]

text \<open>
  \<open>damaged_at.saturating_add(1).min(scan_end)\<close>: saturation is at \<open>usize::MAX\<close>, which no \<open>scan_end\<close>
  exceeds.
\<close>

definition resync_start :: "nat \<Rightarrow> nat \<Rightarrow> nat option \<Rightarrow> nat" where
  "resync_start damaged_at scan_end implied_end =
     (case implied_end of
        None \<Rightarrow> min (damaged_at + 1) scan_end
      | Some boundary \<Rightarrow>
          min (case usize_checked_add boundary 1 of Some b \<Rightarrow> b | None \<Rightarrow> scan_end) scan_end)"

definition streaming_resync ::
    "(u8 list \<Rightarrow> u32) \<Rightarrow> reader \<Rightarrow> nat \<Rightarrow> nat \<Rightarrow> nat option \<Rightarrow> recovery_scan_limits \<Rightarrow> recovery_work \<Rightarrow> bool
       \<Rightarrow> io_error + (streaming_resync \<times> recovery_work)" where
  "streaming_resync crc rd damaged_at scan_end implied_end limits w can_resync =
     (let search_start = resync_start damaged_at scan_end implied_end in
      if \<not> can_resync then Inr (NoCandidate scan_end, w)
      else
        (case implied_end of
           None \<Rightarrow> chunk_loop crc rd scan_end limits search_start search_start [] w
         | Some boundary \<Rightarrow>
             if (case usize_checked_add boundary FRAME_HEADER_LEN of
                   None \<Rightarrow> False | Some header_end \<Rightarrow> header_end \<le> scan_end) then
               (case check_recovery_candidate crc rd boundary scan_end limits w of
                  Inl e \<Rightarrow> Inl e
                | Inr (check, w') \<Rightarrow>
                    (case candidate_outcome check boundary of
                       Some outcome \<Rightarrow> Inr (outcome, w')
                     | None \<Rightarrow> chunk_loop crc rd scan_end limits search_start search_start [] w'))
             else chunk_loop crc rd scan_end limits search_start search_start [] w))"

lemma search_chunk_found:
  "search_chunk crc rd scan_end limits search_start absolute_start chunk search_at w = Inr (Some (Found at), w')
     \<Longrightarrow> search_start \<le> at \<and> at < scan_end"
proof (induction crc rd scan_end limits search_start absolute_start chunk search_at w rule: search_chunk.induct)
  case (1 crc rd scan_end limits search_start absolute_start chunk search_at w)
  show ?case
    using "1.prems" "1.IH"
    by (subst (asm) search_chunk.simps)
       (auto simp: Let_def candidate_outcome_def FRAME_HEADER_LEN_def
          split: if_splits option.splits sum.splits candidate_check.splits)
qed

lemma chunk_loop_found:
  "chunk_loop crc rd scan_end limits search_start chunk_at carry w = Inr (Found at, w')
     \<Longrightarrow> search_start \<le> at \<and> at < scan_end"
proof (induction crc rd scan_end limits search_start chunk_at carry w rule: chunk_loop.induct)
  case (1 crc rd scan_end limits search_start chunk_at carry w)
  show ?case
    using "1.prems" "1.IH"
    by (subst (asm) chunk_loop.simps)
       (auto simp: Let_def dest: search_chunk_found split: if_splits option.splits sum.splits prod.splits)
qed

lemma resync_start_gt:
  "damaged_at < scan_end \<Longrightarrow> (\<And>b. implied_end = Some b \<Longrightarrow> damaged_at < b)
     \<Longrightarrow> damaged_at < resync_start damaged_at scan_end implied_end"
  by (auto simp: resync_start_def usize_checked_add_def min_def split: option.splits)

lemma streaming_resync_found:
  assumes "streaming_resync crc rd pos scan_end implied_end limits w can = Inr (Found at, w')"
    and "pos < scan_end" and "\<And>b. implied_end = Some b \<Longrightarrow> pos < b"
  shows "pos < at \<and> at < scan_end"
proof -
  have s: "pos < resync_start pos scan_end implied_end"
    using assms by (intro resync_start_gt)
  have loop: "pos < at \<and> at < scan_end"
    if "chunk_loop crc rd scan_end limits (resync_start pos scan_end implied_end) c carry w0 = Inr (Found at, w')"
    for c carry w0 using chunk_loop_found [OF that] s by simp
  have check: "at = b \<and> b < scan_end"
    if "candidate_outcome c b = Some (Found at)" and "b + FRAME_HEADER_LEN \<le> scan_end" for c b
    using that by (auto simp: candidate_outcome_def FRAME_HEADER_LEN_def split: candidate_check.splits)
  show ?thesis
  proof (cases implied_end)
    case None
    with assms(1) loop show ?thesis by (auto simp: streaming_resync_def Let_def split: if_splits)
  next
    case (Some b)
    with assms(3) have "pos < b" by simp
    with assms(1) loop check Some show ?thesis
      by (auto simp: streaming_resync_def Let_def usize_checked_add_def
          split: if_splits sum.splits prod.splits option.splits dest: check)
  qed
qed

lemma streaming_frame_implied_end:
  "streaming_frame_at crc rd total_len pos limits = Inr (SDamaged reason (Some e) can) \<Longrightarrow> pos < e \<and> e \<le> total_len"
  by (auto simp: streaming_frame_at_def Let_def usize_checked_add_def FRAME_HEADER_LEN_def
      split: if_splits sum.splits option.splits)

section \<open>The scan\<close>

record recovery_state =
  rs_parts :: "part_ref list"
  rs_damages :: "recovery_damage_region list"
  rs_part_bytes :: nat
  rs_rows :: nat
  rs_work :: recovery_work
  rs_stop :: recovery_scan_stop

definition recovery_init :: recovery_state where
  "recovery_init = \<lparr>rs_parts = [], rs_damages = [], rs_part_bytes = 0, rs_rows = 0,
     rs_work = \<lparr>wk_candidates = 0, wk_bytes = 0\<rparr>, rs_stop = EndOfSource\<rparr>"

text \<open>The arm of an accepted frame.\<close>

definition accept_frame :: "recovery_state \<Rightarrow> nat \<Rightarrow> nat \<Rightarrow> nat \<Rightarrow> recovery_scan_error + recovery_state" where
  "accept_frame st pos body_len rows =
     (case checked_account ''part byte'' (u64_checked_add (rs_part_bytes st) body_len) of
        Inl e \<Rightarrow> Inl e
      | Inr total_bytes \<Rightarrow>
          (case checked_account ''row'' (u64_checked_add (rs_rows st) rows) of
             Inl e \<Rightarrow> Inl e
           | Inr rows' \<Rightarrow>
               Inr (st\<lparr>rs_parts := rs_parts st @ [\<lparr>pr_offset = pos + FRAME_HEADER_LEN, pr_len = body_len\<rparr>],
                       rs_part_bytes := total_bytes, rs_rows := rows'\<rparr>)))"

definition stop_at_part_limit ::
    "recovery_scan_limits \<Rightarrow> nat \<Rightarrow> nat \<Rightarrow> recovery_state \<Rightarrow> recovery_scan_error + recovery_state" where
  "stop_at_part_limit limits physical_len pos st =
     (case recovery_offset pos ''part-limit offset'' of
        Inl e \<Rightarrow> Inl e
      | Inr from_at \<Rightarrow>
          Inr (st\<lparr>rs_stop := PartLimit (rl_max_parts limits),
                  rs_damages := rs_damages st @
                    [\<lparr>rd_from = from_at, rd_to = physical_len, rd_reason = WorkLimit\<rparr>]\<rparr>))"

definition stop_after_search ::
    "nat \<Rightarrow> nat \<Rightarrow> nat \<Rightarrow> recovery_damage_reason \<Rightarrow> recovery_scan_stop \<Rightarrow> recovery_state
       \<Rightarrow> recovery_scan_error + recovery_state" where
  "stop_after_search physical_len pos searched_to reason stop st =
     (case push_stopped_damage (rs_damages st) pos searched_to physical_len reason of
        Inl e \<Rightarrow> Inl e
      | Inr ds \<Rightarrow> Inr (st\<lparr>rs_damages := ds, rs_stop := stop\<rparr>))"

definition resume_at ::
    "nat \<Rightarrow> nat \<Rightarrow> recovery_damage_reason \<Rightarrow> recovery_state \<Rightarrow> recovery_scan_error + recovery_state" where
  "resume_at pos next reason st =
     (case recovery_offset pos ''damage offset'' of
        Inl e \<Rightarrow> Inl e
      | Inr from_at \<Rightarrow>
          (case recovery_offset next ''resumption offset'' of
             Inl e \<Rightarrow> Inl e
           | Inr to_at \<Rightarrow>
               Inr (st\<lparr>rs_damages := rs_damages st @
                      [\<lparr>rd_from = from_at, rd_to = to_at, rd_reason = reason\<rparr>]\<rparr>)))"

text \<open>The loop returns the position it ended at: \<open>scan_end\<close>, or where it stopped early.\<close>

function recovery_loop ::
    "(u8 list \<Rightarrow> u32) \<Rightarrow> reader \<Rightarrow> nat \<Rightarrow> nat \<Rightarrow> recovery_scan_limits \<Rightarrow> nat \<Rightarrow> recovery_state
       \<Rightarrow> recovery_scan_error + (nat \<times> recovery_state)" where
  "recovery_loop crc rd physical_len scan_end limits pos st =
     (if pos < scan_end then
        (case streaming_frame_at crc rd scan_end pos (rl_journal limits) of
           Inl e \<Rightarrow> Inl (RecIo e)
         | Inr (SValid body_len rows) \<Rightarrow>
             if length (rs_parts st) \<ge> rl_max_parts limits then
               map_sum id (Pair pos) (stop_at_part_limit limits physical_len pos st)
             else
               (case accept_frame st pos body_len (unat rows) of
                  Inl e \<Rightarrow> Inl e
                | Inr st' \<Rightarrow>
                    recovery_loop crc rd physical_len scan_end limits (pos + FRAME_HEADER_LEN + body_len) st')
         | Inr (SDamaged reason implied_end can_resync) \<Rightarrow>
             (case streaming_resync crc rd pos scan_end implied_end limits (rs_work st) can_resync of
                Inl e \<Rightarrow> Inl (RecIo e)
              | Inr (Found next, w) \<Rightarrow>
                  (case resume_at pos next reason (st\<lparr>rs_work := w\<rparr>) of
                     Inl e \<Rightarrow> Inl e
                   | Inr st' \<Rightarrow> recovery_loop crc rd physical_len scan_end limits next st')
              | Inr (NoCandidate searched_to, w) \<Rightarrow>
                  map_sum id (Pair pos) (stop_after_search physical_len pos searched_to reason
                    (if scan_end < physical_len then ScanByteLimit (rl_max_scan_bytes limits) else rs_stop st)
                    (st\<lparr>rs_work := w\<rparr>))
              | Inr (CandidateLimit searched_to, w) \<Rightarrow>
                  map_sum id (Pair pos) (stop_after_search physical_len pos searched_to reason
                    (StopCandidateLimit (rl_max_candidates limits)) (st\<lparr>rs_work := w\<rparr>))
              | Inr (CandidateByteLimit searched_to, w) \<Rightarrow>
                  map_sum id (Pair pos) (stop_after_search physical_len pos searched_to reason
                    (StopCandidateByteLimit (rl_max_candidate_bytes limits)) (st\<lparr>rs_work := w\<rparr>))))
      else Inr (pos, st))"
  by pat_completeness auto
termination
  by (relation "measure (\<lambda>(crc, rd, physical_len, scan_end, limits, pos, st). scan_end - pos)")
     (auto simp: FRAME_HEADER_LEN_def dest!: streaming_resync_found
        intro!: diff_less_mono2 dest: streaming_frame_implied_end)

declare recovery_loop.simps [simp del]

text \<open>The bounds after the loop: the unscanned suffix, coalescing, and the totals.\<close>

definition recovery_totals ::
    "nat \<Rightarrow> nat \<Rightarrow> recovery_state \<Rightarrow> recovery_scan_error + recovery_scan_report" where
  "recovery_totals start_at physical_len st =
     (case checked_account ''frame header'' (u64_checked_mul (length (rs_parts st)) FRAME_HEADER_LEN) of
        Inl e \<Rightarrow> Inl e
      | Inr accepted_header_bytes \<Rightarrow>
     (case checked_account ''accepted frame byte'' (u64_checked_add (rs_part_bytes st) accepted_header_bytes) of
        Inl e \<Rightarrow> Inl e
      | Inr accepted_frame_bytes \<Rightarrow>
     (case checked_account ''discarded byte'' (u64_checked_sub (physical_len - start_at) accepted_frame_bytes) of
        Inl e \<Rightarrow> Inl e
      | Inr discarded_bytes \<Rightarrow>
     (case (if rs_parts st = [] then Inr start_at
            else checked_account ''accepted suffix offset''
                   (usize_checked_add (pr_offset (last (rs_parts st))) (pr_len (last (rs_parts st))))) of
        Inl e \<Rightarrow> Inl e
      | Inr accepted_end \<Rightarrow>
     (case checked_account ''discarded suffix byte'' (u64_checked_sub physical_len accepted_end) of
        Inl e \<Rightarrow> Inl e
      | Inr discarded_suffix_bytes \<Rightarrow>
          Inr \<lparr>rr_parts = rs_parts st, rr_damages = rs_damages st, rr_physical_len = physical_len,
               rr_recovered_part_bytes = rs_part_bytes st, rr_recovered_rows = rs_rows st,
               rr_discarded_bytes = discarded_bytes, rr_discarded_suffix_bytes = discarded_suffix_bytes,
               rr_candidate_headers_examined = wk_candidates (rs_work st),
               rr_candidate_validation_bytes = wk_bytes (rs_work st), rr_stop = rs_stop st\<rparr>)))))"

definition finish_scan :: "recovery_scan_limits \<Rightarrow> nat \<Rightarrow> nat \<Rightarrow> nat \<Rightarrow> recovery_state \<Rightarrow> recovery_state" where
  "finish_scan limits physical_len scan_end pos st =
     (let st1 =
        (if pos = scan_end \<and> scan_end < physical_len
         then st\<lparr>rs_damages := rs_damages st @
                   [\<lparr>rd_from = scan_end, rd_to = physical_len, rd_reason = WorkLimit\<rparr>],
                 rs_stop := ScanByteLimit (rl_max_scan_bytes limits)\<rparr>
         else st)
      in st1\<lparr>rs_damages := coalesce_recovery_damages (rs_damages st1)\<rparr>)"

definition recovery_scan_end :: "nat \<Rightarrow> recovery_scan_limits \<Rightarrow> nat \<Rightarrow> nat" where
  "recovery_scan_end start_at limits physical_len =
     min (min (start_at + rl_max_scan_bytes limits) (2 ^ 64 - 1)) physical_len"

text \<open>\<open>byte_len\<close> and \<open>byte_len_after\<close> are the two lengths the source reports.\<close>

definition scan_journal_streaming_recovery_from ::
    "(u8 list \<Rightarrow> u32) \<Rightarrow> reader \<Rightarrow> io_error + u64 \<Rightarrow> io_error + u64 \<Rightarrow> nat \<Rightarrow> recovery_scan_limits
       \<Rightarrow> recovery_scan_error + recovery_scan_report" where
  "scan_journal_streaming_recovery_from crc rd byte_len byte_len_after start_at limits =
     (case validate_recovery_limits limits of
        Inl e \<Rightarrow> Inl e
      | Inr _ \<Rightarrow>
     (case byte_len of
        Inl e \<Rightarrow> Inl (RecIo e)
      | Inr len \<Rightarrow>
          let physical_len = unat len in
          if start_at > physical_len then
            Inl (RecIo (IoInvalidInput ''start_at is beyond the journal source''))
          else
            let scan_end = recovery_scan_end start_at limits physical_len in
            (case recovery_loop crc rd physical_len scan_end limits start_at recovery_init of
               Inl e \<Rightarrow> Inl e
             | Inr (pos, st) \<Rightarrow>
                 (case recovery_totals start_at physical_len (finish_scan limits physical_len scan_end pos st) of
                    Inl e \<Rightarrow> Inl e
                  | Inr report \<Rightarrow>
                      (case byte_len_after of
                         Inl e \<Rightarrow> Inl (RecIo e)
                       | Inr after \<Rightarrow>
                           if unat after \<noteq> physical_len
                           then Inl (SourceLengthChanged physical_len (unat after))
                           else Inr report)))))"

section \<open>The search as a walk over candidate positions\<close>

text \<open>
  What the chunked search computes: the frame magics of the bytes \<open>[lo, hi)\<close>, visited in increasing
  order until one candidate check ends the search.
\<close>

definition magic_positions :: "u8 list \<Rightarrow> nat \<Rightarrow> nat \<Rightarrow> nat list" where
  "magic_positions data lo hi = filter (\<lambda>p. subslice p (p + 4) data = FRAME_MAGIC) [lo..<hi - 3]"

fun visit ::
    "(nat \<Rightarrow> recovery_work \<Rightarrow> io_error + (candidate_check \<times> recovery_work)) \<Rightarrow> nat \<Rightarrow> nat list \<Rightarrow> recovery_work
       \<Rightarrow> io_error + (streaming_resync option \<times> recovery_work)" where
  "visit check scan_end [] w = Inr (None, w)"
| "visit check scan_end (p # ps) w =
     (if p + FRAME_HEADER_LEN \<le> scan_end then
        (case check p w of
           Inl e \<Rightarrow> Inl e
         | Inr (c, w') \<Rightarrow>
             (case candidate_outcome c p of
                Some outcome \<Rightarrow> Inr (Some outcome, w')
              | None \<Rightarrow> visit check scan_end ps w'))
      else visit check scan_end ps w)"

fun conclude :: "nat \<Rightarrow> io_error + (streaming_resync option \<times> recovery_work)
    \<Rightarrow> io_error + (streaming_resync \<times> recovery_work)" where
  "conclude scan_end (Inl e) = Inl e"
| "conclude scan_end (Inr (None, w)) = Inr (NoCandidate scan_end, w)"
| "conclude scan_end (Inr (Some outcome, w)) = Inr (outcome, w)"

definition resync_positions :: "u8 list \<Rightarrow> nat \<Rightarrow> nat \<Rightarrow> nat option \<Rightarrow> nat list" where
  "resync_positions data pos scan_end implied_end =
     (case implied_end of None \<Rightarrow> [] | Some boundary \<Rightarrow> [boundary])
       @ magic_positions data (resync_start pos scan_end implied_end) scan_end"

lemma visit_append:
  "visit check scan_end (ps @ qs) w =
     (case visit check scan_end ps w of
        Inr (None, w') \<Rightarrow> visit check scan_end qs w'
      | r \<Rightarrow> r)"
  by (induction ps arbitrary: w) (auto split: sum.splits option.splits prod.splits)

lemma magic_positions_find:
  "magic_positions xs k (length xs) =
     (case find_magic (drop k xs) of
        None \<Rightarrow> []
      | Some i \<Rightarrow> (k + i) # magic_positions xs (k + i + 1) (length xs))"
proof (induction "length xs - k" arbitrary: k)
  case 0
  then show ?case by (simp add: magic_positions_def)
next
  case (Suc n)
  then have d: "drop k xs = xs ! k # drop (Suc k) xs" and k: "k < length xs"
    by (simp_all add: Cons_nth_drop_Suc)
  have IH: "magic_positions xs (Suc k) (length xs) =
      (case find_magic (drop (Suc k) xs) of
         None \<Rightarrow> [] | Some i \<Rightarrow> (Suc k + i) # magic_positions xs (Suc k + i + 1) (length xs))"
    using Suc by simp
  have hit: "subslice k (k + 4) xs = FRAME_MAGIC \<longleftrightarrow> take (length FRAME_MAGIC) (drop k xs) = FRAME_MAGIC"
    by (simp add: subslice_def)
  have room: "k < length xs - 3" if "take (length FRAME_MAGIC) (drop k xs) = FRAME_MAGIC"
    using arg_cong [OF that, of length] by (simp add: min_def split: if_splits)
  show ?case
  proof (cases "take (length FRAME_MAGIC) (drop k xs) = FRAME_MAGIC")
    case True
    then have "find_magic (drop k xs) = Some 0"
      by (simp add: d)
    moreover have "magic_positions xs k (length xs) = k # magic_positions xs (Suc k) (length xs)"
      using True hit room by (simp add: magic_positions_def upt_conv_Cons)
    ultimately show ?thesis by simp
  next
    case False
    then have "find_magic (drop k xs) = map_option Suc (find_magic (drop (Suc k) xs))"
      by (simp add: d)
    moreover have "magic_positions xs k (length xs) = magic_positions xs (Suc k) (length xs)"
      using False hit by (cases "k < length xs - 3") (simp_all add: magic_positions_def upt_conv_Cons)
    ultimately show ?thesis using IH by (simp split: option.splits)
  qed
qed

lemma search_chunk_visit:
  assumes "search_start \<le> absolute_start"
  shows "search_chunk crc rd scan_end limits search_start absolute_start chunk search_at w =
    visit (\<lambda>p. check_recovery_candidate crc rd p scan_end limits) scan_end
      (map ((+) absolute_start) (magic_positions chunk search_at (length chunk))) w"
proof (induction "length chunk - search_at" arbitrary: search_at w rule: less_induct)
  case less
  show ?case
  proof (cases "search_at + 4 \<le> length chunk")
    case False
    then show ?thesis by (simp add: search_chunk.simps magic_positions_def)
  next
    case True
    show ?thesis
    proof (cases "find_magic (drop search_at chunk)")
      case None
      with True show ?thesis
        by (subst search_chunk.simps, subst magic_positions_find) simp
    next
      case (Some i)
      let ?next = "Suc (search_at + i)"
      have IH: "search_chunk crc rd scan_end limits search_start absolute_start chunk ?next w' =
          visit (\<lambda>p. check_recovery_candidate crc rd p scan_end limits) scan_end
            (map ((+) absolute_start) (magic_positions chunk ?next (length chunk))) w'" for w'
        using True by (intro less.hyps) simp
      have "search_chunk crc rd scan_end limits search_start absolute_start chunk search_at w =
          visit (\<lambda>p. check_recovery_candidate crc rd p scan_end limits) scan_end
            (map ((+) absolute_start) ((search_at + i) # magic_positions chunk ?next (length chunk))) w"
        using True Some assms
        by (subst search_chunk.simps) (simp add: Let_def IH split: sum.splits option.splits prod.splits)
      with Some show ?thesis by (subst magic_positions_find) simp
    qed
  qed
qed

lemma magic_positions_chunk:
  assumes "a \<le> m"
  shows "map ((+) a) (magic_positions (subslice a m data) 0 (m - a)) = magic_positions data a m"
proof -
  have "map ((+) a) (magic_positions (subslice a m data) 0 (m - a)) =
      map ((+) a) (filter (\<lambda>p. subslice (a + p) (a + p + 4) data = FRAME_MAGIC) [0..<m - a - 3])"
    by (auto simp: magic_positions_def slice_slice add.assoc intro!: filter_cong arg_cong [of _ _ "map ((+) a)"])
  also have "\<dots> = filter (\<lambda>p. subslice p (p + 4) data = FRAME_MAGIC) (map ((+) a) [0..<m - a - 3])"
    by (simp add: filter_map comp_def)
  also have "map ((+) a) [0..<m - a - 3] = [a..<m - 3]"
  proof (cases "a \<le> m - 3")
    case True
    have "map ((+) a) [0..<k] = [a..<k + a]" for k
      by (rule nth_equalityI) auto
    moreover have "m - a - 3 + a = m - 3" using True by simp
    ultimately show ?thesis by simp
  next
    case False
    then show ?thesis by simp
  qed
  finally show ?thesis by (simp add: magic_positions_def)
qed

lemma magic_positions_split:
  assumes "m \<le> hi"
  shows "magic_positions data a hi = magic_positions data a m @ magic_positions data (max a (m - 3)) hi"
proof (cases "a \<le> m - 3")
  case True
  then have "[a..<hi - 3] = [a..<m - 3] @ [m - 3..<hi - 3]"
    using assms upt_add_eq_append [of a "m - 3" "(hi - 3) - (m - 3)"] by (simp del: diff_diff_left)
  with True show ?thesis by (simp add: magic_positions_def max_absorb2)
next
  case False
  then show ?thesis by (simp add: magic_positions_def)
qed

lemma drop_slice_end:
  assumes "a \<le> m" and "m \<le> length data" and "n = min (m - a) 3"
  shows "drop (length (subslice a m data) - n) (subslice a m data) = subslice (max a (m - 3)) m data"
proof -
  have "a + (m - a - n) = max a (m - 3)" and "m - a - (m - a - n) = m - max a (m - 3)"
    using assms by (auto simp: min_def max_def)
  then show ?thesis
    using assms by (simp add: subslice_def drop_take)
qed

context read_at
begin

lemma chunk_loop_visit:
  assumes "length data < usize_limit" and "scan_end \<le> length data"
    and "s \<le> chunk_at" and "chunk_at \<le> scan_end"
  shows "chunk_loop crc rd scan_end limits s chunk_at (subslice (max s (chunk_at - 3)) chunk_at data) w =
    conclude scan_end (visit (\<lambda>p. check_recovery_candidate crc rd p scan_end limits) scan_end
      (magic_positions data (max s (chunk_at - 3)) scan_end) w)"
  using assms
proof (induction "scan_end - chunk_at" arbitrary: chunk_at w rule: less_induct)
  case less
  let ?check = "\<lambda>p. check_recovery_candidate crc rd p scan_end limits"
  define a where "a = max s (chunk_at - 3)"
  show ?case
  proof (cases "chunk_at < scan_end")
    case False
    then have "magic_positions data a scan_end = []"
      using less.prems by (simp add: magic_positions_def a_def)
    with False show ?thesis
      by (simp add: chunk_loop.simps a_def)
  next
    case True
    define n where "n = min (scan_end - chunk_at) RECOVERY_SCAN_CHUNK_LEN"
    define m where "m = chunk_at + n"
    define chunk where "chunk = subslice a m data"
    have m: "chunk_at < m" "m \<le> scan_end" "a \<le> chunk_at"
      using True less.prems by (auto simp: m_def n_def a_def RECOVERY_SCAN_CHUNK_LEN_def)
    have rd: "rd (of_nat chunk_at) n = Inr (subslice chunk_at m data)"
      using less.prems m by (simp add: read_in_range m_def)
    have cat: "subslice a chunk_at data @ subslice chunk_at m data = chunk"
      using m by (simp add: append_slices chunk_def)
    have len: "length chunk = m - a" "chunk_at - length (subslice a chunk_at data) = a"
      using less.prems m by (simp_all add: chunk_def length_subslice)
    have search: "search_chunk crc rd scan_end limits s a chunk 0 w =
        visit ?check scan_end (magic_positions data a m) w"
    proof -
      have "a \<le> m" and "s \<le> a" using m by (simp_all add: a_def)
      then show ?thesis
        using magic_positions_chunk [of a m data] by (simp add: search_chunk_visit len(1) chunk_def [symmetric])
    qed
    have carry: "drop (length chunk - min (length chunk) 3) chunk = subslice (max s (m - 3)) m data"
    proof -
      have "max a (m - 3) = max s (m - 3)" using m by (auto simp: a_def)
      then show ?thesis
        using drop_slice_end [of a m data "min (length chunk) 3"] m less.prems len by (simp add: chunk_def)
    qed
    have IH: "chunk_loop crc rd scan_end limits s m (subslice (max s (m - 3)) m data) w' =
        conclude scan_end (visit ?check scan_end (magic_positions data (max s (m - 3)) scan_end) w')" for w'
      using m less.prems by (intro less.hyps) auto
    have split: "magic_positions data a scan_end = magic_positions data a m @ magic_positions data (max s (m - 3)) scan_end"
    proof -
      have "max a (m - 3) = max s (m - 3)" using m by (auto simp: a_def)
      then show ?thesis using magic_positions_split [OF m(2), of data a] by simp
    qed
    have "chunk_loop crc rd scan_end limits s chunk_at (subslice a chunk_at data) w =
        (case visit ?check scan_end (magic_positions data a m) w of
           Inl e \<Rightarrow> Inl e
         | Inr (Some outcome, w') \<Rightarrow> Inr (outcome, w')
         | Inr (None, w') \<Rightarrow> chunk_loop crc rd scan_end limits s m (subslice (max s (m - 3)) m data) w')"
      using True
      by (subst chunk_loop.simps)
         (simp add: n_def [symmetric] rd cat len search m_def [symmetric] Let_def [of "min _ _"]
            carry [unfolded len] del: diff_diff_left split: sum.split option.split prod.split)
    then show ?thesis
      unfolding a_def [symmetric] split visit_append
      by (simp add: IH split: sum.splits prod.splits option.splits)
  qed
qed

lemma chunk_loop_start:
  assumes "length data < usize_limit" and "scan_end \<le> length data" and "s \<le> scan_end"
  shows "chunk_loop crc rd scan_end limits s s [] w =
    conclude scan_end (visit (\<lambda>p. check_recovery_candidate crc rd p scan_end limits) scan_end
      (magic_positions data s scan_end) w)"
proof -
  have "max s (s - 3) = s" by simp
  then show ?thesis
    using chunk_loop_visit [OF assms(1,2) order_refl assms(3), of crc limits w]
    by (simp add: subslice_def)
qed

lemma streaming_resync_visit:
  assumes "length data < usize_limit" and "scan_end \<le> length data"
  shows "streaming_resync crc rd pos scan_end implied_end limits w can_resync =
    (if \<not> can_resync then Inr (NoCandidate scan_end, w)
     else conclude scan_end (visit (\<lambda>p. check_recovery_candidate crc rd p scan_end limits) scan_end
       (resync_positions data pos scan_end implied_end) w))"
proof -
  have le: "resync_start pos scan_end implied_end \<le> scan_end"
    by (simp add: resync_start_def split: option.splits)
  note loop = chunk_loop_start [OF assms le]
  have small: "usize_checked_add b FRAME_HEADER_LEN \<noteq> None" if "b + FRAME_HEADER_LEN \<le> scan_end" for b
    using assms that by (auto simp: usize_checked_add_def)
  show ?thesis
  proof (cases implied_end)
    case None
    then show ?thesis using loop by (simp add: streaming_resync_def Let_def resync_positions_def)
  next
    case (Some b)
    show ?thesis
    proof (cases "b + FRAME_HEADER_LEN \<le> scan_end")
      case True
      with small [OF True] Some loop show ?thesis
        by (auto simp: streaming_resync_def Let_def resync_positions_def usize_checked_add_def
            split: sum.splits prod.splits option.splits)
    next
      case False
      with Some loop show ?thesis
        by (auto simp: streaming_resync_def Let_def resync_positions_def usize_checked_add_def
            split: option.splits)
    qed
  qed
qed

end

section \<open>Work limits and in-range searches\<close>

definition work_ok :: "recovery_scan_limits \<Rightarrow> recovery_work \<Rightarrow> bool" where
  "work_ok limits w \<longleftrightarrow> wk_candidates w \<le> rl_max_candidates limits \<and> wk_bytes w \<le> rl_max_candidate_bytes limits"

text \<open>Where a search that ended early ended: past the damage, inside the scanned bytes.\<close>

definition stops_at :: "streaming_resync \<Rightarrow> nat \<Rightarrow> bool" where
  "stops_at outcome p \<longleftrightarrow> outcome = Found p \<or> outcome = CandidateLimit p \<or> outcome = CandidateByteLimit p"

lemma candidate_outcome_at: "candidate_outcome c p = Some outcome \<Longrightarrow> stops_at outcome p"
  by (auto simp: candidate_outcome_def stops_at_def split: candidate_check.splits)

lemma visit_ok:
  assumes "\<And>p w. p \<in> set ps \<Longrightarrow> p + FRAME_HEADER_LEN \<le> scan_end \<Longrightarrow> work_ok limits w
      \<Longrightarrow> \<exists>c w'. check p w = Inr (c, w') \<and> work_ok limits w'"
    and "work_ok limits w"
  shows "\<exists>res w'. visit check scan_end ps w = Inr (res, w') \<and> work_ok limits w'
    \<and> (\<forall>outcome. res = Some outcome \<longrightarrow>
         (\<exists>p \<in> set ps. p + FRAME_HEADER_LEN \<le> scan_end \<and> stops_at outcome p))"
  using assms
proof (induction ps arbitrary: w)
  case Nil
  then show ?case by simp
next
  case (Cons p ps)
  show ?case
  proof (cases "p + FRAME_HEADER_LEN \<le> scan_end")
    case False
    have "\<exists>res w'. visit check scan_end ps w = Inr (res, w') \<and> work_ok limits w'
      \<and> (\<forall>outcome. res = Some outcome \<longrightarrow>
           (\<exists>p \<in> set ps. p + FRAME_HEADER_LEN \<le> scan_end \<and> stops_at outcome p))"
      using Cons.prems by (intro Cons.IH) auto
    with False show ?thesis by auto
  next
    case True
    obtain c w1 where c: "check p w = Inr (c, w1)" and w1: "work_ok limits w1"
      using Cons.prems True by fastforce
    show ?thesis
    proof (cases "candidate_outcome c p")
      case None
      have "\<exists>res w'. visit check scan_end ps w1 = Inr (res, w') \<and> work_ok limits w'
        \<and> (\<forall>outcome. res = Some outcome \<longrightarrow>
             (\<exists>p \<in> set ps. p + FRAME_HEADER_LEN \<le> scan_end \<and> stops_at outcome p))"
        using Cons.prems w1 by (intro Cons.IH) auto
      with True c None show ?thesis by auto
    next
      case (Some outcome)
      with True c w1 candidate_outcome_at [OF Some] show ?thesis by auto
    qed
  qed
qed

lemma magic_positions_bounds: "p \<in> set (magic_positions data lo hi) \<Longrightarrow> lo \<le> p \<and> p < hi"
  by (auto simp: magic_positions_def)

context read_at
begin

lemma check_recovery_candidate_ok:
  assumes "length data < usize_limit" and "scan_end \<le> length data"
    and "at + FRAME_HEADER_LEN \<le> scan_end" and "work_ok limits w"
  shows "\<exists>c w'. check_recovery_candidate crc rd at scan_end limits w = Inr (c, w') \<and> work_ok limits w'"
proof -
  have room: "at + 16 \<le> scan_end" "usize_checked_add at 16 = Some (at + 16)"
    using assms by (auto simp: usize_checked_add_def FRAME_HEADER_LEN_def)
  have hdr: "rd (of_nat at) 16 = Inr (subslice at (at + 16) data)"
    using assms room by (intro read_in_range) auto
  have body: "rd (of_nat (at + 16)) n = Inr (subslice (at + 16) (at + 16 + n) data)"
    if "\<not> scan_end - (at + 16) < n" for n
    using assms room that by (intro read_in_range) auto
  show ?thesis
    using assms(4) room hdr body
    by (auto simp: check_recovery_candidate_def FRAME_HEADER_LEN_def Let_def work_ok_def u64_checked_add_def
        simp del: of_nat_add split: sum.split)
qed

lemma streaming_resync_ok:
  assumes "length data < usize_limit" and "scan_end \<le> length data" and "pos < scan_end"
    and "\<And>b. implied_end = Some b \<Longrightarrow> pos < b" and "work_ok limits w"
  shows "\<exists>outcome w'. streaming_resync crc rd pos scan_end implied_end limits w can = Inr (outcome, w')
    \<and> work_ok limits w'
    \<and> (outcome = NoCandidate scan_end \<or> (\<exists>p. pos < p \<and> p < scan_end \<and> stops_at outcome p))"
proof (cases can)
  case False
  then show ?thesis using assms(5) by (simp add: streaming_resync_visit [OF assms(1,2)])
next
  case True
  have s: "pos < resync_start pos scan_end implied_end"
    using assms by (intro resync_start_gt)
  obtain res w' where v: "visit (\<lambda>p. check_recovery_candidate crc rd p scan_end limits) scan_end
      (resync_positions data pos scan_end implied_end) w = Inr (res, w')" and w': "work_ok limits w'"
    and at: "\<forall>outcome. res = Some outcome \<longrightarrow>
      (\<exists>p \<in> set (resync_positions data pos scan_end implied_end). p + FRAME_HEADER_LEN \<le> scan_end \<and> stops_at outcome p)"
    using visit_ok [of "resync_positions data pos scan_end implied_end" scan_end limits
        "\<lambda>p. check_recovery_candidate crc rd p scan_end limits" w]
      check_recovery_candidate_ok [OF assms(1,2)] assms(5) by blast
  have late: "pos < p" if "p \<in> set (resync_positions data pos scan_end implied_end)" for p
    using that s assms(4) magic_positions_bounds [of p]
    by (fastforce simp: resync_positions_def split: option.splits)
  show ?thesis
  proof (cases res)
    case None
    with True v w' show ?thesis by (simp add: streaming_resync_visit [OF assms(1,2)])
  next
    case (Some outcome)
    with at late obtain p where "pos < p" "p < scan_end" "stops_at outcome p"
      by (fastforce simp: FRAME_HEADER_LEN_def)
    with True v w' Some show ?thesis by (auto simp: streaming_resync_visit [OF assms(1,2)])
  qed
qed

end

section \<open>Frames accepted from a scanned prefix\<close>

lemma streaming_frame_cong:
  assumes "\<And>p n. p + n \<le> total_len \<Longrightarrow> rd (of_nat p) n = rd' (of_nat p) n" and "pos < total_len"
  shows "streaming_frame_at crc rd total_len pos limits = streaming_frame_at crc rd' total_len pos limits"
proof -
  have hdr: "rd (of_nat pos) 16 = rd' (of_nat pos) 16" if "16 \<le> total_len - pos"
    using assms that by (intro assms(1)) simp
  have body: "rd (of_nat (pos + 16)) n = rd' (of_nat (pos + 16)) n"
    if "\<not> total_len - pos - 16 < n" and "16 \<le> total_len - pos" for n
    using assms that by (intro assms(1)) simp
  show ?thesis
    unfolding streaming_frame_at_def Let_def FRAME_HEADER_LEN_def
    using hdr body by (auto simp: not_less simp del: of_nat_add split: sum.splits)
qed

lemma subslice_take: "b \<le> n \<Longrightarrow> subslice a b (take n xs) = subslice a b xs"
  by (simp add: subslice_def drop_take min_def)

lemma ref_ok_take: "ref_ok crc limits (take n bytes) ref \<Longrightarrow> ref_ok crc limits bytes ref"
  by (auto simp: ref_ok_def subslice_take)

lemma ref_ok_take_end: "ref_ok crc limits (take n bytes) ref \<Longrightarrow> pr_offset ref + pr_len ref \<le> n"
  by (auto simp: ref_ok_def)

lemma sum_rows_bound:
  "\<forall>e \<in> set es. entry_wf e \<Longrightarrow> sum_rows es acc = Some x \<Longrightarrow> unat x \<le> unat acc + 65536 * length es"
proof (induction es arbitrary: acc)
  case Nil
  then show ?case by simp
next
  case (Cons e es)
  have r: "unat (e_rows e) \<le> 65536"
    using Cons.prems(1) by (auto simp: entry_wf_def MAX_PHYSICAL_SECTION_ROWS_def word_le_nat_alt)
  obtain y where y: "checked_add acc (ucast (e_rows e)) = Some y" and rest: "sum_rows es y = Some x"
    using Cons.prems(2) by (auto split: option.splits)
  have "unat y = unat acc + unat (e_rows e)"
    using unat_checked_add [OF y] by (simp add: unat_u64_of_u32)
  moreover have "unat x \<le> unat y + 65536 * length es"
    using Cons.IH [OF _ rest] Cons.prems(1) by simp
  ultimately show ?case using r by simp
qed

lemma valid_part_rows_bound:
  assumes "validate_part crc bs = Inr c" and "length bs < usize_limit" and "sum_rows (c_entries c) 0 = Some x"
  shows "unat x \<le> 2048 * length bs"
proof -
  obtain area where "bs = part_bytes crc c area" and "part_layout c area"
    using assms by (auto simp: validate_part_Inr elim: decode_and_bound_Inr)
  then have "\<forall>e \<in> set (c_entries c). entry_wf e" and "32 * length (c_entries c) \<le> length bs"
    by (auto simp: part_layout_def canonical_layout_def list_all_iff length_part_bytes encoded_len_def layout_lens)
  with sum_rows_bound [OF _ assms(3)] show ?thesis by fastforce
qed

lemma streaming_frame_SValid:
  "streaming_frame_at crc rd total_len pos limits = Inr (SValid n rows) \<Longrightarrow>
     n \<le> total_len - pos - 16 \<and> 16 \<le> total_len - pos
     \<and> (\<exists>buf c. rd (of_nat (pos + 16)) n = Inr buf \<and> validate_part crc buf = Inr c
          \<and> sum_rows (c_entries c) 0 = Some rows)"
  unfolding streaming_frame_at_def Let_def FRAME_HEADER_LEN_def
  by (auto simp: not_less simp del: of_nat_add split: if_splits sum.splits option.splits)

lemma streaming_frame_reason:
  "streaming_frame_at crc rd total_len pos limits = Inr (SDamaged reason e can) \<Longrightarrow> reason \<noteq> WorkLimit"
  unfolding streaming_frame_at_def Let_def
  by (auto split: if_splits sum.splits option.splits)

context read_at
begin

lemma recovery_frame:
  assumes "length data < usize_limit" and "scan_end \<le> length data" and "pos < scan_end"
  obtains (valid) n rows where "streaming_frame_at crc rd scan_end pos limits = Inr (SValid n rows)"
      and "ref_ok crc limits data \<lparr>pr_offset = pos + FRAME_HEADER_LEN, pr_len = n\<rparr>"
      and "pos + FRAME_HEADER_LEN + n \<le> scan_end" and "unat rows \<le> 2048 * n"
  | (damaged) reason e can where "streaming_frame_at crc rd scan_end pos limits = Inr (SDamaged reason e can)"
      and "reason \<noteq> WorkLimit" and "\<And>b. e = Some b \<Longrightarrow> pos < b"
proof -
  let ?bytes = "take scan_end data"
  have len: "length ?bytes = scan_end" using assms by simp
  have eq: "streaming_frame_at crc rd scan_end pos limits = streaming_frame_at crc (slice_read ?bytes) scan_end pos limits"
    using assms
    by (intro streaming_frame_cong) (auto simp: read_in_range slice_reader.read_in_range subslice_take)
  have "length ?bytes < usize_limit" and "pos < length ?bytes"
    using assms by simp_all
  from streaming_frame_slice [OF this, of crc limits]
  obtain sf where sf: "streaming_frame_at crc rd scan_end pos limits = Inr sf"
    and m: "stream_matches sf (frame_at crc ?bytes pos limits)"
    unfolding len eq by blast
  show thesis
  proof (cases sf)
    case (SValid n rows)
    with m have v: "frame_at crc ?bytes pos limits = Valid n" by simp
    have ref: "ref_ok crc limits ?bytes \<lparr>pr_offset = pos + FRAME_HEADER_LEN, pr_len = n\<rparr>"
      using assms by (intro ref_ok_Valid [OF v]) simp
    have le: "pos + FRAME_HEADER_LEN + n \<le> scan_end"
      using ref_ok_take_end [OF ref] by simp
    obtain buf c where "rd (of_nat (pos + 16)) n = Inr buf" and c: "validate_part crc buf = Inr c"
      "sum_rows (c_entries c) 0 = Some rows"
      using streaming_frame_SValid [of crc rd scan_end pos limits n rows] sf SValid by auto
    then have "buf = subslice (pos + 16) (pos + 16 + n) data"
      using assms le by (simp add: read_in_range FRAME_HEADER_LEN_def del: of_nat_add)
    then have "length buf = n"
      using assms le by (simp add: length_subslice FRAME_HEADER_LEN_def)
    moreover have "length buf < usize_limit"
      using \<open>length buf = n\<close> assms le by linarith
    ultimately have "unat rows \<le> 2048 * n"
      using valid_part_rows_bound [OF c(1) _ c(2)] by simp
    with sf SValid ref_ok_take [OF ref] le show thesis by (intro valid) auto
  next
    case (SDamaged reason e can)
    with sf show thesis
      using streaming_frame_reason streaming_frame_implied_end by (intro damaged) blast+
  qed
qed

end

section \<open>The invariant of the scan\<close>

definition in_parts :: "nat \<Rightarrow> part_ref list \<Rightarrow> bool" where
  "in_parts p refs \<longleftrightarrow> (\<exists>ref \<in> set refs. pr_offset ref - FRAME_HEADER_LEN \<le> p \<and> p < pr_offset ref + pr_len ref)"

definition in_damages :: "nat \<Rightarrow> recovery_damage_region list \<Rightarrow> bool" where
  "in_damages p ds \<longleftrightarrow> (\<exists>d \<in> set ds. rd_from d \<le> p \<and> p < rd_to d)"

text \<open>Accepted frames and damage regions together cover \<open>[start, pos)\<close>, without overlap.\<close>

definition tiles :: "nat \<Rightarrow> nat \<Rightarrow> part_ref list \<Rightarrow> recovery_damage_region list \<Rightarrow> bool" where
  "tiles start pos refs ds \<longleftrightarrow>
     (\<forall>p. start \<le> p \<and> p < pos \<longleftrightarrow> in_parts p refs \<or> in_damages p ds)
     \<and> (\<forall>p. \<not> (in_parts p refs \<and> in_damages p ds))"

definition damage_bytes :: "recovery_damage_region list \<Rightarrow> nat" where
  "damage_bytes ds = sum_list (map (\<lambda>d. rd_to d - rd_from d) ds)"

definition damages_ordered :: "recovery_damage_region list \<Rightarrow> bool" where
  "damages_ordered ds \<longleftrightarrow> (\<forall>d \<in> set ds. rd_from d < rd_to d) \<and> sorted_wrt (\<lambda>a b. rd_to a \<le> rd_from b) ds"

definition refs_within :: "(u8 list \<Rightarrow> u32) \<Rightarrow> journal_limits \<Rightarrow> u8 list \<Rightarrow> nat \<Rightarrow> nat \<Rightarrow> part_ref list \<Rightarrow> bool" where
  "refs_within crc limits data start pos refs \<longleftrightarrow> refs_ordered refs
     \<and> (\<forall>ref \<in> set refs. ref_ok crc limits data ref \<and> start + FRAME_HEADER_LEN \<le> pr_offset ref
          \<and> pr_offset ref + pr_len ref \<le> pos)"

definition recovery_inv ::
    "(u8 list \<Rightarrow> u32) \<Rightarrow> recovery_scan_limits \<Rightarrow> u8 list \<Rightarrow> nat \<Rightarrow> nat \<Rightarrow> recovery_state \<Rightarrow> bool" where
  "recovery_inv crc limits data start pos st \<longleftrightarrow>
     refs_within crc (rl_journal limits) data start pos (rs_parts st)
     \<and> tiles start pos (rs_parts st) (rs_damages st)
     \<and> damages_ordered (rs_damages st) \<and> (\<forall>d \<in> set (rs_damages st). rd_to d \<le> pos)
     \<and> rs_part_bytes st = sum_list (map pr_len (rs_parts st))
     \<and> rs_part_bytes st + FRAME_HEADER_LEN * length (rs_parts st) + damage_bytes (rs_damages st) + start = pos
     \<and> rs_rows st \<le> 2048 * rs_part_bytes st
     \<and> work_ok limits (rs_work st) \<and> length (rs_parts st) \<le> rl_max_parts limits"

definition has_work_limit :: "recovery_state \<Rightarrow> bool" where
  "has_work_limit st \<longleftrightarrow> WorkLimit \<in> rd_reason ` set (rs_damages st)"

lemma in_parts_append: "in_parts p (refs @ [ref]) \<longleftrightarrow>
    in_parts p refs \<or> (pr_offset ref - FRAME_HEADER_LEN \<le> p \<and> p < pr_offset ref + pr_len ref)"
  by (auto simp: in_parts_def)

lemma in_damages_append: "in_damages p (ds @ [d]) \<longleftrightarrow> in_damages p ds \<or> (rd_from d \<le> p \<and> p < rd_to d)"
  by (auto simp: in_damages_def)

lemma tiles_part:
  assumes "tiles start pos refs ds" and "start \<le> pos"
  shows "tiles start (pos + FRAME_HEADER_LEN + n)
    (refs @ [\<lparr>pr_offset = pos + FRAME_HEADER_LEN, pr_len = n\<rparr>]) ds"
proof -
  have "(start \<le> p \<and> p < pos + FRAME_HEADER_LEN + n \<longleftrightarrow>
      in_parts p (refs @ [\<lparr>pr_offset = pos + FRAME_HEADER_LEN, pr_len = n\<rparr>]) \<or> in_damages p ds)
    \<and> \<not> (in_parts p (refs @ [\<lparr>pr_offset = pos + FRAME_HEADER_LEN, pr_len = n\<rparr>]) \<and> in_damages p ds)" for p
  proof -
    have "start \<le> p \<and> p < pos \<longleftrightarrow> in_parts p refs \<or> in_damages p ds" "\<not> (in_parts p refs \<and> in_damages p ds)"
      using assms(1) by (simp_all add: tiles_def)
    then show ?thesis
      using assms(2) by (cases "p < pos") (auto simp: in_parts_append)
  qed
  then show ?thesis by (simp add: tiles_def)
qed

lemma tiles_damage:
  assumes "tiles start pos refs ds" and "start \<le> pos" and "pos \<le> to_at"
  shows "tiles start to_at refs (ds @ [\<lparr>rd_from = pos, rd_to = to_at, rd_reason = r\<rparr>])"
proof -
  have "(start \<le> p \<and> p < to_at \<longleftrightarrow>
      in_parts p refs \<or> in_damages p (ds @ [\<lparr>rd_from = pos, rd_to = to_at, rd_reason = r\<rparr>]))
    \<and> \<not> (in_parts p refs \<and> in_damages p (ds @ [\<lparr>rd_from = pos, rd_to = to_at, rd_reason = r\<rparr>]))" for p
  proof -
    have "start \<le> p \<and> p < pos \<longleftrightarrow> in_parts p refs \<or> in_damages p ds" "\<not> (in_parts p refs \<and> in_damages p ds)"
      using assms(1) by (simp_all add: tiles_def)
    then show ?thesis
      using assms(2,3) by (cases "p < pos") (auto simp: in_damages_append)
  qed
  then show ?thesis by (simp add: tiles_def)
qed

lemma refs_within_mono:
  "refs_within crc limits data start pos refs \<Longrightarrow> pos \<le> pos' \<Longrightarrow> refs_within crc limits data start pos' refs"
  by (auto simp: refs_within_def)

lemma recovery_inv_start: "recovery_inv crc limits data start pos st \<Longrightarrow> start \<le> pos"
  by (auto simp: recovery_inv_def)

lemma recovery_inv_init: "recovery_inv crc limits data start start recovery_init"
  by (simp add: recovery_inv_def recovery_init_def refs_within_def refs_ordered_def tiles_def in_parts_def
      in_damages_def damages_ordered_def damage_bytes_def work_ok_def)

lemma recovery_inv_work:
  "recovery_inv crc limits data start pos st \<Longrightarrow> work_ok limits w \<Longrightarrow>
     recovery_inv crc limits data start pos (st\<lparr>rs_work := w\<rparr>)"
  by (simp add: recovery_inv_def)

lemma recovery_inv_stop [simp]:
  "recovery_inv crc limits data start pos (st\<lparr>rs_stop := s\<rparr>) = recovery_inv crc limits data start pos st"
  by (simp add: recovery_inv_def)

lemma recovery_inv_damage:
  assumes "recovery_inv crc limits data start pos st" and "pos < to_at"
  shows "recovery_inv crc limits data start to_at
    (st\<lparr>rs_damages := rs_damages st @ [\<lparr>rd_from = pos, rd_to = to_at, rd_reason = r\<rparr>]\<rparr>)"
  using assms tiles_damage [of start pos "rs_parts st" "rs_damages st" to_at r] recovery_inv_start [OF assms(1)]
  by (fastforce simp: recovery_inv_def damages_ordered_def sorted_wrt_append damage_bytes_def
      elim: refs_within_mono)

lemma recovery_inv_accept:
  assumes inv: "recovery_inv crc limits data start pos st"
    and ref: "ref_ok crc (rl_journal limits) data \<lparr>pr_offset = pos + FRAME_HEADER_LEN, pr_len = n\<rparr>"
    and few: "length (rs_parts st) < rl_max_parts limits" and rows: "rows \<le> 2048 * n"
    and small: "pos + FRAME_HEADER_LEN + n \<le> start + 2 ^ 32"
  shows "\<exists>st'. accept_frame st pos n rows = Inr st'
    \<and> recovery_inv crc limits data start (pos + FRAME_HEADER_LEN + n) st'
    \<and> rs_damages st' = rs_damages st \<and> rs_stop st' = rs_stop st"
proof -
  have pb: "rs_part_bytes st + start \<le> pos" and rb: "rs_rows st \<le> 2048 * rs_part_bytes st"
    using inv by (auto simp: recovery_inv_def)
  have sum: "rs_part_bytes st + n \<le> 2 ^ 32"
    using pb small by linarith
  have "rs_part_bytes st + n < 2 ^ 64" and "rs_rows st + rows < 2 ^ 64"
    using sum rb rows by simp_all
  then have acc: "accept_frame st pos n rows = Inr (st\<lparr>
      rs_parts := rs_parts st @ [\<lparr>pr_offset = pos + FRAME_HEADER_LEN, pr_len = n\<rparr>],
      rs_part_bytes := rs_part_bytes st + n, rs_rows := rs_rows st + rows\<rparr>)" (is "_ = Inr ?st")
    by (simp add: accept_frame_def checked_account_def u64_checked_add_def)
  have "refs_within crc (rl_journal limits) data start (pos + FRAME_HEADER_LEN + n) (rs_parts ?st)"
    using inv ref recovery_inv_start [OF inv]
    by (fastforce simp: recovery_inv_def refs_within_def refs_ordered_def sorted_wrt_append)
  moreover have "tiles start (pos + FRAME_HEADER_LEN + n) (rs_parts ?st) (rs_damages ?st)"
    using inv tiles_part [of start pos "rs_parts st" "rs_damages st" n] recovery_inv_start [OF inv]
    by (simp add: recovery_inv_def)
  moreover have "\<forall>d \<in> set (rs_damages ?st). rd_to d \<le> pos + FRAME_HEADER_LEN + n"
    using inv by (auto simp: recovery_inv_def)
  ultimately have "recovery_inv crc limits data start (pos + FRAME_HEADER_LEN + n) ?st"
    using inv few rb rows by (simp add: recovery_inv_def)
  with acc show ?thesis by simp
qed

lemma stop_after_search_inv:
  assumes inv: "recovery_inv crc limits data start pos st" and "pos < to_at" and "to_at \<le> physical_len"
    and "physical_len < 2 ^ 64" and "\<not> has_work_limit st" and "r \<noteq> WorkLimit"
  shows "\<exists>st'. stop_after_search physical_len pos to_at r stop st = Inr st'
    \<and> recovery_inv crc limits data start physical_len st' \<and> rs_stop st' = stop
    \<and> (has_work_limit st' \<longleftrightarrow> to_at < physical_len)"
proof -
  have offs: "recovery_offset pos q = Inr pos" "recovery_offset to_at q = Inr to_at" for q
    using assms by (simp_all add: recovery_offset_def checked_account_def)
  let ?ds = "rs_damages st @ [\<lparr>rd_from = pos, rd_to = to_at, rd_reason = r\<rparr>]"
  have one: "recovery_inv crc limits data start to_at (st\<lparr>rs_damages := ?ds\<rparr>)"
    by (rule recovery_inv_damage [OF inv assms(2)])
  show ?thesis
  proof (cases "to_at < physical_len")
    case False
    then show ?thesis
      using one assms offs
      by (auto simp: stop_after_search_def push_stopped_damage_def Let_def has_work_limit_def min_def)
  next
    case True
    have "recovery_inv crc limits data start physical_len
        (st\<lparr>rs_damages := ?ds @ [\<lparr>rd_from = to_at, rd_to = physical_len, rd_reason = WorkLimit\<rparr>]\<rparr>)"
      using recovery_inv_damage [OF one True, of WorkLimit] by simp
    then have "recovery_inv crc limits data start physical_len
        (st\<lparr>rs_damages := ?ds @ [\<lparr>rd_from = to_at, rd_to = physical_len, rd_reason = WorkLimit\<rparr>], rs_stop := stop\<rparr>)"
      by simp
    with True show ?thesis
      using assms offs
      by (simp add: stop_after_search_def push_stopped_damage_def Let_def has_work_limit_def min_def)
  qed
qed

lemma resume_at_inv:
  assumes inv: "recovery_inv crc limits data start pos st" and "pos < to_at" and "to_at < 2 ^ 64"
    and "\<not> has_work_limit st" and "r \<noteq> WorkLimit"
  shows "\<exists>st'. resume_at pos to_at r st = Inr st' \<and> recovery_inv crc limits data start to_at st'
    \<and> rs_stop st' = rs_stop st \<and> \<not> has_work_limit st'"
proof -
  have offs: "recovery_offset pos q = Inr pos" "recovery_offset to_at q = Inr to_at" for q
    using assms by (simp_all add: recovery_offset_def checked_account_def)
  show ?thesis
    using recovery_inv_damage [OF inv assms(2), of r] assms
    by (simp add: resume_at_def offs has_work_limit_def)
qed

lemma stop_at_part_limit_inv:
  assumes inv: "recovery_inv crc limits data start pos st" and "pos < physical_len" and "physical_len < 2 ^ 64"
  shows "\<exists>st'. stop_at_part_limit limits physical_len pos st = Inr st'
    \<and> recovery_inv crc limits data start physical_len st'
    \<and> rs_stop st' = PartLimit (rl_max_parts limits) \<and> has_work_limit st'"
proof -
  have offs: "recovery_offset pos q = Inr pos" for q
    using assms by (simp add: recovery_offset_def checked_account_def)
  have "recovery_inv crc limits data start physical_len
      (st\<lparr>rs_stop := PartLimit (rl_max_parts limits),
         rs_damages := rs_damages st @ [\<lparr>rd_from = pos, rd_to = physical_len, rd_reason = WorkLimit\<rparr>]\<rparr>)"
    using recovery_inv_damage [OF inv assms(2), of WorkLimit] by (simp add: recovery_inv_def)
  then show ?thesis
    by (simp add: stop_at_part_limit_def offs has_work_limit_def)
qed

section \<open>The loop\<close>

lemma recovery_loop_end:
  "scan_end \<le> pos \<Longrightarrow> recovery_loop crc rd physical_len scan_end limits pos st = Inr (pos, st)"
  by (subst recovery_loop.simps) simp

text \<open>How the loop leaves: at the end of the scanned bytes, or stopped with the rest marked unexamined.\<close>

definition recovery_outcome ::
    "(u8 list \<Rightarrow> u32) \<Rightarrow> recovery_scan_limits \<Rightarrow> u8 list \<Rightarrow> nat \<Rightarrow> nat \<Rightarrow> nat \<Rightarrow> nat \<Rightarrow> recovery_state \<Rightarrow> bool" where
  "recovery_outcome crc limits data start scan_end physical_len pos st \<longleftrightarrow>
     (pos = scan_end \<and> recovery_inv crc limits data start scan_end st
        \<and> rs_stop st = EndOfSource \<and> \<not> has_work_limit st)
     \<or> (pos < scan_end \<and> recovery_inv crc limits data start physical_len st
        \<and> (rs_stop st = EndOfSource \<longleftrightarrow> \<not> has_work_limit st))"

lemma has_work_limit_update [simp]:
  "has_work_limit (st\<lparr>rs_work := w\<rparr>) = has_work_limit st"
  "has_work_limit (st\<lparr>rs_stop := s\<rparr>) = has_work_limit st"
  by (simp_all add: has_work_limit_def)

context read_at
begin

lemma recovery_loop_outcome:
  assumes "length data < usize_limit" and "scan_end \<le> length data" and "scan_end \<le> start + 2 ^ 32"
    and "recovery_inv crc limits data start pos st" and "pos \<le> scan_end"
    and "rs_stop st = EndOfSource" and "\<not> has_work_limit st"
  shows "\<exists>pos' st'. recovery_loop crc rd (length data) scan_end limits pos st = Inr (pos', st')
    \<and> recovery_outcome crc limits data start scan_end (length data) pos' st'"
  using assms(4-)
proof (induction "scan_end - pos" arbitrary: pos st rule: less_induct)
  case less
  let ?out = "recovery_outcome crc limits data start scan_end (length data)"
  show ?case
  proof (cases "pos < scan_end")
    case False
    with less.prems show ?thesis by (simp add: recovery_loop_end recovery_outcome_def)
  next
    case True
    have inv: "recovery_inv crc limits data start pos st" by (rule less.prems(1))
    have pl: "pos < length data" using True assms(2) by simp
    from assms(1,2) True show ?thesis
    proof (cases rule: recovery_frame [where crc = crc and limits = "rl_journal limits"])
      case (valid n rows)
      show ?thesis
      proof (cases "rl_max_parts limits \<le> length (rs_parts st)")
        case stop: True
        obtain st' where "stop_at_part_limit limits (length data) pos st = Inr st'"
          "recovery_inv crc limits data start (length data) st'"
          "rs_stop st' = PartLimit (rl_max_parts limits)" "has_work_limit st'"
          using stop_at_part_limit_inv [OF inv pl assms(1)] by blast
        with True stop valid(1) show ?thesis
          by (subst recovery_loop.simps) (simp add: recovery_outcome_def)
      next
        case few: False
        have le: "pos + FRAME_HEADER_LEN + n \<le> start + 2 ^ 32"
          using valid(3) assms(3) by simp
        obtain st' where st': "accept_frame st pos n (unat rows) = Inr st'"
          "recovery_inv crc limits data start (pos + FRAME_HEADER_LEN + n) st'"
          "rs_damages st' = rs_damages st" "rs_stop st' = rs_stop st"
          using recovery_inv_accept [OF inv valid(2) _ valid(4) le] few by auto
        have "\<exists>pos' st''. recovery_loop crc rd (length data) scan_end limits (pos + FRAME_HEADER_LEN + n) st'
            = Inr (pos', st'') \<and> ?out pos' st''"
          using st' less.prems True valid(3)
          by (intro less.hyps) (auto simp: FRAME_HEADER_LEN_def has_work_limit_def)
        with True few valid(1) st'(1) show ?thesis
          by (subst recovery_loop.simps) simp
      qed
    next
      case (damaged reason e can)
      have w: "work_ok limits (rs_work st)" using inv by (simp add: recovery_inv_def)
      obtain outcome w' where r: "streaming_resync crc rd pos scan_end e limits (rs_work st) can = Inr (outcome, w')"
        and w': "work_ok limits w'"
        and o': "outcome = NoCandidate scan_end \<or> (\<exists>p. pos < p \<and> p < scan_end \<and> stops_at outcome p)"
        using streaming_resync_ok [OF assms(1,2) True damaged(3) w] by blast
      let ?st = "st\<lparr>rs_work := w'\<rparr>"
      have inv': "recovery_inv crc limits data start pos ?st" "\<not> has_work_limit ?st"
        using recovery_inv_work [OF inv w'] less.prems by simp_all
      have stopped: "\<exists>st'. stop_after_search (length data) pos p reason stop ?st = Inr st'
          \<and> recovery_inv crc limits data start (length data) st' \<and> rs_stop st' = stop
          \<and> (has_work_limit st' \<longleftrightarrow> p < length data)" if "pos < p" "p \<le> length data" for p stop
        using stop_after_search_inv [OF inv'(1) that assms(1) inv'(2) damaged(2)] .
      note simps = recovery_loop.simps [of crc rd "length data" scan_end limits pos st]
      from o' show ?thesis
      proof (elim disjE exE conjE)
        assume no: "outcome = NoCandidate scan_end"
        let ?stop = "if scan_end < length data then ScanByteLimit (rl_max_scan_bytes limits) else rs_stop st"
        obtain st' where "stop_after_search (length data) pos scan_end reason ?stop ?st = Inr st'"
          "recovery_inv crc limits data start (length data) st'" "rs_stop st' = ?stop"
          "has_work_limit st' \<longleftrightarrow> scan_end < length data"
          using stopped [OF True assms(2)] by blast
        with True damaged(1) r no less.prems show ?thesis
          by (simp add: simps recovery_outcome_def)
      next
        fix p assume p: "pos < p" "p < scan_end" and at: "stops_at outcome p"
        show ?thesis
        proof (cases outcome)
          case (Found q)
          with at have q: "q = p" by (simp add: stops_at_def)
          have "p < 2 ^ 64" using p assms(1,2) by linarith
          obtain st' where st': "resume_at pos p reason ?st = Inr st'" "recovery_inv crc limits data start p st'"
            "rs_stop st' = rs_stop ?st" "\<not> has_work_limit st'"
            using resume_at_inv [OF inv'(1) p(1) \<open>p < 2 ^ 64\<close> inv'(2) damaged(2)] by blast
          have "\<exists>pos' st''. recovery_loop crc rd (length data) scan_end limits p st' = Inr (pos', st'') \<and> ?out pos' st''"
            using st' p less.prems by (intro less.hyps) auto
          with True damaged(1) r Found q st'(1) show ?thesis by (auto simp: simps)
        next
          case (CandidateLimit q)
          with at have q: "q = p" by (simp add: stops_at_def)
          have le: "p \<le> length data" "p < length data" using p assms(2) by simp_all
          obtain st' where "stop_after_search (length data) pos p reason (StopCandidateLimit (rl_max_candidates limits)) ?st = Inr st'"
            "recovery_inv crc limits data start (length data) st'" "rs_stop st' = StopCandidateLimit (rl_max_candidates limits)" "has_work_limit st'"
            using stopped [OF p(1) le(1)] le(2) by blast
          with True damaged(1) r CandidateLimit q show ?thesis
            by (simp add: simps recovery_outcome_def)
        next
          case (CandidateByteLimit q)
          with at have q: "q = p" by (simp add: stops_at_def)
          have le: "p \<le> length data" "p < length data" using p assms(2) by simp_all
          obtain st' where "stop_after_search (length data) pos p reason (StopCandidateByteLimit (rl_max_candidate_bytes limits)) ?st = Inr st'"
            "recovery_inv crc limits data start (length data) st'" "rs_stop st' = StopCandidateByteLimit (rl_max_candidate_bytes limits)" "has_work_limit st'"
            using stopped [OF p(1) le(1)] le(2) by blast
          with True damaged(1) r CandidateByteLimit q show ?thesis
            by (simp add: simps recovery_outcome_def)
        qed (use at in \<open>simp add: stops_at_def\<close>)
      qed
    qed
  qed
qed

end

section \<open>Coalescing and the totals\<close>

definition same_damage :: "recovery_damage_region list \<Rightarrow> recovery_damage_region list \<Rightarrow> bool" where
  "same_damage ds es \<longleftrightarrow> (\<forall>p. in_damages p ds = in_damages p es) \<and> damage_bytes ds = damage_bytes es
     \<and> (damages_ordered ds \<longrightarrow> damages_ordered es) \<and> rd_reason ` set ds = rd_reason ` set es
     \<and> (\<forall>b. (\<forall>d \<in> set ds. rd_to d \<le> b) \<longrightarrow> (\<forall>d \<in> set es. rd_to d \<le> b))"

lemma same_damage_refl: "same_damage ds ds"
  by (simp add: same_damage_def)

lemma same_damage_trans: "same_damage ds es \<Longrightarrow> same_damage es fs \<Longrightarrow> same_damage ds fs"
  by (auto simp: same_damage_def)

lemma same_damage_merge:
  assumes "damages_ordered (as @ l # d # ds)" and "rd_to l = rd_from d" and "rd_reason l = rd_reason d"
  shows "same_damage (as @ l # d # ds) (as @ l\<lparr>rd_to := rd_to d\<rparr> # ds)"
proof -
  have lt: "rd_from l < rd_to l" "rd_from d < rd_to d"
    using assms(1) by (auto simp: damages_ordered_def)
  then have "in_damages p (as @ l # d # ds) = in_damages p (as @ l\<lparr>rd_to := rd_to d\<rparr> # ds)" for p
    using assms(2) by (auto simp: in_damages_def)
  moreover have "damage_bytes (as @ l # d # ds) = damage_bytes (as @ l\<lparr>rd_to := rd_to d\<rparr> # ds)"
    using assms(2) lt by (simp add: damage_bytes_def)
  moreover have "damages_ordered (as @ l\<lparr>rd_to := rd_to d\<rparr> # ds)"
    using assms(1,2) lt by (auto simp: damages_ordered_def sorted_wrt_append)
  ultimately show ?thesis
    using assms(3) by (auto simp: same_damage_def)
qed

definition touching :: "recovery_damage_region \<Rightarrow> recovery_damage_region \<Rightarrow> bool" where
  "touching a b \<longleftrightarrow> rd_to a = rd_from b \<and> rd_reason a = rd_reason b"

lemma coalesce_into_same:
  "damages_ordered (acc @ ds) \<Longrightarrow> same_damage (acc @ ds) (coalesce_into acc ds)"
proof (induction acc ds rule: coalesce_into.induct)
  case (1 acc)
  then show ?case by (simp add: same_damage_refl)
next
  case (2 acc d ds)
  show ?case
  proof (cases "acc \<noteq> [] \<and> rd_to (last acc) = rd_from d \<and> rd_reason (last acc) = rd_reason d")
    case False
    with 2(2) [OF False] 2(3) show ?thesis by (auto simp del: disj_not1)
  next
    case True
    then obtain as l where acc: "acc = as @ [l]" by (cases acc rule: rev_cases) auto
    have m: "same_damage (as @ l # d # ds) (as @ l\<lparr>rd_to := rd_to d\<rparr> # ds)"
      using 2(3) True by (intro same_damage_merge) (simp_all add: acc)
    have "damages_ordered (as @ l\<lparr>rd_to := rd_to d\<rparr> # ds)"
      using m 2(3) by (simp add: same_damage_def acc)
    with 2(1) [OF True] m True show ?thesis by (simp add: acc) (blast intro: same_damage_trans)
  qed
qed

lemma coalesce_into_separate:
  "successively (\<lambda>a b. \<not> touching a b) acc \<Longrightarrow> successively (\<lambda>a b. \<not> touching a b) (coalesce_into acc ds)"
proof (induction acc ds rule: coalesce_into.induct)
  case (1 acc)
  then show ?case by simp
next
  case (2 acc d ds)
  show ?case
  proof (cases "acc \<noteq> [] \<and> rd_to (last acc) = rd_from d \<and> rd_reason (last acc) = rd_reason d")
    case False
    then show ?thesis using 2 by (auto simp: successively_append_iff touching_def)
  next
    case True
    then obtain as l where acc: "acc = as @ [l]" by (cases acc rule: rev_cases) auto
    have "successively (\<lambda>a b. \<not> touching a b) (as @ [l\<lparr>rd_to := rd_to d\<rparr>])"
      using 2(3) by (auto simp: acc successively_append_iff touching_def)
    with 2(1) [OF True] True show ?thesis by (simp add: acc)
  qed
qed

lemma recovery_inv_coalesce:
  assumes "recovery_inv crc limits data start pos st"
  shows "recovery_inv crc limits data start pos
    (st\<lparr>rs_damages := coalesce_recovery_damages (rs_damages st)\<rparr>)"
proof -
  have "same_damage (rs_damages st) (coalesce_recovery_damages (rs_damages st))"
    using coalesce_into_same [of "[]" "rs_damages st"] assms
    by (simp add: coalesce_recovery_damages_def recovery_inv_def)
  with assms show ?thesis
    by (auto simp: recovery_inv_def same_damage_def tiles_def)
qed

text \<open>What the report states about the source.\<close>

definition report_tiles :: "(u8 list \<Rightarrow> u32) \<Rightarrow> journal_limits \<Rightarrow> u8 list \<Rightarrow> nat \<Rightarrow> recovery_scan_report \<Rightarrow> bool" where
  "report_tiles crc limits data start r \<longleftrightarrow>
     refs_within crc limits data start (length data) (rr_parts r)
     \<and> tiles start (length data) (rr_parts r) (rr_damages r)
     \<and> damages_ordered (rr_damages r)
     \<and> successively (\<lambda>a b. \<not> touching a b) (rr_damages r)"

definition report_accounts :: "recovery_scan_limits \<Rightarrow> u8 list \<Rightarrow> nat \<Rightarrow> recovery_scan_report \<Rightarrow> bool" where
  "report_accounts limits data start r \<longleftrightarrow>
     rr_physical_len r = length data
     \<and> rr_recovered_part_bytes r = sum_list (map pr_len (rr_parts r))
     \<and> rr_discarded_bytes r = damage_bytes (rr_damages r)
     \<and> start + rr_recovered_part_bytes r + FRAME_HEADER_LEN * length (rr_parts r) + rr_discarded_bytes r = length data
     \<and> rr_discarded_suffix_bytes r = length data - refs_end start (rr_parts r)
     \<and> length (rr_parts r) \<le> rl_max_parts limits
     \<and> rr_candidate_headers_examined r \<le> rl_max_candidates limits
     \<and> rr_candidate_validation_bytes r \<le> rl_max_candidate_bytes limits"

definition report_stop_exact :: "recovery_scan_report \<Rightarrow> bool" where
  "report_stop_exact r \<longleftrightarrow> (rr_stop r = EndOfSource \<longleftrightarrow> WorkLimit \<notin> rd_reason ` set (rr_damages r))"

lemma recovery_totals_inv:
  assumes inv: "recovery_inv crc limits data start (length data) st" and small: "length data < usize_limit"
    and sep: "successively (\<lambda>a b. \<not> touching a b) (rs_damages st)"
    and stop: "rs_stop st = EndOfSource \<longleftrightarrow> \<not> has_work_limit st"
  shows "\<exists>r. recovery_totals start (length data) st = Inr r
    \<and> report_tiles crc (rl_journal limits) data start r \<and> report_accounts limits data start r \<and> report_stop_exact r
    \<and> rr_parts r = rs_parts st \<and> rr_damages r = rs_damages st \<and> rr_stop r = rs_stop st"
proof -
  have sum: "rs_part_bytes st + 16 * length (rs_parts st) + damage_bytes (rs_damages st) + start = length data"
    using inv by (simp add: recovery_inv_def FRAME_HEADER_LEN_def)
  have mul: "u64_checked_mul (length (rs_parts st)) 16 = Some (16 * length (rs_parts st))"
    using sum small by (simp add: u64_checked_mul_def)
  have add: "u64_checked_add (rs_part_bytes st) (16 * length (rs_parts st)) = Some (rs_part_bytes st + 16 * length (rs_parts st))"
    using sum small by (simp add: u64_checked_add_def)
  have sub: "u64_checked_sub (length data - start) (rs_part_bytes st + 16 * length (rs_parts st)) =
      Some (damage_bytes (rs_damages st))"
    unfolding u64_checked_sub_def using sum by auto
  have last: "pr_offset (last (rs_parts st)) + pr_len (last (rs_parts st)) \<le> length data" if "rs_parts st \<noteq> []"
    using inv that last_in_set [OF that] by (simp add: recovery_inv_def refs_within_def)
  have ends: "refs_end start (rs_parts st) \<le> length data"
    using last sum by (simp add: refs_end_def)
  have accepted: "(if rs_parts st = [] then Inr start
      else checked_account ''accepted suffix offset''
        (usize_checked_add (pr_offset (last (rs_parts st))) (pr_len (last (rs_parts st))))) =
      Inr (refs_end start (rs_parts st))"
  proof (cases "rs_parts st = []")
    case False
    with le_less_trans [OF last [OF False] small] show ?thesis
      by (simp add: refs_end_def usize_checked_add_def checked_account_def)
  qed (simp add: refs_end_def)
  have suffix: "u64_checked_sub (length data) (refs_end start (rs_parts st)) =
      Some (length data - refs_end start (rs_parts st))"
    using ends by (simp add: u64_checked_sub_def)
  have "recovery_totals start (length data) st = Inr \<lparr>rr_parts = rs_parts st, rr_damages = rs_damages st,
      rr_physical_len = length data, rr_recovered_part_bytes = rs_part_bytes st, rr_recovered_rows = rs_rows st,
      rr_discarded_bytes = damage_bytes (rs_damages st),
      rr_discarded_suffix_bytes = length data - refs_end start (rs_parts st),
      rr_candidate_headers_examined = wk_candidates (rs_work st),
      rr_candidate_validation_bytes = wk_bytes (rs_work st), rr_stop = rs_stop st\<rparr>"
    unfolding recovery_totals_def FRAME_HEADER_LEN_def accepted mult.commute [of "length (rs_parts st)" 16]
    using mul suffix by (simp add: checked_account_def add sub)
  then show ?thesis
    using inv sep stop sum
    by (simp add: FRAME_HEADER_LEN_def add.assoc
        report_tiles_def report_accounts_def report_stop_exact_def recovery_inv_def has_work_limit_def work_ok_def)
qed

lemma coalesce_separate: "successively (\<lambda>a b. \<not> touching a b) (coalesce_recovery_damages ds)"
  by (simp add: coalesce_recovery_damages_def coalesce_into_separate)

lemma coalesce_work_limit:
  "damages_ordered (rs_damages st) \<Longrightarrow>
     has_work_limit (st\<lparr>rs_damages := coalesce_recovery_damages (rs_damages st)\<rparr>) = has_work_limit st"
  using coalesce_into_same [of "[]" "rs_damages st"]
  by (simp add: has_work_limit_def same_damage_def coalesce_recovery_damages_def)

lemma finish_scan_inv:
  assumes "recovery_outcome crc limits data start scan_end (length data) pos st" and "scan_end \<le> length data"
  defines "st' \<equiv> finish_scan limits (length data) scan_end pos st"
  shows "recovery_inv crc limits data start (length data) st' \<and> (rs_stop st' = EndOfSource \<longleftrightarrow> \<not> has_work_limit st')
    \<and> successively (\<lambda>a b. \<not> touching a b) (rs_damages st')"
proof -
  have fin: ?thesis if "recovery_inv crc limits data start (length data) st1"
    and "rs_stop st1 = EndOfSource \<longleftrightarrow> \<not> has_work_limit st1"
    and "st' = st1\<lparr>rs_damages := coalesce_recovery_damages (rs_damages st1)\<rparr>" for st1
    using that recovery_inv_coalesce [OF that(1)] coalesce_separate coalesce_work_limit [of st1]
    by (simp add: recovery_inv_def)
  show ?thesis
  proof (cases "pos = scan_end \<and> scan_end < length data")
    case True
    let ?st = "st\<lparr>rs_damages := rs_damages st @ [\<lparr>rd_from = scan_end, rd_to = length data, rd_reason = WorkLimit\<rparr>],
      rs_stop := ScanByteLimit (rl_max_scan_bytes limits)\<rparr>"
    have "recovery_inv crc limits data start (length data) ?st"
      using assms(1) True recovery_inv_damage [of crc limits data start scan_end st "length data" WorkLimit]
      by (simp add: recovery_outcome_def)
    with True show ?thesis
      by (intro fin [of ?st]) (simp_all add: st'_def finish_scan_def has_work_limit_def)
  next
    case False
    with assms show ?thesis
      by (intro fin [of st]) (auto simp: finish_scan_def recovery_outcome_def Let_def)
  qed
qed

lemma validate_recovery_limits_ok:
  "validate_recovery_limits limits = Inr () \<longleftrightarrow>
     0 < unat (jl_max_part_len (rl_journal limits)) \<and> unat (jl_max_part_len (rl_journal limits)) \<le> MAX_PART_LEN
     \<and> 0 < rl_max_scan_bytes limits \<and> rl_max_scan_bytes limits \<le> MAX_JOURNAL_LEN
     \<and> 0 < rl_max_parts limits \<and> rl_max_parts limits \<le> MAX_JOURNAL_PARTS
     \<and> 0 < rl_max_candidates limits \<and> rl_max_candidates limits \<le> MAX_RECOVERY_CANDIDATES
     \<and> 0 < rl_max_candidate_bytes limits \<and> rl_max_candidate_bytes limits \<le> MAX_JOURNAL_LEN"
  by (auto simp: validate_recovery_limits_def validate_recovery_limit_def simp del: unat_eq_zero unsigned_eq_0_iff split: sum.splits if_splits)

context read_at
begin

lemma recovery_scan_report:
  assumes "length data < usize_limit" and "validate_recovery_limits limits = Inr ()" and "start \<le> length data"
  shows "\<exists>r. scan_journal_streaming_recovery_from crc rd (slice_byte_len data) (slice_byte_len data) start limits = Inr r
    \<and> report_tiles crc (rl_journal limits) data start r \<and> report_accounts limits data start r \<and> report_stop_exact r"
proof -
  let ?len = "length data"
  define scan_end where "scan_end = recovery_scan_end start limits ?len"
  have "rl_max_scan_bytes limits \<le> 1073741824"
    using assms(2) by (simp add: validate_recovery_limits_ok MAX_JOURNAL_LEN_def)
  then have se: "scan_end \<le> ?len" "scan_end \<le> start + 2 ^ 32" "start \<le> scan_end"
    using assms(1,3) by (simp_all add: scan_end_def recovery_scan_end_def)
  obtain pos st where loop: "recovery_loop crc rd ?len scan_end limits start recovery_init = Inr (pos, st)"
    and out: "recovery_outcome crc limits data start scan_end ?len pos st"
  proof -
    have "rs_stop recovery_init = EndOfSource" and "\<not> has_work_limit recovery_init"
      by (simp_all add: recovery_init_def has_work_limit_def)
    from recovery_loop_outcome [OF assms(1) se(1,2) recovery_inv_init se(3) this]
    show ?thesis using that by blast
  qed
  obtain r where r: "recovery_totals start ?len (finish_scan limits ?len scan_end pos st) = Inr r"
    "report_tiles crc (rl_journal limits) data start r" "report_accounts limits data start r" "report_stop_exact r"
    using recovery_totals_inv [OF _ assms(1)] finish_scan_inv [OF out se(1)] by blast
  have len: "unat (of_nat ?len :: u64) = ?len"
    using assms(1) by (rule unat_of_nat_64)
  have "scan_journal_streaming_recovery_from crc rd (slice_byte_len data) (slice_byte_len data) start limits = Inr r"
    using assms(2,3) loop r(1)
    by (simp add: scan_journal_streaming_recovery_from_def slice_byte_len_def len scan_end_def [symmetric] Let_def)
  with r show ?thesis by blast
qed

end

section \<open>Undamaged journals\<close>

lemma recovery_loop_frames:
  assumes "\<forall>p \<in> set ps. part_ok crc (rl_journal limits) p" and "length (pre @ frames_of crc ps) < usize_limit"
    and "length (pre @ frames_of crc ps) \<le> start + 2 ^ 32"
    and "recovery_inv crc limits (pre @ frames_of crc ps) start (length pre) st"
    and "length (rs_parts st) + length ps \<le> rl_max_parts limits"
  shows "\<exists>st'. recovery_loop crc (slice_read (pre @ frames_of crc ps)) physical_len (length (pre @ frames_of crc ps))
      limits (length pre) st = Inr (length (pre @ frames_of crc ps), st')
    \<and> rs_parts st' = rs_parts st @ refs_from (length pre) ps \<and> rs_damages st' = rs_damages st
    \<and> rs_stop st' = rs_stop st"
  using assms
proof (induction ps arbitrary: pre st)
  case Nil
  then show ?case by (simp add: recovery_loop_end)
next
  case (Cons p ps)
  define data where "data = pre @ frames_of crc (p # ps)"
  let ?pos = "length pre"
  have v: "frame_at crc data ?pos (rl_journal limits) = Valid (length p)"
    using Cons.prems frame_at_frame [of crc "rl_journal limits" p pre "frames_of crc ps"] by (simp add: data_def)
  have pos: "?pos < length data" and small: "length data < usize_limit"
    using Cons.prems by (simp_all add: data_def)
  obtain n rows where sf: "streaming_frame_at crc (slice_read data) (length data) ?pos (rl_journal limits) = Inr (SValid n rows)"
    and ref: "ref_ok crc (rl_journal limits) data \<lparr>pr_offset = ?pos + FRAME_HEADER_LEN, pr_len = n\<rparr>"
    and le: "?pos + FRAME_HEADER_LEN + n \<le> length data" and rows: "unat rows \<le> 2048 * n" and n: "n = length p"
    using small order_refl pos
  proof (cases rule: slice_reader.recovery_frame [where crc = crc and limits = "rl_journal limits"])
    case (valid n rows)
    with streaming_frame_slice [OF small pos, of crc "rl_journal limits"] v show ?thesis
      by (intro that) auto
  next
    case (damaged reason e can)
    with streaming_frame_slice [OF small pos, of crc "rl_journal limits"] v show ?thesis by simp
  qed
  have few: "length (rs_parts st) < rl_max_parts limits" using Cons.prems(5) by simp
  have room: "?pos + FRAME_HEADER_LEN + n \<le> start + 2 ^ 32"
    using le Cons.prems(3) unfolding data_def by linarith
  have inv: "recovery_inv crc limits data start ?pos st"
    using Cons.prems(4) by (simp only: data_def)
  obtain st' where acc: "accept_frame st ?pos n (unat rows) = Inr st'"
    and inv': "recovery_inv crc limits data start (?pos + FRAME_HEADER_LEN + n) st'"
    and same: "rs_damages st' = rs_damages st" "rs_stop st' = rs_stop st"
    using recovery_inv_accept [OF inv ref few rows room] by blast
  then have parts: "rs_parts st' = rs_parts st @ [\<lparr>pr_offset = ?pos + FRAME_HEADER_LEN, pr_len = n\<rparr>]"
    by (auto simp: accept_frame_def split: sum.splits)
  let ?pre = "pre @ frame_bytes crc p"
  have data: "data = ?pre @ frames_of crc ps" and nx: "?pos + FRAME_HEADER_LEN + n = length ?pre"
    by (simp_all add: data_def n FRAME_HEADER_LEN_def)
  obtain st'' where "recovery_loop crc (slice_read data) physical_len (length data) limits (length ?pre) st' = Inr (length data, st'')"
    and "rs_parts st'' = rs_parts st' @ refs_from (length ?pre) ps"
    and "rs_damages st'' = rs_damages st'" "rs_stop st'' = rs_stop st'"
    using Cons.IH [of ?pre st'] Cons.prems inv' parts small unfolding nx data [symmetric] by (auto simp: data_def)
  then show ?case
    unfolding data_def [symmetric]
    using pos few acc sf same parts nx
    by (subst recovery_loop.simps) (simp add: n FRAME_HEADER_LEN_def add.assoc)
qed

section \<open>Properties\<close>

text \<open>
  C10. Best-effort recovery always produces a report on a stable source within its limits, and that
  report is sound: every recovered part is a complete frame that validates, recovered frames and
  damage regions together cover the bytes from \<open>start\<close> to the physical end without overlap, and the
  damage regions are non-empty, ordered and coalesced.
\<close>

theorem recovery_scan_tiles:
  assumes "length data < usize_limit" and "validate_recovery_limits limits = Inr ()" and "start \<le> length data"
  shows "\<exists>r. scan_journal_streaming_recovery_from crc (slice_read data) (slice_byte_len data) (slice_byte_len data)
      start limits = Inr r \<and> report_tiles crc (rl_journal limits) data start r"
  using slice_reader.recovery_scan_report [OF assms] by blast

lemma recovery_default_limits_ok: "validate_recovery_limits recovery_default_limits = Inr ()"
  by (simp add: validate_recovery_limits_def validate_recovery_limit_def recovery_default_limits_def
      MAX_PART_LEN_def MAX_JOURNAL_LEN_def MAX_JOURNAL_PARTS_def MAX_RECOVERY_CANDIDATES_def)

lemma recovery_scan_tiles_witness:
  "\<exists>r. scan_journal_streaming_recovery_from sum_crc (slice_read [1, 2, 3]) (slice_byte_len [1, 2, 3])
      (slice_byte_len [1, 2, 3]) 1 recovery_default_limits = Inr r
    \<and> report_tiles sum_crc (rl_journal recovery_default_limits) [1, 2, 3] 1 r"
  by (rule recovery_scan_tiles [OF _ recovery_default_limits_ok]) simp_all

text \<open>
  The report accounts for every byte: recovered bodies, frame headers and discarded bytes add up
  to the scanned tail, the discarded bytes are those of the damage regions, the discarded suffix
  begins at the end of the last recovered part, and the part, candidate and candidate-byte counts
  stay within their limits; the checked additions never overflow.
\<close>

theorem recovery_scan_accounts:
  assumes "length data < usize_limit" and "validate_recovery_limits limits = Inr ()" and "start \<le> length data"
    and "scan_journal_streaming_recovery_from crc (slice_read data) (slice_byte_len data) (slice_byte_len data)
      start limits = Inr r"
  shows "report_accounts limits data start r"
  using slice_reader.recovery_scan_report [OF assms(1-3), of crc] assms(4) by auto

lemma recovery_scan_accounts_witness:
  "\<exists>r. scan_journal_streaming_recovery_from sum_crc (slice_read [1, 2, 3]) (slice_byte_len [1, 2, 3])
      (slice_byte_len [1, 2, 3]) 1 recovery_default_limits = Inr r
    \<and> rr_discarded_bytes r = 2"
proof -
  let ?scan = "scan_journal_streaming_recovery_from sum_crc (slice_read [1, 2, 3]) (slice_byte_len [1, 2, 3])
      (slice_byte_len [1, 2, 3]) 1 recovery_default_limits"
  let ?r = "\<lparr>rr_parts = [], rr_damages = [\<lparr>rd_from = 1, rd_to = 3, rd_reason = TornFrameHeader\<rparr>],
    rr_physical_len = 3, rr_recovered_part_bytes = 0, rr_recovered_rows = 0, rr_discarded_bytes = 2,
    rr_discarded_suffix_bytes = 2, rr_candidate_headers_examined = 0, rr_candidate_validation_bytes = 0,
    rr_stop = EndOfSource\<rparr>"
  have scan_bytes: "rl_max_scan_bytes recovery_default_limits = 1073741824"
    by (simp add: recovery_default_limits_def MAX_JOURNAL_LEN_def)
  have scan: "?scan = Inr ?r"
    by (simp add: scan_journal_streaming_recovery_from_def recovery_default_limits_ok slice_byte_len_def
        recovery_scan_end_def recovery_loop.simps streaming_frame_at_def FRAME_HEADER_LEN_def streaming_resync_def
        stop_after_search_def push_stopped_damage_def recovery_offset_def checked_account_def recovery_init_def
        finish_scan_def coalesce_recovery_damages_def recovery_totals_def u64_checked_mul_def u64_checked_add_def
        u64_checked_sub_def Let_def scan_bytes)
  from recovery_scan_accounts [OF _ recovery_default_limits_ok _ scan] scan show ?thesis
    by (auto simp: report_accounts_def damage_bytes_def)
qed

text \<open>
  A report says \<open>EndOfSource\<close> exactly when no damage region is marked as left unexamined: a scan
  cut short by a byte, part or candidate limit is always visible in its damage list.
\<close>

theorem recovery_scan_stop_exact:
  assumes "length data < usize_limit" and "validate_recovery_limits limits = Inr ()" and "start \<le> length data"
    and "scan_journal_streaming_recovery_from crc (slice_read data) (slice_byte_len data) (slice_byte_len data)
      start limits = Inr r"
  shows "rr_stop r = EndOfSource \<longleftrightarrow> (\<forall>d \<in> set (rr_damages r). rd_reason d \<noteq> WorkLimit)"
  using slice_reader.recovery_scan_report [OF assms(1-3), of crc] assms(4)
  by (auto simp: report_stop_exact_def image_iff)

lemma recovery_scan_stop_exact_witness:
  "\<exists>r. scan_journal_streaming_recovery_from sum_crc (slice_read []) (slice_byte_len [])
      (slice_byte_len []) 0 recovery_default_limits = Inr r \<and> rr_stop r = EndOfSource"
proof -
  let ?data = "[] :: u8 list"
  have "\<exists>r. scan_journal_streaming_recovery_from sum_crc (slice_read ?data) (slice_byte_len ?data)
      (slice_byte_len ?data) 0 recovery_default_limits = Inr r \<and> rr_damages r = []"
    by (simp add: scan_journal_streaming_recovery_from_def recovery_default_limits_ok slice_byte_len_def
        recovery_scan_end_def recovery_loop_end finish_scan_def coalesce_recovery_damages_def recovery_totals_def
        recovery_init_def u64_checked_mul_def u64_checked_add_def u64_checked_sub_def checked_account_def Let_def)
  then obtain r where scan: "scan_journal_streaming_recovery_from sum_crc (slice_read ?data) (slice_byte_len ?data)
      (slice_byte_len ?data) 0 recovery_default_limits = Inr r" and "rr_damages r = []" by blast
  with recovery_scan_stop_exact [OF _ recovery_default_limits_ok _ scan] show ?thesis by simp
qed

text \<open>
  C20. The chunked search past a damaged frame, which reads 64 KiB at a time and carries three bytes
  over, visits exactly the frame magics of the remaining bytes in increasing order, after the end
  the damaged frame implies, and stops at the first candidate that validates or meets a limit: no
  magic across a chunk border is missed or checked twice.
\<close>

theorem streaming_resync_exact:
  assumes "length data < usize_limit" and "scan_end \<le> length data"
  shows "streaming_resync crc (slice_read data) pos scan_end implied_end limits w can_resync =
    (if \<not> can_resync then Inr (NoCandidate scan_end, w)
     else conclude scan_end (visit (\<lambda>p. check_recovery_candidate crc (slice_read data) p scan_end limits) scan_end
       (resync_positions data pos scan_end implied_end) w))"
  by (rule slice_reader.streaming_resync_visit [OF assms])

lemma streaming_resync_exact_witness:
  "streaming_resync sum_crc (slice_read [7, 7]) 0 2 None recovery_default_limits \<lparr>wk_candidates = 0, wk_bytes = 0\<rparr> True
   = Inr (NoCandidate 2, \<lparr>wk_candidates = 0, wk_bytes = 0\<rparr>)"
  by (subst streaming_resync_exact) (simp_all add: resync_positions_def magic_positions_def resync_start_def)

text \<open>
  On an undamaged journal within its limits recovery returns exactly the frames, in order, with
  no damage, and reports the end of the source.
\<close>

theorem recovery_scan_clean:
  assumes "\<forall>p \<in> set ps. part_ok crc (rl_journal limits) p" and "length (pre @ frames_of crc ps) < usize_limit"
    and "validate_recovery_limits limits = Inr ()" and "length ps \<le> rl_max_parts limits"
    and "length (frames_of crc ps) \<le> rl_max_scan_bytes limits"
  shows "\<exists>r. scan_journal_streaming_recovery_from crc (slice_read (pre @ frames_of crc ps))
      (slice_byte_len (pre @ frames_of crc ps)) (slice_byte_len (pre @ frames_of crc ps)) (length pre) limits = Inr r
    \<and> rr_parts r = refs_from (length pre) ps \<and> rr_damages r = [] \<and> rr_stop r = EndOfSource"
proof -
  define data where "data = pre @ frames_of crc ps"
  have small: "length data < usize_limit" and le: "length pre \<le> length data"
    using assms(2) by (simp_all add: data_def)
  have mb: "rl_max_scan_bytes limits \<le> 1073741824"
    using assms(3) by (simp add: validate_recovery_limits_ok MAX_JOURNAL_LEN_def)
  have se: "recovery_scan_end (length pre) limits (length data) = length data"
    using assms(5) small by (simp add: recovery_scan_end_def data_def)
  have "length data \<le> length pre + 2 ^ 32"
    using assms(5) mb by (simp add: data_def)
  then obtain st where loop: "recovery_loop crc (slice_read data) (length data) (length data) limits (length pre) recovery_init
      = Inr (length data, st)"
    and st: "rs_parts st = refs_from (length pre) ps" "rs_damages st = []" "rs_stop st = EndOfSource"
    using recovery_loop_frames [OF assms(1,2), of "length pre" recovery_init "length data"] assms(4)
      recovery_inv_init [of crc limits data "length pre"]
    by (auto simp: data_def recovery_init_def)
  obtain r where scan: "scan_journal_streaming_recovery_from crc (slice_read data) (slice_byte_len data)
      (slice_byte_len data) (length pre) limits = Inr r"
    using slice_reader.recovery_scan_report [OF small assms(3) le] by blast
  have len: "unat (of_nat (length data) :: u64) = length data"
    using small by (rule unat_of_nat_64)
  have "recovery_totals (length pre) (length data) (finish_scan limits (length data) (length data) (length data) st) = Inr r"
    using scan assms(3) le loop
    by (simp add: scan_journal_streaming_recovery_from_def slice_byte_len_def len se Let_def split: sum.splits)
  then have "rr_parts r = rs_parts st \<and> rr_damages r = [] \<and> rr_stop r = EndOfSource"
    using st by (auto simp: recovery_totals_def finish_scan_def coalesce_recovery_damages_def
        split: sum.splits if_splits)
  with scan st show ?thesis by (simp add: data_def)
qed

lemma recovery_scan_clean_witness:
  "\<exists>r. scan_journal_streaming_recovery_from sum_crc (slice_read (frame_bytes sum_crc demo_part))
      (slice_byte_len (frame_bytes sum_crc demo_part)) (slice_byte_len (frame_bytes sum_crc demo_part)) 0
      recovery_default_limits = Inr r
    \<and> rr_parts r = [\<lparr>pr_offset = 16, pr_len = 112\<rparr>] \<and> rr_stop r = EndOfSource"
proof -
  have "part_ok sum_crc (rl_journal recovery_default_limits) demo_part"
    using demo_part_ok by (simp add: demo_limits_def recovery_default_limits_def MAX_PART_LEN_def)
  then show ?thesis
    using recovery_scan_clean [of "[demo_part]" sum_crc recovery_default_limits "[]"] recovery_default_limits_ok
    by (auto simp: length_demo_part FRAME_HEADER_LEN_def recovery_default_limits_def MAX_JOURNAL_PARTS_def
        MAX_JOURNAL_LEN_def)
qed

end
