(* ===== verification/Journal.thy ===== *)
theory Journal
  imports Recovery_Scan Layout_Time
begin

text \<open>
  The file-backed active journal (\<open>crates/kronika-writer/src/journal.rs\<close>): append with rollback, the
  two-phase reset with its committed marker, opening with reset recovery, and bounded reads of parts.

  A file is its bytes, the position of the descriptor, the bytes of the last successful
  synchronisation, and the outcomes the operating system has in store for the next operations: a
  failing write has written a prefix of its data, any other failing operation has done nothing.  A
  process that stops between two operations leaves the bytes that a failure of the next operation
  leaves.  Reads fail only at the end of the file.  The owner lease and the creation of the directory
  entry come before these definitions; the synchronisation of the root directory and the comparison
  of file identities are outcomes that the caller passes in.
\<close>

section \<open>Files\<close>

datatype io_outcome = IoOk | IoFail nat io_error

record journal_file =
  jf_bytes :: "u8 list"
  jf_pos :: nat
  jf_durable :: "u8 list"
  jf_plan :: "io_outcome list"

type_synonym io_result = "(io_error + unit) \<times> journal_file"

definition next_io :: "journal_file \<Rightarrow> io_outcome \<times> journal_file" where
  "next_io f = (case jf_plan f of [] \<Rightarrow> (IoOk, f) | o1 # os \<Rightarrow> (o1, f\<lparr>jf_plan := os\<rparr>))"

text \<open>Writing past the end fills the gap with zeros.\<close>

definition overwrite :: "nat \<Rightarrow> u8 list \<Rightarrow> u8 list \<Rightarrow> u8 list" where
  "overwrite pos data bytes =
     take pos bytes @ replicate (pos - length bytes) 0 @ data @ drop (pos + length data) bytes"

definition write_some :: "u8 list \<Rightarrow> journal_file \<Rightarrow> journal_file" where
  "write_some data f =
     (if data = [] then f
      else f\<lparr>jf_bytes := overwrite (jf_pos f) data (jf_bytes f), jf_pos := jf_pos f + length data\<rparr>)"

definition file_seek :: "nat \<Rightarrow> journal_file \<Rightarrow> io_result" where
  "file_seek pos f =
     (case next_io f of
        (IoOk, f) \<Rightarrow> (Inr (), f\<lparr>jf_pos := pos\<rparr>)
      | (IoFail n e, f) \<Rightarrow> (Inl e, f))"

definition write_all :: "u8 list \<Rightarrow> journal_file \<Rightarrow> io_result" where
  "write_all data f =
     (case next_io f of
        (IoOk, f) \<Rightarrow> (Inr (), write_some data f)
      | (IoFail n e, f) \<Rightarrow> (Inl e, write_some (take n data) f))"

definition set_len :: "nat \<Rightarrow> journal_file \<Rightarrow> io_result" where
  "set_len n f =
     (case next_io f of
        (IoOk, f) \<Rightarrow> (Inr (), f\<lparr>jf_bytes := take n (jf_bytes f) @ replicate (n - length (jf_bytes f)) 0\<rparr>)
      | (IoFail k e, f) \<Rightarrow> (Inl e, f))"

definition sync_data :: "journal_file \<Rightarrow> io_result" where
  "sync_data f =
     (case next_io f of
        (IoOk, f) \<Rightarrow> (Inr (), f\<lparr>jf_durable := jf_bytes f\<rparr>)
      | (IoFail k e, f) \<Rightarrow> (Inl e, f))"

definition io_then :: "io_result \<Rightarrow> (journal_file \<Rightarrow> io_result) \<Rightarrow> io_result" where
  "io_then r k = (case r of (Inl e, f) \<Rightarrow> (Inl e, f) | (Inr _, f) \<Rightarrow> k f)"

section \<open>Configuration, errors and state\<close>

record journal_config =
  jc_limits :: journal_limits
  jc_max_journal_len :: nat
  jc_max_parts :: nat

definition config_default :: journal_config where
  "config_default = \<lparr>jc_limits = \<lparr>jl_max_part_len = of_nat MAX_PART_LEN\<rparr>, jc_max_journal_len = MAX_JOURNAL_LEN,
     jc_max_parts = MAX_JOURNAL_PARTS\<rparr>"

text \<open>
  \<open>GenerationExhausted\<close> is the panic of the process-wide generation counter.
\<close>

datatype journal_error =
    JIo io_error
  | JLayout layout_error
  | InvalidMaxJournalLen nat nat nat
  | InvalidMaxParts nat nat nat
  | InvalidMaxPartLen nat nat nat
  | JournalTooLarge nat nat
  | TooManyParts nat
  | UnsupportedJournalFormat
  | TornHeader nat
  | InvalidHeader journal_header_error
  | BodyLengthMismatch nat nat
  | EmptyWithFrames nat
  | ActiveWithoutFirstFrame
  | DamagedBody "damage_region list"
  | InvalidSegmentId layout_error
  | SegmentIdMismatch int int
  | PartTooLarge nat nat
  | JournalFull nat nat
  | InvalidPart part_error
  | StalePartRef nat nat
  | RollbackFailed io_error io_error
  | ResetIncomplete io_error
  | Poisoned
  | FreshGenerationInvalid nat
  | GenerationExhausted

record journal_part_ref =
  jp_raw :: part_ref
  jp_generation :: nat

record journal =
  j_file :: journal_file
  j_end :: nat
  j_config :: journal_config
  j_parts :: "journal_part_ref list"
  j_generation :: nat
  j_segment_id :: "int option"
  j_poisoned :: bool

definition validate_config :: "journal_config \<Rightarrow> journal_error + unit" where
  "validate_config config =
     (if jc_max_journal_len config < JOURNAL_HEADER_LEN \<or> jc_max_journal_len config > MAX_JOURNAL_LEN
      then Inl (InvalidMaxJournalLen (jc_max_journal_len config) JOURNAL_HEADER_LEN MAX_JOURNAL_LEN)
      else if jc_max_parts config = 0 \<or> jc_max_parts config > MAX_JOURNAL_PARTS
      then Inl (InvalidMaxParts (jc_max_parts config) 1 MAX_JOURNAL_PARTS)
      else if jl_max_part_len (jc_limits config) = 0 \<or> unat (jl_max_part_len (jc_limits config)) > MAX_PART_LEN
      then Inl (InvalidMaxPartLen (unat (jl_max_part_len (jc_limits config))) 1 MAX_PART_LEN)
      else Inr ())"

text \<open>The counter's current value is taken and the counter incremented; at its maximum the code panics.\<close>

definition next_journal_generation :: "nat \<Rightarrow> (nat \<times> nat) option" where
  "next_journal_generation counter =
     (case usize_checked_add counter 1 of None \<Rightarrow> None | Some next \<Rightarrow> Some (counter, next))"

section \<open>Writing\<close>

definition write_header :: "(u8 list \<Rightarrow> u32) \<Rightarrow> journal_header \<Rightarrow> journal_file \<Rightarrow> io_result" where
  "write_header crc header f = io_then (file_seek 0 f) (write_all (header_encode crc header))"

definition rollback :: "(u8 list \<Rightarrow> u32) \<Rightarrow> nat \<Rightarrow> journal_header \<Rightarrow> journal_file \<Rightarrow> io_result" where
  "rollback crc end_at header f =
     io_then (set_len end_at f) (\<lambda>f. io_then (write_header crc header f) sync_data)"

definition write_frame :: "nat \<Rightarrow> u8 list \<Rightarrow> u8 list \<Rightarrow> journal_file \<Rightarrow> io_result" where
  "write_frame at header part f =
     io_then (file_seek at f) (\<lambda>f. io_then (write_all header f) (write_all part))"

definition id_bits :: "int \<Rightarrow> i64" where
  "id_bits sid = word_of_int sid"

definition current_header :: "journal \<Rightarrow> journal_header" where
  "current_header j =
     \<lparr>jh_state = (case j_segment_id j of None \<Rightarrow> Empty | Some sid \<Rightarrow> Active (id_bits sid)),
      jh_body_len = of_nat (j_end j - JOURNAL_HEADER_LEN)\<rparr>"

definition ensure_healthy :: "journal \<Rightarrow> journal_error + unit" where
  "ensure_healthy j = (if j_poisoned j then Inl Poisoned else Inr ())"

text \<open>The checks of \<open>append\<close> before it writes, in order; the result is the end of the new frame.\<close>

definition append_admission :: "(u8 list \<Rightarrow> u32) \<Rightarrow> journal \<Rightarrow> int \<Rightarrow> u8 list \<Rightarrow> journal_error + nat" where
  "append_admission crc j sid part =
     (case ensure_healthy j of Inl e \<Rightarrow> Inl e | Inr _ \<Rightarrow>
      if j_segment_id j \<noteq> None \<and> the (j_segment_id j) \<noteq> sid
      then Inl (SegmentIdMismatch (the (j_segment_id j)) sid)
      else if length part > unat (jl_max_part_len (jc_limits (j_config j)))
      then Inl (PartTooLarge (length part) (unat (jl_max_part_len (jc_limits (j_config j)))))
      else case validate_part crc part of Inl e \<Rightarrow> Inl (InvalidPart e) | Inr _ \<Rightarrow>
      if length (j_parts j) \<ge> jc_max_parts (j_config j) then Inl (TooManyParts (jc_max_parts (j_config j)))
      else
        let full = JournalFull (j_end j) (jc_max_journal_len (j_config j)) in
        case usize_checked_add FRAME_HEADER_LEN (length part) of None \<Rightarrow> Inl full | Some frame_len \<Rightarrow>
        (case usize_checked_add (j_end j) frame_len of None \<Rightarrow> Inl full | Some next_end \<Rightarrow>
        (case usize_checked_add next_end RESET_MARKER_LEN of None \<Rightarrow> Inl full | Some reset_end \<Rightarrow>
         if reset_end > jc_max_journal_len (j_config j) then Inl full else Inr next_end)))"

definition append_writes ::
  "(u8 list \<Rightarrow> u32) \<Rightarrow> bool \<Rightarrow> nat \<Rightarrow> journal_header \<Rightarrow> u8 list \<Rightarrow> u8 list \<Rightarrow> journal_file \<Rightarrow> io_result" where
  "append_writes crc first at new_header frame_header part f =
     io_then
       (if first
        then io_then (write_header crc new_header f) (write_frame at frame_header part)
        else io_then (write_frame at frame_header part f) (write_header crc new_header))
       sync_data"

text \<open>A failed write is rolled back; a failed rollback poisons the handle.\<close>

definition roll_back_or_poison ::
  "(u8 list \<Rightarrow> u32) \<Rightarrow> journal \<Rightarrow> io_error \<Rightarrow> journal_file \<Rightarrow> journal_error \<times> journal" where
  "roll_back_or_poison crc j operation f =
     (case rollback crc (j_end j) (current_header j) f of
        (Inr _, f) \<Rightarrow> (JIo operation, j\<lparr>j_file := f\<rparr>)
      | (Inl rb, f) \<Rightarrow> (RollbackFailed operation rb, j\<lparr>j_file := f, j_poisoned := True\<rparr>))"

definition journal_append ::
  "(u8 list \<Rightarrow> u32) \<Rightarrow> int \<Rightarrow> u8 list \<Rightarrow> journal \<Rightarrow> (journal_error + journal_part_ref) \<times> journal" where
  "journal_append crc sid part j =
     (case append_admission crc j sid part of
        Inl e \<Rightarrow> (Inl e, j)
      | Inr next_end \<Rightarrow>
          let new_header = \<lparr>jh_state = Active (id_bits sid), jh_body_len = of_nat (next_end - JOURNAL_HEADER_LEN)\<rparr>;
              frame_header = frame_encode crc \<lparr>fh_part_len = of_nat (length part)\<rparr> in
          case append_writes crc (j_parts j = []) (j_end j) new_header frame_header part (j_file j) of
            (Inl e, f) \<Rightarrow> (case roll_back_or_poison crc j e f of (err, j) \<Rightarrow> (Inl err, j))
          | (Inr _, f) \<Rightarrow>
              let part_ref = \<lparr>jp_raw = \<lparr>pr_offset = j_end j + FRAME_HEADER_LEN, pr_len = length part\<rparr>,
                              jp_generation = j_generation j\<rparr> in
              (Inr part_ref,
               j\<lparr>j_file := f, j_end := next_end, j_parts := j_parts j @ [part_ref], j_segment_id := Some sid\<rparr>))"

section \<open>Reading\<close>

text \<open>\<open>binary_search_by_key\<close> over the offsets: the halves of the standard library's search.\<close>

function search_offset :: "journal_part_ref list \<Rightarrow> nat \<Rightarrow> nat \<Rightarrow> nat \<Rightarrow> nat option" where
  "search_offset parts key lo hi =
     (if lo < hi then
        (let mid = lo + (hi - lo) div 2; off = pr_offset (jp_raw (parts ! mid)) in
         if off = key then Some mid
         else if off < key then search_offset parts key (mid + 1) hi
         else search_offset parts key lo mid)
      else None)"
  by pat_completeness auto
termination
  by (relation "measure (\<lambda>(parts, key, lo, hi). hi - lo)") auto

declare search_offset.simps [simp del]

definition check_part_ref :: "journal \<Rightarrow> journal_part_ref \<Rightarrow> journal_error + unit" where
  "check_part_ref j part =
     (case ensure_healthy j of Inl e \<Rightarrow> Inl e | Inr _ \<Rightarrow>
      let minimum = JOURNAL_HEADER_LEN + FRAME_HEADER_LEN;
          raw = jp_raw part;
          is_member = (jp_generation part = j_generation j
            \<and> (case search_offset (j_parts j) (pr_offset raw) 0 (length (j_parts j)) of
                 None \<Rightarrow> False | Some index \<Rightarrow> j_parts j ! index = part));
          in_bounds = (pr_offset raw \<ge> minimum
            \<and> (case usize_checked_add (pr_offset raw) (pr_len raw) of None \<Rightarrow> False | Some e \<Rightarrow> e \<le> j_end j)) in
      if \<not> is_member \<or> \<not> in_bounds then Inl (StalePartRef (pr_offset raw) (pr_len raw)) else Inr ())"

definition read_file :: "journal_file \<Rightarrow> nat \<Rightarrow> nat \<Rightarrow> journal_error + u8 list" where
  "read_file f at n = (case slice_read (jf_bytes f) (of_nat at) n of Inl e \<Rightarrow> Inl (JIo e) | Inr b \<Rightarrow> Inr b)"

definition read_part :: "journal \<Rightarrow> journal_part_ref \<Rightarrow> journal_error + u8 list" where
  "read_part j part =
     (case check_part_ref j part of
        Inl e \<Rightarrow> Inl e
      | Inr _ \<Rightarrow> read_file (j_file j) (pr_offset (jp_raw part)) (pr_len (jp_raw part)))"

definition read_part_range :: "journal \<Rightarrow> journal_part_ref \<Rightarrow> nat \<Rightarrow> nat \<Rightarrow> journal_error + u8 list" where
  "read_part_range j part offset len =
     (case check_part_ref j part of
        Inl e \<Rightarrow> Inl e
      | Inr _ \<Rightarrow>
          case usize_checked_add offset len of
            None \<Rightarrow> Inl (StalePartRef offset len)
          | Some relative_end \<Rightarrow>
              if relative_end > pr_len (jp_raw part) then Inl (StalePartRef offset len)
              else case usize_checked_add (pr_offset (jp_raw part)) offset of
                     None \<Rightarrow> Inl (StalePartRef offset len)
                   | Some absolute \<Rightarrow> read_file (j_file j) absolute len)"

section \<open>Reset\<close>

definition finish_committed_reset :: "(u8 list \<Rightarrow> u32) \<Rightarrow> journal_file \<Rightarrow> io_result" where
  "finish_committed_reset crc f =
     io_then (write_header crc header_EMPTY f) (\<lambda>f.
     io_then (sync_data f) (\<lambda>f.
     io_then (set_len JOURNAL_HEADER_LEN f) sync_data))"

definition write_marker :: "(u8 list \<Rightarrow> u32) \<Rightarrow> nat \<Rightarrow> reset_marker \<Rightarrow> journal_file \<Rightarrow> io_result" where
  "write_marker crc end_at marker f =
     io_then (file_seek end_at f) (\<lambda>f. io_then (write_all (marker_encode crc marker) f) sync_data)"

text \<open>The counter is passed in and out: a generation is taken before anything is written.\<close>

definition journal_reset ::
  "(u8 list \<Rightarrow> u32) \<Rightarrow> nat \<Rightarrow> journal \<Rightarrow> (journal_error + unit) \<times> journal \<times> nat" where
  "journal_reset crc counter j =
     (case ensure_healthy j of Inl e \<Rightarrow> (Inl e, j, counter) | Inr _ \<Rightarrow>
      if j_parts j = [] then (Inr (), j, counter)
      else case j_segment_id j of None \<Rightarrow> (Inl Poisoned, j\<lparr>j_poisoned := True\<rparr>, counter) | Some sid \<Rightarrow>
      (case next_journal_generation counter of None \<Rightarrow> (Inl GenerationExhausted, j, counter) | Some (next_generation, counter) \<Rightarrow>
      let full = JournalFull (j_end j) (jc_max_journal_len (j_config j)) in
      if (case usize_checked_add (j_end j) RESET_MARKER_LEN of
            None \<Rightarrow> True | Some marker_end \<Rightarrow> marker_end > jc_max_journal_len (j_config j))
      then (Inl full, j, counter)
      else
        (case marker_new crc (of_nat (j_end j)) (id_bits sid) of
           None \<Rightarrow> (Inl Poisoned, j\<lparr>j_poisoned := True\<rparr>, counter)
         | Some marker \<Rightarrow>
             (case write_marker crc (j_end j) marker (j_file j) of
                (Inl e, f) \<Rightarrow> (case roll_back_or_poison crc j e f of (err, j) \<Rightarrow> (Inl err, j, counter))
              | (Inr _, f) \<Rightarrow>
                  (case finish_committed_reset crc f of
                     (Inl e, f) \<Rightarrow> (Inl (ResetIncomplete e), j\<lparr>j_file := f, j_poisoned := True\<rparr>, counter)
                   | (Inr _, f) \<Rightarrow>
                       (Inr (), j\<lparr>j_file := f, j_end := JOURNAL_HEADER_LEN, j_parts := [],
                          j_generation := next_generation, j_segment_id := None\<rparr>, counter))))))"

section \<open>Opening\<close>

definition map_scan_error :: "journal_scan_error \<Rightarrow> journal_error" where
  "map_scan_error e = (case e of ScanIo e \<Rightarrow> JIo e | PartLimitExceeded limit \<Rightarrow> TooManyParts limit)"

text \<open>\<open>PrefixReader\<close>: a source that ends before the file does.\<close>

definition prefix_read :: "u64 \<Rightarrow> reader \<Rightarrow> reader" where
  "prefix_read len file offset n =
     (case usize_checked_add (unat offset) n of
        None \<Rightarrow> Inl UnexpectedEof
      | Some e \<Rightarrow> if e > unat len then Inl UnexpectedEof else file offset n)"

definition prefix_byte_len :: "u64 \<Rightarrow> io_error + u64" where
  "prefix_byte_len len = Inr len"

interpretation prefix_reader: read_at "prefix_read n (slice_read data)" "take (unat n) data" for n data
proof (unfold_locales)
  fix offset :: u64 and k
  assume "length (take (unat n) data) < usize_limit"
  show "prefix_read n (slice_read data) offset k =
      (if unat offset + k \<le> length (take (unat n) data)
       then Inr (subslice (unat offset) (unat offset + k) (take (unat n) data)) else Inl UnexpectedEof)"
    using unat_less_64 [of n]
    by (auto simp: prefix_read_def slice_read_def usize_checked_add_def Let_def subslice_def take_drop min_def)
qed

text \<open>
  A committed reset is recognised by its marker at the end of the file, a header that is the previous
  header, the empty header or a torn rewrite between them, and a previous generation that scans clean.
\<close>

definition recover_committed_reset ::
  "(u8 list \<Rightarrow> u32) \<Rightarrow> journal_config \<Rightarrow> nat \<Rightarrow> journal_file \<Rightarrow> (journal_error + bool) \<times> journal_file" where
  "recover_committed_reset crc config file_len f =
     (if file_len < JOURNAL_HEADER_LEN + RESET_MARKER_LEN then (Inr False, f)
      else
        let marker_at = file_len - RESET_MARKER_LEN in
        case read_file f marker_at RESET_MARKER_LEN of Inl e \<Rightarrow> (Inl e, f) | Inr bytes \<Rightarrow>
        (case marker_decode crc bytes of None \<Rightarrow> (Inr False, f) | Some marker \<Rightarrow>
         if unat (rm_previous_len marker) \<noteq> marker_at
            \<or> unat (rm_previous_len marker) > jc_max_journal_len config
            \<or> isl (segment_id_new (sint (rm_previous_segment_id marker)))
         then (Inr False, f)
         else case expected_previous_header crc marker of None \<Rightarrow> (Inr False, f) | Some _ \<Rightarrow>
         (case read_file f 0 JOURNAL_HEADER_LEN of Inl e \<Rightarrow> (Inl e, f) | Inr header_bytes \<Rightarrow>
          if classify_header_transition crc marker header_bytes = None then (Inr False, f)
          else
            case scan_journal_streaming_strict_from crc
                   (prefix_read (rm_previous_len marker) (slice_read (jf_bytes f)))
                   (prefix_byte_len (rm_previous_len marker)) (of_nat JOURNAL_HEADER_LEN)
                   (jc_limits config) (jc_max_parts config) of
              Inl e \<Rightarrow> (Inl (map_scan_error e), f)
            | Inr scan \<Rightarrow>
                if sr_parts scan = [] \<or> sr_damages scan \<noteq> [] \<or> sr_valid_len scan \<noteq> unat (rm_previous_len marker)
                then (Inr False, f)
                else case finish_committed_reset crc f of
                       (Inl e, f) \<Rightarrow> (Inl (JIo e), f)
                     | (Inr _, f) \<Rightarrow> (Inr True, f))))"

text \<open>The canonical empty file.\<close>

definition init_empty :: "(u8 list \<Rightarrow> u32) \<Rightarrow> journal_file \<Rightarrow> io_result" where
  "init_empty crc f =
     io_then (write_header crc header_EMPTY f) (\<lambda>f. io_then (set_len JOURNAL_HEADER_LEN f) sync_data)"

text \<open>What \<open>open\<close> establishes from the bytes once no recovery is due: the identity and the parts.\<close>

definition inspect_journal ::
  "(u8 list \<Rightarrow> u32) \<Rightarrow> journal_config \<Rightarrow> nat \<Rightarrow> journal_file \<Rightarrow> journal_error + int option \<times> part_ref list" where
  "inspect_journal crc config file_len f =
     (if file_len < JOURNAL_HEADER_LEN then Inl (TornHeader file_len)
      else
        case read_file f 0 JOURNAL_HEADER_LEN of Inl e \<Rightarrow> Inl e | Inr header_bytes \<Rightarrow>
        (case header_decode crc header_bytes of
           Inl (UnsupportedMagic _) \<Rightarrow> Inl UnsupportedJournalFormat
         | Inl (UnsupportedVersion _) \<Rightarrow> Inl UnsupportedJournalFormat
         | Inl other \<Rightarrow> Inl (InvalidHeader other)
         | Inr header \<Rightarrow>
             let actual_body_len = file_len - JOURNAL_HEADER_LEN in
             if unat (jh_body_len header) \<noteq> actual_body_len
             then Inl (BodyLengthMismatch (unat (jh_body_len header)) actual_body_len)
             else
               case jh_state header of
                 Empty \<Rightarrow>
                   if actual_body_len \<noteq> 0 then Inl (EmptyWithFrames actual_body_len) else Inr (None, [])
               | Active bits \<Rightarrow>
                   (case segment_id_new (sint bits) of Inl e \<Rightarrow> Inl (InvalidSegmentId e) | Inr sid \<Rightarrow>
                    (case scan_journal_streaming_strict_from crc (slice_read (jf_bytes f)) (slice_byte_len (jf_bytes f))
                            (of_nat JOURNAL_HEADER_LEN) (jc_limits config) (jc_max_parts config) of
                       Inl e \<Rightarrow> Inl (map_scan_error e)
                     | Inr scan \<Rightarrow>
                         if sr_damages scan \<noteq> [] \<or> sr_valid_len scan \<noteq> file_len
                         then Inl (DamagedBody (sr_damages scan))
                         else if sr_parts scan = [] then Inl ActiveWithoutFirstFrame
                         else Inr (Some sid, sr_parts scan)))))"

text \<open>
  \<open>created\<close> tells whether the owner has just created the root file; the root directory is
  synchronised last, with the outcome \<open>root_sync\<close>.
\<close>

definition journal_open ::
  "(u8 list \<Rightarrow> u32) \<Rightarrow> journal_config \<Rightarrow> bool \<Rightarrow> layout_error + unit \<Rightarrow> nat \<Rightarrow> journal_file
   \<Rightarrow> (journal_error + journal) \<times> journal_file \<times> nat" where
  "journal_open crc config created root_sync counter f =
     (case validate_config config of Inl e \<Rightarrow> (Inl e, f, counter) | Inr _ \<Rightarrow>
      case (if created then init_empty crc f else (Inr (), f)) of
        (Inl e, f) \<Rightarrow> (Inl (JIo e), f, counter)
      | (Inr _, f) \<Rightarrow>
          let file_len = length (jf_bytes f) in
          if file_len > jc_max_journal_len config
          then (Inl (JournalTooLarge file_len (jc_max_journal_len config)), f, counter)
          else
            case recover_committed_reset crc config file_len f of
              (Inl e, f) \<Rightarrow> (Inl e, f, counter)
            | (Inr recovered, f) \<Rightarrow>
                let file_len = (if recovered then JOURNAL_HEADER_LEN else file_len) in
                case (if file_len = 0 then init_empty crc f else (Inr (), f)) of
                  (Inl e, f) \<Rightarrow> (Inl (JIo e), f, counter)
                | (Inr _, f) \<Rightarrow>
                    let file_len = (if file_len = 0 then JOURNAL_HEADER_LEN else file_len) in
                    case inspect_journal crc config file_len f of
                      Inl e \<Rightarrow> (Inl e, f, counter)
                    | Inr (sid, parts) \<Rightarrow>
                        (case root_sync of
                           Inl e \<Rightarrow> (Inl (JLayout e), f, counter)
                         | Inr _ \<Rightarrow>
                             (case next_journal_generation counter of
                                None \<Rightarrow> (Inl GenerationExhausted, f, counter)
                              | Some (generation, counter) \<Rightarrow>
                                  (Inr \<lparr>j_file = f, j_end = file_len, j_config = config,
                                        j_parts = map (\<lambda>raw. \<lparr>jp_raw = raw, jp_generation = generation\<rparr>) parts,
                                        j_generation = generation, j_segment_id = sid, j_poisoned = False\<rparr>,
                                   f, counter))))"

text \<open>Fresh generations; \<open>changed\<close> tells whether the identity of the file changed while it was read.\<close>

definition prepare_fresh_file :: "(u8 list \<Rightarrow> u32) \<Rightarrow> bool \<Rightarrow> journal_file \<Rightarrow> (journal_error + unit) \<times> journal_file" where
  "prepare_fresh_file crc changed f =
     (let len = length (jf_bytes f) in
      if len = 0 then
        (case init_empty crc f of (Inl e, f) \<Rightarrow> (Inl (JIo e), f) | (Inr _, f) \<Rightarrow> (Inr (), f))
      else if len \<noteq> JOURNAL_HEADER_LEN then (Inl (FreshGenerationInvalid len), f)
      else
        case read_file f 0 JOURNAL_HEADER_LEN of Inl e \<Rightarrow> (Inl e, f) | Inr encoded \<Rightarrow>
        if encoded \<noteq> header_encode crc header_EMPTY \<or> changed then (Inl (FreshGenerationInvalid len), f)
        else (case sync_data f of (Inl e, f) \<Rightarrow> (Inl (JIo e), f) | (Inr _, f) \<Rightarrow> (Inr (), f)))"

definition open_slot ::
  "(u8 list \<Rightarrow> u32) \<Rightarrow> journal_config \<Rightarrow> bool \<Rightarrow> nat \<Rightarrow> journal_file \<Rightarrow> (journal_error + journal) \<times> nat" where
  "open_slot crc config changed counter f =
     (case validate_config config of Inl e \<Rightarrow> (Inl e, counter) | Inr _ \<Rightarrow>
      let len = length (jf_bytes f) in
      if len \<noteq> JOURNAL_HEADER_LEN then (Inl (FreshGenerationInvalid len), counter)
      else
        case read_file f 0 JOURNAL_HEADER_LEN of Inl e \<Rightarrow> (Inl e, counter) | Inr encoded \<Rightarrow>
        if encoded \<noteq> header_encode crc header_EMPTY \<or> changed then (Inl (FreshGenerationInvalid len), counter)
        else
          (case next_journal_generation counter of
             None \<Rightarrow> (Inl GenerationExhausted, counter)
           | Some (generation, counter) \<Rightarrow>
               (Inr \<lparr>j_file = f, j_end = JOURNAL_HEADER_LEN, j_config = config, j_parts = [],
                     j_generation = generation, j_segment_id = None, j_poisoned = False\<rparr>, counter)))"

end
