(* ===== verification/Journal_Correct.thy ===== *)
theory Journal_Correct
  imports Journal
begin

text \<open>
  The journal keeps the list of parts it has accepted: appends, failed appends, resets, crashes of a
  reset and reopening, against the abstract journal of an identity and a list of parts.
\<close>

section \<open>Files\<close>

lemma overwrite_inside:
  "pos \<le> length b \<Longrightarrow> overwrite pos d b = take pos b @ d @ drop (pos + length d) b"
  by (simp add: overwrite_def)

lemma next_io_fields:
  "next_io f = (o1, f') \<Longrightarrow> jf_bytes f' = jf_bytes f \<and> jf_pos f' = jf_pos f \<and> jf_durable f' = jf_durable f"
  by (auto simp: next_io_def split: list.splits)

lemma next_io_quiet: "jf_plan f = [] \<Longrightarrow> next_io f = (IoOk, f)"
  by (simp add: next_io_def)

lemma file_seek_Inr: "file_seek pos f = (Inr u, f') \<Longrightarrow> jf_bytes f' = jf_bytes f \<and> jf_pos f' = pos"
  by (auto simp: file_seek_def dest!: next_io_fields split: prod.splits io_outcome.splits)

lemma file_seek_Inl: "file_seek pos f = (Inl e, f') \<Longrightarrow> jf_bytes f' = jf_bytes f"
  by (auto simp: file_seek_def dest!: next_io_fields split: prod.splits io_outcome.splits)

lemma write_some_bytes:
  "jf_pos f \<le> length (jf_bytes f) \<Longrightarrow>
     jf_bytes (write_some d f) = take (jf_pos f) (jf_bytes f) @ d @ drop (jf_pos f + length d) (jf_bytes f)
     \<and> jf_pos (write_some d f) = jf_pos f + length d"
  by (simp add: write_some_def overwrite_inside)

lemma write_all_Inr:
  assumes "write_all d f = (Inr u, f')" and "jf_pos f \<le> length (jf_bytes f)"
  shows "jf_bytes f' = take (jf_pos f) (jf_bytes f) @ d @ drop (jf_pos f + length d) (jf_bytes f)"
    and "jf_pos f' = jf_pos f + length d"
proof -
  obtain f1 where "next_io f = (IoOk, f1)" "f' = write_some d f1"
    using assms(1) by (auto simp: write_all_def split: prod.splits io_outcome.splits)
  then show "jf_bytes f' = take (jf_pos f) (jf_bytes f) @ d @ drop (jf_pos f + length d) (jf_bytes f)"
    "jf_pos f' = jf_pos f + length d"
    using next_io_fields [of f IoOk f1] write_some_bytes [of f1 d] assms(2) by simp_all
qed

lemma write_all_Inl:
  assumes "write_all d f = (Inl e, f')" and "jf_pos f \<le> length (jf_bytes f)"
  shows "\<exists>k. jf_bytes f' = take (jf_pos f) (jf_bytes f) @ take k d @ drop (jf_pos f + length (take k d)) (jf_bytes f)"
proof -
  obtain n f1 where "next_io f = (IoFail n e, f1)" "f' = write_some (take n d) f1"
    using assms(1) by (auto simp: write_all_def split: prod.splits io_outcome.splits)
  then show ?thesis
    using next_io_fields [of f "IoFail n e" f1] write_some_bytes [of f1 "take n d"] assms(2)
    by (intro exI [of _ n]) simp
qed

lemma set_len_Inr:
  "set_len n f = (Inr u, f') \<Longrightarrow> n \<le> length (jf_bytes f) \<Longrightarrow> jf_bytes f' = take n (jf_bytes f)"
  by (auto simp: set_len_def dest!: next_io_fields split: prod.splits io_outcome.splits)

lemma set_len_Inl: "set_len n f = (Inl e, f') \<Longrightarrow> jf_bytes f' = jf_bytes f"
  by (auto simp: set_len_def dest!: next_io_fields split: prod.splits io_outcome.splits)

lemma sync_Inr: "sync_data f = (Inr u, f') \<Longrightarrow> jf_bytes f' = jf_bytes f \<and> jf_durable f' = jf_bytes f"
  by (auto simp: sync_data_def dest!: next_io_fields split: prod.splits io_outcome.splits)

lemma sync_Inl: "sync_data f = (Inl e, f') \<Longrightarrow> jf_bytes f' = jf_bytes f"
  by (auto simp: sync_data_def dest!: next_io_fields split: prod.splits io_outcome.splits)

lemma io_then_Inr: "io_then r k = (Inr u, f') \<longleftrightarrow> (\<exists>v f. r = (Inr v, f) \<and> k f = (Inr u, f'))"
  by (auto simp: io_then_def split: prod.splits sum.splits)

lemma io_then_Inl:
  "io_then r k = (Inl e, f') \<longleftrightarrow> r = (Inl e, f') \<or> (\<exists>v f. r = (Inr v, f) \<and> k f = (Inl e, f'))"
  by (auto simp: io_then_def split: prod.splits sum.splits)

text \<open>With no fault in store nothing fails.\<close>

definition quiet :: "io_result \<Rightarrow> bool" where
  "quiet r \<longleftrightarrow> (case r of (Inl e, f) \<Rightarrow> False | (Inr _, f) \<Rightarrow> jf_plan f = [])"

lemma quiet_ops:
  "jf_plan f = [] \<Longrightarrow> quiet (file_seek pos f)" "jf_plan f = [] \<Longrightarrow> quiet (write_all d f)"
  "jf_plan f = [] \<Longrightarrow> quiet (set_len n f)" "jf_plan f = [] \<Longrightarrow> quiet (sync_data f)"
  by (simp_all add: quiet_def file_seek_def write_all_def set_len_def sync_data_def next_io_quiet write_some_def)

lemma quiet_cases: "quiet r \<Longrightarrow> \<exists>u f. r = (Inr u, f) \<and> jf_plan f = []"
  by (auto simp: quiet_def split: prod.splits sum.splits)

lemma quiet_then: "quiet r \<Longrightarrow> (\<And>f. jf_plan f = [] \<Longrightarrow> quiet (k f)) \<Longrightarrow> quiet (io_then r k)"
  using quiet_cases [of r] by (auto simp: io_then_def)

lemma quiet_write_header: "jf_plan f = [] \<Longrightarrow> quiet (write_header crc h f)"
  unfolding write_header_def by (intro quiet_then quiet_ops)

lemma quiet_rollback: "jf_plan f = [] \<Longrightarrow> quiet (rollback crc n h f)"
  unfolding rollback_def by (intro quiet_then quiet_ops quiet_write_header)

lemma quiet_append_writes: "jf_plan f = [] \<Longrightarrow> quiet (append_writes crc first at h fh part f)"
  unfolding append_writes_def write_frame_def
  by (cases first; simp; intro quiet_then quiet_ops quiet_write_header; assumption)

lemma quiet_finish: "jf_plan f = [] \<Longrightarrow> quiet (finish_committed_reset crc f)"
  unfolding finish_committed_reset_def by (intro quiet_then quiet_ops quiet_write_header)

lemma quiet_marker: "jf_plan f = [] \<Longrightarrow> quiet (write_marker crc n m f)"
  unfolding write_marker_def by (intro quiet_then quiet_ops)

section \<open>Composite writes\<close>

lemma write_header_Inr:
  assumes "write_header crc h f = (Inr u, f')"
  shows "jf_bytes f' = header_encode crc h @ drop 36 (jf_bytes f)"
  using assms by (auto simp: write_header_def io_then_Inr dest!: file_seek_Inr write_all_Inr(1))

lemma write_header_Inl:
  assumes "write_header crc h f = (Inl e, f')"
  shows "\<exists>k \<le> 36. jf_bytes f' = torn_rewrite k (header_encode crc h) (jf_bytes f)"
proof -
  consider "file_seek 0 f = (Inl e, f')"
    | f1 where "jf_bytes f1 = jf_bytes f" "jf_pos f1 = 0" "write_all (header_encode crc h) f1 = (Inl e, f')"
    using assms by (auto simp: write_header_def io_then_Inl dest: file_seek_Inr)
  then show ?thesis
  proof cases
    case 1
    then show ?thesis using file_seek_Inl by (intro exI [of _ 0]) (simp add: torn_rewrite_def)
  next
    case 2
    then obtain k where "jf_bytes f' = take k (header_encode crc h) @ drop (length (take k (header_encode crc h))) (jf_bytes f)"
      using write_all_Inl [OF 2(3)] by auto
    then show ?thesis
      by (intro exI [of _ "min 36 k"]) (simp add: torn_rewrite_def min_def)
  qed
qed

text \<open>A frame written at the end of the file leaves a prefix of it when it fails.\<close>

lemma write_frame_Inr:
  assumes "write_frame at hdr part f = (Inr u, f')" and "at = length (jf_bytes f)"
  shows "jf_bytes f' = jf_bytes f @ hdr @ part"
proof -
  obtain f1 f2 where f1: "jf_bytes f1 = jf_bytes f" "jf_pos f1 = at" "write_all hdr f1 = (Inr (), f2)"
    and f2: "write_all part f2 = (Inr u, f')"
    using assms(1) by (auto simp: write_frame_def io_then_Inr dest!: file_seek_Inr)
  have "jf_bytes f2 = jf_bytes f @ hdr" "jf_pos f2 = length (jf_bytes f @ hdr)"
    using write_all_Inr [OF f1(3)] f1 assms(2) by simp_all
  then show ?thesis using write_all_Inr [OF f2] by simp
qed

lemma write_frame_Inl:
  assumes "write_frame at hdr part f = (Inl e, f')" and "at = length (jf_bytes f)"
  shows "\<exists>tail. jf_bytes f' = jf_bytes f @ tail"
proof -
  consider "file_seek at f = (Inl e, f')"
    | f1 where "jf_bytes f1 = jf_bytes f" "jf_pos f1 = at" "write_all hdr f1 = (Inl e, f')"
    | f1 f2 where "jf_bytes f1 = jf_bytes f" "jf_pos f1 = at" "write_all hdr f1 = (Inr (), f2)" "write_all part f2 = (Inl e, f')"
    using assms(1) by (auto simp: write_frame_def io_then_Inl io_then_Inr dest: file_seek_Inr)
  then show ?thesis
  proof cases
    case 1
    then show ?thesis using file_seek_Inl by auto
  next
    case 2
    then show ?thesis using write_all_Inl [OF 2(3)] assms(2) by auto
  next
    case 3
    have "jf_bytes f2 = jf_bytes f @ hdr" "jf_pos f2 = length (jf_bytes f @ hdr)"
      using write_all_Inr [OF 3(3)] 3(1,2) assms(2) by simp_all
    then show ?thesis using write_all_Inl [OF 3(4)] by auto
  qed
qed

lemma rollback_Inr:
  assumes "rollback crc n h f = (Inr u, f')" and "n \<le> length (jf_bytes f)" and "36 \<le> n"
  shows "jf_bytes f' = header_encode crc h @ drop 36 (take n (jf_bytes f)) \<and> jf_durable f' = jf_bytes f'"
  using assms by (auto simp: rollback_def io_then_Inr dest!: set_len_Inr write_header_Inr sync_Inr)

section \<open>The journal and its parts\<close>

definition header_for :: "(u8 list \<Rightarrow> u32) \<Rightarrow> int option \<Rightarrow> u8 list list \<Rightarrow> journal_header" where
  "header_for crc sid ps =
     \<lparr>jh_state = (case sid of None \<Rightarrow> Empty | Some s \<Rightarrow> Active (id_bits s)),
      jh_body_len = of_nat (length (frames_of crc ps))\<rparr>"

definition journal_bytes :: "(u8 list \<Rightarrow> u32) \<Rightarrow> int option \<Rightarrow> u8 list list \<Rightarrow> u8 list" where
  "journal_bytes crc sid ps = header_encode crc (header_for crc sid ps) @ frames_of crc ps"

text \<open>An identity and a list of parts that a journal with this configuration can hold.\<close>

definition holdable :: "(u8 list \<Rightarrow> u32) \<Rightarrow> journal_config \<Rightarrow> int option \<Rightarrow> u8 list list \<Rightarrow> bool" where
  "holdable crc config sid ps \<longleftrightarrow>
     validate_config config = Inr () \<and> (sid = None \<longleftrightarrow> ps = [])
     \<and> (case sid of None \<Rightarrow> True | Some s \<Rightarrow> segment_id_new s = Inr s)
     \<and> (\<forall>p \<in> set ps. part_ok crc (jc_limits config) p) \<and> length ps \<le> jc_max_parts config
     \<and> 36 + length (frames_of crc ps) \<le> jc_max_journal_len config"

definition journal_holds :: "(u8 list \<Rightarrow> u32) \<Rightarrow> int option \<Rightarrow> u8 list list \<Rightarrow> journal \<Rightarrow> bool" where
  "journal_holds crc sid ps j \<longleftrightarrow>
     holdable crc (j_config j) sid ps \<and> \<not> j_poisoned j \<and> jf_bytes (j_file j) = journal_bytes crc sid ps
     \<and> j_end j = 36 + length (frames_of crc ps) \<and> j_segment_id j = sid
     \<and> j_parts j = map (\<lambda>r. \<lparr>jp_raw = r, jp_generation = j_generation j\<rparr>) (refs_from 36 ps)"

lemma holdable_small:
  assumes "holdable crc config sid ps"
  shows "36 + length (frames_of crc ps) \<le> 1073741824"
  using assms by (auto simp: holdable_def validate_config_def MAX_JOURNAL_LEN_def split: if_splits)

lemma length_journal_bytes [simp]: "length (journal_bytes crc sid ps) = 36 + length (frames_of crc ps)"
  by (simp add: journal_bytes_def)

lemma refs_from_Nil [simp]: "refs_from pos ps = [] \<longleftrightarrow> ps = []"
  by (cases ps) simp_all

lemma holds_header:
  assumes "journal_holds crc sid ps j"
  shows "current_header j = header_for crc sid ps"
  using assms by (simp add: journal_holds_def current_header_def header_for_def JOURNAL_HEADER_LEN_def)

lemma header_rewritten: "header_encode crc h @ drop 36 (journal_bytes crc sid ps) = header_encode crc h @ frames_of crc ps"
  by (simp add: journal_bytes_def)

text \<open>Only the file of a healthy journal matters for what it holds.\<close>

lemma holds_file:
  "journal_holds crc sid ps j \<Longrightarrow> jf_bytes f = journal_bytes crc sid ps \<Longrightarrow> journal_holds crc sid ps (j\<lparr>j_file := f\<rparr>)"
  by (simp add: journal_holds_def)

text \<open>Rolling back from a file that kept the old frames in place.\<close>

lemma roll_back_holds:
  assumes j: "journal_holds crc sid ps j"
    and f: "36 \<le> length (jf_bytes f)" "take (length (frames_of crc ps)) (drop 36 (jf_bytes f)) = frames_of crc ps"
    and run: "roll_back_or_poison crc j e f = (err, j')"
  shows "(err = JIo e \<and> journal_holds crc sid ps j' \<and> jf_durable (j_file j') = jf_bytes (j_file j')
           \<and> j' = j\<lparr>j_file := j_file j'\<rparr>)
    \<or> ((\<exists>rb. err = RollbackFailed e rb) \<and> j_poisoned j')"
proof (cases "rollback crc (j_end j) (current_header j) f")
  case (Pair r f')
  show ?thesis
  proof (cases r)
    case (Inl rb)
    then show ?thesis using run Pair by (auto simp: roll_back_or_poison_def)
  next
    case (Inr u)
    let ?n = "length (frames_of crc ps)"
    have end_at: "j_end j = 36 + ?n" using j by (simp add: journal_holds_def)
    have "length (take ?n (drop 36 (jf_bytes f))) = ?n" using f(2) by simp
    then have len: "36 + ?n \<le> length (jf_bytes f)" using f(1) by (simp add: min_def split: if_splits)
    have "jf_bytes f' = header_encode crc (current_header j) @ drop 36 (take (36 + ?n) (jf_bytes f))"
      and dur: "jf_durable f' = jf_bytes f'"
      using rollback_Inr [of crc "36 + ?n" "current_header j" f u f'] Pair Inr len end_at by simp_all
    moreover have "drop 36 (take (36 + ?n) (jf_bytes f)) = frames_of crc ps"
      using f(2) by (simp add: drop_take)
    ultimately have "jf_bytes f' = journal_bytes crc sid ps"
      by (simp add: journal_bytes_def holds_header [OF j])
    then have "journal_holds crc sid ps (j\<lparr>j_file := f'\<rparr>)" by (rule holds_file [OF j])
    then show ?thesis using run Pair Inr dur by (auto simp: roll_back_or_poison_def)
  qed
qed

section \<open>Append\<close>

lemma append_admission_iff:
  assumes j: "journal_holds crc sid ps j"
  shows "append_admission crc j s part = Inr n \<longleftrightarrow>
    (sid = None \<or> sid = Some s) \<and> part_ok crc (jc_limits (j_config j)) part \<and> length ps < jc_max_parts (j_config j)
    \<and> 36 + length (frames_of crc ps) + 16 + length part + 32 \<le> jc_max_journal_len (j_config j)
    \<and> n = 36 + length (frames_of crc ps) + 16 + length part"
proof -
  have max: "jc_max_journal_len (j_config j) \<le> 1073741824"
    using j by (auto simp: journal_holds_def holdable_def validate_config_def MAX_JOURNAL_LEN_def split: if_splits)
  have parts: "length (j_parts j) = length ps" "\<not> j_poisoned j" "j_segment_id j = sid" "j_end j = 36 + length (frames_of crc ps)"
    using j by (simp_all add: journal_holds_def)
  have ok: "part_ok crc (jc_limits (j_config j)) part \<longleftrightarrow>
      \<not> length part > unat (jl_max_part_len (jc_limits (j_config j))) \<and> (\<exists>c. validate_part crc part = Inr c)"
    by (auto simp: part_ok_def)
  show ?thesis
    unfolding append_admission_def ok
    using max by (cases sid) (auto simp: parts ensure_healthy_def usize_checked_add_def Let_def frame_lens split: sum.splits option.splits if_splits)
qed

text \<open>The frames of a journal are in place behind any 36 bytes.\<close>

definition frames_kept :: "u8 list \<Rightarrow> u8 list \<Rightarrow> bool" where
  "frames_kept frames bytes \<longleftrightarrow> 36 \<le> length bytes \<and> take (length frames) (drop 36 bytes) = frames"

lemma frames_kept_append: "length h = 36 \<Longrightarrow> frames_kept frames (h @ frames @ tail)"
  by (simp add: frames_kept_def)

lemma frames_kept_torn:
  assumes "length h = 36" and "k \<le> 36" and "length h' = 36"
  shows "frames_kept frames (torn_rewrite k h (h' @ frames @ tail))"
proof -
  have "length (take k h @ drop k h') = 36" using assms by simp
  moreover have "torn_rewrite k h (h' @ frames @ tail) = (take k h @ drop k h') @ frames @ tail"
    using assms by (simp add: torn_rewrite_def)
  ultimately show ?thesis by (simp only: frames_kept_append)
qed

lemma append_writes_effect:
  assumes "jf_bytes f = header_encode crc h0 @ frames" and "at = length (jf_bytes f)" and "first \<longleftrightarrow> frames = []"
  shows "append_writes crc first at h fh part f = (Inr u, f') \<Longrightarrow>
      jf_bytes f' = header_encode crc h @ frames @ fh @ part \<and> jf_durable f' = jf_bytes f'"
    and "append_writes crc first at h fh part f = (Inl e, f') \<Longrightarrow> frames_kept frames (jf_bytes f')"
proof -
  let ?H = "header_encode crc h" and ?Old = "header_encode crc h0"
  show "jf_bytes f' = ?H @ frames @ fh @ part \<and> jf_durable f' = jf_bytes f'"
    if run: "append_writes crc first at h fh part f = (Inr u, f')"
  proof (cases first)
    case True
    then obtain f1 f2 where f1: "write_header crc h f = (Inr (), f1)" and f2: "write_frame at fh part f1 = (Inr (), f2)"
      and f3: "sync_data f2 = (Inr u, f')"
      using run by (auto simp: append_writes_def io_then_Inr)
    have "jf_bytes f1 = ?H" "frames = []" using write_header_Inr [OF f1] assms True by auto
    moreover from this have "at = length (jf_bytes f1)" using assms(1,2) by simp
    ultimately have "jf_bytes f2 = ?H @ fh @ part"
      using write_frame_Inr [OF f2] by simp
    then show ?thesis using sync_Inr [OF f3] \<open>frames = []\<close> by simp
  next
    case False
    then obtain f1 f2 where f1: "write_frame at fh part f = (Inr (), f1)" and f2: "write_header crc h f1 = (Inr (), f2)"
      and f3: "sync_data f2 = (Inr u, f')"
      using run by (auto simp: append_writes_def io_then_Inr)
    have "jf_bytes f1 = ?Old @ frames @ fh @ part" using write_frame_Inr [OF f1 assms(2)] assms(1) by simp
    then have "jf_bytes f2 = ?H @ frames @ fh @ part" using write_header_Inr [OF f2] by simp
    then show ?thesis using sync_Inr [OF f3] by simp
  qed
  show "frames_kept frames (jf_bytes f')" if run: "append_writes crc first at h fh part f = (Inl e, f')"
  proof (cases first)
    case True
    then have frames: "frames = []" using assms(3) by simp
    consider "write_header crc h f = (Inl e, f')"
      | f1 where "write_header crc h f = (Inr (), f1)" "write_frame at fh part f1 = (Inl e, f')"
      | f1 f2 where "write_header crc h f = (Inr (), f1)" "write_frame at fh part f1 = (Inr (), f2)" "sync_data f2 = (Inl e, f')"
      using run True by (auto simp: append_writes_def io_then_Inl io_then_Inr)
    then show ?thesis
    proof cases
      case 1
      then obtain k where "k \<le> 36" "jf_bytes f' = torn_rewrite k ?H ?Old"
        using write_header_Inl [OF 1] assms(1) frames by auto
      then show ?thesis by (simp add: frames_kept_def frames torn_rewrite_def)
    next
      case 2
      have "jf_bytes f1 = ?H" using write_header_Inr [OF 2(1)] assms(1) frames by simp
      moreover from this have "at = length (jf_bytes f1)" using assms(1,2) frames by simp
      ultimately show ?thesis using write_frame_Inl [OF 2(2)] frames by (auto simp: frames_kept_def)
    next
      case 3
      have "jf_bytes f1 = ?H" using write_header_Inr [OF 3(1)] assms(1) frames by simp
      moreover from this have "at = length (jf_bytes f1)" using assms(1,2) frames by simp
      ultimately have "jf_bytes f2 = ?H @ fh @ part" using write_frame_Inr [OF 3(2)] by simp
      then show ?thesis using sync_Inl [OF 3(3)] by (simp add: frames_kept_def frames)
    qed
  next
    case False
    consider "write_frame at fh part f = (Inl e, f')"
      | f1 where "write_frame at fh part f = (Inr (), f1)" "write_header crc h f1 = (Inl e, f')"
      | f1 f2 where "write_frame at fh part f = (Inr (), f1)" "write_header crc h f1 = (Inr (), f2)" "sync_data f2 = (Inl e, f')"
      using run False by (auto simp: append_writes_def io_then_Inl io_then_Inr)
    then show ?thesis
    proof cases
      case 1
      then obtain tail where "jf_bytes f' = ?Old @ frames @ tail"
        using write_frame_Inl [OF 1 assms(2)] assms(1) by auto
      then show ?thesis by (simp add: frames_kept_append)
    next
      case 2
      have f1: "jf_bytes f1 = ?Old @ frames @ fh @ part" using write_frame_Inr [OF 2(1) assms(2)] assms(1) by simp
      then obtain k where "k \<le> 36" "jf_bytes f' = torn_rewrite k ?H (?Old @ frames @ fh @ part)"
        using write_header_Inl [OF 2(2)] by auto
      then show ?thesis by (simp add: frames_kept_torn)
    next
      case 3
      have "jf_bytes f1 = ?Old @ frames @ fh @ part" using write_frame_Inr [OF 3(1) assms(2)] assms(1) by simp
      then have "jf_bytes f2 = ?H @ frames @ fh @ part" using write_header_Inr [OF 3(2)] by simp
      then show ?thesis using sync_Inl [OF 3(3)] by (simp add: frames_kept_append)
    qed
  qed
qed

lemma refs_from_snoc:
  "refs_from 36 (ps @ [p]) = refs_from 36 ps @ [\<lparr>pr_offset = 36 + length (frames_of crc ps) + 16, pr_len = length p\<rparr>]"
  using refs_from_append [of 36 ps "[p]" crc] by (simp add: FRAME_HEADER_LEN_def)

lemma append_effect:
  assumes j: "journal_holds crc sid ps j" and s: "segment_id_new s = Inr s"
    and run: "journal_append crc s part j = (r, j')"
  shows "case r of
      Inr ref \<Rightarrow> append_admission crc j s part = Inr (j_end j') \<and> journal_holds crc (Some s) (ps @ [part]) j'
        \<and> jf_durable (j_file j') = jf_bytes (j_file j')
        \<and> ref = \<lparr>jp_raw = \<lparr>pr_offset = j_end j + 16, pr_len = length part\<rparr>, jp_generation = j_generation j\<rparr>
        \<and> j_generation j' = j_generation j
    | Inl e \<Rightarrow> (journal_holds crc sid ps j' \<and> j' = j\<lparr>j_file := j_file j'\<rparr>
          \<and> (append_admission crc j s part = Inl e \<and> j' = j \<or> (\<exists>io. e = JIo io)))
        \<or> ((\<exists>io rb. e = RollbackFailed io rb) \<and> j_poisoned j')"
proof (cases "append_admission crc j s part")
  case (Inl e)
  then show ?thesis using run j by (auto simp: journal_append_def)
next
  case (Inr n)
  have adm: "sid = None \<or> sid = Some s" "part_ok crc (jc_limits (j_config j)) part" "length ps < jc_max_parts (j_config j)"
    "36 + length (frames_of crc ps) + 16 + length part + 32 \<le> jc_max_journal_len (j_config j)"
    "n = 36 + length (frames_of crc ps) + 16 + length part"
    using Inr append_admission_iff [OF j] by simp_all
  let ?fh = "frame_encode crc \<lparr>fh_part_len = of_nat (length part)\<rparr>"
  let ?h = "header_for crc (Some s) (ps @ [part])"
  have h: "\<lparr>jh_state = Active (id_bits s), jh_body_len = of_nat (n - JOURNAL_HEADER_LEN)\<rparr> = ?h"
    using adm(5) by (simp add: header_for_def JOURNAL_HEADER_LEN_def)
  have bytes: "jf_bytes (j_file j) = header_encode crc (header_for crc sid ps) @ frames_of crc ps"
    and at: "j_end j = length (jf_bytes (j_file j))"
    and first: "j_parts j = [] \<longleftrightarrow> frames_of crc ps = []"
    and parts: "j_parts j = map (\<lambda>r. \<lparr>jp_raw = r, jp_generation = j_generation j\<rparr>) (refs_from 36 ps)"
  proof -
    show "j_parts j = [] \<longleftrightarrow> frames_of crc ps = []"
      using j by (cases ps) (auto simp: journal_holds_def frame_bytes_def dest: arg_cong [of _ _ length])
  qed (use j in \<open>simp_all add: journal_holds_def journal_bytes_def\<close>)
  note effect = append_writes_effect [OF bytes at first, of ?h ?fh part]
  show ?thesis
  proof (cases "append_writes crc (j_parts j = []) (j_end j) ?h ?fh part (j_file j)")
    case (Pair w f)
    show ?thesis
    proof (cases w)
      case (Inl io)
      have "frames_kept (frames_of crc ps) (jf_bytes f)" using effect(2) Pair Inl by simp
      then have kept: "36 \<le> length (jf_bytes f)" "take (length (frames_of crc ps)) (drop 36 (jf_bytes f)) = frames_of crc ps"
        by (simp_all add: frames_kept_def)
      obtain err j1 where rb: "roll_back_or_poison crc j io f = (err, j1)" by (cases "roll_back_or_poison crc j io f")
      then have "r = Inl err" "j' = j1"
        using run Inr Pair Inl by (simp_all add: journal_append_def Let_def h)
      then show ?thesis using roll_back_holds [OF j kept rb] by auto
    next
      case w: (Inr u)
      have f: "jf_bytes f = header_encode crc ?h @ frames_of crc ps @ ?fh @ part" "jf_durable f = jf_bytes f"
        using effect(1) Pair w by simp_all
      let ?ref = "\<lparr>jp_raw = \<lparr>pr_offset = j_end j + 16, pr_len = length part\<rparr>, jp_generation = j_generation j\<rparr>"
      have r: "r = Inr ?ref" "j' = j\<lparr>j_file := f, j_end := n, j_parts := j_parts j @ [?ref], j_segment_id := Some s\<rparr>"
        using run Inr Pair w by (simp_all add: journal_append_def Let_def h FRAME_HEADER_LEN_def)
      have "holdable crc (j_config j) (Some s) (ps @ [part])"
        using j adm s by (auto simp: journal_holds_def holdable_def)
      moreover have "jf_bytes f = journal_bytes crc (Some s) (ps @ [part])"
        using f(1) by (simp add: journal_bytes_def frame_bytes_def)
      moreover have "j_parts j @ [?ref] = map (\<lambda>r. \<lparr>jp_raw = r, jp_generation = j_generation j\<rparr>) (refs_from 36 (ps @ [part]))"
        using parts j by (simp add: refs_from_snoc [of ps part crc] journal_holds_def)
      ultimately have "journal_holds crc (Some s) (ps @ [part]) j'"
        using j adm(5) by (simp add: journal_holds_def r(2))
      then show ?thesis using r f(2) Inr by simp
    qed
  qed
qed

section \<open>Part references\<close>

definition offset_at :: "journal_part_ref list \<Rightarrow> nat \<Rightarrow> nat" where
  "offset_at parts i = pr_offset (jp_raw (parts ! i))"

lemma search_offset_Some:
  "search_offset parts key lo hi = Some i \<Longrightarrow> lo \<le> i \<and> i < hi \<and> offset_at parts i = key"
proof (induction parts key lo hi rule: search_offset.induct)
  case (1 parts key lo hi)
  let ?mid = "lo + (hi - lo) div 2"
  show ?case
  proof (cases "lo < hi")
    case True
    then have mid: "lo \<le> ?mid" "?mid < hi" by simp_all
    consider (here) "offset_at parts ?mid = key" | (above) "offset_at parts ?mid < key" | (below) "key < offset_at parts ?mid" by linarith
    then show ?thesis
    proof cases
      case here
      then show ?thesis using "1.prems" mid True
        by (subst (asm) search_offset.simps) (simp add: offset_at_def Let_def)
    next
      case above
      then have "search_offset parts key (?mid + 1) hi = Some i"
        using "1.prems" True by (subst (asm) search_offset.simps) (simp add: offset_at_def Let_def)
      then show ?thesis using "1.IH"(1) [OF True refl refl] above mid by (fastforce simp: offset_at_def)
    next
      case below
      then have "search_offset parts key lo ?mid = Some i"
        using "1.prems" True by (subst (asm) search_offset.simps) (simp add: offset_at_def Let_def)
      then show ?thesis using "1.IH"(2) [OF True refl refl] below mid by (fastforce simp: offset_at_def)
    qed
  next
    case False
    then show ?thesis using "1.prems" by (subst (asm) search_offset.simps) simp
  qed
qed

lemma search_offset_finds:
  assumes "\<And>a b. a < b \<Longrightarrow> b < n \<Longrightarrow> offset_at parts a < offset_at parts b"
  shows "lo \<le> i \<Longrightarrow> i < hi \<Longrightarrow> hi \<le> n \<Longrightarrow> search_offset parts (offset_at parts i) lo hi = Some i"
proof (induction "hi - lo" arbitrary: lo hi rule: less_induct)
  case less
  let ?mid = "lo + (hi - lo) div 2"
  have lt: "lo < hi" using less.prems by simp
  then have mid: "lo \<le> ?mid" "?mid < hi" by simp_all
  consider "i = ?mid" | "?mid < i" | "i < ?mid" by linarith
  then show ?case
  proof cases
    case 1
    then show ?thesis using lt by (subst search_offset.simps) (simp add: offset_at_def Let_def)
  next
    case 2
    then have "offset_at parts ?mid < offset_at parts i" using assms less.prems by simp
    moreover have "search_offset parts (offset_at parts i) (?mid + 1) hi = Some i"
      using less.hyps [of hi "?mid + 1"] 2 less.prems mid by simp
    ultimately show ?thesis using lt by (subst search_offset.simps) (simp add: offset_at_def Let_def)
  next
    case 3
    then have "offset_at parts i < offset_at parts ?mid" using assms less.prems mid by simp
    moreover have "search_offset parts (offset_at parts i) lo ?mid = Some i"
      using less.hyps [of ?mid lo] 3 less.prems mid by simp
    ultimately show ?thesis using lt by (subst search_offset.simps) (simp add: offset_at_def Let_def)
  qed
qed

text \<open>The references of consecutive frames.\<close>

lemma refs_from_bounds:
  "i < length ps \<Longrightarrow> pos + 16 \<le> pr_offset (refs_from pos ps ! i)
     \<and> pr_offset (refs_from pos ps ! i) + pr_len (refs_from pos ps ! i) \<le> pos + length (frames_of crc ps)"
proof (induction ps arbitrary: pos i)
  case (Cons p ps)
  then show ?case
    by (cases i) (auto simp: FRAME_HEADER_LEN_def add.assoc dest!: Cons.IH [where pos = "pos + (16 + length p)"])
qed simp

lemma refs_from_increasing:
  "a < b \<Longrightarrow> b < length ps \<Longrightarrow> pr_offset (refs_from pos ps ! a) < pr_offset (refs_from pos ps ! b)"
proof (induction ps arbitrary: pos a b)
  case (Cons p ps)
  obtain b' where b: "b = Suc b'" "b' < length ps" using Cons.prems by (cases b) auto
  show ?case
  proof (cases a)
    case 0
    then show ?thesis
      using b refs_from_bounds [of b' ps "pos + 16 + length p" "\<lambda>_. 0"] by (simp add: FRAME_HEADER_LEN_def)
  next
    case (Suc a')
    then show ?thesis using Cons b by (simp add: FRAME_HEADER_LEN_def)
  qed
qed simp

lemma refs_from_slice:
  "i < length ps \<Longrightarrow> length pre = pos \<Longrightarrow>
     subslice (pr_offset (refs_from pos ps ! i)) (pr_offset (refs_from pos ps ! i) + pr_len (refs_from pos ps ! i))
       (pre @ frames_of crc ps) = ps ! i"
proof (induction ps arbitrary: pos pre i)
  case (Cons p ps)
  show ?case
  proof (cases i)
    case 0
    then show ?thesis using Cons.prems
      by (simp add: FRAME_HEADER_LEN_def subslice_def frame_bytes_def)
  next
    case (Suc i')
    then show ?thesis
      using Cons.IH [of i' "pre @ frame_bytes crc p" "pos + 16 + length p"] Cons.prems
      by (simp add: FRAME_HEADER_LEN_def add.assoc)
  qed
qed simp

lemma refs_from_len: "i < length ps \<Longrightarrow> pr_len (refs_from pos ps ! i) = length (ps ! i)"
  by (induction ps arbitrary: pos i) (auto simp: nth_Cons' less_Suc_eq_0_disj)

lemma check_part_ref_iff:
  assumes j: "journal_holds crc sid ps j"
  shows "check_part_ref j r = Inr () \<longleftrightarrow>
    (\<exists>i < length ps. r = \<lparr>jp_raw = refs_from 36 ps ! i, jp_generation = j_generation j\<rparr>)"
proof -
  let ?parts = "map (\<lambda>r. \<lparr>jp_raw = r, jp_generation = j_generation j\<rparr>) (refs_from 36 ps)"
  have p: "j_parts j = ?parts" "length (j_parts j) = length ps" "\<not> j_poisoned j" "j_end j = 36 + length (frames_of crc ps)"
    using j by (simp_all add: journal_holds_def)
  have off: "offset_at (j_parts j) i = pr_offset (refs_from 36 ps ! i)" if "i < length ps" for i
    using that by (simp add: p(1) offset_at_def)
  have inc: "offset_at (j_parts j) a < offset_at (j_parts j) b" if "a < b" "b < length ps" for a b
    using that off [of a] off [of b] refs_from_increasing by simp
  have small: "36 + length (frames_of crc ps) < usize_limit"
    using holdable_small [of crc "j_config j" sid ps] j by (simp add: journal_holds_def)
  show ?thesis
  proof
    assume c: "check_part_ref j r = Inr ()"
    then obtain i where "search_offset (j_parts j) (pr_offset (jp_raw r)) 0 (length (j_parts j)) = Some i" "j_parts j ! i = r"
      by (auto simp: check_part_ref_def Let_def ensure_healthy_def p split: if_splits option.splits)
    then show "\<exists>i < length ps. r = \<lparr>jp_raw = refs_from 36 ps ! i, jp_generation = j_generation j\<rparr>"
      using search_offset_Some p by (fastforce intro!: exI [of _ i])
  next
    assume "\<exists>i < length ps. r = \<lparr>jp_raw = refs_from 36 ps ! i, jp_generation = j_generation j\<rparr>"
    then obtain i where i: "i < length ps" "r = \<lparr>jp_raw = refs_from 36 ps ! i, jp_generation = j_generation j\<rparr>" by blast
    have "search_offset (j_parts j) (pr_offset (refs_from 36 ps ! i)) 0 (length (j_parts j)) = Some i"
      using search_offset_finds [of "length ps" "j_parts j" 0 i "length ps"] inc i(1) off [OF i(1)] p(2) by simp
    moreover have "52 \<le> pr_offset (refs_from 36 ps ! i)"
      "pr_offset (refs_from 36 ps ! i) + pr_len (refs_from 36 ps ! i) \<le> 36 + length (frames_of crc ps)"
      using refs_from_bounds [OF i(1), of 36 crc] by simp_all
    ultimately show "check_part_ref j r = Inr ()"
      using i p small
      by (simp add: check_part_ref_def Let_def ensure_healthy_def usize_checked_add_def frame_lens)
  qed
qed

lemma read_file_slice:
  "at + n \<le> length (jf_bytes f) \<Longrightarrow> length (jf_bytes f) < usize_limit \<Longrightarrow>
     read_file f at n = Inr (subslice at (at + n) (jf_bytes f))"
  using slice_reader.read_in_range [of "jf_bytes f" at n] by (simp add: read_file_def)

lemma read_part_index:
  assumes j: "journal_holds crc sid ps j" and i: "i < length ps"
  shows "read_part j \<lparr>jp_raw = refs_from 36 ps ! i, jp_generation = j_generation j\<rparr> = Inr (ps ! i)"
proof -
  let ?r = "refs_from 36 ps ! i"
  have b: "jf_bytes (j_file j) = header_encode crc (header_for crc sid ps) @ frames_of crc ps"
    using j by (simp add: journal_holds_def journal_bytes_def)
  have "pr_offset ?r + pr_len ?r \<le> length (jf_bytes (j_file j))"
    using refs_from_bounds [OF i, of 36 crc] b by simp
  moreover have "length (jf_bytes (j_file j)) < usize_limit"
    using holdable_small [of crc "j_config j" sid ps] j b by (simp add: journal_holds_def)
  ultimately have "read_file (j_file j) (pr_offset ?r) (pr_len ?r) = Inr (ps ! i)"
    using refs_from_slice [OF i, of "header_encode crc (header_for crc sid ps)" 36 crc] b
    by (simp add: read_file_slice)
  moreover have "check_part_ref j \<lparr>jp_raw = ?r, jp_generation = j_generation j\<rparr> = Inr ()"
    using check_part_ref_iff [OF j] i by blast
  ultimately show ?thesis by (simp add: read_part_def)
qed

lemma read_part_iff:
  assumes j: "journal_holds crc sid ps j"
  shows "read_part j r = Inr b \<longleftrightarrow>
    (\<exists>i < length ps. r = \<lparr>jp_raw = refs_from 36 ps ! i, jp_generation = j_generation j\<rparr> \<and> b = ps ! i)"
proof
  assume run: "read_part j r = Inr b"
  then have "check_part_ref j r = Inr ()" by (simp add: read_part_def split: sum.splits)
  then obtain i where i: "i < length ps" "r = \<lparr>jp_raw = refs_from 36 ps ! i, jp_generation = j_generation j\<rparr>"
    using check_part_ref_iff [OF j] by blast
  then have "b = ps ! i" using run read_part_index [OF j i(1)] by simp
  then show "\<exists>i < length ps. r = \<lparr>jp_raw = refs_from 36 ps ! i, jp_generation = j_generation j\<rparr> \<and> b = ps ! i"
    using i by blast
qed (use read_part_index [OF j] in blast)

lemma read_part_range_index:
  assumes j: "journal_holds crc sid ps j" and i: "i < length ps"
  defines "r \<equiv> \<lparr>jp_raw = refs_from 36 ps ! i, jp_generation = j_generation j\<rparr>"
  shows "read_part_range j r offset len =
    (if offset + len \<le> length (ps ! i) then Inr (subslice offset (offset + len) (ps ! i))
     else Inl (StalePartRef offset len))"
proof -
  let ?r = "refs_from 36 ps ! i" and ?bytes = "jf_bytes (j_file j)"
  have ok: "check_part_ref j r = Inr ()" using check_part_ref_iff [OF j] i r_def by blast
  have b: "?bytes = header_encode crc (header_for crc sid ps) @ frames_of crc ps"
    using j by (simp add: journal_holds_def journal_bytes_def)
  have bound: "pr_offset ?r + pr_len ?r \<le> length ?bytes" "pr_len ?r = length (ps ! i)"
    using refs_from_bounds [OF i, of 36 crc] b refs_from_len [OF i] by simp_all
  have small: "length ?bytes \<le> 1073741824"
    using holdable_small [of crc "j_config j" sid ps] j b by (simp add: journal_holds_def)
  show ?thesis
  proof (cases "offset + len \<le> length (ps ! i)")
    case True
    then have "read_file (j_file j) (pr_offset ?r + offset) len
        = Inr (subslice (pr_offset ?r + offset) (pr_offset ?r + offset + len) ?bytes)"
      using bound small by (simp add: read_file_slice)
    also have "subslice (pr_offset ?r + offset) (pr_offset ?r + offset + len) ?bytes
        = subslice offset (offset + len) (subslice (pr_offset ?r) (pr_offset ?r + pr_len ?r) ?bytes)"
      using True bound by (simp add: slice_slice add.assoc)
    also have "subslice (pr_offset ?r) (pr_offset ?r + pr_len ?r) ?bytes = ps ! i"
      using refs_from_slice [OF i, of "header_encode crc (header_for crc sid ps)" 36 crc] b by simp
    finally show ?thesis
      using True ok bound small by (simp add: read_part_range_def usize_checked_add_def r_def)
  next
    case False
    then show ?thesis using ok bound by (simp add: read_part_range_def usize_checked_add_def r_def)
  qed
qed

section \<open>The append contract\<close>

text \<open>
  What a journal promises about its next part: the identity agrees, the part is valid and within its
  limit, a slot is left, and the grown file leaves room for the reset marker.
\<close>

definition can_append :: "(u8 list \<Rightarrow> u32) \<Rightarrow> journal_config \<Rightarrow> int option \<Rightarrow> u8 list list \<Rightarrow> int \<Rightarrow> u8 list \<Rightarrow> bool" where
  "can_append crc config sid ps s part \<longleftrightarrow>
     (sid = None \<or> sid = Some s) \<and> part_ok crc (jc_limits config) part \<and> length ps < jc_max_parts config
     \<and> 36 + length (frames_of crc ps) + 16 + length part + 32 \<le> jc_max_journal_len config"

lemma admission_can_append:
  "journal_holds crc sid ps j \<Longrightarrow>
     (\<exists>n. append_admission crc j s part = Inr n) \<longleftrightarrow> can_append crc (j_config j) sid ps s part"
  by (simp add: append_admission_iff can_append_def)

text \<open>Without faults an admitted part is stored.\<close>

lemma append_quiet:
  assumes "jf_plan (j_file j) = []" and "append_admission crc j s part = Inr n"
  shows "\<exists>ref. fst (journal_append crc s part j) = Inr ref"
proof -
  let ?new = "\<lparr>jh_state = Active (id_bits s), jh_body_len = of_nat (n - JOURNAL_HEADER_LEN)\<rparr>"
  let ?fh = "frame_encode crc \<lparr>fh_part_len = of_nat (length part)\<rparr>"
  obtain u f where "append_writes crc (j_parts j = []) (j_end j) ?new ?fh part (j_file j) = (Inr u, f)"
    using quiet_cases [OF quiet_append_writes [OF assms(1)]] by blast
  then show ?thesis using assms(2) by (simp add: journal_append_def Let_def)
qed

section \<open>Properties\<close>

text \<open>
  C3. Append refines the abstract journal, under every sequence of I/O faults.  A success had an
  admissible part, and leaves a journal that holds one more part, is synchronised, and returns that
  part for the new reference.  A failure leaves a journal that holds what it held, or poisons the
  handle after a failed rollback.  Without faults, the admissible parts are exactly those stored.
\<close>

theorem append_refines:
  assumes "journal_holds crc sid ps j" and "segment_id_new s = Inr s"
    and "journal_append crc s part j = (r, j')"
  shows "(case r of
       Inr ref \<Rightarrow> can_append crc (j_config j) sid ps s part \<and> journal_holds crc (Some s) (ps @ [part]) j'
         \<and> jf_durable (j_file j') = journal_bytes crc (Some s) (ps @ [part]) \<and> read_part j' ref = Inr part
     | Inl e \<Rightarrow> journal_holds crc sid ps j' \<or> (\<exists>io rb. e = RollbackFailed io rb) \<and> j_poisoned j')
   \<and> (jf_plan (j_file j) = [] \<longrightarrow> can_append crc (j_config j) sid ps s part = (\<exists>ref. r = Inr ref))"
proof -
  note effect = append_effect [OF assms]
  have stored: "can_append crc (j_config j) sid ps s part \<and> journal_holds crc (Some s) (ps @ [part]) j'
         \<and> jf_durable (j_file j') = journal_bytes crc (Some s) (ps @ [part]) \<and> read_part j' ref = Inr part"
    if ref: "r = Inr ref" for ref
  proof -
    have new: "journal_holds crc (Some s) (ps @ [part]) j'" and e: "j_end j = 36 + length (frames_of crc ps)"
      and r: "ref = \<lparr>jp_raw = \<lparr>pr_offset = j_end j + 16, pr_len = length part\<rparr>, jp_generation = j_generation j'\<rparr>"
      using effect ref assms(1) by (simp_all add: journal_holds_def)
    have "refs_from 36 (ps @ [part]) ! length ps = \<lparr>pr_offset = 36 + length (frames_of crc ps) + 16, pr_len = length part\<rparr>"
      unfolding refs_from_snoc [of ps part crc] by (simp add: nth_append)
    then have "read_part j' ref = Inr part"
      using read_part_index [OF new, of "length ps"] r e by simp
    then show ?thesis
      using effect ref new admission_can_append [OF assms(1), of s part] by (auto simp: journal_holds_def)
  qed
  moreover have "\<exists>ref. r = Inr ref" if "jf_plan (j_file j) = []" "can_append crc (j_config j) sid ps s part"
    using append_quiet [OF that(1)] that(2) admission_can_append [OF assms(1), of s part] assms(3) by fastforce
  ultimately show ?thesis using effect by (cases r) auto
qed

definition demo_journal :: journal where
  "demo_journal =
     \<lparr>j_file = \<lparr>jf_bytes = header_encode sum_crc header_EMPTY, jf_pos = 0, jf_durable = [], jf_plan = []\<rparr>, j_end = 36,
      j_config = config_default, j_parts = [], j_generation = 0, j_segment_id = None, j_poisoned = False\<rparr>"

lemma demo_journal_holds: "journal_holds sum_crc None [] demo_journal"
  by (simp add: journal_holds_def demo_journal_def holdable_def journal_bytes_def frames_of_def header_for_def
      header_EMPTY_def validate_config_def config_default_def JOURNAL_HEADER_LEN_def MAX_JOURNAL_LEN_def
      MAX_JOURNAL_PARTS_def MAX_PART_LEN_def)

lemma demo_segment_id: "segment_id_new 1709164800000000 = Inr 1709164800000000"
  by code_simp

lemma demo_can_append: "can_append sum_crc (j_config demo_journal) None [] 1709164800000000 demo_part"
  using demo_part_ok
  by (simp add: can_append_def demo_journal_def config_default_def part_ok_def frames_of_def length_demo_part
      MAX_JOURNAL_LEN_def MAX_JOURNAL_PARTS_def MAX_PART_LEN_def)

lemma append_refines_witness:
  "\<exists>ref j'. journal_append sum_crc 1709164800000000 demo_part demo_journal = (Inr ref, j')
     \<and> journal_holds sum_crc (Some 1709164800000000) [demo_part] j' \<and> read_part j' ref = Inr demo_part"
proof -
  obtain r j' where run: "journal_append sum_crc 1709164800000000 demo_part demo_journal = (r, j')" by fastforce
  have "jf_plan (j_file demo_journal) = []" by (simp add: demo_journal_def)
  then show ?thesis
    using append_refines [OF demo_journal_holds demo_segment_id run] demo_can_append run by auto
qed

text \<open>
  Reading a part.  A journal returns bytes for a reference exactly when the reference is one of
  those of its current generation, and the bytes are the part at that position; a range of it is the
  slice of the part when it lies within the part, and is refused otherwise.
\<close>

theorem read_part_exact:
  assumes "journal_holds crc sid ps j"
  shows "(read_part j r = Inr b \<longleftrightarrow>
       (\<exists>i < length ps. r = \<lparr>jp_raw = refs_from 36 ps ! i, jp_generation = j_generation j\<rparr> \<and> b = ps ! i))
   \<and> (\<forall>i < length ps. read_part_range j \<lparr>jp_raw = refs_from 36 ps ! i, jp_generation = j_generation j\<rparr> offset len =
       (if offset + len \<le> length (ps ! i) then Inr (subslice offset (offset + len) (ps ! i))
        else Inl (StalePartRef offset len)))"
  using read_part_iff [OF assms] read_part_range_index [OF assms] by blast

definition demo_full :: journal where
  "demo_full = demo_journal\<lparr>j_file := (j_file demo_journal)\<lparr>jf_bytes := journal_bytes sum_crc (Some 1709164800000000) [demo_part]\<rparr>,
     j_end := 164, j_segment_id := Some 1709164800000000,
     j_parts := [\<lparr>jp_raw = \<lparr>pr_offset = 52, pr_len = 112\<rparr>, jp_generation = 0\<rparr>]\<rparr>"

lemma demo_full_holds: "journal_holds sum_crc (Some 1709164800000000) [demo_part] demo_full"
  using demo_can_append demo_segment_id demo_journal_holds
  by (simp add: demo_full_def demo_journal_def journal_holds_def holdable_def can_append_def frames_of_def
      length_demo_part FRAME_HEADER_LEN_def)

lemma read_part_exact_witness:
  "read_part demo_full \<lparr>jp_raw = \<lparr>pr_offset = 52, pr_len = 112\<rparr>, jp_generation = 0\<rparr> = Inr demo_part
   \<and> (\<forall>b. read_part demo_full \<lparr>jp_raw = \<lparr>pr_offset = 53, pr_len = 111\<rparr>, jp_generation = 0\<rparr> \<noteq> Inr b)"
proof -
  have "j_generation demo_full = 0" by (simp add: demo_full_def demo_journal_def)
  then show ?thesis
    by (simp add: read_part_exact [OF demo_full_holds] length_demo_part FRAME_HEADER_LEN_def)
qed

end
