(* ===== verification/Journal_Reset.thy ===== *)
theory Journal_Reset
  imports Journal_Correct
begin

text \<open>
  Opening and resetting the journal: what \<open>open\<close> accepts, the crash-safety of the two-phase reset,
  the invariant of every reachable handle and the meaning of a part reference over its whole life.
\<close>

section \<open>Reset\<close>

definition marker_for :: "(u8 list \<Rightarrow> u32) \<Rightarrow> int \<Rightarrow> u8 list list \<Rightarrow> reset_marker" where
  "marker_for crc s ps =
     \<lparr>rm_previous_len = of_nat (36 + length (frames_of crc ps)), rm_previous_segment_id = id_bits s,
      rm_previous_header_crc = crc (header_encode crc (header_for crc (Some s) ps))\<rparr>"

text \<open>
  The files of a committed reset: the marker is complete behind the frames, and the header is the
  active header, the empty header or a torn rewrite between them.
\<close>

definition resetting :: "(u8 list \<Rightarrow> u32) \<Rightarrow> journal_config \<Rightarrow> int \<Rightarrow> u8 list list \<Rightarrow> u8 list \<Rightarrow> bool" where
  "resetting crc config s ps bytes \<longleftrightarrow>
     holdable crc config (Some s) ps \<and> 36 + length (frames_of crc ps) + 32 \<le> jc_max_journal_len config
     \<and> (\<exists>k \<le> 36. bytes = torn_rewrite k (header_encode crc header_EMPTY) (header_encode crc (header_for crc (Some s) ps))
          @ frames_of crc ps @ marker_encode crc (marker_for crc s ps))"

lemma torn_rewrite_again:
  assumes "k \<le> 36" and "k' \<le> 36" and "length new = 36" and "length old = 36"
  shows "torn_rewrite k' new (torn_rewrite k new old @ rest) = torn_rewrite (max k k') new old @ rest"
proof (cases "k' \<le> k")
  case True
  then show ?thesis
    using assms append_take_drop_id [of k' "take k new"] by (simp add: torn_rewrite_def max_def min_def)
next
  case False
  then show ?thesis using assms by (simp add: torn_rewrite_def)
qed

lemma length_torn_rewrite [simp]: "k \<le> 36 \<Longrightarrow> length new = 36 \<Longrightarrow> length old = 36 \<Longrightarrow> length (torn_rewrite k new old) = 36"
  by (simp add: torn_rewrite_def)

lemma empty_journal_bytes: "journal_bytes crc None [] = header_encode crc header_EMPTY"
  by (simp add: journal_bytes_def header_for_def header_EMPTY_def frames_of_def)

lemma finish_Inr:
  assumes "finish_committed_reset crc f = (Inr u, f')"
  shows "jf_bytes f' = header_encode crc header_EMPTY \<and> jf_durable f' = jf_bytes f'"
  using assms by (auto simp: finish_committed_reset_def io_then_Inr JOURNAL_HEADER_LEN_def
      dest!: write_header_Inr sync_Inr set_len_Inr)

lemma finish_Inl:
  assumes f: "resetting crc config s ps (jf_bytes f)" and run: "finish_committed_reset crc f = (Inl e, f')"
  shows "resetting crc config s ps (jf_bytes f') \<or> jf_bytes f' = journal_bytes crc None []"
proof -
  let ?new = "header_encode crc header_EMPTY" and ?old = "header_encode crc (header_for crc (Some s) ps)"
  let ?rest = "frames_of crc ps @ marker_encode crc (marker_for crc s ps)"
  obtain k where k: "k \<le> 36" "jf_bytes f = torn_rewrite k ?new ?old @ ?rest" using f by (auto simp: resetting_def)
  have stay: "resetting crc config s ps (torn_rewrite k' ?new ?old @ ?rest)" if "k' \<le> 36" for k'
    using f that by (auto simp: resetting_def)
  have full: "torn_rewrite 36 ?new ?old = ?new" by (simp add: torn_rewrite_def)
  consider (header) "write_header crc header_EMPTY f = (Inl e, f')"
    | (sync) f1 where "write_header crc header_EMPTY f = (Inr (), f1)" "jf_bytes f' = jf_bytes f1"
    | (cut) "jf_bytes f' = ?new"
    using run by (auto simp: finish_committed_reset_def io_then_Inl io_then_Inr JOURNAL_HEADER_LEN_def
        dest!: sync_Inl sync_Inr set_len_Inl set_len_Inr dest: write_header_Inr)
  then show ?thesis
  proof cases
    case header
    then obtain k' where "k' \<le> 36" "jf_bytes f' = torn_rewrite k' ?new (jf_bytes f)" using write_header_Inl by blast
    then show ?thesis using k stay [of "max k k'"] by (simp add: torn_rewrite_again)
  next
    case sync
    then show ?thesis using write_header_Inr [OF sync(1)] k stay [of 36] full by simp
  next
    case cut
    then show ?thesis by (simp add: empty_journal_bytes)
  qed
qed

lemma write_marker_Inr:
  assumes "write_marker crc at m f = (Inr u, f')" and "at = length (jf_bytes f)"
  shows "jf_bytes f' = jf_bytes f @ marker_encode crc m \<and> jf_durable f' = jf_bytes f'"
  using assms by (auto simp: write_marker_def io_then_Inr dest!: file_seek_Inr write_all_Inr(1) sync_Inr)

lemma write_marker_Inl:
  assumes "write_marker crc at m f = (Inl e, f')" and "at = length (jf_bytes f)"
  shows "\<exists>tail. jf_bytes f' = jf_bytes f @ tail"
proof -
  consider (seek) "file_seek at f = (Inl e, f')"
    | (write_it) f1 where "jf_bytes f1 = jf_bytes f" "jf_pos f1 = at" "write_all (marker_encode crc m) f1 = (Inl e, f')"
    | (sync) f1 f2 where "jf_bytes f1 = jf_bytes f" "jf_pos f1 = at" "write_all (marker_encode crc m) f1 = (Inr (), f2)" "jf_bytes f' = jf_bytes f2"
    using assms(1) by (auto simp: write_marker_def io_then_Inl io_then_Inr dest: file_seek_Inr sync_Inl)
  then show ?thesis
  proof cases
    case seek
    then show ?thesis using file_seek_Inl by auto
  next
    case write_it
    then show ?thesis using write_all_Inl [OF write_it(3)] assms(2) by auto
  next
    case sync
    then show ?thesis using write_all_Inr [OF sync(3)] assms(2) by auto
  qed
qed

lemma frames_kept_holds:
  "journal_holds crc sid ps j \<Longrightarrow> frames_kept (frames_of crc ps) (jf_bytes (j_file j) @ tail)"
  by (simp add: journal_holds_def journal_bytes_def frames_kept_def)

lemma marker_new_for:
  assumes j: "journal_holds crc (Some s) ps j"
  shows "marker_new crc (of_nat (j_end j)) (id_bits s) = Some (marker_for crc s ps)"
proof -
  have ne: "ps \<noteq> []" using j by (auto simp: journal_holds_def holdable_def)
  then have "frames_of crc ps \<noteq> []" by (cases ps) (auto simp: frame_bytes_def dest: arg_cong [of _ _ length])
  moreover have "36 + length (frames_of crc ps) < 2 ^ 64" "j_end j = 36 + length (frames_of crc ps)"
    using holdable_small [of crc "j_config j" "Some s" ps] j by (simp_all add: journal_holds_def)
  ultimately show ?thesis
    by (simp add: marker_new_Some marker_for_def header_for_def unat_of_nat_64 del: of_nat_add) simp
qed

lemma reset_effect:
  assumes j: "journal_holds crc sid ps j" and run: "journal_reset crc counter j = (r, j', counter')"
  shows "case r of
      Inr _ \<Rightarrow> journal_holds crc None [] j' \<and> (ps = [] \<and> j' = j \<and> counter' = counter
          \<or> j_generation j' = counter \<and> counter' = counter + 1 \<and> jf_durable (j_file j') = jf_bytes (j_file j'))
    | Inl e \<Rightarrow> counter \<le> counter' \<and>
          (journal_holds crc sid ps j' \<and> j' = j\<lparr>j_file := j_file j'\<rparr> \<and> (\<forall>io. e \<noteq> ResetIncomplete io)
        \<or> (\<exists>io rb. e = RollbackFailed io rb) \<and> j_poisoned j'
        \<or> (\<exists>io. e = ResetIncomplete io) \<and> j_poisoned j' \<and> j_config j' = j_config j
            \<and> (resetting crc (j_config j) (the sid) ps (jf_bytes (j_file j')) \<or> jf_bytes (j_file j') = journal_bytes crc None []))"
proof (cases "ps = []")
  case True
  then have "sid = None" "j_parts j = []" "\<not> j_poisoned j" using j by (auto simp: journal_holds_def holdable_def)
  then show ?thesis using run j True by (auto simp: journal_reset_def ensure_healthy_def)
next
  case False
  then obtain s where s: "sid = Some s" using j by (auto simp: journal_holds_def holdable_def)
  note js = j [unfolded s]
  have fields: "j_parts j \<noteq> []" "j_segment_id j = Some s" "\<not> j_poisoned j" "j_end j = length (jf_bytes (j_file j))"
    "jf_bytes (j_file j) = journal_bytes crc (Some s) ps" "j_end j = 36 + length (frames_of crc ps)"
    using js False by (simp_all add: journal_holds_def)
  note new = marker_new_for [OF js]
  show ?thesis
  proof (cases "next_journal_generation counter")
    case None
    then show ?thesis using run fields j by (auto simp: journal_reset_def ensure_healthy_def)
  next
    case (Some gens)
    then have gens: "gens = (counter, counter + 1)"
      by (auto simp: next_journal_generation_def usize_checked_add_def split: if_splits)
    show ?thesis
    proof (cases "\<exists>end_at. usize_checked_add (j_end j) RESET_MARKER_LEN = Some end_at \<and> end_at \<le> jc_max_journal_len (j_config j)")
      case no: False
      then have "(case usize_checked_add (j_end j) RESET_MARKER_LEN of
          None \<Rightarrow> True | Some marker_end \<Rightarrow> marker_end > jc_max_journal_len (j_config j))"
        by (auto split: option.split)
      then have "r = Inl (JournalFull (j_end j) (jc_max_journal_len (j_config j)))" "j' = j" "counter' = counter + 1"
        using run fields Some gens by (auto simp: journal_reset_def ensure_healthy_def Let_def)
      then show ?thesis using j by simp
    next
      case yes: True
      then have room: "36 + length (frames_of crc ps) + 32 \<le> jc_max_journal_len (j_config j)"
        by (auto simp: usize_checked_add_def fields(6) frame_lens split: if_splits)
      let ?m = "marker_for crc s ps"
      obtain w f where w: "write_marker crc (j_end j) ?m (j_file j) = (w, f)" by fastforce
      have step: "journal_reset crc counter j =
          (case w of Inl e \<Rightarrow> (case roll_back_or_poison crc j e f of (err, j) \<Rightarrow> (Inl err, j, Suc counter))
           | Inr _ \<Rightarrow> (case finish_committed_reset crc f of
               (Inl e, f) \<Rightarrow> (Inl (ResetIncomplete e), j\<lparr>j_file := f, j_poisoned := True\<rparr>, Suc counter)
             | (Inr _, f) \<Rightarrow> (Inr (), j\<lparr>j_file := f, j_end := JOURNAL_HEADER_LEN, j_parts := [],
                          j_generation := counter, j_segment_id := None\<rparr>, Suc counter)))"
        using fields Some gens yes new w by (auto simp: journal_reset_def ensure_healthy_def Let_def split: sum.split)
      show ?thesis
      proof (cases w)
        case (Inl e)
        obtain err j1 where rb: "roll_back_or_poison crc j e f = (err, j1)" by (cases "roll_back_or_poison crc j e f")
        obtain tail where "jf_bytes f = jf_bytes (j_file j) @ tail"
          using write_marker_Inl w Inl fields(4) by blast
        then have "frames_kept (frames_of crc ps) (jf_bytes f)" using frames_kept_holds [OF j] by simp
        then show ?thesis
          using run step Inl rb roll_back_holds [OF j _ _ rb] by (auto simp: frames_kept_def)
      next
        case (Inr u)
        have f: "jf_bytes f = journal_bytes crc (Some s) ps @ marker_encode crc ?m"
          using write_marker_Inr w Inr fields(4,5) by metis
        have "torn_rewrite 0 (header_encode crc header_EMPTY) (header_encode crc (header_for crc (Some s) ps))
            = header_encode crc (header_for crc (Some s) ps)" by (simp add: torn_rewrite_def)
        then have resetting: "resetting crc (j_config j) s ps (jf_bytes f)"
          using f room js unfolding resetting_def
          by (intro conjI exI [of _ 0]) (simp_all add: journal_holds_def journal_bytes_def)
        obtain g f2 where g: "finish_committed_reset crc f = (g, f2)" by fastforce
        show ?thesis
        proof (cases g)
          case (Inl e)
          then show ?thesis using run step \<open>w = Inr u\<close> g finish_Inl [OF resetting, of e f2] s by auto
        next
          case (Inr v)
          have "jf_bytes f2 = journal_bytes crc None []" "jf_durable f2 = jf_bytes f2"
            using finish_Inr g Inr by (simp_all add: empty_journal_bytes)
          moreover have "holdable crc (j_config j) None []"
            using j by (auto simp: journal_holds_def holdable_def validate_config_def frames_of_def JOURNAL_HEADER_LEN_def split: if_splits)
          ultimately show ?thesis
            using run step \<open>w = Inr u\<close> g Inr js
            by (auto simp: journal_holds_def JOURNAL_HEADER_LEN_def frames_of_def)
        qed
      qed
    qed
  qed
qed

section \<open>Opening\<close>

lemma id_bits_sint: "id_bits (sint b) = b"
  by (simp add: id_bits_def)

lemma sint_id_bits:
  assumes "segment_id_new s = Inr s"
  shows "sint (id_bits s) = s"
proof -
  have "- (2 ^ 63) \<le> s \<and> s < 2 ^ 63" 
    using assms by (auto simp: segment_id_new_def segment_utc_day_cases MIN_SEGMENT_ID_def END_SEGMENT_ID_def
        split: prod.splits if_splits)
  then show ?thesis by (simp add: id_bits_def sint_sbintrunc' signed_take_bit_int_eq_self)
qed

lemma segment_id_new_same: "segment_id_new v = Inr sid \<Longrightarrow> sid = v"
  by (auto simp: segment_id_new_def split: sum.splits)

text \<open>\<open>open\<close> accepts exactly the canonical bytes of an identity and its parts.\<close>

lemma inspect_iff:
  assumes cfg: "validate_config config = Inr ()" and len: "length (jf_bytes f) \<le> jc_max_journal_len config"
  shows "inspect_journal crc config (length (jf_bytes f)) f = Inr (sid, parts) \<longleftrightarrow>
    (\<exists>ps. holdable crc config sid ps \<and> jf_bytes f = journal_bytes crc sid ps \<and> parts = refs_from 36 ps)"
proof -
  let ?b = "jf_bytes f"
  have small: "length ?b \<le> 1073741824"
    using cfg len by (auto simp: validate_config_def MAX_JOURNAL_LEN_def split: if_splits)
  show ?thesis
  proof
    assume run: "inspect_journal crc config (length ?b) f = Inr (sid, parts)"
    then have ge: "36 \<le> length ?b" by (auto simp: inspect_journal_def JOURNAL_HEADER_LEN_def split: if_splits)
    then have hd: "read_file f 0 JOURNAL_HEADER_LEN = Inr (take 36 ?b)"
      using small by (simp add: read_file_slice JOURNAL_HEADER_LEN_def slice_0)
    obtain h where dec: "header_decode crc (take 36 ?b) = Inr h" and body: "unat (jh_body_len h) = length ?b - 36"
      using run ge hd by (auto simp: inspect_journal_def JOURNAL_HEADER_LEN_def Let_def
          split: sum.splits journal_header_error.splits if_splits)
    have enc: "take 36 ?b = header_encode crc h" using header_encode_decode [of "take 36 ?b" crc h] ge dec by simp
    have blen: "jh_body_len h = of_nat (length ?b - 36)" using body small by (simp add: word_unat_eq_iff unat_of_nat_64)
    show "\<exists>ps. holdable crc config sid ps \<and> ?b = journal_bytes crc sid ps \<and> parts = refs_from 36 ps"
    proof (cases "jh_state h")
      case Empty
      then have res: "length ?b = 36" "sid = None" "parts = []"
        using run ge hd dec body by (auto simp: inspect_journal_def JOURNAL_HEADER_LEN_def Let_def split: if_splits)
      moreover have "holdable crc config None []"
        using cfg len res by (simp add: holdable_def frames_of_def)
      moreover have "h = header_for crc None []"
        using Empty blen res by (simp add: header_for_def frames_of_def)
      ultimately show ?thesis using enc by (intro exI [of _ "[]"]) (simp add: journal_bytes_def frames_of_def)
    next
      case (Active bits)
      obtain scan where id: "segment_id_new (sint bits) = Inr (sint bits)" "sid = Some (sint bits)"
        and scan: "scan_journal_streaming_strict_from crc (slice_read ?b) (slice_byte_len ?b)
                (of_nat 36) (jc_limits config) (jc_max_parts config) = Inr scan"
          "sr_damages scan = []" "sr_valid_len scan = length ?b" "sr_parts scan \<noteq> []" "parts = sr_parts scan"
        using run ge hd dec body Active
        by (auto simp: inspect_journal_def JOURNAL_HEADER_LEN_def Let_def dest: segment_id_new_same split: sum.splits if_splits)
      then have "is_clean scan" by (simp add: is_clean_def)
      then obtain ps where ps: "drop 36 ?b = frames_of crc ps" "\<forall>p \<in> set ps. part_ok crc (jc_limits config) p"
        "length ps \<le> jc_max_parts config" "sr_parts scan = refs_from 36 ps"
        using strict_scan_clean_iff [of ?b 36 crc "jc_limits config" "jc_max_parts config" scan] scan(1) ge small by auto
      have n: "length (frames_of crc ps) = length ?b - 36" using ps(1) by (metis length_drop)
      have "holdable crc config sid ps"
        using cfg id ps scan(4) n ge len by (auto simp: holdable_def)
      moreover have "h = header_for crc sid ps"
        using Active blen n id by (simp add: header_for_def id_bits_sint)
      then have "?b = journal_bytes crc sid ps"
        using enc ps(1) append_take_drop_id [of 36 ?b] by (simp add: journal_bytes_def)
      ultimately show ?thesis using ps(4) scan(5) by auto
    qed
  next
    assume "\<exists>ps. holdable crc config sid ps \<and> ?b = journal_bytes crc sid ps \<and> parts = refs_from 36 ps"
    then obtain ps where hold: "holdable crc config sid ps" and b: "?b = journal_bytes crc sid ps"
      and parts: "parts = refs_from 36 ps" by blast
    have n: "length ?b = 36 + length (frames_of crc ps)" using b by simp
    have hd: "read_file f 0 JOURNAL_HEADER_LEN = Inr (header_encode crc (header_for crc sid ps))"
      using small n b by (simp add: read_file_slice JOURNAL_HEADER_LEN_def slice_0 journal_bytes_def)
    have body: "unat (jh_body_len (header_for crc sid ps)) = length (frames_of crc ps)"
      using small n by (simp add: header_for_def unat_of_nat_64)
    show "inspect_journal crc config (length ?b) f = Inr (sid, parts)"
    proof (cases sid)
      case None
      then have "ps = []" using hold by (simp add: holdable_def)
      then show ?thesis
        using hd body None parts
        by (simp add: inspect_journal_def n JOURNAL_HEADER_LEN_def Let_def header_decode_encode frames_of_def)
           (simp add: header_for_def)
    next
      case (Some s)
      then have ne: "ps \<noteq> []" and s: "segment_id_new s = Inr s" using hold by (auto simp: holdable_def)
      let ?scan = "\<lparr>sr_parts = refs_from 36 ps, sr_damages = [], sr_valid_len = length ?b\<rparr>"
      have "scan_journal_streaming_strict_from crc (slice_read ?b) (slice_byte_len ?b)
                (of_nat 36) (jc_limits config) (jc_max_parts config) = Inr ?scan"
        using strict_scan_clean_iff [of ?b 36 crc "jc_limits config" "jc_max_parts config" ?scan] small n hold b
        by (auto simp: holdable_def journal_bytes_def)
      then show ?thesis
        using hd body Some parts ne s
        by (simp add: inspect_journal_def n JOURNAL_HEADER_LEN_def Let_def header_decode_encode)
           (simp add: header_for_def sint_id_bits n JOURNAL_HEADER_LEN_def)
    qed
  qed
qed

section \<open>Reset recovery\<close>

lemma prefix_is_slice:
  assumes "length data < usize_limit"
  shows "prefix_read n (slice_read data) = slice_read (take (unat n) data)"
proof -
  have "length (take (unat n) data) < usize_limit" using assms by simp
  then show ?thesis by (intro ext) (simp only: prefix_reader.read_exact slice_reader.read_exact)
qed

text \<open>The identity byte and the body length tell an active header from a torn one.\<close>

lemma torn_active:
  assumes "k \<le> 36"
    and "header_encode crc \<lparr>jh_state = Active a, jh_body_len = n\<rparr> =
      torn_rewrite k (header_encode crc header_EMPTY) (header_encode crc \<lparr>jh_state = Active b, jh_body_len = m\<rparr>)"
      (is "?obs = torn_rewrite k ?new ?old")
  shows "n = m"
proof (cases "12 < k")
  case True
  have "?obs ! 12 = 1" "?new ! 12 = 0"
    by (simp_all add: header_encode_def encode_state_def header_EMPTY_def Let_def nth_append)
  moreover have "torn_rewrite k ?new ?old ! 12 = ?new ! 12"
    using True by (simp add: torn_rewrite_def nth_append)
  ultimately show ?thesis using assms(2) by simp
next
  case False
  then have "take 8 (drop 24 ?obs) = take 8 (drop 24 ?old)"
    using assms by (simp add: torn_rewrite_def)
  then show ?thesis by (simp add: header_encode_def encode_state_def Let_def)
qed

lemma recover_canonical:
  assumes hold: "holdable crc config sid ps" and b: "jf_bytes f = journal_bytes crc sid ps"
  shows "recover_committed_reset crc config (length (jf_bytes f)) f = (Inr False, f)"
proof (cases "length (jf_bytes f) < JOURNAL_HEADER_LEN + RESET_MARKER_LEN")
  case True
  then show ?thesis by (simp add: recover_committed_reset_def)
next
  case False
  let ?n = "length (frames_of crc ps)" and ?at = "length (jf_bytes f) - RESET_MARKER_LEN"
  have len: "length (jf_bytes f) = 36 + ?n" "32 \<le> ?n" "?n \<le> 1073741788"
    using b False holdable_small [OF hold] by (simp_all add: frame_lens)
  then obtain s where s: "sid = Some s" using hold by (auto simp: holdable_def frames_of_def)
  obtain marker_bytes where mb: "read_file f ?at RESET_MARKER_LEN = Inr marker_bytes"
    using read_file_slice [of ?at RESET_MARKER_LEN f] len by (simp add: frame_lens)
  have hd: "read_file f 0 JOURNAL_HEADER_LEN = Inr (header_encode crc (header_for crc sid ps))"
    using b len read_file_slice [of 0 JOURNAL_HEADER_LEN f] by (simp add: frame_lens slice_0 journal_bytes_def)
  show ?thesis
  proof (cases "marker_decode crc marker_bytes")
    case None
    then show ?thesis using False mb by (simp add: recover_committed_reset_def Let_def)
  next
    case (Some m)
    show ?thesis
    proof (cases "unat (rm_previous_len m) \<noteq> ?at \<or> unat (rm_previous_len m) > jc_max_journal_len config
        \<or> isl (segment_id_new (sint (rm_previous_segment_id m))) \<or> expected_previous_header crc m = None")
      case True
      then show ?thesis using False mb Some by (auto simp: recover_committed_reset_def Let_def split: option.split)
    next
      case ok: False
      then obtain h where h: "expected_previous_header crc m = Some h" by blast
      then have hm: "h = \<lparr>jh_state = Active (rm_previous_segment_id m), jh_body_len = rm_previous_len m - 36\<rparr>"
        by (auto simp: expected_previous_header_def JOURNAL_HEADER_LEN_def split: option.splits if_splits)
      have "classify_header_transition crc m (header_encode crc (header_for crc sid ps)) = None"
      proof (rule ccontr)
        assume "classify_header_transition crc m (header_encode crc (header_for crc sid ps)) \<noteq> None"
        then obtain k where "k \<le> 36" "header_encode crc (header_for crc sid ps) =
            torn_rewrite k (header_encode crc header_EMPTY) (header_encode crc h)"
          using classify_iff [OF _ h, of "header_encode crc (header_for crc sid ps)"] by auto
        then have "of_nat ?n = rm_previous_len m - 36"
          using torn_active hm s by (simp add: header_for_def)
        moreover have "rm_previous_len m = of_nat (4 + ?n)"
          using ok len by (simp add: word_unat_eq_iff unat_of_nat_64 RESET_MARKER_LEN_def del: of_nat_add)
        ultimately have "of_nat ?n + 36 = (of_nat (4 + ?n) :: u64)" by simp
        then have "of_nat (?n + 36) = (of_nat (4 + ?n) :: u64)" by simp
        then have "unat (of_nat (?n + 36) :: u64) = unat (of_nat (4 + ?n) :: u64)" by (rule arg_cong)
        then show False using len by (simp add: unat_of_nat_64 del: of_nat_add)
      qed
      then show ?thesis using False mb Some ok h hd by (simp add: recover_committed_reset_def Let_def)
    qed
  qed
qed

lemma recover_resetting:
  assumes f: "resetting crc config s ps (jf_bytes f)"
  shows "recover_committed_reset crc config (length (jf_bytes f)) f =
    (case finish_committed_reset crc f of (Inl e, f) \<Rightarrow> (Inl (JIo e), f) | (Inr _, f) \<Rightarrow> (Inr True, f))"
proof -
  let ?n = "length (frames_of crc ps)" and ?m = "marker_for crc s ps" and ?b = "jf_bytes f"
  let ?new = "header_encode crc header_EMPTY" and ?old = "header_encode crc (header_for crc (Some s) ps)"
  have hold: "holdable crc config (Some s) ps" and room: "36 + ?n + 32 \<le> jc_max_journal_len config"
    using f by (simp_all add: resetting_def)
  obtain k where k: "k \<le> 36" "?b = torn_rewrite k ?new ?old @ frames_of crc ps @ marker_encode crc ?m"
    using f by (auto simp: resetting_def)
  have len: "length ?b = 36 + ?n + 32" using k by simp
  have small: "36 + ?n + 32 \<le> 1073741824"
    using room hold by (auto simp: holdable_def validate_config_def MAX_JOURNAL_LEN_def split: if_splits)
  have prev: "rm_previous_len ?m = of_nat (36 + ?n)" "unat (rm_previous_len ?m) = 36 + ?n"
    using small by (simp_all add: marker_for_def unat_of_nat_64 del: of_nat_add)
  have ne: "ps \<noteq> []" and s: "segment_id_new s = Inr s" using hold by (auto simp: holdable_def)
  then have "?n \<noteq> 0" by (cases ps) (auto simp: frame_bytes_def dest: arg_cong [of _ _ length])
  then have "marker_new crc (of_nat (36 + ?n)) (id_bits s) = Some ?m"
    using small by (simp add: marker_new_Some marker_for_def header_for_def unat_of_nat_64 del: of_nat_add) simp
  then have hm: "expected_previous_header crc ?m = Some (header_for crc (Some s) ps)"
    using expected_previous_header_new by (fastforce simp: header_for_def)
  have mb: "read_file f (36 + ?n) 32 = Inr (marker_encode crc ?m)"
    using len small read_file_slice [of "36 + ?n" 32 f] k by (simp add: subslice_def)
  have hd: "read_file f 0 36 = Inr (torn_rewrite k ?new ?old)"
    using len small read_file_slice [of 0 36 f] k by (simp add: slice_0)
  have shape: "classify_header_transition crc ?m (torn_rewrite k ?new ?old) \<noteq> None"
    using classify_iff [OF _ hm, of "torn_rewrite k ?new ?old"] k by auto
  let ?pre = "take (36 + ?n) ?b" and ?scan = "\<lparr>sr_parts = refs_from 36 ps, sr_damages = [], sr_valid_len = 36 + ?n\<rparr>"
  have pre: "length ?pre = 36 + ?n" "drop 36 ?pre = frames_of crc ps" using k by simp_all
  have bounds: "length ?pre < usize_limit" "36 \<le> length ?pre" unfolding pre(1) using small by simp_all
  have "drop 36 ?pre = frames_of crc ps \<and> (\<forall>p \<in> set ps. part_ok crc (jc_limits config) p)
      \<and> length ps \<le> jc_max_parts config \<and> ?scan = \<lparr>sr_parts = refs_from 36 ps, sr_damages = [], sr_valid_len = length ?pre\<rparr>"
    using pre hold by (simp add: holdable_def)
  then have "scan_journal_streaming_strict_from crc (slice_read ?pre) (slice_byte_len ?pre) (of_nat 36)
      (jc_limits config) (jc_max_parts config) = Inr ?scan"
    using strict_scan_clean_iff [OF bounds, of crc "jc_limits config" "jc_max_parts config" ?scan] by blast
  moreover have "slice_byte_len ?pre = prefix_byte_len (rm_previous_len ?m)"
    using pre(1) prev(1) by (simp add: slice_byte_len_def prefix_byte_len_def)
  moreover have "prefix_read (rm_previous_len ?m) (slice_read ?b) = slice_read ?pre"
    using prefix_is_slice [of ?b] len small prev(2) by simp
  ultimately have scan: "scan_journal_streaming_strict_from crc (prefix_read (rm_previous_len ?m) (slice_read ?b))
      (prefix_byte_len (rm_previous_len ?m)) (of_nat 36) (jc_limits config) (jc_max_parts config) = Inr ?scan"
    by simp
  have "\<not> isl (segment_id_new (sint (rm_previous_segment_id ?m)))"
    using s by (simp add: marker_for_def sint_id_bits)
  then show ?thesis
    using mb hd shape scan hm prev(2) room ne
    by (auto simp: recover_committed_reset_def frame_lens len marker_decode_encode)
qed

section \<open>What open establishes\<close>

lemma recover_Inr:
  assumes "recover_committed_reset crc config n f = (Inr b, f')"
  shows "b \<and> jf_bytes f' = header_encode crc header_EMPTY \<or> \<not> b \<and> f' = f"
  using assms
  by (auto simp: recover_committed_reset_def Let_def dest: finish_Inr split: sum.splits option.splits if_splits prod.splits)

lemma init_empty_Inr:
  assumes "init_empty crc f = (Inr u, f')"
  shows "jf_bytes f' = header_encode crc header_EMPTY"
  using assms by (auto simp: init_empty_def io_then_Inr JOURNAL_HEADER_LEN_def
      dest!: write_header_Inr sync_Inr set_len_Inr)

lemma holdable_empty:
  "validate_config config = Inr () \<Longrightarrow> holdable crc config None []"
  by (auto simp: holdable_def validate_config_def frames_of_def JOURNAL_HEADER_LEN_def split: if_splits)

text \<open>The three ways to the bytes that are inspected.\<close>

lemma journal_open_Inr:
  assumes run: "journal_open crc config created root_sync counter f = (Inr j, f', counter')"
  shows "\<exists>sid ps. journal_holds crc sid ps j \<and> j_config j = config \<and> j_generation j = counter
     \<and> counter' = counter + 1 \<and> j_file j = f'"
proof -
  have cfg: "validate_config config = Inr ()" using run by (auto simp: journal_open_def split: sum.splits)
  note run1 = run [unfolded journal_open_def, simplified cfg, simplified]
  obtain r1 f1 where f1: "(if created then init_empty crc f else (Inr (), f)) = (r1, f1)" by fastforce
  obtain u1 where r1: "r1 = Inr u1" using run1 unfolding f1 by (cases r1) auto
  note run2 = run1 [unfolded f1 r1, simplified, unfolded Let_def]
  have small: "length (jf_bytes f1) \<le> jc_max_journal_len config"
    using run2 by (rule contrapos_pp) simp
  obtain r2 f2 where f2: "recover_committed_reset crc config (length (jf_bytes f1)) f1 = (r2, f2)" by fastforce
  obtain rec where r2: "r2 = Inr rec" using run2 small unfolding f2 by (cases r2) auto
  define n where "n = (if rec then JOURNAL_HEADER_LEN else length (jf_bytes f1))"
  have n: "n = length (jf_bytes f2)" using recover_Inr [OF f2 [unfolded r2]] by (auto simp: n_def JOURNAL_HEADER_LEN_def)
  have "\<not> jc_max_journal_len config < length (jf_bytes f1)" using small by simp
  note run3 = run2 [unfolded f2 r2, simplified this if_False sum.case prod.case, folded n_def]
  obtain r3 f3 where f3: "(if n = 0 then init_empty crc f2 else (Inr (), f2)) = (r3, f3)" by fastforce
  obtain u3 where r3: "r3 = Inr u3" using run3 unfolding f3 by (cases r3) auto
  define n' where "n' = (if n = 0 then JOURNAL_HEADER_LEN else n)"
  have n': "n' = length (jf_bytes f3)"
    using f3 n r3 init_empty_Inr [of crc f2 u3 f3] by (auto simp: n'_def JOURNAL_HEADER_LEN_def split: if_splits)
  have le: "n' \<le> jc_max_journal_len config"
    using cfg small by (auto simp: n'_def n_def validate_config_def split: if_splits)
  note run4 = run3 [unfolded f3 r3, simplified sum.case prod.case, folded n'_def]
  obtain sid parts where ins: "inspect_journal crc config n' f3 = Inr (sid, parts)"
    using run4 by (cases "inspect_journal crc config n' f3") auto
  then have j: "j = \<lparr>j_file = f3, j_end = n', j_config = config, j_parts = map (\<lambda>raw. \<lparr>jp_raw = raw, jp_generation = counter\<rparr>) parts,
                j_generation = counter, j_segment_id = sid, j_poisoned = False\<rparr>" "f' = f3" "counter' = counter + 1"
    using run4 by (auto simp: next_journal_generation_def usize_checked_add_def split: sum.splits if_splits)
  obtain ps where "holdable crc config sid ps" "jf_bytes f3 = journal_bytes crc sid ps" "parts = refs_from 36 ps"
    using inspect_iff [OF cfg, of f3] n' le ins by auto
  then have "journal_holds crc sid ps j" using n' j by (simp add: journal_holds_def)
  then show ?thesis using j by auto
qed

text \<open>A canonical file is opened unchanged, whatever the operating system has in store.\<close>

lemma open_canonical:
  assumes hold: "holdable crc config sid ps" and b: "jf_bytes f = journal_bytes crc sid ps"
  shows "journal_open crc config False root_sync counter f =
    (case root_sync of
       Inl e \<Rightarrow> (Inl (JLayout e), f, counter)
     | Inr _ \<Rightarrow>
         (case next_journal_generation counter of
            None \<Rightarrow> (Inl GenerationExhausted, f, counter)
          | Some (generation, counter) \<Rightarrow>
              (Inr \<lparr>j_file = f, j_end = length (jf_bytes f), j_config = config,
                 j_parts = map (\<lambda>raw. \<lparr>jp_raw = raw, jp_generation = generation\<rparr>) (refs_from 36 ps),
                 j_generation = generation, j_segment_id = sid, j_poisoned = False\<rparr>, f, counter)))"
proof -
  have cfg: "validate_config config = Inr ()" and len: "length (jf_bytes f) \<le> jc_max_journal_len config"
    using hold b by (simp_all add: holdable_def)
  have "inspect_journal crc config (length (jf_bytes f)) f = Inr (sid, refs_from 36 ps)"
    using inspect_iff [OF cfg len] hold b by blast
  moreover have "length (jf_bytes f) \<noteq> 0" using b by simp
  ultimately show ?thesis
    using cfg len recover_canonical [OF hold b] by (simp add: journal_open_def Let_def)
qed

lemma open_holds:
  assumes "holdable crc config sid ps" and "jf_bytes f = journal_bytes crc sid ps" and "counter + 1 < usize_limit"
  shows "\<exists>j. journal_open crc config False (Inr ()) counter f = (Inr j, f, counter + 1) \<and> journal_holds crc sid ps j"
  using assms by (simp add: open_canonical next_journal_generation_def usize_checked_add_def journal_holds_def)

text \<open>A committed reset: under any faults the file stays committed or becomes the empty journal.\<close>

lemma resetting_len:
  assumes "resetting crc config s ps bytes"
  shows "validate_config config = Inr () \<and> length bytes \<le> jc_max_journal_len config"
  using assms by (auto simp: resetting_def holdable_def)

lemma open_resetting:
  assumes f: "resetting crc config s ps (jf_bytes f)"
    and run: "journal_open crc config False root_sync counter f = (r, f', counter')"
  shows "resetting crc config s ps (jf_bytes f') \<or> jf_bytes f' = journal_bytes crc None []"
proof -
  note cfg = resetting_len [OF f]
  note unfold = journal_open_def recover_resetting [OF f] Let_def
  obtain g f1 where g: "finish_committed_reset crc f = (g, f1)" by fastforce
  show ?thesis
  proof (cases g)
    case (Inl e)
    then have "f' = f1" using run cfg g by (simp add: unfold)
    then show ?thesis using finish_Inl [OF f] g Inl by blast
  next
    case (Inr u)
    then have bytes: "jf_bytes f1 = journal_bytes crc None []" using finish_Inr g by (simp add: empty_journal_bytes)
    have "f' = f1"
      using run cfg g Inr
      by (auto simp: unfold JOURNAL_HEADER_LEN_def split: sum.splits option.splits prod.splits)
    then show ?thesis using bytes by simp
  qed
qed

lemma open_resetting_quiet:
  assumes f: "resetting crc config s ps (jf_bytes f)" and plan: "jf_plan f = []" and "counter + 1 < usize_limit"
  shows "\<exists>j f'. journal_open crc config False (Inr ()) counter f = (Inr j, f', counter + 1)
     \<and> journal_holds crc None [] j \<and> jf_durable f' = jf_bytes f'"
proof -
  note cfg = resetting_len [OF f]
  obtain u f1 where g: "finish_committed_reset crc f = (Inr u, f1)" using quiet_cases [OF quiet_finish [OF plan]] by blast
  then have bytes: "jf_bytes f1 = journal_bytes crc None []" "jf_durable f1 = jf_bytes f1"
    using finish_Inr by (simp_all add: empty_journal_bytes)
  have hold: "holdable crc config None []" using cfg holdable_empty by blast
  then have "36 \<le> jc_max_journal_len config" by (simp add: holdable_def)
  then have "inspect_journal crc config (length (jf_bytes f1)) f1 = Inr (None, [])"
    using inspect_iff [of config f1 crc None "[]"] cfg bytes hold by auto
  moreover have "length (jf_bytes f1) = 36" using bytes by (simp add: frames_of_def)
  ultimately have "journal_open crc config False (Inr ()) counter f =
     (Inr \<lparr>j_file = f1, j_end = 36, j_config = config, j_parts = [], j_generation = counter, j_segment_id = None,
        j_poisoned = False\<rparr>, f1, counter + 1)"
    using cfg g assms(3)
    by (simp add: journal_open_def recover_resetting [OF f] Let_def JOURNAL_HEADER_LEN_def next_journal_generation_def
        usize_checked_add_def)
  then show ?thesis using bytes hold by (simp add: journal_holds_def frames_of_def)
qed

end
