(* ===== verification/Journal_Life.thy ===== *)
theory Journal_Life
  imports Journal_Reset
begin

text \<open>
  The life of a journal: the handles that a process can hold, through appends, resets and reopenings
  under any faults, and the crash recovery of a reset.
\<close>

section \<open>Reachable handles\<close>

text \<open>
  A state is the handle and the process-wide generation counter.  A handle is made by opening a file or
  by taking over the slot of a fresh generation, with any bytes in the file: a crashed process may have
  left anything in it.  From a handle the process appends, resets, or goes on with another handle that
  it makes; the counter also moves on when handles of other files are made or reset.
\<close>

inductive journal_made :: "(u8 list \<Rightarrow> u32) \<Rightarrow> nat \<Rightarrow> journal \<times> nat \<Rightarrow> bool" for crc where
  made_open: "journal_open crc config created root_sync counter f = (Inr j, f', counter')
    \<Longrightarrow> journal_made crc counter (j, counter')"
| made_slot: "open_slot crc config changed counter f = (Inr j, counter') \<Longrightarrow> journal_made crc counter (j, counter')"

inductive journal_step :: "(u8 list \<Rightarrow> u32) \<Rightarrow> journal \<times> nat \<Rightarrow> journal \<times> nat \<Rightarrow> bool" for crc where
  append_step: "segment_id_new s = Inr s \<Longrightarrow> journal_append crc s part j = (r, j')
    \<Longrightarrow> journal_step crc (j, counter) (j', counter)"
| reset_step: "journal_reset crc counter j = (r, j', counter') \<Longrightarrow> journal_step crc (j, counter) (j', counter')"
| made_step: "journal_made crc counter (j', counter') \<Longrightarrow> journal_step crc (j, counter) (j', counter')"
| other_step: "counter \<le> counter' \<Longrightarrow> journal_step crc (j, counter) (j, counter')"

inductive journal_run :: "(u8 list \<Rightarrow> u32) \<Rightarrow> journal \<times> nat \<Rightarrow> journal \<times> nat \<Rightarrow> bool" for crc where
  run_refl: "journal_run crc st st"
| run_step: "journal_run crc st st' \<Longrightarrow> journal_step crc st' st'' \<Longrightarrow> journal_run crc st st''"

definition journal_sound :: "(u8 list \<Rightarrow> u32) \<Rightarrow> journal \<times> nat \<Rightarrow> bool" where
  "journal_sound crc st \<longleftrightarrow> (case st of (j, counter) \<Rightarrow>
     j_generation j < counter \<and> (j_poisoned j \<or> (\<exists>sid ps. journal_holds crc sid ps j)))"

lemma append_poisoned: "j_poisoned j \<Longrightarrow> journal_append crc s part j = (Inl Poisoned, j)"
  by (simp add: journal_append_def append_admission_def ensure_healthy_def)

lemma reset_poisoned: "j_poisoned j \<Longrightarrow> journal_reset crc counter j = (Inl Poisoned, j, counter)"
  by (simp add: journal_reset_def ensure_healthy_def)

lemma read_poisoned: "j_poisoned j \<Longrightarrow> read_part j r = Inl Poisoned"
  and read_range_poisoned: "j_poisoned j \<Longrightarrow> read_part_range j r offset len = Inl Poisoned"
  by (simp_all add: read_part_def read_part_range_def check_part_ref_def ensure_healthy_def)

text \<open>What one step does to the parts: they grow within a generation, and a new generation is fresh.\<close>

definition journal_grows :: "(u8 list \<Rightarrow> u32) \<Rightarrow> nat \<Rightarrow> journal \<Rightarrow> journal \<Rightarrow> bool" where
  "journal_grows crc counter j j' \<longleftrightarrow> j_poisoned j' \<or> counter \<le> j_generation j'
     \<or> j_generation j' = j_generation j \<and> \<not> j_poisoned j \<and>
       (\<forall>sid ps. journal_holds crc sid ps j \<longrightarrow> (\<exists>sid' qs. journal_holds crc sid' (ps @ qs) j'))"

lemma journal_grows_refl: "\<not> j_poisoned j \<Longrightarrow> journal_grows crc counter j j"
  unfolding journal_grows_def by (metis append_Nil2)

lemma append_step_sound:
  assumes sound: "journal_sound crc (j, counter)" and s: "segment_id_new s = Inr s"
    and run: "journal_append crc s part j = (r, j')"
  shows "journal_sound crc (j', counter) \<and> journal_grows crc counter j j'"
proof (cases "j_poisoned j")
  case True
  then show ?thesis using run sound by (simp add: append_poisoned journal_grows_def)
next
  case False
  then obtain sid ps where j: "journal_holds crc sid ps j" using sound by (auto simp: journal_sound_def)
  have gen: "j_generation j' = j_generation j"
    using run by (auto simp: journal_append_def roll_back_or_poison_def Let_def split: sum.splits prod.splits)
  have each: "j_poisoned j' \<or> (\<exists>sid' qs. journal_holds crc sid' (ps @ qs) j')" if p: "journal_holds crc sid ps j" for sid ps
  proof (cases r)
    case (Inl e)
    then have "j_poisoned j' \<or> journal_holds crc sid (ps @ []) j'" using append_effect [OF p s run] by auto
    then show ?thesis by blast
  next
    case (Inr ref)
    then show ?thesis using append_effect [OF p s run] by auto
  qed
  then show ?thesis using each [OF j] gen sound False by (auto simp: journal_sound_def journal_grows_def)
qed

lemma reset_step_sound:
  assumes sound: "journal_sound crc (j, counter)" and run: "journal_reset crc counter j = (r, j', counter')"
  shows "journal_sound crc (j', counter') \<and> counter \<le> counter' \<and> journal_grows crc counter j j'"
proof (cases "j_poisoned j")
  case True
  then show ?thesis using run sound by (simp add: reset_poisoned journal_grows_def)
next
  case False
  then obtain sid ps where j: "journal_holds crc sid ps j" using sound by (auto simp: journal_sound_def)
  have lt: "j_generation j < counter" using sound by (simp add: journal_sound_def)
  show ?thesis
  proof (cases r)
    case (Inr u)
    note effect = reset_effect [OF j run, unfolded Inr sum.case]
    then consider (same) "j' = j" "counter' = counter" | (fresh) "j_generation j' = counter" "counter' = counter + 1" by blast
    then show ?thesis
    proof cases
      case same
      then show ?thesis using sound False by (simp add: journal_grows_refl)
    next
      case fresh
      then show ?thesis using effect by (auto simp: journal_sound_def journal_grows_def)
    qed
  next
    case (Inl e)
    have "j_generation j' = j_generation j"
      using run Inl by (auto simp: journal_reset_def roll_back_or_poison_def Let_def split: sum.splits prod.splits option.splits if_splits)
    moreover have "j_poisoned j' \<or> (\<exists>sid' qs. journal_holds crc sid' (ps @ qs) j')" if p: "journal_holds crc sid ps j" for sid ps
    proof -
      have "j_poisoned j' \<or> journal_holds crc sid (ps @ []) j'" using reset_effect [OF p run, unfolded Inl sum.case] by auto
      then show ?thesis by blast
    qed
    moreover have "counter \<le> counter'" using reset_effect [OF j run, unfolded Inl sum.case] by blast
    ultimately show ?thesis using j lt False by (auto simp: journal_sound_def journal_grows_def)
  qed
qed

text \<open>A handle is made over the canonical empty file, or over a file that open accepts, with a fresh generation.\<close>

lemma open_slot_Inr:
  assumes run: "open_slot crc config changed counter f = (Inr j, counter')"
  shows "journal_holds crc None [] j \<and> j_config j = config \<and> j_generation j = counter
     \<and> counter' = counter + 1 \<and> j_file j = f"
proof -
  have cfg: "validate_config config = Inr ()" using run by (auto simp: open_slot_def split: sum.splits)
  have len: "length (jf_bytes f) = 36"
    using run cfg by (auto simp: open_slot_def Let_def JOURNAL_HEADER_LEN_def split: if_splits)
  then have "read_file f 0 JOURNAL_HEADER_LEN = Inr (jf_bytes f)"
    using read_file_slice [of 0 36 f] by (simp add: JOURNAL_HEADER_LEN_def slice_all)
  then have bytes: "jf_bytes f = journal_bytes crc None []"
    and j: "j = \<lparr>j_file = f, j_end = JOURNAL_HEADER_LEN, j_config = config, j_parts = [],
                 j_generation = counter, j_segment_id = None, j_poisoned = False\<rparr>" "counter' = counter + 1"
    using run cfg len by (auto simp: open_slot_def Let_def JOURNAL_HEADER_LEN_def empty_journal_bytes
        next_journal_generation_def usize_checked_add_def split: if_splits)
  then have "journal_holds crc None [] j"
    using holdable_empty [OF cfg] by (simp add: journal_holds_def frames_of_def JOURNAL_HEADER_LEN_def)
  then show ?thesis using j by simp
qed

lemma made_fresh:
  assumes "journal_made crc counter (j, counter')"
  shows "(\<exists>sid ps. journal_holds crc sid ps j) \<and> j_generation j = counter \<and> counter' = counter + 1"
  using assms
proof (cases rule: journal_made.cases)
  case made_open
  then show ?thesis using journal_open_Inr by blast
next
  case made_slot
  then show ?thesis using open_slot_Inr by blast
qed

lemma made_step_sound:
  assumes "journal_made crc counter (j', counter')"
  shows "journal_sound crc (j', counter') \<and> counter \<le> counter' \<and> journal_grows crc counter j j'"
  using made_fresh [OF assms] by (auto simp: journal_sound_def journal_grows_def)

lemma other_step_sound:
  assumes "journal_sound crc (j, counter)" and "counter \<le> counter'"
  shows "journal_sound crc (j, counter') \<and> journal_grows crc counter j j"
  using assms journal_grows_refl [of j crc counter] by (cases "j_poisoned j") (auto simp: journal_sound_def journal_grows_def)

lemma journal_step_sound:
  assumes "journal_step crc (j, counter) (j', counter')" and "journal_sound crc (j, counter)"
  shows "journal_sound crc (j', counter') \<and> counter \<le> counter' \<and> journal_grows crc counter j j'"
  using assms(1)
proof (cases rule: journal_step.cases)
  case append_step
  then show ?thesis using append_step_sound [OF assms(2)] by auto
next
  case reset_step
  then show ?thesis using reset_step_sound [OF assms(2)] by blast
next
  case made_step
  then show ?thesis using made_step_sound by blast
next
  case other_step
  then show ?thesis using other_step_sound [OF assms(2)] by simp
qed

lemma journal_grows_trans:
  assumes "journal_grows crc counter j j'" and "journal_grows crc counter' j' j''" and "counter \<le> counter'"
  shows "journal_grows crc counter j j''"
proof -
  have "\<exists>sid' qs. journal_holds crc sid' (ps @ qs) j''"
    if p: "journal_holds crc sid ps j"
      and grow: "\<forall>sid ps. journal_holds crc sid ps j \<longrightarrow> (\<exists>sid' qs. journal_holds crc sid' (ps @ qs) j')"
        "\<forall>sid ps. journal_holds crc sid ps j' \<longrightarrow> (\<exists>sid' qs. journal_holds crc sid' (ps @ qs) j'')" for sid ps
  proof -
    obtain sid' qs where "journal_holds crc sid' (ps @ qs) j'" using p grow(1) by blast
    then obtain sid'' rs where "journal_holds crc sid'' ((ps @ qs) @ rs) j''" using grow(2) by blast
    then show ?thesis by auto
  qed
  then show ?thesis using assms unfolding journal_grows_def by (elim disjE conjE) (simp_all, blast?)
qed

lemma journal_run_sound:
  assumes "journal_run crc st st'" and "journal_sound crc st"
  shows "journal_sound crc st' \<and> snd st \<le> snd st'
    \<and> (\<not> j_poisoned (fst st) \<longrightarrow> journal_grows crc (snd st) (fst st) (fst st'))"
  using assms
proof (induction rule: journal_run.induct)
  case (run_refl st)
  then show ?case by (simp add: journal_grows_refl)
next
  case (run_step st st' st'')
  then have "journal_sound crc st'' \<and> snd st' \<le> snd st'' \<and> journal_grows crc (snd st') (fst st') (fst st'')"
    using journal_step_sound [of crc "fst st'" "snd st'" "fst st''" "snd st''"] by simp
  then show ?case using run_step journal_grows_trans by fastforce
qed

text \<open>A reference of another generation, or of a part list that has only grown.\<close>

lemma read_part_grows:
  assumes sound: "journal_sound crc (j, counter)" "journal_sound crc (j', counter')"
    and grows: "journal_grows crc counter j j'" and read: "read_part j r = Inr b"
  shows "read_part j' r = Inr b \<and> (\<forall>offset len. read_part_range j' r offset len = read_part_range j r offset len)
    \<or> j_poisoned j' \<or> check_part_ref j' r = Inl (StalePartRef (pr_offset (jp_raw r)) (pr_len (jp_raw r)))"
proof (cases "j_poisoned j'")
  case False
  have healthy: "\<not> j_poisoned j" using read by (auto simp: read_poisoned)
  then obtain sid ps where j: "journal_holds crc sid ps j" using sound(1) by (auto simp: journal_sound_def)
  obtain i where i: "i < length ps" "r = \<lparr>jp_raw = refs_from 36 ps ! i, jp_generation = j_generation j\<rparr>" "b = ps ! i"
    using read read_part_iff [OF j] by blast
  show ?thesis
  proof (cases "j_generation j' = j_generation j")
    case True
    then have "\<forall>sid ps. journal_holds crc sid ps j \<longrightarrow> (\<exists>sid' qs. journal_holds crc sid' (ps @ qs) j')"
      using grows False sound(1) by (auto simp: journal_grows_def journal_sound_def)
    then obtain sid' qs where j': "journal_holds crc sid' (ps @ qs) j'" using j by blast
    have "refs_from 36 (ps @ qs) ! i = refs_from 36 ps ! i" "(ps @ qs) ! i = ps ! i"
      using i(1) by (simp_all add: refs_from_append [of 36 ps qs crc] nth_append)
    moreover have "read_part_range j' r offset len = read_part_range j r offset len" for offset len
      using read_part_range_index [OF j', of i offset len] read_part_range_index [OF j i(1), of offset len] i(1,2) True calculation
      by simp
    ultimately show ?thesis using read_part_index [OF j', of i] i True by simp
  next
    case other: False
    then show ?thesis using False i(2) by (simp add: check_part_ref_def ensure_healthy_def Let_def)
  qed
qed simp

section \<open>Crashes of a reset\<close>

text \<open>Any number of reopenings that stop anywhere, each leaving its bytes to the next.\<close>

inductive reopened :: "(u8 list \<Rightarrow> u32) \<Rightarrow> journal_config \<Rightarrow> u8 list \<Rightarrow> u8 list \<Rightarrow> bool" for crc config where
  reopened_none: "reopened crc config bytes bytes"
| reopened_again: "reopened crc config bytes (jf_bytes f)
    \<Longrightarrow> journal_open crc config False root_sync counter f = (r, f', counter')
    \<Longrightarrow> reopened crc config bytes (jf_bytes f')"

lemma reopened_committed:
  assumes "reopened crc config bytes bytes'"
    and "resetting crc config s ps bytes \<or> bytes = journal_bytes crc None []" and "validate_config config = Inr ()"
  shows "resetting crc config s ps bytes' \<or> bytes' = journal_bytes crc None []"
  using assms
proof (induction rule: reopened.induct)
  case (reopened_again bytes f root_sync counter r f' counter')
  then consider (committed) "resetting crc config s ps (jf_bytes f)" | (done_already) "jf_bytes f = journal_bytes crc None []"
    by blast
  then show ?case
  proof cases
    case committed
    then show ?thesis using open_resetting reopened_again.hyps(2) by blast
  next
    case done_already
    then have "f' = f"
      using reopened_again.hyps(2) open_canonical [OF holdable_empty [OF reopened_again.prems(2)] done_already, of root_sync counter]
      by (auto split: sum.splits option.splits)
    then show ?thesis using done_already by simp
  qed
qed simp

section \<open>Properties\<close>

text \<open>
  Reopening.  The file of a journal that holds an identity and parts is opened without writing a
  byte, whatever faults are in store; the new handle holds the same identity and parts under a fresh
  generation, and reads every part back.
\<close>

theorem reopen_roundtrip:
  assumes "journal_holds crc sid ps j" and "counter + 1 < usize_limit"
  shows "\<exists>j'. journal_open crc (j_config j) False (Inr ()) counter (j_file j) = (Inr j', j_file j, counter + 1)
     \<and> journal_holds crc sid ps j'
     \<and> (\<forall>i < length ps. read_part j' \<lparr>jp_raw = refs_from 36 ps ! i, jp_generation = counter\<rparr> = Inr (ps ! i))"
proof -
  obtain j' where j': "journal_open crc (j_config j) False (Inr ()) counter (j_file j) = (Inr j', j_file j, counter + 1)"
    "journal_holds crc sid ps j'"
    using open_holds [of crc "j_config j" sid ps "j_file j" counter] assms by (auto simp: journal_holds_def)
  moreover have "j_generation j' = counter" using journal_open_Inr [OF j'(1)] by blast
  ultimately show ?thesis using read_part_index [OF j'(2)] by auto
qed

lemma reopen_roundtrip_witness:
  "\<exists>j'. journal_open sum_crc config_default False (Inr ()) 5 (j_file demo_full) = (Inr j', j_file demo_full, 6)
     \<and> read_part j' \<lparr>jp_raw = \<lparr>pr_offset = 52, pr_len = 112\<rparr>, jp_generation = 5\<rparr> = Inr demo_part"
proof -
  have "j_config demo_full = config_default" by (simp add: demo_full_def demo_journal_def)
  then show ?thesis
    using reopen_roundtrip [OF demo_full_holds, of 5] by (auto simp: length_demo_part FRAME_HEADER_LEN_def)
qed

text \<open>
  C4. A reset survives crashes.  When a reset stops after its marker is durable, then after any number
  of reopenings that stop at any point of the recovery, a reopening without faults completes the reset:
  it returns a handle that holds the empty journal, with a synchronised file.
\<close>

theorem reset_survives_crashes:
  assumes "journal_holds crc sid ps j"
    and "journal_reset crc counter j = (Inl (ResetIncomplete e), j', counter')"
    and "reopened crc (j_config j) (jf_bytes (j_file j')) (jf_bytes f)"
    and "jf_plan f = []" and "fresh + 1 < usize_limit"
  shows "\<exists>j'' f'. journal_open crc (j_config j) False (Inr ()) fresh f = (Inr j'', f', fresh + 1)
     \<and> journal_holds crc None [] j''"
proof -
  have cfg: "validate_config (j_config j) = Inr ()" using assms(1) by (simp add: journal_holds_def holdable_def)
  have "resetting crc (j_config j) (the sid) ps (jf_bytes (j_file j')) \<or> jf_bytes (j_file j') = journal_bytes crc None []"
    using reset_effect [OF assms(1,2)] by auto
  then consider (committed) "resetting crc (j_config j) (the sid) ps (jf_bytes f)" | (empty) "jf_bytes f = journal_bytes crc None []"
    using reopened_committed [OF assms(3) _ cfg] by blast
  then show ?thesis
  proof cases
    case committed
    then show ?thesis using open_resetting_quiet [OF committed assms(4,5)] by blast
  next
    case empty
    then show ?thesis using open_holds [OF holdable_empty [OF cfg] empty assms(5)] by blast
  qed
qed

text \<open>A reset of the sample journal whose header rewrite tears after ten bytes.\<close>

definition demo_torn :: journal where
  "demo_torn = demo_full\<lparr>j_file := (j_file demo_full)\<lparr>jf_plan := [IoOk, IoOk, IoOk, IoOk, IoFail 10 UnexpectedEof]\<rparr>\<rparr>"

lemma demo_torn_holds: "journal_holds sum_crc (Some 1709164800000000) [demo_part] demo_torn"
  using demo_full_holds by (simp add: demo_torn_def journal_holds_def)

lemma demo_torn_reset:
  "\<exists>j'. journal_reset sum_crc 1 demo_torn = (Inl (ResetIncomplete UnexpectedEof), j', 2) \<and> jf_plan (j_file j') = []"
proof -
  have fields: "j_parts demo_torn \<noteq> []" "j_segment_id demo_torn = Some 1709164800000000" "\<not> j_poisoned demo_torn"
    "j_end demo_torn = 164" "jc_max_journal_len (j_config demo_torn) = 1073741824"
    "jf_plan (j_file demo_torn) = [IoOk, IoOk, IoOk, IoOk, IoFail 10 UnexpectedEof]"
    by (simp_all add: demo_torn_def demo_full_def demo_journal_def config_default_def MAX_JOURNAL_LEN_def)
  obtain m where m: "marker_new sum_crc 164 (id_bits 1709164800000000) = Some m"
    using marker_new_for [OF demo_torn_holds] fields(4) by auto
  show ?thesis
    by (simp add: journal_reset_def fields ensure_healthy_def next_journal_generation_def usize_checked_add_def frame_lens m
        write_marker_def finish_committed_reset_def write_header_def io_then_def file_seek_def write_all_def sync_data_def
        next_io_def write_some_def)
qed

lemma reset_survives_crashes_witness:
  "\<exists>j' j'' f'. journal_reset sum_crc 1 demo_torn = (Inl (ResetIncomplete UnexpectedEof), j', 2)
     \<and> journal_open sum_crc (j_config demo_torn) False (Inr ()) 2 (j_file j') = (Inr j'', f', 3)
     \<and> journal_holds sum_crc None [] j''"
proof -
  obtain j' where j': "journal_reset sum_crc 1 demo_torn = (Inl (ResetIncomplete UnexpectedEof), j', 2)" "jf_plan (j_file j') = []"
    using demo_torn_reset by blast
  then show ?thesis
    using reset_survives_crashes [OF demo_torn_holds j'(1) reopened_none j'(2), of 2] by auto
qed

text \<open>
  C9. Every handle that a process reaches is sound, whether it was made by opening a file or by taking
  over the slot of a fresh generation, with any bytes in that file, and then appended to, reset and
  replaced by further handles under any faults.  Either its file holds exactly an identity and a list of valid parts
  within the limits, with the handle's state describing it, or the handle is poisoned, and then it
  refuses every append, reset and read, of a part or of a range of one, and changes nothing.
\<close>

theorem journal_reachable_sound:
  assumes "journal_made crc counter0 (j0, counter)"
    and "journal_run crc (j0, counter) (j, counter')"
  shows "if j_poisoned j
     then \<forall>s part r n offset len. journal_append crc s part j = (Inl Poisoned, j) \<and> journal_reset crc n j = (Inl Poisoned, j, n)
        \<and> read_part j r = Inl Poisoned \<and> read_part_range j r offset len = Inl Poisoned
     else \<exists>sid ps. journal_holds crc sid ps j"
proof -
  have "journal_sound crc (j0, counter)" using made_step_sound [OF assms(1)] by blast
  then have "journal_sound crc (j, counter')" using journal_run_sound [OF assms(2)] by simp
  then show ?thesis by (auto simp: journal_sound_def append_poisoned reset_poisoned read_poisoned read_range_poisoned)
qed

text \<open>The sample file opened, and its handle reset.\<close>

lemma demo_run:
  "\<exists>j r j2 counter. journal_open sum_crc config_default False (Inr ()) 5 (j_file demo_full) = (Inr j, j_file demo_full, 6)
     \<and> read_part j \<lparr>jp_raw = \<lparr>pr_offset = 52, pr_len = 112\<rparr>, jp_generation = 5\<rparr> = Inr demo_part
     \<and> journal_reset sum_crc 6 j = (r, j2, counter) \<and> journal_run sum_crc (j, 6) (j2, counter)"
proof -
  have cfg: "j_config demo_full = config_default" by (simp add: demo_full_def demo_journal_def)
  then obtain j where j: "journal_open sum_crc config_default False (Inr ()) 5 (j_file demo_full) = (Inr j, j_file demo_full, 6)"
      "journal_holds sum_crc (Some 1709164800000000) [demo_part] j"
    using open_holds [of sum_crc "j_config demo_full" "Some 1709164800000000" "[demo_part]" "j_file demo_full" 5] demo_full_holds
    by (auto simp: journal_holds_def)
  have "j_generation j = 5" using journal_open_Inr [OF j(1)] by blast
  then have read: "read_part j \<lparr>jp_raw = \<lparr>pr_offset = 52, pr_len = 112\<rparr>, jp_generation = 5\<rparr> = Inr demo_part"
    using read_part_index [OF j(2), of 0] by (simp add: length_demo_part FRAME_HEADER_LEN_def)
  obtain r j2 counter where reset: "journal_reset sum_crc 6 j = (r, j2, counter)" by (cases "journal_reset sum_crc 6 j") auto
  have "journal_run sum_crc (j, 6) (j2, counter)" by (rule run_step [OF run_refl reset_step [OF reset]])
  then show ?thesis using j(1) read reset by blast
qed

text \<open>The slot of a fresh generation, taken over by a handle, while other handles take generations.\<close>

lemma slot_run:
  "\<exists>j. open_slot sum_crc config_default False 5 (j_file demo_journal) = (Inr j, 6)
     \<and> journal_made sum_crc 5 (j, 6) \<and> journal_run sum_crc (j, 6) (j, 9) \<and> \<not> j_poisoned j"
proof -
  have cfg: "validate_config config_default = Inr ()"
    using demo_journal_holds by (simp add: journal_holds_def holdable_def demo_journal_def)
  have bytes: "jf_bytes (j_file demo_journal) = header_encode sum_crc header_EMPTY"
    using demo_journal_holds by (simp add: journal_holds_def empty_journal_bytes)
  then have "read_file (j_file demo_journal) 0 36 = Inr (header_encode sum_crc header_EMPTY)"
    using read_file_slice [of 0 36 "j_file demo_journal"] by (simp add: slice_all)
  then obtain j where j: "open_slot sum_crc config_default False 5 (j_file demo_journal) = (Inr j, 6)" "\<not> j_poisoned j"
    by (simp add: open_slot_def cfg bytes Let_def JOURNAL_HEADER_LEN_def next_journal_generation_def usize_checked_add_def)
  have "journal_run sum_crc (j, 6) (j, 9)" by (rule run_step [OF run_refl other_step]) simp
  then show ?thesis using j made_slot [OF j(1)] by blast
qed

lemma journal_reachable_sound_witness:
  "(\<exists>j r j2 counter. journal_open sum_crc config_default False (Inr ()) 5 (j_file demo_full) = (Inr j, j_file demo_full, 6)
     \<and> journal_reset sum_crc 6 j = (r, j2, counter) \<and> (\<not> j_poisoned j2 \<longrightarrow> (\<exists>sid ps. journal_holds sum_crc sid ps j2)))
   \<and> (\<exists>j. open_slot sum_crc config_default False 5 (j_file demo_journal) = (Inr j, 6) \<and> (\<exists>sid ps. journal_holds sum_crc sid ps j))"
proof -
  obtain j r j2 counter where *: "journal_open sum_crc config_default False (Inr ()) 5 (j_file demo_full) = (Inr j, j_file demo_full, 6)"
      "journal_reset sum_crc 6 j = (r, j2, counter)" "journal_run sum_crc (j, 6) (j2, counter)"
    using demo_run by blast
  obtain i where i: "open_slot sum_crc config_default False 5 (j_file demo_journal) = (Inr i, 6)"
      "journal_made sum_crc 5 (i, 6)" "journal_run sum_crc (i, 6) (i, 9)" "\<not> j_poisoned i"
    using slot_run by blast
  show ?thesis
    using journal_reachable_sound [OF made_open [OF *(1)] *(3)] journal_reachable_sound [OF i(2,3)] *(1,2) i(1,4) by auto
qed

text \<open>
  C30. A reference never reads another part.  Once a reachable handle has read bytes for a reference,
  every handle that follows it, through appends, resets and handles made later by opening a file or
  taking over a slot, under any faults, returns for this reference the same bytes, and for each range of
  it what the first handle returns, or refuses the reference, whole or range, as stale or because the handle is poisoned.
\<close>

theorem part_refs_stable:
  assumes "journal_made crc counter0 (j0, counter)"
    and "journal_run crc (j0, counter) (j, counter')" and "read_part j r = Inr b"
    and "journal_run crc (j, counter') (j', counter'')"
  shows "(read_part j' r = Inr b \<and> (\<forall>offset len. read_part_range j' r offset len = read_part_range j r offset len))
    \<or> (\<exists>e \<in> {Poisoned, StalePartRef (pr_offset (jp_raw r)) (pr_len (jp_raw r))}.
          read_part j' r = Inl e \<and> (\<forall>offset len. read_part_range j' r offset len = Inl e))"
proof -
  have "journal_sound crc (j0, counter)" using made_step_sound [OF assms(1)] by blast
  then have j: "journal_sound crc (j, counter')" using journal_run_sound [OF assms(2)] by simp
  have "\<not> j_poisoned j" using assms(3) by (auto simp: read_poisoned)
  then have "journal_sound crc (j', counter'')" "journal_grows crc counter' j j'"
    using journal_run_sound [OF assms(4) j] by simp_all
  from read_part_grows [OF j this assms(3)] show ?thesis
    using read_poisoned [of j' r] read_range_poisoned [of j' r] by (auto simp: read_part_def read_part_range_def)
qed

lemma part_refs_stable_witness:
  "\<exists>j r j2 counter. journal_open sum_crc config_default False (Inr ()) 5 (j_file demo_full) = (Inr j, j_file demo_full, 6)
     \<and> journal_reset sum_crc 6 j = (r, j2, counter)
     \<and> read_part j2 \<lparr>jp_raw = \<lparr>pr_offset = 52, pr_len = 112\<rparr>, jp_generation = 5\<rparr> \<in> {Inr demo_part, Inl Poisoned, Inl (StalePartRef 52 112)}"
proof -
  obtain j r j2 counter where *: "journal_open sum_crc config_default False (Inr ()) 5 (j_file demo_full) = (Inr j, j_file demo_full, 6)"
      "journal_reset sum_crc 6 j = (r, j2, counter)" "journal_run sum_crc (j, 6) (j2, counter)"
      "read_part j \<lparr>jp_raw = \<lparr>pr_offset = 52, pr_len = 112\<rparr>, jp_generation = 5\<rparr> = Inr demo_part"
    using demo_run by blast
  then show ?thesis using part_refs_stable [OF made_open [OF *(1)] run_refl *(4) *(3)] by auto
qed

end
