(* ===== verification/Journal_Recovery.thy ===== *)
theory Journal_Recovery
  imports Journal_Life
begin

text \<open>
  Inspection and bounded replay of a rotated journal generation
  (\<open>crates/kronika-writer/src/recovery.rs\<close>): the classification of the evidence, the bounded scan
  behind a trusted header, and the replay of the verified parts through the append of a fresh
  journal.

  The evidence is its bytes.  \<open>changed k\<close> tells whether the \<open>k\<close>-th comparison of the file's
  identity sees another identity; the failure to reserve a buffer is not modelled.
\<close>

section \<open>Data\<close>

datatype journal_recovery_reason =
    ZeroLength | TornHeaderBytes | UnsupportedHeader | InvalidHeaderBytes | EmptyWithTrailingBytes
  | UnsupportedSegmentId | LengthMismatch | FrameDamage | ActiveWithoutFrames | AdmissionLimit | Clean

record journal_recovery_summary =
  js_reason :: journal_recovery_reason
  js_trusted_segment_id :: "int option"
  js_evidence_bytes :: nat
  js_recorded_body_bytes :: "nat option"
  js_physical_body_bytes :: nat
  js_body_length_mismatch :: bool
  js_verified_frames :: nat
  js_verified_rows :: nat
  js_verified_part_bytes :: nat
  js_discarded_bytes :: nat
  js_discarded_suffix_bytes :: nat
  js_damages :: "recovery_damage_region list"
  js_scan_stop :: "recovery_scan_stop option"

record journal_recovery =
  jr_source :: "u8 list"
  jr_parts :: "part_ref list"
  jr_summary :: journal_recovery_summary

record journal_replay_summary =
  rp_frames :: nat
  rp_rows :: nat
  rp_part_bytes :: nat

datatype journal_recovery_error =
    RecoveryConfig journal_error
  | RecoveryIo io_error
  | RecoveryScan recovery_scan_error
  | SourceChanged
  | DestinationNotFresh
  | MissingTrustedSegmentId
  | VerifiedPartChanged part_error
  | ReplayAppend nat journal_error
  | ReplayOverflow string

section \<open>Inspection\<close>

definition recovery_limits_of :: "journal_config \<Rightarrow> recovery_scan_limits" where
  "recovery_limits_of config =
     \<lparr>rl_journal = jc_limits config,
      rl_max_scan_bytes = max (jc_max_journal_len config - JOURNAL_HEADER_LEN) 1,
      rl_max_parts = jc_max_parts config,
      rl_max_candidates = MAX_RECOVERY_CANDIDATES,
      rl_max_candidate_bytes = max (jc_max_journal_len config) 1\<rparr>"

definition without_scan ::
  "bool \<Rightarrow> u8 list \<Rightarrow> journal_recovery_reason \<Rightarrow> nat \<Rightarrow> journal_recovery_error + journal_recovery" where
  "without_scan changed source reason discarded_bytes =
     (if changed then Inl SourceChanged
      else Inr \<lparr>jr_source = source, jr_parts = [], jr_summary =
        \<lparr>js_reason = reason, js_trusted_segment_id = None, js_evidence_bytes = length source,
         js_recorded_body_bytes = None, js_physical_body_bytes = 0, js_body_length_mismatch = False,
         js_verified_frames = 0, js_verified_rows = 0, js_verified_part_bytes = 0,
         js_discarded_bytes = discarded_bytes, js_discarded_suffix_bytes = discarded_bytes,
         js_damages = [], js_scan_stop = None\<rparr>\<rparr>)"

definition with_header_without_scan ::
  "bool \<Rightarrow> u8 list \<Rightarrow> journal_recovery_reason \<Rightarrow> nat \<Rightarrow> nat \<Rightarrow> journal_recovery_error + journal_recovery" where
  "with_header_without_scan changed source reason recorded_body_bytes physical_body_bytes =
     (if changed then Inl SourceChanged
      else Inr \<lparr>jr_source = source, jr_parts = [], jr_summary =
        \<lparr>js_reason = reason, js_trusted_segment_id = None, js_evidence_bytes = length source,
         js_recorded_body_bytes = Some recorded_body_bytes, js_physical_body_bytes = physical_body_bytes,
         js_body_length_mismatch = (recorded_body_bytes \<noteq> physical_body_bytes),
         js_verified_frames = 0, js_verified_rows = 0, js_verified_part_bytes = 0,
         js_discarded_bytes = physical_body_bytes, js_discarded_suffix_bytes = physical_body_bytes,
         js_damages = [], js_scan_stop = None\<rparr>\<rparr>)"

definition scanned_reason :: "recovery_scan_report \<Rightarrow> bool \<Rightarrow> journal_recovery_reason" where
  "scanned_reason scan body_length_mismatch =
     (if rr_stop scan \<noteq> EndOfSource then AdmissionLimit
      else if body_length_mismatch then LengthMismatch
      else if rr_damages scan \<noteq> [] then FrameDamage
      else if rr_parts scan = [] then ActiveWithoutFrames
      else Clean)"

definition recovery_inspect ::
  "(u8 list \<Rightarrow> u32) \<Rightarrow> journal_config \<Rightarrow> bool \<Rightarrow> u8 list \<Rightarrow> journal_recovery_error + journal_recovery" where
  "recovery_inspect crc config changed source =
     (case validate_config config of Inl e \<Rightarrow> Inl (RecoveryConfig e) | Inr _ \<Rightarrow>
      let evidence_bytes = length source in
      if evidence_bytes = 0 then without_scan changed source ZeroLength 0
      else if evidence_bytes < JOURNAL_HEADER_LEN then without_scan changed source TornHeaderBytes evidence_bytes
      else
        case slice_read source 0 JOURNAL_HEADER_LEN of Inl e \<Rightarrow> Inl (RecoveryIo e) | Inr encoded \<Rightarrow>
        (case header_decode crc encoded of
           Inl (UnsupportedMagic _) \<Rightarrow> without_scan changed source UnsupportedHeader evidence_bytes
         | Inl (UnsupportedVersion _) \<Rightarrow> without_scan changed source UnsupportedHeader evidence_bytes
         | Inl _ \<Rightarrow> without_scan changed source InvalidHeaderBytes evidence_bytes
         | Inr header \<Rightarrow>
             let physical_body_bytes = evidence_bytes - JOURNAL_HEADER_LEN;
                 recorded = unat (jh_body_len header) in
             case jh_state header of
               Empty \<Rightarrow>
                 with_header_without_scan changed source
                   (if recorded \<noteq> physical_body_bytes then LengthMismatch
                    else if physical_body_bytes = 0 then Clean else EmptyWithTrailingBytes)
                   recorded physical_body_bytes
             | Active bits \<Rightarrow>
                 (case segment_id_new (sint bits) of
                    Inl _ \<Rightarrow> with_header_without_scan changed source UnsupportedSegmentId recorded physical_body_bytes
                  | Inr segment_id \<Rightarrow>
                      (case scan_journal_streaming_recovery_from crc (slice_read source) (slice_byte_len source)
                              (slice_byte_len source) JOURNAL_HEADER_LEN (recovery_limits_of config) of
                         Inl e \<Rightarrow> Inl (RecoveryScan e)
                       | Inr scan \<Rightarrow>
                           if changed then Inl SourceChanged
                           else
                             let mismatch = (recorded \<noteq> physical_body_bytes) in
                             Inr \<lparr>jr_source = source, jr_parts = rr_parts scan, jr_summary =
                               \<lparr>js_reason = scanned_reason scan mismatch, js_trusted_segment_id = Some segment_id,
                                js_evidence_bytes = evidence_bytes, js_recorded_body_bytes = Some recorded,
                                js_physical_body_bytes = physical_body_bytes, js_body_length_mismatch = mismatch,
                                js_verified_frames = length (rr_parts scan), js_verified_rows = rr_recovered_rows scan,
                                js_verified_part_bytes = rr_recovered_part_bytes scan,
                                js_discarded_bytes = rr_discarded_bytes scan,
                                js_discarded_suffix_bytes = rr_discarded_suffix_bytes scan,
                                js_damages = rr_damages scan, js_scan_stop = Some (rr_stop scan)\<rparr>\<rparr>))))"

section \<open>Replay\<close>

definition count_replayed ::
  "journal_replay_summary \<Rightarrow> nat \<Rightarrow> nat \<Rightarrow> journal_recovery_error + journal_replay_summary" where
  "count_replayed recovered rows bytes =
     (case usize_checked_add (rp_frames recovered) 1 of None \<Rightarrow> Inl (ReplayOverflow ''frame count'') | Some frames \<Rightarrow>
      case u64_checked_add (rp_rows recovered) rows of None \<Rightarrow> Inl (ReplayOverflow ''row'') | Some rows' \<Rightarrow>
      case u64_checked_add (rp_part_bytes recovered) bytes of None \<Rightarrow> Inl (ReplayOverflow ''part byte'') | Some bytes' \<Rightarrow>
      Inr \<lparr>rp_frames = frames, rp_rows = rows', rp_part_bytes = bytes'\<rparr>)"

text \<open>The part is reread and validated again, with the identity compared around the read.\<close>

definition replay_part ::
  "(u8 list \<Rightarrow> u32) \<Rightarrow> u8 list \<Rightarrow> (nat \<Rightarrow> bool) \<Rightarrow> nat \<Rightarrow> int \<Rightarrow> part_ref \<Rightarrow> journal_replay_summary \<Rightarrow> journal
   \<Rightarrow> (journal_recovery_error + journal_replay_summary) \<times> journal" where
  "replay_part crc source changed k sid part recovered destination =
     (if changed k then (Inl SourceChanged, destination)
      else case slice_read source (of_nat (pr_offset part)) (pr_len part) of
        Inl e \<Rightarrow> (Inl (RecoveryIo e), destination)
      | Inr bytes \<Rightarrow>
          if changed (k + 1) then (Inl SourceChanged, destination)
          else case validate_part crc bytes of
            Inl e \<Rightarrow> (Inl (VerifiedPartChanged e), destination)
          | Inr catalog \<Rightarrow>
              (case sum_rows (c_entries catalog) 0 of
                 None \<Rightarrow> (Inl (ReplayOverflow ''row''), destination)
               | Some rows \<Rightarrow>
                   (case journal_append crc sid bytes destination of
                      (Inl e, destination) \<Rightarrow> (Inl (ReplayAppend (rp_frames recovered) e), destination)
                    | (Inr _, destination) \<Rightarrow> (count_replayed recovered (unat rows) (length bytes), destination))))"

fun replay_parts ::
  "(u8 list \<Rightarrow> u32) \<Rightarrow> u8 list \<Rightarrow> (nat \<Rightarrow> bool) \<Rightarrow> nat \<Rightarrow> int \<Rightarrow> part_ref list \<Rightarrow> journal_replay_summary \<Rightarrow> journal
   \<Rightarrow> (journal_recovery_error + journal_replay_summary) \<times> journal" where
  "replay_parts crc source changed k sid [] recovered destination =
     (if changed k then Inl SourceChanged else Inr recovered, destination)"
| "replay_parts crc source changed k sid (part # parts) recovered destination =
     (case replay_part crc source changed k sid part recovered destination of
        (Inl e, destination) \<Rightarrow> (Inl e, destination)
      | (Inr recovered, destination) \<Rightarrow> replay_parts crc source changed (k + 2) sid parts recovered destination)"

definition replay_into ::
  "(u8 list \<Rightarrow> u32) \<Rightarrow> (nat \<Rightarrow> bool) \<Rightarrow> journal_recovery \<Rightarrow> journal
   \<Rightarrow> (journal_recovery_error + journal_replay_summary) \<times> journal" where
  "replay_into crc changed recovery destination =
     (if j_parts destination \<noteq> [] \<or> j_segment_id destination \<noteq> None then (Inl DestinationNotFresh, destination)
      else if jr_parts recovery = [] then (Inr \<lparr>rp_frames = 0, rp_rows = 0, rp_part_bytes = 0\<rparr>, destination)
      else case js_trusted_segment_id (jr_summary recovery) of
        None \<Rightarrow> (Inl MissingTrustedSegmentId, destination)
      | Some sid \<Rightarrow>
          if changed 0 then (Inl SourceChanged, destination)
          else replay_parts crc (jr_source recovery) changed 1 sid (jr_parts recovery)
                 \<lparr>rp_frames = 0, rp_rows = 0, rp_part_bytes = 0\<rparr> destination)"

section \<open>Verified parts\<close>

definition part_body :: "u8 list \<Rightarrow> part_ref \<Rightarrow> u8 list" where
  "part_body source ref = subslice (pr_offset ref) (pr_offset ref + pr_len ref) source"

lemma ref_ok_body:
  assumes "ref_ok crc limits source ref"
  shows "part_ok crc limits (part_body source ref)" "length (part_body source ref) = pr_len ref"
    "subslice (pr_offset ref - FRAME_HEADER_LEN) (pr_offset ref + pr_len ref) source = frame_bytes crc (part_body source ref)"
proof -
  let ?from = "pr_offset ref - FRAME_HEADER_LEN" and ?to = "pr_offset ref + pr_len ref"
  obtain p where at: "FRAME_HEADER_LEN \<le> pr_offset ref" and p: "length p = pr_len ref" "part_ok crc limits p"
    "subslice ?from ?to source = frame_bytes crc p"
    using assms by (auto simp: ref_ok_def)
  have "part_body source ref = drop 16 (subslice ?from ?to source)"
    using at by (simp add: part_body_def subslice_def drop_take FRAME_HEADER_LEN_def)
  also have "\<dots> = p" by (simp add: p(3) frame_bytes_def)
  finally have "part_body source ref = p" .
  with p show "part_ok crc limits (part_body source ref)" "length (part_body source ref) = pr_len ref"
    "subslice ?from ?to source = frame_bytes crc (part_body source ref)" by simp_all
qed

lemma unat_positive: "(w :: u64) \<noteq> 0 \<Longrightarrow> 0 < unat w"
  by (metis gr0I unat_eq_zero)

lemma recovery_limits_valid:
  "validate_config config = Inr () \<Longrightarrow> validate_recovery_limits (recovery_limits_of config) = Inr ()"
  by (auto simp: validate_config_def validate_recovery_limits_ok recovery_limits_of_def MAX_JOURNAL_LEN_def
      MAX_RECOVERY_CANDIDATES_def JOURNAL_HEADER_LEN_def unat_positive split: if_splits)

text \<open>A fault-free append leaves no fault in store.\<close>

lemma append_quiet_plan:
  assumes "jf_plan (j_file j) = []"
  shows "jf_plan (j_file (snd (journal_append crc s part j))) = []"
proof (cases "append_admission crc j s part")
  case (Inl e)
  then show ?thesis using assms by (simp add: journal_append_def)
next
  case (Inr n)
  let ?new = "\<lparr>jh_state = Active (id_bits s), jh_body_len = of_nat (n - JOURNAL_HEADER_LEN)\<rparr>"
  let ?fh = "frame_encode crc \<lparr>fh_part_len = of_nat (length part)\<rparr>"
  obtain u f where "append_writes crc (j_parts j = []) (j_end j) ?new ?fh part (j_file j) = (Inr u, f)" "jf_plan f = []"
    using quiet_cases [OF quiet_append_writes [OF assms]] by blast
  then show ?thesis using Inr by (simp add: journal_append_def Let_def)
qed

section \<open>A failed append whose rollback fails\<close>

text \<open>
  The handle is poisoned and still describes the parts that it held before, and the file still has their
  frames behind its first 36 bytes: only the root header and the bytes behind the frames may be torn.
\<close>

definition journal_damaged :: "(u8 list \<Rightarrow> u32) \<Rightarrow> u8 list list \<Rightarrow> journal \<Rightarrow> bool" where
  "journal_damaged crc ps j \<longleftrightarrow> j_poisoned j \<and> frames_kept (frames_of crc ps) (jf_bytes (j_file j))
     \<and> j_end j = 36 + length (frames_of crc ps) \<and> map jp_raw (j_parts j) = refs_from 36 ps"

lemma frames_kept_parts:
  assumes "frames_kept frames bytes"
  obtains h tail where "length h = 36" "bytes = h @ frames @ tail"
proof
  show "length (take 36 bytes) = 36" using assms by (simp add: frames_kept_def)
  show "bytes = take 36 bytes @ frames @ drop (length frames) (drop 36 bytes)"
    using assms append_take_drop_id [of "length frames" "drop 36 bytes"] append_take_drop_id [of 36 bytes]
    by (simp add: frames_kept_def)
qed

lemma rollback_Inl:
  assumes run: "rollback crc n h f = (Inl e, f')" and kept: "frames_kept frames (jf_bytes f)" and n: "n = 36 + length frames"
  shows "frames_kept frames (jf_bytes f')"
proof -
  obtain old tail where f: "length old = 36" "jf_bytes f = old @ frames @ tail" using frames_kept_parts [OF kept] .
  have cut: "jf_bytes f1 = old @ frames @ []" if "set_len n f = (Inr (), f1)" for f1
    using set_len_Inr [OF that] f n by simp
  consider "set_len n f = (Inl e, f')"
    | f1 where "set_len n f = (Inr (), f1)" "write_header crc h f1 = (Inl e, f')"
    | f1 f2 where "set_len n f = (Inr (), f1)" "write_header crc h f1 = (Inr (), f2)" "sync_data f2 = (Inl e, f')"
    using run by (auto simp: rollback_def io_then_Inl)
  then show ?thesis
  proof cases
    case 1
    then show ?thesis using set_len_Inl [OF 1] kept by simp
  next
    case 2
    obtain k where "k \<le> 36" "jf_bytes f' = torn_rewrite k (header_encode crc h) (old @ frames @ [])"
      using write_header_Inl [OF 2(2)] unfolding cut [OF 2(1)] by blast
    then show ?thesis using frames_kept_torn [OF _ _ f(1), of "header_encode crc h" k frames "[]"] by simp
  next
    case 3
    have "jf_bytes f2 = header_encode crc h @ frames @ []"
      using write_header_Inr [OF 3(2)] f(1) by (simp add: cut [OF 3(1)])
    then show ?thesis using sync_Inl [OF 3(3)] frames_kept_append [of "header_encode crc h" frames "[]"] by simp
  qed
qed

lemma append_damaged:
  assumes j: "journal_holds crc sid ps j" and run: "journal_append crc s part j = (r, j')" and bad: "j_poisoned j'"
  shows "journal_damaged crc ps j'"
proof (cases "append_admission crc j s part")
  case (Inl e)
  then show ?thesis using run j bad by (auto simp: journal_append_def journal_holds_def)
next
  case (Inr n)
  let ?h = "\<lparr>jh_state = Active (id_bits s), jh_body_len = of_nat (n - JOURNAL_HEADER_LEN)\<rparr>"
  let ?fh = "frame_encode crc \<lparr>fh_part_len = of_nat (length part)\<rparr>"
  have healthy: "\<not> j_poisoned j" and end_at: "j_end j = 36 + length (frames_of crc ps)"
    and bytes: "jf_bytes (j_file j) = header_encode crc (header_for crc sid ps) @ frames_of crc ps"
    and at: "j_end j = length (jf_bytes (j_file j))"
    and raw: "map jp_raw (j_parts j) = refs_from 36 ps"
    using j by (simp_all add: journal_holds_def journal_bytes_def comp_def)
  have first: "j_parts j = [] \<longleftrightarrow> frames_of crc ps = []"
    using j by (cases ps) (auto simp: journal_holds_def frame_bytes_def dest: arg_cong [of _ _ length])
  obtain w f where w: "append_writes crc (j_parts j = []) (j_end j) ?h ?fh part (j_file j) = (w, f)" by fastforce
  obtain io where io: "w = Inl io"
    using run Inr w bad healthy by (cases w) (auto simp: journal_append_def Let_def)
  have kept: "frames_kept (frames_of crc ps) (jf_bytes f)"
    using append_writes_effect(2) [OF bytes at first] w io by simp
  obtain q f' where q: "rollback crc (j_end j) (current_header j) f = (q, f')" by fastforce
  obtain rb where "q = Inl rb"
    using run Inr w io q bad healthy by (cases q) (auto simp: journal_append_def Let_def roll_back_or_poison_def)
  then have "frames_kept (frames_of crc ps) (jf_bytes f')" "j' = j\<lparr>j_file := f', j_poisoned := True\<rparr>"
    using rollback_Inl [OF _ kept end_at] run Inr w io q
    by (simp_all add: journal_append_def Let_def roll_back_or_poison_def)
  then show ?thesis using end_at raw by (simp add: journal_damaged_def)
qed

section \<open>Replay through append\<close>

definition sid_for :: "int \<Rightarrow> u8 list list \<Rightarrow> int option" where
  "sid_for sid ps = (if ps = [] then None else Some sid)"

definition replay_counts :: "journal_replay_summary \<Rightarrow> u8 list list \<Rightarrow> bool" where
  "replay_counts recovered ps \<longleftrightarrow> rp_frames recovered = length ps
     \<and> rp_part_bytes recovered = sum_list (map length ps) \<and> rp_rows recovered \<le> 2048 * rp_part_bytes recovered"

lemma frames_of_length: "length (frames_of crc ps) = 16 * length ps + sum_list (map length ps)"
  by (induction ps) auto

lemma holds_config: "journal_holds crc sid ps j \<Longrightarrow> holdable crc (j_config j) sid ps"
  by (simp add: journal_holds_def)

lemma count_replayed_Inr:
  assumes counts: "replay_counts recovered ps" and small: "holdable crc config sid (ps @ [p])" and rows: "rows \<le> 2048 * length p"
  shows "\<exists>recovered'. count_replayed recovered rows (length p) = Inr recovered' \<and> replay_counts recovered' (ps @ [p])"
proof -
  have "36 + (16 * length (ps @ [p]) + sum_list (map length (ps @ [p]))) \<le> 1073741824"
    using holdable_small [OF small] by (simp only: frames_of_length)
  then have "rp_frames recovered + 1 < usize_limit" "rp_part_bytes recovered + length p < 2 ^ 64"
    "rp_rows recovered + rows < 2 ^ 64"
    using counts rows by (auto simp: replay_counts_def)
  then show ?thesis
    using counts rows by (simp add: count_replayed_def usize_checked_add_def u64_checked_add_def replay_counts_def)
qed

lemma append_config:
  "journal_append crc s part j = (r, j') \<Longrightarrow> j_config j' = j_config j"
  by (auto simp: journal_append_def roll_back_or_poison_def Let_def split: sum.splits prod.splits)

lemma replay_part_effect:
  assumes source: "length source < usize_limit" and ref: "ref_ok crc limits source part"
    and d: "journal_holds crc (sid_for sid ps) ps d" and sid: "segment_id_new sid = Inr sid"
    and counts: "replay_counts recovered ps"
    and run: "replay_part crc source changed k sid part recovered d = (r, d')"
  shows "case r of
      Inl e \<Rightarrow> journal_damaged crc ps d' \<or> journal_holds crc (sid_for sid ps) ps d'
    | Inr recovered' \<Rightarrow> journal_holds crc (Some sid) (ps @ [part_body source part]) d'
        \<and> replay_counts recovered' (ps @ [part_body source part]) \<and> j_config d' = j_config d"
    and "jf_plan (j_file d) = [] \<Longrightarrow> \<not> changed k \<Longrightarrow> \<not> changed (k + 1) \<Longrightarrow>
      can_append crc (j_config d) (sid_for sid ps) ps sid (part_body source part) \<Longrightarrow>
      (\<exists>recovered'. r = Inr recovered') \<and> jf_plan (j_file d') = []"
proof -
  let ?p = "part_body source part"
  note body = ref_ok_body [OF ref]
  have read: "slice_read source (of_nat (pr_offset part)) (pr_len part) = Inr ?p"
    using slice_reader.read_in_range [OF source] ref by (simp add: ref_ok_def part_body_def)
  obtain c where c: "validate_part crc ?p = Inr c" using body(1) by (auto simp: part_ok_def)
  have len: "length ?p < usize_limit" using body(1) by (rule part_ok_small)
  obtain x where x: "sum_rows (c_entries c) 0 = Some x" using valid_part_rows [OF c len] by blast
  have rows: "unat x \<le> 2048 * length ?p" using valid_part_rows_bound [OF c len x] .
  obtain a d1 where app: "journal_append crc sid ?p d = (a, d1)" by fastforce
  note effect = append_effect [OF d sid app]
  have step: "replay_part crc source changed k sid part recovered d =
      (if changed k \<or> changed (k + 1) then (Inl SourceChanged, d)
       else case a of Inl e \<Rightarrow> (Inl (ReplayAppend (rp_frames recovered) e), d1)
            | Inr _ \<Rightarrow> (count_replayed recovered (unat x) (length ?p), d1))"
    by (simp add: replay_part_def read c x app split: sum.split)
  have ok: "\<exists>recovered'. count_replayed recovered (unat x) (length ?p) = Inr recovered' \<and> replay_counts recovered' (ps @ [?p])"
    if "a = Inr ref" for ref
    using count_replayed_Inr [OF counts _ rows, of crc "j_config d1" "Some sid"] effect that by (auto simp: journal_holds_def)
  show "case r of
      Inl e \<Rightarrow> journal_damaged crc ps d' \<or> journal_holds crc (sid_for sid ps) ps d'
    | Inr recovered' \<Rightarrow> journal_holds crc (Some sid) (ps @ [?p]) d'
        \<and> replay_counts recovered' (ps @ [?p]) \<and> j_config d' = j_config d"
  proof (cases "changed k \<or> changed (k + 1)")
    case True
    then show ?thesis using run step d by auto
  next
    case False
    show ?thesis
    proof (cases a)
      case (Inl e)
      then show ?thesis using run step False effect append_damaged [OF d app] by auto
    next
      case (Inr ref')
      then show ?thesis using run step False effect ok append_config [OF app] by auto
    qed
  qed
  show "(\<exists>recovered'. r = Inr recovered') \<and> jf_plan (j_file d') = []"
    if plan: "jf_plan (j_file d) = []" "\<not> changed k" "\<not> changed (k + 1)"
      and can: "can_append crc (j_config d) (sid_for sid ps) ps sid ?p"
  proof -
    obtain ref' where "a = Inr ref'"
      using append_quiet [OF plan(1)] can admission_can_append [OF d, of sid ?p] app by fastforce
    then show ?thesis using run step plan ok append_quiet_plan [OF plan(1), of crc sid ?p] app by auto
  qed
qed

lemma sid_for_snoc [simp]: "sid_for sid (ps @ [p]) = Some sid"
  by (simp add: sid_for_def)

text \<open>What a replay leaves of the bodies that it had stored when it stopped.\<close>

definition replayed :: "(u8 list \<Rightarrow> u32) \<Rightarrow> int \<Rightarrow> u8 list list \<Rightarrow> journal \<Rightarrow> bool" where
  "replayed crc sid ps d \<longleftrightarrow> journal_damaged crc ps d \<or> journal_holds crc (sid_for sid ps) ps d"

lemma replay_parts_effect:
  assumes "length source < usize_limit" and "\<forall>ref \<in> set parts. ref_ok crc limits source ref"
    and "journal_holds crc (sid_for sid ps) ps d"
    and "segment_id_new sid = Inr sid" and "replay_counts recovered ps"
    and "replay_parts crc source changed k sid parts recovered d = (r, d')"
  shows "case r of
      Inl e \<Rightarrow> \<exists>n \<le> length parts. replayed crc sid (ps @ map (part_body source) (take n parts)) d'
    | Inr recovered' \<Rightarrow> journal_holds crc (sid_for sid (ps @ map (part_body source) parts)) (ps @ map (part_body source) parts) d'
        \<and> replay_counts recovered' (ps @ map (part_body source) parts)"
  using assms
proof (induction parts arbitrary: k ps recovered d)
  case Nil
  then show ?case by (auto simp: replayed_def split: if_splits)
next
  case (Cons part parts)
  let ?p = "part_body source part"
  obtain r1 d1 where one: "replay_part crc source changed k sid part recovered d = (r1, d1)" by fastforce
  have ref: "ref_ok crc limits source part" using Cons.prems by simp
  note effect = replay_part_effect(1) [OF Cons.prems(1) ref Cons.prems(3,4,5) one]
  show ?case
  proof (cases r1)
    case (Inl e)
    then have r: "r = Inl e" "d' = d1" using Cons.prems(6) one by simp_all
    have "0 \<le> length (part # parts) \<and> replayed crc sid (ps @ map (part_body source) (take 0 (part # parts))) d1"
      using effect Inl by (simp add: replayed_def)
    then show ?thesis unfolding r sum.case by blast
  next
    case (Inr recovered1)
    have IH: "case r of
        Inl e \<Rightarrow> \<exists>n \<le> length parts. replayed crc sid ((ps @ [?p]) @ map (part_body source) (take n parts)) d'
      | Inr recovered' \<Rightarrow> journal_holds crc (sid_for sid ((ps @ [?p]) @ map (part_body source) parts)) ((ps @ [?p]) @ map (part_body source) parts) d'
          \<and> replay_counts recovered' ((ps @ [?p]) @ map (part_body source) parts)"
      using Cons.prems effect Inr one by (intro Cons.IH) auto
    show ?thesis
    proof (cases r)
      case (Inl e)
      then obtain n where "n \<le> length parts" "replayed crc sid ((ps @ [?p]) @ map (part_body source) (take n parts)) d'"
        using IH by auto
      then have "Suc n \<le> length (part # parts) \<and> replayed crc sid (ps @ map (part_body source) (take (Suc n) (part # parts))) d'"
        by simp
      then show ?thesis unfolding Inl sum.case by blast
    next
      case (Inr recovered')
      then show ?thesis using IH by simp
    qed
  qed
qed

text \<open>Without faults, changes or a full destination every part is replayed.\<close>

lemma holds_limits_kept:
  "journal_holds crc sid ps j \<Longrightarrow> length ps \<le> jc_max_parts (j_config j)"
  by (simp add: journal_holds_def holdable_def)

lemma replay_parts_complete:
  assumes "length source < usize_limit" and "\<forall>ref \<in> set parts. ref_ok crc limits source ref"
    and "journal_holds crc (sid_for sid ps) ps d" and "j_config d = config \<and> jc_limits config = limits"
    and "segment_id_new sid = Inr sid" and "replay_counts recovered ps"
    and "jf_plan (j_file d) = []" and "\<forall>k. \<not> changed k"
    and "length ps + length parts \<le> jc_max_parts config"
    and "36 + length (frames_of crc (ps @ map (part_body source) parts)) + 32 \<le> jc_max_journal_len config"
  shows "\<exists>recovered'. fst (replay_parts crc source changed k sid parts recovered d) = Inr recovered'"
  using assms
proof (induction parts arbitrary: k ps recovered d)
  case Nil
  then show ?case by simp
next
  case (Cons part parts)
  let ?p = "part_body source part"
  obtain r1 d1 where one: "replay_part crc source changed k sid part recovered d = (r1, d1)" by fastforce
  have ref: "ref_ok crc (jc_limits (j_config d)) source part" using Cons.prems by simp
  have room: "36 + length (frames_of crc ((ps @ [?p]) @ map (part_body source) parts)) + 32 \<le> jc_max_journal_len config"
    using Cons.prems(10) by simp
  have can: "can_append crc (j_config d) (sid_for sid ps) ps sid ?p"
    using Cons.prems(4,9) room ref_ok_body(1) [OF ref] by (auto simp: can_append_def sid_for_def)
  note effect = replay_part_effect [OF Cons.prems(1) ref Cons.prems(3,5,6) one]
  obtain recovered1 where r1: "r1 = Inr recovered1" "jf_plan (j_file d1) = []"
    using effect(2) Cons.prems(7,8) can by blast
  have "\<exists>recovered'. fst (replay_parts crc source changed (k + 2) sid parts recovered1 d1) = Inr recovered'"
    using effect(1) r1 Cons.prems room by (intro Cons.IH [of "ps @ [?p]"]) auto
  then show ?case using one r1 by simp
qed

section \<open>What the inspection establishes\<close>

text \<open>A successful inspection that finds parts has a trusted identity and the report of the scanner.\<close>

lemma inspect_parts:
  assumes run: "recovery_inspect crc config changed source = Inr rec" and small: "length source < usize_limit"
  shows "validate_config config = Inr () \<and> jr_source rec = source \<and>
    (jr_parts rec = [] \<and> js_verified_frames (jr_summary rec) = 0 \<and> js_verified_part_bytes (jr_summary rec) = 0
     \<or> (\<exists>sid scan. js_trusted_segment_id (jr_summary rec) = Some sid \<and> segment_id_new sid = Inr sid
         \<and> jr_parts rec = rr_parts scan \<and> js_verified_frames (jr_summary rec) = length (rr_parts scan)
         \<and> js_verified_part_bytes (jr_summary rec) = rr_recovered_part_bytes scan
         \<and> report_tiles crc (jc_limits config) source 36 scan
         \<and> report_accounts (recovery_limits_of config) source 36 scan))"
proof -
  have cfg: "validate_config config = Inr ()" using run by (auto simp: recovery_inspect_def split: sum.splits)
  have scans: "\<exists>r. scan_journal_streaming_recovery_from crc (slice_read source) (slice_byte_len source)
      (slice_byte_len source) 36 (recovery_limits_of config) = Inr r
    \<and> report_tiles crc (jc_limits config) source 36 r \<and> report_accounts (recovery_limits_of config) source 36 r"
    if "36 \<le> length source"
    using slice_reader.recovery_scan_report [OF small recovery_limits_valid [OF cfg] that, of crc]
    by (auto simp: recovery_limits_of_def)
  note unfold = recovery_inspect_def cfg without_scan_def with_header_without_scan_def JOURNAL_HEADER_LEN_def Let_def
  consider (none) "jr_source rec = source" "jr_parts rec = []" "js_verified_frames (jr_summary rec) = 0"
      "js_verified_part_bytes (jr_summary rec) = 0"
    | (scanned) bits h where "36 \<le> length source" "header_decode crc (take 36 source) = Inr h" "jh_state h = Active bits"
        "segment_id_new (sint bits) = Inr (sint bits)"
  proof (cases "length source < 36")
    case True
    then show ?thesis using run by (intro none) (auto simp: unfold split: if_splits)
  next
    case False
    then have rd: "slice_read source 0 36 = Inr (take 36 source)"
      using slice_reader.read_in_range [OF small, of 0 36] by (simp add: slice_0)
    show ?thesis
    proof (cases "header_decode crc (take 36 source)")
      case (Inl e)
      then show ?thesis using run False rd by (intro none) (auto simp: unfold split: if_splits journal_header_error.splits)
    next
      case (Inr h)
      show ?thesis
      proof (cases "jh_state h")
        case Empty
        then show ?thesis using run False rd Inr by (intro none) (auto simp: unfold split: if_splits)
      next
        case (Active bits)
        show ?thesis
        proof (cases "segment_id_new (sint bits)")
          case (Inl e)
          then show ?thesis using run False rd Inr Active by (intro none) (auto simp: unfold split: if_splits)
        next
          case ok: (Inr sid)
          then show ?thesis using scanned [of h bits] False Inr Active segment_id_new_same [OF ok] by simp
        qed
      qed
    qed
  qed
  then show ?thesis
  proof cases
    case none
    then show ?thesis using cfg by simp
  next
    case scanned
    have rd: "slice_read source 0 36 = Inr (take 36 source)"
      using slice_reader.read_in_range [OF small, of 0 36] scanned(1) by (simp add: slice_0)
    obtain r where r: "scan_journal_streaming_recovery_from crc (slice_read source) (slice_byte_len source)
      (slice_byte_len source) 36 (recovery_limits_of config) = Inr r"
      "report_tiles crc (jc_limits config) source 36 r" "report_accounts (recovery_limits_of config) source 36 r"
      using scans [OF scanned(1)] by blast
    have "rec = \<lparr>jr_source = source, jr_parts = rr_parts r, jr_summary = jr_summary rec\<rparr>"
      "js_trusted_segment_id (jr_summary rec) = Some (sint bits)" "js_verified_frames (jr_summary rec) = length (rr_parts r)"
      "js_verified_part_bytes (jr_summary rec) = rr_recovered_part_bytes r"
      using run scanned rd r(1) by (auto simp: unfold split: if_splits)
    then show ?thesis using cfg r scanned(4) by (metis journal_recovery.select_convs(1,2))
  qed
qed

section \<open>Leading frames\<close>

lemma recovery_loop_leading:
  assumes "\<forall>p \<in> set ps. part_ok crc (rl_journal limits) p" and "length (pre @ frames_of crc ps @ tail) < usize_limit"
    and "length (pre @ frames_of crc ps @ tail) \<le> start + 2 ^ 32"
    and "recovery_inv crc limits (pre @ frames_of crc ps @ tail) start (length pre) st"
    and "length (rs_parts st) + length ps \<le> rl_max_parts limits"
  shows "\<exists>st'. recovery_loop crc (slice_read (pre @ frames_of crc ps @ tail)) physical_len (length (pre @ frames_of crc ps @ tail))
        limits (length pre) st
      = recovery_loop crc (slice_read (pre @ frames_of crc ps @ tail)) physical_len (length (pre @ frames_of crc ps @ tail))
        limits (length (pre @ frames_of crc ps)) st'
    \<and> rs_parts st' = rs_parts st @ refs_from (length pre) ps \<and> rs_damages st' = rs_damages st \<and> rs_stop st' = rs_stop st"
  using assms
proof (induction ps arbitrary: pre st)
  case Nil
  then show ?case by auto
next
  case (Cons p ps)
  define data where "data = pre @ frames_of crc (p # ps) @ tail"
  let ?pos = "length pre" and ?n = "length p"
  have v: "frame_at crc data ?pos (rl_journal limits) = Valid ?n"
    using Cons.prems frame_at_frame [of crc "rl_journal limits" p pre "frames_of crc ps @ tail"] by (simp add: data_def)
  have pos: "?pos < length data" and small: "length data < usize_limit"
    using Cons.prems by (simp_all add: data_def)
  obtain n rows where sf: "streaming_frame_at crc (slice_read data) (length data) ?pos (rl_journal limits) = Inr (SValid n rows)"
    and ref: "ref_ok crc (rl_journal limits) data \<lparr>pr_offset = ?pos + FRAME_HEADER_LEN, pr_len = n\<rparr>"
    and le: "?pos + FRAME_HEADER_LEN + n \<le> length data" and rows: "unat rows \<le> 2048 * n" and n: "n = ?n"
    using small order_refl pos
  proof (cases rule: slice_reader.recovery_frame [where crc = crc and limits = "rl_journal limits"])
    case (valid n rows)
    with streaming_frame_slice [OF small pos, of crc "rl_journal limits"] v show ?thesis by (intro that) auto
  next
    case (damaged reason e can)
    with streaming_frame_slice [OF small pos, of crc "rl_journal limits"] v show ?thesis by simp
  qed
  have few: "length (rs_parts st) < rl_max_parts limits" using Cons.prems(5) by simp
  have room: "?pos + FRAME_HEADER_LEN + n \<le> start + 2 ^ 32"
    using le Cons.prems(3) unfolding data_def by linarith
  have inv: "recovery_inv crc limits data start ?pos st" using Cons.prems(4) by (simp only: data_def)
  obtain st' where acc: "accept_frame st ?pos n (unat rows) = Inr st'"
    and inv': "recovery_inv crc limits data start (?pos + FRAME_HEADER_LEN + n) st'"
    and same: "rs_damages st' = rs_damages st" "rs_stop st' = rs_stop st"
    using recovery_inv_accept [OF inv ref few rows room] by blast
  then have parts: "rs_parts st' = rs_parts st @ [\<lparr>pr_offset = ?pos + FRAME_HEADER_LEN, pr_len = n\<rparr>]"
    by (auto simp: accept_frame_def split: sum.splits)
  let ?pre = "pre @ frame_bytes crc p"
  have data: "data = ?pre @ frames_of crc ps @ tail" and nx: "?pos + FRAME_HEADER_LEN + n = length ?pre"
    by (simp_all add: data_def n FRAME_HEADER_LEN_def)
  obtain st'' where "recovery_loop crc (slice_read data) physical_len (length data) limits (length ?pre) st'
      = recovery_loop crc (slice_read data) physical_len (length data) limits (length (?pre @ frames_of crc ps)) st''"
    and "rs_parts st'' = rs_parts st' @ refs_from (length ?pre) ps"
    and "rs_damages st'' = rs_damages st'" "rs_stop st'' = rs_stop st'"
    using Cons.IH [of ?pre st'] Cons.prems inv' parts small unfolding nx data [symmetric] by (auto simp: data_def)
  moreover have "recovery_loop crc (slice_read data) physical_len (length data) limits ?pos st
      = recovery_loop crc (slice_read data) physical_len (length data) limits (length ?pre) st'"
    using pos few acc sf nx by (subst recovery_loop.simps) (simp add: add.assoc)
  ultimately show ?case
    unfolding data_def [symmetric] using same parts by (intro exI [of _ st'']) (simp add: n FRAME_HEADER_LEN_def add.assoc)
qed

text \<open>The loop only adds parts at the end.\<close>

lemma recovery_loop_extends:
  "recovery_loop crc rd physical_len scan_end limits pos st = Inr (pos', st') \<Longrightarrow> \<exists>xs. rs_parts st' = rs_parts st @ xs"
proof (induction crc rd physical_len scan_end limits pos st arbitrary: pos' st' rule: recovery_loop.induct)
  case (1 crc rd physical_len scan_end limits pos st)
  show ?case
  proof (cases "pos < scan_end")
    case True
    consider (err) e where "streaming_frame_at crc rd scan_end pos (rl_journal limits) = Inl e"
      | (valid) n rows where "streaming_frame_at crc rd scan_end pos (rl_journal limits) = Inr (SValid n rows)"
      | (damaged) reason e can where "streaming_frame_at crc rd scan_end pos (rl_journal limits) = Inr (SDamaged reason e can)"
      by (metis obj_sumE streaming_frame.exhaust)
    then show ?thesis
    proof cases
      case err
      then show ?thesis using "1.prems" True by (subst (asm) recovery_loop.simps) simp
    next
      case valid
      show ?thesis
      proof (cases "length (rs_parts st) \<ge> rl_max_parts limits")
        case stop: True
        then show ?thesis using "1.prems" True valid
          by (subst (asm) recovery_loop.simps) (auto simp: stop_at_part_limit_def split: sum.splits)
      next
        case more: False
        obtain st1 where acc: "accept_frame st pos n (unat rows) = Inr st1"
          and rest: "recovery_loop crc rd physical_len scan_end limits (pos + FRAME_HEADER_LEN + n) st1 = Inr (pos', st')"
          using "1.prems" True valid more by (subst (asm) recovery_loop.simps) (auto split: sum.splits)
        have "\<exists>ys. rs_parts st1 = rs_parts st @ ys" using acc by (auto simp: accept_frame_def split: sum.splits)
        then show ?thesis using "1.IH"(1) [OF True valid refl more acc rest] by auto
      qed
    next
      case damaged
      obtain outcome w where r: "streaming_resync crc rd pos scan_end e limits (rs_work st) can = Inr (outcome, w)"
        using "1.prems" True damaged by (subst (asm) recovery_loop.simps) (auto split: sum.splits)
      show ?thesis
      proof (cases outcome)
        case (Found q)
        obtain st1 where res: "resume_at pos q reason (st\<lparr>rs_work := w\<rparr>) = Inr st1"
          and rest: "recovery_loop crc rd physical_len scan_end limits q st1 = Inr (pos', st')"
          using "1.prems" True damaged r Found by (subst (asm) recovery_loop.simps) (auto split: sum.splits)
        have "rs_parts st1 = rs_parts st" using res by (auto simp: resume_at_def split: sum.splits)
        then show ?thesis using "1.IH"(2) [OF True damaged refl r _ _ res rest] Found by auto
      qed (use "1.prems" True damaged r in \<open>subst (asm) recovery_loop.simps, auto simp: stop_after_search_def split: sum.splits\<close>)+
    qed
  next
    case False
    then show ?thesis using "1.prems" by (subst (asm) recovery_loop.simps) simp
  qed
qed

lemma recovery_totals_fields:
  "recovery_totals start n st = Inr r \<Longrightarrow> rr_parts r = rs_parts st \<and> rr_damages r = rs_damages st \<and> rr_stop r = rs_stop st"
  by (auto simp: recovery_totals_def split: sum.splits)

lemma scan_leading:
  assumes cfg: "validate_config config = Inr ()" and hd: "length hdr = 36"
    and ps: "\<forall>p \<in> set ps. part_ok crc (jc_limits config) p" "length ps \<le> jc_max_parts config"
    and len: "length (hdr @ frames_of crc ps @ tail) \<le> jc_max_journal_len config"
  defines "source \<equiv> hdr @ frames_of crc ps @ tail"
  shows "\<exists>r xs. scan_journal_streaming_recovery_from crc (slice_read source) (slice_byte_len source) (slice_byte_len source)
      36 (recovery_limits_of config) = Inr r \<and> rr_parts r = refs_from 36 ps @ xs
    \<and> (tail = [] \<longrightarrow> xs = [] \<and> rr_damages r = [] \<and> rr_stop r = EndOfSource)"
proof -
  let ?limits = "recovery_limits_of config" and ?n = "length source"
  have max: "jc_max_journal_len config \<le> 1073741824"
    using cfg by (auto simp: validate_config_def MAX_JOURNAL_LEN_def split: if_splits)
  have small: "?n < usize_limit" and le: "36 \<le> ?n" and near: "?n \<le> 36 + 2 ^ 32"
    using len max hd by (simp_all add: source_def)
  have se: "recovery_scan_end 36 ?limits ?n = ?n"
    using len max hd by (simp add: recovery_scan_end_def recovery_limits_of_def source_def JOURNAL_HEADER_LEN_def)
  obtain r where r: "scan_journal_streaming_recovery_from crc (slice_read source) (slice_byte_len source) (slice_byte_len source)
      36 ?limits = Inr r"
    using slice_reader.recovery_scan_report [OF small recovery_limits_valid [OF cfg] le] by blast
  obtain st where loop: "recovery_loop crc (slice_read source) ?n ?n ?limits 36 recovery_init
      = recovery_loop crc (slice_read source) ?n ?n ?limits (36 + length (frames_of crc ps)) st"
    and st: "rs_parts st = refs_from 36 ps" "rs_damages st = []" "rs_stop st = EndOfSource"
    using recovery_loop_leading [of ps crc ?limits hdr tail 36 recovery_init ?n] ps small near hd
      recovery_inv_init [of crc ?limits source 36]
    by (auto simp: source_def recovery_limits_of_def recovery_init_def)
  have u: "unat (of_nat ?n :: u64) = ?n" using small by (rule unat_of_nat_64)
  obtain pos st' where end_state: "recovery_loop crc (slice_read source) ?n ?n ?limits 36 recovery_init = Inr (pos, st')"
    and tot: "recovery_totals 36 ?n (finish_scan ?limits ?n ?n pos st') = Inr r"
    using r le recovery_limits_valid [OF cfg]
    by (auto simp: scan_journal_streaming_recovery_from_def slice_byte_len_def u se Let_def split: sum.splits)
  obtain xs where xs: "rs_parts st' = refs_from 36 ps @ xs"
    using recovery_loop_extends end_state loop st(1) by metis
  have "rr_parts r = rs_parts st'" using recovery_totals_fields [OF tot] by (simp add: finish_scan_def Let_def)
  moreover have "xs = [] \<and> rr_damages r = [] \<and> rr_stop r = EndOfSource" if "tail = []"
  proof -
    have "?n = 36 + length (frames_of crc ps)" using that hd by (simp add: source_def)
    then have "pos = ?n" "st' = st" using end_state loop by (simp_all add: recovery_loop_end)
    then show ?thesis
      using recovery_totals_fields [OF tot] st xs by (simp add: finish_scan_def Let_def coalesce_recovery_damages_def)
  qed
  ultimately show ?thesis using r xs by (intro exI [of _ r] exI [of _ xs]) simp
qed

text \<open>Without damage the verified frames are contiguous.\<close>

lemma ordered_refs_room:
  assumes "refs_ordered refs" and "\<forall>ref \<in> set refs. start + 16 \<le> pr_offset ref \<and> pr_offset ref + pr_len ref \<le> L" and "start \<le> L"
  shows "start + 16 * length refs + sum_list (map pr_len refs) \<le> L"
  using assms
proof (induction refs arbitrary: start)
  case (Cons ref refs)
  have "pr_offset ref + pr_len ref + 16 * length refs + sum_list (map pr_len refs) \<le> L"
    using Cons.prems by (intro Cons.IH) (auto simp: refs_ordered_def FRAME_HEADER_LEN_def)
  then show ?case using Cons.prems(2) by simp
qed simp

lemma contiguous_refs:
  assumes "refs_ordered refs" and "\<forall>ref \<in> set refs. ref_ok crc limits data ref \<and> start + 16 \<le> pr_offset ref \<and> pr_offset ref + pr_len ref \<le> length data"
    and "start + 16 * length refs + sum_list (map pr_len refs) = length data"
  shows "refs = refs_from start (map (part_body data) refs) \<and> drop start data = frames_of crc (map (part_body data) refs)"
  using assms
proof (induction refs arbitrary: start)
  case Nil
  then show ?case by simp
next
  case (Cons ref refs)
  let ?till = "pr_offset ref + pr_len ref"
  have rest: "refs_ordered refs"
    "\<forall>ref' \<in> set refs. ref_ok crc limits data ref' \<and> ?till + 16 \<le> pr_offset ref' \<and> pr_offset ref' + pr_len ref' \<le> length data"
    using Cons.prems by (auto simp: refs_ordered_def FRAME_HEADER_LEN_def)
  have "?till + 16 * length refs + sum_list (map pr_len refs) \<le> length data"
    using Cons.prems(2) rest by (intro ordered_refs_room) auto
  then have off: "pr_offset ref = start + 16" and eq: "?till + 16 * length refs + sum_list (map pr_len refs) = length data"
    using Cons.prems(2,3) by (simp_all add: FRAME_HEADER_LEN_def)
  have IH: "refs = refs_from ?till (map (part_body data) refs) \<and> drop ?till data = frames_of crc (map (part_body data) refs)"
    by (rule Cons.IH [OF rest eq])
  have ok: "ref_ok crc limits data ref" using Cons.prems(2) by simp
  have "subslice start ?till data = frame_bytes crc (part_body data ref)"
    using ref_ok_body(3) [OF ok] off by (simp add: FRAME_HEADER_LEN_def)
  then have "drop start data = frame_bytes crc (part_body data ref) @ drop ?till data"
    using off append_take_drop_id [of "?till - start" "drop start data"] by (simp add: subslice_def add.commute add.left_commute)
  moreover have "ref = \<lparr>pr_offset = start + FRAME_HEADER_LEN, pr_len = length (part_body data ref)\<rparr>"
    using off ref_ok_body(2) [OF ok] by (simp add: FRAME_HEADER_LEN_def)
  ultimately show ?case using IH off ref_ok_body(2) [OF ok] by (simp add: FRAME_HEADER_LEN_def)
qed

section \<open>Properties\<close>

text \<open>
  C31. Replay.  What an inspection found in a file, below \<open>2^64\<close> bytes and unchanged while it was inspected,
  is replayed in order into a fresh journal of any configuration.  A success leaves a journal that holds
  exactly the verified part bodies under the trusted identity, with the counts of the inspection.  A
  failure, whatever fails, leaves the first \<open>n\<close> of the bodies for some \<open>n\<close>: either the journal holds exactly
  those, or the rollback of the append of the next one failed too, and then the handle is poisoned, still describes
  exactly those, and their frames are still in place in the file behind the 36 bytes of the root header.  With no
  fault, no change of the evidence and a destination with the frame limits of the inspection and room for the frames
  and the reset marker, the replay succeeds.
\<close>

theorem replay_recovers:
  assumes "recovery_inspect crc config False source = Inr rec" and "length source < usize_limit"
    and "journal_holds crc None [] destination"
  defines "bodies \<equiv> map (part_body source) (jr_parts rec)"
  shows "(case replay_into crc changed rec destination of
      (Inr summary, d) \<Rightarrow> journal_holds crc (if bodies = [] then None else js_trusted_segment_id (jr_summary rec)) bodies d
         \<and> rp_frames summary = js_verified_frames (jr_summary rec)
         \<and> rp_part_bytes summary = js_verified_part_bytes (jr_summary rec)
    | (Inl e, d) \<Rightarrow> \<exists>n \<le> length bodies.
           journal_holds crc (if n = 0 then None else js_trusted_segment_id (jr_summary rec)) (take n bodies) d
         \<or> j_poisoned d \<and> map jp_raw (j_parts d) = refs_from 36 (take n bodies)
             \<and> take (length (frames_of crc (take n bodies))) (drop 36 (jf_bytes (j_file d))) = frames_of crc (take n bodies))
   \<and> (jf_plan (j_file destination) = [] \<and> (\<forall>k. \<not> changed k) \<and> jc_limits (j_config destination) = jc_limits config
        \<and> length bodies \<le> jc_max_parts (j_config destination)
        \<and> 36 + length (frames_of crc bodies) + 32 \<le> jc_max_journal_len (j_config destination)
      \<longrightarrow> (\<exists>summary. fst (replay_into crc changed rec destination) = Inr summary))"
proof -
  note ins = inspect_parts [OF assms(1,2)]
  have fresh: "j_parts destination = []" "j_segment_id destination = None"
    using assms(3) by (simp_all add: journal_holds_def)
  let ?zero = "\<lparr>rp_frames = 0, rp_rows = 0, rp_part_bytes = 0\<rparr> :: journal_replay_summary"
  show ?thesis
  proof (cases "jr_parts rec = []")
    case True
    have "js_verified_frames (jr_summary rec) = 0 \<and> js_verified_part_bytes (jr_summary rec) = 0"
      using ins True by (auto simp: report_accounts_def)
    then show ?thesis using True fresh assms(3) by (simp add: replay_into_def bodies_def)
  next
    case False
    then obtain sid scan where sid: "js_trusted_segment_id (jr_summary rec) = Some sid" "segment_id_new sid = Inr sid"
      and scan: "jr_parts rec = rr_parts scan" "js_verified_frames (jr_summary rec) = length (rr_parts scan)"
        "js_verified_part_bytes (jr_summary rec) = rr_recovered_part_bytes scan"
        "report_tiles crc (jc_limits config) source 36 scan" "report_accounts (recovery_limits_of config) source 36 scan"
      using ins by blast
    have src: "jr_source rec = source" using ins by blast
    have refs: "\<forall>ref \<in> set (jr_parts rec). ref_ok crc (jc_limits config) source ref"
      using scan(1,4) by (simp add: report_tiles_def refs_within_def)
    have holds: "journal_holds crc (sid_for sid []) [] destination" using assms(3) by (simp add: sid_for_def)
    have counts: "replay_counts ?zero []" by (simp add: replay_counts_def)
    have lens: "sum_list (map length bodies) = js_verified_part_bytes (jr_summary rec)"
    proof -
      have "map length bodies = map pr_len (jr_parts rec)" using refs ref_ok_body(2) by (auto simp: bodies_def)
      then show ?thesis using scan by (simp add: report_accounts_def)
    qed
    have ne: "bodies \<noteq> []" using False by (simp add: bodies_def)
    have step: "replay_into crc changed rec destination = (if changed 0 then (Inl SourceChanged, destination)
        else replay_parts crc source changed 1 sid (jr_parts rec) ?zero destination)"
      using False fresh sid src by (simp add: replay_into_def)
    obtain r d where run: "replay_parts crc source changed 1 sid (jr_parts rec) ?zero destination = (r, d)" by fastforce
    note effect = replay_parts_effect [OF assms(2) refs holds sid(2) counts run]
    define left where "left n d \<longleftrightarrow> journal_holds crc (if n = 0 then None else Some sid) (take n bodies) d
         \<or> j_poisoned d \<and> map jp_raw (j_parts d) = refs_from 36 (take n bodies)
             \<and> take (length (frames_of crc (take n bodies))) (drop 36 (jf_bytes (j_file d))) = frames_of crc (take n bodies)" for n d
    have left: "left n d" if "replayed crc sid (take n bodies) d" for n d
      using that ne by (auto simp: left_def replayed_def journal_damaged_def frames_kept_def sid_for_def)
    have main: "case (r, d) of
        (Inr summary, d) \<Rightarrow> journal_holds crc (Some sid) bodies d \<and> rp_frames summary = js_verified_frames (jr_summary rec)
           \<and> rp_part_bytes summary = js_verified_part_bytes (jr_summary rec)
      | (Inl e, d) \<Rightarrow> \<exists>n \<le> length bodies. left n d"
    proof (cases r)
      case (Inl e)
      then obtain n where "n \<le> length bodies" "replayed crc sid (take n bodies) d"
        using effect by (auto simp: bodies_def take_map)
      then show ?thesis using Inl left by auto
    next
      case (Inr summary)
      then show ?thesis using effect ne lens scan(1,2) by (auto simp: bodies_def sid_for_def replay_counts_def)
    qed
    have stay: "\<exists>n \<le> length bodies. left n destination"
      using assms(3) by (intro exI [of _ 0]) (simp add: left_def)
    have complete: "\<exists>summary. r = Inr summary"
      if "jf_plan (j_file destination) = []" "\<forall>k. \<not> changed k" "jc_limits (j_config destination) = jc_limits config"
        "length bodies \<le> jc_max_parts (j_config destination)"
        "36 + length (frames_of crc bodies) + 32 \<le> jc_max_journal_len (j_config destination)"
      using replay_parts_complete [OF assms(2) refs holds conjI [OF refl that(3)] sid(2) counts that(1,2), of 1] that(4,5) run
      by (simp add: bodies_def)
    have whole: "case replay_into crc changed rec destination of
        (Inr summary, d) \<Rightarrow> journal_holds crc (if bodies = [] then None else Some sid) bodies d
           \<and> rp_frames summary = js_verified_frames (jr_summary rec)
           \<and> rp_part_bytes summary = js_verified_part_bytes (jr_summary rec)
      | (Inl e, d) \<Rightarrow> \<exists>n \<le> length bodies. left n d"
      using main stay step run ne by (cases "changed 0"; cases r) auto
    have succeeds: "\<exists>summary. fst (replay_into crc changed rec destination) = Inr summary"
      if "jf_plan (j_file destination) = [] \<and> (\<forall>k. \<not> changed k) \<and> jc_limits (j_config destination) = jc_limits config
        \<and> length bodies \<le> jc_max_parts (j_config destination)
        \<and> 36 + length (frames_of crc bodies) + 32 \<le> jc_max_journal_len (j_config destination)"
      using complete step run that by auto
    show ?thesis
      using whole succeeds unfolding sid(1) left_def by blast
  qed
qed


lemma inspect_clean_canonical:
  assumes "validate_config config = Inr ()" and "length source \<le> jc_max_journal_len config"
    and clean: "recovery_inspect crc config False source = Inr rec" "js_reason (jr_summary rec) = Clean"
  shows "\<exists>sid ps. holdable crc config sid ps \<and> source = journal_bytes crc sid ps"
proof -
  have max: "jc_max_journal_len config \<le> 1073741824"
    using assms(1) by (auto simp: validate_config_def MAX_JOURNAL_LEN_def split: if_splits)
  have small: "length source < usize_limit" using assms(2) max by simp
  note unfold = recovery_inspect_def assms(1) without_scan_def with_header_without_scan_def JOURNAL_HEADER_LEN_def Let_def
  note rec = clean
  from rec have ge: "36 \<le> length source" by (auto simp: unfold split: if_splits)
  have rd: "slice_read source 0 36 = Inr (take 36 source)"
    using slice_reader.read_in_range [OF small, of 0 36] ge by (simp add: slice_0)
  obtain h where h: "header_decode crc (take 36 source) = Inr h"
  proof (cases "header_decode crc (take 36 source)")
    case (Inl e)
    moreover have "source \<noteq> []" using ge by auto
    ultimately have False using rec ge rd by (cases e) (auto simp: unfold)
    then show ?thesis ..
  qed (rule that)
  have enc: "take 36 source = header_encode crc h" using header_encode_decode [OF _ h] ge by simp
  show "\<exists>sid ps. holdable crc config sid ps \<and> source = journal_bytes crc sid ps"
  proof (cases "jh_state h")
    case Empty
    then have body: "unat (jh_body_len h) = 0" and len: "length source = 36" using rec ge rd h by (auto simp: unfold split: if_splits)
    have "h = header_EMPTY" using body Empty by (cases h) (simp add: header_EMPTY_def word_unat_eq_iff)
    moreover have "take 36 source = source" using len by simp
    ultimately have "source = journal_bytes crc None []" using enc by (simp add: empty_journal_bytes)
    then show ?thesis using holdable_empty [OF assms(1)] by blast
  next
    case (Active bits)
    obtain scan where id: "segment_id_new (sint bits) = Inr (sint bits)"
      and scan: "scan_journal_streaming_recovery_from crc (slice_read source) (slice_byte_len source) (slice_byte_len source)
        36 (recovery_limits_of config) = Inr scan" "rr_damages scan = []" "rr_parts scan \<noteq> []"
      and body: "unat (jh_body_len h) = length source - 36"
      using rec ge rd h Active segment_id_new_same
      by (auto simp: unfold scanned_reason_def split: if_splits sum.splits)
    have rep: "report_tiles crc (jc_limits config) source 36 scan" "report_accounts (recovery_limits_of config) source 36 scan"
      using slice_reader.recovery_scan_report [OF small recovery_limits_valid [OF assms(1)] ge, of crc] scan(1)
      by (auto simp: recovery_limits_of_def)
    let ?ps = "map (part_body source) (rr_parts scan)"
    have frames: "drop 36 source = frames_of crc ?ps"
      using rep scan(2) contiguous_refs [of "rr_parts scan" crc "jc_limits config" source 36]
      by (simp add: report_tiles_def refs_within_def report_accounts_def damage_bytes_def FRAME_HEADER_LEN_def)
    have ok: "\<forall>p \<in> set ?ps. part_ok crc (jc_limits config) p"
      using rep(1) ref_ok_body(1) by (auto simp: report_tiles_def refs_within_def)
    have few: "length ?ps \<le> jc_max_parts config"
      using rep(2) by (simp add: report_accounts_def recovery_limits_of_def)
    have n: "length (frames_of crc ?ps) = length source - 36" using frames by (metis length_drop)
    have blen: "jh_body_len h = of_nat (length source - 36)"
      using body small by (simp add: word_unat_eq_iff unat_of_nat_64)
    have "h = header_for crc (Some (sint bits)) ?ps"
      using Active blen n by (simp add: header_for_def id_bits_sint)
    then have "source = journal_bytes crc (Some (sint bits)) ?ps"
      using enc frames append_take_drop_id [of 36 source] by (simp add: journal_bytes_def)
    moreover have "holdable crc config (Some (sint bits)) ?ps"
      using id scan(3) assms ge ok few n by (simp add: holdable_def)
    ultimately have "holdable crc config (Some (sint bits)) ?ps \<and> source = journal_bytes crc (Some (sint bits)) ?ps" by blast
    then show ?thesis by blast
  qed
qed

lemma canonical_inspect_clean:
  assumes hold: "holdable crc config sid ps" and source: "source = journal_bytes crc sid ps"
  shows "\<exists>rec. recovery_inspect crc config False source = Inr rec \<and> js_reason (jr_summary rec) = Clean
     \<and> jr_parts rec = refs_from 36 ps \<and> js_trusted_segment_id (jr_summary rec) = sid"
proof -
  have cfg: "validate_config config = Inr ()" using hold by (simp add: holdable_def)
  have small: "length source < usize_limit" using holdable_small [OF hold] source by simp
  note unfold = recovery_inspect_def cfg without_scan_def with_header_without_scan_def JOURNAL_HEADER_LEN_def Let_def
  have rd: "slice_read source 0 36 = Inr (header_encode crc (header_for crc sid ps))"
    using slice_reader.read_in_range [OF small, of 0 36] source by (simp add: slice_0 journal_bytes_def)
  have body: "unat (jh_body_len (header_for crc sid ps)) = length (frames_of crc ps)"
    using small source by (simp add: header_for_def unat_of_nat_64)
  show ?thesis
  proof (cases sid)
    case None
    then have "ps = []" using hold by (simp add: holdable_def)
    then show ?thesis using rd body None source
      by (simp add: unfold header_decode_encode frames_of_def) (simp add: header_for_def with_header_without_scan_def)
  next
    case (Some s)
    then have ne: "ps \<noteq> []" and s: "segment_id_new s = Inr s" using hold by (auto simp: holdable_def)
    obtain r where r: "scan_journal_streaming_recovery_from crc (slice_read source) (slice_byte_len source) (slice_byte_len source)
        36 (recovery_limits_of config) = Inr r" "rr_parts r = refs_from 36 ps" "rr_damages r = []" "rr_stop r = EndOfSource"
      using scan_leading [OF cfg, of "header_encode crc (header_for crc sid ps)" ps crc "[]"] hold source
      by (auto simp: holdable_def journal_bytes_def)
    then show ?thesis using rd body Some ne s source
      by (simp add: unfold header_decode_encode) (simp add: header_for_def sint_id_bits scanned_reason_def JOURNAL_HEADER_LEN_def)
  qed
qed

text \<open>
  C33. Inspection and opening agree on what is intact.  A file within the length cap is classified as
  clean exactly when \<open>open\<close> accepts it as it is, that is returns a handle and leaves the file unchanged,
  as long as a generation is left to give; and then both find the same parts under the same identity.  \<open>open\<close> also
  accepts an empty file and one whose committed reset it can complete, but it rewrites both; the
  inspection, which writes nothing, does not call them clean.
\<close>

theorem inspect_clean_exact:
  assumes "length (jf_bytes f) \<le> jc_max_journal_len config" and "counter + 1 < usize_limit"
  shows "((\<exists>rec. recovery_inspect crc config False (jf_bytes f) = Inr rec \<and> js_reason (jr_summary rec) = Clean)
      \<longleftrightarrow> (\<exists>j. journal_open crc config False (Inr ()) counter f = (Inr j, f, counter + 1)))
    \<and> (\<forall>rec j. recovery_inspect crc config False (jf_bytes f) = Inr rec
        \<and> journal_open crc config False (Inr ()) counter f = (Inr j, f, counter + 1) \<longrightarrow>
          jr_parts rec = map jp_raw (j_parts j) \<and> js_trusted_segment_id (jr_summary rec) = j_segment_id j)"
proof -
  have opened: "\<exists>sid ps rec. journal_holds crc sid ps j \<and> recovery_inspect crc config False (jf_bytes f) = Inr rec
      \<and> js_reason (jr_summary rec) = Clean \<and> jr_parts rec = refs_from 36 ps \<and> js_trusted_segment_id (jr_summary rec) = sid"
    if run: "journal_open crc config False (Inr ()) counter f = (Inr j, f, counter + 1)" for j
  proof -
    obtain sid ps where "journal_holds crc sid ps j" "j_config j = config" "j_file j = f" using journal_open_Inr [OF run] by blast
    then show ?thesis using canonical_inspect_clean [of crc config sid ps "jf_bytes f"] by (auto simp: journal_holds_def)
  qed
  have "\<exists>j. journal_open crc config False (Inr ()) counter f = (Inr j, f, counter + 1)"
    if clean: "recovery_inspect crc config False (jf_bytes f) = Inr rec" "js_reason (jr_summary rec) = Clean" for rec
  proof -
    have "validate_config config = Inr ()" using clean(1) by (auto simp: recovery_inspect_def split: sum.splits)
    then obtain sid ps where "holdable crc config sid ps" "jf_bytes f = journal_bytes crc sid ps"
      using inspect_clean_canonical [OF _ assms(1) clean] by blast
    then show ?thesis using open_holds assms(2) by blast
  qed
  moreover have "jr_parts rec = map jp_raw (j_parts j) \<and> js_trusted_segment_id (jr_summary rec) = j_segment_id j"
    if "recovery_inspect crc config False (jf_bytes f) = Inr rec"
      "journal_open crc config False (Inr ()) counter f = (Inr j, f, counter + 1)" for rec j
    using opened [OF that(2)] that(1) by (auto simp: journal_holds_def comp_def)
  ultimately show ?thesis using opened by blast
qed

text \<open>Concrete evidence: the sample journal, and the sample journal with a torn second frame.\<close>

lemma replay_recovers_witness:
  "\<exists>rec summary d. recovery_inspect sum_crc config_default False (jf_bytes (j_file demo_full)) = Inr rec
     \<and> replay_into sum_crc (\<lambda>k. False) rec demo_journal = (Inr summary, d)
     \<and> \<not> j_poisoned d"
proof -
  have cfg: "j_config demo_journal = config_default" "j_config demo_full = config_default"
    "jf_plan (j_file demo_journal) = []"
    by (simp_all add: demo_journal_def demo_full_def)
  have hold: "holdable sum_crc config_default (Some 1709164800000000) [demo_part]"
    and source: "jf_bytes (j_file demo_full) = journal_bytes sum_crc (Some 1709164800000000) [demo_part]"
    using demo_full_holds cfg by (simp_all add: journal_holds_def)
  have hd: "header_for sum_crc (Some 1709164800000000) [demo_part] =
      \<lparr>jh_state = Active (id_bits 1709164800000000), jh_body_len = 128\<rparr>"
    by (simp add: header_for_def length_demo_part frames_of_def)
  have len: "length (jf_bytes (j_file demo_full)) = 164" by (simp add: source length_demo_part)
  have body: "subslice 52 164 (jf_bytes (j_file demo_full)) = demo_part"
    using refs_from_slice [of 0 "[demo_part]" "header_encode sum_crc (header_for sum_crc (Some 1709164800000000) [demo_part])" 36 sum_crc]
    by (simp add: source journal_bytes_def length_demo_part FRAME_HEADER_LEN_def)
  obtain rec where rec: "recovery_inspect sum_crc config_default False (jf_bytes (j_file demo_full)) = Inr rec"
    "jr_parts rec = [\<lparr>pr_offset = 52, pr_len = 112\<rparr>]"
  proof -
    obtain r where r: "scan_journal_streaming_recovery_from sum_crc (slice_read (jf_bytes (j_file demo_full)))
        (slice_byte_len (jf_bytes (j_file demo_full))) (slice_byte_len (jf_bytes (j_file demo_full))) 36
        (recovery_limits_of config_default) = Inr r" "rr_parts r = [\<lparr>pr_offset = 52, pr_len = 112\<rparr>]"
      using scan_leading [of config_default "header_encode sum_crc (header_for sum_crc (Some 1709164800000000) [demo_part])" "[demo_part]" sum_crc "[]"]
        hold source by (auto simp: holdable_def journal_bytes_def length_demo_part FRAME_HEADER_LEN_def)
    have "slice_read (jf_bytes (j_file demo_full)) 0 36 = Inr (header_encode sum_crc (header_for sum_crc (Some 1709164800000000) [demo_part]))"
      using slice_reader.read_in_range [of "jf_bytes (j_file demo_full)" 0 36] len by (simp add: slice_0 source journal_bytes_def)
    then show ?thesis
      using that r hold demo_segment_id len
      by (auto simp: recovery_inspect_def holdable_def JOURNAL_HEADER_LEN_def Let_def header_decode_encode hd sint_id_bits)
  qed
  have bodies: "map (part_body (jf_bytes (j_file demo_full))) (jr_parts rec) = [demo_part]"
    using rec(2) body by (simp add: part_body_def)
  have "length (jf_bytes (j_file demo_full)) < usize_limit" using len by simp
  note main = replay_recovers [OF rec(1) this demo_journal_holds, where changed = "\<lambda>k. False", unfolded bodies]
  then obtain summary where "fst (replay_into sum_crc (\<lambda>k. False) rec demo_journal) = Inr summary"
    using cfg(1,3) by (auto simp: length_demo_part config_default_def MAX_JOURNAL_LEN_def MAX_JOURNAL_PARTS_def)
  then obtain d where d: "replay_into sum_crc (\<lambda>k. False) rec demo_journal = (Inr summary, d)" by (metis prod.collapse)
  then have "\<not> j_poisoned d" using main by (simp add: journal_holds_def)
  then show ?thesis using rec(1) d by blast
qed



lemma inspect_clean_exact_witness:
  "\<exists>rec j. recovery_inspect sum_crc config_default False (jf_bytes (j_file demo_full)) = Inr rec \<and> js_reason (jr_summary rec) = Clean
     \<and> journal_open sum_crc config_default False (Inr ()) 5 (j_file demo_full) = (Inr j, j_file demo_full, 6)
     \<and> jr_parts rec = map jp_raw (j_parts j) \<and> j_segment_id j = Some 1709164800000000"
proof -
  have cfg: "j_config demo_full = config_default" by (simp add: demo_journal_def demo_full_def)
  have hold: "holdable sum_crc config_default (Some 1709164800000000) [demo_part]"
    and source: "jf_bytes (j_file demo_full) = journal_bytes sum_crc (Some 1709164800000000) [demo_part]"
    using demo_full_holds cfg by (simp_all add: journal_holds_def)
  have len: "length (jf_bytes (j_file demo_full)) \<le> jc_max_journal_len config_default"
    using hold source by (simp add: holdable_def)
  obtain j where j: "journal_open sum_crc config_default False (Inr ()) 5 (j_file demo_full) = (Inr j, j_file demo_full, 6)"
    "j_segment_id j = Some 1709164800000000"
    using open_holds [OF hold source, of 5] by (auto simp: journal_holds_def)
  then show ?thesis using inspect_clean_exact [OF len, of 5 sum_crc] by auto
qed

end
