(* ===== verification/Coverage.thy ===== *)
theory Coverage
  imports Prelude "HOL-Library.Product_Lexorder"
begin

text \<open>
  Coverage sets of half-open microsecond spans (\<open>crates/kronika-analytics/src/overview/coverage.rs\<close>):
  the normalising constructor, union and the exact durations.  Timestamps are \<open>i64\<close> words read with
  \<open>sint\<close>, durations are \<open>u64\<close> words of the wrapping subtraction.  The floating-point ratio is not
  modelled.
\<close>

section \<open>Spans\<close>

record coverage_span =
  from_us :: i64
  to_us :: i64

definition span_new :: "i64 \<Rightarrow> i64 \<Rightarrow> coverage_span option" where
  "span_new a b = (if a <s b then Some \<lparr>from_us = a, to_us = b\<rparr> else None)"

definition duration_us :: "coverage_span \<Rightarrow> u64" where
  "duration_us s = to_us s - from_us s"

definition signed_max :: "i64 \<Rightarrow> i64 \<Rightarrow> i64" where
  "signed_max a b = (if b <s a then a else b)"

definition signed_min :: "i64 \<Rightarrow> i64 \<Rightarrow> i64" where
  "signed_min a b = (if b <s a then b else a)"

section \<open>Coverage sets\<close>

type_synonym coverage = "coverage_span list"

text \<open>The derived order of a span is lexicographic.\<close>

definition span_key :: "coverage_span \<Rightarrow> int \<times> int" where
  "span_key s = (sint (from_us s), sint (to_us s))"

definition merge_span :: "coverage \<Rightarrow> coverage_span \<Rightarrow> coverage" where
  "merge_span merged span =
     (if merged \<noteq> [] \<and> from_us span \<le>s to_us (last merged)
      then butlast merged @ [(last merged)\<lparr>to_us := signed_max (to_us (last merged)) (to_us span)\<rparr>]
      else merged @ [span])"

definition from_spans :: "coverage_span list \<Rightarrow> coverage" where
  "from_spans spans = foldl merge_span [] (sort_key span_key spans)"

definition covered_duration_us :: "coverage \<Rightarrow> u64" where
  "covered_duration_us c = sum_list (map duration_us c)"

definition coverage_union :: "coverage \<Rightarrow> coverage \<Rightarrow> coverage" where
  "coverage_union c d = from_spans (c @ d)"

definition overlap_us :: "coverage_span \<Rightarrow> coverage_span \<Rightarrow> u64" where
  "overlap_us bucket span =
     (let lo = signed_max (from_us span) (from_us bucket); hi = signed_min (to_us span) (to_us bucket) in
      if lo <s hi then hi - lo else 0)"

definition covered_duration_in :: "coverage \<Rightarrow> coverage_span \<Rightarrow> u64" where
  "covered_duration_in c bucket = sum_list (map (overlap_us bucket) c)"

definition covers :: "coverage \<Rightarrow> coverage_span \<Rightarrow> bool" where
  "covers c bucket \<longleftrightarrow> covered_duration_in c bucket = duration_us bucket"

section \<open>The points of a coverage set\<close>

definition span_ok :: "coverage_span \<Rightarrow> bool" where
  "span_ok s \<longleftrightarrow> from_us s <s to_us s"

definition span_points :: "coverage_span \<Rightarrow> int set" where
  "span_points s = {sint (from_us s)..<sint (to_us s)}"

definition points :: "coverage \<Rightarrow> int set" where
  "points c = (\<Union>s \<in> set c. span_points s)"

text \<open>Sorted, disjoint and not adjacent.\<close>

definition normal :: "coverage \<Rightarrow> bool" where
  "normal c \<longleftrightarrow> (\<forall>s \<in> set c. span_ok s) \<and> sorted_wrt (\<lambda>a b. to_us a <s from_us b) c"

lemma sint_signed_max: "sint (signed_max a b) = max (sint a) (sint b)"
  by (simp add: signed_max_def word_sless_alt)

lemma sint_signed_min: "sint (signed_min a b) = min (sint a) (sint b)"
  by (simp add: signed_min_def word_sless_alt)

lemmas span_simps = span_ok_def span_points_def word_sless_alt word_sle_eq sint_signed_max sint_signed_min

lemma points_simps [simp]:
  "points [] = {}" "points (s # c) = span_points s \<union> points c" "points (c @ d) = points c \<union> points d"
  by (auto simp: points_def)

lemma span_new_Some: "span_new a b = Some s \<longleftrightarrow> span_ok s \<and> s = \<lparr>from_us = a, to_us = b\<rparr>"
  by (auto simp: span_new_def span_ok_def)

subsection \<open>Merging\<close>

lemma merge_span_points:
  assumes "span_ok s" and "\<forall>t \<in> set c. span_ok t \<and> sint (from_us t) \<le> sint (from_us s)"
  shows "points (merge_span c s) = points c \<union> span_points s"
proof (cases "c \<noteq> [] \<and> from_us s \<le>s to_us (last c)")
  case False
  then show ?thesis unfolding merge_span_def by auto
next
  case True
  then obtain d t where c: "c = d @ [t]" by (cases c rule: rev_cases) auto
  have "span_points (t\<lparr>to_us := signed_max (to_us t) (to_us s)\<rparr>) = span_points t \<union> span_points s"
    using True assms by (auto simp: c span_simps)
  then show ?thesis using True by (auto simp: merge_span_def c)
qed

lemma merge_span_normal:
  assumes "normal c" and "span_ok s" and "\<forall>t \<in> set c. sint (from_us t) \<le> sint (from_us s)"
  shows "normal (merge_span c s) \<and> (\<forall>t \<in> set (merge_span c s). sint (from_us t) \<le> sint (from_us s))"
proof (cases "c \<noteq> [] \<and> from_us s \<le>s to_us (last c)")
  case False
  have "to_us t <s from_us s" if t: "t \<in> set c" for t
  proof -
    obtain d u where c: "c = d @ [u]" using t by (cases c rule: rev_cases) auto
    then have "to_us u <s from_us s" using False by (simp add: word_sless_alt word_sle_eq)
    moreover have "t = u \<or> to_us t <s from_us u" "span_ok u"
      using t assms(1) by (auto simp: normal_def c sorted_wrt_append)
    ultimately show ?thesis by (auto simp: span_simps)
  qed
  then show ?thesis using False assms by (auto simp: merge_span_def normal_def sorted_wrt_append)
next
  case True
  then obtain d t where c: "c = d @ [t]" by (cases c rule: rev_cases) auto
  then show ?thesis using True assms by (auto simp: merge_span_def normal_def sorted_wrt_append span_simps)
qed

lemma foldl_merge:
  assumes "normal c" and "\<forall>s \<in> set ss. span_ok s" and "sorted (map span_key ss)"
    and "\<forall>s \<in> set ss. \<forall>t \<in> set c. sint (from_us t) \<le> sint (from_us s)"
  shows "normal (foldl merge_span c ss) \<and> points (foldl merge_span c ss) = points c \<union> points ss"
  using assms
proof (induction ss arbitrary: c)
  case (Cons s ss)
  have s: "span_ok s" "\<forall>t \<in> set c. sint (from_us t) \<le> sint (from_us s)" using Cons.prems by simp_all
  have "\<forall>u \<in> set ss. sint (from_us s) \<le> sint (from_us u)"
    using Cons.prems(3) by (auto simp: span_key_def less_eq_prod_def)
  then have "normal (foldl merge_span (merge_span c s) ss)
      \<and> points (foldl merge_span (merge_span c s) ss) = points (merge_span c s) \<union> points ss"
    using Cons.prems merge_span_normal [OF Cons.prems(1) s] by (intro Cons.IH) (auto intro: order_trans)
  moreover have "points (merge_span c s) = points c \<union> span_points s"
    using Cons.prems(1) s by (intro merge_span_points) (auto simp: normal_def)
  ultimately show ?case by auto
qed simp

lemma from_spans_normal:
  assumes "\<forall>s \<in> set ss. span_ok s"
  shows "normal (from_spans ss)" and "points (from_spans ss) = points ss"
proof -
  have "normal [] \<and> points (sort_key span_key ss) = points ss" by (simp add: normal_def points_def)
  then show "normal (from_spans ss)" "points (from_spans ss) = points ss"
    using foldl_merge [of "[]" "sort_key span_key ss"] assms by (simp_all add: from_spans_def)
qed

subsection \<open>The normal form is unique\<close>

lemma normal_above:
  "normal (s # c) \<Longrightarrow> p \<in> points c \<Longrightarrow> sint (to_us s) < p"
  by (auto simp: normal_def points_def span_simps)

lemma normal_below: "normal (s # c) \<Longrightarrow> p \<in> points (s # c) \<Longrightarrow> sint (from_us s) \<le> p"
  using normal_above [of s c p] by (auto simp: normal_def span_simps)

lemma normal_first: "normal (s # c) \<Longrightarrow> sint (from_us s) \<in> points (s # c)"
  by (simp add: normal_def span_simps)

lemma normal_end: "normal (s # c) \<Longrightarrow> sint (to_us s) \<notin> points (s # c)"
  using normal_above [of s c "sint (to_us s)"] by (auto simp: span_simps)

lemma normal_head_le:
  assumes "normal (s # c)" and "normal (t # d)" and "points (s # c) = points (t # d)"
  shows "sint (from_us t) \<le> sint (from_us s) \<and> sint (to_us t) \<le> sint (to_us s)"
proof -
  have le: "sint (from_us t) \<le> sint (from_us s)" "sint (from_us s) \<le> sint (from_us t)"
    using normal_below [of t d] normal_below [of s c] normal_first [of s c] normal_first [of t d] assms by auto
  moreover have "sint (to_us s) \<notin> span_points t" using normal_end [OF assms(1)] assms(3) by auto
  moreover have "span_ok s" using assms(1) by (simp add: normal_def)
  ultimately show ?thesis by (auto simp: span_simps)
qed

lemma normal_tail: "normal (s # c) \<Longrightarrow> normal c \<and> points c = points (s # c) - span_points s"
proof -
  assume n: "normal (s # c)"
  then have "span_points s \<inter> points c = {}" using normal_above [OF n] by (force simp: span_simps)
  then show ?thesis using n by (auto simp: normal_def)
qed

lemma normal_unique:
  "normal c \<Longrightarrow> normal d \<Longrightarrow> points c = points d \<Longrightarrow> c = d"
proof (induction c arbitrary: d)
  case Nil
  then show ?case using normal_first by (cases d) force+
next
  case (Cons s c)
  obtain t d' where d: "d = t # d'" using Cons.prems normal_first [of s c] by (cases d) auto
  have "from_us s = from_us t" "to_us s = to_us t"
    using normal_head_le [of s c t d'] normal_head_le [of t d' s c] Cons.prems d by (auto intro: signed_word_eqI antisym)
  then have "s = t" by simp
  then show ?case using Cons.IH [of d'] normal_tail Cons.prems d by metis
qed

subsection \<open>Durations\<close>

lemma unat_difference:
  assumes "a \<le>s (b :: i64)"
  shows "unat (b - a) = nat (sint b - sint a)"
proof -
  have r: "- (2 ^ 63) \<le> sint a" "sint b < 2 ^ 63"
    using sint_ge [of a] sint_lt [of b] by simp_all
  have "word_of_int (sint b - sint a) = b - a" by simp
  then have "uint (word_of_int (sint b - sint a) :: 64 word) = uint (b - a)" by (rule arg_cong)
  then have "uint (b - a) = (sint b - sint a) mod 2 ^ 64"
    unfolding uint_word_of_int by simp
  moreover have "0 \<le> sint b - sint a" "sint b - sint a < 2 ^ 64"
    using assms r by (simp_all add: word_sle_eq)
  ultimately have "uint (b - a) = sint b - sint a" by simp
  then show ?thesis by (metis nat_uint_eq)
qed

lemma unat_duration: "span_ok s \<Longrightarrow> unat (duration_us s) = card (span_points s)"
  using unat_difference [of "from_us s" "to_us s"] by (simp add: duration_us_def span_simps)

lemma unat_overlap: "unat (overlap_us b s) = card (span_points s \<inter> span_points b)"
  using unat_difference [of "signed_max (from_us s) (from_us b)" "signed_min (to_us s) (to_us b)"]
  by (auto simp: overlap_us_def Let_def span_simps)

lemma unat_sum_list:
  "sum_list (map unat ws) < 2 ^ 64 \<Longrightarrow> unat (sum_list ws :: u64) = sum_list (map unat ws)"
proof (induction ws)
  case (Cons w ws)
  then have "unat (sum_list ws) = sum_list (map unat ws)" by simp
  then show ?case using Cons.prems by (simp add: unat_word_ariths(1))
qed simp

lemma finite_points [simp]: "finite (span_points s)" "finite (points c)"
  by (simp_all add: points_def span_points_def)

text \<open>Within any set of points, the spans of a normal form count once.\<close>

lemma card_points:
  "normal c \<Longrightarrow> sum_list (map (\<lambda>s. card (span_points s \<inter> A)) c) = card (points c \<inter> A)"
proof (induction c)
  case (Cons s c)
  have "span_points s \<inter> points c = {}" using normal_above [OF Cons.prems] by (force simp: span_simps)
  then have "card ((span_points s \<inter> A) \<union> (points c \<inter> A)) = card (span_points s \<inter> A) + card (points c \<inter> A)"
    by (intro card_Un_disjoint) auto
  moreover have "normal c" using normal_tail [OF Cons.prems] by blast
  ultimately show ?case using Cons.IH by (simp add: Int_Un_distrib2)
qed simp

lemma card_i64:
  assumes "\<forall>p \<in> A. \<exists>s. p \<in> span_points s"
  shows "card A < 2 ^ 64"
proof -
  have "A \<subseteq> {- (2 ^ 63)..<2 ^ 63 - 1}"
  proof
    fix p assume "p \<in> A"
    then obtain s where "p \<in> span_points s" using assms by blast
    then show "p \<in> {- (2 ^ 63)..<2 ^ 63 - 1}"
      using sint_ge [of "from_us s"] sint_lt [of "to_us s"] by (simp add: span_points_def)
  qed
  then have "card A \<le> card {- (2 ^ 63)..<2 ^ 63 - (1 :: int)}" by (intro card_mono) auto
  also have "\<dots> < 2 ^ 64" by simp
  finally show ?thesis .
qed

lemma covered_duration_in_card:
  assumes "normal c"
  shows "unat (covered_duration_in c b) = card (points c \<inter> span_points b)"
proof -
  have sum: "sum_list (map unat (map (overlap_us b) c)) = card (points c \<inter> span_points b)"
    using card_points [OF assms, of "span_points b"] by (simp add: o_def unat_overlap)
  have "card (points c \<inter> span_points b) < 2 ^ 64" by (rule card_i64) auto
  then show ?thesis using unat_sum_list [of "map (overlap_us b) c"] sum by (simp add: covered_duration_in_def)
qed

lemma covered_duration_card:
  assumes "normal c"
  shows "unat (covered_duration_us c) = card (points c)"
proof -
  have "map unat (map duration_us c) = map (\<lambda>s. card (span_points s \<inter> UNIV)) c"
    using assms by (auto simp: normal_def unat_duration)
  then have sum: "sum_list (map unat (map duration_us c)) = card (points c)"
    using card_points [OF assms, of UNIV] by (simp only: Int_UNIV_right)
  have "card (points c) < 2 ^ 64" by (rule card_i64) (auto simp: points_def)
  then show ?thesis using unat_sum_list [of "map duration_us c"] sum by (simp add: covered_duration_us_def)
qed

lemma covers_iff:
  assumes "normal c" and "span_ok b"
  shows "covers c b \<longleftrightarrow> span_points b \<subseteq> points c"
proof -
  have "covers c b \<longleftrightarrow> card (points c \<inter> span_points b) = card (span_points b)"
    using covered_duration_in_card [OF assms(1), of b] unat_duration [OF assms(2)]
    by (simp add: covers_def word_unat_eq_iff)
  also have "\<dots> \<longleftrightarrow> span_points b \<subseteq> points c"
    using card_subset_eq [of "span_points b" "points c \<inter> span_points b"] by (auto simp: inf.absorb2)
  finally show ?thesis .
qed

section \<open>Properties\<close>

text \<open>
  C34. The normal form is canonical: coverage built from valid spans covers exactly their points in
  sorted, disjoint, non-adjacent spans, and two constructions are equal exactly when they cover the
  same points, so order, duplicates and the grouping into unions do not matter.
\<close>

theorem coverage_canonical:
  assumes "\<forall>s \<in> set ss. span_ok s" and "\<forall>s \<in> set ts. span_ok s"
  shows "normal (from_spans ss) \<and> points (from_spans ss) = points ss
    \<and> (from_spans ss = from_spans ts \<longleftrightarrow> points ss = points ts)
    \<and> coverage_union (from_spans ss) (from_spans ts) = from_spans (ss @ ts)"
proof -
  note n = from_spans_normal [OF assms(1)] from_spans_normal [OF assms(2)]
  have "\<forall>s \<in> set (from_spans ss @ from_spans ts). span_ok s" "\<forall>s \<in> set (ss @ ts). span_ok s"
    using n assms by (auto simp: normal_def)
  then have "coverage_union (from_spans ss) (from_spans ts) = from_spans (ss @ ts)"
    unfolding coverage_union_def using n by (intro normal_unique from_spans_normal(1)) (simp_all add: from_spans_normal(2))
  moreover have "from_spans ss = from_spans ts \<longleftrightarrow> points ss = points ts"
    using n normal_unique [OF n(1,3)] by metis
  ultimately show ?thesis using n by blast
qed

lemma coverage_canonical_witness:
  "from_spans [\<lparr>from_us = 5, to_us = 15\<rparr>, \<lparr>from_us = 0, to_us = 10\<rparr>] = from_spans [\<lparr>from_us = 0, to_us = 15\<rparr>]"
proof -
  have "points [\<lparr>from_us = 5, to_us = 15\<rparr>, \<lparr>from_us = 0, to_us = 10\<rparr>] = points [\<lparr>from_us = 0, to_us = 15\<rparr>]"
    by (auto simp: span_points_def)
  then show ?thesis
    using coverage_canonical [of "[\<lparr>from_us = 5, to_us = 15\<rparr>, \<lparr>from_us = 0, to_us = 10\<rparr>]" "[\<lparr>from_us = 0, to_us = 15\<rparr>]"]
    by (simp add: span_ok_def word_sless_alt)
qed

text \<open>
  The durations are exact on the whole \<open>i64\<close> range: neither the wrapping subtraction nor the sum
  overflows, the covered duration is the number of covered microseconds, overall and inside a bucket,
  and a bucket is covered exactly when every one of its microseconds is.
\<close>

theorem coverage_durations_exact:
  assumes "normal c" and "span_ok bucket"
  shows "unat (covered_duration_us c) = card (points c)
    \<and> unat (covered_duration_in c bucket) = card (points c \<inter> span_points bucket)
    \<and> (covers c bucket \<longleftrightarrow> span_points bucket \<subseteq> points c)"
  using covered_duration_card covered_duration_in_card covers_iff assms by blast

lemma coverage_durations_exact_witness:
  "unat (covered_duration_us [\<lparr>from_us = - (2 ^ 63), to_us = 2 ^ 63 - 1\<rparr>]) = 2 ^ 64 - 1"
proof -
  let ?s = "\<lparr>from_us = - (2 ^ 63), to_us = 2 ^ 63 - 1\<rparr> :: coverage_span"
  have s: "sint (from_us ?s) = - (2 ^ 63)" "sint (to_us ?s) = 2 ^ 63 - 1" by simp_all
  have ok: "span_ok ?s" unfolding span_ok_def word_sless_alt s by simp
  then have "normal [?s]" by (simp add: normal_def)
  then have "unat (covered_duration_us [?s]) = card (points [?s])" using coverage_durations_exact [OF _ ok] by blast
  also have "points [?s] = {- (2 ^ 63)..<2 ^ 63 - 1}" unfolding points_simps span_points_def s by simp
  finally show ?thesis by simp
qed

end
