(* ===== verification/Section_Contract.thy ===== *)
theory Section_Contract
  imports Prelude
begin

text \<open>
  The section registry (\<open>crates/kronika-registry/src/contract.rs\<close>, \<open>type_id.rs\<close>): the contract of a section type,
  its type id, and the linter that every build of the registry must pass.  The codec errors of
  \<open>codec.rs\<close>, which every later theory of the section codecs returns, are here too.
\<close>

section \<open>Bounds and errors of the codecs\<close>

definition MAX_SECTION_ROWS :: nat where "MAX_SECTION_ROWS = 65536"
definition MAX_SECTION_BYTES :: nat where "MAX_SECTION_BYTES = 8 * 1024 * 1024"
definition MAX_DECODED_SECTION_BYTES :: nat where "MAX_DECODED_SECTION_BYTES = 128 * 1024 * 1024"
definition MAX_ROW_GROUPS :: nat where "MAX_ROW_GROUPS = 16"
definition MAX_LIST_I32_VALUES_PER_ROW :: nat where "MAX_LIST_I32_VALUES_PER_ROW = 4096"
definition MAX_LIST_I32_VALUES_PER_SECTION :: nat where "MAX_LIST_I32_VALUES_PER_SECTION = MAX_SECTION_ROWS * 4"

lemmas section_bounds = MAX_SECTION_ROWS_def MAX_SECTION_BYTES_def MAX_DECODED_SECTION_BYTES_def
  MAX_ROW_GROUPS_def MAX_LIST_I32_VALUES_PER_ROW_def MAX_LIST_I32_VALUES_PER_SECTION_def

text \<open>The payloads of the first two variants are errors of third-party crates, kept as their text.\<close>

datatype codec_error =
    ArrowError string
  | ParquetError string
  | TooManyRows nat nat
  | InvalidRowCount int
  | SectionTooLarge nat nat
  | PlainPageTooLarge string nat nat
  | DecodedSectionTooLarge nat nat
  | TooManyRowGroups nat nat
  | InvalidPageLayout
  | DictionaryEncodingUnsupported
  | UnsupportedPageEncoding int
  | MissingColumn string
  | ColumnTypeError string
  | NullInRequiredColumn string
  | TooManyListValues string nat nat
  | UnknownType u32
  | SchemaMismatch
  | SectionCrcMismatch u32 u32
  | SectionError u32 nat codec_error

section \<open>Type ids\<close>

datatype section_class = SnapshotClass | EventClass | DictionaryClass | ChartClass

fun section_class_digit :: "section_class \<Rightarrow> u32" where
  "section_class_digit SnapshotClass = 1"
| "section_class_digit EventClass = 2"
| "section_class_digit DictionaryClass = 3"
| "section_class_digit ChartClass = 10"

definition section_class_from_digit :: "u32 \<Rightarrow> section_class option" where
  "section_class_from_digit digit =
     (if digit = 1 then Some SnapshotClass else if digit = 2 then Some EventClass
      else if digit = 3 then Some DictionaryClass else if digit = 10 then Some ChartClass else None)"

definition class_digit :: "u32 \<Rightarrow> u32" where
  "class_digit raw = raw div 1000000"

definition type_id_source :: "u32 \<Rightarrow> u32" where
  "type_id_source raw = (raw div 1000) mod 1000"

definition type_id_version :: "u32 \<Rightarrow> u32" where
  "type_id_version raw = raw mod 1000"

definition type_id_new :: "u32 \<Rightarrow> u32 option" where
  "type_id_new raw =
     (if section_class_from_digit (class_digit raw) \<noteq> None \<and> 1 \<le> type_id_source raw \<and> 1 \<le> type_id_version raw
      then Some raw else None)"

section \<open>Contracts\<close>

text \<open>An \<open>f64\<close> is kept as its bits.\<close>

type_synonym f64 = u64

definition f64_is_finite :: "f64 \<Rightarrow> bool" where
  "f64_is_finite w \<longleftrightarrow> unat w div 2 ^ 52 mod 2048 \<noteq> 2047"

definition f64_is_positive :: "f64 \<Rightarrow> bool" where
  "f64_is_positive w \<longleftrightarrow> 0 < unat w \<and> unat w \<le> 2047 * 2 ^ 52"

datatype column_class = Cumulative | Gauge | Label | Timestamp

definition ALL_CLASSES :: "column_class list" where
  "ALL_CLASSES = [Cumulative, Gauge, Label, Timestamp]"

text \<open>The literal \<open>1e-6\<close>.\<close>

fun eps_abs :: "column_class \<Rightarrow> f64 option" where
  "eps_abs Cumulative = Some 0x3EB0C6F7A0B5ED8D"
| "eps_abs Gauge = Some 0x3EB0C6F7A0B5ED8D"
| "eps_abs Label = None"
| "eps_abs Timestamp = None"

datatype column_type =
  TyI8 | TyI16 | TyI32 | TyI64 | TyU8 | TyU16 | TyU32 | TyU64 | TyF32 | TyF64 | TyBool | TyTs | TyStrId | TyListI32

record section_column_ref =
  ref_section :: string
  ref_column :: string

record row_gate_override =
  rg_column :: string
  rg_value :: string
  rg_gate :: section_column_ref

record collection_gate =
  cg_default :: section_column_ref
  cg_overrides :: "row_gate_override list"

definition gate_references :: "collection_gate \<Rightarrow> section_column_ref list" where
  "gate_references gate = cg_default gate # map rg_gate (cg_overrides gate)"

record section_column =
  col_name :: string
  col_ty :: column_type
  col_class :: column_class
  col_nullable :: bool
  col_gated_by :: "collection_gate option"

datatype semantics = SnapshotFull | ConditionalFull | EventStream | Changed | OnChange

record type_contract =
  tc_type_id :: u32
  tc_name :: string
  tc_semantics :: semantics
  tc_columns :: "section_column list"
  tc_sort_key :: "string list"
  tc_identity :: "string list"
  tc_deprecated :: bool

definition contract_column :: "type_contract \<Rightarrow> string \<Rightarrow> section_column option" where
  "contract_column c name = find (\<lambda>column. col_name column = name) (tc_columns c)"

definition contract_of :: "type_contract list \<Rightarrow> u32 \<Rightarrow> type_contract option" where
  "contract_of registry type_id = find (\<lambda>c. tc_type_id c = type_id) registry"

section \<open>The linter\<close>

datatype lint_error =
    DuplicateTypeId u32
  | SortKeyColumnMissing u32 string
  | MissingBaseline u32
  | BadTimestampColumn u32 string
  | IdentityColumnMissing u32 string
  | IdentityColumnNotLabel u32 string
  | BadEpsAbs column_class
  | BadGatedBy u32 string
  | UnsupportedGatedClass u32 string
  | BadGateSelector u32 string string
  | InconsistentGate u32 string

definition lint_sort_key :: "type_contract \<Rightarrow> string \<Rightarrow> lint_error list" where
  "lint_sort_key c name = (if contract_column c name = None then [SortKeyColumnMissing (tc_type_id c) name] else [])"

definition lint_identity :: "type_contract \<Rightarrow> string \<Rightarrow> lint_error list" where
  "lint_identity c name =
     (case contract_column c name of
        None \<Rightarrow> [IdentityColumnMissing (tc_type_id c) name]
      | Some column \<Rightarrow> if col_class column \<noteq> Label then [IdentityColumnNotLabel (tc_type_id c) name] else [])"

definition lint_column :: "type_contract \<Rightarrow> section_column \<Rightarrow> lint_error list" where
  "lint_column c column =
     (if col_class column = Timestamp
         \<and> (col_nullable column \<or> col_ty column \<noteq> TyTs \<or> col_name column \<noteq> ''ts'')
      then [BadTimestampColumn (tc_type_id c) (col_name column)] else [])
   @ (if col_gated_by column \<noteq> None \<and> col_class column \<noteq> Cumulative
      then [UnsupportedGatedClass (tc_type_id c) (col_name column)] else [])"

definition lint_contract :: "type_contract \<Rightarrow> lint_error list" where
  "lint_contract c =
     concat (map (lint_sort_key c) (tc_sort_key c))
   @ concat (map (lint_identity c) (tc_identity c))
   @ (if tc_semantics c = Changed \<and> contract_column c ''is_baseline'' = None
      then [MissingBaseline (tc_type_id c)] else [])
   @ concat (map (lint_column c) (tc_columns c))"

definition lint_eps_abs :: "column_class \<Rightarrow> f64 option \<Rightarrow> lint_error list" where
  "lint_eps_abs class_of eps =
     (case eps of None \<Rightarrow> []
      | Some v \<Rightarrow> if \<not> (f64_is_finite v \<and> f64_is_positive v) then [BadEpsAbs class_of] else [])"

fun lint_contracts :: "type_contract list \<Rightarrow> type_contract list \<Rightarrow> lint_error list" where
  "lint_contracts earlier [] = []"
| "lint_contracts earlier (c # rest) =
     lint_contract c
   @ (if \<exists>e \<in> set earlier. tc_type_id e = tc_type_id c then [DuplicateTypeId (tc_type_id c)] else [])
   @ lint_contracts (earlier @ [c]) rest"

definition lint_result :: "lint_error list \<Rightarrow> lint_error list + unit" where
  "lint_result out = (if out = [] then Inr () else Inl out)"

definition lint :: "type_contract list \<Rightarrow> lint_error list + unit" where
  "lint contracts =
     lint_result (concat (map (\<lambda>k. lint_eps_abs k (eps_abs k)) ALL_CLASSES) @ lint_contracts [] contracts)"

subsection \<open>References between contracts\<close>

definition resolves_to_bool :: "type_contract list \<Rightarrow> section_column_ref \<Rightarrow> bool" where
  "resolves_to_bool contracts gate =
     (let matching = filter (\<lambda>c. tc_name c = ref_section gate) contracts in
      matching \<noteq> []
      \<and> (\<forall>c \<in> set matching.
           (case contract_column c (ref_column gate) of None \<Rightarrow> False | Some column \<Rightarrow> col_ty column = TyBool)
           \<and> tc_identity c = [] \<and> tc_sort_key c = [''ts'']))"

definition diff_key :: "type_contract \<Rightarrow> string list" where
  "diff_key c = (if tc_identity c = [] then filter (\<lambda>name. name \<noteq> ''ts'') (tc_sort_key c) else tc_identity c)"

definition valid_selector :: "type_contract list \<Rightarrow> type_contract \<Rightarrow> string \<Rightarrow> string \<Rightarrow> bool" where
  "valid_selector contracts source gated_column selector =
     (\<forall>c \<in> set contracts. tc_name c = tc_name source \<and> contract_column c gated_column \<noteq> None \<longrightarrow>
        (case contract_column c selector of None \<Rightarrow> False
         | Some column \<Rightarrow> col_ty column = TyStrId \<and> col_class column = Label \<and> \<not> col_nullable column
             \<and> selector \<in> set (diff_key c)))"

definition lint_gated_column :: "type_contract list \<Rightarrow> type_contract \<Rightarrow> section_column \<Rightarrow> lint_error list" where
  "lint_gated_column contracts c column =
     (case col_gated_by column of None \<Rightarrow> []
      | Some gate \<Rightarrow>
          (if \<exists>r \<in> set (gate_references gate). \<not> resolves_to_bool contracts r
           then [BadGatedBy (tc_type_id c) (col_name column)] else [])
        @ concat (map (\<lambda>rule. if \<not> valid_selector contracts c (col_name column) (rg_column rule)
                              then [BadGateSelector (tc_type_id c) (col_name column) (rg_column rule)] else [])
                      (cg_overrides gate)))"

fun repeated_selector :: "row_gate_override list \<Rightarrow> row_gate_override list \<Rightarrow> bool" where
  "repeated_selector earlier [] = False"
| "repeated_selector earlier (rule # rules) =
     ((\<exists>e \<in> set earlier. rg_column e = rg_column rule \<and> rg_value e = rg_value rule)
      \<or> repeated_selector (earlier @ [rule]) rules)"

definition gates_compatible :: "collection_gate \<Rightarrow> collection_gate \<Rightarrow> bool" where
  "gates_compatible gate other =
     (let contains_other = \<forall>rule \<in> set (cg_overrides other). rule \<in> set (cg_overrides gate);
          other_contains = \<forall>rule \<in> set (cg_overrides gate). rule \<in> set (cg_overrides other) in
      cg_default gate = cg_default other \<and> (contains_other \<or> other_contains))"

definition lint_gate_against :: "type_contract \<Rightarrow> section_column \<Rightarrow> collection_gate \<Rightarrow> type_contract \<Rightarrow> lint_error list" where
  "lint_gate_against c column gate other =
     (if tc_name other \<noteq> tc_name c then []
      else case contract_column other (col_name column) of None \<Rightarrow> []
      | Some other_column \<Rightarrow>
          (case col_gated_by other_column of
             None \<Rightarrow> [InconsistentGate (tc_type_id c) (col_name column)]
           | Some other_gate \<Rightarrow>
               if gates_compatible gate other_gate then []
               else [InconsistentGate (tc_type_id c) (col_name column)]))"

definition lint_gate :: "type_contract list \<Rightarrow> type_contract \<Rightarrow> section_column \<Rightarrow> lint_error list" where
  "lint_gate earlier c column =
     (case col_gated_by column of None \<Rightarrow> []
      | Some gate \<Rightarrow>
          (if repeated_selector [] (cg_overrides gate)
           then [InconsistentGate (tc_type_id c) (col_name column)] else [])
        @ concat (map (lint_gate_against c column gate) earlier))"

definition lint_ungated :: "type_contract list \<Rightarrow> type_contract \<Rightarrow> section_column \<Rightarrow> lint_error list" where
  "lint_ungated earlier c column =
     (if \<exists>other \<in> set earlier. tc_name other = tc_name c
           \<and> (case contract_column other (col_name column) of None \<Rightarrow> False
              | Some o_column \<Rightarrow> col_gated_by o_column \<noteq> None)
      then [InconsistentGate (tc_type_id c) (col_name column)] else [])"

fun lint_gate_consistency :: "type_contract list \<Rightarrow> type_contract list \<Rightarrow> lint_error list" where
  "lint_gate_consistency earlier [] = []"
| "lint_gate_consistency earlier (c # rest) =
     concat (map (lint_gate earlier c) (tc_columns c))
   @ concat (map (lint_ungated earlier c) (filter (\<lambda>column. col_gated_by column = None) (tc_columns c)))
   @ lint_gate_consistency (earlier @ [c]) rest"

definition lint_references :: "type_contract list \<Rightarrow> lint_error list + unit" where
  "lint_references contracts =
     lint_result (concat (map (\<lambda>c. concat (map (lint_gated_column contracts c) (tc_columns c))) contracts)
       @ lint_gate_consistency [] contracts)"

definition lint_registry :: "type_contract list \<Rightarrow> lint_error list + unit" where
  "lint_registry registry =
     (case lint registry of Inl e \<Rightarrow> Inl e | Inr _ \<Rightarrow> lint_references registry)"

section \<open>Type ids and lookups\<close>

text \<open>An accepted id is the decimal number of its class, source and version.\<close>

lemma type_id_new_digits:
  assumes "type_id_new raw = Some t"
  obtains k where "t = raw" and "class_digit raw = section_class_digit k"
    and "unat raw = unat (section_class_digit k) * 1000000 + unat (type_id_source raw) * 1000 + unat (type_id_version raw)"
    and "1 \<le> unat (type_id_source raw)" and "1 \<le> unat (type_id_version raw)"
proof -
  have t: "t = raw" and some: "section_class_from_digit (class_digit raw) \<noteq> None"
    and one: "1 \<le> type_id_source raw" "1 \<le> type_id_version raw"
    using assms by (auto simp: type_id_new_def split: if_splits)
  obtain k where k: "class_digit raw = section_class_digit k"
  proof -
    have "class_digit raw \<in> {1, 2, 3, 10}"
      using some by (auto simp: section_class_from_digit_def split: if_splits)
    then show ?thesis
      using that [of SnapshotClass] that [of EventClass] that [of DictionaryClass] that [of ChartClass] by auto
  qed
  have "unat raw = unat raw div 1000000 * 1000000 + unat raw div 1000 mod 1000 * 1000 + unat raw mod 1000"
  proof -
    have "1000 * (n div 1000) + n mod 1000 = n" for n :: nat by simp
    from this [of "unat raw"] this [of "unat raw div 1000"] show ?thesis
      by (simp only: div_mult2_eq [of "unat raw" 1000 1000, simplified])
  qed
  then have "unat raw = unat (class_digit raw) * 1000000 + unat (type_id_source raw) * 1000 + unat (type_id_version raw)"
    by (simp add: class_digit_def type_id_source_def type_id_version_def unat_div unat_mod)
  then show ?thesis
    using that [OF t k] one k by (simp add: word_le_nat_alt)
qed

lemma contract_of_Some: "contract_of cs t = Some c \<Longrightarrow> c \<in> set cs \<and> tc_type_id c = t"
  by (auto simp: contract_of_def find_Some_iff)

lemma contract_of_iff:
  assumes "distinct (map tc_type_id cs)"
  shows "contract_of cs t = Some c \<longleftrightarrow> c \<in> set cs \<and> tc_type_id c = t"
  using assms by (induction cs) (auto simp: contract_of_def image_iff)

section \<open>A registry the linter accepts\<close>

lemma lint_result_Inr [simp]: "lint_result out = Inr () \<longleftrightarrow> out = []"
  by (simp add: lint_result_def)

lemma contract_column_Some:
  "contract_column c n = Some x \<Longrightarrow> x \<in> set (tc_columns c) \<and> col_name x = n"
  by (auto simp: contract_column_def find_Some_iff)

lemma contract_column_None: "contract_column c n = None \<longleftrightarrow> (\<forall>x \<in> set (tc_columns c). col_name x \<noteq> n)"
  by (auto simp: contract_column_def find_None_iff)

definition names_distinct :: "type_contract \<Rightarrow> bool" where
  "names_distinct c \<longleftrightarrow> distinct (map col_name (tc_columns c))"

lemma contract_column_iff:
  assumes "names_distinct c"
  shows "contract_column c n = Some x \<longleftrightarrow> x \<in> set (tc_columns c) \<and> col_name x = n"
proof
  assume x: "x \<in> set (tc_columns c) \<and> col_name x = n"
  then obtain y where y: "contract_column c n = Some y"
    using contract_column_None [of c n] by (cases "contract_column c n") auto
  then have "y \<in> set (tc_columns c)" and "col_name y = n" by (auto dest: contract_column_Some)
  then show "contract_column c n = Some x"
    using x y assms unfolding names_distinct_def distinct_map by (auto dest: inj_onD)
qed (rule contract_column_Some)

text \<open>Two columns agree when both are ungated or their gates are compatible.\<close>

definition gates_agree :: "section_column \<Rightarrow> section_column \<Rightarrow> bool" where
  "gates_agree x y \<longleftrightarrow>
     (case (col_gated_by x, col_gated_by y) of
        (None, None) \<Rightarrow> True
      | (Some g, Some h) \<Rightarrow> gates_compatible g h
      | _ \<Rightarrow> False)"

lemma gates_compatible_sym: "gates_compatible g h \<longleftrightarrow> gates_compatible h g"
  by (auto simp: gates_compatible_def Let_def)

lemma gates_agree_sym: "gates_agree x y \<longleftrightarrow> gates_agree y x"
  by (auto simp: gates_agree_def gates_compatible_sym split: option.splits)

lemma gates_agree_refl: "gates_agree x x"
  by (auto simp: gates_agree_def gates_compatible_def Let_def split: option.splits)

definition contracts_agree :: "type_contract \<Rightarrow> type_contract \<Rightarrow> bool" where
  "contracts_agree c d \<longleftrightarrow> (tc_name c = tc_name d \<longrightarrow>
     (\<forall>x \<in> set (tc_columns c). \<forall>y \<in> set (tc_columns d). col_name x = col_name y \<longrightarrow> gates_agree x y))"

definition gate_ok :: "type_contract list \<Rightarrow> type_contract \<Rightarrow> section_column \<Rightarrow> collection_gate \<Rightarrow> bool" where
  "gate_ok cs c x gate \<longleftrightarrow>
     col_class x = Cumulative
     \<and> (\<forall>r \<in> set (gate_references gate). resolves_to_bool cs r)
     \<and> distinct (map (\<lambda>r. (rg_column r, rg_value r)) (cg_overrides gate))
     \<and> (\<forall>r \<in> set (cg_overrides gate). valid_selector cs c (col_name x) (rg_column r))"

definition column_ok :: "type_contract list \<Rightarrow> type_contract \<Rightarrow> section_column \<Rightarrow> bool" where
  "column_ok cs c x \<longleftrightarrow>
     (col_class x = Timestamp \<longrightarrow> \<not> col_nullable x \<and> col_ty x = TyTs \<and> col_name x = ''ts'')
     \<and> (\<forall>gate. col_gated_by x = Some gate \<longrightarrow> gate_ok cs c x gate)"

definition contract_ok :: "type_contract list \<Rightarrow> type_contract \<Rightarrow> bool" where
  "contract_ok cs c \<longleftrightarrow>
     set (tc_sort_key c) \<subseteq> col_name ` set (tc_columns c)
     \<and> set (tc_identity c) \<subseteq> col_name ` {x \<in> set (tc_columns c). col_class x = Label}
     \<and> (tc_semantics c = Changed \<longrightarrow> ''is_baseline'' \<in> col_name ` set (tc_columns c))
     \<and> (\<forall>x \<in> set (tc_columns c). column_ok cs c x)"

definition registry_ok :: "type_contract list \<Rightarrow> bool" where
  "registry_ok cs \<longleftrightarrow> distinct (map tc_type_id cs) \<and> (\<forall>c \<in> set cs. contract_ok cs c)
     \<and> (\<forall>c \<in> set cs. \<forall>d \<in> set cs. contracts_agree c d)"

subsection \<open>What each pass of the linter checks\<close>

lemma concat_map_Nil: "concat (map f xs) = [] \<longleftrightarrow> (\<forall>x \<in> set xs. f x = [])"
  by auto

lemma repeated_selector_iff:
  "\<not> repeated_selector earlier rules \<longleftrightarrow>
     distinct (map (\<lambda>r. (rg_column r, rg_value r)) rules)
     \<and> (\<forall>e \<in> set earlier. \<forall>r \<in> set rules. (rg_column e, rg_value e) \<noteq> (rg_column r, rg_value r))"
  by (induction earlier rules rule: repeated_selector.induct) (auto simp: image_iff)

lemma lint_contracts_Nil:
  "lint_contracts earlier cs = [] \<longleftrightarrow>
     (\<forall>c \<in> set cs. lint_contract c = []) \<and> distinct (map tc_type_id cs)
     \<and> (\<forall>e \<in> set earlier. \<forall>c \<in> set cs. tc_type_id e \<noteq> tc_type_id c)"
  by (induction earlier cs rule: lint_contracts.induct) (auto simp: image_iff)

definition gates_clean :: "type_contract \<Rightarrow> type_contract \<Rightarrow> bool" where
  "gates_clean other c \<longleftrightarrow> (\<forall>x \<in> set (tc_columns c).
     (\<forall>gate. col_gated_by x = Some gate \<longrightarrow> lint_gate_against c x gate other = [])
     \<and> (col_gated_by x = None \<longrightarrow> lint_ungated [other] c x = []))"

lemma lint_ungated_Nil: "lint_ungated earlier c x = [] \<longleftrightarrow> (\<forall>e \<in> set earlier. lint_ungated [e] c x = [])"
  by (auto simp: lint_ungated_def)

lemma lint_gate_consistency_Nil:
  "lint_gate_consistency earlier cs = [] \<longleftrightarrow>
     (\<forall>c \<in> set cs. \<forall>x \<in> set (tc_columns c). \<forall>gate. col_gated_by x = Some gate \<longrightarrow>
        \<not> repeated_selector [] (cg_overrides gate))
     \<and> sorted_wrt gates_clean cs \<and> (\<forall>e \<in> set earlier. \<forall>c \<in> set cs. gates_clean e c)"
proof (induction earlier cs rule: lint_gate_consistency.induct)
  case (2 earlier c rest)
  have step: "lint_gate_consistency earlier (c # rest) = [] \<longleftrightarrow>
      (\<forall>x \<in> set (tc_columns c). lint_gate earlier c x = [])
      \<and> (\<forall>x \<in> set (tc_columns c). col_gated_by x = None \<longrightarrow> lint_ungated earlier c x = [])
      \<and> lint_gate_consistency (earlier @ [c]) rest = []"
    by auto
  have gated: "(\<forall>x \<in> set (tc_columns c). lint_gate earlier c x = []) \<longleftrightarrow>
      (\<forall>x \<in> set (tc_columns c). \<forall>gate. col_gated_by x = Some gate \<longrightarrow>
         \<not> repeated_selector [] (cg_overrides gate) \<and> (\<forall>e \<in> set earlier. lint_gate_against c x gate e = []))"
    by (auto simp: lint_gate_def split: option.splits)
  have ungated: "(\<forall>x \<in> set (tc_columns c). col_gated_by x = None \<longrightarrow> lint_ungated earlier c x = []) \<longleftrightarrow>
      (\<forall>x \<in> set (tc_columns c). col_gated_by x = None \<longrightarrow> (\<forall>e \<in> set earlier. lint_ungated [e] c x = []))"
    using lint_ungated_Nil by blast
  have pairs: "(\<forall>x \<in> set (tc_columns c). lint_gate earlier c x = [])
      \<and> (\<forall>x \<in> set (tc_columns c). col_gated_by x = None \<longrightarrow> lint_ungated earlier c x = []) \<longleftrightarrow>
      (\<forall>x \<in> set (tc_columns c). \<forall>gate. col_gated_by x = Some gate \<longrightarrow> \<not> repeated_selector [] (cg_overrides gate))
      \<and> (\<forall>e \<in> set earlier. gates_clean e c)"
    unfolding gated ungated gates_clean_def by blast
  show ?case
    unfolding step 2 using pairs by (simp add: ball_Un) blast
qed simp

lemma column_clean:
  assumes "names_distinct other"
  shows "(\<forall>gate. col_gated_by x = Some gate \<longrightarrow> lint_gate_against c x gate other = [])
     \<and> (col_gated_by x = None \<longrightarrow> lint_ungated [other] c x = []) \<longleftrightarrow>
     (tc_name c = tc_name other \<longrightarrow> (\<forall>y \<in> set (tc_columns other). col_name x = col_name y \<longrightarrow> gates_agree x y))"
proof (cases "contract_column other (col_name x)")
  case None
  then show ?thesis
    by (auto simp: contract_column_None [THEN iffD1] lint_gate_against_def lint_ungated_def)
       (metis contract_column_None)+
next
  case (Some y)
  have only: "(\<forall>z \<in> set (tc_columns other). col_name x = col_name z \<longrightarrow> gates_agree x z) \<longleftrightarrow> gates_agree x y"
    using Some contract_column_iff [OF assms] by (metis option.inject)
  show ?thesis
    unfolding only by (auto simp: lint_gate_against_def lint_ungated_def Some gates_agree_def split: option.splits)
qed

lemma gates_clean_iff:
  assumes "names_distinct other"
  shows "gates_clean other c \<longleftrightarrow> contracts_agree c other"
  unfolding gates_clean_def contracts_agree_def column_clean [OF assms] by blast

lemma sorted_wrt_symmetric:
  assumes "\<And>x y. R x y \<longleftrightarrow> R y x" and "\<And>x. x \<in> set xs \<Longrightarrow> R x x"
  shows "sorted_wrt R xs \<longleftrightarrow> (\<forall>x \<in> set xs. \<forall>y \<in> set xs. R x y)"
  using assms(2) by (induction xs) (use assms(1) in auto)

lemma contract_column_mem: "contract_column c n \<noteq> None \<longleftrightarrow> n \<in> col_name ` set (tc_columns c)"
  using contract_column_None [of c n] by auto

lemma lint_sort_key_Nil: "lint_sort_key c n = [] \<longleftrightarrow> n \<in> col_name ` set (tc_columns c)"
  using contract_column_mem [of c n] by (auto simp: lint_sort_key_def)

lemma lint_identity_Nil:
  assumes "names_distinct c"
  shows "lint_identity c n = [] \<longleftrightarrow> n \<in> col_name ` {x \<in> set (tc_columns c). col_class x = Label}"
proof (cases "contract_column c n")
  case None
  then show ?thesis using contract_column_None [of c n] by (auto simp: lint_identity_def)
next
  case (Some x)
  then have only: "y \<in> set (tc_columns c) \<and> col_name y = n \<longleftrightarrow> y = x" for y
    using contract_column_iff [OF assms, of n y] by auto
  have "lint_identity c n = [] \<longleftrightarrow> col_class x = Label"
    by (simp add: lint_identity_def Some)
  moreover have "n \<in> col_name ` {y \<in> set (tc_columns c). col_class y = Label} \<longleftrightarrow> col_class x = Label"
    using only by (auto simp: image_iff) metis+
  ultimately show ?thesis by blast
qed

lemma lint_column_Nil:
  "lint_column c x = [] \<longleftrightarrow>
     (col_class x = Timestamp \<longrightarrow> \<not> col_nullable x \<and> col_ty x = TyTs \<and> col_name x = ''ts'')
     \<and> (col_gated_by x \<noteq> None \<longrightarrow> col_class x = Cumulative)"
  by (auto simp: lint_column_def)

lemma lint_contract_Nil:
  assumes "names_distinct c"
  shows "lint_contract c = [] \<longleftrightarrow>
     set (tc_sort_key c) \<subseteq> col_name ` set (tc_columns c)
     \<and> set (tc_identity c) \<subseteq> col_name ` {x \<in> set (tc_columns c). col_class x = Label}
     \<and> (tc_semantics c = Changed \<longrightarrow> ''is_baseline'' \<in> col_name ` set (tc_columns c))
     \<and> (\<forall>x \<in> set (tc_columns c). lint_column c x = [])"
  unfolding lint_contract_def append_is_Nil_conv concat_map_Nil lint_sort_key_Nil lint_identity_Nil [OF assms]
  using contract_column_mem [of c "''is_baseline''"] by auto

lemma lint_gated_column_Nil:
  "lint_gated_column cs c x = [] \<longleftrightarrow> (\<forall>gate. col_gated_by x = Some gate \<longrightarrow>
     (\<forall>r \<in> set (gate_references gate). resolves_to_bool cs r)
     \<and> (\<forall>r \<in> set (cg_overrides gate). valid_selector cs c (col_name x) (rg_column r)))"
  by (auto simp: lint_gated_column_def split: option.splits)

lemma eps_abs_clean: "concat (map (\<lambda>k. lint_eps_abs k (eps_abs k)) ALL_CLASSES) = []"
  by (simp add: ALL_CLASSES_def lint_eps_abs_def f64_is_finite_def f64_is_positive_def)

lemma contracts_agree_sym: "contracts_agree c d \<longleftrightarrow> contracts_agree d c"
proof -
  have "contracts_agree b a" if "contracts_agree a b" for a b
    using that unfolding contracts_agree_def by (intro impI ballI) (rule gates_agree_sym [THEN iffD1], simp)
  then show ?thesis by blast
qed

lemma contracts_agree_refl: "names_distinct c \<Longrightarrow> contracts_agree c c"
  unfolding contracts_agree_def names_distinct_def distinct_map
  by (intro impI ballI) (metis inj_onD gates_agree_refl)

lemma column_ok_iff:
  "column_ok cs c x \<longleftrightarrow> lint_column c x = [] \<and> lint_gated_column cs c x = []
     \<and> (\<forall>gate. col_gated_by x = Some gate \<longrightarrow> \<not> repeated_selector [] (cg_overrides gate))"
proof (cases "col_gated_by x")
  case None
  then show ?thesis by (simp add: column_ok_def lint_column_Nil lint_gated_column_Nil)
next
  case (Some gate)
  then show ?thesis
    by (simp add: column_ok_def gate_ok_def lint_column_Nil lint_gated_column_Nil repeated_selector_iff) blast
qed

lemma all_contract_ok:
  assumes "names_distinct c"
  shows "contract_ok cs c \<longleftrightarrow> lint_contract c = []
     \<and> (\<forall>x \<in> set (tc_columns c). lint_gated_column cs c x = []
          \<and> (\<forall>gate. col_gated_by x = Some gate \<longrightarrow> \<not> repeated_selector [] (cg_overrides gate)))"
  unfolding contract_ok_def lint_contract_Nil [OF assms] column_ok_iff ball_conj_distrib by (simp only: conj_ac)

lemma registry_clean_iff:
  assumes names: "\<forall>c \<in> set cs. names_distinct c"
  shows "lint_registry cs = Inr () \<longleftrightarrow> registry_ok cs"
proof -
  have clean: "sorted_wrt gates_clean cs \<longleftrightarrow> (\<forall>c \<in> set cs. \<forall>d \<in> set cs. contracts_agree c d)"
  proof -
    have same: "gates_clean c d \<longleftrightarrow> contracts_agree c d" if "c \<in> set cs" "d \<in> set cs" for c d
      using names that gates_clean_iff contracts_agree_sym by blast
    have "sorted_wrt gates_clean cs \<longleftrightarrow> sorted_wrt contracts_agree cs"
      by (intro iffI) (erule sorted_wrt_mono_rel [rotated], simp add: same)+
    then show ?thesis
      using names by (simp add: sorted_wrt_symmetric [of contracts_agree, OF contracts_agree_sym contracts_agree_refl])
  qed
  have "lint_registry cs = Inr () \<longleftrightarrow> lint cs = Inr () \<and> lint_references cs = Inr ()"
    by (auto simp: lint_registry_def split: sum.splits)
  then show ?thesis
    using names clean
    by (simp add: lint_def lint_references_def registry_ok_def eps_abs_clean lint_contracts_Nil
        lint_gate_consistency_Nil all_contract_ok del: concat_eq_Nil_conv) auto
qed

text \<open>
  C35. The linter accepts a registry exactly when it is well formed: type ids are distinct, sort keys and
  identities name columns of the contract (identities labels), time columns are the non-null \<open>ts\<close>, only
  cumulative columns are gated, by boolean columns of known sections and by stable selectors, and any
  two versions of a section, in either order, agree on the gate of every column they share.  Column
  names of one contract are distinct: they are the fields of a struct.
\<close>

theorem lint_registry_exact:
  assumes names: "\<forall>c \<in> set cs. names_distinct c"
  shows "lint_registry cs = Inr () \<longleftrightarrow> registry_ok cs"
  by (rule registry_clean_iff [OF names])

text \<open>Two versions of a section with a gated counter, and the section that holds the gate.\<close>

definition ts_column :: section_column where
  "ts_column = \<lparr>col_name = ''ts'', col_ty = TyTs, col_class = Timestamp, col_nullable = False, col_gated_by = None\<rparr>"

definition sample_gate :: collection_gate where
  "sample_gate = \<lparr>cg_default = \<lparr>ref_section = ''reset'', ref_column = ''on''\<rparr>, cg_overrides = []\<rparr>"

definition sample_contract :: "u32 \<Rightarrow> section_column list \<Rightarrow> type_contract" where
  "sample_contract raw extra =
     \<lparr>tc_type_id = raw, tc_name = ''wal'', tc_semantics = SnapshotFull,
      tc_columns = ts_column # \<lparr>col_name = ''bytes'', col_ty = TyI64, col_class = Cumulative, col_nullable = False,
        col_gated_by = Some sample_gate\<rparr> # extra,
      tc_sort_key = [''ts''], tc_identity = [], tc_deprecated = False\<rparr>"

definition sample_registry :: "type_contract list" where
  "sample_registry =
     [sample_contract 1006001 [],
      sample_contract 1006002 [\<lparr>col_name = ''node'', col_ty = TyI32, col_class = Label, col_nullable = True,
        col_gated_by = None\<rparr>],
      \<lparr>tc_type_id = 1007001, tc_name = ''reset'', tc_semantics = OnChange,
       tc_columns = [ts_column, \<lparr>col_name = ''on'', col_ty = TyBool, col_class = Label, col_nullable = False,
         col_gated_by = None\<rparr>],
       tc_sort_key = [''ts''], tc_identity = [], tc_deprecated = False\<rparr>]"

lemma lint_sample: "lint_registry sample_registry = Inr ()"
proof -
  note data = sample_registry_def sample_contract_def ts_column_def sample_gate_def
  have "lint sample_registry = Inr ()"
    by (simp add: lint_def eps_abs_clean lint_contract_def lint_sort_key_def lint_column_def contract_column_def data
        del: concat_eq_Nil_conv)
  moreover have "lint_references sample_registry = Inr ()"
    by (simp add: lint_references_def lint_gated_column_def gate_references_def resolves_to_bool_def lint_gate_def
        lint_gate_against_def gates_compatible_def lint_ungated_def contract_column_def data)
  ultimately show ?thesis by (simp add: lint_registry_def)
qed

lemma names_sample: "\<forall>c \<in> set sample_registry. names_distinct c"
  by (simp add: names_distinct_def sample_registry_def sample_contract_def ts_column_def)

lemma lint_registry_exact_witness: "registry_ok sample_registry"
  using lint_registry_exact [OF names_sample] lint_sample by blast

end
