(* ===== verification/Thrift_Input.thy ===== *)
theory Thrift_Input
  imports Prelude
begin

unbundle bit_operations_syntax

text \<open>
  The bounded reader of Thrift's compact protocol (\<open>crates/kronika-registry/src/parquet_preflight.rs\<close>,
  \<open>BoundedCompactInput\<close>): the input through which the third-party metadata parser reads a Parquet
  footer or page header.  One definition per method of the protocol; a method takes the reader and
  returns its result with the changed reader.
\<close>

section \<open>The reader\<close>

definition MAX_THRIFT_NESTING :: nat where "MAX_THRIFT_NESTING = 16"
definition MAX_THRIFT_ITEMS :: nat where "MAX_THRIFT_ITEMS = 65536"

datatype thrift_error = InvalidData string | NotImplemented string | EndOfFile string | InvalidUtf8

datatype thrift_type =
  TStop | TBool | TI08 | TI16 | TI32 | TI64 | TDouble | TString | TList | TSet | TMap | TStruct

record compact_input =
  ci_remaining :: "u8 list"
  ci_last_field_id :: int
  ci_field_stack :: "int list"
  ci_struct_depth :: nat
  ci_nesting :: nat
  ci_collection_items :: nat
  ci_pending_bool :: "bool option"

type_synonym 'a thrift_result = "(thrift_error + 'a) \<times> compact_input"

definition thrift_bind :: "'a thrift_result \<Rightarrow> ('a \<Rightarrow> compact_input \<Rightarrow> 'b thrift_result) \<Rightarrow> 'b thrift_result" where
  "thrift_bind r f = (case r of (Inl e, st) \<Rightarrow> (Inl e, st) | (Inr a, st) \<Rightarrow> f a st)"

definition compact_input_new :: "u8 list \<Rightarrow> compact_input" where
  "compact_input_new remaining =
     \<lparr>ci_remaining = remaining, ci_last_field_id = 0, ci_field_stack = replicate MAX_THRIFT_NESTING 0,
      ci_struct_depth = 0, ci_nesting = 0, ci_collection_items = 0, ci_pending_bool = None\<rparr>"

definition remaining_len :: "compact_input \<Rightarrow> nat" where
  "remaining_len st = length (ci_remaining st)"

definition enter :: "compact_input \<Rightarrow> unit thrift_result" where
  "enter st =
     (if MAX_THRIFT_NESTING \<le> ci_nesting st then (Inl (InvalidData ''compact metadata nesting is too deep''), st)
      else (Inr (), st\<lparr>ci_nesting := ci_nesting st + 1\<rparr>))"

definition leave :: "compact_input \<Rightarrow> unit thrift_result" where
  "leave st =
     (if ci_nesting st = 0 then (Inl (InvalidData ''unbalanced compact metadata''), st)
      else (Inr (), st\<lparr>ci_nesting := ci_nesting st - 1\<rparr>))"

definition admit_items :: "nat \<Rightarrow> compact_input \<Rightarrow> unit thrift_result" where
  "admit_items count st =
     (if length (ci_remaining st) < count then (Inl (InvalidData ''collection exceeds remaining input''), st)
      else case usize_checked_add (ci_collection_items st) count of
        None \<Rightarrow> (Inl (InvalidData ''compact metadata has too many collection items''), st)
      | Some items \<Rightarrow>
          if items \<le> MAX_THRIFT_ITEMS then (Inr (), st\<lparr>ci_collection_items := items\<rparr>)
          else (Inl (InvalidData ''compact metadata has too many collection items''), st))"

definition read_byte :: "compact_input \<Rightarrow> u8 thrift_result" where
  "read_byte st =
     (case ci_remaining st of
        [] \<Rightarrow> (Inl (EndOfFile ''compact metadata ended unexpectedly''), st)
      | byte # rest \<Rightarrow> (Inr byte, st\<lparr>ci_remaining := rest\<rparr>))"

function vlq_loop :: "nat \<Rightarrow> u64 \<Rightarrow> compact_input \<Rightarrow> u64 thrift_result" where
  "vlq_loop index acc st =
     (if 10 \<le> index then (Inl (InvalidData ''unterminated compact integer''), st)
      else thrift_bind (read_byte st) (\<lambda>byte st.
        let payload = ucast (byte AND 0x7f) :: u64 in
        if index = 9 \<and> 1 < payload then (Inl (InvalidData ''compact integer exceeds u64''), st)
        else let acc = acc OR push_bit (index * 7) payload in
          if byte AND 0x80 = 0 then (Inr acc, st) else vlq_loop (index + 1) acc st))"
  by pat_completeness auto
termination by (relation "measure (\<lambda>(index, acc, st). 10 - index)") auto

declare vlq_loop.simps [simp del]

definition read_vlq :: "compact_input \<Rightarrow> u64 thrift_result" where
  "read_vlq st = vlq_loop 0 0 st"

definition read_zigzag :: "compact_input \<Rightarrow> int thrift_result" where
  "read_zigzag st = thrift_bind (read_vlq st) (\<lambda>v st.
     let half = uint (drop_bit 1 v) in
     if half < 2 ^ 63 then (Inr (if v AND 1 = 0 then half else - half - 1), st)
     else (Inl (InvalidData ''compact integer exceeds i64''), st))"

definition compact_type :: "u8 \<Rightarrow> thrift_error + thrift_type" where
  "compact_type v =
     (if v = 0 then Inr TStop else if v = 1 \<or> v = 2 then Inr TBool else if v = 3 then Inr TI08
      else if v = 4 then Inr TI16 else if v = 5 then Inr TI32 else if v = 6 then Inr TI64
      else if v = 7 then Inr TDouble else if v = 8 then Inr TString else if v = 9 then Inr TList
      else if v = 10 then Inr TSet else if v = 11 then Inr TMap else if v = 12 then Inr TStruct
      else Inl (InvalidData ''unknown compact field type''))"

definition admit_collection :: "thrift_type \<Rightarrow> u64 \<Rightarrow> compact_input \<Rightarrow> (thrift_type \<times> nat) thrift_result" where
  "admit_collection element_type raw st =
     (let count = unat raw in
      thrift_bind (admit_items count st) (\<lambda>_ st.
        if count < 2 ^ 31 then (Inr (element_type, count), st)
        else (Inl (InvalidData ''collection is too large''), st)))"

definition collection_of_header :: "u8 \<Rightarrow> compact_input \<Rightarrow> (thrift_type \<times> nat) thrift_result" where
  "collection_of_header header st =
     (case compact_type (header AND 0x0f) of Inl e \<Rightarrow> (Inl e, st) | Inr element_type \<Rightarrow>
      if element_type = TStop then (Inl (InvalidData ''collection element type is stop''), st)
      else let inline = drop_bit 4 (header AND 0xf0) in
        thrift_bind (if inline = 15 then read_vlq st else (Inr (ucast inline), st)) (admit_collection element_type))"

definition read_collection :: "compact_input \<Rightarrow> (thrift_type \<times> nat) thrift_result" where
  "read_collection st = thrift_bind (enter st) (\<lambda>_ st. thrift_bind (read_byte st) collection_of_header)"

definition read_struct_begin :: "compact_input \<Rightarrow> unit thrift_result" where
  "read_struct_begin st =
     thrift_bind (enter st) (\<lambda>_ st.
     if length (ci_field_stack st) \<le> ci_struct_depth st
     then (Inl (InvalidData ''compact metadata nesting is too deep''), st)
     else (Inr (), st\<lparr>ci_field_stack := (ci_field_stack st)[ci_struct_depth st := ci_last_field_id st],
                      ci_struct_depth := ci_struct_depth st + 1, ci_last_field_id := 0\<rparr>))"

definition read_struct_end :: "compact_input \<Rightarrow> unit thrift_result" where
  "read_struct_end st =
     (if ci_struct_depth st = 0 then (Inl (InvalidData ''unbalanced compact struct''), st)
      else let depth = ci_struct_depth st - 1 in
        leave (st\<lparr>ci_struct_depth := depth, ci_last_field_id := ci_field_stack st ! depth\<rparr>))"

definition read_i16 :: "compact_input \<Rightarrow> int thrift_result" where
  "read_i16 st = thrift_bind (read_zigzag st) (\<lambda>v st.
     if - (2 ^ 15) \<le> v \<and> v < 2 ^ 15 then (Inr v, st)
     else (Inl (InvalidData ''compact i16 is out of range''), st))"

definition read_i32 :: "compact_input \<Rightarrow> int thrift_result" where
  "read_i32 st = thrift_bind (read_zigzag st) (\<lambda>v st.
     if - (2 ^ 31) \<le> v \<and> v < 2 ^ 31 then (Inr v, st)
     else (Inl (InvalidData ''compact i32 is out of range''), st))"

definition read_i64 :: "compact_input \<Rightarrow> int thrift_result" where
  "read_i64 st = read_zigzag st"

definition read_i8 :: "compact_input \<Rightarrow> int thrift_result" where
  "read_i8 st = thrift_bind (read_byte st) (\<lambda>b st. (Inr (sint b), st))"

text \<open>A field header: the type and the id, which a stop field does not have.\<close>

definition next_field_id :: "u8 \<Rightarrow> compact_input \<Rightarrow> int thrift_result" where
  "next_field_id delta st =
     (if delta = 0 then read_i16 st
      else if ci_last_field_id st + int (unat delta) < 2 ^ 15 then (Inr (ci_last_field_id st + int (unat delta)), st)
      else (Inl (InvalidData ''compact field id overflow''), st))"

definition read_field_begin :: "compact_input \<Rightarrow> (thrift_type \<times> int option) thrift_result" where
  "read_field_begin st =
     (if ci_pending_bool st \<noteq> None then (Inl (InvalidData ''compact boolean field was not consumed''), st)
      else thrift_bind (read_byte st) (\<lambda>header st.
        let delta = drop_bit 4 (header AND 0xf0); kind = header AND 0x0f in
        let st = (if kind = 1 then st\<lparr>ci_pending_bool := Some True\<rparr>
                  else if kind = 2 then st\<lparr>ci_pending_bool := Some False\<rparr> else st) in
        case compact_type kind of Inl e \<Rightarrow> (Inl e, st) | Inr field_type \<Rightarrow>
        if field_type = TStop then (Inr (TStop, None), st)
        else thrift_bind (next_field_id delta st) (\<lambda>field_id st.
          (Inr (field_type, Some field_id), st\<lparr>ci_last_field_id := field_id\<rparr>))))"

definition read_field_end :: "compact_input \<Rightarrow> unit thrift_result" where
  "read_field_end st = (Inr (), st)"

definition read_bool :: "compact_input \<Rightarrow> bool thrift_result" where
  "read_bool st =
     (case ci_pending_bool st of
        Some v \<Rightarrow> (Inr v, st\<lparr>ci_pending_bool := None\<rparr>)
      | None \<Rightarrow> thrift_bind (read_byte st) (\<lambda>b st.
          if b = 1 then (Inr True, st) else if b = 2 then (Inr False, st)
          else (Inl (InvalidData ''invalid compact boolean''), st)))"

definition read_bytes :: "compact_input \<Rightarrow> u8 list thrift_result" where
  "read_bytes st = thrift_bind (read_vlq st) (\<lambda>v st.
     let len = unat v in
     if len \<le> length (ci_remaining st)
     then (Inr (take len (ci_remaining st)), st\<lparr>ci_remaining := drop len (ci_remaining st)\<rparr>)
     else (Inl (EndOfFile ''binary field exceeds remaining input''), st))"

definition read_double :: "compact_input \<Rightarrow> u64 thrift_result" where
  "read_double st =
     (if 8 \<le> length (ci_remaining st)
      then (Inr (u64_from_le (take 8 (ci_remaining st))), st\<lparr>ci_remaining := drop 8 (ci_remaining st)\<rparr>)
      else (Inl (EndOfFile ''double exceeds remaining input''), st))"

text \<open>\<open>String::from_utf8\<close>: the well-formed byte sequences of the Unicode standard.\<close>

definition continuation :: "u8 \<Rightarrow> bool" where
  "continuation b \<longleftrightarrow> 0x80 \<le> b \<and> b \<le> 0xBF"

fun utf8_valid :: "u8 list \<Rightarrow> bool" where
  "utf8_valid [] = True"
| "utf8_valid (a # bs) =
     (if a \<le> 0x7F then utf8_valid bs
      else case bs of [] \<Rightarrow> False | b # cs \<Rightarrow>
        if 0xC2 \<le> a \<and> a \<le> 0xDF then continuation b \<and> utf8_valid cs
        else case cs of [] \<Rightarrow> False | c # ds \<Rightarrow>
          if 0xE0 \<le> a \<and> a \<le> 0xEF then
            continuation b \<and> (a = 0xE0 \<longrightarrow> 0xA0 \<le> b) \<and> (a = 0xED \<longrightarrow> b \<le> 0x9F) \<and> continuation c
            \<and> utf8_valid ds
          else case ds of [] \<Rightarrow> False | d # es \<Rightarrow>
            0xF0 \<le> a \<and> a \<le> 0xF4 \<and> continuation b \<and> (a = 0xF0 \<longrightarrow> 0x90 \<le> b) \<and> (a = 0xF4 \<longrightarrow> b \<le> 0x8F)
            \<and> continuation c \<and> continuation d \<and> utf8_valid es)"

definition read_string :: "compact_input \<Rightarrow> u8 list thrift_result" where
  "read_string st = thrift_bind (read_bytes st) (\<lambda>bytes st.
     if utf8_valid bytes then (Inr bytes, st) else (Inl InvalidUtf8, st))"

definition read_list_begin :: "compact_input \<Rightarrow> (thrift_type \<times> nat) thrift_result" where
  "read_list_begin st = read_collection st"

definition read_list_end :: "compact_input \<Rightarrow> unit thrift_result" where
  "read_list_end st = leave st"

text \<open>Messages, sets and maps do not occur in Parquet metadata and are refused.\<close>

definition read_message_begin :: "compact_input \<Rightarrow> unit thrift_result" where
  "read_message_begin st = (Inl (NotImplemented ''messages are not valid in Parquet metadata''), st)"

definition read_set_begin :: "compact_input \<Rightarrow> unit thrift_result" where
  "read_set_begin st = (Inl (NotImplemented ''sets are not valid in supported Parquet metadata''), st)"

definition read_map_begin :: "compact_input \<Rightarrow> unit thrift_result" where
  "read_map_begin st = (Inl (NotImplemented ''maps are not valid in supported Parquet metadata''), st)"

section \<open>Variable-length integers\<close>

text \<open>The number that a sequence of seven-bit groups denotes, least significant first.\<close>

fun vlq_value :: "u8 list \<Rightarrow> nat" where
  "vlq_value [] = 0"
| "vlq_value (b # bs) = unat b mod 128 + 128 * vlq_value bs"

text \<open>The groups that \<open>read_vlq\<close> takes when \<open>index\<close> of them have been read.\<close>

fun vlq_groups :: "nat \<Rightarrow> u8 list \<Rightarrow> bool" where
  "vlq_groups index [] = False"
| "vlq_groups index (b # bs) \<longleftrightarrow> index < 10 \<and> (index = 9 \<longrightarrow> unat b mod 128 \<le> 1)
     \<and> (if unat b < 128 then bs = [] else vlq_groups (index + 1) bs)"

fun vlq_encode :: "nat \<Rightarrow> u8 list" where
  "vlq_encode n = (if n < 128 then [of_nat n] else of_nat (n mod 128 + 128) # vlq_encode (n div 128))"

declare vlq_encode.simps [simp del]

definition zigzag :: "int \<Rightarrow> nat" where
  "zigzag x = nat (if 0 \<le> x then 2 * x else - 2 * x - 1)"

lemma unat_and_7f: "unat (b AND 0x7f :: u8) = unat b mod 128"
proof -
  have "b AND 0x7f = take_bit 7 b" by (simp add: take_bit_eq_mask mask_eq_exp_minus_1)
  then show ?thesis by (simp add: take_bit_eq_mod unat_mod)
qed

lemma and_80_eq_0: "(b AND 0x80 :: u8) = 0 \<longleftrightarrow> unat b < 128"
proof -
  have "(b AND 0x80 = 0) \<longleftrightarrow> \<not> bit b 7"
    using and_exp_eq_0_iff_not_bit [of b 7] by simp
  also have "\<dots> \<longleftrightarrow> \<not> bit (unat b) 7" by (simp add: bit_unsigned_iff)
  also have "\<dots> \<longleftrightarrow> unat b div 128 mod 2 = 0" by (simp add: bit_iff_odd even_iff_mod_2_eq_zero)
  also have "\<dots> \<longleftrightarrow> unat b < 128"
  proof (cases "unat b < 128")
    case False
    then have "unat b div 128 = 1" using unat_less_8 [of b] by (intro div_nat_eqI) auto
    then show ?thesis using False by simp
  qed simp
  finally show ?thesis .
qed

lemma unat_or_push:
  assumes "unat (acc :: u64) < 2 ^ k" and "unat p * 2 ^ k < 2 ^ 64"
  shows "unat (acc OR push_bit k p) = unat acc + unat p * 2 ^ k"
proof -
  have shifted: "unat (push_bit k p) = unat p * 2 ^ k"
    using assms(2) by (simp only: unsigned_push_bit_eq) (simp add: push_bit_eq_mult take_bit_nat_eq_self)
  have "\<not> bit acc n \<or> \<not> bit (push_bit k p) n" for n
  proof (cases "n < k")
    case False
    have "\<not> bit (unat acc) n"
    proof -
      have "unat acc < 2 ^ n" using assms(1) False by (metis linorder_not_less order_less_le_trans power_increasing one_le_numeral)
      then show ?thesis by (simp add: bit_iff_odd)
    qed
    then show ?thesis by (auto simp: bit_unsigned_iff dest: bit_imp_possible_bit)
  qed (simp add: bit_push_bit_iff)
  then have "acc OR push_bit k p = acc + push_bit k p"
    by (simp add: disjunctive_add)
  moreover have "unat acc + unat p * 2 ^ k < 2 ^ 64"
  proof (cases "k < 64")
    case True
    define q :: nat where "q = 2 ^ (64 - k)"
    have pow: "(2 :: nat) ^ 64 = q * 2 ^ k" using True by (simp add: q_def flip: power_add)
    have "unat p * 2 ^ k < q * 2 ^ k" using assms(2) unfolding pow .
    then have "unat p < q" by (rule mult_less_cancel2 [THEN iffD1, THEN conjunct2])
    then have "(unat p + 1) * 2 ^ k \<le> q * 2 ^ k" by (intro mult_le_mono1) simp
    then show ?thesis using assms(1) pow by simp
  next
    case False
    then have "(2 :: nat) ^ 64 \<le> 2 ^ k" by (intro power_increasing) auto
    then have "unat p * 2 ^ 64 \<le> unat p * 2 ^ k" by simp
    then have "unat p = 0" using assms(2) by (cases "unat p") auto
    then show ?thesis using unat_less_64 [of acc] by simp
  qed
  ultimately show ?thesis by (simp add: unat_word_ariths shifted)
qed

lemma group_fits:
  assumes "index \<le> 9" and "index = 9 \<longrightarrow> p \<le> (1 :: nat)" and "p < 128"
  shows "p * 2 ^ (7 * index) < 2 ^ 64"
proof (cases "index = 9")
  case False
  then have "p * 2 ^ (7 * index) \<le> 127 * 2 ^ (7 * 8)"
    using assms by (intro mult_le_mono power_increasing) auto
  also have "\<dots> < 2 ^ 64" by simp
  finally show ?thesis .
next
  case True
  have "p * 2 ^ (7 * index) \<le> 1 * 2 ^ 63" using assms(2) True by (intro mult_le_mono) auto
  also have "\<dots> < (2 :: nat) ^ 64" by simp
  finally show ?thesis .
qed

lemma vlq_loop_exact:
  assumes "index \<le> 9 \<longrightarrow> unat acc < 2 ^ (7 * index)"
  shows "vlq_loop index acc st = (Inr v, st') \<longleftrightarrow>
     (\<exists>bs rest. ci_remaining st = bs @ rest \<and> vlq_groups index bs
        \<and> unat v = unat acc + vlq_value bs * 2 ^ (7 * index) \<and> st' = st\<lparr>ci_remaining := rest\<rparr>)"
  using assms
proof (induction "ci_remaining st" arbitrary: index acc st)
  case Nil
  then have nil: "ci_remaining st = []" by simp
  have "\<not> vlq_groups index []" by simp
  with nil show ?case
    by (subst vlq_loop.simps) (auto simp: read_byte_def thrift_bind_def)
next
  case (Cons b bs)
  have rem: "ci_remaining st = b # bs" using Cons.hyps(2) by simp
  define p where "p = unat b mod 128"
  define payload where "payload = (ucast (b AND 0x7f) :: u64)"
  have p: "unat payload = p" and small: "p < 128"
    using unat_and_7f [of b] by (simp_all add: payload_def p_def unsigned_ucast_eq take_bit_nat_eq_self)
  have one: "(1 < payload) = (1 < p)" by (simp add: word_less_nat_alt p)
  define acc' where "acc' = acc OR push_bit (index * 7) payload"
  define rest where "rest = st\<lparr>ci_remaining := bs\<rparr>"
  have step: "vlq_loop index acc st =
      (if 10 \<le> index then (Inl (InvalidData ''unterminated compact integer''), st)
       else if index = 9 \<and> 1 < p then (Inl (InvalidData ''compact integer exceeds u64''), rest)
       else if unat b < 128 then (Inr acc', rest) else vlq_loop (index + 1) acc' rest)"
    by (subst vlq_loop.simps)
       (simp add: read_byte_def thrift_bind_def rem payload_def [symmetric] one acc'_def and_80_eq_0 rest_def)
  show ?case
  proof (cases "10 \<le> index \<or> index = 9 \<and> 1 < p")
    case True
    then have err: "\<exists>e s. vlq_loop index acc st = (Inl e, s)" using step by auto
    have "\<not> vlq_groups index (b # cs)" for cs using True by (auto simp: p_def)
    with err show ?thesis by (auto simp: rem Cons_eq_append_conv)
  next
    case False
    then have i: "index \<le> 9" and p1: "index = 9 \<longrightarrow> p \<le> 1" by auto
    have acc: "unat acc' = unat acc + p * 2 ^ (7 * index)"
      unfolding acc'_def using Cons.prems i group_fits [OF i p1 small] p
      by (subst unat_or_push) (auto simp: mult.commute)
    show ?thesis
    proof (cases "unat b < 128")
      case True
      then have "p = unat b" by (simp add: p_def)
      have only: "b # bs = xs @ ys \<and> vlq_groups index xs \<longleftrightarrow> xs = [b] \<and> ys = bs" for xs ys
        using True i p1 \<open>p = unat b\<close> by (cases xs) auto
      have "(\<exists>xs ys. b # bs = xs @ ys \<and> vlq_groups index xs \<and> P xs ys) \<longleftrightarrow> P [b] bs" for P
        by (simp only: conj_assoc [symmetric] only) simp
      then show ?thesis
        using False True by (simp add: step rem acc p_def rest_def word_unat_eq_iff) auto
    next
      case big: False
      have "unat acc' < 2 ^ (7 * (index + 1))" if "index + 1 \<le> 9"
      proof -
        have "p * 2 ^ (7 * index) \<le> 127 * 2 ^ (7 * index)" using small by (intro mult_le_mono1) simp
        moreover have "unat acc < 2 ^ (7 * index)" using Cons.prems i by simp
        ultimately have "unat acc' < 128 * 2 ^ (7 * index)" unfolding acc by linarith
        then show ?thesis by (simp add: power_add)
      qed
      then have ih: "vlq_loop (index + 1) acc' rest = (Inr v, st') \<longleftrightarrow>
          (\<exists>xs ys. bs = xs @ ys \<and> vlq_groups (index + 1) xs
             \<and> unat v = unat acc' + vlq_value xs * 2 ^ (7 * (index + 1)) \<and> st' = rest\<lparr>ci_remaining := ys\<rparr>)"
        using Cons.hyps(1) [of rest "index + 1" acc'] by (simp add: rest_def)
      have split: "(\<exists>xs ys. b # bs = xs @ ys \<and> vlq_groups index xs \<and> P xs ys) \<longleftrightarrow>
          (\<exists>xs ys. bs = xs @ ys \<and> vlq_groups (index + 1) xs \<and> P (b # xs) ys)" for P
      proof -
        have "b # bs = xs @ ys \<and> vlq_groups index xs \<longleftrightarrow>
            (\<exists>zs. xs = b # zs \<and> bs = zs @ ys \<and> vlq_groups (index + 1) zs)" for xs ys
          using big i p1 by (cases xs) (auto simp: p_def)
        then show ?thesis by (simp only: conj_assoc [symmetric]) auto
      qed
      have sums: "unat acc' + vlq_value xs * 2 ^ (7 * (index + 1)) = unat acc + vlq_value (b # xs) * 2 ^ (7 * index)" for xs
        by (simp add: acc p_def power_add algebra_simps)
      have "vlq_loop index acc st = vlq_loop (index + 1) acc' rest" using step False big by auto
      then show ?thesis unfolding rem split by (simp only: ih sums) (simp add: rest_def)
    qed
  qed
qed

text \<open>
  A variable-length integer is read exactly when the input starts with at most ten groups of which the
  last alone has a clear top bit and the tenth adds one bit; the value never wraps around.
\<close>

lemma read_vlq_exact:
  "read_vlq st = (Inr v, st') \<longleftrightarrow>
     (\<exists>bs rest. ci_remaining st = bs @ rest \<and> vlq_groups 0 bs \<and> unat v = vlq_value bs
        \<and> st' = st\<lparr>ci_remaining := rest\<rparr>)"
  using vlq_loop_exact [of 0 0 st v st'] by (simp add: read_vlq_def)

subsection \<open>Round trips\<close>

lemma vlq_encode_groups:
  assumes "n < 2 ^ (64 - 7 * index)" and "index \<le> 9"
  shows "vlq_groups index (vlq_encode n) \<and> vlq_value (vlq_encode n) = n"
  using assms
proof (induction n arbitrary: index rule: vlq_encode.induct)
  case (1 n)
  show ?case
  proof (cases "n < 128")
    case True
    have "index = 9 \<longrightarrow> n \<le> 1" using 1(2) by auto
    then show ?thesis
      using True 1(3) by (subst vlq_encode.simps, subst vlq_encode.simps) (simp add: unat_of_nat_8)
  next
    case False
    have i: "index < 9"
    proof (rule ccontr)
      assume "\<not> index < 9"
      then have "index = 9" using 1(3) by simp
      then show False using 1(2) False by simp
    qed
    have "(2 :: nat) ^ (64 - 7 * index) = 2 ^ (64 - 7 * (index + 1)) * 128"
    proof -
      have "64 - 7 * index = 64 - 7 * (index + 1) + 7" using i by simp
      then show ?thesis by (simp only: power_add) simp
    qed
    then have "n div 128 < 2 ^ (64 - 7 * (index + 1))"
      using 1(2) by (simp add: less_mult_imp_div_less)
    then have "vlq_groups (index + 1) (vlq_encode (n div 128)) \<and> vlq_value (vlq_encode (n div 128)) = n div 128"
      using 1(1) [OF False, of "index + 1"] i by simp
    moreover have "unat (of_nat (n mod 128 + 128) :: u8) = n mod 128 + 128"
      by (rule unat_of_nat_8) simp
    ultimately show ?thesis
      using False i by (subst vlq_encode.simps, subst vlq_encode.simps) (simp add: mod_add_self2)
  qed
qed

lemma read_vlq_encode:
  assumes "n < 2 ^ 64" and "ci_remaining st = vlq_encode n @ rest"
  shows "read_vlq st = (Inr (of_nat n), st\<lparr>ci_remaining := rest\<rparr>)"
  unfolding read_vlq_exact using vlq_encode_groups [of n 0] assms unat_of_nat_64 [of n]
  by (intro exI [of _ "vlq_encode n"] exI [of _ rest]) simp

lemma unat_and_1: "(v AND 1 :: u64) = 0 \<longleftrightarrow> even (unat v)"
proof -
  have "unat (v AND 1) = unat v mod 2" by (simp only: and_one_eq unat_mod) simp
  then have "unat (v AND 1) = 0 \<longleftrightarrow> even (unat v)" by (simp only: even_iff_mod_2_eq_zero)
  then show ?thesis unfolding unat_eq_0 .
qed

lemma zigzag_value:
  fixes v :: u64
  assumes "unat v = zigzag x"
  shows "(if v AND 1 = 0 then uint (drop_bit 1 v) else - uint (drop_bit 1 v) - 1) = x"
proof -
  have half: "uint (drop_bit 1 v) = int (unat v div 2)"
    by (simp only: uint_nat drop_bit_eq_div power_one_right unat_div) simp
  show ?thesis
  proof (cases "0 \<le> x")
    case True
    then have "zigzag x = 2 * nat x" by (simp add: zigzag_def nat_mult_distrib)
    then show ?thesis unfolding unat_and_1 half assms using True by simp
  next
    case False
    then have "zigzag x = 2 * nat (- x - 1) + 1" by (simp add: zigzag_def)
    then show ?thesis unfolding unat_and_1 half assms using False by simp
  qed
qed

text \<open>
  Every 64-bit signed integer is read back from the variable-length encoding of its zigzag number, whatever
  follows it, and nothing else of the reader changes.
\<close>

lemma read_zigzag_roundtrip:
  assumes "- (2 ^ 63) \<le> x" and "x < 2 ^ 63" and rem: "ci_remaining st = vlq_encode (zigzag x) @ rest"
  shows "read_zigzag st = (Inr x, st\<lparr>ci_remaining := rest\<rparr>)"
proof -
  have small: "zigzag x < 2 ^ 64" using assms by (auto simp: zigzag_def)
  define v :: u64 where "v = of_nat (zigzag x)"
  have v: "unat v = zigzag x" using small by (simp add: v_def unat_of_nat_64)
  have "uint (drop_bit 1 v) < 2 ^ 63"
  proof -
    have "uint (drop_bit 1 v) = int (unat v div 2)"
      by (simp only: uint_nat drop_bit_eq_div power_one_right unat_div) simp
    then show ?thesis using unat_less_64 [of v] by simp
  qed
  then show ?thesis
    using read_vlq_encode [OF small rem] zigzag_value [OF v]
    by (simp add: read_zigzag_def thrift_bind_def Let_def v_def [symmetric] del: One_nat_def)
qed

lemma vlq_groups_value: "vlq_groups index bs \<Longrightarrow> index \<le> 9 \<and> vlq_value bs < 2 ^ (64 - 7 * index)"
proof (induction bs arbitrary: index)
  case (Cons b bs)
  then have i: "index \<le> 9" and one: "index = 9 \<longrightarrow> unat b mod 128 \<le> 1" by auto
  show ?case
  proof (cases "index = 9")
    case True
    have "\<not> vlq_groups 10 bs" by (cases bs) auto
    then have "bs = []" using Cons True by (auto split: if_splits)
    then show ?thesis using one True by simp
  next
    case False
    have step: "(2 :: nat) ^ (64 - 7 * index) = 2 ^ (64 - 7 * (index + 1)) * 128"
    proof -
      have "64 - 7 * index = 64 - 7 * (index + 1) + 7" using i False by simp
      then show ?thesis by (simp only: power_add) simp
    qed
    have "vlq_value bs < 2 ^ (64 - 7 * (index + 1))"
      using Cons.IH [of "index + 1"] Cons.prems by (auto split: if_splits)
    moreover have "unat b mod 128 < 128" by simp
    ultimately show ?thesis using i unfolding step by simp
  qed
qed simp

lemma vlq_groups_bound: "vlq_groups 0 bs \<Longrightarrow> vlq_value bs < 2 ^ 64"
  using vlq_groups_value [of 0 bs] by simp

lemma zigzag_inverse: "zigzag (if even n then int (n div 2) else - int (n div 2) - 1) = n"
  by (auto simp: zigzag_def nat_mult_distrib elim!: evenE oddE)

text \<open>
  A signed integer is read exactly when the input starts with at most ten groups, of which the last alone
  has a clear top bit and the tenth adds one bit, whose value is the zigzag number of the integer;
  nothing else of the reader changes and the value never wraps around.
\<close>

theorem read_zigzag_exact:
  "read_zigzag st = (Inr x, st') \<longleftrightarrow>
     (\<exists>bs rest. ci_remaining st = bs @ rest \<and> vlq_groups 0 bs \<and> vlq_value bs = zigzag x
        \<and> st' = st\<lparr>ci_remaining := rest\<rparr>)"
proof -
  have half: "uint (drop_bit 1 v) = int (unat v div 2)" for v :: u64
    by (simp only: uint_nat drop_bit_eq_div power_one_right unat_div) simp
  have small: "uint (drop_bit 1 v) < 2 ^ 63" for v :: u64
    using unat_less_64 [of v] by (simp only: half) simp
  have signed: "(if v AND 1 = 0 then uint (drop_bit 1 v) else - uint (drop_bit 1 v) - 1) = x \<longleftrightarrow> unat v = zigzag x" for v :: u64
  proof
    assume "(if v AND 1 = 0 then uint (drop_bit 1 v) else - uint (drop_bit 1 v) - 1) = x"
    then have "(if even (unat v) then int (unat v div 2) else - int (unat v div 2) - 1) = x"
      unfolding half unat_and_1 .
    then show "unat v = zigzag x" using zigzag_inverse [of "unat v"] by (simp only:)
  qed (rule zigzag_value)
  have "read_zigzag st = (Inr x, st') \<longleftrightarrow>
      (\<exists>v. read_vlq st = (Inr v, st') \<and> (if v AND 1 = 0 then uint (drop_bit 1 v) else - uint (drop_bit 1 v) - 1) = x)"
    using small by (simp add: read_zigzag_def thrift_bind_def Let_def del: One_nat_def split: prod.splits sum.splits) blast
  also have "\<dots> \<longleftrightarrow> (\<exists>v. read_vlq st = (Inr v, st') \<and> unat v = zigzag x)" by (simp only: signed)
  also have "\<dots> \<longleftrightarrow> (\<exists>bs rest. ci_remaining st = bs @ rest \<and> vlq_groups 0 bs \<and> vlq_value bs = zigzag x
      \<and> st' = st\<lparr>ci_remaining := rest\<rparr>)"
  proof
    assume "\<exists>bs rest. ci_remaining st = bs @ rest \<and> vlq_groups 0 bs \<and> vlq_value bs = zigzag x
      \<and> st' = st\<lparr>ci_remaining := rest\<rparr>"
    then obtain bs rest where bs: "ci_remaining st = bs @ rest" "vlq_groups 0 bs" "vlq_value bs = zigzag x"
      "st' = st\<lparr>ci_remaining := rest\<rparr>" by blast
    have "vlq_value bs < 2 ^ 64" using vlq_groups_bound bs(2) by simp
    then have "unat (of_nat (vlq_value bs) :: u64) = vlq_value bs" by (rule unat_of_nat_64)
    then have "read_vlq st = (Inr (of_nat (vlq_value bs)), st')"
      unfolding read_vlq_exact using bs by (intro exI [of _ bs] exI [of _ rest]) simp
    then show "\<exists>v. read_vlq st = (Inr v, st') \<and> unat v = zigzag x"
      using bs(3) \<open>unat _ = vlq_value bs\<close> by auto
  next
    assume "\<exists>v. read_vlq st = (Inr v, st') \<and> unat v = zigzag x"
    then obtain v where read: "read_vlq st = (Inr v, st')" and v: "unat v = zigzag x" by blast
    from read obtain bs rest where "ci_remaining st = bs @ rest" "vlq_groups 0 bs" "unat v = vlq_value bs"
      "st' = st\<lparr>ci_remaining := rest\<rparr>" unfolding read_vlq_exact by blast
    then show "\<exists>bs rest. ci_remaining st = bs @ rest \<and> vlq_groups 0 bs \<and> vlq_value bs = zigzag x
      \<and> st' = st\<lparr>ci_remaining := rest\<rparr>"
      using v by (intro exI [of _ bs] exI [of _ rest]) simp
  qed
  finally show ?thesis .
qed

section \<open>What a parser can make the reader do\<close>

text \<open>
  The parser of the metadata is third-party code; it sees the reader only through the calls of the
  protocol.  A call returns how many collection items it promised and how many payload bytes it handed
  out, and the changed reader.
\<close>

datatype protocol_call =
    StructBegin | StructEnd | FieldBegin | FieldEnd | ListBegin | ListEnd
  | GetBool | GetByte | GetI8 | GetI16 | GetI32 | GetI64 | GetDouble | GetBytes | GetString
  | MessageBegin | SetBegin | MapBegin

fun protocol_call_of :: "protocol_call \<Rightarrow> compact_input \<Rightarrow> nat \<times> nat \<times> compact_input" where
  "protocol_call_of StructBegin st = (0, 0, snd (read_struct_begin st))"
| "protocol_call_of StructEnd st = (0, 0, snd (read_struct_end st))"
| "protocol_call_of FieldBegin st = (0, 0, snd (read_field_begin st))"
| "protocol_call_of FieldEnd st = (0, 0, snd (read_field_end st))"
| "protocol_call_of ListBegin st =
     ((case fst (read_list_begin st) of Inr (_, count) \<Rightarrow> count | _ \<Rightarrow> 0), 0, snd (read_list_begin st))"
| "protocol_call_of ListEnd st = (0, 0, snd (read_list_end st))"
| "protocol_call_of GetBool st = (0, 0, snd (read_bool st))"
| "protocol_call_of GetByte st = (0, (case fst (read_byte st) of Inr _ \<Rightarrow> 1 | _ \<Rightarrow> 0), snd (read_byte st))"
| "protocol_call_of GetI8 st = (0, 0, snd (read_i8 st))"
| "protocol_call_of GetI16 st = (0, 0, snd (read_i16 st))"
| "protocol_call_of GetI32 st = (0, 0, snd (read_i32 st))"
| "protocol_call_of GetI64 st = (0, 0, snd (read_i64 st))"
| "protocol_call_of GetDouble st = (0, 0, snd (read_double st))"
| "protocol_call_of GetBytes st =
     (0, (case fst (read_bytes st) of Inr bytes \<Rightarrow> length bytes | _ \<Rightarrow> 0), snd (read_bytes st))"
| "protocol_call_of GetString st =
     (0, (case fst (read_string st) of Inr bytes \<Rightarrow> length bytes | _ \<Rightarrow> 0), snd (read_string st))"
| "protocol_call_of MessageBegin st = (0, 0, snd (read_message_begin st))"
| "protocol_call_of SetBegin st = (0, 0, snd (read_set_begin st))"
| "protocol_call_of MapBegin st = (0, 0, snd (read_map_begin st))"

inductive reader_reachable :: "u8 list \<Rightarrow> nat \<Rightarrow> nat \<Rightarrow> compact_input \<Rightarrow> bool" for body where
  new: "reader_reachable body 0 0 (compact_input_new body)"
| call: "reader_reachable body items bytes st \<Longrightarrow> protocol_call_of c st = (n, b, st') \<Longrightarrow>
    reader_reachable body (items + n) (bytes + b) st'"

text \<open>The invariant, with the number of bytes that are left.\<close>

definition reader_ok :: "compact_input \<Rightarrow> bool" where
  "reader_ok st \<longleftrightarrow> ci_nesting st \<le> MAX_THRIFT_NESTING \<and> length (ci_field_stack st) = MAX_THRIFT_NESTING
     \<and> ci_struct_depth st \<le> MAX_THRIFT_NESTING \<and> ci_collection_items st \<le> MAX_THRIFT_ITEMS
     \<and> (\<forall>i \<in> insert (ci_last_field_id st) (set (ci_field_stack st)). - (2 ^ 15) \<le> i \<and> i < 2 ^ 15)"

text \<open>The calls that only consume input.\<close>

definition consumes :: "compact_input \<Rightarrow> compact_input \<Rightarrow> bool" where
  "consumes st st' \<longleftrightarrow> (\<exists>k. st' = st\<lparr>ci_remaining := drop k (ci_remaining st)\<rparr>)"

lemma consumes_refl [simp]: "consumes st st"
  unfolding consumes_def by (intro exI [of _ 0]) simp

lemma consumes_trans: "consumes a b \<Longrightarrow> consumes b c \<Longrightarrow> consumes a c"
  unfolding consumes_def by (elim exE) (simp, blast)

lemma consumes_drop: "consumes st (st\<lparr>ci_remaining := drop k (ci_remaining st)\<rparr>)"
  unfolding consumes_def by blast

lemma consumes_byte: "consumes st (snd (read_byte st))"
  using consumes_drop [of st 1] by (auto simp: read_byte_def split: list.splits)

lemma consumes_bind:
  assumes "consumes st (snd r)" and "\<And>a st'. r = (Inr a, st') \<Longrightarrow> consumes st' (snd (f a st'))"
  shows "consumes st (snd (thrift_bind r f))"
  using assms by (cases r) (auto simp: thrift_bind_def split: sum.splits intro: consumes_trans)

lemma consumes_vlq_loop: "consumes st (snd (vlq_loop index acc st))"
proof (induction "10 - index" arbitrary: index acc st rule: less_induct)
  case less
  have "consumes st' (snd (vlq_loop (Suc index) acc' st'))" if "\<not> 10 \<le> index" for acc' st'
    using less that by simp
  then show ?case
    by (subst vlq_loop.simps) (auto simp: Let_def intro!: consumes_bind consumes_byte)
qed

lemma consumes_vlq: "consumes st (snd (read_vlq st))"
  by (simp add: read_vlq_def consumes_vlq_loop)

lemma consumes_zigzag: "consumes st (snd (read_zigzag st))"
  unfolding read_zigzag_def by (rule consumes_bind [OF consumes_vlq]) (simp add: Let_def)

lemma consumes_bytes: "consumes st (snd (read_bytes st))"
  unfolding read_bytes_def by (rule consumes_bind [OF consumes_vlq]) (simp add: Let_def consumes_drop)

lemma consumes_reads:
  "consumes st (snd (read_i8 st))" "consumes st (snd (read_i16 st))" "consumes st (snd (read_i32 st))"
  "consumes st (snd (read_i64 st))" "consumes st (snd (read_double st))" "consumes st (snd (read_string st))"
  unfolding read_i8_def read_i16_def read_i32_def read_i64_def read_double_def read_string_def
  by (auto intro!: consumes_bind consumes_byte consumes_zigzag consumes_bytes simp: consumes_drop)

lemma reader_ok_consumes: "consumes st st' \<Longrightarrow> reader_ok st' \<longleftrightarrow> reader_ok st"
  by (auto simp: consumes_def reader_ok_def)

lemma consumes_same:
  assumes "consumes st st'"
  shows "ci_collection_items st' = ci_collection_items st" and "ci_last_field_id st' = ci_last_field_id st"
    and "remaining_len st' \<le> remaining_len st"
  using assms by (auto simp: consumes_def remaining_len_def)

text \<open>Payload bytes come out of the input.\<close>

lemma read_bytes_length: "read_bytes st = (Inr bs, st') \<Longrightarrow> length bs + remaining_len st' \<le> remaining_len st"
proof -
  assume read: "read_bytes st = (Inr bs, st')"
  obtain r st1 where vlq: "read_vlq st = (r, st1)" by (cases "read_vlq st")
  have "remaining_len st1 \<le> remaining_len st" using consumes_same(3) [OF consumes_vlq, of st] vlq by simp
  then show ?thesis
    using read vlq by (auto simp: read_bytes_def thrift_bind_def Let_def remaining_len_def split: sum.splits if_splits)
qed

subsection \<open>The calls that change the rest of the reader\<close>

lemma i16_result:
  assumes "read_i16 st = (Inr v, st')"
  shows "- (2 ^ 15) \<le> v" and "v < 2 ^ 15"
  using assms by (auto simp: read_i16_def thrift_bind_def split: prod.splits sum.splits if_splits)

lemma read_struct_begin_ok:
  assumes "reader_ok st"
  shows "reader_ok (snd (read_struct_begin st))"
    and "ci_collection_items (snd (read_struct_begin st)) = ci_collection_items st"
    and "remaining_len (snd (read_struct_begin st)) = remaining_len st"
  using assms
  by (auto simp: read_struct_begin_def enter_def thrift_bind_def reader_ok_def remaining_len_def
      dest!: subsetD [OF set_update_subset_insert])

lemma read_struct_end_ok:
  assumes "reader_ok st"
  shows "reader_ok (snd (read_struct_end st))"
    and "ci_collection_items (snd (read_struct_end st)) = ci_collection_items st"
    and "remaining_len (snd (read_struct_end st)) = remaining_len st"
proof -
  have "ci_field_stack st ! (ci_struct_depth st - 1) \<in> set (ci_field_stack st)" if "ci_struct_depth st \<noteq> 0"
    using assms that by (intro nth_mem) (auto simp: reader_ok_def)
  then show "reader_ok (snd (read_struct_end st))"
    using assms by (auto simp: read_struct_end_def leave_def Let_def reader_ok_def)
qed (auto simp: read_struct_end_def leave_def Let_def remaining_len_def)

lemma read_list_end_ok:
  assumes "reader_ok st"
  shows "reader_ok (snd (read_list_end st))"
    and "ci_collection_items (snd (read_list_end st)) = ci_collection_items st"
    and "remaining_len (snd (read_list_end st)) = remaining_len st"
  using assms by (auto simp: read_list_end_def leave_def reader_ok_def remaining_len_def)

lemma read_bool_ok:
  assumes "reader_ok st"
  shows "reader_ok (snd (read_bool st))"
    and "ci_collection_items (snd (read_bool st)) = ci_collection_items st"
    and "remaining_len (snd (read_bool st)) \<le> remaining_len st"
  using assms
  by (auto simp: read_bool_def thrift_bind_def read_byte_def reader_ok_def remaining_len_def
      split: option.splits list.splits)

lemma next_field_id_ok:
  assumes "reader_ok st"
  shows "consumes st (snd (next_field_id delta st))"
    and "next_field_id delta st = (Inr v, st') \<Longrightarrow> - (2 ^ 15) \<le> v \<and> v < 2 ^ 15"
proof -
  show "consumes st (snd (next_field_id delta st))"
    by (auto simp: next_field_id_def consumes_reads)
  assume "next_field_id delta st = (Inr v, st')"
  then show "- (2 ^ 15) \<le> v \<and> v < 2 ^ 15"
    using assms i16_result [of st v st']
    by (auto simp: next_field_id_def reader_ok_def intro: add_increasing2 split: if_splits)
qed

lemma thrift_bind_cases:
  assumes "\<And>e st1. r = (Inl e, st1) \<Longrightarrow> P (Inl e, st1)" and "\<And>a st1. r = (Inr a, st1) \<Longrightarrow> P (f a st1)"
  shows "P (thrift_bind r f)"
  using assms by (cases r) (auto simp: thrift_bind_def split: sum.splits)

text \<open>What a call leaves of a reader: the invariant, the item count and no more input.\<close>

definition keeps :: "compact_input \<Rightarrow> nat \<Rightarrow> compact_input \<Rightarrow> bool" where
  "keeps st n st' \<longleftrightarrow> reader_ok st' \<and> ci_collection_items st' = ci_collection_items st + n
     \<and> remaining_len st' \<le> remaining_len st"

lemma reader_keeps_trans: "keeps st n st1 \<Longrightarrow> keeps st1 m st2 \<Longrightarrow> keeps st (n + m) st2"
  by (auto simp: keeps_def)

lemma keeps_consumes: "consumes st st' \<Longrightarrow> reader_ok st \<Longrightarrow> keeps st 0 st'"
  unfolding keeps_def using consumes_same reader_ok_consumes by simp

lemma keeps_field:
  assumes ok: "reader_ok st"
  shows "keeps st 0 (snd (read_field_begin st))"
proof -
  have pending: "keeps st 0 (st1\<lparr>ci_pending_bool := b\<rparr>)" if "keeps st 0 st1" for st1 b
    using that by (simp add: keeps_def reader_ok_def remaining_len_def)
  have tail: "keeps st 0 (snd (thrift_bind (next_field_id delta st1) (\<lambda>field_id st2.
      (Inr (field_type, Some field_id), st2\<lparr>ci_last_field_id := field_id\<rparr>))))" if st1: "keeps st 0 st1" for delta st1 field_type
  proof (rule thrift_bind_cases)
    fix e st2 assume "next_field_id delta st1 = (Inl e, st2)"
    then have "keeps st1 0 st2"
      using next_field_id_ok(1) [of st1 delta] st1 keeps_consumes by (auto simp: keeps_def)
    then show "keeps st 0 (snd (Inl e, st2))" using reader_keeps_trans [OF st1] by simp
  next
    fix v st2 assume next_id: "next_field_id delta st1 = (Inr v, st2)"
    have st1_ok: "reader_ok st1" using st1 by (simp add: keeps_def)
    have "keeps st1 0 st2" using next_field_id_ok(1) [OF st1_ok, of delta] next_id keeps_consumes [OF _ st1_ok] by simp
    moreover have "- (2 ^ 15) \<le> v \<and> v < 2 ^ 15" by (rule next_field_id_ok(2) [OF st1_ok next_id])
    ultimately have "keeps st1 0 (st2\<lparr>ci_last_field_id := v\<rparr>)"
      by (simp add: keeps_def reader_ok_def remaining_len_def)
    then show "keeps st 0 (snd (Inr (field_type, Some v), st2\<lparr>ci_last_field_id := v\<rparr>))"
      using reader_keeps_trans [OF st1] by simp
  qed
  have "consumes st (snd (read_byte st))" by (rule consumes_byte)
  then have byte: "keeps st 0 (snd (read_byte st))" by (rule keeps_consumes [OF _ ok])
  have refl: "keeps st 0 st" using ok by (simp add: keeps_def)
  show ?thesis
    unfolding read_field_begin_def
    using byte refl by (auto simp: Let_def pending tail split: sum.splits intro!: thrift_bind_cases [where P = "\<lambda>r. keeps st 0 (snd r)"])
qed

lemma keeps_admit:
  assumes ok: "reader_ok st"
  shows "keeps st (case fst (admit_items count st) of Inr _ \<Rightarrow> count | _ \<Rightarrow> 0) (snd (admit_items count st))"
    and "admit_items count st = (Inr u, st') \<Longrightarrow> count \<le> MAX_THRIFT_ITEMS"
  using ok by (auto simp: admit_items_def keeps_def reader_ok_def remaining_len_def usize_checked_add_def split: if_splits)

definition promises :: "compact_input \<Rightarrow> (thrift_type \<times> nat) thrift_result \<Rightarrow> bool" where
  "promises st r \<longleftrightarrow> keeps st (case fst r of Inr (_, count) \<Rightarrow> count | _ \<Rightarrow> 0) (snd r)"

lemma promises_error: "reader_ok st \<Longrightarrow> promises st (Inl e, st)"
  by (simp add: promises_def keeps_def)

lemma promises_bind:
  assumes "keeps st 0 (snd r)" and "\<And>a st1. reader_ok st1 \<Longrightarrow> promises st1 (f a st1)"
  shows "promises st (thrift_bind r f)"
proof (rule thrift_bind_cases)
  fix a st1 assume r: "r = (Inr a, st1)"
  then have st1: "keeps st 0 st1" using assms(1) by simp
  then have "promises st1 (f a st1)" using assms(2) by (simp add: keeps_def)
  then show "promises st (f a st1)" using reader_keeps_trans [OF st1] by (simp add: promises_def)
qed (use assms(1) in \<open>simp add: promises_def\<close>)

lemma admit_collection_promises:
  assumes ok: "reader_ok st"
  shows "promises st (admit_collection element_type raw st)"
  using keeps_admit(1) [OF ok, of "unat raw"] keeps_admit(2) [OF ok, of "unat raw"]
  by (cases "admit_items (unat raw) st")
     (auto simp: admit_collection_def promises_def thrift_bind_def MAX_THRIFT_ITEMS_def split: sum.splits)

lemma collection_of_header_promises:
  assumes ok: "reader_ok st"
  shows "promises st (collection_of_header header st)"
  unfolding collection_of_header_def Let_def
  using ok keeps_consumes [OF consumes_vlq ok] keeps_consumes [OF consumes_refl ok]
  by (auto intro!: promises_error promises_bind admit_collection_promises split: sum.splits)

lemma read_collection_promises:
  assumes ok: "reader_ok st"
  shows "promises st (read_collection st)"
proof -
  have "keeps st 0 (snd (enter st))"
    using ok by (auto simp: enter_def keeps_def reader_ok_def remaining_len_def split: if_splits)
  then show ?thesis
    unfolding read_collection_def
    by (rule promises_bind) (intro promises_bind keeps_consumes consumes_byte collection_of_header_promises)
qed

text \<open>Every call keeps the invariant, accounts for its items and pays for its payload.\<close>

lemma protocol_call_keeps:
  assumes ok: "reader_ok st" and call: "protocol_call_of c st = (n, b, st')"
  shows "keeps st n st'" and "b + remaining_len st' \<le> remaining_len st"
proof -
  have used: "keeps st 0 st'" if "consumes st st'" for st' using keeps_consumes [OF that ok] .
  have quiet: "keeps st 0 st'" if "reader_ok st'" "ci_collection_items st' = ci_collection_items st"
    "remaining_len st' \<le> remaining_len st" for st' using that by (simp add: keeps_def)
  have refl: "keeps st 0 st" using ok by (simp add: keeps_def)
  note kept_state = refl keeps_field [OF ok] consumes_reads [THEN used] used [OF consumes_byte] used [OF consumes_bytes]
    quiet [OF read_struct_begin_ok(1) [OF ok] read_struct_begin_ok(2) [OF ok] eq_imp_le [OF read_struct_begin_ok(3) [OF ok]]]
    quiet [OF read_struct_end_ok(1) [OF ok] read_struct_end_ok(2) [OF ok] eq_imp_le [OF read_struct_end_ok(3) [OF ok]]]
    quiet [OF read_list_end_ok(1) [OF ok] read_list_end_ok(2) [OF ok] eq_imp_le [OF read_list_end_ok(3) [OF ok]]]
    quiet [OF read_bool_ok(1) [OF ok] read_bool_ok(2) [OF ok] read_bool_ok(3) [OF ok]]
  show kept: "keeps st n st'"
    using call kept_state read_collection_promises [OF ok]
    by (cases c) (auto simp: promises_def read_list_begin_def read_field_end_def read_message_begin_def
        read_set_begin_def read_map_begin_def)
  show "b + remaining_len st' \<le> remaining_len st"
  proof -
    have string: "length bs + remaining_len st1 \<le> remaining_len st" if "read_string st = (Inr bs, st1)" for bs st1
    proof -
      obtain r st2 where read: "read_bytes st = (r, st2)" by (cases "read_bytes st")
      then show ?thesis using that read_bytes_length [of st bs st2]
        by (auto simp: read_string_def thrift_bind_def split: sum.splits if_splits)
    qed
    have byte: "1 + remaining_len st1 \<le> remaining_len st" if "read_byte st = (Inr x, st1)" for x st1
      using that by (auto simp: read_byte_def remaining_len_def split: list.splits)
    have "remaining_len st' \<le> remaining_len st" using kept by (simp add: keeps_def)
    then show ?thesis
      using call string byte read_bytes_length [of st]
      by (cases c) (auto split: sum.splits prod.splits simp: prod_eq_iff)
  qed
qed

lemma reader_ok_new: "reader_ok (compact_input_new body)"
  unfolding compact_input_new_def reader_ok_def by simp

text \<open>
  C36. Whatever sequence of protocol calls the metadata parser makes, the reader keeps its nesting and its field
  stack within 16 levels, promises no more than 65536 collection items in total and no more payload
  bytes than the input has, and keeps every field id in the range of an \<open>i16\<close>.
\<close>

theorem reader_bounded:
  assumes "reader_reachable body items bytes st"
  shows "reader_ok st \<and> items = ci_collection_items st \<and> items \<le> MAX_THRIFT_ITEMS
    \<and> bytes + remaining_len st \<le> length body"
proof -
  have "reader_ok st \<and> items = ci_collection_items st \<and> bytes + remaining_len st \<le> length body"
    using assms
  proof (induction rule: reader_reachable.induct)
    case new
    show ?case using reader_ok_new [of body] by (auto simp: compact_input_new_def remaining_len_def)
  next
    case (call items bytes st c n b st')
    then show ?case
      using protocol_call_keeps [of st c n b st'] by (auto simp: keeps_def)
  qed
  then show ?thesis by (auto simp: reader_ok_def)
qed

text \<open>A list of one string of two bytes.\<close>

lemma reader_bounded_witness:
  "\<exists>st. reader_reachable [0x18, 2, 104, 105, 0] 1 2 st \<and> remaining_len st = 1
     \<and> reader_ok st \<and> (1 :: nat) = ci_collection_items st"
proof -
  define st0 where "st0 = compact_input_new [0x18, 2, 104, 105, 0]"
  define st1 where "st1 = st0\<lparr>ci_remaining := [2, 104, 105, 0], ci_nesting := 1, ci_collection_items := 1\<rparr>"
  define st2 where "st2 = st1\<lparr>ci_remaining := [0]\<rparr>"
  have "protocol_call_of ListBegin st0 = (1, 0, st1)"
    by (simp add: st0_def st1_def compact_input_new_def read_list_begin_def read_collection_def enter_def
        thrift_bind_def read_byte_def collection_of_header_def compact_type_def admit_collection_def admit_items_def
        usize_checked_add_def MAX_THRIFT_NESTING_def MAX_THRIFT_ITEMS_def)
  then have one: "reader_reachable [0x18, 2, 104, 105, 0] 1 0 st1"
    using reader_reachable.call [OF reader_reachable.new, where c = ListBegin and n = 1 and b = 0 and st' = st1] by (simp add: st0_def)
  have "protocol_call_of GetString st1 = (0, 2, st2)"
    by (simp add: st0_def st1_def st2_def compact_input_new_def read_string_def read_bytes_def read_vlq_def
        vlq_loop.simps thrift_bind_def read_byte_def)
  then have two: "reader_reachable [0x18, 2, 104, 105, 0] 1 2 st2"
    using reader_reachable.call [OF one, where c = GetString and n = 0 and b = 2 and st' = st2] by (simp add: numeral_2_eq_2)
  show ?thesis
    using reader_bounded [OF two] two by (intro exI [of _ st2]) (simp add: st2_def st1_def st0_def remaining_len_def)
qed

end
