(* ===== verification/Parquet_Preflight.thy ===== *)
theory Parquet_Preflight
  imports Section_Contract Thrift_Input "HOL-Library.Multiset"
begin

text \<open>
  Admission of a Parquet body before it is decoded (\<open>crates/kronika-registry/src/parquet_preflight.rs\<close>): the
  footer and every page header are parsed from the bounded body, and their claims about rows, pages,
  values and decoded bytes must agree.  The structures of the format and their parsers are generated
  code of a third-party crate; the parsers are parameters that work on the reader of Thrift_Input.
\<close>

section \<open>The structures of the footer and of a page\<close>

text \<open>The fields that the code reads.  A field that is only tested for presence holds a unit.\<close>

record column_meta =
  cm_num_values :: int
  cm_total_uncompressed_size :: int
  cm_total_compressed_size :: int
  cm_data_page_offset :: int
  cm_dictionary_page_offset :: "int option"

record column_chunk =
  cc_file_path :: "unit option"
  cc_meta_data :: "column_meta option"
  cc_crypto_metadata :: "unit option"
  cc_encrypted_column_metadata :: "unit option"

record row_group =
  gr_num_rows :: int
  gr_columns :: "column_chunk list"

record file_metadata =
  fm_schema :: "unit list"
  fm_num_rows :: int
  fm_row_groups :: "row_group list"
  fm_encryption_algorithm :: "unit option"
  fm_footer_signing_key_metadata :: "unit option"

record data_page_header =
  dp_num_values :: int
  dp_encoding :: int
  dp_definition_level_encoding :: int
  dp_repetition_level_encoding :: int

record data_page_header_v2 =
  d2_num_values :: int
  d2_num_nulls :: int
  d2_num_rows :: int
  d2_encoding :: int
  d2_definition_levels_byte_length :: int
  d2_repetition_levels_byte_length :: int

record dictionary_page_header =
  di_num_values :: int
  di_encoding :: int

record page_header =
  ph_type :: int
  ph_uncompressed_page_size :: int
  ph_compressed_page_size :: int
  ph_data :: "data_page_header option"
  ph_index :: "unit option"
  ph_dictionary :: "dictionary_page_header option"
  ph_data_v2 :: "data_page_header_v2 option"

text \<open>The constants of the format.\<close>

definition PARQUET_MAGIC :: "u8 list" where "PARQUET_MAGIC = [0x50, 0x41, 0x52, 0x31]"

definition DATA_PAGE :: int where "DATA_PAGE = 0"
definition INDEX_PAGE :: int where "INDEX_PAGE = 1"
definition DICTIONARY_PAGE :: int where "DICTIONARY_PAGE = 2"
definition DATA_PAGE_V2 :: int where "DATA_PAGE_V2 = 3"

definition ENC_PLAIN :: int where "ENC_PLAIN = 0"
definition ENC_PLAIN_DICTIONARY :: int where "ENC_PLAIN_DICTIONARY = 2"
definition ENC_RLE :: int where "ENC_RLE = 3"
definition ENC_BIT_PACKED :: int where "ENC_BIT_PACKED = 4"
definition ENC_RLE_DICTIONARY :: int where "ENC_RLE_DICTIONARY = 8"

lemmas page_types = DATA_PAGE_def INDEX_PAGE_def DICTIONARY_PAGE_def DATA_PAGE_V2_def

record parquet_parsers =
  read_file_metadata :: "compact_input \<Rightarrow> file_metadata thrift_result"
  read_page_header :: "compact_input \<Rightarrow> page_header thrift_result"

record decode_profile =
  pp_rows :: nat
  pp_decoded_bytes :: nat

section \<open>Checked numbers\<close>

definition checked_rows :: "int \<Rightarrow> codec_error + nat" where
  "checked_rows raw = (if 0 \<le> raw then Inr (nat raw) else Inl (InvalidRowCount raw))"

definition checked_nonnegative :: "int \<Rightarrow> codec_error + nat" where
  "checked_nonnegative raw = (if 0 \<le> raw then Inr (nat raw) else Inl InvalidPageLayout)"

definition page_value_limit :: nat where
  "page_value_limit = MAX_SECTION_ROWS + MAX_LIST_I32_VALUES_PER_SECTION"

definition add_page_values :: "nat \<Rightarrow> int \<Rightarrow> codec_error + nat" where
  "add_page_values tally raw =
     (case checked_nonnegative raw of Inl e \<Rightarrow> Inl e | Inr values \<Rightarrow>
      case usize_checked_add tally values of None \<Rightarrow> Inl InvalidPageLayout | Some counted \<Rightarrow>
      if counted \<le> page_value_limit then Inr counted else Inl InvalidPageLayout)"

definition add_work :: "nat \<Rightarrow> nat \<Rightarrow> nat \<Rightarrow> codec_error + nat" where
  "add_work tally add max_bytes =
     (case usize_checked_add tally add of
        None \<Rightarrow> Inl (DecodedSectionTooLarge (usize_limit - 1) max_bytes)
      | Some work \<Rightarrow> if max_bytes < work then Inl (DecodedSectionTooLarge work max_bytes) else Inr work)"

section \<open>Page headers\<close>

definition validate_data_encoding :: "int \<Rightarrow> bool \<Rightarrow> codec_error + unit" where
  "validate_data_encoding encoding allow_dictionary =
     (if encoding = ENC_PLAIN \<or> encoding = ENC_RLE
         \<or> allow_dictionary \<and> (encoding = ENC_PLAIN_DICTIONARY \<or> encoding = ENC_RLE_DICTIONARY)
      then Inr () else Inl (UnsupportedPageEncoding encoding))"

definition validate_level_encoding :: "int \<Rightarrow> codec_error + unit" where
  "validate_level_encoding encoding =
     (if encoding = ENC_RLE \<or> encoding = ENC_BIT_PACKED then Inr () else Inl (UnsupportedPageEncoding encoding))"

definition validate_data_page :: "page_header \<Rightarrow> nat \<Rightarrow> bool \<Rightarrow> codec_error + nat" where
  "validate_data_page header data_values allow_dictionary =
     (case ph_data header of None \<Rightarrow> Inl InvalidPageLayout | Some page \<Rightarrow>
      if \<not> (ph_data_v2 header = None \<and> ph_dictionary header = None \<and> ph_index header = None)
      then Inl InvalidPageLayout
      else case validate_data_encoding (dp_encoding page) allow_dictionary of Inl e \<Rightarrow> Inl e | Inr _ \<Rightarrow>
      case validate_level_encoding (dp_definition_level_encoding page) of Inl e \<Rightarrow> Inl e | Inr _ \<Rightarrow>
      case validate_level_encoding (dp_repetition_level_encoding page) of Inl e \<Rightarrow> Inl e | Inr _ \<Rightarrow>
      add_page_values data_values (dp_num_values page))"

definition validate_data_page_v2 :: "page_header \<Rightarrow> nat \<Rightarrow> nat \<Rightarrow> nat \<Rightarrow> bool \<Rightarrow> codec_error + nat" where
  "validate_data_page_v2 header uncompressed compressed data_values allow_dictionary =
     (case ph_data_v2 header of None \<Rightarrow> Inl InvalidPageLayout | Some page \<Rightarrow>
      if \<not> (ph_data header = None \<and> ph_dictionary header = None \<and> ph_index header = None)
      then Inl InvalidPageLayout
      else case validate_data_encoding (d2_encoding page) allow_dictionary of Inl e \<Rightarrow> Inl e | Inr _ \<Rightarrow>
      case checked_nonnegative (d2_num_values page) of Inl e \<Rightarrow> Inl e | Inr values \<Rightarrow>
      case checked_nonnegative (d2_num_nulls page) of Inl e \<Rightarrow> Inl e | Inr nulls \<Rightarrow>
      case checked_nonnegative (d2_num_rows page) of Inl e \<Rightarrow> Inl e | Inr rows \<Rightarrow>
      case checked_nonnegative (d2_definition_levels_byte_length page) of Inl e \<Rightarrow> Inl e | Inr definition_len \<Rightarrow>
      case checked_nonnegative (d2_repetition_levels_byte_length page) of Inl e \<Rightarrow> Inl e | Inr repetition_len \<Rightarrow>
      if values < nulls \<or> MAX_SECTION_ROWS < rows then Inl InvalidPageLayout
      else case usize_checked_add definition_len repetition_len of None \<Rightarrow> Inl InvalidPageLayout | Some levels \<Rightarrow>
      if levels \<le> uncompressed \<and> levels \<le> compressed then add_page_values data_values (d2_num_values page)
      else Inl InvalidPageLayout)"

definition validate_dictionary_page :: "page_header \<Rightarrow> bool \<Rightarrow> codec_error + unit" where
  "validate_dictionary_page header saw_dictionary =
     (case ph_dictionary header of None \<Rightarrow> Inl InvalidPageLayout | Some page \<Rightarrow>
      if \<not> (ph_data header = None \<and> ph_data_v2 header = None \<and> ph_index header = None)
      then Inl InvalidPageLayout
      else if di_encoding page \<noteq> ENC_PLAIN \<and> di_encoding page \<noteq> ENC_PLAIN_DICTIONARY
      then Inl (UnsupportedPageEncoding (di_encoding page))
      else case checked_nonnegative (di_num_values page) of Inl e \<Rightarrow> Inl e | Inr values \<Rightarrow>
      if saw_dictionary \<or> page_value_limit < values then Inl InvalidPageLayout else Inr ())"

text \<open>The value counted and the dictionary flag after the page.\<close>

definition validate_page_header ::
  "page_header \<Rightarrow> nat \<Rightarrow> nat \<Rightarrow> nat \<Rightarrow> bool \<Rightarrow> bool \<Rightarrow> codec_error + (nat \<times> bool)" where
  "validate_page_header header uncompressed compressed data_values saw_dictionary allow_dictionary =
     (if ph_type header = DATA_PAGE then
        map_sum id (\<lambda>values. (values, saw_dictionary)) (validate_data_page header data_values allow_dictionary)
      else if ph_type header = DATA_PAGE_V2 then
        map_sum id (\<lambda>values. (values, saw_dictionary))
          (validate_data_page_v2 header uncompressed compressed data_values allow_dictionary)
      else if ph_type header = DICTIONARY_PAGE then
        map_sum id (\<lambda>_. (data_values, True)) (validate_dictionary_page header saw_dictionary)
      else if ph_type header = INDEX_PAGE then
        (if ph_index header = None \<or> ph_data header \<noteq> None \<or> ph_data_v2 header \<noteq> None \<or> ph_dictionary header \<noteq> None
         then Inl InvalidPageLayout else Inr (data_values, saw_dictionary))
      else Inl InvalidPageLayout)"

section \<open>The footer\<close>

definition parse_footer :: "parquet_parsers \<Rightarrow> u8 list \<Rightarrow> codec_error + (file_metadata \<times> nat)" where
  "parse_footer parsers body =
     (if length body < 12 \<or> take 4 body \<noteq> PARQUET_MAGIC \<or> drop (length body - 4) body \<noteq> PARQUET_MAGIC
      then Inl InvalidPageLayout
      else let footer_len = unat (u32_from_le (subslice (length body - 8) (length body - 4) body));
               metadata_end = length body - 8 in
        if metadata_end < footer_len \<or> metadata_end - footer_len < length PARQUET_MAGIC then Inl InvalidPageLayout
        else let metadata_start = metadata_end - footer_len in
          case read_file_metadata parsers (compact_input_new (subslice metadata_start metadata_end body)) of
            (Inl _, _) \<Rightarrow> Inl InvalidPageLayout
          | (Inr metadata, protocol) \<Rightarrow>
              if remaining_len protocol \<noteq> 0 \<or> ci_nesting protocol \<noteq> 0 then Inl InvalidPageLayout
              else Inr (metadata, metadata_start))"

text \<open>The byte range of a column chunk with its claims.\<close>

record chunk_range =
  cr_start :: nat
  cr_end :: nat
  cr_data_start :: nat
  cr_declared :: nat
  cr_values :: nat
  cr_has_dictionary :: bool

definition chunk_start :: "bool \<Rightarrow> column_meta \<Rightarrow> nat \<Rightarrow> codec_error + nat" where
  "chunk_start allow_dictionary column data_start =
     (case cm_dictionary_page_offset column of
        None \<Rightarrow> Inr data_start
      | Some raw \<Rightarrow>
          if \<not> allow_dictionary then Inl DictionaryEncodingUnsupported
          else case checked_nonnegative raw of Inl e \<Rightarrow> Inl e | Inr dictionary_start \<Rightarrow>
            if data_start < dictionary_start then Inl InvalidPageLayout else Inr dictionary_start)"

text \<open>The range of one chunk; a chunk without bytes has none and may claim nothing.\<close>

definition chunk_range_of ::
  "bool \<Rightarrow> nat \<Rightarrow> column_meta \<Rightarrow> nat \<Rightarrow> codec_error + chunk_range option" where
  "chunk_range_of allow_dictionary metadata_start column declared =
     (case checked_nonnegative (cm_num_values column) of Inl e \<Rightarrow> Inl e | Inr values \<Rightarrow>
      if page_value_limit < values then Inl InvalidPageLayout
      else case checked_nonnegative (cm_total_compressed_size column) of Inl e \<Rightarrow> Inl e | Inr compressed \<Rightarrow>
      case checked_nonnegative (cm_data_page_offset column) of Inl e \<Rightarrow> Inl e | Inr data_start \<Rightarrow>
      case chunk_start allow_dictionary column data_start of Inl e \<Rightarrow> Inl e | Inr start \<Rightarrow>
      let has_dictionary = cm_dictionary_page_offset column \<noteq> None in
      if compressed = 0 then
        (if declared \<noteq> 0 \<or> values \<noteq> 0 \<or> has_dictionary \<or> start \<noteq> data_start
            \<or> start < length PARQUET_MAGIC \<or> metadata_start < start
         then Inl InvalidPageLayout else Inr None)
      else case usize_checked_add start compressed of None \<Rightarrow> Inl InvalidPageLayout | Some till \<Rightarrow>
        if length PARQUET_MAGIC \<le> start \<and> start \<le> data_start \<and> data_start \<le> till \<and> till \<le> metadata_start
        then Inr (Some \<lparr>cr_start = start, cr_end = till, cr_data_start = data_start, cr_declared = declared,
                        cr_values = values, cr_has_dictionary = has_dictionary\<rparr>)
        else Inl InvalidPageLayout)"

fun footer_chunks ::
  "bool \<Rightarrow> nat \<Rightarrow> nat \<Rightarrow> column_chunk list \<Rightarrow> nat \<Rightarrow> chunk_range list \<Rightarrow> codec_error + (nat \<times> chunk_range list)" where
  "footer_chunks allow_dictionary metadata_start max_bytes [] work ranges = Inr (work, ranges)"
| "footer_chunks allow_dictionary metadata_start max_bytes (chunk # chunks) work ranges =
     (if cc_file_path chunk \<noteq> None \<or> cc_crypto_metadata chunk \<noteq> None \<or> cc_encrypted_column_metadata chunk \<noteq> None
      then Inl InvalidPageLayout
      else case cc_meta_data chunk of None \<Rightarrow> Inl InvalidPageLayout | Some column \<Rightarrow>
      case checked_nonnegative (cm_total_uncompressed_size column) of Inl e \<Rightarrow> Inl e | Inr declared \<Rightarrow>
      case add_work work declared max_bytes of Inl e \<Rightarrow> Inl e | Inr work \<Rightarrow>
      case chunk_range_of allow_dictionary metadata_start column declared of Inl e \<Rightarrow> Inl e | Inr rng \<Rightarrow>
      footer_chunks allow_dictionary metadata_start max_bytes chunks work
        (case rng of None \<Rightarrow> ranges | Some r \<Rightarrow> ranges @ [r]))"

fun footer_groups ::
  "bool \<Rightarrow> nat \<Rightarrow> nat \<Rightarrow> row_group list \<Rightarrow> nat \<Rightarrow> nat \<Rightarrow> chunk_range list
   \<Rightarrow> codec_error + (nat \<times> nat \<times> chunk_range list)" where
  "footer_groups allow_dictionary metadata_start max_bytes [] rows work ranges = Inr (rows, work, ranges)"
| "footer_groups allow_dictionary metadata_start max_bytes (grp # groups) rows work ranges =
     (case checked_rows (gr_num_rows grp) of Inl e \<Rightarrow> Inl e | Inr group_rows \<Rightarrow>
      if MAX_SECTION_ROWS < group_rows then Inl (TooManyRows group_rows MAX_SECTION_ROWS)
      else case usize_checked_add rows group_rows of None \<Rightarrow> Inl InvalidPageLayout | Some rows \<Rightarrow>
      if gr_columns grp = [] then Inl InvalidPageLayout
      else case footer_chunks allow_dictionary metadata_start max_bytes (gr_columns grp) work ranges of
        Inl e \<Rightarrow> Inl e
      | Inr (work, ranges) \<Rightarrow> footer_groups allow_dictionary metadata_start max_bytes groups rows work ranges)"

section \<open>The pages of a chunk\<close>

record page_walk =
  pw_column_work :: nat
  pw_data_values :: nat
  pw_saw_dictionary :: bool
  pw_saw_data :: bool

text \<open>Which pages may stand where: at most one dictionary page, first, and the data pages behind it.\<close>

definition page_position :: "chunk_range \<Rightarrow> nat \<Rightarrow> page_header \<Rightarrow> page_walk \<Rightarrow> codec_error + bool" where
  "page_position rng offset header w =
     (if ph_type header = DICTIONARY_PAGE then
        (if cr_has_dictionary rng \<and> \<not> pw_saw_dictionary w \<and> offset = cr_start rng
         then Inr (pw_saw_data w) else Inl InvalidPageLayout)
      else if ph_type header = DATA_PAGE \<or> ph_type header = DATA_PAGE_V2 then
        (if \<not> pw_saw_data w \<and> offset \<noteq> cr_data_start rng then Inl InvalidPageLayout else Inr True)
      else if offset < cr_data_start rng then Inl InvalidPageLayout
      else Inr (pw_saw_data w))"

text \<open>The header of the page at an offset and its length.\<close>

definition page_at :: "parquet_parsers \<Rightarrow> u8 list \<Rightarrow> nat \<Rightarrow> nat \<Rightarrow> codec_error + (page_header \<times> nat)" where
  "page_at parsers body offset till =
     (let protocol = compact_input_new (subslice offset till body); before = remaining_len protocol in
      case read_page_header parsers protocol of
        (Inl _, _) \<Rightarrow> Inl InvalidPageLayout
      | (Inr header, protocol) \<Rightarrow>
          if before < remaining_len protocol \<or> before - remaining_len protocol = 0 \<or> ci_nesting protocol \<noteq> 0
          then Inl InvalidPageLayout else Inr (header, before - remaining_len protocol))"

text \<open>One page: the changed counters, the total work and the offset behind the page.\<close>

definition page_step ::
  "bool \<Rightarrow> nat \<Rightarrow> chunk_range \<Rightarrow> nat \<Rightarrow> page_header \<Rightarrow> nat \<Rightarrow> nat \<Rightarrow> page_walk
   \<Rightarrow> codec_error + (nat \<times> nat \<times> page_walk)" where
  "page_step allow_dictionary max_bytes rng offset header header_len page_work w =
     (case checked_nonnegative (ph_compressed_page_size header) of Inl e \<Rightarrow> Inl e | Inr compressed \<Rightarrow>
      case checked_nonnegative (ph_uncompressed_page_size header) of Inl e \<Rightarrow> Inl e | Inr uncompressed \<Rightarrow>
      case page_position rng offset header w of Inl e \<Rightarrow> Inl e | Inr saw_data \<Rightarrow>
      case usize_checked_add header_len uncompressed of
        None \<Rightarrow> Inl (DecodedSectionTooLarge (usize_limit - 1) max_bytes) | Some decoded \<Rightarrow>
      case usize_checked_add (pw_column_work w) decoded of
        None \<Rightarrow> Inl (DecodedSectionTooLarge (usize_limit - 1) max_bytes) | Some column_work \<Rightarrow>
      case add_work page_work decoded max_bytes of Inl e \<Rightarrow> Inl e | Inr page_work \<Rightarrow>
      case validate_page_header header uncompressed compressed (pw_data_values w) (pw_saw_dictionary w)
             allow_dictionary of Inl e \<Rightarrow> Inl e | Inr (data_values, saw_dictionary) \<Rightarrow>
      case usize_checked_add offset header_len of None \<Rightarrow> Inl InvalidPageLayout | Some payload_at \<Rightarrow>
      case usize_checked_add payload_at compressed of None \<Rightarrow> Inl InvalidPageLayout | Some after \<Rightarrow>
      if cr_end rng < after then Inl InvalidPageLayout
      else Inr (after, page_work, \<lparr>pw_column_work = column_work, pw_data_values = data_values,
                                  pw_saw_dictionary = saw_dictionary, pw_saw_data = saw_data\<rparr>))"

lemma page_at_length: "page_at parsers body offset till = Inr (header, n) \<Longrightarrow> 0 < n"
  by (auto simp: page_at_def Let_def split: prod.splits sum.splits if_splits)

lemma page_step_after:
  "page_step allow_dictionary max_bytes rng offset header n page_work w = Inr (after, page_work', w') \<Longrightarrow>
     offset + n \<le> after \<and> after \<le> cr_end rng"
  by (auto simp: page_step_def usize_checked_add_def split: sum.splits option.splits prod.splits if_splits)

function walk_pages ::
  "parquet_parsers \<Rightarrow> bool \<Rightarrow> nat \<Rightarrow> u8 list \<Rightarrow> chunk_range \<Rightarrow> nat \<Rightarrow> nat \<Rightarrow> nat \<Rightarrow> page_walk
   \<Rightarrow> codec_error + (nat \<times> nat \<times> nat \<times> page_walk)" where
  "walk_pages parsers allow_dictionary max_bytes body rng offset page_count page_work w =
     (if cr_end rng \<le> offset then Inr (offset, page_count, page_work, w)
      else case usize_checked_add page_count 1 of None \<Rightarrow> Inl InvalidPageLayout | Some page_count \<Rightarrow>
      if MAX_SECTION_ROWS < page_count then Inl InvalidPageLayout
      else case page_at parsers body offset (cr_end rng) of Inl e \<Rightarrow> Inl e | Inr (header, header_len) \<Rightarrow>
      case page_step allow_dictionary max_bytes rng offset header header_len page_work w of
        Inl e \<Rightarrow> Inl e
      | Inr (after, page_work, w) \<Rightarrow>
          walk_pages parsers allow_dictionary max_bytes body rng after page_count page_work w)"
  by pat_completeness auto
termination
  by (relation "measure (\<lambda>(parsers, allow, max_bytes, body, rng, offset, _). cr_end rng - offset)")
     (auto dest!: page_at_length page_step_after)

declare walk_pages.simps [simp del]

fun walk_chunks ::
  "parquet_parsers \<Rightarrow> bool \<Rightarrow> nat \<Rightarrow> u8 list \<Rightarrow> chunk_range list \<Rightarrow> nat \<Rightarrow> nat \<Rightarrow> codec_error + nat" where
  "walk_chunks parsers allow_dictionary max_bytes body [] page_count page_work = Inr page_work"
| "walk_chunks parsers allow_dictionary max_bytes body (rng # ranges) page_count page_work =
     (case walk_pages parsers allow_dictionary max_bytes body rng (cr_start rng) page_count page_work
             \<lparr>pw_column_work = 0, pw_data_values = 0, pw_saw_dictionary = False, pw_saw_data = False\<rparr> of
        Inl e \<Rightarrow> Inl e
      | Inr (offset, page_count, page_work, w) \<Rightarrow>
          if offset \<noteq> cr_end rng \<or> pw_column_work w \<noteq> cr_declared rng \<or> pw_data_values w \<noteq> cr_values rng
             \<or> pw_saw_dictionary w \<noteq> cr_has_dictionary rng \<or> cr_values rng \<noteq> 0 \<and> \<not> pw_saw_data w
          then Inl InvalidPageLayout
          else walk_chunks parsers allow_dictionary max_bytes body ranges page_count page_work)"

text \<open>Neighbouring ranges in the order of their starts.\<close>

fun ranges_overlap :: "chunk_range list \<Rightarrow> bool" where
  "ranges_overlap (r # s # rest) = (cr_start s < cr_end r \<or> ranges_overlap (s # rest))"
| "ranges_overlap _ = False"

section \<open>Admission of a body\<close>

definition validate_file_metadata ::
  "parquet_parsers \<Rightarrow> u8 list \<Rightarrow> file_metadata \<Rightarrow> nat \<Rightarrow> nat \<Rightarrow> bool \<Rightarrow> codec_error + decode_profile" where
  "validate_file_metadata parsers body metadata metadata_start max_decoded_bytes allow_dictionary =
     (case checked_rows (fm_num_rows metadata) of Inl e \<Rightarrow> Inl e | Inr rows \<Rightarrow>
      if MAX_SECTION_ROWS < rows then Inl (TooManyRows rows MAX_SECTION_ROWS)
      else if MAX_ROW_GROUPS < length (fm_row_groups metadata)
      then Inl (TooManyRowGroups (length (fm_row_groups metadata)) MAX_ROW_GROUPS)
      else if fm_schema metadata = [] \<or> fm_encryption_algorithm metadata \<noteq> None
              \<or> fm_footer_signing_key_metadata metadata \<noteq> None then Inl InvalidPageLayout
      else case footer_groups allow_dictionary metadata_start max_decoded_bytes (fm_row_groups metadata) 0 0 [] of
        Inl e \<Rightarrow> Inl e
      | Inr (grouped_rows, footer_work, ranges) \<Rightarrow>
          if grouped_rows \<noteq> rows then Inl InvalidPageLayout
          else let ranges = sort_key cr_start ranges in
            if ranges_overlap ranges then Inl InvalidPageLayout
            else case walk_chunks parsers allow_dictionary max_decoded_bytes body ranges 0 0 of
              Inl e \<Rightarrow> Inl e
            | Inr page_work \<Rightarrow>
                if page_work \<noteq> footer_work then Inl InvalidPageLayout
                else Inr \<lparr>pp_rows = rows, pp_decoded_bytes = page_work\<rparr>)"

definition validate_parquet_decode_profile ::
  "parquet_parsers \<Rightarrow> u8 list \<Rightarrow> nat \<Rightarrow> bool \<Rightarrow> codec_error + decode_profile" where
  "validate_parquet_decode_profile parsers body max_decoded_bytes allow_dictionary =
     (if MAX_SECTION_BYTES < length body then Inl (SectionTooLarge (length body) MAX_SECTION_BYTES)
      else if MAX_DECODED_SECTION_BYTES < max_decoded_bytes
      then Inl (DecodedSectionTooLarge max_decoded_bytes MAX_DECODED_SECTION_BYTES)
      else case parse_footer parsers body of Inl e \<Rightarrow> Inl e | Inr (metadata, metadata_start) \<Rightarrow>
        validate_file_metadata parsers body metadata metadata_start max_decoded_bytes allow_dictionary)"

definition parquet_decode_profile :: "parquet_parsers \<Rightarrow> u8 list \<Rightarrow> nat \<Rightarrow> codec_error + decode_profile" where
  "parquet_decode_profile parsers body max_decoded_bytes =
     validate_parquet_decode_profile parsers body max_decoded_bytes True"

definition validate_parquet_decode_work :: "parquet_parsers \<Rightarrow> u8 list \<Rightarrow> nat \<Rightarrow> codec_error + unit" where
  "validate_parquet_decode_work parsers body max_decoded_bytes =
     map_sum id (\<lambda>_. ()) (parquet_decode_profile parsers body max_decoded_bytes)"

definition plain_parquet_decode_profile :: "parquet_parsers \<Rightarrow> u8 list \<Rightarrow> nat \<Rightarrow> codec_error + decode_profile" where
  "plain_parquet_decode_profile parsers body max_decoded_bytes =
     validate_parquet_decode_profile parsers body max_decoded_bytes False"

definition validate_plain_parquet_decode_work :: "parquet_parsers \<Rightarrow> u8 list \<Rightarrow> nat \<Rightarrow> codec_error + unit" where
  "validate_plain_parquet_decode_work parsers body max_decoded_bytes =
     map_sum id (\<lambda>_. ()) (plain_parquet_decode_profile parsers body max_decoded_bytes)"

section \<open>What an admitted body looks like\<close>

definition page_bytes :: "page_header \<times> nat \<Rightarrow> nat" where
  "page_bytes p = snd p + nat (ph_uncompressed_page_size (fst p))"

definition page_values :: "page_header \<times> nat \<Rightarrow> nat" where
  "page_values p =
     (if ph_type (fst p) = DATA_PAGE then nat (dp_num_values (the (ph_data (fst p))))
      else if ph_type (fst p) = DATA_PAGE_V2 then nat (d2_num_values (the (ph_data_v2 (fst p)))) else 0)"

text \<open>Pages, with the lengths of their headers, lie side by side between two offsets.\<close>

fun pages_tile :: "parquet_parsers \<Rightarrow> u8 list \<Rightarrow> nat \<Rightarrow> nat \<Rightarrow> (page_header \<times> nat) list \<Rightarrow> bool" where
  "pages_tile parsers body till offset [] \<longleftrightarrow> offset = till"
| "pages_tile parsers body till offset ((header, n) # pages) \<longleftrightarrow>
     page_at parsers body offset till = Inr (header, n)
     \<and> 0 \<le> ph_compressed_page_size header \<and> 0 \<le> ph_uncompressed_page_size header
     \<and> offset + n + nat (ph_compressed_page_size header) \<le> till
     \<and> pages_tile parsers body till (offset + n + nat (ph_compressed_page_size header)) pages"

definition is_dictionary_page :: "page_header \<times> nat \<Rightarrow> bool" where
  "is_dictionary_page p \<longleftrightarrow> ph_type (fst p) = DICTIONARY_PAGE"

definition chunk_pages_ok :: "parquet_parsers \<Rightarrow> u8 list \<Rightarrow> chunk_range \<Rightarrow> (page_header \<times> nat) list \<Rightarrow> bool" where
  "chunk_pages_ok parsers body r pages \<longleftrightarrow>
     pages_tile parsers body (cr_end r) (cr_start r) pages
     \<and> sum_list (map page_bytes pages) = cr_declared r
     \<and> sum_list (map page_values pages) = cr_values r
     \<and> cr_has_dictionary r = (\<exists>p \<in> set pages. is_dictionary_page p)"

text \<open>The range that a chunk claims, when it claims any bytes.\<close>

definition claimed_range :: "column_meta \<Rightarrow> chunk_range option" where
  "claimed_range c =
     (if cm_total_compressed_size c = 0 then None
      else let start = (case cm_dictionary_page_offset c of None \<Rightarrow> nat (cm_data_page_offset c) | Some d \<Rightarrow> nat d) in
        Some \<lparr>cr_start = start, cr_end = start + nat (cm_total_compressed_size c),
              cr_data_start = nat (cm_data_page_offset c), cr_declared = nat (cm_total_uncompressed_size c),
              cr_values = nat (cm_num_values c), cr_has_dictionary = cm_dictionary_page_offset c \<noteq> None\<rparr>)"

definition columns_of :: "column_chunk list \<Rightarrow> column_meta list" where
  "columns_of chunks = List.map_filter cc_meta_data chunks"

definition claimed_ranges :: "column_chunk list \<Rightarrow> chunk_range list" where
  "claimed_ranges chunks = List.map_filter claimed_range (columns_of chunks)"

definition declared_work :: "column_chunk list \<Rightarrow> nat" where
  "declared_work chunks = sum_list (map (\<lambda>c. nat (cm_total_uncompressed_size c)) (columns_of chunks))"

definition all_chunks :: "file_metadata \<Rightarrow> column_chunk list" where
  "all_chunks metadata = concat (map gr_columns (fm_row_groups metadata))"

subsection \<open>Pages\<close>

lemma checked_nonnegative_Inr [simp]: "checked_nonnegative raw = Inr n \<longleftrightarrow> 0 \<le> raw \<and> n = nat raw"
  by (auto simp: checked_nonnegative_def)

lemma checked_rows_Inr [simp]: "checked_rows raw = Inr n \<longleftrightarrow> 0 \<le> raw \<and> n = nat raw"
  by (auto simp: checked_rows_def)

lemma add_page_values_Inr: "add_page_values n raw = Inr m \<Longrightarrow> 0 \<le> raw \<and> m = n + nat raw \<and> m \<le> page_value_limit"
  by (auto simp: add_page_values_def usize_checked_add_def split: sum.splits if_splits)

lemma add_work_Inr: "add_work n k max_bytes = Inr m \<Longrightarrow> m = n + k \<and> m \<le> max_bytes"
  by (auto simp: add_work_def usize_checked_add_def split: if_splits)

lemma map_sum_Inr: "map_sum id f r = Inr y \<longleftrightarrow> (\<exists>x. r = Inr x \<and> y = f x)"
  by (cases r) auto

lemma validate_data_page_Inr:
  assumes "validate_data_page header values allow = Inr values'"
  shows "values' = values + nat (dp_num_values (the (ph_data header)))"
  using assms by (auto simp: validate_data_page_def split: option.splits if_splits sum.splits dest!: add_page_values_Inr)

lemma validate_data_page_v2_Inr:
  assumes "validate_data_page_v2 header uncompressed compressed values allow = Inr values'"
  shows "values' = values + nat (d2_num_values (the (ph_data_v2 header)))"
  using assms by (auto simp: validate_data_page_v2_def split: option.splits if_splits sum.splits dest!: add_page_values_Inr)

lemma validate_page_header_Inr:
  assumes "validate_page_header header uncompressed compressed values saw allow = Inr (values', saw')"
  shows "values' = values + page_values (header, n)" and "saw' = (saw \<or> is_dictionary_page (header, n))"
proof -
  have "values' = values + page_values (header, n) \<and> saw' = (saw \<or> is_dictionary_page (header, n))"
    using assms unfolding validate_page_header_def page_values_def is_dictionary_page_def
    by (auto simp: page_types map_sum_Inr split: if_splits dest!: validate_data_page_Inr validate_data_page_v2_Inr)
  then show "values' = values + page_values (header, n)" and "saw' = (saw \<or> is_dictionary_page (header, n))"
    by auto
qed

lemma page_step_Inr:
  assumes "page_step allow max_bytes r offset header n page_work w = Inr (after, page_work', w')"
  shows "0 \<le> ph_compressed_page_size header" and "0 \<le> ph_uncompressed_page_size header"
    and "after = offset + n + nat (ph_compressed_page_size header)" and "after \<le> cr_end r"
    and "page_work' = page_work + page_bytes (header, n)" and "page_work' \<le> max_bytes"
    and "pw_column_work w' = pw_column_work w + page_bytes (header, n)"
    and "pw_data_values w' = pw_data_values w + page_values (header, n)"
    and "pw_saw_dictionary w' = (pw_saw_dictionary w \<or> is_dictionary_page (header, n))"
  using assms validate_page_header_Inr [where n = n]
  by (auto simp: page_step_def usize_checked_add_def page_bytes_def
      split: sum.splits option.splits prod.splits if_splits dest!: add_work_Inr)

lemma walk_pages_Inr:
  assumes "walk_pages parsers allow max_bytes body r offset counted work w = Inr (offset', counted', work', w')"
    and "offset \<le> cr_end r" and "counted \<le> MAX_SECTION_ROWS" and "work \<le> max_bytes"
  shows "\<exists>pages. pages_tile parsers body (cr_end r) offset pages \<and> counted' = counted + length pages
    \<and> counted' \<le> MAX_SECTION_ROWS \<and> work' = work + sum_list (map page_bytes pages) \<and> work' \<le> max_bytes
    \<and> pw_column_work w' = pw_column_work w + sum_list (map page_bytes pages)
    \<and> pw_data_values w' = pw_data_values w + sum_list (map page_values pages)
    \<and> pw_saw_dictionary w' = (pw_saw_dictionary w \<or> (\<exists>p \<in> set pages. is_dictionary_page p))"
  using assms
proof (induction parsers allow max_bytes body r offset counted work w rule: walk_pages.induct)
  case (1 parsers allow max_bytes body r offset counted work w)
  show ?case
  proof (cases "cr_end r \<le> offset")
    case True
    then show ?thesis
      using 1(2-5) by (intro exI [of _ "[]"]) (simp add: walk_pages.simps)
  next
    case False
    obtain header n after work1 w1 where small: "counted + 1 \<le> MAX_SECTION_ROWS"
      and page: "page_at parsers body offset (cr_end r) = Inr (header, n)"
      and step: "page_step allow max_bytes r offset header n work w = Inr (after, work1, w1)"
      and rest: "walk_pages parsers allow max_bytes body r after (counted + 1) work1 w1 = Inr (offset', counted', work', w')"
      using 1(2) False
      by (subst (asm) walk_pages.simps)
         (auto simp: usize_checked_add_def split: option.splits if_splits sum.splits prod.splits)
    note s = page_step_Inr [OF step]
    have counted: "usize_checked_add counted 1 = Some (counted + 1)" "\<not> MAX_SECTION_ROWS < counted + 1"
      using small by (simp_all add: usize_checked_add_def MAX_SECTION_ROWS_def)
    obtain pages where "pages_tile parsers body (cr_end r) after pages" "counted' = counted + 1 + length pages"
      "counted' \<le> MAX_SECTION_ROWS" "work' = work1 + sum_list (map page_bytes pages)" "work' \<le> max_bytes"
      "pw_column_work w' = pw_column_work w1 + sum_list (map page_bytes pages)"
      "pw_data_values w' = pw_data_values w1 + sum_list (map page_values pages)"
      "pw_saw_dictionary w' = (pw_saw_dictionary w1 \<or> (\<exists>p \<in> set pages. is_dictionary_page p))"
      using 1(1) [OF False counted page refl step refl refl rest] s(4,6) small by auto
    then show ?thesis
      using s page by (intro exI [of _ "(header, n) # pages"]) auto
  qed
qed

lemma walk_chunks_Inr:
  assumes "walk_chunks parsers allow max_bytes body ranges counted work = Inr work'"
    and "\<forall>r \<in> set ranges. cr_start r \<le> cr_end r" and "counted \<le> MAX_SECTION_ROWS" and "work \<le> max_bytes"
  shows "\<exists>pages. list_all2 (chunk_pages_ok parsers body) ranges pages \<and> counted + length (concat pages) \<le> MAX_SECTION_ROWS
    \<and> work' = work + sum_list (map page_bytes (concat pages)) \<and> work' \<le> max_bytes"
  using assms
proof (induction ranges arbitrary: counted work)
  case Nil
  then show ?case by (intro exI [of _ "[]"]) simp
next
  case (Cons r ranges)
  obtain offset count1 work1 w where
    walk: "walk_pages parsers allow max_bytes body r (cr_start r) counted work
             \<lparr>pw_column_work = 0, pw_data_values = 0, pw_saw_dictionary = False, pw_saw_data = False\<rparr>
           = Inr (offset, count1, work1, w)"
    and claims: "pw_column_work w = cr_declared r" "pw_data_values w = cr_values r"
      "pw_saw_dictionary w = cr_has_dictionary r"
    and rest: "walk_chunks parsers allow max_bytes body ranges count1 work1 = Inr work'"
    using Cons.prems(1) by (auto split: sum.splits prod.splits if_splits)
  obtain pages where pages: "pages_tile parsers body (cr_end r) (cr_start r) pages"
    "count1 = counted + length pages" "count1 \<le> MAX_SECTION_ROWS"
    "work1 = work + sum_list (map page_bytes pages)" "work1 \<le> max_bytes"
    "pw_column_work w = sum_list (map page_bytes pages)" "pw_data_values w = sum_list (map page_values pages)"
    "pw_saw_dictionary w = (\<exists>p \<in> set pages. is_dictionary_page p)"
    using walk_pages_Inr [OF walk] Cons.prems(2-4) by auto
  then obtain more where "list_all2 (chunk_pages_ok parsers body) ranges more"
    "count1 + length (concat more) \<le> MAX_SECTION_ROWS"
    "work' = work1 + sum_list (map page_bytes (concat more))" "work' \<le> max_bytes"
    using Cons.IH [OF rest] Cons.prems(2) by auto
  moreover have "chunk_pages_ok parsers body r pages"
    using pages claims by (simp add: chunk_pages_ok_def)
  ultimately show ?case
    using pages by (intro exI [of _ "pages # more"]) auto
qed

subsection \<open>The footer\<close>

definition range_inside :: "bool \<Rightarrow> nat \<Rightarrow> chunk_range \<Rightarrow> bool" where
  "range_inside allow metadata_start r \<longleftrightarrow>
     length PARQUET_MAGIC \<le> cr_start r \<and> cr_start r < cr_end r \<and> cr_end r \<le> metadata_start
     \<and> cr_start r \<le> cr_data_start r \<and> cr_data_start r \<le> cr_end r
     \<and> cr_values r \<le> page_value_limit \<and> (cr_has_dictionary r \<longrightarrow> allow)"

lemma chunk_range_of_Inr:
  assumes "chunk_range_of allow metadata_start column (nat (cm_total_uncompressed_size column)) = Inr found"
  shows "found = claimed_range column" and "found = Some r \<Longrightarrow> range_inside allow metadata_start r"
  using assms
  by (auto simp: chunk_range_of_def chunk_start_def claimed_range_def range_inside_def Let_def usize_checked_add_def
      split: sum.splits option.splits if_splits)

lemma map_filter_append: "List.map_filter f (xs @ ys) = List.map_filter f xs @ List.map_filter f ys"
  by (simp add: List.map_filter_def)

lemma claims_simps [simp]:
  "claimed_ranges [] = []" "declared_work [] = 0"
  "claimed_ranges (xs @ ys) = claimed_ranges xs @ claimed_ranges ys"
  "declared_work (xs @ ys) = declared_work xs + declared_work ys"
  "cc_meta_data chunk = Some column \<Longrightarrow>
     claimed_ranges (chunk # xs) = (case claimed_range column of None \<Rightarrow> [] | Some r \<Rightarrow> [r]) @ claimed_ranges xs"
  "cc_meta_data chunk = Some column \<Longrightarrow>
     declared_work (chunk # xs) = nat (cm_total_uncompressed_size column) + declared_work xs"
  by (auto simp: claimed_ranges_def declared_work_def columns_of_def map_filter_append List.map_filter_simps
      split: option.splits)

definition chunks_ok :: "bool \<Rightarrow> nat \<Rightarrow> column_chunk list \<Rightarrow> bool" where
  "chunks_ok allow metadata_start chunks \<longleftrightarrow> (\<forall>chunk \<in> set chunks. cc_meta_data chunk \<noteq> None)
     \<and> (\<forall>r \<in> set (claimed_ranges chunks). range_inside allow metadata_start r)"

lemma footer_chunks_Inr:
  assumes "footer_chunks allow metadata_start max_bytes chunks work ranges = Inr (work', ranges')" and "work \<le> max_bytes"
  shows "work' = work + declared_work chunks \<and> work' \<le> max_bytes \<and> ranges' = ranges @ claimed_ranges chunks
    \<and> chunks_ok allow metadata_start chunks"
  using assms
proof (induction chunks arbitrary: work ranges)
  case Nil
  then show ?case by (simp add: chunks_ok_def)
next
  case (Cons chunk chunks)
  obtain column work1 found where meta: "cc_meta_data chunk = Some column"
    and size: "0 \<le> cm_total_uncompressed_size column"
    and work: "add_work work (nat (cm_total_uncompressed_size column)) max_bytes = Inr work1"
    and found: "chunk_range_of allow metadata_start column (nat (cm_total_uncompressed_size column)) = Inr found"
    and rest: "footer_chunks allow metadata_start max_bytes chunks work1
      (case found of None \<Rightarrow> ranges | Some r \<Rightarrow> ranges @ [r]) = Inr (work', ranges')"
    using Cons.prems(1) by (auto split: if_splits option.splits sum.splits)
  have ih: "work' = work1 + declared_work chunks \<and> work' \<le> max_bytes
      \<and> ranges' = (case found of None \<Rightarrow> ranges | Some r \<Rightarrow> ranges @ [r]) @ claimed_ranges chunks
      \<and> chunks_ok allow metadata_start chunks"
    using Cons.IH [OF rest] add_work_Inr [OF work] by simp
  then show ?case
    using chunk_range_of_Inr [OF found] add_work_Inr [OF work] meta
    by (auto simp: chunks_ok_def split: option.splits)
qed

definition grouped_rows :: "row_group list \<Rightarrow> nat" where
  "grouped_rows groups = sum_list (map (\<lambda>g. nat (gr_num_rows g)) groups)"

lemma footer_groups_Inr:
  assumes "footer_groups allow metadata_start max_bytes groups rows work ranges = Inr (rows', work', ranges')"
    and "work \<le> max_bytes"
  shows "rows' = rows + grouped_rows groups \<and> work' = work + declared_work (concat (map gr_columns groups))
    \<and> work' \<le> max_bytes \<and> ranges' = ranges @ claimed_ranges (concat (map gr_columns groups))
    \<and> chunks_ok allow metadata_start (concat (map gr_columns groups))"
  using assms
proof (induction groups arbitrary: rows work ranges)
  case Nil
  then show ?case by (simp add: grouped_rows_def chunks_ok_def)
next
  case (Cons g groups)
  obtain rows1 work1 ranges1 where rows: "usize_checked_add rows (nat (gr_num_rows g)) = Some rows1"
    and chunks: "footer_chunks allow metadata_start max_bytes (gr_columns g) work ranges = Inr (work1, ranges1)"
    and rest: "footer_groups allow metadata_start max_bytes groups rows1 work1 ranges1 = Inr (rows', work', ranges')"
    using Cons.prems(1) by (auto split: if_splits option.splits sum.splits)
  show ?case
    using Cons.IH [OF rest] footer_chunks_Inr [OF chunks Cons.prems(2)] rows
    by (auto simp: grouped_rows_def chunks_ok_def usize_checked_add_def split: if_splits)
qed

lemma not_overlap_sorted:
  assumes "\<not> ranges_overlap ranges" and "\<forall>r \<in> set ranges. cr_start r < cr_end r"
  shows "sorted_wrt (\<lambda>r t. cr_end r \<le> cr_start t) ranges"
  using assms
proof (induction ranges rule: ranges_overlap.induct)
  case (1 r t rest)
  then have sorted: "sorted_wrt (\<lambda>r t. cr_end r \<le> cr_start t) (t # rest)" by simp
  moreover have "cr_end r \<le> cr_start u" if "u \<in> set (t # rest)" for u
    using that sorted 1(2,3) by (auto dest!: bspec)
  ultimately show ?case by simp
qed auto

subsection \<open>Admission\<close>

text \<open>Chunk ranges in file order and their pages describe the body that the footer declares.\<close>

definition describes ::
  "parquet_parsers \<Rightarrow> u8 list \<Rightarrow> bool \<Rightarrow> file_metadata \<Rightarrow> nat \<Rightarrow> chunk_range list \<Rightarrow> (page_header \<times> nat) list list \<Rightarrow> bool" where
  "describes parsers body allow metadata metadata_start ranges pages \<longleftrightarrow>
     mset ranges = mset (claimed_ranges (all_chunks metadata))
     \<and> sorted_wrt (\<lambda>r t. cr_end r \<le> cr_start t) ranges
     \<and> (\<forall>r \<in> set ranges. range_inside allow metadata_start r)
     \<and> list_all2 (chunk_pages_ok parsers body) ranges pages
     \<and> length (concat pages) \<le> MAX_SECTION_ROWS"

lemma validate_file_metadata_Inr:
  assumes "validate_file_metadata parsers body metadata metadata_start max_bytes allow = Inr profile"
  shows "\<exists>ranges pages. describes parsers body allow metadata metadata_start ranges pages
    \<and> pp_rows profile = grouped_rows (fm_row_groups metadata) \<and> pp_rows profile \<le> MAX_SECTION_ROWS
    \<and> pp_decoded_bytes profile = declared_work (all_chunks metadata)
    \<and> pp_decoded_bytes profile = sum_list (map page_bytes (concat pages)) \<and> pp_decoded_bytes profile \<le> max_bytes"
proof -
  obtain work ranges where rows: "nat (fm_num_rows metadata) \<le> MAX_SECTION_ROWS"
    and groups: "footer_groups allow metadata_start max_bytes (fm_row_groups metadata) 0 0 [] =
      Inr (nat (fm_num_rows metadata), work, ranges)"
    and apart: "\<not> ranges_overlap (sort_key cr_start ranges)"
    and walk: "walk_chunks parsers allow max_bytes body (sort_key cr_start ranges) 0 0 = Inr work"
    and profile: "profile = \<lparr>pp_rows = nat (fm_num_rows metadata), pp_decoded_bytes = work\<rparr>"
    using assms by (auto simp: validate_file_metadata_def Let_def split: sum.splits if_splits)
  have footer: "nat (fm_num_rows metadata) = grouped_rows (fm_row_groups metadata)"
    "work = declared_work (all_chunks metadata)" "ranges = claimed_ranges (all_chunks metadata)"
    "chunks_ok allow metadata_start (all_chunks metadata)"
    using footer_groups_Inr [OF groups] by (auto simp: all_chunks_def)
  have inside: "\<forall>r \<in> set (sort_key cr_start ranges). range_inside allow metadata_start r"
    using footer by (simp add: chunks_ok_def)
  obtain pages where pages: "list_all2 (chunk_pages_ok parsers body) (sort_key cr_start ranges) pages"
    "length (concat pages) \<le> MAX_SECTION_ROWS" "work = sum_list (map page_bytes (concat pages))" "work \<le> max_bytes"
  proof -
    have "\<forall>r \<in> set (sort_key cr_start ranges). cr_start r \<le> cr_end r"
      using inside unfolding range_inside_def by (meson less_imp_le)
    from walk_chunks_Inr [OF walk this] show ?thesis using that by auto
  qed
  have "describes parsers body allow metadata metadata_start (sort_key cr_start ranges) pages"
    using not_overlap_sorted [OF apart] inside pages footer(3) by (auto simp: describes_def range_inside_def)
  then show ?thesis
    using rows footer pages profile by (intro exI [of _ "sort_key cr_start ranges"] exI [of _ pages]) simp
qed

lemma parse_footer_Inr:
  "parse_footer parsers body = Inr (metadata, metadata_start) \<Longrightarrow> metadata_start + 8 \<le> length body"
  by (auto simp: parse_footer_def Let_def split: if_splits sum.splits prod.splits)

text \<open>
  C37. An admitted body is exactly what its footer declares: the claimed column ranges lie disjoint between the
  magic and the footer, pages tile every range without a gap, their header and payload bytes and their
  values add up to the claims of each chunk, and the reported rows and decoded bytes are the totals of
  the footer, within the limits.  Dictionary pages occur only in chunks that declare one and only when
  they are allowed.
\<close>

theorem preflight_sound:
  assumes "validate_parquet_decode_profile parsers body max_bytes allow = Inr profile"
  shows "\<exists>metadata metadata_start ranges pages.
     parse_footer parsers body = Inr (metadata, metadata_start) \<and> metadata_start + 8 \<le> length body
     \<and> length body \<le> MAX_SECTION_BYTES
     \<and> describes parsers body allow metadata metadata_start ranges pages
     \<and> pp_rows profile = grouped_rows (fm_row_groups metadata) \<and> pp_rows profile \<le> MAX_SECTION_ROWS
     \<and> pp_decoded_bytes profile = declared_work (all_chunks metadata)
     \<and> pp_decoded_bytes profile = sum_list (map page_bytes (concat pages))
     \<and> pp_decoded_bytes profile \<le> max_bytes \<and> max_bytes \<le> MAX_DECODED_SECTION_BYTES"
proof -
  obtain metadata metadata_start where "parse_footer parsers body = Inr (metadata, metadata_start)"
    "validate_file_metadata parsers body metadata metadata_start max_bytes allow = Inr profile"
    "length body \<le> MAX_SECTION_BYTES" "max_bytes \<le> MAX_DECODED_SECTION_BYTES"
    using assms by (auto simp: validate_parquet_decode_profile_def split: if_splits sum.splits)
  then show ?thesis
    using validate_file_metadata_Inr parse_footer_Inr by metis
qed

text \<open>A body with one page of two values behind a header of one byte.\<close>

definition sample_page :: page_header where
  "sample_page = \<lparr>ph_type = DATA_PAGE, ph_uncompressed_page_size = 3, ph_compressed_page_size = 3,
     ph_data = Some \<lparr>dp_num_values = 2, dp_encoding = ENC_PLAIN, dp_definition_level_encoding = ENC_RLE,
       dp_repetition_level_encoding = ENC_RLE\<rparr>,
     ph_index = None, ph_dictionary = None, ph_data_v2 = None\<rparr>"

definition sample_metadata :: file_metadata where
  "sample_metadata = \<lparr>fm_schema = [()], fm_num_rows = 2,
     fm_row_groups = [\<lparr>gr_num_rows = 2, gr_columns = [\<lparr>cc_file_path = None,
       cc_meta_data = Some \<lparr>cm_num_values = 2, cm_total_uncompressed_size = 4, cm_total_compressed_size = 4,
         cm_data_page_offset = 4, cm_dictionary_page_offset = None\<rparr>,
       cc_crypto_metadata = None, cc_encrypted_column_metadata = None\<rparr>]\<rparr>],
     fm_encryption_algorithm = None, fm_footer_signing_key_metadata = None\<rparr>"

definition sample_parsers :: parquet_parsers where
  "sample_parsers = \<lparr>read_file_metadata = \<lambda>st. (Inr sample_metadata, st\<lparr>ci_remaining := []\<rparr>),
     read_page_header = \<lambda>st. (Inr sample_page, st\<lparr>ci_remaining := drop 1 (ci_remaining st)\<rparr>)\<rparr>"

definition sample_body :: "u8 list" where
  "sample_body = PARQUET_MAGIC @ [9, 1, 2, 3] @ [0, 0, 0, 0] @ PARQUET_MAGIC"

lemma preflight_sound_witness:
  "\<exists>metadata_start ranges pages. parse_footer sample_parsers sample_body = Inr (sample_metadata, metadata_start)
     \<and> describes sample_parsers sample_body False sample_metadata metadata_start ranges pages
     \<and> (4 :: nat) = sum_list (map page_bytes (concat pages))"
proof -
  note data = sample_page_def sample_metadata_def sample_parsers_def sample_body_def PARQUET_MAGIC_def
    ENC_PLAIN_def ENC_RLE_def section_bounds compact_input_new_def remaining_len_def subslice_def u32_from_le_def
  have footer: "parse_footer sample_parsers sample_body = Inr (sample_metadata, 8)"
    by (simp add: parse_footer_def data)
  have "walk_chunks sample_parsers False 100 sample_body [\<lparr>cr_start = 4, cr_end = 8, cr_data_start = 4,
      cr_declared = 4, cr_values = 2, cr_has_dictionary = False\<rparr>] 0 0 = Inr 4"
    by (simp add: walk_pages.simps page_at_def page_step_def page_position_def page_types usize_checked_add_def
        validate_page_header_def validate_data_page_def validate_data_encoding_def validate_level_encoding_def
        add_page_values_def page_value_limit_def add_work_def checked_nonnegative_def data)
  then have "validate_file_metadata sample_parsers sample_body sample_metadata 8 100 False =
      Inr \<lparr>pp_rows = 2, pp_decoded_bytes = 4\<rparr>"
    by (simp add: validate_file_metadata_def checked_rows_def checked_nonnegative_def usize_checked_add_def add_work_def
        chunk_range_of_def chunk_start_def page_value_limit_def section_bounds sample_metadata_def PARQUET_MAGIC_def)
  then have "validate_parquet_decode_profile sample_parsers sample_body 100 False = Inr \<lparr>pp_rows = 2, pp_decoded_bytes = 4\<rparr>"
  proof -
    have "length sample_body = 16" by (simp add: sample_body_def PARQUET_MAGIC_def)
    then show ?thesis
      using \<open>validate_file_metadata _ _ _ _ _ _ = _\<close>
      by (simp add: validate_parquet_decode_profile_def footer section_bounds)
  qed
  then show ?thesis
    using preflight_sound footer by fastforce
qed

end
