(* ===== verification/Section_Codec.thy ===== *)
theory Section_Codec
  imports Parquet_Preflight "HOL-Library.List_Lexorder"
begin

text \<open>
  The section codec (\<open>crates/kronika-registry/src/codec.rs\<close>): schemas of registered sections, the admission bounds of
  sealed bodies, decoding to Arrow batches and the canonical encoding of a sealed section.  Arrow
  batches are modelled by their fields and rows; the Parquet reader and writer and Arrow's sort are
  third-party code and parameters.
\<close>

section \<open>Arrow data\<close>

datatype data_type =
    DInt8 | DInt16 | DInt32 | DInt64 | DUInt8 | DUInt16 | DUInt32 | DUInt64
  | DFloat32 | DFloat64 | DBoolean | DBinary | DFixedSizeBinary nat | DList string data_type bool

record arrow_field =
  fld_name :: string
  fld_data_type :: data_type
  fld_nullable :: bool

datatype cell = CNull | CInt int | CFloat u64 | CBool bool | CBytes "u8 list" | CList "int option list"

record record_batch =
  rb_fields :: "arrow_field list"
  rb_rows :: "cell list list"

abbreviation num_rows :: "record_batch \<Rightarrow> nat" where
  "num_rows b \<equiv> length (rb_rows b)"

fun field_index :: "arrow_field list \<Rightarrow> string \<Rightarrow> nat option" where
  "field_index [] name = None"
| "field_index (f # fs) name = (if fld_name f = name then Some 0 else map_option Suc (field_index fs name))"

definition column_cells :: "record_batch \<Rightarrow> nat \<Rightarrow> cell list" where
  "column_cells b i = map (\<lambda>row. row ! i) (rb_rows b)"

text \<open>An opened Parquet file: its footer facts and the batches of a given size.\<close>

record parquet_file =
  pf_row_groups :: nat
  pf_num_rows :: int
  pf_schema :: "arrow_field list"
  pf_batches :: "nat \<Rightarrow> string + (string + record_batch) list"

datatype writer_profile = SectionProfile | SealedProfile | DictProfile | SealedDictProfile

record arrow_backend =
  ab_parsers :: parquet_parsers
  ab_open :: "u8 list \<Rightarrow> string + parquet_file"
  ab_write :: "writer_profile \<Rightarrow> record_batch \<Rightarrow> codec_error + u8 list"
  ab_lexsort :: "cell list list \<Rightarrow> string + nat list"

section \<open>Schemas\<close>

fun arrow_data_type :: "column_type \<Rightarrow> data_type" where
  "arrow_data_type TyI8 = DInt8"
| "arrow_data_type TyI16 = DInt16"
| "arrow_data_type TyI32 = DInt32"
| "arrow_data_type TyI64 = DInt64"
| "arrow_data_type TyTs = DInt64"
| "arrow_data_type TyU8 = DUInt8"
| "arrow_data_type TyU16 = DUInt16"
| "arrow_data_type TyU32 = DUInt32"
| "arrow_data_type TyU64 = DUInt64"
| "arrow_data_type TyStrId = DUInt64"
| "arrow_data_type TyF32 = DFloat32"
| "arrow_data_type TyF64 = DFloat64"
| "arrow_data_type TyBool = DBoolean"
| "arrow_data_type TyListI32 = DList ''item'' DInt32 False"

definition build_arrow_schema :: "type_contract \<Rightarrow> arrow_field list" where
  "build_arrow_schema c =
     map (\<lambda>column. \<lparr>fld_name = col_name column, fld_data_type = arrow_data_type (col_ty column),
                    fld_nullable = col_nullable column\<rparr>) (tc_columns c)"

definition schema_matches :: "arrow_field list \<Rightarrow> type_contract \<Rightarrow> bool" where
  "schema_matches got c =
     (let want = build_arrow_schema c in
      length got = length want
      \<and> list_all (\<lambda>(g, w). fld_name g = fld_name w \<and> fld_data_type g = fld_data_type w
                           \<and> fld_nullable g = fld_nullable w) (zip got want))"

section \<open>Bounds of a sealed body\<close>

definition SEALED_DATA_PAGE_BYTES :: nat where "SEALED_DATA_PAGE_BYTES = 1024 * 1024"
definition SEALED_PAGE_FRAMING_BOUND :: nat where "SEALED_PAGE_FRAMING_BOUND = 4 * 1024"
definition SEALED_FILE_FRAMING_BOUND :: nat where "SEALED_FILE_FRAMING_BOUND = 64 * 1024"

lemmas sealed_bounds = SEALED_DATA_PAGE_BYTES_def SEALED_PAGE_FRAMING_BOUND_def SEALED_FILE_FRAMING_BOUND_def

definition usize_checked_mul :: "nat \<Rightarrow> nat \<Rightarrow> nat option" where
  "usize_checked_mul a b = (if a * b < usize_limit then Some (a * b) else None)"

record plain_column_size =
  ps_name :: string
  ps_value_bytes :: nat
  ps_level_bytes :: nat

definition plain_column_size_new :: "string \<Rightarrow> nat \<Rightarrow> nat \<Rightarrow> plain_column_size" where
  "plain_column_size_new name value_bytes level_bytes =
     \<lparr>ps_name = name, ps_value_bytes = value_bytes, ps_level_bytes = level_bytes\<rparr>"

definition zstd_compress_bound :: "nat \<Rightarrow> nat option" where
  "zstd_compress_bound src_size =
     (let small_input_margin = if src_size < 128 * 1024 then (128 * 1024 - src_size) div 2 ^ 11 else 0 in
      Option.bind (usize_checked_add src_size (src_size div 2 ^ 8)) (\<lambda>bytes. usize_checked_add bytes small_input_margin))"

fun plain_body_loop :: "plain_column_size list \<Rightarrow> nat \<Rightarrow> codec_error + nat" where
  "plain_body_loop [] body = Inr body"
| "plain_body_loop (column # columns) body =
     (if SEALED_DATA_PAGE_BYTES \<le> ps_value_bytes column
      then Inl (PlainPageTooLarge (ps_name column) (ps_value_bytes column) (SEALED_DATA_PAGE_BYTES - 1))
      else case usize_checked_add (ps_value_bytes column) (ps_level_bytes column) of
        None \<Rightarrow> Inl (SectionTooLarge (usize_limit - 1) MAX_SECTION_BYTES) | Some page \<Rightarrow>
      case zstd_compress_bound page of
        None \<Rightarrow> Inl (SectionTooLarge (usize_limit - 1) MAX_SECTION_BYTES) | Some compressed \<Rightarrow>
      case Option.bind (usize_checked_add body compressed) (\<lambda>bytes. usize_checked_add bytes SEALED_PAGE_FRAMING_BOUND) of
        None \<Rightarrow> Inl (SectionTooLarge (usize_limit - 1) MAX_SECTION_BYTES) | Some body \<Rightarrow>
      plain_body_loop columns body)"

definition sealed_plain_body_bound :: "plain_column_size list \<Rightarrow> codec_error + nat" where
  "sealed_plain_body_bound columns =
     (case plain_body_loop columns SEALED_FILE_FRAMING_BOUND of Inl e \<Rightarrow> Inl e | Inr body \<Rightarrow>
      if MAX_SECTION_BYTES < body then Inl (SectionTooLarge body MAX_SECTION_BYTES) else Inr body)"

definition check_row_cap :: "nat \<Rightarrow> codec_error + unit" where
  "check_row_cap rows = (if MAX_SECTION_ROWS < rows then Inl (TooManyRows rows MAX_SECTION_ROWS) else Inr ())"

fun column_width :: "column_type \<Rightarrow> nat" where
  "column_width TyI8 = 4"
| "column_width TyI16 = 4"
| "column_width TyI32 = 4"
| "column_width TyU8 = 4"
| "column_width TyU16 = 4"
| "column_width TyU32 = 4"
| "column_width TyF32 = 4"
| "column_width TyI64 = 8"
| "column_width TyU64 = 8"
| "column_width TyF64 = 8"
| "column_width TyTs = 8"
| "column_width TyStrId = 8"
| "column_width TyBool = 1"
| "column_width TyListI32 = 0"

text \<open>A list column takes the \<open>ListI32\<close> arm; its width is never read.\<close>

definition data_column_size :: "nat \<Rightarrow> nat \<Rightarrow> section_column \<Rightarrow> codec_error + plain_column_size" where
  "data_column_size rows list_values column =
     (if col_ty column = TyListI32 then
        case usize_checked_mul list_values 4 of
          None \<Rightarrow> Inl (PlainPageTooLarge (col_name column) (usize_limit - 1) (SEALED_DATA_PAGE_BYTES - 1))
        | Some values \<Rightarrow>
        case Option.bind (Option.bind (usize_checked_add rows list_values) (\<lambda>n. usize_checked_mul n 4))
               (\<lambda>bytes. usize_checked_add bytes 16) of
          None \<Rightarrow> Inl (SectionTooLarge (usize_limit - 1) MAX_SECTION_BYTES)
        | Some levels \<Rightarrow> Inr (plain_column_size_new (col_name column) values levels)
      else
        case usize_checked_mul rows (column_width (col_ty column)) of
          None \<Rightarrow> Inl (PlainPageTooLarge (col_name column) (usize_limit - 1) (SEALED_DATA_PAGE_BYTES - 1))
        | Some values \<Rightarrow>
        if col_nullable column then
          case Option.bind (usize_checked_mul rows 2) (\<lambda>bytes. usize_checked_add bytes 8) of
            None \<Rightarrow> Inl (SectionTooLarge (usize_limit - 1) MAX_SECTION_BYTES)
          | Some levels \<Rightarrow> Inr (plain_column_size_new (col_name column) values levels)
        else Inr (plain_column_size_new (col_name column) values 0))"

fun data_column_sizes :: "nat \<Rightarrow> nat \<Rightarrow> section_column list \<Rightarrow> codec_error + plain_column_size list" where
  "data_column_sizes rows list_values [] = Inr []"
| "data_column_sizes rows list_values (column # columns) =
     (case data_column_size rows list_values column of Inl e \<Rightarrow> Inl e | Inr column_size \<Rightarrow>
      case data_column_sizes rows list_values columns of Inl e \<Rightarrow> Inl e | Inr sizes \<Rightarrow> Inr (column_size # sizes))"

definition list_columns :: "type_contract \<Rightarrow> string list" where
  "list_columns c = map col_name (filter (\<lambda>column. col_ty column = TyListI32) (tc_columns c))"

definition first_list_name :: "type_contract \<Rightarrow> string" where
  "first_list_name c = (case list_columns c of [] \<Rightarrow> ''ListI32'' | name # _ \<Rightarrow> name)"

definition sealed_data_body_bound :: "type_contract list \<Rightarrow> u32 \<Rightarrow> nat \<Rightarrow> nat \<Rightarrow> codec_error + nat" where
  "sealed_data_body_bound registry type_id rows list_values =
     (case check_row_cap rows of Inl e \<Rightarrow> Inl e | Inr _ \<Rightarrow>
      case contract_of registry type_id of None \<Rightarrow> Inl (UnknownType type_id) | Some c \<Rightarrow>
      if MAX_LIST_I32_VALUES_PER_SECTION < list_values
      then Inl (TooManyListValues (first_list_name c) list_values MAX_LIST_I32_VALUES_PER_SECTION)
      else if list_values \<noteq> 0 \<and> list_columns c = [] then Inl SchemaMismatch
      else case data_column_sizes rows list_values (tc_columns c) of Inl e \<Rightarrow> Inl e | Inr columns \<Rightarrow>
        sealed_plain_body_bound columns)"

section \<open>List columns\<close>

fun cell_list :: "cell \<Rightarrow> int option list" where
  "cell_list (CList xs) = xs"
| "cell_list _ = []"

text \<open>The child counts of a list column; the child type is looked at once per row.\<close>

fun list_column_total :: "string \<Rightarrow> data_type \<Rightarrow> cell list \<Rightarrow> nat \<Rightarrow> codec_error + nat" where
  "list_column_total name item [] tally = Inr tally"
| "list_column_total name item (c # cells) tally =
     (let len = length (cell_list c) in
      if MAX_LIST_I32_VALUES_PER_ROW < len then Inl (TooManyListValues name len MAX_LIST_I32_VALUES_PER_ROW)
      else case usize_checked_add tally len of
        None \<Rightarrow> Inl (TooManyListValues name (usize_limit - 1) MAX_LIST_I32_VALUES_PER_SECTION)
      | Some tally \<Rightarrow>
          if MAX_LIST_I32_VALUES_PER_SECTION < tally
          then Inl (TooManyListValues name tally MAX_LIST_I32_VALUES_PER_SECTION)
          else if item \<noteq> DInt32 then Inl (ColumnTypeError name)
          else if None \<in> set (cell_list c) then Inl (NullInRequiredColumn name)
          else list_column_total name item cells tally)"

definition validate_list_i32_batch :: "record_batch \<Rightarrow> string \<Rightarrow> codec_error + nat" where
  "validate_list_i32_batch b name =
     (case field_index (rb_fields b) name of None \<Rightarrow> Inl (MissingColumn name) | Some i \<Rightarrow>
      case fld_data_type (rb_fields b ! i) of
        DList item_name item item_nullable \<Rightarrow>
          if CNull \<in> set (column_cells b i) then Inl (NullInRequiredColumn name)
          else list_column_total name item (column_cells b i) 0
      | _ \<Rightarrow> Inl (ColumnTypeError name))"

fun add_list_values :: "record_batch \<Rightarrow> (string \<times> nat) list \<Rightarrow> codec_error + (string \<times> nat) list" where
  "add_list_values b [] = Inr []"
| "add_list_values b ((name, tally) # counts) =
     (case validate_list_i32_batch b name of Inl e \<Rightarrow> Inl e | Inr values \<Rightarrow>
      case usize_checked_add tally values of
        None \<Rightarrow> Inl (TooManyListValues name (usize_limit - 1) MAX_LIST_I32_VALUES_PER_SECTION)
      | Some tally \<Rightarrow>
          if MAX_LIST_I32_VALUES_PER_SECTION < tally
          then Inl (TooManyListValues name tally MAX_LIST_I32_VALUES_PER_SECTION)
          else case add_list_values b counts of Inl e \<Rightarrow> Inl e | Inr counts \<Rightarrow> Inr ((name, tally) # counts))"

fun total_list_values :: "string \<Rightarrow> (string \<times> nat) list \<Rightarrow> nat \<Rightarrow> codec_error + nat" where
  "total_list_values first [] tally = Inr tally"
| "total_list_values first ((name, values) # counts) tally =
     (case usize_checked_add tally values of
        None \<Rightarrow> Inl (TooManyListValues first (usize_limit - 1) MAX_LIST_I32_VALUES_PER_SECTION)
      | Some tally \<Rightarrow> total_list_values first counts tally)"

section \<open>Sorting\<close>

fun sort_columns_of :: "arrow_field list \<Rightarrow> string list \<Rightarrow> codec_error + nat list" where
  "sort_columns_of schema [] = Inr []"
| "sort_columns_of schema (name # names) =
     (case field_index schema name of None \<Rightarrow> Inl (MissingColumn name) | Some i \<Rightarrow>
      case sort_columns_of schema names of Inl e \<Rightarrow> Inl e | Inr is \<Rightarrow> Inr (i # is))"

definition row_key :: "nat list \<Rightarrow> cell list \<Rightarrow> cell list" where
  "row_key is row = map (\<lambda>i. row ! i) is"

definition take_rows :: "record_batch \<Rightarrow> nat list \<Rightarrow> record_batch" where
  "take_rows b indices = b\<lparr>rb_rows := map (\<lambda>i. rb_rows b ! i) indices\<rparr>"

definition sort_by_columns :: "arrow_backend \<Rightarrow> record_batch \<Rightarrow> string list \<Rightarrow> codec_error + record_batch" where
  "sort_by_columns backend b names =
     (case sort_columns_of (rb_fields b) names of Inl e \<Rightarrow> Inl e | Inr is \<Rightarrow>
      case ab_lexsort backend (map (row_key is) (rb_rows b)) of
        Inl e \<Rightarrow> Inl (ArrowError e)
      | Inr indices \<Rightarrow> Inr (take_rows b indices))"

definition sort_by_sort_key :: "arrow_backend \<Rightarrow> record_batch \<Rightarrow> type_contract \<Rightarrow> codec_error + record_batch" where
  "sort_by_sort_key backend b c =
     (if tc_sort_key c = [] \<or> num_rows b \<le> 1 then Inr b else sort_by_columns backend b (tc_sort_key c))"

definition canonical_names :: "type_contract \<Rightarrow> string list" where
  "canonical_names c =
     tc_sort_key c @ filter (\<lambda>name. name \<notin> set (tc_sort_key c)) (map col_name (tc_columns c))"

text \<open>The identity permutation leaves the batch as it is, which is what taking it by rows gives.\<close>

definition sort_canonical :: "arrow_backend \<Rightarrow> record_batch \<Rightarrow> type_contract \<Rightarrow> codec_error + record_batch" where
  "sort_canonical backend b c =
     (if tc_columns c = [] \<or> num_rows b \<le> 1 then Inr b else sort_by_columns backend b (canonical_names c))"

section \<open>Encoding\<close>

definition cap_body :: "u8 list \<Rightarrow> codec_error + u8 list" where
  "cap_body body =
     (if MAX_SECTION_BYTES < length body then Inl (SectionTooLarge (length body) MAX_SECTION_BYTES) else Inr body)"

definition encode_section :: "arrow_backend \<Rightarrow> type_contract \<Rightarrow> record_batch \<Rightarrow> codec_error + u8 list" where
  "encode_section backend c b =
     (case check_row_cap (num_rows b) of Inl e \<Rightarrow> Inl e | Inr _ \<Rightarrow>
      case sort_by_sort_key backend b c of Inl e \<Rightarrow> Inl e | Inr b \<Rightarrow>
      case ab_write backend SectionProfile b of Inl e \<Rightarrow> Inl e | Inr body \<Rightarrow> cap_body body)"

fun sealed_batches_scan ::
  "type_contract \<Rightarrow> record_batch list \<Rightarrow> nat \<Rightarrow> (string \<times> nat) list \<Rightarrow> codec_error + (nat \<times> (string \<times> nat) list)" where
  "sealed_batches_scan c [] rows counts = Inr (rows, counts)"
| "sealed_batches_scan c (b # batches) rows counts =
     (if \<not> schema_matches (rb_fields b) c then Inl SchemaMismatch
      else case usize_checked_add rows (num_rows b) of
        None \<Rightarrow> Inl (TooManyRows (usize_limit - 1) MAX_SECTION_ROWS) | Some rows \<Rightarrow>
      case check_row_cap rows of Inl e \<Rightarrow> Inl e | Inr _ \<Rightarrow>
      case add_list_values b counts of Inl e \<Rightarrow> Inl e | Inr counts \<Rightarrow>
      sealed_batches_scan c batches rows counts)"

definition concat_batches :: "arrow_field list \<Rightarrow> record_batch list \<Rightarrow> record_batch" where
  "concat_batches schema batches = \<lparr>rb_fields = schema, rb_rows = concat (map rb_rows batches)\<rparr>"

definition merge_batches :: "type_contract \<Rightarrow> record_batch list \<Rightarrow> record_batch" where
  "merge_batches c batches =
     (case batches of
        [] \<Rightarrow> \<lparr>rb_fields = build_arrow_schema c, rb_rows = []\<rparr>
      | [b] \<Rightarrow> b
      | _ \<Rightarrow> concat_batches (build_arrow_schema c) batches)"

definition encode_sealed_batches ::
  "arrow_backend \<Rightarrow> type_contract list \<Rightarrow> u32 \<Rightarrow> record_batch list \<Rightarrow> codec_error + u8 list" where
  "encode_sealed_batches backend registry type_id batches =
     (case contract_of registry type_id of None \<Rightarrow> Inl (UnknownType type_id) | Some c \<Rightarrow>
      case sealed_batches_scan c batches 0 (map (\<lambda>name. (name, 0)) (list_columns c)) of Inl e \<Rightarrow> Inl e
      | Inr (rows, counts) \<Rightarrow>
      case total_list_values (first_list_name c) counts 0 of Inl e \<Rightarrow> Inl e | Inr list_values \<Rightarrow>
      case sealed_data_body_bound registry type_id rows list_values of Inl e \<Rightarrow> Inl e | Inr _ \<Rightarrow>
      case sort_canonical backend (merge_batches c batches) c of Inl e \<Rightarrow> Inl e | Inr canonical \<Rightarrow>
      case ab_write backend SealedProfile canonical of Inl e \<Rightarrow> Inl e | Inr body \<Rightarrow> cap_body body)"

section \<open>Decoding\<close>

definition verify_section :: "(u8 list \<Rightarrow> u32) \<Rightarrow> u8 list \<Rightarrow> u32 \<Rightarrow> codec_error + u8 list" where
  "verify_section crc bytes expected =
     (if crc bytes = expected then Inr bytes else Inl (SectionCrcMismatch expected (crc bytes)))"

definition DECODE_BATCH_SIZE :: nat where
  "DECODE_BATCH_SIZE = (if MAX_SECTION_ROWS < 8192 then MAX_SECTION_ROWS else 8192)"

record decode_stats =
  ds_type_id :: u32
  ds_bytes_in :: nat
  ds_row_groups :: nat
  ds_batches :: nat
  ds_rows :: nat
  ds_list_i32_child_values :: nat

record decoded_section =
  dc_batches :: "record_batch list"
  dc_stats :: decode_stats

definition claimed_row_count :: "int \<Rightarrow> codec_error + nat" where
  "claimed_row_count claimed =
     (if claimed < 0 then Inl (InvalidRowCount claimed)
      else if nat claimed \<le> MAX_SECTION_ROWS then Inr (nat claimed)
      else Inl (TooManyRows (nat claimed) MAX_SECTION_ROWS))"

definition capped_reader ::
  "arrow_backend \<Rightarrow> u8 list \<Rightarrow> codec_error + (arrow_field list \<times> (string + record_batch) list \<times> nat \<times> nat)" where
  "capped_reader backend bytes =
     (if MAX_SECTION_BYTES < length bytes then Inl (SectionTooLarge (length bytes) MAX_SECTION_BYTES)
      else case validate_parquet_decode_work (ab_parsers backend) bytes MAX_DECODED_SECTION_BYTES of Inl e \<Rightarrow> Inl e
      | Inr _ \<Rightarrow>
      case ab_open backend bytes of Inl e \<Rightarrow> Inl (ParquetError e) | Inr file \<Rightarrow>
      if MAX_ROW_GROUPS < pf_row_groups file then Inl (TooManyRowGroups (pf_row_groups file) MAX_ROW_GROUPS)
      else case claimed_row_count (pf_num_rows file) of Inl e \<Rightarrow> Inl e | Inr rows \<Rightarrow>
      case pf_batches file DECODE_BATCH_SIZE of Inl e \<Rightarrow> Inl (ParquetError e) | Inr batches \<Rightarrow>
      Inr (pf_schema file, batches, pf_row_groups file, rows))"

fun decode_loop ::
  "(string + record_batch) list \<Rightarrow> nat \<Rightarrow> (string \<times> nat) list \<Rightarrow> codec_error + (record_batch list \<times> nat \<times> (string \<times> nat) list)" where
  "decode_loop [] rows counts = Inr ([], rows, counts)"
| "decode_loop (Inl e # items) rows counts = Inl (ArrowError e)"
| "decode_loop (Inr b # items) rows counts =
     (let rows = rows + num_rows b in
      if MAX_SECTION_ROWS < rows then Inl (TooManyRows rows MAX_SECTION_ROWS)
      else case add_list_values b counts of Inl e \<Rightarrow> Inl e | Inr counts \<Rightarrow>
      case decode_loop items rows counts of Inl e \<Rightarrow> Inl e
      | Inr (batches, rows, counts) \<Rightarrow> Inr (b # batches, rows, counts))"

definition decode_batches :: "arrow_backend \<Rightarrow> type_contract \<Rightarrow> u8 list \<Rightarrow> codec_error + decoded_section" where
  "decode_batches backend c bytes =
     (case capped_reader backend bytes of Inl e \<Rightarrow> Inl e | Inr (schema, items, row_groups, claimed_rows) \<Rightarrow>
      if \<not> schema_matches schema c then Inl SchemaMismatch
      else case decode_loop items 0 (map (\<lambda>name. (name, 0)) (list_columns c)) of Inl e \<Rightarrow> Inl e
      | Inr (batches, rows, counts) \<Rightarrow>
      case total_list_values (first_list_name c) counts 0 of Inl e \<Rightarrow> Inl e | Inr list_values \<Rightarrow>
      Inr \<lparr>dc_batches = batches, dc_stats = \<lparr>ds_type_id = tc_type_id c, ds_bytes_in = length bytes,
            ds_row_groups = row_groups, ds_batches = length batches, ds_rows = rows,
            ds_list_i32_child_values = list_values\<rparr>\<rparr>)"

definition decode_any :: "arrow_backend \<Rightarrow> type_contract list \<Rightarrow> u32 \<Rightarrow> u8 list \<Rightarrow> codec_error + decoded_section" where
  "decode_any backend registry type_id bytes =
     (case contract_of registry type_id of None \<Rightarrow> Inl (UnknownType type_id) | Some c \<Rightarrow>
      case decode_batches backend c bytes of
        Inl e \<Rightarrow> Inl (SectionError type_id (length bytes) e)
      | Inr decoded \<Rightarrow> Inr decoded)"

section \<open>The bounds over the natural numbers\<close>

definition zstd_bound :: "nat \<Rightarrow> nat" where
  "zstd_bound n = n + n div 256 + (if n < 131072 then (131072 - n) div 2048 else 0)"

lemma zstd_bound_ge: "n \<le> zstd_bound n"
  by (simp add: zstd_bound_def)

lemma zstd_bound_Suc: "zstd_bound n \<le> zstd_bound (Suc n)"
proof -
  have "n div 256 \<le> Suc n div 256" by (intro div_le_mono) simp
  moreover have "(131072 - n) div 2048 \<le> (131072 - Suc n) div 2048 + 1" if "n < 131072"
  proof -
    have "(131072 - n) div 2048 \<le> (131072 - Suc n + 2048) div 2048" using that by (intro div_le_mono) simp
    also have "\<dots> = (131072 - Suc n) div 2048 + 1" by simp
    finally show ?thesis .
  qed
  ultimately show ?thesis
    unfolding zstd_bound_def by (simp only: split: if_split) linarith
qed

lemma zstd_bound_mono: "m \<le> n \<Longrightarrow> zstd_bound m \<le> zstd_bound n"
  by (rule lift_Suc_mono_le [of zstd_bound]) (rule zstd_bound_Suc)

lemma zstd_compress_bound_Some: "zstd_compress_bound n = Some m \<longleftrightarrow> m = zstd_bound n \<and> zstd_bound n < usize_limit"
  by (auto simp: zstd_compress_bound_def zstd_bound_def usize_checked_add_def bind_eq_Some_conv Let_def split: if_splits)

text \<open>The framing of a file and the compressed pages of its columns.\<close>

definition page_bound :: "plain_column_size \<Rightarrow> nat" where
  "page_bound column = zstd_bound (ps_value_bytes column + ps_level_bytes column) + SEALED_PAGE_FRAMING_BOUND"

definition plain_body :: "plain_column_size list \<Rightarrow> nat" where
  "plain_body columns = SEALED_FILE_FRAMING_BOUND + sum_list (map page_bound columns)"

lemma plain_body_loop_Inr:
  "plain_body_loop columns body = Inr b \<longleftrightarrow>
     (\<forall>column \<in> set columns. ps_value_bytes column < SEALED_DATA_PAGE_BYTES)
     \<and> b = body + sum_list (map page_bound columns)
     \<and> (columns = [] \<or> b < usize_limit)"
proof (induction columns body rule: plain_body_loop.induct)
  case (2 column columns body)
  define page where "page = ps_value_bytes column + ps_level_bytes column"
  have page: "page \<le> zstd_bound page" by (rule zstd_bound_ge)
  have bound: "page_bound column = zstd_bound page + SEALED_PAGE_FRAMING_BOUND"
    by (simp add: page_bound_def page_def)
  show ?case
  proof (cases "ps_value_bytes column < SEALED_DATA_PAGE_BYTES \<and> body + page_bound column < usize_limit")
    case True
    then have "zstd_compress_bound page = Some (zstd_bound page)" by (simp add: zstd_compress_bound_Some bound)
    then have "plain_body_loop (column # columns) body = plain_body_loop columns (body + page_bound column)"
      using True page by (simp add: usize_checked_add_def bound add.assoc flip: page_def)
    moreover have "plain_body_loop columns (body + page_bound column) = Inr b \<longleftrightarrow>
       (\<forall>column \<in> set columns. ps_value_bytes column < SEALED_DATA_PAGE_BYTES)
       \<and> b = body + page_bound column + sum_list (map page_bound columns) \<and> (columns = [] \<or> b < usize_limit)"
      using 2 True page
      by (auto simp: usize_checked_add_def zstd_compress_bound_Some bound page_def)
    ultimately show ?thesis using True by auto
  next
    case False
    then have "plain_body_loop (column # columns) body \<noteq> Inr b" for b
      using page by (auto simp: usize_checked_add_def zstd_compress_bound_Some bound page_def bind_eq_Some_conv split: option.splits)
    then show ?thesis using False by auto
  qed
qed auto

lemma sealed_plain_body_bound_Inr:
  "sealed_plain_body_bound columns = Inr b \<longleftrightarrow>
     (\<forall>column \<in> set columns. ps_value_bytes column < SEALED_DATA_PAGE_BYTES)
     \<and> b = plain_body columns \<and> b \<le> MAX_SECTION_BYTES"
  using plain_body_loop_Inr [of columns SEALED_FILE_FRAMING_BOUND b]
  by (auto simp: sealed_plain_body_bound_def plain_body_def MAX_SECTION_BYTES_def split: sum.splits)

text \<open>Value and level bytes of a column as numbers without a width.\<close>

definition column_load :: "nat \<Rightarrow> nat \<Rightarrow> section_column \<Rightarrow> plain_column_size" where
  "column_load rows list_values column =
     (if col_ty column = TyListI32
      then plain_column_size_new (col_name column) (4 * list_values) (4 * (rows + list_values) + 16)
      else plain_column_size_new (col_name column) (column_width (col_ty column) * rows)
             (if col_nullable column then 2 * rows + 8 else 0))"

lemma column_width_le: "column_width t \<le> 8"
  by (cases t) auto

lemma data_column_size_small:
  assumes "rows \<le> MAX_SECTION_ROWS" and "list_values \<le> MAX_LIST_I32_VALUES_PER_SECTION"
  shows "data_column_size rows list_values column = Inr (column_load rows list_values column)"
proof -
  have "column_width (col_ty column) * rows \<le> 8 * 65536"
    using assms(1) column_width_le by (intro mult_le_mono) (auto simp: section_bounds)
  then show ?thesis
    using assms by (simp add: data_column_size_def column_load_def usize_checked_mul_def usize_checked_add_def
        section_bounds mult.commute)
qed

lemma data_column_sizes_small:
  assumes "rows \<le> MAX_SECTION_ROWS" and "list_values \<le> MAX_LIST_I32_VALUES_PER_SECTION"
  shows "data_column_sizes rows list_values columns = Inr (map (column_load rows list_values) columns)"
  by (induction columns) (simp_all add: data_column_size_small [OF assms])

lemma body_bound_iff:
  "sealed_data_body_bound registry type_id rows list_values = Inr b \<longleftrightarrow>
     rows \<le> MAX_SECTION_ROWS \<and> list_values \<le> MAX_LIST_I32_VALUES_PER_SECTION
     \<and> (\<exists>c. contract_of registry type_id = Some c \<and> (list_values = 0 \<or> list_columns c \<noteq> [])
        \<and> (\<forall>column \<in> set (tc_columns c). ps_value_bytes (column_load rows list_values column) < SEALED_DATA_PAGE_BYTES)
        \<and> b = plain_body (map (column_load rows list_values) (tc_columns c)) \<and> b \<le> MAX_SECTION_BYTES)"
proof (cases "rows \<le> MAX_SECTION_ROWS \<and> list_values \<le> MAX_LIST_I32_VALUES_PER_SECTION")
  case True
  then show ?thesis
    by (cases "contract_of registry type_id")
       (auto simp: sealed_data_body_bound_def check_row_cap_def data_column_sizes_small sealed_plain_body_bound_Inr)
next
  case False
  then show ?thesis
    by (auto simp: sealed_data_body_bound_def check_row_cap_def split: option.splits)
qed

text \<open>
  C39. The sealed-body bound accepts a section exactly when its rows, its list values and the value bytes of every
  column are within their limits and the file framing with the compressed pages, counted without any
  wrap-around, stays within eight mebibytes; the bound is that count.
\<close>

theorem body_bound_exact:
  "sealed_data_body_bound registry type_id rows list_values = Inr b \<longleftrightarrow>
     rows \<le> MAX_SECTION_ROWS \<and> list_values \<le> MAX_LIST_I32_VALUES_PER_SECTION
     \<and> (\<exists>c. contract_of registry type_id = Some c \<and> (list_values = 0 \<or> list_columns c \<noteq> [])
        \<and> (\<forall>column \<in> set (tc_columns c). ps_value_bytes (column_load rows list_values column) < SEALED_DATA_PAGE_BYTES)
        \<and> b = plain_body (map (column_load rows list_values) (tc_columns c)) \<and> b \<le> MAX_SECTION_BYTES)"
  by (rule body_bound_iff)

text \<open>A section within its bounds stays within them when rows or list values are taken away.\<close>

lemma column_load_mono:
  assumes "rows \<le> rows'" and "list_values \<le> list_values'"
  shows "ps_value_bytes (column_load rows list_values column) \<le> ps_value_bytes (column_load rows' list_values' column)"
    and "page_bound (column_load rows list_values column) \<le> page_bound (column_load rows' list_values' column)"
proof -
  have "column_width t * rows \<le> column_width t * rows'" for t using assms(1) by simp
  then have v: "ps_value_bytes (column_load rows list_values column) \<le> ps_value_bytes (column_load rows' list_values' column)"
    and l: "ps_level_bytes (column_load rows list_values column) \<le> ps_level_bytes (column_load rows' list_values' column)"
    using assms by (auto simp: column_load_def plain_column_size_new_def)
  then show "ps_value_bytes (column_load rows list_values column) \<le> ps_value_bytes (column_load rows' list_values' column)"
    and "page_bound (column_load rows list_values column) \<le> page_bound (column_load rows' list_values' column)"
    by (auto simp: page_bound_def intro!: zstd_bound_mono add_mono)
qed

lemma body_bound_mono:
  assumes bound: "sealed_data_body_bound registry type_id rows' list_values' = Inr b'"
    and le: "rows \<le> rows'" "list_values \<le> list_values'"
  shows "\<exists>b. sealed_data_body_bound registry type_id rows list_values = Inr b \<and> b \<le> b'"
proof -
  obtain c where c: "contract_of registry type_id = Some c" "list_values' = 0 \<or> list_columns c \<noteq> []"
    "\<forall>column \<in> set (tc_columns c). ps_value_bytes (column_load rows' list_values' column) < SEALED_DATA_PAGE_BYTES"
    "b' = plain_body (map (column_load rows' list_values') (tc_columns c))" "b' \<le> MAX_SECTION_BYTES"
    "rows' \<le> MAX_SECTION_ROWS" "list_values' \<le> MAX_LIST_I32_VALUES_PER_SECTION"
    using bound unfolding body_bound_iff by blast
  have sums: "plain_body (map (column_load rows list_values) (tc_columns c)) \<le> b'"
    unfolding c(4) plain_body_def map_map comp_def
    by (intro add_left_mono sum_list_mono column_load_mono(2) le)
  moreover have "\<forall>column \<in> set (tc_columns c). ps_value_bytes (column_load rows list_values column) < SEALED_DATA_PAGE_BYTES"
    using c(3) column_load_mono(1) [OF le] by (meson order_le_less_trans)
  ultimately show ?thesis
    using c le unfolding body_bound_iff by (intro exI [of _ "plain_body (map (column_load rows list_values) (tc_columns c))"]) auto
qed

section \<open>The canonical order\<close>

definition batch_ok :: "record_batch \<Rightarrow> bool" where
  "batch_ok b \<longleftrightarrow> (\<forall>row \<in> set (rb_rows b). length row = length (rb_fields b))"

text \<open>
  Arrow's lexicographic sort: on keys of equal length it returns the indices of the rows in an order
  that the comparison of cells, a linear order, makes ascending.
\<close>

definition cell_order :: "(cell \<Rightarrow> cell \<Rightarrow> bool) \<Rightarrow> bool" where
  "cell_order le \<longleftrightarrow> (\<forall>a b. le a b \<or> le b a) \<and> (\<forall>a b. le a b \<and> le b a \<longrightarrow> a = b)
     \<and> (\<forall>a b c. le a b \<and> le b c \<longrightarrow> le a c)"

fun key_le :: "(cell \<Rightarrow> cell \<Rightarrow> bool) \<Rightarrow> cell list \<Rightarrow> cell list \<Rightarrow> bool" where
  "key_le le [] ys = True"
| "key_le le (x # xs) [] = False"
| "key_le le (x # xs) (y # ys) = (if x = y then key_le le xs ys else le x y)"

definition lexsort_sorts :: "arrow_backend \<Rightarrow> (cell \<Rightarrow> cell \<Rightarrow> bool) \<Rightarrow> bool" where
  "lexsort_sorts backend le \<longleftrightarrow> cell_order le \<and>
     (\<forall>keys n. (\<forall>k \<in> set keys. length k = n) \<and> 0 < n \<longrightarrow>
        (\<exists>indices. ab_lexsort backend keys = Inr indices \<and> mset indices = mset [0..<length keys]
           \<and> sorted_wrt (key_le le) (map (\<lambda>i. keys ! i) indices)))"

lemma cell_antisym: "cell_order le \<Longrightarrow> le a b \<Longrightarrow> le b a \<Longrightarrow> a = b"
  unfolding cell_order_def by blast

lemma key_le_antisym:
  assumes order: "cell_order le" and "key_le le xs ys" and "key_le le ys xs"
  shows "xs = ys"
  using assms(2,3)
proof (induction xs arbitrary: ys)
  case Nil
  then show ?case by (cases ys) auto
next
  case (Cons x xs)
  then obtain y zs where ys: "ys = y # zs" by (cases ys) auto
  have "x = y"
    using Cons.prems cell_antisym [OF order, of x y] unfolding ys by (cases "x = y") auto
  then show ?case using Cons by (simp add: ys)
qed

text \<open>Two ascending arrangements of the same keys are the same list.\<close>

lemma ascending_unique:
  assumes order: "cell_order le"
    and "sorted_wrt (key_le le) xs" and "sorted_wrt (key_le le) ys" and "mset xs = mset ys"
  shows "xs = ys"
  using assms(2-4)
proof (induction xs arbitrary: ys)
  case (Cons x xs)
  then obtain y zs where ys: "ys = y # zs" by (cases ys) auto
  have "x = y"
  proof (rule ccontr)
    assume ne: "x \<noteq> y"
    have "set (x # xs) = set (y # zs)" using Cons.prems(3) unfolding ys by (rule mset_eq_setD)
    then have "x \<in> set zs" and "y \<in> set xs" using ne by auto
    then have "key_le le y x" and "key_le le x y" using Cons.prems unfolding ys by auto
    then show False using key_le_antisym [OF order] ne by blast
  qed
  then show ?case using Cons.IH [of zs] Cons.prems unfolding ys by simp
qed simp

subsection \<open>Keys that determine the row\<close>

lemma field_index_Some:
  "field_index schema name = Some i \<Longrightarrow> i < length schema \<and> fld_name (schema ! i) = name"
  by (induction schema arbitrary: i) (auto split: if_splits)

lemma field_index_nth:
  assumes "distinct (map fld_name schema)" and "i < length schema"
  shows "field_index schema (fld_name (schema ! i)) = Some i"
  using assms
proof (induction schema arbitrary: i)
  case (Cons f fs)
  then show ?case by (cases i) (auto simp: image_iff)
qed simp

lemma sort_columns_of_Inr:
  "sort_columns_of schema names = Inr is \<Longrightarrow> length is = length names
     \<and> (\<forall>i \<in> set is. i < length schema) \<and> set is = {i. \<exists>name \<in> set names. field_index schema name = Some i}"
proof (induction names arbitrary: "is")
  case (Cons name names)
  then obtain i js where "field_index schema name = Some i" "sort_columns_of schema names = Inr js" "is = i # js"
    by (auto split: option.splits sum.splits)
  then show ?case using Cons.IH field_index_Some by auto
qed simp

lemma schema_names: "map fld_name (build_arrow_schema c) = map col_name (tc_columns c)"
  by (simp add: build_arrow_schema_def)

lemma schema_matches_iff: "schema_matches got c \<longleftrightarrow> got = build_arrow_schema c"
proof -
  have same: "fld_name g = fld_name w \<and> fld_data_type g = fld_data_type w \<and> fld_nullable g = fld_nullable w \<longleftrightarrow> g = w"
    for g w :: arrow_field by (cases g; cases w) simp
  have "schema_matches got c \<longleftrightarrow> list_all2 (=) got (build_arrow_schema c)"
    unfolding schema_matches_def Let_def same list_all2_iff list_all_iff by (rule refl)
  then show ?thesis by (simp add: list.rel_eq)
qed

lemma row_key_inj:
  assumes "row_key is r = row_key is t" and "set is = {..<n}" and "length r = n" and "length t = n"
  shows "r = t"
proof (rule nth_equalityI)
  fix i assume "i < length r"
  then have "i \<in> set is" using assms by simp
  then show "r ! i = t ! i" using assms(1) unfolding row_key_def by (meson map_eq_conv)
qed (use assms in simp)

lemma canonical_columns:
  assumes "names_distinct c" and "sort_columns_of (build_arrow_schema c) (canonical_names c) = Inr is"
  shows "set is = {..<length (build_arrow_schema c)}" and "length is = length (canonical_names c)"
proof -
  have distinct: "distinct (map fld_name (build_arrow_schema c))"
    using assms(1) by (simp add: schema_names names_distinct_def)
  note found = sort_columns_of_Inr [OF assms(2)]
  have "i \<in> set is" if "i < length (build_arrow_schema c)" for i
  proof -
    have "fld_name (build_arrow_schema c ! i) \<in> set (map fld_name (build_arrow_schema c))"
      using that by (metis length_map nth_map nth_mem)
    then have "fld_name (build_arrow_schema c ! i) \<in> set (canonical_names c)"
      unfolding schema_names canonical_names_def by auto
    then show ?thesis using found field_index_nth [OF distinct that] by blast
  qed
  moreover have "i < length (build_arrow_schema c)" if "i \<in> set is" for i using found that by blast
  ultimately show "set is = {..<length (build_arrow_schema c)}" by (intro set_eqI iffI) simp_all
  show "length is = length (canonical_names c)" using found by simp
qed

subsection \<open>Sorting is canonical\<close>

lemma take_rows_sorted:
  assumes "mset indices = mset [0..<num_rows b]"
  shows "mset (rb_rows (take_rows b indices)) = mset (rb_rows b)"
proof -
  have "mset (map (\<lambda>i. rb_rows b ! i) indices) = image_mset (\<lambda>i. rb_rows b ! i) (mset [0..<num_rows b])"
    by (simp only: mset_map assms)
  also have "\<dots> = mset (map (\<lambda>i. rb_rows b ! i) [0..<num_rows b])" by (simp only: mset_map)
  also have "\<dots> = mset (rb_rows b)" by (simp only: map_nth)
  finally show ?thesis by (simp add: take_rows_def)
qed

lemma sort_by_columns_Inr:
  assumes sorts: "lexsort_sorts backend le" and cols: "sort_columns_of (rb_fields b) names = Inr is" and "names \<noteq> []"
  shows "\<exists>sorted. sort_by_columns backend b names = Inr sorted \<and> rb_fields sorted = rb_fields b
    \<and> mset (rb_rows sorted) = mset (rb_rows b) \<and> sorted_wrt (key_le le) (map (row_key is) (rb_rows sorted))"
proof -
  have "0 < length is" using sort_columns_of_Inr [OF cols] assms(3) by auto
  moreover have "\<forall>k \<in> set (map (row_key is) (rb_rows b)). length k = length is" by (auto simp: row_key_def)
  ultimately obtain indices where sort: "ab_lexsort backend (map (row_key is) (rb_rows b)) = Inr indices"
    and perm: "mset indices = mset [0..<num_rows b]"
    and sorted: "sorted_wrt (key_le le) (map (\<lambda>i. map (row_key is) (rb_rows b) ! i) indices)"
    using sorts unfolding lexsort_sorts_def by fastforce
  have "\<forall>i \<in> set indices. i < num_rows b" using mset_eq_setD [OF perm] by simp
  then have "map (\<lambda>i. map (row_key is) (rb_rows b) ! i) indices = map (row_key is) (rb_rows (take_rows b indices))"
    by (simp add: take_rows_def)
  note sorted_rows = sorted [unfolded this]
  have "sort_by_columns backend b names = Inr (take_rows b indices)" using cols sort by (simp add: sort_by_columns_def)
  moreover have "rb_fields (take_rows b indices) = rb_fields b" by (simp add: take_rows_def)
  ultimately show ?thesis using sorted_rows take_rows_sorted [OF perm] by blast
qed

lemma canonical_names_found:
  assumes "\<forall>name \<in> set (tc_sort_key c). name \<in> col_name ` set (tc_columns c)"
  shows "\<exists>is. sort_columns_of (build_arrow_schema c) (canonical_names c) = Inr is"
proof -
  have "\<exists>is. sort_columns_of schema names = Inr is" if "set names \<subseteq> set (map fld_name schema)" for schema names
    using that
  proof (induction names)
    case (Cons name names)
    have "field_index schema name \<noteq> None" if "name \<in> set (map fld_name schema)" for name
      using that by (induction schema) auto
    then obtain i where "field_index schema name = Some i" using Cons.prems by auto
    moreover obtain js where "sort_columns_of schema names = Inr js" using Cons by auto
    ultimately show ?case by simp
  qed simp
  moreover have "set (canonical_names c) \<subseteq> set (map fld_name (build_arrow_schema c))"
    unfolding schema_names canonical_names_def using assms by auto
  ultimately show ?thesis by blast
qed

lemma sort_canonical_unique:
  assumes sorts: "lexsort_sorts backend le" and names: "names_distinct c"
    and keys: "\<forall>name \<in> set (tc_sort_key c). name \<in> col_name ` set (tc_columns c)"
    and schema: "rb_fields a = build_arrow_schema c" "rb_fields b = build_arrow_schema c"
    and ok: "batch_ok a" "batch_ok b" and rows: "mset (rb_rows a) = mset (rb_rows b)"
  shows "\<exists>sorted. sort_canonical backend a c = Inr sorted \<and> sort_canonical backend b c = Inr sorted"
proof (cases "tc_columns c = [] \<or> num_rows a \<le> 1")
  case True
  have len: "num_rows b = num_rows a" using rows by (metis size_mset)
  have "rb_rows a = rb_rows b"
  proof (cases "tc_columns c = []")
    case True
    then have "\<forall>row \<in> set (rb_rows x). row = []" if "x = a \<or> x = b" for x
      using that ok schema by (auto simp: batch_ok_def build_arrow_schema_def)
    then have "rb_rows a = replicate (num_rows a) []" and "rb_rows b = replicate (num_rows b) []"
      by (metis replicate_length_same)+
    then show ?thesis using len by simp
  next
    case False
    then show ?thesis using \<open>tc_columns c = [] \<or> num_rows a \<le> 1\<close> rows len
      by (cases "rb_rows a"; cases "rb_rows b") auto
  qed
  then have "a = b" using schema by (cases a; cases b) simp
  then show ?thesis using True by (auto simp: sort_canonical_def)
next
  case False
  have len: "num_rows b = num_rows a" using rows by (metis size_mset)
  obtain "is" where cols: "sort_columns_of (build_arrow_schema c) (canonical_names c) = Inr is"
    using canonical_names_found [OF keys] by blast
  have nonempty: "canonical_names c \<noteq> []" using False by (cases "tc_columns c") (auto simp: canonical_names_def filter_empty_conv)
  obtain sa where sa: "sort_by_columns backend a (canonical_names c) = Inr sa" "rb_fields sa = rb_fields a"
    "mset (rb_rows sa) = mset (rb_rows a)" "sorted_wrt (key_le le) (map (row_key is) (rb_rows sa))"
    using sort_by_columns_Inr [OF sorts _ nonempty] cols schema by metis
  obtain sb where sb: "sort_by_columns backend b (canonical_names c) = Inr sb" "rb_fields sb = rb_fields b"
    "mset (rb_rows sb) = mset (rb_rows b)" "sorted_wrt (key_le le) (map (row_key is) (rb_rows sb))"
    using sort_by_columns_Inr [OF sorts _ nonempty] cols schema by metis
  have order: "cell_order le" using sorts by (simp add: lexsort_sorts_def)
  have keys_eq: "map (row_key is) (rb_rows sa) = map (row_key is) (rb_rows sb)"
    using ascending_unique [OF order sa(4) sb(4)] sa(3) sb(3) rows by simp
  have "rb_rows sa = rb_rows sb"
  proof (rule map_inj_on [OF keys_eq])
    have "set (rb_rows sa) = set (rb_rows a)" "set (rb_rows sb) = set (rb_rows b)"
      using mset_eq_setD sa(3) sb(3) by blast+
    then show "inj_on (row_key is) (set (rb_rows sa) \<union> set (rb_rows sb))"
      using ok schema row_key_inj canonical_columns(1) [OF names cols] unfolding batch_ok_def inj_on_def by (metis Un_iff)
  qed
  then have "sa = sb" using sa(2) sb(2) schema by (cases sa; cases sb) simp
  then show ?thesis using sa(1) sb(1) False len by (simp add: sort_canonical_def)
qed

subsection \<open>What the scan of the batches depends on\<close>

definition all_rows :: "record_batch list \<Rightarrow> cell list list" where
  "all_rows batches = concat (map rb_rows batches)"

definition cells_ok :: "nat \<Rightarrow> cell list list \<Rightarrow> bool" where
  "cells_ok i rows \<longleftrightarrow> (\<forall>row \<in> set rows. row ! i \<noteq> CNull
     \<and> length (cell_list (row ! i)) \<le> MAX_LIST_I32_VALUES_PER_ROW \<and> None \<notin> set (cell_list (row ! i)))"

definition cells_total :: "nat \<Rightarrow> cell list list \<Rightarrow> nat" where
  "cells_total i rows = sum_list (map (\<lambda>row. length (cell_list (row ! i))) rows)"

lemma cells_append: "cells_ok i (xs @ ys) \<longleftrightarrow> cells_ok i xs \<and> cells_ok i ys" "cells_total i (xs @ ys) = cells_total i xs + cells_total i ys"
  by (auto simp: cells_ok_def cells_total_def)

lemma cells_mset: "mset xs = mset ys \<Longrightarrow> cells_ok i xs = cells_ok i ys \<and> cells_total i xs = cells_total i ys"
proof -
  assume rows: "mset xs = mset ys"
  have "sum_mset (image_mset f (mset xs)) = sum_mset (image_mset f (mset ys))" for f :: "cell list \<Rightarrow> nat"
    using rows by simp
  then have "sum_list (map f xs) = sum_list (map f ys)" for f :: "cell list \<Rightarrow> nat"
    by (simp only: sum_mset_sum_list [symmetric] mset_map)
  then show ?thesis using mset_eq_setD [OF rows] by (simp add: cells_ok_def cells_total_def)
qed

lemma list_column_total_Inr:
  assumes "tally \<le> MAX_LIST_I32_VALUES_PER_SECTION"
  shows "list_column_total name DInt32 cells tally = Inr t \<longleftrightarrow>
     (\<forall>c \<in> set cells. length (cell_list c) \<le> MAX_LIST_I32_VALUES_PER_ROW \<and> None \<notin> set (cell_list c))
     \<and> t = tally + sum_list (map (\<lambda>c. length (cell_list c)) cells) \<and> t \<le> MAX_LIST_I32_VALUES_PER_SECTION"
  using assms
proof (induction cells arbitrary: tally)
  case (Cons c cells)
  define len where "len = length (cell_list c)"
  show ?case
  proof (cases "len \<le> MAX_LIST_I32_VALUES_PER_ROW \<and> tally + len \<le> MAX_LIST_I32_VALUES_PER_SECTION \<and> None \<notin> set (cell_list c)")
    case True
    then have "usize_checked_add tally len = Some (tally + len)"
      by (simp add: usize_checked_add_def section_bounds)
    then show ?thesis using True Cons by (auto simp: Let_def len_def)
  next
    case False
    then have "list_column_total name DInt32 (c # cells) tally \<noteq> Inr t"
      by (auto simp: Let_def len_def usize_checked_add_def split: option.splits)
    then show ?thesis using False by (auto simp: len_def)
  qed
qed auto

lemma list_column_field:
  assumes "names_distinct c" and "name \<in> set (list_columns c)"
  obtains i where "field_index (build_arrow_schema c) name = Some i" and "i < length (tc_columns c)"
    and "fld_data_type (build_arrow_schema c ! i) = DList ''item'' DInt32 False"
proof -
  obtain x where x: "x \<in> set (tc_columns c)" "col_ty x = TyListI32" "col_name x = name"
    using assms(2) by (auto simp: list_columns_def)
  then obtain i where i: "i < length (tc_columns c)" "tc_columns c ! i = x" by (metis in_set_conv_nth)
  have "distinct (map fld_name (build_arrow_schema c))" using assms(1) by (simp add: schema_names names_distinct_def)
  then have "field_index (build_arrow_schema c) (fld_name (build_arrow_schema c ! i)) = Some i"
    using i by (intro field_index_nth) (simp_all add: build_arrow_schema_def)
  then show ?thesis using that i x by (simp add: build_arrow_schema_def)
qed

definition list_index :: "type_contract \<Rightarrow> string \<Rightarrow> nat" where
  "list_index c name = the (field_index (build_arrow_schema c) name)"

lemma validate_list_Inr:
  assumes "names_distinct c" and "name \<in> set (list_columns c)" and "rb_fields b = build_arrow_schema c"
  shows "validate_list_i32_batch b name = Inr v \<longleftrightarrow> cells_ok (list_index c name) (rb_rows b)
     \<and> v = cells_total (list_index c name) (rb_rows b) \<and> v \<le> MAX_LIST_I32_VALUES_PER_SECTION"
proof -
  obtain i where i: "field_index (build_arrow_schema c) name = Some i"
    "fld_data_type (build_arrow_schema c ! i) = DList ''item'' DInt32 False"
    using list_column_field [OF assms(1,2)] by metis
  have "validate_list_i32_batch b name =
      (if CNull \<in> set (column_cells b i) then Inl (NullInRequiredColumn name)
       else list_column_total name DInt32 (column_cells b i) 0)"
    by (simp add: validate_list_i32_batch_def assms(3) i)
  moreover have "cells_ok i (rb_rows b) \<longleftrightarrow> CNull \<notin> set (column_cells b i) \<and> (\<forall>c \<in> set (column_cells b i).
      length (cell_list c) \<le> MAX_LIST_I32_VALUES_PER_ROW \<and> None \<notin> set (cell_list c))"
    unfolding cells_ok_def column_cells_def by force
  moreover have "sum_list (map (\<lambda>c. length (cell_list c)) (column_cells b i)) = cells_total i (rb_rows b)"
    by (simp add: column_cells_def cells_total_def comp_def)
  ultimately show ?thesis
    using list_column_total_Inr [of 0 name "column_cells b i" v] i(1)
    by (simp add: list_index_def)
qed

definition counts_ok :: "type_contract \<Rightarrow> (string \<times> nat) list \<Rightarrow> bool" where
  "counts_ok c counts \<longleftrightarrow> (\<forall>(name, t) \<in> set counts. name \<in> set (list_columns c) \<and> t \<le> MAX_LIST_I32_VALUES_PER_SECTION)"

definition counts_fit :: "type_contract \<Rightarrow> cell list list \<Rightarrow> (string \<times> nat) list \<Rightarrow> bool" where
  "counts_fit c rows counts \<longleftrightarrow> (\<forall>(name, t) \<in> set counts. cells_ok (list_index c name) rows
     \<and> t + cells_total (list_index c name) rows \<le> MAX_LIST_I32_VALUES_PER_SECTION)"

definition add_counts :: "type_contract \<Rightarrow> cell list list \<Rightarrow> (string \<times> nat) list \<Rightarrow> (string \<times> nat) list" where
  "add_counts c rows counts = map (\<lambda>(name, t). (name, t + cells_total (list_index c name) rows)) counts"

lemma add_list_values_Inr:
  assumes "names_distinct c" and "rb_fields b = build_arrow_schema c" and "counts_ok c counts"
  shows "add_list_values b counts = Inr counts' \<longleftrightarrow>
     counts_fit c (rb_rows b) counts \<and> counts' = add_counts c (rb_rows b) counts"
  using assms(3)
proof (induction counts arbitrary: counts')
  case Nil
  then show ?case by (auto simp: counts_fit_def add_counts_def)
next
  case (Cons p counts)
  obtain name t where p: "p = (name, t)" by (cases p)
  have mem: "name \<in> set (list_columns c)" and rest: "counts_ok c counts"
    using Cons.prems by (auto simp: p counts_ok_def)
  let ?total = "cells_total (list_index c name) (rb_rows b)"
  show ?case
  proof (cases "cells_ok (list_index c name) (rb_rows b) \<and> t + ?total \<le> MAX_LIST_I32_VALUES_PER_SECTION")
    case True
    then have "validate_list_i32_batch b name = Inr ?total"
      using validate_list_Inr [OF assms(1) mem assms(2)] by simp
    moreover have "usize_checked_add t ?total = Some (t + ?total)"
      using True by (simp add: usize_checked_add_def section_bounds)
    ultimately have step: "add_list_values b (p # counts) =
        (case add_list_values b counts of Inl e \<Rightarrow> Inl e | Inr counts \<Rightarrow> Inr ((name, t + ?total) # counts))"
      using True by (simp add: p)
    show ?thesis
    proof (cases "counts_fit c (rb_rows b) counts")
      case fit: True
      then have "add_list_values b counts = Inr (add_counts c (rb_rows b) counts)" using Cons.IH [OF rest] by blast
      then show ?thesis using step True fit by (auto simp: p counts_fit_def add_counts_def)
    next
      case unfit: False
      then obtain e where "add_list_values b counts = Inl e"
        using Cons.IH [OF rest] by (cases "add_list_values b counts") auto
      then show ?thesis using step unfit by (auto simp: p counts_fit_def)
    qed
  next
    case False
    have "add_list_values b (p # counts) \<noteq> Inr counts'"
    proof (cases "validate_list_i32_batch b name")
      case (Inr v)
      then have "v = ?total" and "MAX_LIST_I32_VALUES_PER_SECTION < t + v"
        using validate_list_Inr [OF assms(1) mem assms(2), of v] False by auto
      then show ?thesis using Inr by (simp add: p usize_checked_add_def)
    qed (simp add: p)
    then show ?thesis using False by (auto simp: p counts_fit_def)
  qed
qed

lemma counts_fit_append:
  "counts_fit c (xs @ ys) counts \<longleftrightarrow> counts_fit c xs counts \<and> counts_fit c ys (add_counts c xs counts)"
  by (fastforce simp: counts_fit_def add_counts_def cells_append add.assoc)

lemma add_counts_append: "add_counts c (xs @ ys) counts = add_counts c ys (add_counts c xs counts)"
  by (auto simp: add_counts_def cells_append add.assoc)

lemma counts_ok_add: "counts_ok c counts \<Longrightarrow> counts_fit c rows counts \<Longrightarrow> counts_ok c (add_counts c rows counts)"
  by (fastforce simp: counts_ok_def counts_fit_def add_counts_def)

lemma sealed_batches_scan_Inr:
  assumes "names_distinct c" and "counts_ok c counts" and "rows \<le> MAX_SECTION_ROWS"
  shows "sealed_batches_scan c batches rows counts = Inr (rows', counts') \<longleftrightarrow>
     (\<forall>b \<in> set batches. rb_fields b = build_arrow_schema c)
     \<and> rows' = rows + length (all_rows batches) \<and> rows' \<le> MAX_SECTION_ROWS
     \<and> counts_fit c (all_rows batches) counts \<and> counts' = add_counts c (all_rows batches) counts"
  using assms(2,3)
proof (induction batches arbitrary: rows counts)
  case Nil
  then show ?case
    by (auto simp: all_rows_def counts_fit_def add_counts_def counts_ok_def cells_ok_def cells_total_def case_prod_beta)
next
  case (Cons b batches)
  show ?case
  proof (cases "rb_fields b = build_arrow_schema c \<and> rows + num_rows b \<le> MAX_SECTION_ROWS \<and> counts_fit c (rb_rows b) counts")
    case True
    then have "add_list_values b counts = Inr (add_counts c (rb_rows b) counts)"
      using add_list_values_Inr [OF assms(1) _ Cons.prems(1), of b] by blast
    then have "sealed_batches_scan c (b # batches) rows counts =
        sealed_batches_scan c batches (rows + num_rows b) (add_counts c (rb_rows b) counts)"
      using True by (simp add: schema_matches_iff usize_checked_add_def check_row_cap_def section_bounds)
    then show ?thesis
      using Cons.IH [OF counts_ok_add [OF Cons.prems(1)], of "rb_rows b" "rows + num_rows b"] True
      by (auto simp: all_rows_def counts_fit_append add_counts_append)
  next
    case False
    have "sealed_batches_scan c (b # batches) rows counts \<noteq> Inr (rows', counts')"
    proof (cases "rb_fields b = build_arrow_schema c \<and> rows + num_rows b \<le> MAX_SECTION_ROWS")
      case fine: True
      then have "\<not> counts_fit c (rb_rows b) counts" using False by blast
      then obtain e where "add_list_values b counts = Inl e"
        using add_list_values_Inr [OF assms(1) _ Cons.prems(1), of b] fine by (cases "add_list_values b counts") auto
      then show ?thesis
        using fine by (simp add: schema_matches_iff usize_checked_add_def check_row_cap_def section_bounds)
    next
      case bad: False
      then show ?thesis
        by (auto simp: schema_matches_iff usize_checked_add_def check_row_cap_def)
    qed
    then show ?thesis using False by (auto simp: all_rows_def counts_fit_append)
  qed
qed

subsection \<open>The sealed encoding\<close>

lemma counts_mset:
  assumes "mset xs = mset ys"
  shows "counts_fit c xs counts = counts_fit c ys counts" and "add_counts c xs counts = add_counts c ys counts"
  using cells_mset [OF assms] by (simp_all add: counts_fit_def add_counts_def)

lemma merge_batches_rows:
  assumes "\<forall>b \<in> set batches. rb_fields b = build_arrow_schema c"
  shows "rb_fields (merge_batches c batches) = build_arrow_schema c" and "rb_rows (merge_batches c batches) = all_rows batches"
  using assms by (cases batches; cases "tl batches"; simp add: merge_batches_def concat_batches_def all_rows_def)+

lemma merge_batches_ok:
  assumes "\<forall>b \<in> set batches. rb_fields b = build_arrow_schema c" and "\<forall>b \<in> set batches. batch_ok b"
  shows "batch_ok (merge_batches c batches)"
proof -
  have "length row = length (build_arrow_schema c)" if row: "row \<in> set (all_rows batches)" for row
  proof -
    obtain b where "b \<in> set batches" "row \<in> set (rb_rows b)" using row by (auto simp: all_rows_def)
    then show ?thesis using assms unfolding batch_ok_def by metis
  qed
  then show ?thesis by (simp add: batch_ok_def merge_batches_rows [OF assms(1)])
qed

lemma list_columns_counts_ok: "counts_ok c (map (\<lambda>name. (name, 0)) (list_columns c))"
  by (auto simp: counts_ok_def)

text \<open>
  C38. In a registry that passes the linter the sealed body of a section depends only on the rows: whatever the
  batches, their number and their order, batches with the same rows encode to the same bytes.
\<close>

theorem sealed_encoding_canonical:
  assumes sorts: "lexsort_sorts backend le"
    and lint: "lint_registry registry = Inr ()" "\<forall>c \<in> set registry. names_distinct c"
    and body: "encode_sealed_batches backend registry type_id batches = Inr body"
    and schema: "\<And>c b. contract_of registry type_id = Some c \<Longrightarrow> b \<in> set batches' \<Longrightarrow> rb_fields b = build_arrow_schema c"
    and ok: "\<forall>b \<in> set (batches @ batches'). batch_ok b"
    and rows: "mset (all_rows batches) = mset (all_rows batches')"
  shows "encode_sealed_batches backend registry type_id batches' = Inr body"
proof -
  obtain c where c: "contract_of registry type_id = Some c"
    using body by (auto simp: encode_sealed_batches_def split: option.splits)
  then have mem: "c \<in> set registry" using contract_of_Some by blast
  have names: "names_distinct c" using lint(2) mem by blast
  have "registry_ok registry" using lint registry_clean_iff by blast
  then have keys: "\<forall>name \<in> set (tc_sort_key c). name \<in> col_name ` set (tc_columns c)"
    using mem unfolding registry_ok_def contract_ok_def by blast
  let ?counts = "map (\<lambda>name. (name, 0)) (list_columns c)"
  obtain n counts where scan: "sealed_batches_scan c batches 0 ?counts = Inr (n, counts)"
    using body c by (auto simp: encode_sealed_batches_def split: sum.splits)
  note first = scan [unfolded sealed_batches_scan_Inr [OF names list_columns_counts_ok le0]]
  have fields: "\<forall>b \<in> set batches'. rb_fields b = build_arrow_schema c" using schema [OF c] by blast
  have "length (all_rows batches') = length (all_rows batches)" using rows by (metis size_mset)
  then have scan': "sealed_batches_scan c batches' 0 ?counts = Inr (n, counts)"
    using first fields counts_mset [OF rows] unfolding sealed_batches_scan_Inr [OF names list_columns_counts_ok le0] by simp
  have fields0: "\<forall>b \<in> set batches. rb_fields b = build_arrow_schema c" using first by blast
  have merged: "batch_ok (merge_batches c batches)" "batch_ok (merge_batches c batches')"
    using merge_batches_ok [OF fields0] merge_batches_ok [OF fields] ok by auto
  obtain sorted where "sort_canonical backend (merge_batches c batches) c = Inr sorted"
    "sort_canonical backend (merge_batches c batches') c = Inr sorted"
    using sort_canonical_unique [OF sorts names keys _ _ merged] merge_batches_rows [OF fields0]
      merge_batches_rows [OF fields] rows by auto
  then show ?thesis using body by (auto simp: encode_sealed_batches_def c scan scan' split: sum.splits)
qed

subsection \<open>An order on cells\<close>

definition item_code :: "int option \<Rightarrow> int list" where
  "item_code x = (case x of None \<Rightarrow> [0, 0] | Some i \<Rightarrow> [1, i])"

fun cell_code :: "cell \<Rightarrow> int list" where
  "cell_code CNull = [0]"
| "cell_code (CInt i) = [1, i]"
| "cell_code (CFloat w) = [2, uint w]"
| "cell_code (CBool b) = [3, of_bool b]"
| "cell_code (CBytes bs) = 4 # map uint bs"
| "cell_code (CList xs) = 5 # concat (map item_code xs)"

lemma item_codes_inject: "concat (map item_code xs) = concat (map item_code ys) \<Longrightarrow> xs = ys"
proof (induction xs arbitrary: ys)
  case Nil
  then show ?case by (cases ys) (auto simp: item_code_def split: option.splits)
next
  case (Cons x xs)
  then obtain y zs where ys: "ys = y # zs" by (cases ys) (auto simp: item_code_def split: option.splits)
  then show ?case using Cons by (auto simp: item_code_def split: option.splits)
qed

lemma cell_code_inject: "cell_code a = cell_code b \<Longrightarrow> a = b"
  by (cases a; cases b) (auto simp: item_codes_inject word_uint_eq_iff inj_map_eq_map [OF injI])

instantiation cell :: linorder
begin

definition less_eq_cell :: "cell \<Rightarrow> cell \<Rightarrow> bool" where
  "less_eq_cell a b \<longleftrightarrow> cell_code a \<le> cell_code b"

definition less_cell :: "cell \<Rightarrow> cell \<Rightarrow> bool" where
  "less_cell a b \<longleftrightarrow> cell_code a < cell_code b"

instance
  by standard (auto simp: less_eq_cell_def less_cell_def dest: cell_code_inject)

end

lemma cell_order_le: "cell_order (\<le>)"
  by (auto simp: cell_order_def)

lemma key_le_lex: "length xs = length ys \<Longrightarrow> key_le (\<le>) xs ys \<longleftrightarrow> xs \<le> ys"
  by (induction xs ys rule: list_induct2) auto

definition sample_lexsort :: "cell list list \<Rightarrow> string + nat list" where
  "sample_lexsort keys = Inr (sort_key (\<lambda>i. keys ! i) [0..<length keys])"

lemma sample_lexsort_sorts: "ab_lexsort backend = sample_lexsort \<Longrightarrow> lexsort_sorts backend (\<le>)"
proof -
  assume backend: "ab_lexsort backend = sample_lexsort"
  have "sorted_wrt (key_le (\<le>)) (map (\<lambda>i. keys ! i) (sort_key (\<lambda>i. keys ! i) [0..<length keys]))"
    if len: "\<forall>k \<in> set keys. length k = n" for keys :: "cell list list" and n
  proof -
    have "sorted (map (\<lambda>i. keys ! i) (sort_key (\<lambda>i. keys ! i) [0..<length keys]))" by simp
    then show ?thesis
      by (rule sorted_wrt_mono_rel [rotated]) (use len in \<open>auto simp: key_le_lex\<close>)
  qed
  then show ?thesis by (auto simp: lexsort_sorts_def cell_order_le backend sample_lexsort_def)
qed

text \<open>A writer that writes the numbers of the first two columns, and two arrangements of the same rows.\<close>

definition sample_backend :: arrow_backend where
  "sample_backend = \<lparr>ab_parsers = sample_parsers, ab_open = \<lambda>_. Inl ''unused'',
     ab_write = \<lambda>_ b. Inr (map (\<lambda>row. case row of [CInt x, CInt y] \<Rightarrow> of_int (16 * x + y) | _ \<Rightarrow> 0) (rb_rows b)),
     ab_lexsort = sample_lexsort\<rparr>"

definition sample_batch :: "(int \<times> int) list \<Rightarrow> record_batch" where
  "sample_batch rows = \<lparr>rb_fields = build_arrow_schema (sample_contract 1006001 []),
     rb_rows = map (\<lambda>(x, y). [CInt x, CInt y]) rows\<rparr>"

lemma body_bound_exact_witness: "\<exists>b. sealed_data_body_bound sample_registry 1006001 3 0 = Inr b"
proof -
  have contract: "contract_of sample_registry 1006001 = Some (sample_contract 1006001 [])"
    by (simp add: contract_of_def sample_registry_def sample_contract_def)
  have none: "list_columns (sample_contract 1006001 []) = []"
    by (simp add: list_columns_def sample_contract_def ts_column_def)
  show ?thesis
    unfolding body_bound_exact contract
    by (simp add: none section_bounds sealed_bounds column_load_def plain_column_size_new_def plain_body_def
        page_bound_def zstd_bound_def sample_contract_def ts_column_def)
qed

lemma sealed_encoding_canonical_witness:
  "encode_sealed_batches sample_backend sample_registry 1006001 [sample_batch [(2, 7)], sample_batch [(1, 5), (1, 3)]]
   = Inr [19, 21, 39]"
proof -
  note data = sample_registry_def sample_contract_def ts_column_def sample_gate_def
  have contract: "contract_of sample_registry 1006001 = Some (sample_contract 1006001 [])"
    by (simp add: contract_of_def sample_registry_def sample_contract_def)
  let ?c = "sample_contract 1006001 []" and ?b = "sample_batch [(1, 3), (1, 5), (2, 7)]"
  have none: "list_columns ?c = []" by (simp add: list_columns_def data)
  have names: "canonical_names ?c = [''ts'', ''bytes'']" by (simp add: canonical_names_def data)
  have scan: "sealed_batches_scan ?c [?b] 0 [] = Inr (3, [])"
    by (simp add: schema_matches_iff sample_batch_def usize_checked_add_def check_row_cap_def section_bounds)
  have bound: "\<exists>n. sealed_data_body_bound sample_registry 1006001 3 0 = Inr n"
    unfolding body_bound_iff contract
    by (simp add: none section_bounds sealed_bounds column_load_def plain_column_size_new_def plain_body_def
        page_bound_def zstd_bound_def sample_contract_def ts_column_def)
  have "sort_key (\<lambda>i. [[CInt 1, CInt 3], [CInt 1, CInt 5], [CInt 2, CInt 7]] ! i) [0..<3] = [0, 1, 2]"
    by (simp add: upt_rec sort_key_def insort_key.simps less_eq_cell_def less_cell_def)
  then have "sort_by_columns sample_backend ?b [''ts'', ''bytes''] = Inr ?b"
    by (simp add: sort_by_columns_def sample_batch_def build_arrow_schema_def sample_backend_def sample_lexsort_def
        row_key_def take_rows_def less_eq_cell_def less_cell_def data)
  then have sorted: "sort_canonical sample_backend ?b ?c = Inr ?b"
    using names by (simp add: sort_canonical_def)
  have wrote: "ab_write sample_backend SealedProfile ?b = Inr [19, 21, 39]"
    by (simp add: sample_backend_def sample_batch_def)
  have one: "encode_sealed_batches sample_backend sample_registry 1006001 [?b] = Inr [19, 21, 39]"
    using bound by (auto simp: encode_sealed_batches_def contract none scan merge_batches_def sorted wrote cap_body_def section_bounds
        simp del: sealed_batches_scan.simps)
  show ?thesis
  proof (rule sealed_encoding_canonical [OF sample_lexsort_sorts lint_sample names_sample one])
    show "ab_lexsort sample_backend = sample_lexsort" by (simp add: sample_backend_def)
    fix c b assume "contract_of sample_registry 1006001 = Some c"
      and "b \<in> set [sample_batch [(2, 7)], sample_batch [(1, 5), (1, 3)]]"
    then show "rb_fields b = build_arrow_schema c" by (auto simp: contract sample_batch_def)
  qed (auto simp: sample_batch_def batch_ok_def build_arrow_schema_def all_rows_def sample_contract_def)
qed

end
