(* ===== verification/Dict_Codec.thy ===== *)
theory Dict_Codec
  imports Section_Codec Dictionary Catalog
begin

text \<open>
  The dictionary sections (\<open>crates/kronika-writer/src/dict.rs\<close>): the bounds of a sealed dictionary body,
  the check of the dictionary limits at configuration, and the encoding of a window's or a segment's
  entries into the sections \<open>dict.strings\<close> and \<open>dict.blobs\<close>.

  The arrays are built from values of the right type and equal number, so Arrow's checks of the
  batch cannot fail and have no branch here.
\<close>

section \<open>Bounds\<close>

record dict_section =
  dx_type_id :: u32
  dx_rows :: nat
  dx_body :: "u8 list"

definition check_dict_rows :: "nat \<Rightarrow> codec_error + unit" where
  "check_dict_rows rows = (if MAX_SECTION_ROWS < rows then Inl (TooManyRows rows MAX_SECTION_ROWS) else Inr ())"

definition dict_page_too_large :: "string \<Rightarrow> codec_error" where
  "dict_page_too_large name = PlainPageTooLarge name (usize_limit - 1) (SEALED_DATA_PAGE_BYTES - 1)"

definition sealed_dictionary_body_bound :: "placement \<Rightarrow> nat \<Rightarrow> nat \<Rightarrow> nat \<Rightarrow> codec_error + nat" where
  "sealed_dictionary_body_bound placement rows stored_bytes truncated_rows =
     (case check_dict_rows rows of Inl e \<Rightarrow> Inl e | Inr _ \<Rightarrow>
      if truncated_rows > rows \<or> (placement = PStrings \<and> truncated_rows \<noteq> 0) then Inl SchemaMismatch
      else case usize_checked_mul rows 8 of None \<Rightarrow> Inl (dict_page_too_large ''str_id'') | Some ids \<Rightarrow>
      case Option.bind (usize_checked_mul rows 4) (\<lambda>offsets. usize_checked_add offsets stored_bytes) of
        None \<Rightarrow> Inl (dict_page_too_large ''stored_bytes'') | Some binary \<Rightarrow>
      let columns = [plain_column_size_new ''str_id'' ids 0,
                     plain_column_size_new (if placement = PStrings then ''bytes'' else ''stored_bytes'') binary 0] in
      if placement = PBlobs then
        case usize_checked_mul rows 8 of None \<Rightarrow> Inl (dict_page_too_large ''full_len'') | Some full_len \<Rightarrow>
        case usize_checked_mul truncated_rows 32 of None \<Rightarrow> Inl (dict_page_too_large ''full_sha256'') | Some sha \<Rightarrow>
        case Option.bind (usize_checked_mul rows 2) (\<lambda>bytes. usize_checked_add bytes 8) of
          None \<Rightarrow> Inl (SectionTooLarge (usize_limit - 1) MAX_SECTION_BYTES) | Some sha_levels \<Rightarrow>
        sealed_plain_body_bound (columns @ [plain_column_size_new ''full_len'' full_len 0,
          plain_column_size_new ''truncated'' rows 0, plain_column_size_new ''full_sha256'' sha sha_levels])
      else sealed_plain_body_bound columns)"

definition validate_dict_limits_for_seal :: "dict_limits \<Rightarrow> codec_error + unit" where
  "validate_dict_limits_for_seal limits =
     (case sealed_dictionary_body_bound PStrings 1 (dl_truncate_limit limits) 0 of Inl e \<Rightarrow> Inl e | Inr _ \<Rightarrow>
      case sealed_dictionary_body_bound PBlobs 1 (dl_truncate_limit limits) 1 of Inl e \<Rightarrow> Inl e | Inr _ \<Rightarrow> Inr ())"

section \<open>Encoding\<close>

text \<open>Row numbers fit a \<open>u32\<close>: the batch was capped before.\<close>

definition dict_section_of ::
  "arrow_backend \<Rightarrow> writer_profile \<Rightarrow> u32 \<Rightarrow> record_batch \<Rightarrow> codec_error + dict_section" where
  "dict_section_of backend properties type_id b =
     (if MAX_SECTION_ROWS < num_rows b then Inl (TooManyRows (num_rows b) MAX_SECTION_ROWS)
      else case ab_write backend properties b of Inl e \<Rightarrow> Inl e | Inr body \<Rightarrow>
      if MAX_SECTION_BYTES < length body then Inl (SectionTooLarge (length body) MAX_SECTION_BYTES)
      else Inr \<lparr>dx_type_id = type_id,
                dx_rows = (if num_rows b < u32_limit then num_rows b else u32_limit - 1), dx_body = body\<rparr>)"

abbreviation plain_field :: "string \<Rightarrow> data_type \<Rightarrow> arrow_field" where
  "plain_field name t \<equiv> \<lparr>fld_name = name, fld_data_type = t, fld_nullable = False\<rparr>"

definition strings_schema :: "arrow_field list" where
  "strings_schema = [plain_field ''str_id'' DUInt64, plain_field ''bytes'' DBinary]"

definition blobs_schema :: "arrow_field list" where
  "blobs_schema = [plain_field ''str_id'' DUInt64, plain_field ''stored_bytes'' DBinary,
     plain_field ''full_len'' DUInt64, plain_field ''truncated'' DBoolean,
     \<lparr>fld_name = ''full_sha256'', fld_data_type = DFixedSizeBinary 32, fld_nullable = True\<rparr>]"

definition string_row :: "entry_snapshot \<Rightarrow> cell list" where
  "string_row e = [CInt (uint (es_str_id e)), CBytes (es_stored_bytes e)]"

definition blob_row :: "entry_snapshot \<Rightarrow> cell list" where
  "blob_row e = [CInt (uint (es_str_id e)), CBytes (es_stored_bytes e), CInt (int (es_full_len e)),
     CBool (es_truncated e), (case es_full_sha256 e of None \<Rightarrow> CNull | Some digest \<Rightarrow> CBytes digest)]"

text \<open>Ids are distinct within a dictionary, so an unstable sort has one result.\<close>

definition encode_strings ::
  "arrow_backend \<Rightarrow> writer_profile \<Rightarrow> entry_snapshot list \<Rightarrow> codec_error + dict_section" where
  "encode_strings backend properties entries =
     (case check_dict_rows (length entries) of Inl e \<Rightarrow> Inl e | Inr _ \<Rightarrow>
      dict_section_of backend properties DICT_STRINGS_TYPE_ID
        \<lparr>rb_fields = strings_schema, rb_rows = map string_row (sort_key es_str_id entries)\<rparr>)"

definition encode_blobs ::
  "arrow_backend \<Rightarrow> writer_profile \<Rightarrow> entry_snapshot list \<Rightarrow> codec_error + dict_section" where
  "encode_blobs backend properties entries =
     (case check_dict_rows (length entries) of Inl e \<Rightarrow> Inl e | Inr _ \<Rightarrow>
      dict_section_of backend properties DICT_BLOBS_TYPE_ID
        \<lparr>rb_fields = blobs_schema, rb_rows = map blob_row (sort_key es_str_id entries)\<rparr>)"

definition is_strings :: "entry_snapshot \<Rightarrow> bool" where
  "is_strings e \<longleftrightarrow> es_placement e = PStrings"

definition encode_entries_with_properties ::
  "arrow_backend \<Rightarrow> writer_profile \<Rightarrow> entry_snapshot list \<Rightarrow> codec_error + dict_section list" where
  "encode_entries_with_properties backend properties entries =
     (let strings = filter is_strings entries; blobs = filter (\<lambda>e. \<not> is_strings e) entries in
      case (if strings = [] then Inr [] else map_sum (\<lambda>e. e) (\<lambda>s. [s]) (encode_strings backend properties strings)) of
        Inl e \<Rightarrow> Inl e | Inr first \<Rightarrow>
      case (if blobs = [] then Inr [] else map_sum (\<lambda>e. e) (\<lambda>s. [s]) (encode_blobs backend properties blobs)) of
        Inl e \<Rightarrow> Inl e | Inr second \<Rightarrow> Inr (first @ second))"

definition encode_dict :: "arrow_backend \<Rightarrow> segment_dicts \<Rightarrow> codec_error + dict_section list" where
  "encode_dict backend d = encode_entries_with_properties backend DictProfile (dict_entries d)"

record dict_load =
  ld_string_rows :: nat
  ld_string_bytes :: nat
  ld_blob_rows :: nat
  ld_blob_bytes :: nat
  ld_truncated :: nat

definition no_load :: dict_load where
  "no_load = \<lparr>ld_string_rows = 0, ld_string_bytes = 0, ld_blob_rows = 0, ld_blob_bytes = 0, ld_truncated = 0\<rparr>"

fun tally_entries :: "entry_snapshot list \<Rightarrow> dict_load \<Rightarrow> codec_error + dict_load" where
  "tally_entries [] load = Inr load"
| "tally_entries (e # es) load =
     (case es_placement e of
        PStrings \<Rightarrow>
          (case usize_checked_add (ld_string_bytes load) (length (es_stored_bytes e)) of
             None \<Rightarrow> Inl (SectionTooLarge (usize_limit - 1) MAX_SECTION_BYTES)
           | Some bytes \<Rightarrow>
               tally_entries es (load\<lparr>ld_string_rows := ld_string_rows load + 1, ld_string_bytes := bytes\<rparr>))
      | PBlobs \<Rightarrow>
          (case usize_checked_add (ld_blob_bytes load) (length (es_stored_bytes e)) of
             None \<Rightarrow> Inl (SectionTooLarge (usize_limit - 1) MAX_SECTION_BYTES)
           | Some bytes \<Rightarrow>
               tally_entries es (load\<lparr>ld_blob_rows := ld_blob_rows load + 1, ld_blob_bytes := bytes,
                 ld_truncated := ld_truncated load + (if es_truncated e then 1 else 0)\<rparr>)))"

definition check_load :: "dict_load \<Rightarrow> codec_error + unit" where
  "check_load load =
     (case (if ld_string_rows load \<noteq> 0
            then map_sum (\<lambda>e. e) (\<lambda>_. ()) (sealed_dictionary_body_bound PStrings (ld_string_rows load) (ld_string_bytes load) 0)
            else Inr ()) of Inl e \<Rightarrow> Inl e | Inr _ \<Rightarrow>
      if ld_blob_rows load \<noteq> 0
      then map_sum (\<lambda>e. e) (\<lambda>_. ())
             (sealed_dictionary_body_bound PBlobs (ld_blob_rows load) (ld_blob_bytes load) (ld_truncated load))
      else Inr ())"

definition encode_sealed_entries :: "arrow_backend \<Rightarrow> entry_snapshot list \<Rightarrow> codec_error + dict_section list" where
  "encode_sealed_entries backend entries =
     (case tally_entries entries no_load of Inl e \<Rightarrow> Inl e | Inr load \<Rightarrow>
      case check_load load of Inl e \<Rightarrow> Inl e | Inr _ \<Rightarrow>
      encode_entries_with_properties backend SealedDictProfile entries)"

section \<open>What the bounds admit\<close>

text \<open>Only the pages limit a dictionary body; eight mebibytes are never reached.\<close>

definition dict_fits :: "placement \<Rightarrow> nat \<Rightarrow> nat \<Rightarrow> nat \<Rightarrow> bool" where
  "dict_fits p rows bytes truncated \<longleftrightarrow> rows \<le> 65536 \<and> truncated \<le> rows \<and> (p = PStrings \<longrightarrow> truncated = 0)
     \<and> 4 * rows + bytes < 1048576 \<and> truncated < 32768"

definition dict_columns :: "placement \<Rightarrow> nat \<Rightarrow> nat \<Rightarrow> nat \<Rightarrow> plain_column_size list" where
  "dict_columns p rows bytes truncated =
     (if p = PStrings
      then [plain_column_size_new ''str_id'' (8 * rows) 0, plain_column_size_new ''bytes'' (4 * rows + bytes) 0]
      else [plain_column_size_new ''str_id'' (8 * rows) 0, plain_column_size_new ''stored_bytes'' (4 * rows + bytes) 0,
        plain_column_size_new ''full_len'' (8 * rows) 0, plain_column_size_new ''truncated'' rows 0,
        plain_column_size_new ''full_sha256'' (32 * truncated) (2 * rows + 8)])"

lemma zstd_bound_small: "n \<le> 1400000 \<Longrightarrow> zstd_bound n \<le> 1500000"
proof -
  assume n: "n \<le> 1400000"
  have "n div 256 \<le> 1400000 div 256" using n by (rule div_le_mono)
  moreover have "(131072 - n) div 2048 \<le> 131072 div 2048" by (rule div_le_mono) simp
  ultimately show ?thesis using n by (simp add: zstd_bound_def)
qed

lemma dict_bound_iff:
  "sealed_dictionary_body_bound p rows bytes truncated = Inr b \<longleftrightarrow>
     dict_fits p rows bytes truncated \<and> b = plain_body (dict_columns p rows bytes truncated)"
proof (cases "rows \<le> 65536 \<and> truncated \<le> rows \<and> (p = PStrings \<longrightarrow> truncated = 0) \<and> 4 * rows + bytes < usize_limit")
  case True
  have run: "sealed_dictionary_body_bound p rows bytes truncated = sealed_plain_body_bound (dict_columns p rows bytes truncated)"
    using True by (cases p) (simp_all add: sealed_dictionary_body_bound_def check_dict_rows_def section_bounds
      usize_checked_mul_def usize_checked_add_def dict_columns_def plain_column_size_new_def mult.commute)
  have small: "plain_body (dict_columns p rows bytes truncated) \<le> MAX_SECTION_BYTES"
    if fits: "dict_fits p rows bytes truncated"
  proof -
    have z: "zstd_bound (8 * rows) \<le> 1500000" "zstd_bound (4 * rows + bytes) \<le> 1500000" "zstd_bound rows \<le> 1500000"
      "zstd_bound (32 * truncated + (2 * rows + 8)) \<le> 1500000"
      using fits by (auto simp: dict_fits_def intro!: zstd_bound_small)
    then show ?thesis
      by (simp add: plain_body_def dict_columns_def plain_column_size_new_def page_bound_def sealed_bounds section_bounds)
  qed
  show ?thesis
    unfolding run sealed_plain_body_bound_Inr using small True
    by (cases p) (auto simp: dict_fits_def dict_columns_def plain_column_size_new_def sealed_bounds)
next
  case False
  then have "\<not> dict_fits p rows bytes truncated" by (auto simp: dict_fits_def)
  moreover have "sealed_dictionary_body_bound p rows bytes truncated \<noteq> Inr b"
    using False by (auto simp: sealed_dictionary_body_bound_def check_dict_rows_def section_bounds
      usize_checked_add_def usize_checked_mul_def bind_eq_Some_conv mult.commute split: option.splits if_splits)
  ultimately show ?thesis by blast
qed

lemma dict_bound_fits: "(\<exists>b. sealed_dictionary_body_bound p rows bytes truncated = Inr b) \<longleftrightarrow> dict_fits p rows bytes truncated"
  by (simp add: dict_bound_iff)

lemma dict_bound_Inl: "\<not> dict_fits p rows bytes truncated \<Longrightarrow> \<exists>e. sealed_dictionary_body_bound p rows bytes truncated = Inl e"
  using dict_bound_fits by (metis sum.exhaust)

end
