(* ===== verification/Map_Union.thy ===== *)
theory Map_Union
  imports Ordered_Map
begin

text \<open>
  Inserting a list of pairs into an ordered map, and the union of pairs that agree on their keys: the
  segment dictionary is built this way by the collector's admission and by sealing.
\<close>

fun insert_all :: "('k::linorder \<times> 'v) list \<Rightarrow> ('k, 'v) btree_map \<Rightarrow> ('k, 'v) btree_map" where
  "insert_all [] m = m"
| "insert_all ((k, v) # rest) m = insert_all rest (om_insert k v m)"

lemma om_get_insert_all: "om_get (insert_all vs m) k = (case map_of (rev vs) k of None \<Rightarrow> om_get m k | Some v \<Rightarrow> Some v)"
  by (induction vs m rule: insert_all.induct) (auto simp: om_get_insert map_add_def split: option.splits)

lemma om_ok_insert_all: "om_ok m \<Longrightarrow> om_ok (insert_all vs m)"
  by (induction vs m rule: insert_all.induct) (simp_all add: om_ok_insert)

lemma insert_all_append: "insert_all (vs @ ws) m = insert_all ws (insert_all vs m)"
  by (induction vs m rule: insert_all.induct) simp_all

lemma om_ext: "om_ok m \<Longrightarrow> om_ok m' \<Longrightarrow> (\<And>k. om_get m k = om_get m' k) \<Longrightarrow> m = m'"
  using bt.entries_ext [of m m'] by simp

definition functional_list :: "('k \<times> 'v) list \<Rightarrow> bool" where
  "functional_list vs \<longleftrightarrow> (\<forall>k v w. (k, v) \<in> set vs \<and> (k, w) \<in> set vs \<longrightarrow> v = w)"

lemma map_of_functional: "functional_list vs \<Longrightarrow> map_of vs k = Some v \<longleftrightarrow> (k, v) \<in> set vs"
  unfolding functional_list_def by (metis map_of_SomeD weak_map_of_SomeI)

definition union_of :: "('k::linorder \<times> 'v) list \<Rightarrow> ('k, 'v) btree_map" where
  "union_of vs = insert_all vs []"

lemma om_ok_union: "om_ok (union_of vs)"
  unfolding union_of_def by (rule om_ok_insert_all) (simp add: om_ok_def)

lemma om_get_union:
  assumes "functional_list vs"
  shows "om_get (union_of vs) k = Some v \<longleftrightarrow> (k, v) \<in> set vs"
proof -
  have "functional_list (rev vs)" using assms by (simp add: functional_list_def)
  then have "map_of (rev vs) k = Some v \<longleftrightarrow> (k, v) \<in> set vs" using map_of_functional by force
  moreover have "om_get (union_of vs) k = map_of (rev vs) k"
    unfolding union_of_def om_get_insert_all by (simp add: om_get_def split: option.splits)
  ultimately show ?thesis by simp
qed

section \<open>Adding one pair\<close>

lemma functional_append: "functional_list (vs @ ws) \<Longrightarrow> functional_list vs"
  unfolding functional_list_def set_append by blast

lemma union_snoc: "union_of (vs @ [(k, v)]) = om_insert k v (union_of vs)"
  by (simp add: union_of_def insert_all_append)

lemma functional_snoc:
  assumes "functional_list vs"
  shows "functional_list (vs @ [(k, v)]) \<longleftrightarrow> om_get (union_of vs) k = None \<or> om_get (union_of vs) k = Some v"
proof -
  have "functional_list (vs @ [(k, v)]) \<longleftrightarrow> (\<forall>u. (k, u) \<in> set vs \<longrightarrow> u = v)"
    using assms unfolding functional_list_def set_append by (simp, blast)
  also have "\<dots> \<longleftrightarrow> (\<forall>u. om_get (union_of vs) k = Some u \<longrightarrow> u = v)"
    using om_get_union [OF assms] by simp
  finally show ?thesis by (cases "om_get (union_of vs) k") auto
qed

lemma om_insert_known: "om_ok m \<Longrightarrow> om_get m k = Some v \<Longrightarrow> om_insert k v m = m"
  by (rule om_ext) (auto simp: om_ok_insert om_get_insert)

text \<open>A sum over the values never shrinks when pairs are added.\<close>

definition total_of :: "('v \<Rightarrow> nat) \<Rightarrow> ('k, 'v) btree_map \<Rightarrow> nat" where
  "total_of f m = sum_list (map (\<lambda>e. f (snd e)) m)"

lemma total_of_insert: "om_get m k = None \<Longrightarrow> total_of f (om_insert k v m) = f v + total_of f m"
  by (simp add: total_of_def sum_om_insert_new)

lemma total_of_Nil [simp]: "total_of f [] = 0"
  by (simp add: total_of_def)

lemma total_of_union_mono:
  "functional_list (vs @ ws) \<Longrightarrow> total_of f (union_of vs) \<le> total_of f (union_of (vs @ ws))"
proof (induction ws rule: rev_induct)
  case (snoc kv ws)
  obtain k v where kv: "kv = (k, v)" by (cases kv)
  have prefix: "functional_list (vs @ ws)" using snoc.prems functional_append [of "vs @ ws" "[kv]"] by simp
  have step: "union_of (vs @ ws @ [kv]) = om_insert k v (union_of (vs @ ws))"
    using union_snoc [of "vs @ ws" k v] by (simp add: kv)
  have "om_get (union_of (vs @ ws)) k = None \<or> om_get (union_of (vs @ ws)) k = Some v"
    using functional_snoc [OF prefix, of k v] snoc.prems by (simp add: kv)
  then have "total_of f (union_of (vs @ ws)) \<le> total_of f (union_of (vs @ ws @ [kv]))"
    unfolding step by (auto simp: total_of_insert om_insert_known [OF om_ok_union])
  then show ?case using snoc.IH [OF prefix] by simp
qed simp

end
