(* ===== verification/Segment_Admission.thy ===== *)
theory Segment_Admission
  imports Dict_Codec Map_Union
begin

text \<open>
  The collector's account of the open segment (\<open>SegmentAdmission\<close> in
  \<open>bins/pg_kronika-collector/src/segments.rs\<close>): before a window is appended to the journal it is
  assessed against what the sealed segment can hold, and the account is advanced once the append
  succeeded.  The main result is that this incremental account is exact: it admits a list of windows
  if and only if their totals fit into one sealed segment.
\<close>

section \<open>Values of the segment dictionary\<close>

datatype admission_value = AString "u8 list" | ABlob "u8 list" nat bool "u8 list option"

definition value_from_snapshot :: "entry_snapshot \<Rightarrow> admission_value" where
  "value_from_snapshot e =
     (case es_placement e of
        PStrings \<Rightarrow> AString (es_stored_bytes e)
      | PBlobs \<Rightarrow> ABlob (es_stored_bytes e) (es_full_len e) (es_truncated e) (es_full_sha256 e))"

fun matches_snapshot :: "admission_value \<Rightarrow> entry_snapshot \<Rightarrow> bool" where
  "matches_snapshot (AString bytes) e \<longleftrightarrow> es_placement e = PStrings \<and> bytes = es_stored_bytes e"
| "matches_snapshot (ABlob bytes full_len truncated sha) e \<longleftrightarrow>
     es_placement e = PBlobs \<and> bytes = es_stored_bytes e \<and> full_len = es_full_len e
     \<and> truncated = es_truncated e \<and> sha = es_full_sha256 e"

fun value_placement :: "admission_value \<Rightarrow> placement" where
  "value_placement (AString _) = PStrings"
| "value_placement (ABlob _ _ _ _) = PBlobs"

fun value_stored_len :: "admission_value \<Rightarrow> nat" where
  "value_stored_len (AString bytes) = length bytes"
| "value_stored_len (ABlob bytes _ _ _) = length bytes"

fun value_truncated :: "admission_value \<Rightarrow> bool" where
  "value_truncated (ABlob _ _ truncated _) = truncated"
| "value_truncated (AString _) = False"

section \<open>Errors and state\<close>

datatype admission_error =
    ACapacity string nat nat
  | ADictionaryConflict u64
  | ADictionaryPlacementConflict u64
  | AArithmeticOverflow string
  | ACodec codec_error

fun is_capacity :: "admission_error \<Rightarrow> bool" where
  "is_capacity (ACapacity _ _ _) = True"
| "is_capacity (ACodec (TooManyRows _ _)) = True"
| "is_capacity (ACodec (TooManyListValues _ _ _)) = True"
| "is_capacity (ACodec (PlainPageTooLarge _ _ _)) = True"
| "is_capacity (ACodec (SectionTooLarge _ _)) = True"
| "is_capacity _ = False"

record data_admission =
  da_rows :: nat
  da_list_values :: nat

definition no_data :: data_admission where
  "no_data = \<lparr>da_rows = 0, da_list_values = 0\<rparr>"

text \<open>The five counters over the dictionary are one \<open>dict_load\<close>.\<close>

record admission_delta =
  dd_data :: "(u32, data_admission) btree_map"
  dd_dictionary :: "(str_id \<times> admission_value) list"
  dd_descriptors :: nat
  dd_load :: dict_load

record segment_admission =
  ad_data :: "(u32, data_admission) btree_map"
  ad_dictionary :: "(str_id, admission_value) btree_map"
  ad_descriptors :: nat
  ad_load :: dict_load

definition admission_default :: segment_admission where
  "admission_default = \<lparr>ad_data = [], ad_dictionary = [], ad_descriptors = 0, ad_load = no_load\<rparr>"

text \<open>What a flushed window tells about its sections.\<close>

record section_flush_summary =
  fs_type_id :: u32
  fs_rows :: nat
  fs_body_bytes :: nat
  fs_list_values :: nat

record flush_summary =
  fl_sections :: "section_flush_summary list"
  fl_part_bytes :: nat

section \<open>Assessment\<close>

definition data_or_default :: "(u32, data_admission) btree_map \<Rightarrow> u32 \<Rightarrow> data_admission" where
  "data_or_default m t = (case om_get m t of None \<Rightarrow> no_data | Some d \<Rightarrow> d)"

definition is_dict_type :: "u32 \<Rightarrow> bool" where
  "is_dict_type t \<longleftrightarrow> t = DICT_STRINGS_TYPE_ID \<or> t = DICT_BLOBS_TYPE_ID"

fun collect_incoming ::
  "section_flush_summary list \<Rightarrow> (u32, data_admission) btree_map \<Rightarrow> admission_error + (u32, data_admission) btree_map" where
  "collect_incoming [] m = Inr m"
| "collect_incoming (s # ss) m =
     (if is_dict_type (fs_type_id s) then collect_incoming ss m
      else let incoming = data_or_default m (fs_type_id s) in
        case usize_checked_add (da_rows incoming) (fs_rows s) of
          None \<Rightarrow> Inl (AArithmeticOverflow ''data rows'') | Some rows \<Rightarrow>
        case usize_checked_add (da_list_values incoming) (fs_list_values s) of
          None \<Rightarrow> Inl (AArithmeticOverflow ''ListI32 child values'') | Some list_values \<Rightarrow>
        collect_incoming ss (om_insert (fs_type_id s) \<lparr>da_rows = rows, da_list_values = list_values\<rparr> m))"

fun check_incoming ::
  "type_contract list \<Rightarrow> (u32, data_admission) btree_map \<Rightarrow> (u32 \<times> data_admission) list \<Rightarrow> admission_error + unit" where
  "check_incoming registry data [] = Inr ()"
| "check_incoming registry data ((type_id, incoming) # rest) =
     (let current = data_or_default data type_id in
      case usize_checked_add (da_rows current) (da_rows incoming) of
        None \<Rightarrow> Inl (AArithmeticOverflow ''data rows'') | Some rows \<Rightarrow>
      case usize_checked_add (da_list_values current) (da_list_values incoming) of
        None \<Rightarrow> Inl (AArithmeticOverflow ''ListI32 child values'') | Some list_values \<Rightarrow>
      case sealed_data_body_bound registry type_id rows list_values of Inl e \<Rightarrow> Inl (ACodec e) | Inr _ \<Rightarrow>
      check_incoming registry data rest)"

definition assess_data ::
  "type_contract list \<Rightarrow> segment_admission \<Rightarrow> flush_summary \<Rightarrow> admission_delta \<Rightarrow> admission_error + admission_delta" where
  "assess_data registry a summary delta =
     (case collect_incoming (fl_sections summary) (dd_data delta) of Inl e \<Rightarrow> Inl e | Inr data \<Rightarrow>
      case check_incoming registry (ad_data a) data of Inl e \<Rightarrow> Inl e | Inr _ \<Rightarrow> Inr (delta\<lparr>dd_data := data\<rparr>))"

definition grow_strings :: "nat \<Rightarrow> dict_load \<Rightarrow> dict_load \<Rightarrow> admission_error + (dict_load \<times> dict_load)" where
  "grow_strings stored_len load delta =
     (case usize_checked_add (ld_string_rows load) 1 of None \<Rightarrow> Inl (AArithmeticOverflow ''dictionary rows'') | Some rows \<Rightarrow>
      case usize_checked_add (ld_string_bytes load) stored_len of
        None \<Rightarrow> Inl (AArithmeticOverflow ''dictionary bytes'') | Some bytes \<Rightarrow>
      case usize_checked_add (ld_string_bytes delta) stored_len of
        None \<Rightarrow> Inl (AArithmeticOverflow ''dictionary bytes'') | Some delta_bytes \<Rightarrow>
      case sealed_dictionary_body_bound PStrings rows bytes 0 of Inl e \<Rightarrow> Inl (ACodec e) | Inr _ \<Rightarrow>
      Inr (load\<lparr>ld_string_rows := rows, ld_string_bytes := bytes\<rparr>,
           delta\<lparr>ld_string_rows := ld_string_rows delta + 1, ld_string_bytes := delta_bytes\<rparr>))"

definition grow_blobs :: "nat \<Rightarrow> bool \<Rightarrow> dict_load \<Rightarrow> dict_load \<Rightarrow> admission_error + (dict_load \<times> dict_load)" where
  "grow_blobs stored_len truncated load delta =
     (case usize_checked_add (ld_blob_rows load) 1 of None \<Rightarrow> Inl (AArithmeticOverflow ''dictionary rows'') | Some rows \<Rightarrow>
      case usize_checked_add (ld_blob_bytes load) stored_len of
        None \<Rightarrow> Inl (AArithmeticOverflow ''dictionary bytes'') | Some bytes \<Rightarrow>
      case (if truncated then usize_checked_add (ld_truncated load) 1 else Some (ld_truncated load)) of
        None \<Rightarrow> Inl (AArithmeticOverflow ''truncated dictionary rows'') | Some truncated_rows \<Rightarrow>
      case usize_checked_add (ld_blob_bytes delta) stored_len of
        None \<Rightarrow> Inl (AArithmeticOverflow ''dictionary bytes'') | Some delta_bytes \<Rightarrow>
      case sealed_dictionary_body_bound PBlobs rows bytes truncated_rows of Inl e \<Rightarrow> Inl (ACodec e) | Inr _ \<Rightarrow>
      Inr (load\<lparr>ld_blob_rows := rows, ld_blob_bytes := bytes, ld_truncated := truncated_rows\<rparr>,
           delta\<lparr>ld_blob_rows := ld_blob_rows delta + 1, ld_blob_bytes := delta_bytes,
             ld_truncated := ld_truncated delta + (if truncated then 1 else 0)\<rparr>))"

text \<open>The loop of \<open>assess_dictionary\<close> over the entries of the window, with the running and the added load.\<close>

fun assess_entries ::
  "(str_id, admission_value) btree_map \<Rightarrow> entry_snapshot list \<Rightarrow> dict_load \<Rightarrow> admission_delta
    \<Rightarrow> admission_error + admission_delta" where
  "assess_entries dictionary [] load delta = Inr delta"
| "assess_entries dictionary (e # es) load delta =
     (case om_get dictionary (es_str_id e) of
        Some existing \<Rightarrow>
          if value_placement existing \<noteq> es_placement e then Inl (ADictionaryPlacementConflict (es_str_id e))
          else if matches_snapshot existing e then assess_entries dictionary es load delta
          else Inl (ADictionaryConflict (es_str_id e))
      | None \<Rightarrow>
          let added = value_from_snapshot e in
          case (case value_placement added of
                  PStrings \<Rightarrow> grow_strings (value_stored_len added) load (dd_load delta)
                | PBlobs \<Rightarrow> grow_blobs (value_stored_len added) (value_truncated added) load (dd_load delta)) of
            Inl err \<Rightarrow> Inl err
          | Inr (load, delta_load) \<Rightarrow>
              assess_entries dictionary es load
                (delta\<lparr>dd_load := delta_load, dd_dictionary := dd_dictionary delta @ [(es_str_id e, added)]\<rparr>))"

definition assess ::
  "type_contract list \<Rightarrow> segment_admission \<Rightarrow> flush_summary \<Rightarrow> segment_dicts \<Rightarrow> admission_error + admission_delta" where
  "assess registry a summary window =
     (let delta = \<lparr>dd_data = [], dd_dictionary = [], dd_descriptors = length (fl_sections summary), dd_load = no_load\<rparr> in
      case usize_checked_add (ad_descriptors a) (dd_descriptors delta) of
        None \<Rightarrow> Inl (AArithmeticOverflow ''section descriptors'') | Some descriptors \<Rightarrow>
      if MAX_SECTION_ROWS < descriptors then Inl (ACapacity ''section descriptors'' descriptors MAX_SECTION_ROWS)
      else case assess_data registry a summary delta of Inl e \<Rightarrow> Inl e | Inr delta \<Rightarrow>
      assess_entries (ad_dictionary a) (dict_entries window) (ad_load a) delta)"

section \<open>Commit\<close>

fun commit_data :: "(u32 \<times> data_admission) list \<Rightarrow> (u32, data_admission) btree_map \<Rightarrow> (u32, data_admission) btree_map" where
  "commit_data [] m = m"
| "commit_data ((type_id, incoming) # rest) m =
     (let data = data_or_default m type_id in
      commit_data rest (om_insert type_id \<lparr>da_rows = saturating_add (da_rows data) (da_rows incoming),
        da_list_values = saturating_add (da_list_values data) (da_list_values incoming)\<rparr> m))"

definition saturating_load :: "dict_load \<Rightarrow> dict_load \<Rightarrow> dict_load" where
  "saturating_load a b =
     \<lparr>ld_string_rows = saturating_add (ld_string_rows a) (ld_string_rows b),
      ld_string_bytes = saturating_add (ld_string_bytes a) (ld_string_bytes b),
      ld_blob_rows = saturating_add (ld_blob_rows a) (ld_blob_rows b),
      ld_blob_bytes = saturating_add (ld_blob_bytes a) (ld_blob_bytes b),
      ld_truncated = saturating_add (ld_truncated a) (ld_truncated b)\<rparr>"

definition commit :: "segment_admission \<Rightarrow> admission_delta \<Rightarrow> segment_admission" where
  "commit a delta =
     \<lparr>ad_data = commit_data (dd_data delta) (ad_data a),
      ad_dictionary = insert_all (dd_dictionary delta) (ad_dictionary a),
      ad_descriptors = saturating_add (ad_descriptors a) (dd_descriptors delta),
      ad_load = saturating_load (ad_load a) (dd_load delta)\<rparr>"

section \<open>Loads\<close>

definition value_load :: "admission_value \<Rightarrow> dict_load" where
  "value_load v = (case v of
     AString bytes \<Rightarrow> no_load\<lparr>ld_string_rows := 1, ld_string_bytes := length bytes\<rparr>
   | ABlob bytes _ truncated _ \<Rightarrow>
       no_load\<lparr>ld_blob_rows := 1, ld_blob_bytes := length bytes, ld_truncated := (if truncated then 1 else 0)\<rparr>)"

definition plus_load :: "dict_load \<Rightarrow> dict_load \<Rightarrow> dict_load" where
  "plus_load a b =
     \<lparr>ld_string_rows = ld_string_rows a + ld_string_rows b, ld_string_bytes = ld_string_bytes a + ld_string_bytes b,
      ld_blob_rows = ld_blob_rows a + ld_blob_rows b, ld_blob_bytes = ld_blob_bytes a + ld_blob_bytes b,
      ld_truncated = ld_truncated a + ld_truncated b\<rparr>"

lemma plus_load_assoc: "plus_load (plus_load a b) c = plus_load a (plus_load b c)"
  by (simp add: plus_load_def)

lemma plus_load_none [simp]: "plus_load a no_load = a" "plus_load no_load a = a"
  by (simp_all add: plus_load_def no_load_def)

lemma plus_load_commute: "plus_load a b = plus_load b a"
  by (simp add: plus_load_def)

lemma plus_load_left_commute: "plus_load a (plus_load b c) = plus_load b (plus_load a c)"
  by (simp add: plus_load_def)

definition load_fits :: "dict_load \<Rightarrow> bool" where
  "load_fits l \<longleftrightarrow> dict_fits PStrings (ld_string_rows l) (ld_string_bytes l) 0
     \<and> dict_fits PBlobs (ld_blob_rows l) (ld_blob_bytes l) (ld_truncated l)"

definition load_le :: "dict_load \<Rightarrow> dict_load \<Rightarrow> bool" where
  "load_le a b \<longleftrightarrow> ld_string_bytes a \<le> ld_string_bytes b \<and> ld_blob_bytes a \<le> ld_blob_bytes b"

text \<open>Loads of values, where truncated values are among the blobs.\<close>

definition load_wf :: "dict_load \<Rightarrow> bool" where
  "load_wf l \<longleftrightarrow> ld_truncated l \<le> ld_blob_rows l"

lemma load_wf_value [simp]: "load_wf (value_load v)"
  by (cases v) (simp_all add: value_load_def load_wf_def no_load_def)

lemma load_wf_plus: "load_wf a \<Longrightarrow> load_wf b \<Longrightarrow> load_wf (plus_load a b)"
  by (simp add: load_wf_def plus_load_def)

lemma load_fits_plus: "load_fits (plus_load a b) \<Longrightarrow> load_wf a \<Longrightarrow> load_fits a"
  by (simp add: load_fits_def plus_load_def dict_fits_def load_wf_def)

lemma load_fits_none [simp]: "load_fits no_load" "load_wf no_load"
  by (simp_all add: load_fits_def no_load_def dict_fits_def load_wf_def)

definition grow :: "admission_value \<Rightarrow> dict_load \<Rightarrow> dict_load \<Rightarrow> admission_error + (dict_load \<times> dict_load)" where
  "grow v load delta = (case value_placement v of
     PStrings \<Rightarrow> grow_strings (value_stored_len v) load delta
   | PBlobs \<Rightarrow> grow_blobs (value_stored_len v) (value_truncated v) load delta)"

lemma grow_Inr:
  assumes fits: "load_fits load" and le: "load_le delta load"
  shows "grow v load delta = Inr (load', delta') \<longleftrightarrow> load_fits (plus_load load (value_load v))
    \<and> load' = plus_load load (value_load v) \<and> delta' = plus_load delta (value_load v)"
proof (cases "load_fits (plus_load load (value_load v))")
  case True
  have "grow v load delta = Inr (plus_load load (value_load v), plus_load delta (value_load v))"
  proof (cases v)
    case (AString bytes)
    then have "\<exists>b. sealed_dictionary_body_bound PStrings (Suc (ld_string_rows load)) (ld_string_bytes load + length bytes) 0 = Inr b"
      using True by (simp add: dict_bound_fits load_fits_def plus_load_def value_load_def no_load_def)
    then show ?thesis
      using True le AString
      by (auto simp: grow_def grow_strings_def usize_checked_add_def load_fits_def dict_fits_def plus_load_def value_load_def
          no_load_def load_le_def)
  next
    case (ABlob bytes full_len truncated sha)
    let ?t = "ld_truncated load + (if truncated then 1 else 0)"
    have "\<exists>b. sealed_dictionary_body_bound PBlobs (Suc (ld_blob_rows load)) (ld_blob_bytes load + length bytes) ?t = Inr b"
      using True ABlob by (simp add: dict_bound_fits load_fits_def plus_load_def value_load_def no_load_def)
    then obtain b where b: "sealed_dictionary_body_bound PBlobs (Suc (ld_blob_rows load)) (ld_blob_bytes load + length bytes) ?t = Inr b" ..
    have "ld_blob_bytes load + length bytes < 1048576" "ld_blob_rows load < 65536" "?t < 32768"
      using True ABlob by (auto simp: load_fits_def dict_fits_def plus_load_def value_load_def no_load_def)
    then show ?thesis
      using b le ABlob
      by (cases truncated) (simp_all add: grow_def grow_blobs_def usize_checked_add_def plus_load_def value_load_def
          no_load_def load_le_def)
  qed
  then show ?thesis using True by auto
next
  case False
  have "grow v load delta \<noteq> Inr (load', delta')"
  proof (cases v)
    case (AString bytes)
    then have "\<not> dict_fits PStrings (Suc (ld_string_rows load)) (ld_string_bytes load + length bytes) 0"
      using False fits by (simp add: load_fits_def plus_load_def value_load_def no_load_def)
    then obtain e where "sealed_dictionary_body_bound PStrings (Suc (ld_string_rows load)) (ld_string_bytes load + length bytes) 0 = Inl e"
      using dict_bound_Inl by blast
    then show ?thesis
      using AString by (auto simp: grow_def grow_strings_def usize_checked_add_def)
  next
    case (ABlob bytes full_len truncated sha)
    let ?t = "ld_truncated load + (if truncated then 1 else 0)"
    have "\<not> dict_fits PBlobs (Suc (ld_blob_rows load)) (ld_blob_bytes load + length bytes) ?t"
      using False fits ABlob by (simp add: load_fits_def plus_load_def value_load_def no_load_def)
    then obtain e where "sealed_dictionary_body_bound PBlobs (Suc (ld_blob_rows load)) (ld_blob_bytes load + length bytes) ?t = Inl e"
      using dict_bound_Inl by blast
    then show ?thesis
      using ABlob by (auto simp: grow_def grow_blobs_def usize_checked_add_def split: if_splits)
  qed
  then show ?thesis using False by simp
qed

section \<open>The entries of a window\<close>

definition entry_value :: "entry_snapshot \<Rightarrow> str_id \<times> admission_value" where
  "entry_value e = (es_str_id e, value_from_snapshot e)"

definition values_load :: "(str_id \<times> admission_value) list \<Rightarrow> dict_load" where
  "values_load vs = foldr (\<lambda>e. plus_load (value_load (snd e))) vs no_load"

lemma values_load_simps [simp]:
  "values_load [] = no_load" "values_load (e # es) = plus_load (value_load (snd e)) (values_load es)"
  by (simp_all add: values_load_def)

lemma load_wf_values [simp]: "load_wf (values_load vs)"
  by (induction vs) (simp_all add: load_wf_plus)

definition fresh_values :: "(str_id, admission_value) btree_map \<Rightarrow> entry_snapshot list \<Rightarrow> (str_id \<times> admission_value) list" where
  "fresh_values dictionary es = map entry_value (filter (\<lambda>e. om_get dictionary (es_str_id e) = None) es)"

definition agrees :: "(str_id, admission_value) btree_map \<Rightarrow> entry_snapshot list \<Rightarrow> bool" where
  "agrees dictionary es \<longleftrightarrow> (\<forall>e \<in> set es. \<forall>v. om_get dictionary (es_str_id e) = Some v \<longrightarrow> v = value_from_snapshot e)"

lemma matches_iff: "value_placement v = es_placement e \<and> matches_snapshot v e \<longleftrightarrow> v = value_from_snapshot e"
  by (cases v) (auto simp: value_from_snapshot_def split: placement.splits)

lemma assess_entries_Cons:
  "assess_entries dictionary (e # es) load delta =
     (case om_get dictionary (es_str_id e) of
        Some existing \<Rightarrow>
          if existing = value_from_snapshot e then assess_entries dictionary es load delta
          else Inl (if value_placement existing \<noteq> es_placement e then ADictionaryPlacementConflict (es_str_id e)
                    else ADictionaryConflict (es_str_id e))
      | None \<Rightarrow>
          case grow (value_from_snapshot e) load (dd_load delta) of
            Inl err \<Rightarrow> Inl err
          | Inr (load, delta_load) \<Rightarrow>
              assess_entries dictionary es load
                (delta\<lparr>dd_load := delta_load, dd_dictionary := dd_dictionary delta @ [entry_value e]\<rparr>))"
  unfolding assess_entries.simps Let_def entry_value_def grow_def
  using matches_iff [of _ e] by (auto split: option.splits)

lemma assess_entries_Inr:
  assumes "load_fits load" and "load_wf load" and "load_le (dd_load delta) load"
  shows "assess_entries dictionary es load delta = Inr delta' \<longleftrightarrow> agrees dictionary es
    \<and> load_fits (plus_load load (values_load (fresh_values dictionary es)))
    \<and> delta' = delta\<lparr>dd_load := plus_load (dd_load delta) (values_load (fresh_values dictionary es)),
                     dd_dictionary := dd_dictionary delta @ fresh_values dictionary es\<rparr>"
  using assms
proof (induction es arbitrary: load delta)
  case Nil
  then show ?case by (auto simp: agrees_def fresh_values_def)
next
  case (Cons e es)
  show ?case
  proof (cases "om_get dictionary (es_str_id e)")
    case (Some existing)
    then show ?thesis
      using Cons by (auto simp: assess_entries_Cons agrees_def fresh_values_def simp del: assess_entries.simps)
  next
    case None
    let ?v = "value_from_snapshot e"
    let ?load = "plus_load load (value_load ?v)" and ?d = "plus_load (dd_load delta) (value_load ?v)"
    have fresh: "fresh_values dictionary (e # es) = entry_value e # fresh_values dictionary es"
      and ag: "agrees dictionary (e # es) = agrees dictionary es"
      using None by (simp_all add: fresh_values_def agrees_def)
    note grown = grow_Inr [OF Cons.prems(1,3), of ?v]
    show ?thesis
    proof (cases "load_fits ?load")
      case True
      let ?delta = "delta\<lparr>dd_load := ?d, dd_dictionary := dd_dictionary delta @ [entry_value e]\<rparr>"
      have "assess_entries dictionary (e # es) load delta = assess_entries dictionary es ?load ?delta"
      proof -
        have "grow ?v load (dd_load delta) = Inr (?load, ?d)" using grown True by blast
        then show ?thesis using None by (simp add: assess_entries_Cons del: assess_entries.simps)
      qed
      moreover have "load_le (dd_load ?delta) ?load" "load_wf ?load"
        using Cons.prems by (auto simp: load_le_def plus_load_def intro: load_wf_plus [unfolded plus_load_def])
      ultimately show ?thesis
        using Cons.IH [OF True, of ?delta] by (simp add: fresh ag plus_load_assoc entry_value_def)
    next
      case False
      then obtain err where "grow ?v load (dd_load delta) = Inl err"
        using grown by (cases "grow ?v load (dd_load delta)") auto
      moreover have "\<not> load_fits (plus_load load (values_load (fresh_values dictionary (e # es))))"
        using False load_fits_plus [of ?load] load_wf_plus [OF Cons.prems(2) load_wf_value]
        by (auto simp: fresh entry_value_def plus_load_assoc)
      ultimately show ?thesis using None by (simp add: assess_entries_Cons del: assess_entries.simps)
    qed
  qed
qed

section \<open>The data sections of a window\<close>

definition data_sections :: "section_flush_summary list \<Rightarrow> section_flush_summary list" where
  "data_sections ss = filter (\<lambda>s. \<not> is_dict_type (fs_type_id s)) ss"

definition rows_of :: "u32 \<Rightarrow> section_flush_summary list \<Rightarrow> nat" where
  "rows_of t ss = sum_list (map fs_rows (filter (\<lambda>s. fs_type_id s = t) ss))"

definition list_values_of :: "u32 \<Rightarrow> section_flush_summary list \<Rightarrow> nat" where
  "list_values_of t ss = sum_list (map fs_list_values (filter (\<lambda>s. fs_type_id s = t) ss))"

lemma of_append [simp]:
  "rows_of t (ss @ ss') = rows_of t ss + rows_of t ss'"
  "list_values_of t (ss @ ss') = list_values_of t ss + list_values_of t ss'"
  by (simp_all add: rows_of_def list_values_of_def)

lemma of_single: "rows_of (fs_type_id s) [s] = fs_rows s" "list_values_of (fs_type_id s) [s] = fs_list_values s"
  by (simp_all add: rows_of_def list_values_of_def)

lemma of_absent: "t \<notin> fs_type_id ` set ss \<Longrightarrow> rows_of t ss = 0 \<and> list_values_of t ss = 0"
  by (induction ss) (auto simp: rows_of_def list_values_of_def)

text \<open>A map that holds the totals of the data sections of a list.\<close>

definition totals_of :: "section_flush_summary list \<Rightarrow> (u32, data_admission) btree_map \<Rightarrow> bool" where
  "totals_of ss m \<longleftrightarrow> om_ok m \<and> (\<forall>t. om_get m t =
     (if t \<in> fs_type_id ` set ss then Some \<lparr>da_rows = rows_of t ss, da_list_values = list_values_of t ss\<rparr> else None))"

lemma totals_default: "totals_of ss m \<Longrightarrow> data_or_default m t = \<lparr>da_rows = rows_of t ss, da_list_values = list_values_of t ss\<rparr>"
  using of_absent [of t ss] by (auto simp: totals_of_def data_or_default_def no_data_def)

lemma totals_empty: "totals_of [] []"
  by (simp add: totals_of_def om_ok_def om_get_def)

lemma totals_insert:
  assumes "totals_of ss m" and "rows = rows_of (fs_type_id s) ss + fs_rows s"
    and "list_values = list_values_of (fs_type_id s) ss + fs_list_values s"
  shows "totals_of (ss @ [s]) (om_insert (fs_type_id s) \<lparr>da_rows = rows, da_list_values = list_values\<rparr> m)"
  using assms by (auto simp: totals_of_def om_ok_insert om_get_insert) (auto simp: rows_of_def list_values_of_def)

lemma collect_incoming_totals:
  "collect_incoming ss m = Inr m' \<Longrightarrow> totals_of ss0 m \<Longrightarrow> totals_of (ss0 @ data_sections ss) m'"
proof (induction ss arbitrary: m ss0)
  case (Cons s ss)
  show ?case
  proof (cases "is_dict_type (fs_type_id s)")
    case False
    let ?d = "data_or_default m (fs_type_id s)"
    obtain rows list_values where add: "usize_checked_add (da_rows ?d) (fs_rows s) = Some rows"
      "usize_checked_add (da_list_values ?d) (fs_list_values s) = Some list_values"
      "collect_incoming ss (om_insert (fs_type_id s) \<lparr>da_rows = rows, da_list_values = list_values\<rparr> m) = Inr m'"
      using Cons.prems(1) False by (auto simp: Let_def split: option.splits)
    then have "rows = rows_of (fs_type_id s) ss0 + fs_rows s" "list_values = list_values_of (fs_type_id s) ss0 + fs_list_values s"
      using totals_default [OF Cons.prems(2)] by (auto simp: usize_checked_add_def split: if_splits)
    then show ?thesis
      using Cons.IH [OF add(3) totals_insert [OF Cons.prems(2)]] False by (simp add: data_sections_def)
  qed (use Cons in \<open>simp add: data_sections_def\<close>)
qed (simp add: data_sections_def)

lemma collect_incoming_total:
  assumes "\<forall>t. rows_of t (ss0 @ data_sections ss) < usize_limit \<and> list_values_of t (ss0 @ data_sections ss) < usize_limit"
    and "totals_of ss0 m"
  shows "\<exists>m'. collect_incoming ss m = Inr m'"
  using assms
proof (induction ss arbitrary: m ss0)
  case (Cons s ss)
  show ?case
  proof (cases "is_dict_type (fs_type_id s)")
    case False
    then have split: "ss0 @ data_sections (s # ss) = (ss0 @ [s]) @ data_sections ss" by (simp add: data_sections_def)
    then have prem: "\<forall>t. rows_of t ((ss0 @ [s]) @ data_sections ss) < usize_limit \<and> list_values_of t ((ss0 @ [s]) @ data_sections ss) < usize_limit"
      using Cons.prems(1) by simp
    have "rows_of (fs_type_id s) ss0 + fs_rows s < usize_limit" "list_values_of (fs_type_id s) ss0 + fs_list_values s < usize_limit"
      using prem [rule_format, of "fs_type_id s"] unfolding of_append of_single by linarith+
    then show ?thesis
      using Cons.IH [OF prem totals_insert [OF Cons.prems(2) refl refl]] False
      by (simp add: totals_default [OF Cons.prems(2)] usize_checked_add_def Let_def)
  qed (use Cons in \<open>simp add: data_sections_def\<close>)
qed simp

definition data_fits :: "type_contract list \<Rightarrow> section_flush_summary list \<Rightarrow> u32 \<Rightarrow> bool" where
  "data_fits registry ss t \<longleftrightarrow> (\<exists>b. sealed_data_body_bound registry t (rows_of t ss) (list_values_of t ss) = Inr b)"

lemma data_fits_small: "data_fits registry ss t \<Longrightarrow> rows_of t ss \<le> MAX_SECTION_ROWS \<and> list_values_of t ss \<le> MAX_LIST_I32_VALUES_PER_SECTION"
  unfolding data_fits_def body_bound_iff by blast

lemma data_fits_prefix: "data_fits registry (ss @ ss') t \<Longrightarrow> data_fits registry ss t"
  unfolding data_fits_def using body_bound_mono [where rows = "rows_of t ss" and list_values = "list_values_of t ss"]
  by (metis le_add1 of_append)

lemma check_incoming_Inr:
  assumes "totals_of ss data" and "\<forall>(t, d) \<in> set incoming. da_rows d = rows_of t ss' \<and> da_list_values d = list_values_of t ss'"
  shows "check_incoming registry data incoming = Inr () \<longleftrightarrow> (\<forall>t \<in> fst ` set incoming. data_fits registry (ss @ ss') t)"
  using assms(2)
proof (induction incoming)
  case (Cons p incoming)
  obtain t d where p: "p = (t, d)" by (cases p)
  have d: "da_rows d = rows_of t ss'" "da_list_values d = list_values_of t ss'" using Cons.prems by (simp_all add: p)
  have IH: "check_incoming registry data incoming = Inr () \<longleftrightarrow> (\<forall>t \<in> fst ` set incoming. data_fits registry (ss @ ss') t)"
    using Cons by simp
  show ?case
  proof (cases "data_fits registry (ss @ ss') t")
    case True
    then have "rows_of t ss + rows_of t ss' < usize_limit" "list_values_of t ss + list_values_of t ss' < usize_limit"
      using data_fits_small by (fastforce simp: section_bounds)+
    moreover obtain b where "sealed_data_body_bound registry t (rows_of t ss + rows_of t ss') (list_values_of t ss + list_values_of t ss') = Inr b"
      using True by (auto simp: data_fits_def)
    ultimately show ?thesis
      using IH True by (simp add: p Let_def totals_default [OF assms(1)] usize_checked_add_def d)
  next
    case False
    then obtain e where "sealed_data_body_bound registry t (rows_of t ss + rows_of t ss') (list_values_of t ss + list_values_of t ss') = Inl e"
      unfolding data_fits_def of_append by (metis sum.exhaust)
    then have "check_incoming registry data (p # incoming) \<noteq> Inr ()"
      by (simp add: p Let_def totals_default [OF assms(1)] usize_checked_add_def d)
    then show ?thesis using False by (auto simp: p)
  qed
qed simp

lemma totals_entries:
  assumes "totals_of ss m"
  shows "(t, d) \<in> set m \<longleftrightarrow> t \<in> fs_type_id ` set ss \<and> d = \<lparr>da_rows = rows_of t ss, da_list_values = list_values_of t ss\<rparr>"
    and "fst ` set m = fs_type_id ` set ss"
proof -
  show entry: "(t, d) \<in> set m \<longleftrightarrow> t \<in> fs_type_id ` set ss \<and> d = \<lparr>da_rows = rows_of t ss, da_list_values = list_values_of t ss\<rparr>" for t d
    using assms om_entries [of m t d] by (auto simp: totals_of_def)
  show "fst ` set m = fs_type_id ` set ss"
    using entry by (force simp: image_iff)
qed

lemma assess_data_Inr:
  assumes "totals_of ss (ad_data a)" and "dd_data delta = []"
  shows "(\<exists>delta'. assess_data registry a summary delta = Inr delta') \<longleftrightarrow>
      (\<forall>t \<in> fs_type_id ` set (data_sections (fl_sections summary)). data_fits registry (ss @ data_sections (fl_sections summary)) t)"
    and "assess_data registry a summary delta = Inr delta' \<Longrightarrow>
      delta' = delta\<lparr>dd_data := dd_data delta'\<rparr> \<and> totals_of (data_sections (fl_sections summary)) (dd_data delta')"
proof -
  let ?ss = "data_sections (fl_sections summary)"
  let ?fits = "\<forall>t \<in> fs_type_id ` set ?ss. data_fits registry (ss @ ?ss) t"
  have checked: "check_incoming registry (ad_data a) m = Inr () \<longleftrightarrow> ?fits" if "totals_of ?ss m" for m
  proof -
    have "\<forall>(t, d) \<in> set m. da_rows d = rows_of t ?ss \<and> da_list_values d = list_values_of t ?ss"
      using totals_entries(1) [OF that] by auto
    then show ?thesis using check_incoming_Inr [OF assms(1)] unfolding totals_entries(2) [OF that, symmetric] by blast
  qed
  have collected: "totals_of ?ss m" if "collect_incoming (fl_sections summary) [] = Inr m" for m
    using collect_incoming_totals [OF that totals_empty] by simp
  show "(\<exists>delta'. assess_data registry a summary delta = Inr delta') \<longleftrightarrow> ?fits"
  proof
    assume "\<exists>delta'. assess_data registry a summary delta = Inr delta'"
    then obtain m where "collect_incoming (fl_sections summary) [] = Inr m" "check_incoming registry (ad_data a) m = Inr ()"
      by (auto simp: assess_data_def assms(2) split: sum.splits)
    then show ?fits using checked collected by blast
  next
    assume fits: ?fits
    have "rows_of t ?ss < usize_limit \<and> list_values_of t ?ss < usize_limit" for t
    proof (cases "t \<in> fs_type_id ` set ?ss")
      case True
      then have "rows_of t (ss @ ?ss) \<le> MAX_SECTION_ROWS \<and> list_values_of t (ss @ ?ss) \<le> MAX_LIST_I32_VALUES_PER_SECTION"
        using fits data_fits_small by blast
      then show ?thesis by (simp add: section_bounds)
    qed (simp add: of_absent)
    then obtain m where m: "collect_incoming (fl_sections summary) [] = Inr m"
      using collect_incoming_total [of "[]" "fl_sections summary" "[]"] totals_empty by auto
    then have "check_incoming registry (ad_data a) m = Inr ()" using checked collected fits by blast
    then show "\<exists>delta'. assess_data registry a summary delta = Inr delta'"
      using m by (simp add: assess_data_def assms(2))
  qed
  show "assess_data registry a summary delta = Inr delta' \<Longrightarrow>
      delta' = delta\<lparr>dd_data := dd_data delta'\<rparr> \<and> totals_of ?ss (dd_data delta')"
    using collected by (auto simp: assess_data_def assms(2) split: sum.splits)
qed

section \<open>The union of the window dictionaries\<close>

text \<open>The load of a dictionary grows by the load of the values that are new to it.\<close>

definition dict_total :: "(str_id, admission_value) btree_map \<Rightarrow> dict_load" where
  "dict_total D =
     \<lparr>ld_string_rows = sum_list (map (\<lambda>e. ld_string_rows (value_load (snd e))) D),
      ld_string_bytes = sum_list (map (\<lambda>e. ld_string_bytes (value_load (snd e))) D),
      ld_blob_rows = sum_list (map (\<lambda>e. ld_blob_rows (value_load (snd e))) D),
      ld_blob_bytes = sum_list (map (\<lambda>e. ld_blob_bytes (value_load (snd e))) D),
      ld_truncated = sum_list (map (\<lambda>e. ld_truncated (value_load (snd e))) D)\<rparr>"

lemma dict_total_Nil [simp]: "dict_total [] = no_load"
  by (simp add: dict_total_def no_load_def)

lemma dict_total_insert: "om_get D k = None \<Longrightarrow> dict_total (om_insert k v D) = plus_load (value_load v) (dict_total D)"
  unfolding dict_total_def plus_load_def
  by (simp add: sum_om_insert_new [where f = "\<lambda>v. ld_string_rows (value_load v)"]
      sum_om_insert_new [where f = "\<lambda>v. ld_string_bytes (value_load v)"]
      sum_om_insert_new [where f = "\<lambda>v. ld_blob_rows (value_load v)"]
      sum_om_insert_new [where f = "\<lambda>v. ld_blob_bytes (value_load v)"]
      sum_om_insert_new [where f = "\<lambda>v. ld_truncated (value_load v)"])

lemma dict_total_wf: "load_wf (dict_total D)"
proof -
  have "ld_truncated (value_load v) \<le> ld_blob_rows (value_load v)" for v
    using load_wf_value [of v] by (simp add: load_wf_def)
  then show ?thesis by (simp add: load_wf_def dict_total_def sum_list_mono)
qed

lemma dict_total_insert_all:
  "distinct (map fst vs) \<Longrightarrow> \<forall>k \<in> fst ` set vs. om_get D k = None \<Longrightarrow>
     dict_total (insert_all vs D) = plus_load (dict_total D) (values_load vs)"
proof (induction vs D rule: insert_all.induct)
  case (2 k v vs D)
  then have "\<forall>k' \<in> fst ` set vs. om_get (om_insert k v D) k' = None"
    by (auto simp: om_get_insert image_iff)
  then show ?case
    using 2 dict_total_insert [of D k v] by (simp add: plus_load_commute plus_load_assoc plus_load_left_commute)
qed simp

section \<open>Windows\<close>

type_synonym window = "flush_summary \<times> segment_dicts"

definition window_values :: "window \<Rightarrow> (str_id \<times> admission_value) list" where
  "window_values w = map entry_value (dict_entries (snd w))"

definition all_values :: "window list \<Rightarrow> (str_id \<times> admission_value) list" where
  "all_values ws = concat (map window_values ws)"

definition all_sections :: "window list \<Rightarrow> section_flush_summary list" where
  "all_sections ws = concat (map (\<lambda>w. fl_sections (fst w)) ws)"

lemma all_snoc:
  "all_values (ws @ [w]) = all_values ws @ window_values w"
  "all_sections (ws @ [w]) = all_sections ws @ fl_sections (fst w)"
  "data_sections (ss @ ss') = data_sections ss @ data_sections ss'"
  by (simp_all add: all_values_def all_sections_def data_sections_def)

text \<open>One sealed segment can hold the sections and the dictionary of all the windows together.\<close>

definition windows_fit :: "type_contract list \<Rightarrow> window list \<Rightarrow> bool" where
  "windows_fit registry ws \<longleftrightarrow> length (all_sections ws) \<le> MAX_SECTION_ROWS
     \<and> (\<forall>t \<in> fs_type_id ` set (data_sections (all_sections ws)). data_fits registry (data_sections (all_sections ws)) t)
     \<and> functional_list (all_values ws) \<and> load_fits (dict_total (union_of (all_values ws)))"

fun admit_windows :: "type_contract list \<Rightarrow> window list \<Rightarrow> segment_admission \<Rightarrow> admission_error + segment_admission" where
  "admit_windows registry [] a = Inr a"
| "admit_windows registry (w # ws) a =
     (case assess registry a (fst w) (snd w) of Inl e \<Rightarrow> Inl e | Inr delta \<Rightarrow>
      admit_windows registry ws (commit a delta))"

text \<open>The account of a list of windows.\<close>

definition accounts_for :: "segment_admission \<Rightarrow> window list \<Rightarrow> bool" where
  "accounts_for a ws \<longleftrightarrow> totals_of (data_sections (all_sections ws)) (ad_data a)
     \<and> ad_dictionary a = union_of (all_values ws) \<and> ad_descriptors a = length (all_sections ws)
     \<and> ad_load a = dict_total (union_of (all_values ws))"

definition window_ok :: "window \<Rightarrow> bool" where
  "window_ok w \<longleftrightarrow> distinct (map es_str_id (dict_entries (snd w)))"

lemma fresh_values_new:
  assumes "window_ok w"
  shows "distinct (map fst (fresh_values D (dict_entries (snd w))))"
    and "\<forall>k \<in> fst ` set (fresh_values D (dict_entries (snd w))). om_get D k = None"
proof -
  have keys: "map fst (fresh_values D es) = filter (\<lambda>k. om_get D k = None) (map es_str_id es)" for es
    by (induction es) (auto simp: fresh_values_def entry_value_def)
  then show "distinct (map fst (fresh_values D (dict_entries (snd w))))"
    using assms by (simp add: window_ok_def)
  show "\<forall>k \<in> fst ` set (fresh_values D (dict_entries (snd w))). om_get D k = None"
    by (auto simp: fresh_values_def entry_value_def)
qed

text \<open>Adding the fresh values is the same as adding all values that agree.\<close>

lemma agrees_functional:
  assumes "functional_list (all_values ws)" and "window_ok w"
  shows "agrees (union_of (all_values ws)) (dict_entries (snd w)) \<longleftrightarrow> functional_list (all_values (ws @ [w]))"
proof -
  have own: "v = u" if "(k, v) \<in> set (window_values w)" "(k, u) \<in> set (window_values w)" for k v u
  proof -
    have "distinct (map fst (window_values w))"
      using assms(2) by (simp add: window_ok_def window_values_def entry_value_def comp_def)
    then show ?thesis using that by (metis eq_key_imp_eq_value)
  qed
  have "agrees (union_of (all_values ws)) (dict_entries (snd w)) \<longleftrightarrow>
      (\<forall>k v u. (k, v) \<in> set (window_values w) \<and> (k, u) \<in> set (all_values ws) \<longrightarrow> u = v)"
    unfolding agrees_def window_values_def entry_value_def om_get_union [OF assms(1)] by (auto intro: rev_image_eqI)
  also have "\<dots> \<longleftrightarrow> functional_list (all_values (ws @ [w]))"
    using assms(1) own unfolding functional_list_def all_snoc set_append by blast
  finally show ?thesis .
qed

lemma union_step:
  assumes "functional_list (all_values (ws @ [w]))"
  shows "insert_all (fresh_values (union_of (all_values ws)) (dict_entries (snd w))) (union_of (all_values ws)) = union_of (all_values (ws @ [w]))"
proof (rule om_ext)
  let ?D = "union_of (all_values ws)" and ?F = "fresh_values (union_of (all_values ws)) (dict_entries (snd w))"
  have fun_ws: "functional_list (all_values ws)" and fun_w: "functional_list (window_values w)"
    using assms unfolding functional_list_def all_snoc set_append by blast+
  have sub: "set ?F \<subseteq> set (window_values w)" by (auto simp: fresh_values_def window_values_def)
  then have fun_f: "functional_list (rev ?F)" using fun_w unfolding functional_list_def set_rev by blast
  fix k
  have "om_get (insert_all ?F ?D) k = Some v \<longleftrightarrow> (k, v) \<in> set (all_values (ws @ [w]))" for v
  proof (cases "om_get ?D k")
    case None
    then have "(k, v) \<in> set ?F \<longleftrightarrow> (k, v) \<in> set (window_values w)" for v
      by (auto simp: fresh_values_def window_values_def entry_value_def)
    moreover have "(k, v) \<notin> set (all_values ws)" for v using None om_get_union [OF fun_ws, of k v] by simp
    moreover have "map_of (rev ?F) k = Some v \<longleftrightarrow> (k, v) \<in> set ?F" for v
      using map_of_functional [OF fun_f] by simp
    moreover have "om_get (insert_all ?F ?D) k = map_of (rev ?F) k"
      unfolding om_get_insert_all None by (simp split: option.splits)
    ultimately show ?thesis by (simp add: all_snoc)
  next
    case (Some u)
    then have "(k, u') \<notin> set ?F" for u' by (auto simp: fresh_values_def entry_value_def)
    then have "map_of (rev ?F) k = None" using map_of_functional [OF fun_f, of k] by (cases "map_of (rev ?F) k") auto
    moreover have u: "(k, u) \<in> set (all_values ws)" using Some om_get_union [OF fun_ws] by simp
    ultimately show ?thesis
      using Some assms unfolding functional_list_def by (auto simp: om_get_insert_all all_snoc)
  qed
  then show "om_get (insert_all ?F ?D) k = om_get (union_of (all_values (ws @ [w]))) k"
    using om_get_union [OF assms, of k] by (metis option.exhaust)
qed (simp_all add: om_ok_insert_all om_ok_union)

section \<open>One window\<close>

lemma om_ok_commit_data: "om_ok m \<Longrightarrow> om_ok (commit_data R m)"
  by (induction R m rule: commit_data.induct) (simp_all add: Let_def om_ok_insert)

lemma om_get_commit_data:
  "distinct (map fst R) \<Longrightarrow> om_get (commit_data R m) t = (case map_of R t of
     None \<Rightarrow> om_get m t
   | Some d \<Rightarrow> Some \<lparr>da_rows = saturating_add (da_rows (data_or_default m t)) (da_rows d),
       da_list_values = saturating_add (da_list_values (data_or_default m t)) (da_list_values d)\<rparr>)"
proof (induction R m rule: commit_data.induct)
  case (2 type_id incoming rest m)
  have "map_of rest t = None" if "t = type_id" using 2(2) that by (simp add: map_of_eq_None_iff)
  then show ?case
    using 2 by (auto simp: Let_def om_get_insert data_or_default_def split: option.splits)
qed simp

lemma saturating_small: "a + b < usize_limit \<Longrightarrow> saturating_add a b = a + b"
  by (simp add: saturating_add_def)

lemma commit_data_totals:
  assumes "totals_of ss m" and "totals_of ss' R" and "\<forall>t \<in> fs_type_id ` set ss'. data_fits registry (ss @ ss') t"
  shows "totals_of (ss @ ss') (commit_data R m)"
proof -
  have keys: "distinct (map fst R)" using assms(2) by (simp add: totals_of_def om_ok_def strict_sorted_iff)
  have got: "map_of R t = (if t \<in> fs_type_id ` set ss' then Some \<lparr>da_rows = rows_of t ss', da_list_values = list_values_of t ss'\<rparr> else None)" for t
    using assms(2) by (simp add: totals_of_def om_get_def)
  have small: "saturating_add (rows_of t ss) (rows_of t ss') = rows_of t ss + rows_of t ss'
      \<and> saturating_add (list_values_of t ss) (list_values_of t ss') = list_values_of t ss + list_values_of t ss'"
    if "t \<in> fs_type_id ` set ss'" for t
    using data_fits_small [OF assms(3) [rule_format, OF that]] by (simp add: section_bounds saturating_small)
  have "om_get (commit_data R m) t = (if t \<in> fs_type_id ` set (ss @ ss')
      then Some \<lparr>da_rows = rows_of t (ss @ ss'), da_list_values = list_values_of t (ss @ ss')\<rparr> else None)" for t
  proof (cases "t \<in> fs_type_id ` set ss'")
    case True
    then show ?thesis using small [OF True] by (auto simp: om_get_commit_data [OF keys] got totals_default [OF assms(1)])
  next
    case False
    then show ?thesis using assms(1) of_absent [OF False] by (auto simp: om_get_commit_data [OF keys] got totals_of_def)
  qed
  then show ?thesis using assms(1) by (simp add: totals_of_def om_ok_commit_data)
qed

lemma saturating_load_fits: "load_fits (plus_load a b) \<Longrightarrow> saturating_load a b = plus_load a b"
  by (simp add: saturating_load_def plus_load_def load_fits_def dict_fits_def saturating_add_def)

lemma windows_fit_prefix: "windows_fit registry (ws @ [w]) \<Longrightarrow> window_ok w \<Longrightarrow> windows_fit registry ws"
proof -
  assume fit: "windows_fit registry (ws @ [w])" and ok: "window_ok w"
  have fun_all: "functional_list (all_values (ws @ [w]))" using fit by (simp add: windows_fit_def)
  then have "functional_list (all_values ws)" unfolding functional_list_def all_snoc set_append by blast
  moreover have "load_fits (dict_total (union_of (all_values ws)))"
    using fit dict_total_insert_all [OF fresh_values_new [OF ok]] union_step [OF fun_all] load_fits_plus dict_total_wf
    unfolding windows_fit_def by metis
  moreover have "data_fits registry (data_sections (all_sections ws)) t"
    if "t \<in> fs_type_id ` set (data_sections (all_sections ws))" for t
  proof -
    have "data_fits registry (data_sections (all_sections ws) @ data_sections (fl_sections (fst w))) t"
      using fit that unfolding windows_fit_def all_snoc set_append image_Un by blast
    then show ?thesis by (rule data_fits_prefix)
  qed
  ultimately show "windows_fit registry ws" using fit by (auto simp: windows_fit_def all_snoc)
qed

lemma assess_step:
  assumes acc: "accounts_for a ws" and fit: "windows_fit registry ws" and ok: "window_ok w"
  shows "(\<exists>delta. assess registry a (fst w) (snd w) = Inr delta) \<longleftrightarrow> windows_fit registry (ws @ [w])"
    and "assess registry a (fst w) (snd w) = Inr delta \<Longrightarrow> accounts_for (commit a delta) (ws @ [w])"
proof -
  let ?es = "dict_entries (snd w)" and ?D = "union_of (all_values ws)" and ?ss = "data_sections (all_sections ws)"
  let ?w = "data_sections (fl_sections (fst w))"
  let ?F = "fresh_values ?D ?es" and ?n = "length (fl_sections (fst w))"
  let ?delta = "\<lparr>dd_data = [], dd_dictionary = [], dd_descriptors = ?n, dd_load = no_load\<rparr>"
  have a: "totals_of ?ss (ad_data a)" "ad_dictionary a = ?D" "ad_descriptors a = length (all_sections ws)"
    "ad_load a = dict_total ?D" using acc by (simp_all add: accounts_for_def)
  have fun_ws: "functional_list (all_values ws)" and load: "load_fits (dict_total ?D)"
    and len: "length (all_sections ws) \<le> MAX_SECTION_ROWS" using fit by (simp_all add: windows_fit_def)
  note data = assess_data_Inr [OF a(1), of ?delta registry "fst w", simplified]
  have le: "load_le no_load (dict_total ?D)" by (simp add: load_le_def no_load_def)
  have entries: "assess_entries ?D ?es (dict_total ?D) delta = Inr delta' \<longleftrightarrow> agrees ?D ?es
      \<and> load_fits (plus_load (dict_total ?D) (values_load ?F))
      \<and> delta' = delta\<lparr>dd_load := values_load ?F, dd_dictionary := dd_dictionary delta @ ?F\<rparr>"
    if "dd_load delta = no_load" for delta delta'
    using assess_entries_Inr [OF load dict_total_wf, of delta] le that by simp
  have run: "assess registry a (fst w) (snd w) = Inr delta' \<longleftrightarrow>
      length (all_sections ws) + ?n \<le> MAX_SECTION_ROWS
      \<and> (\<exists>d1. assess_data registry a (fst w) ?delta = Inr d1 \<and> assess_entries ?D ?es (dict_total ?D) d1 = Inr delta')" for delta'
    unfolding assess_def Let_def a
    by (auto simp: usize_checked_add_def section_bounds split: sum.splits if_splits)
  have total: "dict_total (union_of (all_values (ws @ [w]))) = plus_load (dict_total ?D) (values_load ?F)"
    if "functional_list (all_values (ws @ [w]))"
    using dict_total_insert_all [OF fresh_values_new [OF ok]] union_step [OF that] by metis
  have types: "(\<forall>t \<in> fs_type_id ` set (data_sections (all_sections (ws @ [w]))). data_fits registry (data_sections (all_sections (ws @ [w]))) t)
      \<longleftrightarrow> (\<forall>t \<in> fs_type_id ` set ?w. data_fits registry (?ss @ ?w) t)"
  proof -
    have "data_fits registry (?ss @ ?w) t" if "t \<in> fs_type_id ` set ?ss" "t \<notin> fs_type_id ` set ?w" for t
      using fit that of_absent [OF that(2)] by (auto simp: windows_fit_def data_fits_def)
    then show ?thesis unfolding all_snoc set_append image_Un by blast
  qed
  show "(\<exists>delta. assess registry a (fst w) (snd w) = Inr delta) \<longleftrightarrow> windows_fit registry (ws @ [w])"
  proof
    assume "\<exists>delta. assess registry a (fst w) (snd w) = Inr delta"
    then obtain d1 d2 where d: "length (all_sections ws) + ?n \<le> MAX_SECTION_ROWS"
      "assess_data registry a (fst w) ?delta = Inr d1" "assess_entries ?D ?es (dict_total ?D) d1 = Inr d2"
      using run by blast
    have "dd_load d1 = no_load" using data(2) [OF d(2)] by (cases d1) simp
    note found = iffD1 [OF entries [OF this] d(3)]
    then have e: "agrees ?D ?es" "load_fits (plus_load (dict_total ?D) (values_load ?F))" by blast+
    then have f: "functional_list (all_values (ws @ [w]))" using agrees_functional [OF fun_ws ok] by blast
    moreover have "\<forall>t \<in> fs_type_id ` set ?w. data_fits registry (?ss @ ?w) t" using data(1) d(2) by blast
    ultimately show "windows_fit registry (ws @ [w])"
      using d(1) e types total [OF f] by (simp add: windows_fit_def all_snoc(2))
  next
    assume w: "windows_fit registry (ws @ [w])"
    then have f: "functional_list (all_values (ws @ [w]))" by (simp add: windows_fit_def)
    have "\<forall>t \<in> fs_type_id ` set ?w. data_fits registry (?ss @ ?w) t" using w types by (simp add: windows_fit_def)
    then obtain d1 where d1: "assess_data registry a (fst w) ?delta = Inr d1" using data(1) by blast
    have "dd_load d1 = no_load" using data(2) [OF d1] by (cases d1) simp
    moreover have "agrees ?D ?es" using f agrees_functional [OF fun_ws ok] by blast
    moreover have "load_fits (plus_load (dict_total ?D) (values_load ?F))" using w total [OF f] by (simp add: windows_fit_def)
    moreover have "length (all_sections ws) + ?n \<le> MAX_SECTION_ROWS" using w by (simp add: windows_fit_def all_snoc(2))
    ultimately show "\<exists>delta. assess registry a (fst w) (snd w) = Inr delta"
      using run d1 entries [of d1] by auto
  qed
  assume got: "assess registry a (fst w) (snd w) = Inr delta"
  then obtain d1 where d: "length (all_sections ws) + ?n \<le> MAX_SECTION_ROWS"
    "assess_data registry a (fst w) ?delta = Inr d1" "assess_entries ?D ?es (dict_total ?D) d1 = Inr delta"
    using run by blast
  have d1: "d1 = ?delta\<lparr>dd_data := dd_data d1\<rparr>" "totals_of ?w (dd_data d1)" using data(2) [OF d(2)] by auto
  then have l: "dd_load d1 = no_load" "dd_dictionary d1 = []" "dd_descriptors d1 = ?n" by (cases d1; simp)+
  note found = iffD1 [OF entries [OF l(1)] d(3)]
  then have e: "agrees ?D ?es" "load_fits (plus_load (dict_total ?D) (values_load ?F))"
    "delta = d1\<lparr>dd_load := values_load ?F, dd_dictionary := dd_dictionary d1 @ ?F\<rparr>" by blast+
  with l have delta: "dd_data delta = dd_data d1" "dd_dictionary delta = ?F" "dd_descriptors delta = ?n"
    "dd_load delta = values_load ?F" by simp_all
  have f: "functional_list (all_values (ws @ [w]))" using e agrees_functional [OF fun_ws ok] by blast
  have "\<forall>t \<in> fs_type_id ` set ?w. data_fits registry (?ss @ ?w) t" using data(1) d(2) by blast
  then have "totals_of (?ss @ ?w) (commit_data (dd_data d1) (ad_data a))"
    using commit_data_totals [OF a(1) d1(2)] by blast
  then show "accounts_for (commit a delta) (ws @ [w])"
    using union_step [OF f] total [OF f] saturating_load_fits [OF e(2)] d(1)
    by (simp add: accounts_for_def commit_def delta a all_snoc(2,3) saturating_small section_bounds)
qed

lemma admit_windows_exact:
  assumes "accounts_for a ws0" and "windows_fit registry ws0" and "\<forall>w \<in> set ws. window_ok w"
  shows "(\<exists>a'. admit_windows registry ws a = Inr a') \<longleftrightarrow> windows_fit registry (ws0 @ ws)"
    and "admit_windows registry ws a = Inr a' \<Longrightarrow> accounts_for a' (ws0 @ ws) \<and> windows_fit registry (ws0 @ ws)"
proof -
  have prefix: "windows_fit registry (ws0 @ [w])" if "windows_fit registry (ws0 @ w # ws)" "\<forall>w \<in> set ws. window_ok w" for ws0 w ws
    using that
  proof (induction ws rule: rev_induct)
    case (snoc x xs)
    then show ?case using windows_fit_prefix [of registry "ws0 @ w # xs" x] by simp
  qed simp
  have "((\<exists>a'. admit_windows registry ws a = Inr a') \<longleftrightarrow> windows_fit registry (ws0 @ ws))
      \<and> (\<forall>a'. admit_windows registry ws a = Inr a' \<longrightarrow> accounts_for a' (ws0 @ ws) \<and> windows_fit registry (ws0 @ ws))"
    using assms
  proof (induction ws arbitrary: a ws0)
    case (Cons w ws)
    have ok: "window_ok w" "\<forall>w \<in> set ws. window_ok w" using Cons.prems(3) by simp_all
    note step = assess_step [OF Cons.prems(1,2) ok(1)]
    show ?case
    proof (cases "assess registry a (fst w) (snd w)")
      case (Inr delta)
      then have "accounts_for (commit a delta) (ws0 @ [w])" "windows_fit registry (ws0 @ [w])" using step by blast+
      then show ?thesis using Cons.IH ok(2) Inr by fastforce
    next
      case (Inl e)
      then have "\<not> windows_fit registry (ws0 @ [w])" using step(1) by simp
      then show ?thesis using prefix [of ws0 w ws] ok(2) Inl by auto
    qed
  qed simp
  then show "(\<exists>a'. admit_windows registry ws a = Inr a') \<longleftrightarrow> windows_fit registry (ws0 @ ws)"
    and "admit_windows registry ws a = Inr a' \<Longrightarrow> accounts_for a' (ws0 @ ws) \<and> windows_fit registry (ws0 @ ws)"
    by blast+
qed

section \<open>The account is exact\<close>

lemma accounts_for_nothing: "accounts_for admission_default []"
  by (simp add: accounts_for_def admission_default_def all_sections_def all_values_def data_sections_def union_of_def totals_empty)

lemma nothing_fits: "windows_fit registry []"
  by (simp add: windows_fit_def all_sections_def all_values_def data_sections_def union_of_def functional_list_def)

lemma window_ok_dicts: "om_ok (sd_entries (snd w)) \<Longrightarrow> window_ok w"
proof -
  have "map es_str_id (dict_entries d) = map fst (sd_entries d)" for d
    by (simp add: dict_entries_def snapshot_of_def comp_def case_prod_beta)
  then show "om_ok (sd_entries (snd w)) \<Longrightarrow> window_ok w"
    by (simp add: window_ok_def om_ok_def strict_sorted_iff)
qed

lemma admission_iff:
  assumes "\<forall>w \<in> set ws. om_ok (sd_entries (snd w))"
  shows "(\<exists>a. admit_windows registry ws admission_default = Inr a) \<longleftrightarrow> windows_fit registry ws"
proof -
  have "\<forall>w \<in> set ws. window_ok w" using assms window_ok_dicts by blast
  then show ?thesis using admit_windows_exact(1) [OF accounts_for_nothing nothing_fits] by simp
qed

text \<open>
  C15. The incremental account is exact: windows are admitted one after the other if and only if one sealed
  segment can hold them all, that is, the section descriptors, the rows and list values of every
  section type and both dictionary sections of the union of the window dictionaries are within the
  sealed limits and no id stands for two different values.
\<close>

theorem admission_exact:
  assumes "\<forall>w \<in> set ws. om_ok (sd_entries (snd w))"
  shows "(\<exists>a. admit_windows registry ws admission_default = Inr a) \<longleftrightarrow> windows_fit registry ws"
  using assms by (rule admission_iff)

definition sample_window :: "nat \<Rightarrow> window" where
  "sample_window rows =
     (\<lparr>fl_sections = [\<lparr>fs_type_id = 1006001, fs_rows = rows, fs_body_bytes = 10, fs_list_values = 0\<rparr>], fl_part_bytes = 100\<rparr>,
      run_calls demo_hash demo_sha [CIntern [1]] (dicts_new demo_dict_limits))"

lemma sample_bound:
  "\<exists>b. sealed_data_body_bound sample_registry 1006001 40000 0 = Inr b"
  "sealed_data_body_bound sample_registry 1006001 80000 0 \<noteq> Inr b"
proof -
  have contract: "contract_of sample_registry 1006001 = Some (sample_contract 1006001 [])"
    by (simp add: contract_of_def sample_registry_def sample_contract_def)
  have none: "list_columns (sample_contract 1006001 []) = []"
    by (simp add: list_columns_def sample_contract_def ts_column_def)
  show "\<exists>b. sealed_data_body_bound sample_registry 1006001 40000 0 = Inr b"
    unfolding body_bound_iff contract
    by (simp add: none section_bounds sealed_bounds column_load_def plain_column_size_new_def plain_body_def
        page_bound_def zstd_bound_def sample_contract_def ts_column_def)
  show "sealed_data_body_bound sample_registry 1006001 80000 0 \<noteq> Inr b"
    unfolding body_bound_iff by (simp add: section_bounds)
qed

lemma sample_dict_entries: "window_values (sample_window rows) = [(2, AString [1])]"
  by (simp add: window_values_def sample_window_def demo_simps try_insert_def om_get_def Let_def
      id_or_collision_def str_id_of_def no_requirements_def new_stored_def dict_intern_def
      dict_entries_def snapshot_of_def is_blob_def entry_value_def value_from_snapshot_def)

lemma admission_exact_witness:
  "(\<exists>a. admit_windows sample_registry [sample_window 40000] admission_default = Inr a)
   \<and> \<not> (\<exists>a. admit_windows sample_registry [sample_window 40000, sample_window 40000] admission_default = Inr a)"
proof -
  have ok: "om_ok (sd_entries (snd (sample_window rows)))" for rows
    by (simp add: sample_window_def demo_simps try_insert_def om_get_def Let_def id_or_collision_def str_id_of_def
        no_requirements_def om_ok_def)
  have data: "data_sections (all_sections [sample_window 40000]) =
      [\<lparr>fs_type_id = 1006001, fs_rows = 40000, fs_body_bytes = 10, fs_list_values = 0\<rparr>]"
    "data_sections (all_sections [sample_window 40000, sample_window 40000]) =
      [\<lparr>fs_type_id = 1006001, fs_rows = 40000, fs_body_bytes = 10, fs_list_values = 0\<rparr>,
       \<lparr>fs_type_id = 1006001, fs_rows = 40000, fs_body_bytes = 10, fs_list_values = 0\<rparr>]"
    by (simp_all add: data_sections_def all_sections_def sample_window_def is_dict_type_def DICT_STRINGS_TYPE_ID_def
        DICT_BLOBS_TYPE_ID_def)
  have "windows_fit sample_registry [sample_window 40000]"
    using sample_bound(1)
    by (simp add: windows_fit_def data data_fits_def rows_of_def list_values_of_def all_values_def sample_dict_entries
        union_of_def functional_list_def load_fits_def dict_total_def value_load_def no_load_def dict_fits_def)
      (simp add: all_sections_def sample_window_def section_bounds)
  moreover have "\<not> windows_fit sample_registry [sample_window 40000, sample_window 40000]"
    using sample_bound(2) by (auto simp: windows_fit_def data data_fits_def rows_of_def list_values_of_def)
  ultimately show ?thesis
    using admission_exact [of "[sample_window 40000]" sample_registry]
      admission_exact [of "[sample_window 40000, sample_window 40000]" sample_registry] ok by simp
qed

end
