(* ===== verification/Segment_Dictionary.thy ===== *)
theory Segment_Dictionary
  imports Dict_Codec Map_Union Journal_Correct
begin

text \<open>
  The dictionary of a sealed segment (\<open>crates/kronika-writer/src/segment.rs\<close>): the dictionary sections of
  all parts of a journal are decoded, checked row by row and merged into one map, from which the two
  sealed dictionary sections are encoded.  Merging is exact: it succeeds if and only if every section
  decodes, no id stands for two values and the union is within its caps.
\<close>

section \<open>Errors and surroundings\<close>

text \<open>\<open>SealCatalogAllocation\<close> is the failure to reserve memory, which no definition produces.\<close>

datatype seal_error =
    SealIo int
  | SealLayout layout_error
  | SealJournal journal_error
  | SealPart part_error
  | SealCodec codec_error
  | SealEmpty
  | SealSegmentIdMismatch int int
  | GeneratedSegmentInvalid
  | ExistingSegmentInvalid
  | ExistingSegmentMismatch
  | SealCatalogTooLarge nat nat
  | SealCatalogAllocation
  | SealUnsupportedFormat u32
  | SealRowCountMismatch u32 u32 nat
  | SealDictionaryConflict u64
  | SealArithmeticOverflow string
  | SealTooManySections nat nat

text \<open>The checksum, Arrow and Parquet, the registered contracts and the hash of dictionary ids.\<close>

record seal_env =
  se_crc :: "u8 list \<Rightarrow> u32"
  se_backend :: arrow_backend
  se_registry :: "type_contract list"
  se_xxh :: "u8 list \<Rightarrow> u64"

record section_descriptor =
  sx_part :: journal_part_ref
  sx_entry :: entry

text \<open>Offsets and lengths of 64 bits fit \<open>usize\<close>.\<close>

definition read_verified_body :: "seal_env \<Rightarrow> journal \<Rightarrow> section_descriptor \<Rightarrow> seal_error + u8 list" where
  "read_verified_body env j d =
     (case read_part_range j (sx_part d) (unat (e_offset (sx_entry d))) (unat (e_len (sx_entry d))) of
        Inl e \<Rightarrow> Inl (SealJournal e)
      | Inr body \<Rightarrow>
          (case verify_section (se_crc env) body (e_crc32c (sx_entry d)) of
             Inl e \<Rightarrow> Inl (SealCodec e) | Inr body \<Rightarrow> Inr body))"

section \<open>The normalized dictionary\<close>

datatype dictionary_value = VString "u8 list" | VBlob "u8 list" nat bool "u8 list option"

record normalized_dictionary =
  nd_values :: "(str_id, dictionary_value) btree_map"
  nd_string_rows :: nat
  nd_blob_rows :: nat
  nd_string_bytes :: nat
  nd_blob_bytes :: nat

definition normalized_default :: normalized_dictionary where
  "normalized_default = \<lparr>nd_values = [], nd_string_rows = 0, nd_blob_rows = 0, nd_string_bytes = 0, nd_blob_bytes = 0\<rparr>"

text \<open>The checks on the counters of one placement; the result is their next values.\<close>

definition grow_counters :: "nat \<Rightarrow> nat \<Rightarrow> nat \<Rightarrow> seal_error + (nat \<times> nat)" where
  "grow_counters rows stored_bytes value_bytes =
     (case usize_checked_add rows 1 of None \<Rightarrow> Inl (SealArithmeticOverflow ''dictionary row count'') | Some next_rows \<Rightarrow>
      if MAX_SECTION_ROWS < next_rows then Inl (SealCodec (TooManyRows next_rows MAX_SECTION_ROWS))
      else case usize_checked_add stored_bytes value_bytes of
        None \<Rightarrow> Inl (SealArithmeticOverflow ''dictionary stored bytes'') | Some next_bytes \<Rightarrow>
      if MAX_SECTION_BYTES < next_bytes then Inl (SealCodec (SectionTooLarge next_bytes MAX_SECTION_BYTES))
      else Inr (next_rows, next_bytes))"

definition normalized_insert :: "str_id \<Rightarrow> dictionary_value \<Rightarrow> normalized_dictionary \<Rightarrow> seal_error + normalized_dictionary" where
  "normalized_insert sid v nd =
     (case om_get (nd_values nd) sid of
        Some existing \<Rightarrow> if existing = v then Inr nd else Inl (SealDictionaryConflict sid)
      | None \<Rightarrow>
          (case v of
             VString bytes \<Rightarrow>
               (case grow_counters (nd_string_rows nd) (nd_string_bytes nd) (length bytes) of Inl e \<Rightarrow> Inl e
                | Inr (rows, stored) \<Rightarrow> Inr (nd\<lparr>nd_string_rows := rows, nd_string_bytes := stored,
                    nd_values := om_insert sid v (nd_values nd)\<rparr>))
           | VBlob bytes _ _ _ \<Rightarrow>
               (case grow_counters (nd_blob_rows nd) (nd_blob_bytes nd) (length bytes) of Inl e \<Rightarrow> Inl e
                | Inr (rows, stored) \<Rightarrow> Inr (nd\<lparr>nd_blob_rows := rows, nd_blob_bytes := stored,
                    nd_values := om_insert sid v (nd_values nd)\<rparr>))))"

definition normalized_snapshot :: "str_id \<times> dictionary_value \<Rightarrow> entry_snapshot" where
  "normalized_snapshot e = (case e of
     (sid, VString bytes) \<Rightarrow>
       \<lparr>es_str_id = sid, es_stored_bytes = bytes, es_full_len = length bytes, es_truncated = False, es_full_sha256 = None,
        es_placement = PStrings, es_hot = HotNone, es_blob_required = False\<rparr>
   | (sid, VBlob bytes full_len truncated sha) \<Rightarrow>
       \<lparr>es_str_id = sid, es_stored_bytes = bytes, es_full_len = full_len, es_truncated = truncated, es_full_sha256 = sha,
        es_placement = PBlobs, es_hot = HotNone, es_blob_required = True\<rparr>)"

definition normalized_sections :: "seal_env \<Rightarrow> normalized_dictionary \<Rightarrow> seal_error + dict_section list" where
  "normalized_sections env nd =
     map_sum SealCodec (\<lambda>s. s) (encode_sealed_entries (se_backend env) (map normalized_snapshot (nd_values nd)))"

section \<open>Decoding a dictionary section\<close>

definition dictionary_schema_matches :: "arrow_field list \<Rightarrow> bool \<Rightarrow> bool" where
  "dictionary_schema_matches schema blob \<longleftrightarrow> schema = (if blob then blobs_schema else strings_schema)"

text \<open>\<open>required_u64\<close>, \<open>required_binary\<close> and \<open>required_bool\<close> differ in the type of the column.\<close>

definition required_column :: "record_batch \<Rightarrow> string \<Rightarrow> data_type \<Rightarrow> codec_error + nat" where
  "required_column b name t =
     (case field_index (rb_fields b) name of None \<Rightarrow> Inl (ColumnTypeError name) | Some i \<Rightarrow>
      if fld_data_type (rb_fields b ! i) \<noteq> t then Inl (ColumnTypeError name)
      else if CNull \<in> set (column_cells b i) then Inl (NullInRequiredColumn name)
      else Inr i)"

definition fixed_binary :: "record_batch \<Rightarrow> string \<Rightarrow> codec_error + nat" where
  "fixed_binary b name =
     (case field_index (rb_fields b) name of None \<Rightarrow> Inl (ColumnTypeError name) | Some i \<Rightarrow>
      case fld_data_type (rb_fields b ! i) of DFixedSizeBinary _ \<Rightarrow> Inr i | _ \<Rightarrow> Inl (ColumnTypeError name))"

text \<open>The values of a column of known type; other cells do not occur there.\<close>

fun cell_u64 :: "cell \<Rightarrow> u64" where
  "cell_u64 (CInt i) = word_of_int i"
| "cell_u64 _ = 0"

fun cell_bytes :: "cell \<Rightarrow> u8 list" where
  "cell_bytes (CBytes bs) = bs"
| "cell_bytes _ = []"

fun cell_bool :: "cell \<Rightarrow> bool" where
  "cell_bool (CBool b) = b"
| "cell_bool _ = False"

definition ordered_str_id :: "u64 \<Rightarrow> u64 \<Rightarrow> seal_error + str_id" where
  "ordered_str_id raw previous =
     (case str_id_from_raw raw of None \<Rightarrow> Inl (SealCodec SchemaMismatch) | Some sid \<Rightarrow>
      if raw \<le> previous then Inl (SealCodec SchemaMismatch) else Inr sid)"

datatype dictionary_columns = StringColumns nat nat | BlobColumns nat nat nat nat nat

definition dictionary_columns_of :: "bool \<Rightarrow> record_batch \<Rightarrow> codec_error + dictionary_columns" where
  "dictionary_columns_of blob b =
     (case required_column b ''str_id'' DUInt64 of Inl e \<Rightarrow> Inl e | Inr ids \<Rightarrow>
      if blob then
        case required_column b ''stored_bytes'' DBinary of Inl e \<Rightarrow> Inl e | Inr bytes \<Rightarrow>
        case required_column b ''full_len'' DUInt64 of Inl e \<Rightarrow> Inl e | Inr full_len \<Rightarrow>
        case required_column b ''truncated'' DBoolean of Inl e \<Rightarrow> Inl e | Inr truncated \<Rightarrow>
        case fixed_binary b ''full_sha256'' of Inl e \<Rightarrow> Inl e | Inr sha \<Rightarrow>
        Inr (BlobColumns ids bytes full_len truncated sha)
      else
        case required_column b ''bytes'' DBinary of Inl e \<Rightarrow> Inl e | Inr bytes \<Rightarrow> Inr (StringColumns ids bytes))"

definition blob_value_ok :: "(u8 list \<Rightarrow> u64) \<Rightarrow> str_id \<Rightarrow> u8 list \<Rightarrow> nat \<Rightarrow> bool \<Rightarrow> u8 list option \<Rightarrow> bool" where
  "blob_value_ok xxh sid stored full_len truncated sha \<longleftrightarrow>
     (if truncated then length stored < full_len \<and> sha \<noteq> None
      else length stored = full_len \<and> sha = None \<and> str_id_of xxh stored = Some sid)"

text \<open>One row: its id, which must exceed the previous one, and its value.\<close>

definition dictionary_row ::
  "(u8 list \<Rightarrow> u64) \<Rightarrow> dictionary_columns \<Rightarrow> cell list \<Rightarrow> u64 \<Rightarrow> seal_error + (str_id \<times> dictionary_value)" where
  "dictionary_row xxh columns row previous = (case columns of
     StringColumns ids bytes \<Rightarrow>
       (case ordered_str_id (cell_u64 (row ! ids)) previous of Inl e \<Rightarrow> Inl e | Inr sid \<Rightarrow>
        let stored = cell_bytes (row ! bytes) in
        if str_id_of xxh stored \<noteq> Some sid then Inl (SealCodec SchemaMismatch) else Inr (sid, VString stored))
   | BlobColumns ids bytes full_len truncated sha \<Rightarrow>
       (case ordered_str_id (cell_u64 (row ! ids)) previous of Inl e \<Rightarrow> Inl e | Inr sid \<Rightarrow>
        let stored = cell_bytes (row ! bytes); full_len = unat (cell_u64 (row ! full_len)); truncated = cell_bool (row ! truncated) in
        if row ! sha \<noteq> CNull \<and> length (cell_bytes (row ! sha)) \<noteq> 32 then Inl (SealCodec SchemaMismatch)
        else let digest = (if row ! sha = CNull then None else Some (cell_bytes (row ! sha))) in
          if \<not> blob_value_ok xxh sid stored full_len truncated digest then Inl (SealCodec SchemaMismatch)
          else Inr (sid, VBlob stored full_len truncated digest)))"

fun dictionary_rows ::
  "(u8 list \<Rightarrow> u64) \<Rightarrow> dictionary_columns \<Rightarrow> cell list list \<Rightarrow> u64 \<Rightarrow> normalized_dictionary
    \<Rightarrow> seal_error + (u64 \<times> normalized_dictionary)" where
  "dictionary_rows xxh columns [] previous nd = Inr (previous, nd)"
| "dictionary_rows xxh columns (row # rows) previous nd =
     (case dictionary_row xxh columns row previous of Inl e \<Rightarrow> Inl e | Inr (sid, v) \<Rightarrow>
      case normalized_insert sid v nd of Inl e \<Rightarrow> Inl e | Inr nd \<Rightarrow>
      dictionary_rows xxh columns rows sid nd)"

fun dictionary_batches ::
  "(u8 list \<Rightarrow> u64) \<Rightarrow> bool \<Rightarrow> (string + record_batch) list \<Rightarrow> u64 \<Rightarrow> nat \<Rightarrow> normalized_dictionary
    \<Rightarrow> seal_error + (nat \<times> normalized_dictionary)" where
  "dictionary_batches xxh blob [] previous decoded nd = Inr (decoded, nd)"
| "dictionary_batches xxh blob (Inl e # items) previous decoded nd = Inl (SealCodec (ArrowError e))"
| "dictionary_batches xxh blob (Inr b # items) previous decoded nd =
     (case usize_checked_add decoded (num_rows b) of
        None \<Rightarrow> Inl (SealArithmeticOverflow ''dictionary row count'') | Some decoded \<Rightarrow>
      case dictionary_columns_of blob b of Inl e \<Rightarrow> Inl (SealCodec e) | Inr columns \<Rightarrow>
      case dictionary_rows xxh columns (rb_rows b) previous nd of Inl e \<Rightarrow> Inl e | Inr (previous, nd) \<Rightarrow>
      dictionary_batches xxh blob items previous decoded nd)"

text \<open>The checks of a dictionary body before its rows are read; the result is its batches and row count.\<close>

definition open_dictionary_body ::
  "seal_env \<Rightarrow> u32 \<Rightarrow> u32 \<Rightarrow> bool \<Rightarrow> u8 list \<Rightarrow> seal_error + ((string + record_batch) list \<times> nat)" where
  "open_dictionary_body env type_id declared blob body =
     (case validate_plain_parquet_decode_work (ab_parsers (se_backend env)) body MAX_DECODED_SECTION_BYTES of
        Inl e \<Rightarrow> Inl (SealCodec e) | Inr _ \<Rightarrow>
      case ab_open (se_backend env) body of Inl e \<Rightarrow> Inl (SealCodec (ParquetError e)) | Inr file \<Rightarrow>
      if MAX_ROW_GROUPS < pf_row_groups file then Inl (SealCodec (TooManyRowGroups (pf_row_groups file) MAX_ROW_GROUPS))
      else case claimed_row_count (pf_num_rows file) of Inl e \<Rightarrow> Inl (SealCodec e) | Inr claimed \<Rightarrow>
      if claimed \<noteq> unat declared then Inl (SealRowCountMismatch type_id declared claimed)
      else if \<not> dictionary_schema_matches (pf_schema file) blob then Inl (SealCodec SchemaMismatch)
      else case pf_batches file 4096 of Inl e \<Rightarrow> Inl (SealCodec (ParquetError e)) | Inr items \<Rightarrow>
      Inr (items, claimed))"

definition decode_dictionary_body ::
  "seal_env \<Rightarrow> journal \<Rightarrow> section_descriptor \<Rightarrow> normalized_dictionary \<Rightarrow> seal_error + normalized_dictionary" where
  "decode_dictionary_body env j d nd =
     (let type_id = e_type_id (sx_entry d); declared = e_rows (sx_entry d) in
      if type_id \<noteq> DICT_STRINGS_TYPE_ID \<and> type_id \<noteq> DICT_BLOBS_TYPE_ID then Inl (SealCodec (UnknownType type_id))
      else let blob = (type_id = DICT_BLOBS_TYPE_ID) in
      case read_verified_body env j d of Inl e \<Rightarrow> Inl e | Inr body \<Rightarrow>
      case open_dictionary_body env type_id declared blob body of Inl e \<Rightarrow> Inl e | Inr (items, claimed) \<Rightarrow>
      case dictionary_batches (se_xxh env) blob items 0 0 nd of Inl e \<Rightarrow> Inl e | Inr (decoded, nd) \<Rightarrow>
      if decoded \<noteq> claimed then Inl (SealRowCountMismatch type_id declared decoded) else Inr nd)"

fun decode_dictionary_bodies ::
  "seal_env \<Rightarrow> journal \<Rightarrow> section_descriptor list \<Rightarrow> normalized_dictionary \<Rightarrow> seal_error + normalized_dictionary" where
  "decode_dictionary_bodies env j [] nd = Inr nd"
| "decode_dictionary_bodies env j (d # ds) nd =
     (case decode_dictionary_body env j d nd of Inl e \<Rightarrow> Inl e | Inr nd \<Rightarrow> decode_dictionary_bodies env j ds nd)"

definition normalize_dictionary ::
  "seal_env \<Rightarrow> journal \<Rightarrow> section_descriptor list \<Rightarrow> section_descriptor list \<Rightarrow> seal_error + normalized_dictionary" where
  "normalize_dictionary env j strings blobs = decode_dictionary_bodies env j (strings @ blobs) normalized_default"

section \<open>The values of a dictionary section\<close>

text \<open>The rows of a section as a list of ids and values, apart from the merging.\<close>

fun row_values :: "(u8 list \<Rightarrow> u64) \<Rightarrow> dictionary_columns \<Rightarrow> cell list list \<Rightarrow> u64 \<Rightarrow> (str_id \<times> dictionary_value) list option" where
  "row_values xxh columns [] previous = Some []"
| "row_values xxh columns (row # rows) previous =
     (case dictionary_row xxh columns row previous of
        Inl _ \<Rightarrow> None
      | Inr kv \<Rightarrow> map_option (Cons kv) (row_values xxh columns rows (fst kv)))"

definition last_id :: "u64 \<Rightarrow> (str_id \<times> dictionary_value) list \<Rightarrow> u64" where
  "last_id previous vs = (if vs = [] then previous else fst (last vs))"

fun batch_values :: "(u8 list \<Rightarrow> u64) \<Rightarrow> bool \<Rightarrow> (string + record_batch) list \<Rightarrow> u64 \<Rightarrow> (str_id \<times> dictionary_value) list option" where
  "batch_values xxh blob [] previous = Some []"
| "batch_values xxh blob (Inl e # items) previous = None"
| "batch_values xxh blob (Inr b # items) previous =
     (case dictionary_columns_of blob b of Inl _ \<Rightarrow> None | Inr columns \<Rightarrow>
      case row_values xxh columns (rb_rows b) previous of None \<Rightarrow> None | Some vs \<Rightarrow>
      map_option ((@) vs) (batch_values xxh blob items (last_id previous vs)))"

definition section_values :: "seal_env \<Rightarrow> u32 \<Rightarrow> u32 \<Rightarrow> u8 list \<Rightarrow> (str_id \<times> dictionary_value) list option" where
  "section_values env type_id declared body =
     (case open_dictionary_body env type_id declared (type_id = DICT_BLOBS_TYPE_ID) body of Inl _ \<Rightarrow> None | Inr (items, claimed) \<Rightarrow>
      case batch_values (se_xxh env) (type_id = DICT_BLOBS_TYPE_ID) items 0 of None \<Rightarrow> None | Some vs \<Rightarrow>
      if length vs = claimed then Some vs else None)"

fun insert_values :: "(str_id \<times> dictionary_value) list \<Rightarrow> normalized_dictionary \<Rightarrow> seal_error + normalized_dictionary" where
  "insert_values [] nd = Inr nd"
| "insert_values ((sid, v) # vs) nd =
     (case normalized_insert sid v nd of Inl e \<Rightarrow> Inl e | Inr nd \<Rightarrow> insert_values vs nd)"

lemma insert_values_append:
  "insert_values (vs @ ws) nd = (case insert_values vs nd of Inl e \<Rightarrow> Inl e | Inr nd \<Rightarrow> insert_values ws nd)"
  by (induction vs nd rule: insert_values.induct) (auto split: sum.splits)

lemma row_values_length: "row_values xxh columns rows previous = Some vs \<Longrightarrow> length vs = length rows"
  by (induction rows arbitrary: previous vs) (auto split: sum.splits)

lemma dictionary_rows_Inr:
  "dictionary_rows xxh columns rows previous nd = Inr (previous', nd') \<longleftrightarrow>
     (\<exists>vs. row_values xxh columns rows previous = Some vs \<and> previous' = last_id previous vs \<and> insert_values vs nd = Inr nd')"
proof (induction rows arbitrary: previous nd)
  case (Cons row rows)
  have last: "last_id previous ((sid, v) # vs) = last_id sid vs" for sid v vs by (simp add: last_id_def)
  show ?case
  proof (cases "dictionary_row xxh columns row previous")
    case (Inr kv)
    obtain sid v where kv: "kv = (sid, v)" by (cases kv)
    show ?thesis
    proof (cases "normalized_insert sid v nd")
      case ok: (Inr nd1)
      have IH: "dictionary_rows xxh columns (row # rows) previous nd = Inr (previous', nd') \<longleftrightarrow>
          (\<exists>vs. row_values xxh columns rows sid = Some vs \<and> previous' = last_id sid vs \<and> insert_values vs nd1 = Inr nd')"
        using Cons.IH [of sid nd1] by (simp add: Inr kv ok)
      show ?thesis
        unfolding IH by (cases "row_values xxh columns rows sid") (simp_all add: Inr kv ok last)
    qed (auto simp: Inr kv)
  qed simp
qed (auto simp: last_id_def)

lemma dictionary_batches_Inr:
  "n + k < usize_limit \<Longrightarrow> dictionary_batches xxh blob items previous n nd = Inr (n + k, nd') \<longleftrightarrow>
     (\<exists>vs. batch_values xxh blob items previous = Some vs \<and> length vs = k \<and> insert_values vs nd = Inr nd')"
proof (induction items arbitrary: previous n k nd)
  case (Cons item items)
  show ?case
  proof (cases item)
    case (Inr b)
    show ?thesis
    proof (cases "dictionary_columns_of blob b")
      case cols: (Inr columns)
      show ?thesis
      proof (cases "row_values xxh columns (rb_rows b) previous")
        case None
        then have "dictionary_rows xxh columns (rb_rows b) previous nd \<noteq> Inr p" for p
          using dictionary_rows_Inr [of xxh columns "rb_rows b" previous nd "fst p" "snd p"] by auto
        then obtain e where "dictionary_rows xxh columns (rb_rows b) previous nd = Inl e"
          by (cases "dictionary_rows xxh columns (rb_rows b) previous nd") auto
        then show ?thesis by (auto simp: Inr cols None split: option.splits)
      next
        case vs: (Some vs)
        have len: "length vs = num_rows b" using row_values_length [OF vs] .
        show ?thesis
        proof (cases "insert_values vs nd")
          case (Inl e)
          then have "dictionary_rows xxh columns (rb_rows b) previous nd \<noteq> Inr p" for p
            using dictionary_rows_Inr [of xxh columns "rb_rows b" previous nd "fst p" "snd p"] vs by auto
          then obtain e' where "dictionary_rows xxh columns (rb_rows b) previous nd = Inl e'"
            by (cases "dictionary_rows xxh columns (rb_rows b) previous nd") auto
          then show ?thesis by (auto simp: \<open>item = Inr b\<close> cols vs Inl insert_values_append split: option.splits)
        next
          case ok: (Inr nd1)
          have rows: "dictionary_rows xxh columns (rb_rows b) previous nd = Inr (last_id previous vs, nd1)"
            using dictionary_rows_Inr vs ok by blast
          show ?thesis
          proof (cases "num_rows b \<le> k")
            case True
            then have k: "n + num_rows b + (k - num_rows b) = n + k" and lt: "n + num_rows b < usize_limit" using Cons.prems by auto
            have "dictionary_batches xxh blob (item # items) previous n nd = dictionary_batches xxh blob items (last_id previous vs) (n + num_rows b) nd1"
              using lt by (simp add: Inr cols rows usize_checked_add_def)
            then have IH: "dictionary_batches xxh blob (item # items) previous n nd = Inr (n + k, nd') \<longleftrightarrow>
                (\<exists>ws. batch_values xxh blob items (last_id previous vs) = Some ws \<and> length ws = k - num_rows b \<and> insert_values ws nd1 = Inr nd')"
              using Cons.IH [of "n + num_rows b" "k - num_rows b" "last_id previous vs" nd1, unfolded k] Cons.prems by simp
            show ?thesis
            proof (cases "batch_values xxh blob items (last_id previous vs)")
              case None
              then show ?thesis unfolding IH by (simp add: \<open>item = Inr b\<close> cols vs)
            next
              case (Some ws)
              have count: "length ws = k - num_rows b \<longleftrightarrow> length vs + length ws = k" using True len by auto
              show ?thesis unfolding IH by (simp add: \<open>item = Inr b\<close> cols vs Some insert_values_append ok count)
            qed
          next
            case False
            have "decoded \<le> m" if "dictionary_batches xxh blob items p decoded nd0 = Inr (m, nd')" for p decoded nd0 m
              using that
            proof (induction items arbitrary: p decoded nd0)
              case (Cons i rest)
              then show ?case
                by (cases i) (fastforce simp: usize_checked_add_def split: option.splits if_splits sum.splits)+
            qed simp
            then have "dictionary_batches xxh blob items (last_id previous vs) (n + num_rows b) nd1 \<noteq> Inr (n + k, nd')"
              using False by (metis nat_add_left_cancel_le)
            then have "dictionary_batches xxh blob (item # items) previous n nd \<noteq> Inr (n + k, nd')"
              by (simp add: Inr cols rows usize_checked_add_def)
            then show ?thesis using False len by (auto simp: Inr cols vs)
          qed
        qed
      qed
    qed (auto simp: Inr split: option.splits)
  qed simp
qed auto

section \<open>Merging is exact\<close>

definition string_row_of :: "dictionary_value \<Rightarrow> nat" where
  "string_row_of v = (case v of VString _ \<Rightarrow> 1 | VBlob _ _ _ _ \<Rightarrow> 0)"

definition string_size_of :: "dictionary_value \<Rightarrow> nat" where
  "string_size_of v = (case v of VString bytes \<Rightarrow> length bytes | VBlob _ _ _ _ \<Rightarrow> 0)"

definition blob_row_of :: "dictionary_value \<Rightarrow> nat" where
  "blob_row_of v = (case v of VString _ \<Rightarrow> 0 | VBlob _ _ _ _ \<Rightarrow> 1)"

definition blob_size_of :: "dictionary_value \<Rightarrow> nat" where
  "blob_size_of v = (case v of VString _ \<Rightarrow> 0 | VBlob bytes _ _ _ \<Rightarrow> length bytes)"

lemmas size_defs = string_row_of_def string_size_of_def blob_row_of_def blob_size_of_def

text \<open>The normalized dictionary with given values, and the caps on its counters.\<close>

definition normalized_of :: "(str_id, dictionary_value) btree_map \<Rightarrow> normalized_dictionary" where
  "normalized_of D = \<lparr>nd_values = D, nd_string_rows = total_of string_row_of D, nd_blob_rows = total_of blob_row_of D,
     nd_string_bytes = total_of string_size_of D, nd_blob_bytes = total_of blob_size_of D\<rparr>"

definition within_caps :: "(str_id, dictionary_value) btree_map \<Rightarrow> bool" where
  "within_caps D \<longleftrightarrow> total_of string_row_of D \<le> MAX_SECTION_ROWS \<and> total_of blob_row_of D \<le> MAX_SECTION_ROWS
     \<and> total_of string_size_of D \<le> MAX_SECTION_BYTES \<and> total_of blob_size_of D \<le> MAX_SECTION_BYTES"

lemma grow_counters_Inr:
  "rows \<le> MAX_SECTION_ROWS \<Longrightarrow> stored \<le> MAX_SECTION_BYTES \<Longrightarrow>
     grow_counters rows stored n = Inr p \<longleftrightarrow> rows + 1 \<le> MAX_SECTION_ROWS \<and> stored + n \<le> MAX_SECTION_BYTES \<and> p = (rows + 1, stored + n)"
  by (auto simp: grow_counters_def usize_checked_add_def section_bounds)

lemma normalized_insert_Inr:
  assumes caps: "within_caps D"
  shows "normalized_insert sid v (normalized_of D) = Inr nd' \<longleftrightarrow>
     (om_get D sid = Some v \<and> nd' = normalized_of D)
     \<or> (om_get D sid = None \<and> within_caps (om_insert sid v D) \<and> nd' = normalized_of (om_insert sid v D))"
proof (cases "om_get D sid")
  case None
  note fresh = total_of_insert [OF None]
  show ?thesis
  proof (cases v)
    case (VString bytes)
    have g: "grow_counters (total_of string_row_of D) (total_of string_size_of D) (length bytes) = Inr p \<longleftrightarrow>
        within_caps (om_insert sid v D) \<and> p = (total_of string_row_of D + 1, total_of string_size_of D + length bytes)" for p
      using caps by (auto simp: grow_counters_Inr within_caps_def fresh VString size_defs)
    show ?thesis
    proof (cases "within_caps (om_insert sid v D)")
      case True
      then have "grow_counters (total_of string_row_of D) (total_of string_size_of D) (length bytes) = Inr (total_of string_row_of D + 1, total_of string_size_of D + length bytes)"
        using g by blast
      then show ?thesis using True by (auto simp: normalized_insert_def normalized_of_def None VString fresh size_defs)
    next
      case False
      then obtain e where "grow_counters (total_of string_row_of D) (total_of string_size_of D) (length bytes) = Inl e"
        using g by (cases "grow_counters (total_of string_row_of D) (total_of string_size_of D) (length bytes)") auto
      then show ?thesis using False by (simp add: normalized_insert_def normalized_of_def None VString)
    qed
  next
    case (VBlob bytes full_len truncated sha)
    have g: "grow_counters (total_of blob_row_of D) (total_of blob_size_of D) (length bytes) = Inr p \<longleftrightarrow>
        within_caps (om_insert sid v D) \<and> p = (total_of blob_row_of D + 1, total_of blob_size_of D + length bytes)" for p
      using caps by (auto simp: grow_counters_Inr within_caps_def fresh VBlob size_defs)
    show ?thesis
    proof (cases "within_caps (om_insert sid v D)")
      case True
      then have "grow_counters (total_of blob_row_of D) (total_of blob_size_of D) (length bytes) = Inr (total_of blob_row_of D + 1, total_of blob_size_of D + length bytes)"
        using g by blast
      then show ?thesis using True by (auto simp: normalized_insert_def normalized_of_def None VBlob fresh size_defs)
    next
      case False
      then obtain e where "grow_counters (total_of blob_row_of D) (total_of blob_size_of D) (length bytes) = Inl e"
        using g by (cases "grow_counters (total_of blob_row_of D) (total_of blob_size_of D) (length bytes)") auto
      then show ?thesis using False by (simp add: normalized_insert_def normalized_of_def None VBlob)
    qed
  qed
next
  case (Some w)
  then show ?thesis by (auto simp: normalized_insert_def normalized_of_def)
qed

lemma within_caps_prefix: "functional_list (vs @ ws) \<Longrightarrow> within_caps (union_of (vs @ ws)) \<Longrightarrow> within_caps (union_of vs)"
  unfolding within_caps_def using total_of_union_mono [of vs ws] by (meson order_trans)

lemma insert_values_Inr:
  assumes "functional_list ws" and "within_caps (union_of ws)"
  shows "insert_values vs (normalized_of (union_of ws)) = Inr nd' \<longleftrightarrow>
    functional_list (ws @ vs) \<and> within_caps (union_of (ws @ vs)) \<and> nd' = normalized_of (union_of (ws @ vs))"
  using assms
proof (induction vs arbitrary: ws)
  case (Cons p vs)
  obtain k v where p: "p = (k, v)" by (cases p)
  have split: "ws @ p # vs = (ws @ [p]) @ vs" by simp
  have new: "union_of (ws @ [p]) = om_insert k v (union_of ws)" by (simp add: p union_snoc)
  note insert = normalized_insert_Inr [OF Cons.prems(2), of k v]
  show ?case
  proof (cases "functional_list (ws @ [p]) \<and> within_caps (union_of (ws @ [p]))")
    case True
    then have "om_get (union_of ws) k = None \<or> om_get (union_of ws) k = Some v"
      using functional_snoc [OF Cons.prems(1)] p by simp
    then have "normalized_insert k v (normalized_of (union_of ws)) = Inr (normalized_of (union_of (ws @ [p])))"
      using insert [of "normalized_of (union_of (ws @ [p]))"] True
      by (auto simp: new om_insert_known [OF om_ok_union])
    then show ?thesis using Cons.IH [of "ws @ [p]"] True by (simp add: p)
  next
    case False
    have "normalized_insert k v (normalized_of (union_of ws)) \<noteq> Inr nd" for nd
    proof
      assume "normalized_insert k v (normalized_of (union_of ws)) = Inr nd"
      then consider "om_get (union_of ws) k = Some v" | "om_get (union_of ws) k = None" "within_caps (union_of (ws @ [p]))"
        using insert new by auto
      then show False
      proof cases
        case 1
        then have "functional_list (ws @ [p])" using functional_snoc [OF Cons.prems(1)] p by simp
        moreover have "union_of (ws @ [p]) = union_of ws" using new om_insert_known [OF om_ok_union 1] by simp
        ultimately show ?thesis using False Cons.prems(2) by simp
      next
        case 2
        then show ?thesis using False functional_snoc [OF Cons.prems(1)] p by simp
      qed
    qed
    then obtain e where "normalized_insert k v (normalized_of (union_of ws)) = Inl e"
      by (cases "normalized_insert k v (normalized_of (union_of ws))") auto
    moreover have "\<not> (functional_list (ws @ p # vs) \<and> within_caps (union_of (ws @ p # vs)))"
      using False functional_append [of "ws @ [p]" vs] within_caps_prefix [of "ws @ [p]" vs] unfolding split by blast
    ultimately show ?thesis by (auto simp: p)
  qed
qed auto

lemma normalized_default_of: "normalized_default = normalized_of (union_of [])" "within_caps (union_of [])" "functional_list []"
  by (simp_all add: normalized_default_def normalized_of_def union_of_def within_caps_def functional_list_def)

text \<open>One section, and the sections of a journal.\<close>

definition descriptor_values :: "seal_env \<Rightarrow> journal \<Rightarrow> section_descriptor \<Rightarrow> (str_id \<times> dictionary_value) list option" where
  "descriptor_values env j d =
     (let t = e_type_id (sx_entry d) in
      if t \<noteq> DICT_STRINGS_TYPE_ID \<and> t \<noteq> DICT_BLOBS_TYPE_ID then None
      else case read_verified_body env j d of Inl _ \<Rightarrow> None | Inr body \<Rightarrow> section_values env t (e_rows (sx_entry d)) body)"

lemma open_dictionary_claimed:
  "open_dictionary_body env t declared blob body = Inr (items, claimed) \<Longrightarrow> claimed = unat declared"
  by (auto simp: open_dictionary_body_def split: sum.splits if_splits)

lemma decode_dictionary_body_Inr:
  "decode_dictionary_body env j d nd = Inr nd' \<longleftrightarrow>
     (\<exists>vs. descriptor_values env j d = Some vs \<and> insert_values vs nd = Inr nd')"
proof (cases "e_type_id (sx_entry d) \<noteq> DICT_STRINGS_TYPE_ID \<and> e_type_id (sx_entry d) \<noteq> DICT_BLOBS_TYPE_ID")
  case True
  then show ?thesis by (simp add: decode_dictionary_body_def descriptor_values_def Let_def)
next
  case False
  let ?t = "e_type_id (sx_entry d)" and ?rows = "e_rows (sx_entry d)"
  let ?blob = "?t = DICT_BLOBS_TYPE_ID"
  show ?thesis
  proof (cases "read_verified_body env j d")
    case (Inl e)
    then show ?thesis using False by (auto simp: decode_dictionary_body_def descriptor_values_def Let_def)
  next
    case body: (Inr body)
    show ?thesis
    proof (cases "open_dictionary_body env ?t ?rows ?blob body")
      case (Inl e)
      then show ?thesis using False body by (auto simp: decode_dictionary_body_def descriptor_values_def section_values_def Let_def)
    next
      case (Inr opened)
      obtain items claimed where opened: "opened = (items, claimed)" by (cases opened)
      have "claimed < usize_limit" using open_dictionary_claimed [of env ?t ?rows ?blob body items claimed] Inr opened
        unat_less_32 [of ?rows] by simp
      then have loop: "dictionary_batches (se_xxh env) ?blob items 0 0 nd = Inr (claimed, nd') \<longleftrightarrow>
          (\<exists>vs. batch_values (se_xxh env) ?blob items 0 = Some vs \<and> length vs = claimed \<and> insert_values vs nd = Inr nd')"
        using dictionary_batches_Inr [of 0 claimed "se_xxh env" ?blob items 0 nd nd'] by simp
      have "decode_dictionary_body env j d nd = Inr nd' \<longleftrightarrow> dictionary_batches (se_xxh env) ?blob items 0 0 nd = Inr (claimed, nd')"
        using False by (auto simp: decode_dictionary_body_def Let_def body Inr opened split: sum.splits)
      also have "\<dots> \<longleftrightarrow> (\<exists>vs. descriptor_values env j d = Some vs \<and> insert_values vs nd = Inr nd')"
        unfolding loop using False
        by (auto simp: descriptor_values_def section_values_def Let_def body Inr opened split: option.splits)
      finally show ?thesis .
    qed
  qed
qed

lemma decode_dictionary_bodies_Inr:
  "decode_dictionary_bodies env j ds nd = Inr nd' \<longleftrightarrow>
     (\<exists>vss. map (descriptor_values env j) ds = map Some vss \<and> insert_values (concat vss) nd = Inr nd')"
proof (induction ds arbitrary: nd)
  case (Cons d ds)
  show ?case
  proof (cases "decode_dictionary_body env j d nd")
    case (Inl e)
    then have none: "\<not> (\<exists>vs. descriptor_values env j d = Some vs \<and> insert_values vs nd = Inr nd1)" for nd1
      using decode_dictionary_body_Inr [of env j d nd nd1] by auto
    have "\<not> (\<exists>vss. map (descriptor_values env j) (d # ds) = map Some vss \<and> insert_values (concat vss) nd = Inr nd')"
    proof
      assume "\<exists>vss. map (descriptor_values env j) (d # ds) = map Some vss \<and> insert_values (concat vss) nd = Inr nd'"
      then obtain vss where vss: "map (descriptor_values env j) (d # ds) = map Some vss" "insert_values (concat vss) nd = Inr nd'" by blast
      then obtain vs rest where "vss = vs # rest" by (cases vss) auto
      then show False using vss none by (auto simp: insert_values_append split: sum.splits)
    qed
    then show ?thesis using Inl by simp
  next
    case (Inr nd1)
    then obtain vs where vs: "descriptor_values env j d = Some vs" "insert_values vs nd = Inr nd1"
      using decode_dictionary_body_Inr by blast
    have "(\<exists>vss. map (descriptor_values env j) (d # ds) = map Some vss \<and> insert_values (concat vss) nd = Inr nd')
        \<longleftrightarrow> (\<exists>rest. map (descriptor_values env j) ds = map Some rest \<and> insert_values (concat rest) nd1 = Inr nd')"
    proof
      assume "\<exists>vss. map (descriptor_values env j) (d # ds) = map Some vss \<and> insert_values (concat vss) nd = Inr nd'"
      then obtain vss where vss: "map (descriptor_values env j) (d # ds) = map Some vss" "insert_values (concat vss) nd = Inr nd'" by blast
      then obtain rest where "vss = vs # rest" using vs by (cases vss) auto
      then show "\<exists>rest. map (descriptor_values env j) ds = map Some rest \<and> insert_values (concat rest) nd1 = Inr nd'"
        using vss vs by (auto simp: insert_values_append)
    next
      assume "\<exists>rest. map (descriptor_values env j) ds = map Some rest \<and> insert_values (concat rest) nd1 = Inr nd'"
      then obtain rest where "map (descriptor_values env j) ds = map Some rest" "insert_values (concat rest) nd1 = Inr nd'" by blast
      then show "\<exists>vss. map (descriptor_values env j) (d # ds) = map Some vss \<and> insert_values (concat vss) nd = Inr nd'"
        using vs by (intro exI [of _ "vs # rest"]) (simp add: insert_values_append)
    qed
    then show ?thesis using Cons.IH [of nd1] Inr by simp
  qed
qed simp

lemma normalize_dictionary_Inr:
  "normalize_dictionary env j strings blobs = Inr nd \<longleftrightarrow>
     (\<exists>vss. map (descriptor_values env j) (strings @ blobs) = map Some vss \<and> functional_list (concat vss)
        \<and> within_caps (union_of (concat vss)) \<and> nd = normalized_of (union_of (concat vss)))"
  using insert_values_Inr [OF normalized_default_of(3,2)]
  by (simp add: normalize_dictionary_def decode_dictionary_bodies_Inr normalized_default_of(1))

text \<open>
  C18. Merging the dictionaries of a journal is exact.  It succeeds if and only if every section decodes to
  values, no id stands for two values and the union is within its caps, and then the result is that
  union with its counters; the order of the sections and repeated values do not matter.
\<close>

theorem dictionary_merge_exact:
  "normalize_dictionary env j strings blobs = Inr nd \<longleftrightarrow>
     (\<exists>vss. map (descriptor_values env j) (strings @ blobs) = map Some vss \<and> functional_list (concat vss)
        \<and> within_caps (union_of (concat vss)) \<and> nd = normalized_of (union_of (concat vss)))"
  by (rule normalize_dictionary_Inr)

end
