(* ===== verification/Pgm_Publish.thy ===== *)
theory Pgm_Publish
  imports Layout_Scan
begin

text \<open>
  Publication of a PGM (\<open>PgmTemp\<close> in \<open>crates/kronika-layout/src/root.rs\<close>): a temporary file is written,
  frozen, synchronised and linked to its final name without ever replacing a file.

  The state is one day directory: its files by inode number, its names, the names that a crash
  cannot lose, and the outcomes the operating system has in store for the next calls.  A failing
  call has done nothing, except that a failing write has written a prefix of its data; a process
  that stops between two calls leaves what a failure of the next call leaves.  One writer owns the
  directory.  The errors of the code carry a digest of a leaf name, the model keeps the name.
\<close>

section \<open>The day directory\<close>

datatype fs_outcome = FsOk | FsFail nat int

record day_file =
  df_bytes :: "u8 list"
  df_durable :: "u8 list"
  df_mtime :: nat
  df_ctime :: nat

datatype day_entry = FileEntry nat | SymlinkEntry | OtherEntry

record day_fs =
  dy_files :: "nat \<Rightarrow> day_file"
  dy_names :: "string \<Rightarrow> day_entry option"
  dy_durable :: "string \<Rightarrow> day_entry option"
  dy_next :: nat
  dy_clock :: nat
  dy_plan :: "fs_outcome list"

type_synonym 'a fs_result = "(layout_error + 'a) \<times> day_fs"

definition EEXIST :: int where "EEXIST = 17"

definition next_fs :: "day_fs \<Rightarrow> fs_outcome \<times> day_fs" where
  "next_fs s = (case dy_plan s of [] \<Rightarrow> (FsOk, s) | o1 # os \<Rightarrow> (o1, s\<lparr>dy_plan := os\<rparr>))"

definition fs_call :: "(day_fs \<Rightarrow> 'a fs_result) \<Rightarrow> day_fs \<Rightarrow> 'a fs_result" where
  "fs_call f s = (case next_fs s of (FsOk, s) \<Rightarrow> f s | (FsFail n e, s) \<Rightarrow> (Inl (LayoutIo e), s))"

definition fs_bind :: "'a fs_result \<Rightarrow> ('a \<Rightarrow> day_fs \<Rightarrow> 'b fs_result) \<Rightarrow> 'b fs_result" where
  "fs_bind r k = (case r of (Inl e, s) \<Rightarrow> (Inl e, s) | (Inr x, s) \<Rightarrow> k x s)"

text \<open>Each change of a file or of its links takes a new time stamp.\<close>

definition touch :: "nat \<Rightarrow> (day_file \<Rightarrow> day_file) \<Rightarrow> day_fs \<Rightarrow> day_fs" where
  "touch i change s =
     s\<lparr>dy_files := (dy_files s)(i := (change (dy_files s i))\<lparr>df_ctime := dy_clock s\<rparr>), dy_clock := dy_clock s + 1\<rparr>"

definition identity_of :: "nat \<Rightarrow> day_file \<Rightarrow> file_identity" where
  "identity_of i f = \<lparr>fi_device = 0, fi_inode = i, fi_len = length (df_bytes f),
     fi_mtime_seconds = int (df_mtime f), fi_mtime_nanoseconds = 0,
     fi_ctime_seconds = int (df_ctime f), fi_ctime_nanoseconds = 0\<rparr>"

definition identity_from_file :: "nat \<Rightarrow> day_fs \<Rightarrow> file_identity fs_result" where
  "identity_from_file i = fs_call (\<lambda>s. (Inr (identity_of i (dy_files s i)), s))"

definition open_regular_at :: "string \<Rightarrow> day_fs \<Rightarrow> nat fs_result" where
  "open_regular_at name = fs_call (\<lambda>s.
     (case dy_names s name of
        None \<Rightarrow> Inl (LayoutIo ENOENT)
      | Some (FileEntry i) \<Rightarrow> Inr i
      | Some SymlinkEntry \<Rightarrow> Inl (SymlinkNotAllowed name)
      | Some OtherEntry \<Rightarrow> Inl (UnexpectedLeafEntryType name), s))"

definition create_regular_at :: "string \<Rightarrow> day_fs \<Rightarrow> nat fs_result" where
  "create_regular_at name = fs_call (\<lambda>s.
     if dy_names s name \<noteq> None then (Inl (LayoutIo EEXIST), s)
     else (Inr (dy_next s),
       s\<lparr>dy_files := (dy_files s)(dy_next s := \<lparr>df_bytes = [], df_durable = [], df_mtime = dy_clock s, df_ctime = dy_clock s\<rparr>),
         dy_names := (dy_names s)(name := Some (FileEntry (dy_next s))),
         dy_next := dy_next s + 1, dy_clock := dy_clock s + 1\<rparr>))"

definition append_data :: "u8 list \<Rightarrow> nat \<Rightarrow> day_fs \<Rightarrow> day_fs" where
  "append_data data i s =
     touch i (\<lambda>f. f\<lparr>df_bytes := df_bytes f @ data, df_mtime := dy_clock s\<rparr>) s"

definition file_write :: "nat \<Rightarrow> u8 list \<Rightarrow> day_fs \<Rightarrow> unit fs_result" where
  "file_write i data s =
     (case next_fs s of
        (FsOk, s) \<Rightarrow> (Inr (), append_data data i s)
      | (FsFail n e, s) \<Rightarrow> (Inl (LayoutIo e), append_data (take n data) i s))"

definition file_sync_all :: "nat \<Rightarrow> day_fs \<Rightarrow> unit fs_result" where
  "file_sync_all i = fs_call (\<lambda>s.
     (Inr (), s\<lparr>dy_files := (dy_files s)(i := (dy_files s i)\<lparr>df_durable := df_bytes (dy_files s i)\<rparr>)\<rparr>))"

definition directory_sync_all :: "day_fs \<Rightarrow> unit fs_result" where
  "directory_sync_all = fs_call (\<lambda>s. (Inr (), s\<lparr>dy_durable := dy_names s\<rparr>))"

definition unlink_at :: "string \<Rightarrow> day_fs \<Rightarrow> unit fs_result" where
  "unlink_at name = fs_call (\<lambda>s.
     case dy_names s name of
       None \<Rightarrow> (Inl (LayoutIo ENOENT), s)
     | Some (FileEntry i) \<Rightarrow> (Inr (), (touch i (\<lambda>f. f) s)\<lparr>dy_names := (dy_names s)(name := None)\<rparr>)
     | Some _ \<Rightarrow> (Inr (), s\<lparr>dy_names := (dy_names s)(name := None)\<rparr>))"

section \<open>Named files\<close>

definition linkat :: "nat \<Rightarrow> string \<Rightarrow> day_fs \<Rightarrow> unit fs_result" where
  "linkat i name = fs_call (\<lambda>s.
     if dy_names s name \<noteq> None then (Inl (LayoutIo EEXIST), s)
     else (Inr (), (touch i (\<lambda>f. f) s)\<lparr>dy_names := (dy_names s)(name := Some (FileEntry i))\<rparr>))"

text \<open>The link goes through \<open>/proc/self/fd\<close>; where that is missing, through the descriptor itself.\<close>

definition link_open_file :: "nat \<Rightarrow> string \<Rightarrow> day_fs \<Rightarrow> unit fs_result" where
  "link_open_file i name s =
     (case linkat i name s of
        (Inl e, s) \<Rightarrow> if e = LayoutIo ENOENT then linkat i name s else (Inl e, s)
      | (Inr u, s) \<Rightarrow> (Inr u, s))"

definition same_named_object :: "file_identity \<Rightarrow> file_identity \<Rightarrow> bool" where
  "same_named_object a b \<longleftrightarrow> fi_device a = fi_device b \<and> fi_inode a = fi_inode b \<and> fi_len a = fi_len b
     \<and> fi_mtime_seconds a = fi_mtime_seconds b \<and> fi_mtime_nanoseconds a = fi_mtime_nanoseconds b
     \<and> fi_ctime_seconds a = fi_ctime_seconds b \<and> fi_ctime_nanoseconds a = fi_ctime_nanoseconds b"

definition verify_named_identity :: "string \<Rightarrow> file_identity \<Rightarrow> string \<Rightarrow> day_fs \<Rightarrow> unit fs_result" where
  "verify_named_identity file_name expected temporary s =
     fs_bind (open_regular_at file_name s) (\<lambda>i s.
     fs_bind (identity_from_file i s) (\<lambda>found s.
     if \<not> same_named_object found expected then (Inl (TemporaryChanged temporary), s) else (Inr (), s)))"

definition unlink_named_if_identity :: "string \<Rightarrow> file_identity \<Rightarrow> day_fs \<Rightarrow> bool fs_result" where
  "unlink_named_if_identity name expected s =
     (case open_regular_at name s of
        (Inl e, s) \<Rightarrow> if e = LayoutIo ENOENT then (Inr False, s) else (Inl e, s)
      | (Inr i, s) \<Rightarrow>
          fs_bind (identity_from_file i s) (\<lambda>found s.
          if \<not> same_named_object found expected then (Inr False, s)
          else fs_bind (unlink_at name s) (\<lambda>_ s. (Inr True, s))))"

section \<open>The temporary\<close>

record pgm_temp =
  pt_inode :: nat
  pt_prepared_identity :: "file_identity option"
  pt_temp_name :: string
  pt_final_name :: string
  pt_id :: int
  pt_published :: bool

text \<open>The name has the process id and a process-wide sequence number; the day directory exists or is made.\<close>

definition create_pgm_temp :: "segment_address \<Rightarrow> nat \<Rightarrow> nat \<Rightarrow> day_fs \<Rightarrow> pgm_temp fs_result" where
  "create_pgm_temp address pid sequence s =
     fs_bind (fs_call (\<lambda>s. (Inr (), s)) s) (\<lambda>_ s.
     let temp_name = temporary_name address TmpPgm pid sequence in
     fs_bind (create_regular_at temp_name s) (\<lambda>i s.
     (Inr \<lparr>pt_inode = i, pt_prepared_identity = None, pt_temp_name = temp_name, pt_final_name = pgm_name address,
           pt_id = sa_id address, pt_published = False\<rparr>, s)))"

definition try_clone_file :: "pgm_temp \<Rightarrow> day_fs \<Rightarrow> pgm_temp fs_result" where
  "try_clone_file t s =
     fs_bind (fs_call (\<lambda>s. (Inr (), s)) s) (\<lambda>_ s.
     fs_bind (identity_from_file (pt_inode t) s) (\<lambda>identity s.
     (Inr (t\<lparr>pt_prepared_identity := Some identity\<rparr>), s)))"

text \<open>The end of \<open>publish\<close>, once the final name is linked.\<close>

definition finish_publication :: "pgm_temp \<Rightarrow> day_fs \<Rightarrow> pgm_temp fs_result" where
  "finish_publication t s =
     fs_bind (identity_from_file (pt_inode t) s) (\<lambda>linked s.
     fs_bind (verify_named_identity (pt_final_name t) linked (pt_temp_name t) s) (\<lambda>_ s.
     fs_bind (directory_sync_all s) (\<lambda>_ s.
     fs_bind (unlink_at (pt_temp_name t) s) (\<lambda>_ s.
     fs_bind (directory_sync_all s) (\<lambda>_ s. (Inr (t\<lparr>pt_published := True\<rparr>), s))))))"

definition link_and_finish :: "pgm_temp \<Rightarrow> day_fs \<Rightarrow> pgm_temp fs_result" where
  "link_and_finish t s =
     (case link_open_file (pt_inode t) (pt_final_name t) s of
        (Inl e, s) \<Rightarrow> (Inl (if e = LayoutIo EEXIST then SegmentAlreadyExists (pt_id t) else e), s)
      | (Inr _, s) \<Rightarrow> finish_publication t s)"

definition publish :: "pgm_temp \<Rightarrow> day_fs \<Rightarrow> pgm_temp fs_result" where
  "publish t s =
     fs_bind (file_sync_all (pt_inode t) s) (\<lambda>_ s.
     fs_bind (identity_from_file (pt_inode t) s) (\<lambda>current s.
     let expected = (case pt_prepared_identity t of None \<Rightarrow> current | Some identity \<Rightarrow> identity) in
     if current \<noteq> expected then (Inl (TemporaryChanged (pt_temp_name t)), s)
     else fs_bind (verify_named_identity (pt_temp_name t) expected (pt_temp_name t) s) (\<lambda>_ s.
     link_and_finish t s)))"

definition discard :: "pgm_temp \<Rightarrow> day_fs \<Rightarrow> pgm_temp fs_result" where
  "discard t s =
     fs_bind (identity_from_file (pt_inode t) s) (\<lambda>expected s.
     fs_bind (unlink_named_if_identity (pt_temp_name t) expected s) (\<lambda>unlinked s.
     if \<not> unlinked then (Inl (TemporaryChanged (pt_temp_name t)), s)
     else fs_bind (directory_sync_all s) (\<lambda>_ s. (Inr (t\<lparr>pt_published := True\<rparr>), s))))"

text \<open>Dropping the handle tries to remove an unpublished temporary and ignores what happens.\<close>

definition drop_temp :: "pgm_temp \<Rightarrow> day_fs \<Rightarrow> day_fs" where
  "drop_temp t s =
     (if pt_published t then s
      else case identity_from_file (pt_inode t) s of
        (Inl _, s) \<Rightarrow> s
      | (Inr expected, s) \<Rightarrow> snd (unlink_named_if_identity (pt_temp_name t) expected s))"

section \<open>Outcomes of a sequence of calls\<close>

text \<open>After an error \<open>E\<close> holds, after a success \<open>Q\<close> with the result.\<close>

definition ends :: "(day_fs \<Rightarrow> bool) \<Rightarrow> ('a \<Rightarrow> day_fs \<Rightarrow> bool) \<Rightarrow> ('e + 'a) \<times> day_fs \<Rightarrow> bool" where
  "ends E Q r \<longleftrightarrow> (case r of (Inl e, s) \<Rightarrow> E s | (Inr x, s) \<Rightarrow> Q x s)"

lemma ends_Inl [simp]: "ends E Q (Inl e, s) \<longleftrightarrow> E s" and ends_Inr [simp]: "ends E Q (Inr x, s) \<longleftrightarrow> Q x s"
  by (simp_all add: ends_def)

lemma ends_bind:
  assumes "ends E Q r" and "\<And>x s. Q x s \<Longrightarrow> ends E Q' (k x s)"
  shows "ends E Q' (fs_bind r k)"
  using assms by (cases r; cases "fst r") (auto simp: fs_bind_def ends_def)

lemma ends_mono: "ends E Q r \<Longrightarrow> (\<And>x s. Q x s \<Longrightarrow> Q' x s) \<Longrightarrow> ends E Q' r"
  by (auto simp: ends_def split: prod.splits sum.splits)

text \<open>Predicates that do not look at the outcomes in store.\<close>

definition planless :: "(day_fs \<Rightarrow> bool) \<Rightarrow> bool" where
  "planless P \<longleftrightarrow> (\<forall>s p. P (s\<lparr>dy_plan := p\<rparr>) = P s)"

lemma planless_next: "planless P \<Longrightarrow> next_fs s = (o1, s') \<Longrightarrow> P s' = P s"
  by (auto simp: next_fs_def planless_def split: list.splits)

lemma ends_call:
  assumes "planless E" and "planless P" and "P s" and "\<And>s. P s \<Longrightarrow> E s" and "\<And>s. P s \<Longrightarrow> ends E Q (f s)"
  shows "ends E Q (fs_call f s)"
  using assms planless_next [OF assms(2)] by (auto simp: fs_call_def split: prod.splits fs_outcome.splits)

definition synced :: "day_fs \<Rightarrow> nat \<Rightarrow> bool" where
  "synced s i \<longleftrightarrow> df_durable (dy_files s i) = df_bytes (dy_files s i)"

definition content :: "day_fs \<Rightarrow> nat \<Rightarrow> u8 list" where
  "content s i = df_bytes (dy_files s i)"

lemma content_simps [simp]:
  "content (s\<lparr>dy_plan := p\<rparr>) = content s" "content (s\<lparr>dy_names := nm\<rparr>) = content s" "content (s\<lparr>dy_durable := nm\<rparr>) = content s"
  "synced (s\<lparr>dy_plan := p\<rparr>) = synced s" "synced (s\<lparr>dy_names := nm\<rparr>) = synced s" "synced (s\<lparr>dy_durable := nm\<rparr>) = synced s"
  by (auto simp: content_def synced_def fun_eq_iff)

lemma touch_simps [simp]:
  "content (touch i (\<lambda>f. f) s) = content s" "synced (touch i (\<lambda>f. f) s) = synced s"
  "dy_names (touch i g s) = dy_names s" "dy_durable (touch i g s) = dy_durable s" "dy_next (touch i g s) = dy_next s"
  "dy_plan (touch i g s) = dy_plan s"
  by (auto simp: content_def synced_def touch_def fun_eq_iff)

section \<open>What publication changes\<close>

text \<open>
  From the state \<open>s0\<close> on: contents stay and what is synchronised stays so, only the two names of the
  temporary can change, and the final name is left alone or, if it was free, names the synchronised
  temporary.
\<close>

definition published_from :: "pgm_temp \<Rightarrow> day_fs \<Rightarrow> day_fs \<Rightarrow> bool" where
  "published_from t s0 s \<longleftrightarrow>
     (\<forall>k. content s k = content s0 k \<and> (synced s0 k \<longrightarrow> synced s k)) \<and> dy_next s = dy_next s0
     \<and> (\<forall>n. n \<noteq> pt_temp_name t \<and> n \<noteq> pt_final_name t \<longrightarrow> dy_names s n = dy_names s0 n)
     \<and> (dy_names s (pt_temp_name t) \<noteq> dy_names s0 (pt_temp_name t) \<longrightarrow> dy_names s (pt_temp_name t) = None)
     \<and> (dy_names s (pt_final_name t) \<noteq> dy_names s0 (pt_final_name t) \<longrightarrow>
          dy_names s0 (pt_final_name t) = None \<and> dy_names s (pt_final_name t) = Some (FileEntry (pt_inode t))
          \<and> synced s (pt_inode t))
     \<and> (\<forall>n. dy_durable s n \<in> {dy_durable s0 n, dy_names s0 n, dy_names s n})"

lemma published_from_refl: "published_from t s s"
  by (simp add: published_from_def)

lemma planless_published [simp]: "planless (published_from t s0)" "planless (\<lambda>s. published_from t s0 s \<and> synced s i)"
  by (simp_all add: planless_def published_from_def)

abbreviation (input) still :: "pgm_temp \<Rightarrow> day_fs \<Rightarrow> (day_fs \<Rightarrow> bool) \<Rightarrow> 'a \<Rightarrow> day_fs \<Rightarrow> bool" where
  "still t s0 P \<equiv> \<lambda>_ s. published_from t s0 s \<and> P s"

text \<open>The changes of state that publication consists of.\<close>

lemma published_synced_file:
  "published_from t s0 s \<Longrightarrow>
     published_from t s0 (s\<lparr>dy_files := (dy_files s)(i := (dy_files s i)\<lparr>df_durable := df_bytes (dy_files s i)\<rparr>)\<rparr>)"
  by (simp add: published_from_def content_def synced_def)

lemma published_synced_directory: "published_from t s0 s \<Longrightarrow> published_from t s0 (s\<lparr>dy_durable := dy_names s\<rparr>)"
  by (simp add: published_from_def)

lemma published_linked:
  assumes s: "published_from t s0 s" and "synced s (pt_inode t)" and free: "dy_names s (pt_final_name t) = None"
    and names: "pt_temp_name t \<noteq> pt_final_name t"
  shows "dy_names s0 (pt_final_name t) = None"
    and "published_from t s0 ((touch (pt_inode t) (\<lambda>f. f) s)\<lparr>dy_names := (dy_names s)(pt_final_name t := Some (FileEntry (pt_inode t)))\<rparr>)"
proof -
  have kept: "dy_names s (pt_final_name t) = dy_names s0 (pt_final_name t)" using s free unfolding published_from_def by metis
  then show free0: "dy_names s0 (pt_final_name t) = None" using free by simp
  let ?names = "(dy_names s)(pt_final_name t := Some (FileEntry (pt_inode t)))"
  have "dy_durable s n \<in> {dy_durable s0 n, dy_names s0 n, ?names n}" for n
  proof (cases "n = pt_final_name t")
    case True
    then show ?thesis using s free free0 unfolding published_from_def by (metis insertE insertI1 insertI2 singletonD)
  next
    case False
    then show ?thesis using s by (simp add: published_from_def)
  qed
  then show "published_from t s0 ((touch (pt_inode t) (\<lambda>f. f) s)\<lparr>dy_names := ?names\<rparr>)"
    using s assms(2) free0 names by (simp add: published_from_def)
qed

lemma published_unlinked:
  assumes s: "published_from t s0 s" and "pt_temp_name t \<noteq> pt_final_name t"
    and same: "content s' = content s" "synced s' = synced s" "dy_next s' = dy_next s" "dy_durable s' = dy_durable s"
    and names: "dy_names s' = (dy_names s)(pt_temp_name t := None)"
  shows "published_from t s0 s'"
proof -
  have "dy_durable s n \<in> {dy_durable s0 n, dy_names s0 n, dy_names s' n}" for n
  proof (cases "n = pt_temp_name t")
    case True
    then show ?thesis using s unfolding published_from_def names by (metis fun_upd_same insert_iff)
  next
    case False
    then show ?thesis using s by (simp add: published_from_def names)
  qed
  then show ?thesis using s assms(2) by (simp add: published_from_def same names)
qed

text \<open>Reading calls change nothing.\<close>

lemma ends_read:
  assumes "planless P" and "published_from t s0 s" and "P s"
  shows "ends (published_from t s0) (still t s0 P) (open_regular_at name s)"
    and "ends (published_from t s0) (still t s0 P) (identity_from_file i s)"
    and "ends (published_from t s0) (still t s0 P) (fs_call (\<lambda>s. (Inr u, s)) s)"
proof -
  have both: "planless (\<lambda>s. published_from t s0 s \<and> P s)"
    using assms(1) planless_published(1) [of t s0] by (simp add: planless_def)
  show "ends (published_from t s0) (still t s0 P) (open_regular_at name s)"
    and "ends (published_from t s0) (still t s0 P) (identity_from_file i s)"
    and "ends (published_from t s0) (still t s0 P) (fs_call (\<lambda>s. (Inr u, s)) s)"
    unfolding open_regular_at_def identity_from_file_def
    by (rule ends_call [OF planless_published(1) both]; use assms in \<open>auto split: option.splits day_entry.splits\<close>)+
qed

lemma ends_verify:
  assumes "planless P" and "published_from t s0 s" and "P s"
  shows "ends (published_from t s0) (still t s0 P) (verify_named_identity name expected tmp s)"
  unfolding verify_named_identity_def
  by (rule ends_bind [OF ends_read(1) [OF assms]], rule ends_bind [OF ends_read(2) [OF assms(1)]]) auto

lemma ends_sync_file:
  assumes "published_from t s0 s"
  shows "ends (published_from t s0) (still t s0 (\<lambda>s. synced s i)) (file_sync_all i s)"
  unfolding file_sync_all_def
  by (rule ends_call [OF planless_published(1) planless_published(1) assms])
     (simp_all add: published_synced_file, simp add: synced_def)

lemma ends_sync_directory:
  assumes "planless P" and "\<And>s nm. P (s\<lparr>dy_durable := nm\<rparr>) = P s" and "published_from t s0 s" and "P s"
  shows "ends (published_from t s0) (still t s0 (\<lambda>s. P s \<and> dy_durable s = dy_names s)) (directory_sync_all s)"
proof -
  have both: "planless (\<lambda>s. published_from t s0 s \<and> P s)"
    using assms(1) planless_published(1) [of t s0] by (simp add: planless_def)
  show ?thesis
    unfolding directory_sync_all_def
    by (rule ends_call [OF planless_published(1) both]) (use assms in \<open>simp_all add: published_synced_directory\<close>)
qed

definition linked_from :: "pgm_temp \<Rightarrow> day_fs \<Rightarrow> day_fs \<Rightarrow> bool" where
  "linked_from t s0 s \<longleftrightarrow> dy_names s0 (pt_final_name t) = None
     \<and> dy_names s (pt_final_name t) = Some (FileEntry (pt_inode t)) \<and> synced s (pt_inode t)"

lemma linked_planless [simp]: "planless (linked_from t s0)" "planless (\<lambda>s. linked_from t s0 s \<and> dy_names s n = None)"
  "planless (\<lambda>s. synced s i)" "planless (\<lambda>s. dy_names s0 n = None \<and> synced s i)"
  by (simp_all add: planless_def linked_from_def)

lemma linkat_ends:
  assumes "published_from t s0 s" and "synced s (pt_inode t)" and names: "pt_temp_name t \<noteq> pt_final_name t"
  shows "ends (\<lambda>s. published_from t s0 s \<and> synced s (pt_inode t)) (still t s0 (linked_from t s0))
      (linkat (pt_inode t) (pt_final_name t) s)"
  unfolding linkat_def
proof (rule ends_call [OF planless_published(2) planless_published(2)])
  fix s assume "published_from t s0 s \<and> synced s (pt_inode t)"
  then have s: "published_from t s0 s" "synced s (pt_inode t)" by simp_all
  show "ends (\<lambda>s. published_from t s0 s \<and> synced s (pt_inode t)) (still t s0 (linked_from t s0))
      (if dy_names s (pt_final_name t) \<noteq> None then (Inl (LayoutIo EEXIST), s)
       else (Inr (), (touch (pt_inode t) (\<lambda>f. f) s)\<lparr>dy_names := (dy_names s)(pt_final_name t := Some (FileEntry (pt_inode t)))\<rparr>))"
    using s published_linked [OF s _ names] by (simp add: linked_from_def)
qed (use assms in simp_all)

lemma ends_link:
  assumes "published_from t s0 s" and "synced s (pt_inode t)" and names: "pt_temp_name t \<noteq> pt_final_name t"
  shows "ends (published_from t s0) (still t s0 (linked_from t s0)) (link_open_file (pt_inode t) (pt_final_name t) s)"
proof (cases "linkat (pt_inode t) (pt_final_name t) s")
  case (Pair r s1)
  note first = linkat_ends [OF assms, unfolded Pair]
  show ?thesis
  proof (cases r)
    case (Inl e)
    then have s1: "published_from t s0 s1" "synced s1 (pt_inode t)" using first by simp_all
    show ?thesis
    proof (cases "linkat (pt_inode t) (pt_final_name t) s1")
      case second: (Pair r2 s2)
      then show ?thesis using linkat_ends [OF s1 names] Pair Inl s1 by (cases r2) (simp_all add: link_open_file_def)
    qed
  next
    case (Inr u)
    then show ?thesis using first Pair by (simp add: link_open_file_def)
  qed
qed

lemma ends_unlink_temp:
  assumes "published_from t s0 s" and "linked_from t s0 s" and "pt_temp_name t \<noteq> pt_final_name t"
  shows "ends (published_from t s0) (still t s0 (\<lambda>s. linked_from t s0 s \<and> dy_names s (pt_temp_name t) = None))
      (unlink_at (pt_temp_name t) s)"
proof -
  have both: "planless (\<lambda>s. published_from t s0 s \<and> linked_from t s0 s)"
    by (simp add: planless_def published_from_def linked_from_def)
  show ?thesis
    unfolding unlink_at_def
  proof (rule ends_call [OF planless_published(1) both])
    fix s assume s: "published_from t s0 s \<and> linked_from t s0 s"
    note unlinked = published_unlinked [OF conjunct1 [OF s] assms(3)]
    show "ends (published_from t s0) (still t s0 (\<lambda>s. linked_from t s0 s \<and> dy_names s (pt_temp_name t) = None))
      (case dy_names s (pt_temp_name t) of
         None \<Rightarrow> (Inl (LayoutIo ENOENT), s)
       | Some (FileEntry i) \<Rightarrow> (Inr (), (touch i (\<lambda>f. f) s)\<lparr>dy_names := (dy_names s)(pt_temp_name t := None)\<rparr>)
       | Some _ \<Rightarrow> (Inr (), s\<lparr>dy_names := (dy_names s)(pt_temp_name t := None)\<rparr>))"
      using s assms(3) by (simp add: unlinked linked_from_def split: option.split day_entry.split)
  qed (use assms in simp_all)
qed

section \<open>Publication\<close>

text \<open>After a successful publication the final name is durable and the temporary one is gone for good.\<close>

definition publication_done :: "pgm_temp \<Rightarrow> day_fs \<Rightarrow> day_fs \<Rightarrow> bool" where
  "publication_done t s0 s \<longleftrightarrow> dy_names s0 (pt_final_name t) = None
     \<and> dy_names s (pt_final_name t) = Some (FileEntry (pt_inode t)) \<and> synced s (pt_inode t)
     \<and> dy_names s (pt_temp_name t) = None \<and> dy_durable s = dy_names s"

abbreviation (input) published_as :: "pgm_temp \<Rightarrow> day_fs \<Rightarrow> pgm_temp \<Rightarrow> day_fs \<Rightarrow> bool" where
  "published_as t s0 \<equiv> \<lambda>t' s. published_from t s0 s \<and> publication_done t s0 s \<and> t' = t\<lparr>pt_published := True\<rparr>"

lemma finish_publication_ends:
  assumes names: "pt_temp_name t \<noteq> pt_final_name t" and s1: "published_from t s0 s1" "linked_from t s0 s1"
  shows "ends (published_from t s0) (published_as t s0) (finish_publication t s1)"
proof -
  let ?unlinked = "\<lambda>s. linked_from t s0 s \<and> dy_names s (pt_temp_name t) = None"
  note unlinked = ends_unlink_temp [OF _ _ names]
  have synced: "ends (published_from t s0) (published_as t s0) (fs_bind (directory_sync_all s) (\<lambda>_ s. (Inr (t\<lparr>pt_published := True\<rparr>), s)))"
    if "published_from t s0 s" "?unlinked s" for s
    by (rule ends_bind [OF ends_sync_directory [OF linked_planless(2) _ that]])
       (simp_all add: publication_done_def linked_from_def)
  have cleaned: "ends (published_from t s0) (published_as t s0)
      (fs_bind (unlink_at (pt_temp_name t) s) (\<lambda>_ s. fs_bind (directory_sync_all s) (\<lambda>_ s. (Inr (t\<lparr>pt_published := True\<rparr>), s))))"
    if "published_from t s0 s" "linked_from t s0 s" for s
    by (rule ends_bind [OF unlinked [OF that]]) (use synced in simp)
  have durable: "ends (published_from t s0) (published_as t s0)
      (fs_bind (directory_sync_all s) (\<lambda>_ s. fs_bind (unlink_at (pt_temp_name t) s) (\<lambda>_ s.
        fs_bind (directory_sync_all s) (\<lambda>_ s. (Inr (t\<lparr>pt_published := True\<rparr>), s)))))"
    if "published_from t s0 s" "linked_from t s0 s" for s
    by (rule ends_bind [OF ends_sync_directory [OF linked_planless(1) _ that]])
       (use cleaned in \<open>simp_all add: linked_from_def\<close>)
  have checked: "ends (published_from t s0) (still t s0 (linked_from t s0)) (verify_named_identity (pt_final_name t) found (pt_temp_name t) s)"
    if "published_from t s0 s" "linked_from t s0 s" for found s
    using that by (intro ends_verify) simp_all
  show ?thesis
    unfolding finish_publication_def
    by (rule ends_bind [OF ends_read(2) [OF linked_planless(1) s1]], rule ends_bind, rule checked) (use durable in auto)
qed

lemma link_and_finish_ends:
  assumes names: "pt_temp_name t \<noteq> pt_final_name t" and s1: "published_from t s0 s1" "synced s1 (pt_inode t)"
  shows "ends (published_from t s0) (published_as t s0) (link_and_finish t s1)"
proof (cases "link_open_file (pt_inode t) (pt_final_name t) s1")
  case (Pair r s2)
  have linked: "ends (published_from t s0) (still t s0 (linked_from t s0)) (r, s2)"
    using ends_link [OF s1 names] unfolding Pair .
  show ?thesis
  proof (cases r)
    case (Inr u)
    then have "published_from t s0 s2" "linked_from t s0 s2" using linked by simp_all
    then show ?thesis using finish_publication_ends [OF names] Pair Inr by (simp add: link_and_finish_def)
  qed (use linked Pair in \<open>simp add: link_and_finish_def\<close>)
qed

lemma publish_ends:
  assumes names: "pt_temp_name t \<noteq> pt_final_name t"
  shows "ends (published_from t s) (published_as t s) (publish t s)"
proof -
  have verified: "ends (published_from t s) (published_as t s)
      (fs_bind (verify_named_identity (pt_temp_name t) expected (pt_temp_name t) s1) (\<lambda>_ s. link_and_finish t s))"
    if "published_from t s s1" "synced s1 (pt_inode t)" for expected s1
    by (rule ends_bind [OF ends_verify [OF linked_planless(3) that]]) (use link_and_finish_ends [OF names] in simp)
  show ?thesis
    unfolding publish_def
    by (rule ends_bind [OF ends_sync_file [OF published_from_refl]], rule ends_bind, rule ends_read(2) [OF linked_planless(3)])
       (use verified in \<open>auto simp: Let_def\<close>)
qed

section \<open>Crashes\<close>

text \<open>
  After a crash each name is as it was last or as it was last synchronised, so is what a later crash
  can bring back, and a synchronised file is intact.
\<close>

definition after_crash :: "day_fs \<Rightarrow> day_fs \<Rightarrow> bool" where
  "after_crash s s' \<longleftrightarrow> (\<forall>n. {dy_names s' n, dy_durable s' n} \<subseteq> {dy_names s n, dy_durable s n}) \<and> dy_next s \<le> dy_next s'
     \<and> (\<forall>k. synced s k \<longrightarrow> content s' k = content s k \<and> synced s' k)"

lemma crash_name: "after_crash s s' \<Longrightarrow> dy_names s' n \<in> {dy_names s n, dy_durable s n}"
  unfolding after_crash_def by blast

definition file_at :: "day_fs \<Rightarrow> string \<Rightarrow> u8 list option" where
  "file_at s name = (case dy_names s name of Some (FileEntry i) \<Rightarrow> Some (content s i) | _ \<Rightarrow> None)"

text \<open>A name that a crash cannot change, with content that a crash cannot change.\<close>

definition settled :: "day_fs \<Rightarrow> string \<Rightarrow> bool" where
  "settled s name \<longleftrightarrow> dy_durable s name = dy_names s name \<and> (\<forall>i. dy_names s name = Some (FileEntry i) \<longrightarrow> synced s i)"

lemma after_crash_refl: "after_crash s s"
  by (simp add: after_crash_def)

lemma published_crash:
  assumes from_s: "published_from t s s'" and ok: "settled s (pt_final_name t)" and crash: "after_crash s' s''"
  shows "(dy_names s'' (pt_final_name t) = dy_names s (pt_final_name t) \<and> file_at s'' (pt_final_name t) = file_at s (pt_final_name t))
    \<or> (dy_names s (pt_final_name t) = None \<and> file_at s'' (pt_final_name t) = Some (content s (pt_inode t)))"
proof -
  let ?F = "pt_final_name t" and ?new = "Some (FileEntry (pt_inode t))"
  have "dy_durable s' ?F \<in> {dy_durable s ?F, dy_names s ?F, dy_names s' ?F}" using from_s unfolding published_from_def by blast
  then have "dy_names s'' ?F \<in> {dy_names s ?F, dy_names s' ?F}"
    using crash_name [OF crash, of ?F] ok unfolding settled_def by (metis insertE insertI1 insertI2 singletonD)
  then consider "dy_names s'' ?F = dy_names s ?F"
    | "dy_names s ?F = None" "dy_names s'' ?F = ?new" "synced s' (pt_inode t)"
    using from_s unfolding published_from_def by (metis insertE singletonD)
  then show ?thesis
  proof cases
    case 1
    have "content s'' i = content s i" if "dy_names s ?F = Some (FileEntry i)" for i
    proof -
      have "synced s' i" and "content s' i = content s i" using from_s ok that unfolding published_from_def settled_def by blast+
      then show ?thesis using crash unfolding after_crash_def by simp
    qed
    then show ?thesis using 1 by (simp add: file_at_def split: option.split day_entry.split)
  next
    case 2
    then have "content s'' (pt_inode t) = content s (pt_inode t)"
      using crash from_s unfolding after_crash_def published_from_def by metis
    then show ?thesis using 2 by (simp add: file_at_def)
  qed
qed

lemma done_crash:
  assumes "published_from t s s'" and "publication_done t s s'" and "after_crash s' s''"
  shows "dy_names s (pt_final_name t) = None \<and> file_at s'' (pt_final_name t) = Some (content s (pt_inode t))
    \<and> dy_names s'' (pt_temp_name t) = None"
proof -
  have "dy_names s'' n = dy_names s' n" for n
    using assms(2) crash_name [OF assms(3), of n] unfolding publication_done_def by (metis insertE singletonD)
  moreover have "content s'' (pt_inode t) = content s (pt_inode t)"
    using assms unfolding publication_done_def after_crash_def published_from_def by metis
  ultimately show ?thesis using assms(2) by (simp add: publication_done_def file_at_def)
qed

lemma published_crash_synced:
  assumes from_s: "published_from t s s'" and ok: "settled s (pt_final_name t)" and crash: "after_crash s' s''"
    and named: "dy_names s'' (pt_final_name t) = Some (FileEntry i)"
  shows "synced s'' i"
proof -
  let ?F = "pt_final_name t"
  have "dy_durable s' ?F \<in> {dy_durable s ?F, dy_names s ?F, dy_names s' ?F}" using from_s unfolding published_from_def by blast
  then have "Some (FileEntry i) \<in> {dy_names s ?F, dy_names s' ?F}"
    using crash_name [OF crash, of ?F] ok named unfolding settled_def by (metis insertE insertI1 insertI2 singletonD)
  then have "synced s' i"
    using from_s ok unfolding published_from_def settled_def by (metis day_entry.inject insertE option.inject singletonD)
  then show ?thesis using crash unfolding after_crash_def by blast
qed

text \<open>
  C17. Publication is atomic and never replaces a file: whichever calls fail and wherever the process or
  the machine stops, the final name afterwards denotes what it denoted before or, where it was free,
  the complete temporary; after a success it denotes the temporary for good, the temporary name is
  gone for good, and no other name of the directory has changed.
\<close>

theorem publish_atomic:
  assumes names: "pt_temp_name t \<noteq> pt_final_name t" and ok: "settled s (pt_final_name t)"
    and run: "publish t s = (r, s')" and crash: "after_crash s' s''"
  shows "((dy_names s'' (pt_final_name t) = dy_names s (pt_final_name t) \<and> file_at s'' (pt_final_name t) = file_at s (pt_final_name t))
      \<or> (dy_names s (pt_final_name t) = None \<and> file_at s'' (pt_final_name t) = Some (content s (pt_inode t))))
    \<and> (\<not> isl r \<longrightarrow> dy_names s (pt_final_name t) = None \<and> file_at s'' (pt_final_name t) = Some (content s (pt_inode t))
         \<and> dy_names s'' (pt_temp_name t) = None)
    \<and> (\<forall>n. n \<noteq> pt_temp_name t \<and> n \<noteq> pt_final_name t \<longrightarrow> dy_names s' n = dy_names s n)"
proof -
  have ends: "ends (published_from t s) (published_as t s) (r, s')" using publish_ends [OF names, of s] by (simp add: run)
  then have from_s: "published_from t s s'" by (cases r) simp_all
  moreover have "publication_done t s s'" if "\<not> isl r" using ends that by (cases r) simp_all
  ultimately show ?thesis
    using published_crash [OF from_s ok crash] done_crash [OF from_s _ crash] by (auto simp: published_from_def)
qed

definition demo_day :: day_fs where
  "demo_day = \<lparr>dy_files = (\<lambda>i. \<lparr>df_bytes = [80, 71], df_durable = [], df_mtime = 3, df_ctime = 4\<rparr>),
     dy_names = [''7.pgm.1.0.tmp'' \<mapsto> FileEntry 5], dy_durable = Map.empty, dy_next = 6, dy_clock = 9, dy_plan = []\<rparr>"

definition demo_temp :: pgm_temp where
  "demo_temp = \<lparr>pt_inode = 5, pt_prepared_identity = None, pt_temp_name = ''7.pgm.1.0.tmp'', pt_final_name = ''7.pgm'',
     pt_id = 7, pt_published = False\<rparr>"

lemmas fs_defs = fs_bind_def fs_call_def next_fs_def file_sync_all_def identity_from_file_def verify_named_identity_def
  open_regular_at_def same_named_object_def linkat_def link_open_file_def directory_sync_all_def unlink_at_def touch_def
  identity_of_def

lemma publish_atomic_witness:
  "file_at (snd (publish demo_temp demo_day)) ''7.pgm'' = Some [80, 71]"
proof -
  have "\<exists>t. fst (publish demo_temp demo_day) = Inr t"
    by (simp add: publish_def link_and_finish_def finish_publication_def fs_defs demo_temp_def demo_day_def Let_def)
  then have "\<not> isl (fst (publish demo_temp demo_day))" by auto
  then show ?thesis
    using publish_atomic [of demo_temp demo_day "fst (publish demo_temp demo_day)" "snd (publish demo_temp demo_day)"
        "snd (publish demo_temp demo_day)"] after_crash_refl
    by (simp add: demo_temp_def demo_day_def settled_def content_def)
qed

section \<open>Calls that do not fail\<close>

text \<open>With no fault in store a temporary that is in its place is published where the final name is free.\<close>

definition in_place :: "pgm_temp \<Rightarrow> day_fs \<Rightarrow> bool" where
  "in_place t s \<longleftrightarrow> dy_plan s = [] \<and> dy_names s (pt_temp_name t) = Some (FileEntry (pt_inode t))
     \<and> pt_prepared_identity t = Some (identity_of (pt_inode t) (dy_files s (pt_inode t))) \<and> pt_temp_name t \<noteq> pt_final_name t"

lemma publish_quiet:
  assumes "in_place t s" and "dy_names s (pt_final_name t) = None"
  shows "\<exists>s'. publish t s = (Inr (t\<lparr>pt_published := True\<rparr>), s') \<and> dy_plan s' = []"
  using assms
  by (simp add: publish_def link_and_finish_def finish_publication_def fs_defs Let_def in_place_def)

lemma publish_exists_quiet:
  assumes "in_place t s" and "dy_names s (pt_final_name t) \<noteq> None"
  shows "\<exists>s'. publish t s = (Inl (SegmentAlreadyExists (pt_id t)), s') \<and> dy_plan s' = [] \<and> dy_names s' = dy_names s
    \<and> (\<forall>k. content s' k = content s k) \<and> identity_of (pt_inode t) (dy_files s' (pt_inode t)) = identity_of (pt_inode t) (dy_files s (pt_inode t))
    \<and> (\<forall>k. identity_of k (dy_files s' k) = identity_of k (dy_files s k))"
  using assms
  by (auto simp: publish_def link_and_finish_def fs_defs Let_def in_place_def EEXIST_def ENOENT_def content_def)

text \<open>Removing the temporary, by \<open>discard\<close> or when the handle is dropped, is within what publication changes.\<close>

lemma unlink_temp_ends:
  assumes names: "pt_temp_name t \<noteq> pt_final_name t" and s1: "published_from t s0 s1"
  shows "ends (published_from t s0) (\<lambda>_. published_from t s0) (unlink_named_if_identity (pt_temp_name t) expected s1)"
proof -
  have unlink: "ends (published_from t s0) (\<lambda>_. published_from t s0) (unlink_at (pt_temp_name t) s)" if "published_from t s0 s" for s
    unfolding unlink_at_def
    by (rule ends_call [OF planless_published(1) planless_published(1) that])
       (simp_all add: published_unlinked [OF _ names] split: option.split day_entry.split)
  have read: "ends (published_from t s0) (\<lambda>_. published_from t s0) (identity_from_file i s)"
    "ends (published_from t s0) (\<lambda>_. published_from t s0) (open_regular_at n s)" if "published_from t s0 s" for i n s
    using ends_read [of "\<lambda>_. True", OF _ that] by (simp_all add: planless_def)
  have checked: "ends (published_from t s0) (\<lambda>_. published_from t s0)
      (fs_bind (identity_from_file i s) (\<lambda>found s. if \<not> same_named_object found expected then (Inr False, s)
        else fs_bind (unlink_at (pt_temp_name t) s) (\<lambda>_ s. (Inr True, s))))" if "published_from t s0 s" for i s
  proof (rule ends_bind [OF read(1) [OF that]])
    fix found s assume s: "published_from t s0 s"
    show "ends (published_from t s0) (\<lambda>_. published_from t s0) (if \<not> same_named_object found expected then (Inr False, s)
        else fs_bind (unlink_at (pt_temp_name t) s) (\<lambda>_ s. (Inr True, s)))"
      using ends_bind [OF unlink [OF s], of "\<lambda>_. published_from t s0" "\<lambda>_ s. (Inr True, s)"] s by simp
  qed
  show ?thesis
  proof (cases "open_regular_at (pt_temp_name t) s1")
    case (Pair r s2)
    then show ?thesis
      using read(2) [OF s1, of "pt_temp_name t"] checked by (cases r) (simp_all add: unlink_named_if_identity_def)
  qed
qed

lemma discard_ends:
  assumes names: "pt_temp_name t \<noteq> pt_final_name t" and s1: "published_from t s0 s1"
  shows "ends (published_from t s0) (\<lambda>_. published_from t s0) (discard t s1)"
proof -
  have synced: "ends (published_from t s0) (\<lambda>_. published_from t s0) (directory_sync_all s)" if "published_from t s0 s" for s
    using ends_sync_directory [of "\<lambda>_. True", OF _ _ that] by (simp add: planless_def ends_def split: prod.splits sum.splits)
  have read: "ends (published_from t s0) (\<lambda>_. published_from t s0) (identity_from_file i s)" if "published_from t s0 s" for i s
    using ends_read(2) [of "\<lambda>_. True", OF _ that] by (simp add: planless_def)
  show ?thesis
    unfolding discard_def
    by (rule ends_bind [OF read [OF s1]], rule ends_bind [OF unlink_temp_ends [OF names]], assumption)
       (simp, intro impI, rule ends_bind [OF synced], simp_all)
qed

lemma drop_temp_published:
  assumes names: "pt_temp_name t \<noteq> pt_final_name t" and s1: "published_from t s0 s1"
  shows "published_from t s0 (drop_temp t s1)"
proof -
  have read: "ends (published_from t s0) (\<lambda>_. published_from t s0) (identity_from_file (pt_inode t) s1)"
    using ends_read(2) [of "\<lambda>_. True", OF _ s1] by (simp add: planless_def)
  obtain r s2 where r: "identity_from_file (pt_inode t) s1 = (r, s2)" by fastforce
  then have s2: "published_from t s0 s2" using read by (cases r) simp_all
  have "published_from t s0 (snd (unlink_named_if_identity (pt_temp_name t) expected s2))" for expected
    using unlink_temp_ends [OF names s2, of expected]
    by (cases "unlink_named_if_identity (pt_temp_name t) expected s2"; cases "fst (unlink_named_if_identity (pt_temp_name t) expected s2)") simp_all
  then show ?thesis using s1 s2 by (simp add: drop_temp_def r split: sum.split)
qed

end
