(* ===== verification/Segment.thy ===== *)
theory Segment
  imports Segment_Dictionary Pgm_Publish
begin

text \<open>
  Sealing (\<open>crates/kronika-writer/src/segment.rs\<close>): the parts of a journal are merged by section type into
  one immutable PGM.  The sections of every data type are decoded, concatenated in journal order and
  encoded once; the dictionaries are merged (Segment_Dictionary); the catalog comes last.  The file is
  validated and published without replacing another; where the final name is taken, sealing
  succeeds only if the existing file is the same bytes.

  Output is buffered: the model writes it with one call, which may stop after any prefix.  Reads of
  an open file fail only past its end.
\<close>

section \<open>Limits and summary\<close>

definition MAX_CATALOG_BYTES :: nat where "MAX_CATALOG_BYTES = 64 * 1024 * 1024"
definition COMPARE_BUFFER_BYTES :: nat where "COMPARE_BUFFER_BYTES = 64 * 1024"
definition MAX_CATALOG_ENTRIES :: nat where "MAX_CATALOG_ENTRIES = (MAX_CATALOG_BYTES - META_LEN) div ENTRY_LEN"

record seal_summary =
  ss_sections :: nat
  ss_bytes :: nat
  ss_min_ts :: i64
  ss_max_ts :: i64

definition i64_MAX :: i64 where "i64_MAX = 0x7FFFFFFFFFFFFFFF"
definition i64_MIN :: i64 where "i64_MIN = 0x8000000000000000"

definition i64_min :: "i64 \<Rightarrow> i64 \<Rightarrow> i64" where
  "i64_min a b = (if sint a \<le> sint b then a else b)"

definition i64_max :: "i64 \<Rightarrow> i64 \<Rightarrow> i64" where
  "i64_max a b = (if sint a \<le> sint b then b else a)"

section \<open>The plan\<close>

record segment_plan =
  sp_by_type :: "(u32, section_descriptor list) btree_map"
  sp_min_ts :: i64
  sp_max_ts :: i64
  sp_window_count :: u32

definition push_descriptor ::
  "section_descriptor \<Rightarrow> (u32, section_descriptor list) btree_map \<Rightarrow> (u32, section_descriptor list) btree_map" where
  "push_descriptor d m =
     (let t = e_type_id (sx_entry d) in
      om_insert t ((case om_get m t of None \<Rightarrow> [] | Some ds \<Rightarrow> ds) @ [d]) m)"

fun plan_entries ::
  "journal_part_ref \<Rightarrow> entry list \<Rightarrow> nat \<Rightarrow> (u32, section_descriptor list) btree_map
    \<Rightarrow> seal_error + (nat \<times> (u32, section_descriptor list) btree_map)" where
  "plan_entries part [] section_count by_type = Inr (section_count, by_type)"
| "plan_entries part (e # es) section_count by_type =
     (case usize_checked_add section_count 1 of
        None \<Rightarrow> Inl (SealArithmeticOverflow ''section descriptor count'') | Some section_count \<Rightarrow>
      if MAX_SECTION_ROWS < section_count then Inl (SealTooManySections section_count MAX_SECTION_ROWS)
      else plan_entries part es section_count (push_descriptor \<lparr>sx_part = part, sx_entry = e\<rparr> by_type))"

record plan_state =
  ps_section_count :: nat
  ps_by_type :: "(u32, section_descriptor list) btree_map"
  ps_min_ts :: i64
  ps_max_ts :: i64

fun plan_parts :: "seal_env \<Rightarrow> journal \<Rightarrow> journal_part_ref list \<Rightarrow> plan_state \<Rightarrow> seal_error + plan_state" where
  "plan_parts env j [] st = Inr st"
| "plan_parts env j (part_ref # parts) st =
     (case read_part j part_ref of Inl e \<Rightarrow> Inl (SealJournal e) | Inr part \<Rightarrow>
      case validate_part_catalog (se_crc env) part of Inl e \<Rightarrow> Inl (SealPart e) | Inr catalog \<Rightarrow>
      if c_format_version catalog \<noteq> FORMAT_VERSION then Inl (SealUnsupportedFormat (c_format_version catalog))
      else case plan_entries part_ref (c_entries catalog) (ps_section_count st) (ps_by_type st) of
        Inl e \<Rightarrow> Inl e | Inr (section_count, by_type) \<Rightarrow>
      plan_parts env j parts \<lparr>ps_section_count = section_count, ps_by_type = by_type,
        ps_min_ts = i64_min (ps_min_ts st) (c_min_ts catalog), ps_max_ts = i64_max (ps_max_ts st) (c_max_ts catalog)\<rparr>)"

definition plan_start :: plan_state where
  "plan_start = \<lparr>ps_section_count = 0, ps_by_type = [], ps_min_ts = i64_MAX, ps_max_ts = i64_MIN\<rparr>"

definition plan_segment :: "seal_env \<Rightarrow> journal \<Rightarrow> seal_error + segment_plan" where
  "plan_segment env j =
     (if \<not> length (j_parts j) < u32_limit then Inl (SealArithmeticOverflow ''window count'')
      else case plan_parts env j (j_parts j) plan_start of Inl e \<Rightarrow> Inl e | Inr st \<Rightarrow>
      let empty_range = sint (ps_max_ts st) < sint (ps_min_ts st) in
      Inr \<lparr>sp_by_type = ps_by_type st, sp_min_ts = (if empty_range then 0 else ps_min_ts st),
           sp_max_ts = (if empty_range then 0 else ps_max_ts st), sp_window_count = of_nat (length (j_parts j))\<rparr>)"

section \<open>Data sections\<close>

fun sum_descriptor_rows :: "section_descriptor list \<Rightarrow> nat \<Rightarrow> seal_error + nat" where
  "sum_descriptor_rows [] rows = Inr rows"
| "sum_descriptor_rows (d # ds) rows =
     (case usize_checked_add rows (unat (e_rows (sx_entry d))) of
        None \<Rightarrow> Inl (SealArithmeticOverflow ''section row count'') | Some rows \<Rightarrow> sum_descriptor_rows ds rows)"

definition aggregate_rows :: "u32 \<Rightarrow> section_descriptor list \<Rightarrow> seal_error + nat" where
  "aggregate_rows type_id ds =
     (case sum_descriptor_rows ds 0 of Inl e \<Rightarrow> Inl e | Inr rows \<Rightarrow>
      if MAX_SECTION_ROWS < rows then Inl (SealCodec (TooManyRows rows MAX_SECTION_ROWS))
      else if type_id = 0 then Inl (SealCodec (UnknownType type_id))
      else Inr rows)"

fun decode_descriptors ::
  "seal_env \<Rightarrow> journal \<Rightarrow> u32 \<Rightarrow> section_descriptor list \<Rightarrow> nat \<Rightarrow> nat \<Rightarrow> seal_error + (record_batch list \<times> nat)" where
  "decode_descriptors env j type_id [] decoded_rows list_values = Inr ([], decoded_rows)"
| "decode_descriptors env j type_id (d # ds) decoded_rows list_values =
     (case read_verified_body env j d of Inl e \<Rightarrow> Inl e | Inr body \<Rightarrow>
      case decode_any (se_backend env) (se_registry env) type_id body of Inl e \<Rightarrow> Inl (SealCodec e) | Inr decoded \<Rightarrow>
      let rows = ds_rows (dc_stats decoded) in
      if rows \<noteq> unat (e_rows (sx_entry d)) then Inl (SealRowCountMismatch type_id (e_rows (sx_entry d)) rows)
      else case usize_checked_add decoded_rows rows of
        None \<Rightarrow> Inl (SealArithmeticOverflow ''decoded row count'') | Some projected_rows \<Rightarrow>
      case usize_checked_add list_values (ds_list_i32_child_values (dc_stats decoded)) of
        None \<Rightarrow> Inl (SealArithmeticOverflow ''decoded ListI32 child count'') | Some projected_values \<Rightarrow>
      case sealed_data_body_bound (se_registry env) type_id projected_rows projected_values of
        Inl e \<Rightarrow> Inl (SealCodec e) | Inr _ \<Rightarrow>
      case decode_descriptors env j type_id ds projected_rows projected_values of Inl e \<Rightarrow> Inl e
      | Inr (batches, total_rows) \<Rightarrow> Inr (dc_batches decoded @ batches, total_rows))"

text \<open>The body and the row count of one data type.\<close>

definition seal_data_body :: "seal_env \<Rightarrow> journal \<Rightarrow> u32 \<Rightarrow> section_descriptor list \<Rightarrow> seal_error + (u8 list \<times> u32)" where
  "seal_data_body env j type_id ds =
     (case aggregate_rows type_id ds of Inl e \<Rightarrow> Inl e | Inr declared_rows \<Rightarrow>
      case decode_descriptors env j type_id ds 0 0 of Inl e \<Rightarrow> Inl e | Inr (batches, decoded_rows) \<Rightarrow>
      if decoded_rows \<noteq> declared_rows
      then Inl (SealRowCountMismatch type_id (of_nat (min declared_rows (u32_limit - 1))) decoded_rows)
      else case encode_sealed_batches (se_backend env) (se_registry env) type_id batches of Inl e \<Rightarrow> Inl (SealCodec e) | Inr body \<Rightarrow>
      if \<not> declared_rows < u32_limit then Inl (SealArithmeticOverflow ''section row count'')
      else Inr (body, of_nat declared_rows))"

section \<open>The output\<close>

record segment_out =
  so_bytes :: "u8 list"
  so_entries :: "entry list"
  so_offset :: u64

definition checked_catalog_entries :: "nat \<Rightarrow> nat \<Rightarrow> seal_error + nat" where
  "checked_catalog_entries current additional =
     (case usize_checked_add current additional of
        None \<Rightarrow> Inl (SealCatalogTooLarge (usize_limit - 1) MAX_CATALOG_ENTRIES) | Some attempted \<Rightarrow>
      if MAX_CATALOG_ENTRIES < attempted then Inl (SealCatalogTooLarge attempted MAX_CATALOG_ENTRIES) else Inr attempted)"

text \<open>The result and the output so far, which stays when the result is an error.\<close>

definition write_section ::
  "seal_env \<Rightarrow> u32 \<Rightarrow> u32 \<Rightarrow> u8 list \<Rightarrow> segment_out \<Rightarrow> (seal_error + unit) \<times> segment_out" where
  "write_section env type_id rows body out =
     (if so_entries out \<noteq> [] \<and> e_type_id (last (so_entries out)) \<ge> type_id then (Inl (SealCodec SchemaMismatch), out)
      else case checked_catalog_entries (length (so_entries out)) 1 of Inl e \<Rightarrow> (Inl e, out) | Inr _ \<Rightarrow>
      let out1 = out\<lparr>so_bytes := so_bytes out @ body,
            so_entries := so_entries out @ [\<lparr>e_type_id = type_id, e_flags = 0, e_offset = so_offset out,
              e_len = of_nat (length body), e_rows = rows, e_crc32c = se_crc env body\<rparr>]\<rparr> in
      case checked_add (so_offset out) (of_nat (length body)) of
        None \<Rightarrow> (Inl (SealArithmeticOverflow ''segment offset''), out1)
      | Some offset \<Rightarrow> (Inr (), out1\<lparr>so_offset := offset\<rparr>))"

fun write_data_sections ::
  "seal_env \<Rightarrow> journal \<Rightarrow> (u32 \<times> section_descriptor list) list \<Rightarrow> segment_out \<Rightarrow> (seal_error + unit) \<times> segment_out" where
  "write_data_sections env j [] out = (Inr (), out)"
| "write_data_sections env j ((type_id, ds) # rest) out =
     (case seal_data_body env j type_id ds of Inl e \<Rightarrow> (Inl e, out) | Inr (body, rows) \<Rightarrow>
      case write_section env type_id rows body out of (Inl e, out) \<Rightarrow> (Inl e, out) | (Inr _, out) \<Rightarrow>
      write_data_sections env j rest out)"

fun write_dict_sections :: "seal_env \<Rightarrow> dict_section list \<Rightarrow> segment_out \<Rightarrow> (seal_error + unit) \<times> segment_out" where
  "write_dict_sections env [] out = (Inr (), out)"
| "write_dict_sections env (s # ss) out =
     (case write_section env (dx_type_id s) (of_nat (dx_rows s)) (dx_body s) out of
        (Inl e, out) \<Rightarrow> (Inl e, out) | (Inr _, out) \<Rightarrow> write_dict_sections env ss out)"

definition descriptors_of :: "u32 \<Rightarrow> (u32, section_descriptor list) btree_map \<Rightarrow> section_descriptor list" where
  "descriptors_of t m = (case om_get m t of None \<Rightarrow> [] | Some ds \<Rightarrow> ds)"

definition data_plan :: "(u32, section_descriptor list) btree_map \<Rightarrow> (u32 \<times> section_descriptor list) list" where
  "data_plan m = filter (\<lambda>(t, ds). t \<noteq> DICT_STRINGS_TYPE_ID \<and> t \<noteq> DICT_BLOBS_TYPE_ID) m"

definition out_start :: segment_out where
  "out_start = \<lparr>so_bytes = MAGIC, so_entries = [], so_offset = of_nat (length MAGIC)\<rparr>"

definition segment_catalog :: "segment_plan \<Rightarrow> entry list \<Rightarrow> catalog" where
  "segment_catalog plan entries = \<lparr>c_entries = entries, c_min_ts = sp_min_ts plan, c_max_ts = sp_max_ts plan,
     c_format_version = FORMAT_VERSION, c_window_count = sp_window_count plan\<rparr>"

text \<open>
  The bytes that \<open>write_tmp\<close> produces, with the error where it stops; \<open>Catalog::encode\<close> panics only above
  the length that \<open>checked_catalog_entries\<close> admits.
\<close>

definition build_segment :: "seal_env \<Rightarrow> journal \<Rightarrow> (seal_error + (nat \<times> segment_plan)) \<times> u8 list" where
  "build_segment env j =
     (case plan_segment env j of Inl e \<Rightarrow> (Inl e, []) | Inr plan \<Rightarrow>
      case normalize_dictionary env j (descriptors_of DICT_STRINGS_TYPE_ID (sp_by_type plan))
             (descriptors_of DICT_BLOBS_TYPE_ID (sp_by_type plan)) of
        Inl e \<Rightarrow> (Inl e, []) | Inr dictionary \<Rightarrow>
      case write_data_sections env j (data_plan (sp_by_type plan)) out_start of
        (Inl e, out) \<Rightarrow> (Inl e, so_bytes out) | (Inr _, out) \<Rightarrow>
      case normalized_sections env dictionary of Inl e \<Rightarrow> (Inl e, so_bytes out) | Inr sections \<Rightarrow>
      case write_dict_sections env sections out of
        (Inl e, out) \<Rightarrow> (Inl e, so_bytes out) | (Inr _, out) \<Rightarrow>
      (Inr (length (so_entries out), plan),
       so_bytes out @ the (catalog_encode (se_crc env) (segment_catalog plan (so_entries out)))))"

section \<open>Files\<close>

text \<open>The errno of a failed call on a file.\<close>

definition seal_io :: "layout_error \<Rightarrow> seal_error" where
  "seal_io e = (case e of LayoutIo errno \<Rightarrow> SealIo errno | _ \<Rightarrow> SealLayout e)"

definition seal_bind :: "(layout_error \<Rightarrow> seal_error) \<Rightarrow> 'a fs_result \<Rightarrow>
    ('a \<Rightarrow> day_fs \<Rightarrow> (seal_error + 'b) \<times> day_fs) \<Rightarrow> (seal_error + 'b) \<times> day_fs" where
  "seal_bind err r k = (case r of (Inl e, s) \<Rightarrow> (Inl (err e), s) | (Inr x, s) \<Rightarrow> k x s)"

definition file_length :: "nat \<Rightarrow> day_fs \<Rightarrow> nat fs_result" where
  "file_length i = fs_call (\<lambda>s. (Inr (length (content s i)), s))"

definition write_tmp :: "seal_env \<Rightarrow> journal \<Rightarrow> pgm_temp \<Rightarrow> day_fs \<Rightarrow> (seal_error + seal_summary) \<times> day_fs" where
  "write_tmp env j t s =
     (case build_segment env j of (built, bytes) \<Rightarrow>
      seal_bind seal_io (file_write (pt_inode t) bytes s) (\<lambda>_ s.
      case built of Inl e \<Rightarrow> (Inl e, s) | Inr (sections, plan) \<Rightarrow>
      seal_bind seal_io (file_length (pt_inode t) s) (\<lambda>len s.
      seal_bind seal_io (file_sync_all (pt_inode t) s) (\<lambda>_ s.
      (Inr \<lparr>ss_sections = sections, ss_bytes = len, ss_min_ts = sp_min_ts plan, ss_max_ts = sp_max_ts plan\<rparr>, s)))))"

definition entry_inside :: "nat \<Rightarrow> entry \<Rightarrow> bool" where
  "entry_inside catalog_at e \<longleftrightarrow> unat (e_offset e) \<ge> length MAGIC
     \<and> (case checked_add (e_offset e) (e_len e) of None \<Rightarrow> False | Some last_at \<Rightarrow> unat last_at \<le> catalog_at)"

definition validate_bytes :: "(u8 list \<Rightarrow> u32) \<Rightarrow> u8 list \<Rightarrow> seal_summary \<Rightarrow> bool" where
  "validate_bytes crc bytes expected =
     (if length bytes \<noteq> ss_bytes expected then False
      else if length bytes < length MAGIC + META_LEN + TAIL_INDEX_LEN then False
      else if subslice 0 (length MAGIC) bytes \<noteq> MAGIC then False
      else let tail_at = length bytes - TAIL_INDEX_LEN in
      case tail_decode (drop tail_at bytes) of Inl _ \<Rightarrow> False | Inr tail \<Rightarrow>
      case Option.bind (usize_checked_mul (ss_sections expected) ENTRY_LEN) (\<lambda>n. usize_checked_add n META_LEN) of
        None \<Rightarrow> False | Some catalog_len \<Rightarrow>
      if MAX_CATALOG_BYTES < catalog_len \<or> unat (t_catalog_len tail) \<noteq> catalog_len then False
      else if tail_at < catalog_len \<or> tail_at - catalog_len < length MAGIC then False
      else let catalog_at = tail_at - catalog_len in
      case catalog_view_of crc (subslice catalog_at (catalog_at + catalog_len) bytes) of Inl _ \<Rightarrow> False | Inr v \<Rightarrow>
      v_format_version v = FORMAT_VERSION \<and> unat (v_entry_count v) = ss_sections expected
      \<and> v_min_ts v = ss_min_ts expected \<and> v_max_ts v = ss_max_ts expected
      \<and> list_all (entry_inside catalog_at) (view_entries v))"

definition validate_segment :: "seal_env \<Rightarrow> nat \<Rightarrow> seal_summary \<Rightarrow> day_fs \<Rightarrow> (seal_error + bool) \<times> day_fs" where
  "validate_segment env i expected s =
     seal_bind seal_io (file_length i s) (\<lambda>len s. (Inr (validate_bytes (se_crc env) (content s i) expected), s))"

function chunks_equal :: "u8 list \<Rightarrow> u8 list \<Rightarrow> nat \<Rightarrow> nat \<Rightarrow> bool" where
  "chunks_equal left right offset len =
     (if offset < len then
        let remaining = min (len - offset) COMPARE_BUFFER_BYTES in
        subslice offset (offset + remaining) left = subslice offset (offset + remaining) right
        \<and> chunks_equal left right (offset + remaining) len
      else True)"
  by pat_completeness auto
termination
  by (relation "measure (\<lambda>(left, right, offset, len). len - offset)") (auto simp: COMPARE_BUFFER_BYTES_def)

declare chunks_equal.simps [simp del]

definition files_equal :: "nat \<Rightarrow> nat \<Rightarrow> day_fs \<Rightarrow> (seal_error + bool) \<times> day_fs" where
  "files_equal left right s =
     seal_bind seal_io (identity_from_file left s) (\<lambda>left_identity s.
     seal_bind seal_io (identity_from_file right s) (\<lambda>right_identity s.
     if fi_len right_identity \<noteq> fi_len left_identity then (Inr False, s)
     else if \<not> chunks_equal (content s left) (content s right) 0 (fi_len left_identity) then (Inr False, s)
     else seal_bind seal_io (identity_from_file left s) (\<lambda>left_now s.
          if left_now \<noteq> left_identity then (Inr False, s)
          else seal_bind seal_io (identity_from_file right s) (\<lambda>right_now s. (Inr (right_now = right_identity), s)))))"

section \<open>Sealing\<close>

definition seal_try :: "(seal_error + 'a) \<times> day_fs \<Rightarrow> ('a \<Rightarrow> day_fs \<Rightarrow> (seal_error + 'b) \<times> day_fs) \<Rightarrow> (seal_error + 'b) \<times> day_fs" where
  "seal_try r k = (case r of (Inl e, s) \<Rightarrow> (Inl e, s) | (Inr x, s) \<Rightarrow> k x s)"

text \<open>The final name is taken: the existing file must be valid, equal to the generated one and stay in its place.\<close>

definition check_existing :: "seal_env \<Rightarrow> pgm_temp \<Rightarrow> seal_summary \<Rightarrow> day_fs \<Rightarrow> (seal_error + unit) \<times> day_fs" where
  "check_existing env t summary s =
     seal_bind SealLayout (open_regular_at (pt_final_name t) s) (\<lambda>existing s.
     seal_bind seal_io (identity_from_file existing s) (\<lambda>existing_identity s.
     seal_try (validate_segment env existing summary s) (\<lambda>valid s.
     if \<not> valid then (Inl ExistingSegmentInvalid, s)
     else seal_try (files_equal (pt_inode t) existing s) (\<lambda>equal s.
     if \<not> equal then (Inl ExistingSegmentMismatch, s)
     else seal_bind seal_io (identity_from_file existing s) (\<lambda>identity_now s.
     if identity_now \<noteq> existing_identity then (Inl ExistingSegmentMismatch, s)
     else seal_bind SealLayout (open_regular_at (pt_final_name t) s) (\<lambda>named s.
     seal_bind seal_io (identity_from_file named s) (\<lambda>named_identity s.
     if named_identity \<noteq> existing_identity then (Inl ExistingSegmentMismatch, s) else (Inr (), s))))))))"

text \<open>The end of \<open>seal\<close>: a taken name is no error when its file is the generated one.\<close>

definition publish_or_compare ::
  "seal_env \<Rightarrow> pgm_temp \<Rightarrow> seal_summary \<Rightarrow> day_fs \<Rightarrow> (seal_error + seal_summary) \<times> pgm_temp \<times> day_fs" where
  "publish_or_compare env t summary s =
     (case publish t s of
        (Inr t, s) \<Rightarrow> (Inr summary, t, s)
      | (Inl (SegmentAlreadyExists _), s) \<Rightarrow>
          (case check_existing env t summary s of (Inl e, s) \<Rightarrow> (Inl e, t, s) | (Inr _, s) \<Rightarrow>
           case discard t s of (Inl e, s) \<Rightarrow> (Inl (SealLayout e), t, s) | (Inr t, s) \<Rightarrow> (Inr summary, t, s))
      | (Inl e, s) \<Rightarrow> (Inl (SealLayout e), t, s))"

text \<open>The body of \<open>seal\<close> once the temporary exists; the handle tells the drop whether anything is left to remove.\<close>

definition seal_temp ::
  "seal_env \<Rightarrow> journal \<Rightarrow> pgm_temp \<Rightarrow> day_fs \<Rightarrow> (seal_error + seal_summary) \<times> pgm_temp \<times> day_fs" where
  "seal_temp env j t s =
     (case write_tmp env j t s of (Inl e, s) \<Rightarrow> (Inl e, t, s) | (Inr summary, s) \<Rightarrow>
      case try_clone_file t s of (Inl e, s) \<Rightarrow> (Inl (SealLayout e), t, s) | (Inr t, s) \<Rightarrow>
      case validate_segment env (pt_inode t) summary s of (Inl e, s) \<Rightarrow> (Inl e, t, s) | (Inr valid, s) \<Rightarrow>
      if \<not> valid then (Inl GeneratedSegmentInvalid, t, s)
      else publish_or_compare env t summary s)"

definition seal_segment ::
  "seal_env \<Rightarrow> journal \<Rightarrow> segment_address \<Rightarrow> nat \<Rightarrow> nat \<Rightarrow> day_fs \<Rightarrow> (seal_error + seal_summary) \<times> day_fs" where
  "seal_segment env j address pid sequence s =
     (if j_parts j = [] then (Inl SealEmpty, s)
      else if j_segment_id j \<noteq> None \<and> the (j_segment_id j) \<noteq> sa_id address
      then (Inl (SealSegmentIdMismatch (the (j_segment_id j)) (sa_id address)), s)
      else case create_pgm_temp address pid sequence s of (Inl e, s) \<Rightarrow> (Inl (SealLayout e), s) | (Inr t, s) \<Rightarrow>
      case seal_temp env j t s of (r, t, s) \<Rightarrow> (r, drop_temp t s))"

end
