(* ===== verification/Segment_Format.thy ===== *)
theory Segment_Format
  imports Segment
begin

text \<open>
  The bytes of a sealed segment: whatever the writer completes is a PGM that the writer's own check
  accepts, and that the full validation of a part accepts too.
\<close>

section \<open>The writer's output\<close>

text \<open>The output is the leading magic and the bodies of a list of sections, with their catalog entries.\<close>

definition out_is :: "seal_env \<Rightarrow> section_input list \<Rightarrow> segment_out \<Rightarrow> bool" where
  "out_is env ss out \<longleftrightarrow> so_bytes out = MAGIC @ concat (map si_body ss)
     \<and> so_entries out = fst (build_entries (se_crc env) ss MAGIC) \<and> so_offset out = of_nat (length (so_bytes out))
     \<and> length ss \<le> MAX_CATALOG_ENTRIES \<and> sorted_wrt (<) (map si_type_id ss)"

lemma out_is_start: "out_is env [] out_start"
  by (simp add: out_is_def out_start_def)

lemma build_entries_snoc:
  "fst (build_entries crc (ss @ [s]) out) = fst (build_entries crc ss out)
     @ [\<lparr>e_type_id = si_type_id s, e_flags = 0, e_offset = of_nat (length (out @ concat (map si_body ss))),
         e_len = of_nat (length (si_body s)), e_rows = si_rows s, e_crc32c = crc (si_body s)\<rparr>]"
  by (induction ss arbitrary: out) simp_all

lemma length_entries: "out_is env ss out \<Longrightarrow> length (so_entries out) = length ss"
  by (simp add: out_is_def build_entries_fields)

lemma out_is_order:
  assumes "out_is env ss out" and "\<not> (so_entries out \<noteq> [] \<and> e_type_id (last (so_entries out)) \<ge> t)"
  shows "sorted_wrt (<) (map si_type_id ss @ [t])"
proof (cases "ss = []")
  case False
  have types: "map e_type_id (so_entries out) = map si_type_id ss" using assms(1) by (simp add: out_is_def build_entries_fields)
  then have "so_entries out \<noteq> []" using False by auto
  then have "last (map si_type_id ss) < t" using assms(2) False by (metis last_map linorder_not_less types)
  moreover have "sorted_wrt (<) (map si_type_id ss)" using assms(1) by (simp add: out_is_def)
  then have "sorted_wrt (<) (butlast (map si_type_id ss) @ [last (map si_type_id ss)])" using False by simp
  then have "\<forall>x \<in> set (butlast (map si_type_id ss)). x < last (map si_type_id ss)"
    by (simp add: sorted_wrt_append del: append_butlast_last_id)
  ultimately have "\<forall>x \<in> set (butlast (map si_type_id ss) @ [last (map si_type_id ss)]). x < t" by auto
  then show ?thesis using \<open>sorted_wrt (<) (map si_type_id ss)\<close> False by (simp add: sorted_wrt_append)
qed simp

lemma write_section_out:
  assumes out: "out_is env ss out" and run: "write_section env t rows body out = (Inr u, out')"
  shows "out_is env (ss @ [\<lparr>si_type_id = t, si_rows = rows, si_body = body\<rparr>]) out'"
proof -
  have order: "\<not> (so_entries out \<noteq> [] \<and> e_type_id (last (so_entries out)) \<ge> t)"
    using run by (auto simp: write_section_def split: if_splits)
  obtain n where "checked_catalog_entries (length (so_entries out)) 1 = Inr n"
    using run order by (auto simp: write_section_def split: sum.splits)
  then have room: "Suc (length ss) \<le> MAX_CATALOG_ENTRIES"
    using length_entries [OF out] by (auto simp: checked_catalog_entries_def usize_checked_add_def split: option.splits if_splits)
  obtain offset where offset: "checked_add (so_offset out) (of_nat (length body)) = Some offset"
    and out': "out' = out\<lparr>so_bytes := so_bytes out @ body, so_entries := so_entries out @ [\<lparr>e_type_id = t, e_flags = 0,
        e_offset = so_offset out, e_len = of_nat (length body), e_rows = rows, e_crc32c = se_crc env body\<rparr>], so_offset := offset\<rparr>"
    using run order by (auto simp: write_section_def Let_def split: sum.splits option.splits)
  have "offset = so_offset out + of_nat (length body)"
    using offset by (auto simp: checked_add_def split: if_splits)
  then show ?thesis
    using out out' room out_is_order [OF out order]
    by (simp add: out_is_def build_entries_snoc)
qed

text \<open>The sections of the two kinds.\<close>

definition dict_input :: "dict_section \<Rightarrow> section_input" where
  "dict_input s = \<lparr>si_type_id = dx_type_id s, si_rows = of_nat (dx_rows s), si_body = dx_body s\<rparr>"

definition data_input :: "seal_env \<Rightarrow> journal \<Rightarrow> u32 \<times> section_descriptor list \<Rightarrow> section_input \<Rightarrow> bool" where
  "data_input env j p s \<longleftrightarrow> (\<exists>body rows. seal_data_body env j (fst p) (snd p) = Inr (body, rows)
     \<and> s = \<lparr>si_type_id = fst p, si_rows = rows, si_body = body\<rparr>)"

lemma write_data_sections_out:
  "out_is env ss out \<Longrightarrow> write_data_sections env j ps out = (Inr u, out') \<Longrightarrow>
     \<exists>ds. list_all2 (data_input env j) ps ds \<and> out_is env (ss @ ds) out'"
proof (induction ps arbitrary: ss out)
  case (Cons p ps)
  obtain t descriptors where p: "p = (t, descriptors)" by (cases p)
  obtain body rows where body: "seal_data_body env j t descriptors = Inr (body, rows)"
    using Cons.prems(2) by (auto simp: p split: sum.splits)
  obtain r out1 where first: "write_section env t rows body out = (r, out1)" by fastforce
  then obtain v where r: "r = Inr v" using Cons.prems(2) by (cases r) (auto simp: p body)
  let ?s = "\<lparr>si_type_id = t, si_rows = rows, si_body = body\<rparr>"
  have "out_is env (ss @ [?s]) out1" using write_section_out [OF Cons.prems(1)] first r by blast
  moreover have "write_data_sections env j ps out1 = (Inr u, out')" using Cons.prems(2) by (simp add: p body first r)
  ultimately obtain ds where "list_all2 (data_input env j) ps ds" "out_is env ((ss @ [?s]) @ ds) out'" using Cons.IH by blast
  moreover have "data_input env j p ?s" using body by (simp add: data_input_def p)
  ultimately show ?case by (intro exI [of _ "?s # ds"]) simp
qed simp

lemma write_dict_sections_out:
  "out_is env ss out \<Longrightarrow> write_dict_sections env xs out = (Inr u, out') \<Longrightarrow> out_is env (ss @ map dict_input xs) out'"
proof (induction xs arbitrary: ss out)
  case (Cons x xs)
  obtain r out1 where first: "write_section env (dx_type_id x) (of_nat (dx_rows x)) (dx_body x) out = (r, out1)" by fastforce
  then obtain v where r: "r = Inr v" using Cons.prems(2) by (cases r) auto
  have "out_is env (ss @ [dict_input x]) out1" using write_section_out [OF Cons.prems(1)] first r by (simp add: dict_input_def)
  moreover have "write_dict_sections env xs out1 = (Inr u, out')" using Cons.prems(2) by (simp add: first r)
  ultimately show ?case using Cons.IH by fastforce
qed simp

lemma catalog_encode_block:
  assumes "encoded_len c < u32_limit"
  shows "catalog_encode crc c = Some (catalog_block crc c @ tail_encode \<lparr>t_catalog_len = of_nat (encoded_len c)\<rparr>)"
proof -
  have "write_encoded crc c = Inr (catalog_block crc c @ tail_encode \<lparr>t_catalog_len = of_nat (encoded_len c)\<rparr>)"
    using assms unfolding write_encoded_Inr by simp
  then show ?thesis by (simp add: catalog_encode_def)
qed

text \<open>A completed build: its dictionary, its sections and its bytes.\<close>

lemma encoded_len_catalog: "encoded_len (segment_catalog plan es) = 32 * length es + 32"
  by (simp add: segment_catalog_def encoded_len_def ENTRY_LEN_def META_LEN_def)

lemma build_segment_Inr:
  assumes "build_segment env j = (Inr (n, plan), bytes)"
  obtains dictionary ds xs where
    "plan_segment env j = Inr plan"
    "normalize_dictionary env j (descriptors_of DICT_STRINGS_TYPE_ID (sp_by_type plan))
       (descriptors_of DICT_BLOBS_TYPE_ID (sp_by_type plan)) = Inr dictionary"
    "list_all2 (data_input env j) (data_plan (sp_by_type plan)) ds"
    "normalized_sections env dictionary = Inr xs"
    "sorted_wrt (<) (map si_type_id (ds @ map dict_input xs))"
    "n = length (ds @ map dict_input xs)" "n \<le> MAX_CATALOG_ENTRIES"
    "bytes = part_bytes (se_crc env) (segment_catalog plan (fst (build_entries (se_crc env) (ds @ map dict_input xs) MAGIC)))
       (concat (map si_body (ds @ map dict_input xs)))"
proof -
  obtain p where p: "plan_segment env j = Inr p" using assms by (auto simp: build_segment_def split: sum.splits)
  obtain dictionary where dictionary: "normalize_dictionary env j (descriptors_of DICT_STRINGS_TYPE_ID (sp_by_type p))
       (descriptors_of DICT_BLOBS_TYPE_ID (sp_by_type p)) = Inr dictionary"
    using assms p by (auto simp: build_segment_def split: sum.splits)
  obtain r out1 where data: "write_data_sections env j (data_plan (sp_by_type p)) out_start = (r, out1)" by fastforce
  then obtain v where r: "r = Inr v" using assms p dictionary by (cases r) (auto simp: build_segment_def)
  obtain xs where xs: "normalized_sections env dictionary = Inr xs"
    using assms p dictionary data r by (auto simp: build_segment_def split: sum.splits)
  obtain q out2 where dict: "write_dict_sections env xs out1 = (q, out2)" by fastforce
  then obtain w where q: "q = Inr w" using assms p dictionary data r xs by (cases q) (auto simp: build_segment_def)
  have result: "n = length (so_entries out2)" "plan = p"
    "bytes = so_bytes out2 @ the (catalog_encode (se_crc env) (segment_catalog p (so_entries out2)))"
    using assms p dictionary data r xs dict q by (auto simp: build_segment_def)
  obtain ds where ds: "list_all2 (data_input env j) (data_plan (sp_by_type p)) ds" "out_is env ds out1"
    using write_data_sections_out [OF out_is_start] data r by fastforce
  have out2: "out_is env (ds @ map dict_input xs) out2" using write_dict_sections_out [OF ds(2)] dict q by blast
  let ?ss = "ds @ map dict_input xs"
  have n: "n = length ?ss" using length_entries [OF out2] result by simp
  have few: "n \<le> MAX_CATALOG_ENTRIES" using out2 n by (simp add: out_is_def)
  then have "encoded_len (segment_catalog p (so_entries out2)) < u32_limit"
    using result(1) by (simp add: encoded_len_catalog MAX_CATALOG_ENTRIES_def MAX_CATALOG_BYTES_def META_LEN_def ENTRY_LEN_def)
  then have "bytes = part_bytes (se_crc env) (segment_catalog p (fst (build_entries (se_crc env) ?ss MAGIC))) (concat (map si_body ?ss))"
    using result(3) out2 by (simp add: out_is_def catalog_encode_block part_bytes_def)
  then show thesis
    using that [of dictionary ds xs] ds(1) xs n few p dictionary result(2) out2 by (simp add: out_is_def)
qed

section \<open>The writer's check\<close>

lemma catalog_view_block:
  assumes "length (c_entries c) < u32_limit"
  obtains v where "catalog_view_of crc (catalog_block crc c) = Inr v" and "view_entries v = c_entries c"
    and "unat (v_entry_count v) = length (c_entries c)" and "v_format_version v = c_format_version c"
    and "v_min_ts v = c_min_ts c" and "v_max_ts v = c_max_ts c"
proof -
  let ?b = "catalog_block crc c"
  have decoded: "catalog_decode crc ?b = Inr c" by (rule catalog_decode_block [OF assms])
  then obtain v where v: "catalog_view_of crc ?b = Inr v" by (auto simp: catalog_decode_def split: sum.splits)
  have "c = \<lparr>c_entries = view_entries v, c_min_ts = v_min_ts v, c_max_ts = v_max_ts v,
      c_format_version = v_format_version v, c_window_count = v_window_count v\<rparr>"
    using decoded v by (simp add: catalog_decode_def)
  then have parts: "view_entries v = c_entries c" "v_format_version v = c_format_version c" "v_min_ts v = c_min_ts c" "v_max_ts v = c_max_ts c"
    by (metis catalog.select_convs)+
  have "v_entry_count v = of_nat ((length ?b - META_LEN) div ENTRY_LEN)"
    using v by (auto simp: catalog_view_of_def Let_def split: if_splits)
  moreover have "length ?b = 32 * length (c_entries c) + 32" by (simp add: catalog_block_def Let_def)
  ultimately have "unat (v_entry_count v) = length (c_entries c)"
    using assms by (simp add: layout_lens unat_of_nat)
  then show thesis using that [OF v] parts by blast
qed

lemma bodies_tile_inside:
  "bodies_tile n es \<Longrightarrow> e \<in> set es \<Longrightarrow>
     n \<le> unat (e_offset e) \<and> unat (e_offset e) + unat (e_len e) \<le> n + sum_list (body_lens es)"
  by (induction es arbitrary: n) (fastforce simp: body_lens_def)+

lemma tile_entry_inside:
  assumes "bodies_tile 4 es" and "e \<in> set es" and "4 + sum_list (body_lens es) = at" and "at < usize_limit"
  shows "entry_inside at e"
proof -
  have inside: "4 \<le> unat (e_offset e)" "unat (e_offset e) + unat (e_len e) \<le> at"
    using bodies_tile_inside [OF assms(1,2)] assms(3) by simp_all
  then have "unat (e_offset e + e_len e) = unat (e_offset e) + unat (e_len e)"
    using assms(4) by (intro unat_add_lem [THEN iffD1]) simp
  then show ?thesis using inside assms(4) by (simp add: entry_inside_def checked_add_def layout_lens)
qed

lemma validate_bytes_part:
  fixes crc :: "u8 list \<Rightarrow> u32"
  assumes few: "length (c_entries c) \<le> MAX_CATALOG_ENTRIES" and version: "c_format_version c = FORMAT_VERSION"
    and inside: "list_all (entry_inside (4 + length area)) (c_entries c)"
  defines "bytes \<equiv> part_bytes crc c area"
  shows "validate_bytes crc bytes \<lparr>ss_sections = length (c_entries c), ss_bytes = length bytes,
    ss_min_ts = c_min_ts c, ss_max_ts = c_max_ts c\<rparr>"
proof -
  let ?n = "length (c_entries c)" and ?block = "catalog_block crc c" and ?tail = "tail_encode \<lparr>t_catalog_len = of_nat (encoded_len c)\<rparr>"
  have small: "32 * ?n + 32 \<le> 67108864"
    using few by (simp add: MAX_CATALOG_ENTRIES_def MAX_CATALOG_BYTES_def layout_lens)
  have len: "encoded_len c = 32 * ?n + 32" by (simp add: encoded_len_def layout_lens)
  have block: "length ?block = 32 * ?n + 32" by (simp add: length_catalog_block len)
  have count: "?n < u32_limit" using small by simp
  obtain v where v: "catalog_view_of crc ?block = Inr v" "view_entries v = c_entries c"
    "unat (v_entry_count v) = ?n" "v_format_version v = c_format_version c" "v_min_ts v = c_min_ts c" "v_max_ts v = c_max_ts c"
    using catalog_view_block [OF count] by blast
  have bytes: "bytes = (MAGIC @ area @ ?block) @ ?tail" "bytes = (MAGIC @ area) @ ?block @ ?tail" by (simp_all add: bytes_def part_bytes_def)
  have total: "length bytes = length area + 32 * ?n + 44" by (simp add: bytes_def length_part_bytes len)
  have tail: "tail_decode (drop (length bytes - 8) bytes) = Inr \<lparr>t_catalog_len = of_nat (encoded_len c)\<rparr>"
    unfolding bytes(1) by (simp add: block tail_decode_encode)
  have magic: "subslice 0 4 bytes = MAGIC" by (simp add: bytes_def part_bytes_def subslice_def)
  have view: "subslice (length area + 4) (length area + 4 + (32 * ?n + 32)) bytes = ?block"
    unfolding bytes(2) by (simp add: subslice_def block)
  have claimed: "unat (of_nat (encoded_len c) :: u32) = 32 * ?n + 32"
    unfolding len using small by (intro unat_of_nat_32) simp
  have lens: "length bytes - 8 - (32 * ?n + 32) = length area + 4" "\<not> length bytes - 8 < 32 * ?n + 32" "\<not> length bytes < 4 + 32 + 8"
    using total by simp_all
  have checked: "Option.bind (usize_checked_mul ?n ENTRY_LEN) (\<lambda>n. usize_checked_add n META_LEN) = Some (32 * ?n + 32)"
    using small by (simp add: usize_checked_mul_def usize_checked_add_def layout_lens mult.commute)
  have fits: "\<not> MAX_CATALOG_BYTES < 32 * ?n + 32" using small by (simp add: MAX_CATALOG_BYTES_def)
  show ?thesis
    unfolding validate_bytes_def Let_def seal_summary.select_convs checked TAIL_INDEX_LEN_def tail option.case sum.case tail_index.select_convs claimed lens(1)
    using lens(2,3) magic view v version inside fits
    by (simp add: layout_lens add.commute [of 4])
qed

section \<open>Sizes\<close>

lemma sum_rows_Inr: "sum_descriptor_rows ds rows = Inr n \<Longrightarrow> n = rows + sum_list (map (\<lambda>d. unat (e_rows (sx_entry d))) ds)"
proof (induction ds arbitrary: rows)
  case (Cons d ds)
  then have "sum_descriptor_rows ds (rows + unat (e_rows (sx_entry d))) = Inr n" by (simp add: usize_checked_add_def split: if_splits)
  then show ?case using Cons.IH by fastforce
qed simp

lemma seal_data_body_sizes:
  assumes "seal_data_body env j t ds = Inr (body, rows)"
  shows "length body \<le> 8388608" and "unat rows = sum_list (map (\<lambda>d. unat (e_rows (sx_entry d))) ds)" and "unat rows \<le> 65536"
    and "\<exists>b. ab_write (se_backend env) SealedProfile b = Inr body"
proof -
  obtain n where n: "aggregate_rows t ds = Inr n" "n < u32_limit" "rows = of_nat n"
    using assms by (auto simp: seal_data_body_def split: sum.splits if_splits)
  obtain batches where body: "encode_sealed_batches (se_backend env) (se_registry env) t batches = Inr body"
    using assms by (auto simp: seal_data_body_def split: sum.splits if_splits)
  show "length body \<le> 8388608" and "\<exists>b. ab_write (se_backend env) SealedProfile b = Inr body"
    using body by (auto simp: encode_sealed_batches_def cap_body_def MAX_SECTION_BYTES_def split: option.splits sum.splits if_splits)
  have "sum_descriptor_rows ds 0 = Inr n" and le: "n \<le> 65536"
    using n(1) by (auto simp: aggregate_rows_def MAX_SECTION_ROWS_def split: sum.splits if_splits)
  moreover have "unat rows = n" using n by (simp add: unat_of_nat_32)
  ultimately show "unat rows = sum_list (map (\<lambda>d. unat (e_rows (sx_entry d))) ds)" and "unat rows \<le> 65536"
    using sum_rows_Inr by fastforce+
qed

lemma dict_section_of_sizes:
  assumes "dict_section_of backend properties t b = Inr s" and "rb_rows b \<noteq> []" and "num_rows b \<le> 65536"
  shows "dx_type_id s = t" and "length (dx_body s) \<le> 8388608" and "0 < dx_rows s" and "dx_rows s \<le> 65536"
    and "ab_write backend properties b = Inr (dx_body s)"
  using assms
  by (auto simp: dict_section_of_def cap_body_def MAX_SECTION_BYTES_def split: sum.splits if_splits)

text \<open>Dictionary sections: the strings, the blobs, or both.\<close>

definition dict_part_ok :: "arrow_backend \<Rightarrow> u32 \<Rightarrow> dict_section \<Rightarrow> bool" where
  "dict_part_ok backend t s \<longleftrightarrow> dx_type_id s = t \<and> length (dx_body s) \<le> 8388608 \<and> 0 < dx_rows s \<and> dx_rows s \<le> 65536
     \<and> (\<exists>b. ab_write backend SealedDictProfile b = Inr (dx_body s))"

definition dict_parts_ok :: "arrow_backend \<Rightarrow> dict_section list \<Rightarrow> bool" where
  "dict_parts_ok backend xs \<longleftrightarrow> (\<exists>first second. xs = first @ second
     \<and> (first = [] \<or> (\<exists>s. first = [s] \<and> dict_part_ok backend DICT_STRINGS_TYPE_ID s))
     \<and> (second = [] \<or> (\<exists>s. second = [s] \<and> dict_part_ok backend DICT_BLOBS_TYPE_ID s)))"

lemma encode_strings_ok:
  assumes run: "encode_strings backend SealedDictProfile es = Inr s" and "es \<noteq> []"
  shows "dict_part_ok backend DICT_STRINGS_TYPE_ID s"
proof -
  let ?b = "\<lparr>rb_fields = strings_schema, rb_rows = map string_row (sort_key es_str_id es)\<rparr>"
  have short: "length es \<le> 65536" using run by (simp add: encode_strings_def check_dict_rows_def MAX_SECTION_ROWS_def split: if_splits)
  then have built: "dict_section_of backend SealedDictProfile DICT_STRINGS_TYPE_ID ?b = Inr s"
    using run by (simp add: encode_strings_def check_dict_rows_def MAX_SECTION_ROWS_def)
  have "sort_key es_str_id es \<noteq> []" using assms(2) by (metis length_0_conv length_sort)
  then show ?thesis using dict_section_of_sizes [OF built] short by (simp add: dict_part_ok_def) blast
qed

lemma encode_blobs_ok:
  assumes run: "encode_blobs backend SealedDictProfile es = Inr s" and "es \<noteq> []"
  shows "dict_part_ok backend DICT_BLOBS_TYPE_ID s"
proof -
  let ?b = "\<lparr>rb_fields = blobs_schema, rb_rows = map blob_row (sort_key es_str_id es)\<rparr>"
  have short: "length es \<le> 65536" using run by (simp add: encode_blobs_def check_dict_rows_def MAX_SECTION_ROWS_def split: if_splits)
  then have built: "dict_section_of backend SealedDictProfile DICT_BLOBS_TYPE_ID ?b = Inr s"
    using run by (simp add: encode_blobs_def check_dict_rows_def MAX_SECTION_ROWS_def)
  have "sort_key es_str_id es \<noteq> []" using assms(2) by (metis length_0_conv length_sort)
  then show ?thesis using dict_section_of_sizes [OF built] short by (simp add: dict_part_ok_def) blast
qed

lemma encode_sealed_entries_ok:
  assumes "encode_sealed_entries backend es = Inr xs"
  shows "dict_parts_ok backend xs"
proof -
  let ?strings = "filter is_strings es" and ?blobs = "filter (\<lambda>e. \<not> is_strings e) es"
  have run: "encode_entries_with_properties backend SealedDictProfile es = Inr xs"
    using assms by (auto simp: encode_sealed_entries_def split: sum.splits)
  obtain first where first: "(if ?strings = [] then Inr [] else map_sum (\<lambda>e. e) (\<lambda>s. [s]) (encode_strings backend SealedDictProfile ?strings)) = Inr first"
    using run unfolding encode_entries_with_properties_def Let_def by (auto split: sum.splits)
  obtain second where second: "(if ?blobs = [] then Inr [] else map_sum (\<lambda>e. e) (\<lambda>s. [s]) (encode_blobs backend SealedDictProfile ?blobs)) = Inr second"
    using run first unfolding encode_entries_with_properties_def Let_def by (auto split: sum.splits)
  have xs: "xs = first @ second"
    using run unfolding encode_entries_with_properties_def Let_def first second by simp
  have "first = [] \<or> (\<exists>s. first = [s] \<and> dict_part_ok backend DICT_STRINGS_TYPE_ID s)"
    using first encode_strings_ok [of backend ?strings]
    by (cases "encode_strings backend SealedDictProfile ?strings") (auto split: if_splits)
  moreover have "second = [] \<or> (\<exists>s. second = [s] \<and> dict_part_ok backend DICT_BLOBS_TYPE_ID s)"
    using second encode_blobs_ok [of backend ?blobs]
    by (cases "encode_blobs backend SealedDictProfile ?blobs") (auto split: if_splits)
  ultimately show ?thesis unfolding dict_parts_ok_def xs by blast
qed

section \<open>The plan\<close>

definition planned :: "(u32, section_descriptor list) btree_map \<Rightarrow> bool" where
  "planned m \<longleftrightarrow> (\<forall>(t, ds) \<in> set m. ds \<noteq> [] \<and> (\<forall>d \<in> set ds. entry_wf (sx_entry d) \<and> e_type_id (sx_entry d) = t))"

lemma om_insert_sub: "set (om_insert k v m) \<subseteq> insert (k, v) (set m)"
  by (induction k v m rule: om_insert.induct) auto

lemma planned_push:
  assumes "planned m" and "entry_wf (sx_entry d)"
  shows "planned (push_descriptor d m)"
proof -
  have "e \<in> set ds \<Longrightarrow> entry_wf (sx_entry e) \<and> e_type_id (sx_entry e) = t" if "om_get m t = Some ds" for t ds e
    using assms(1) map_of_SomeD [of m t ds] that by (fastforce simp: planned_def om_get_def)
  then show ?thesis
    using assms om_insert_sub [of "e_type_id (sx_entry d)" _ m]
    by (fastforce simp: planned_def push_descriptor_def Let_def split: option.splits)
qed

lemma plan_entries_planned:
  "plan_entries part es n m = Inr (n', m') \<Longrightarrow> list_all entry_wf es \<Longrightarrow> planned m \<Longrightarrow> planned m'"
proof (induction part es n m rule: plan_entries.induct)
  case (2 part e es n m)
  then show ?case by (auto simp: planned_push split: option.splits if_splits)
qed simp

lemma validated_entries_wf: "validate_part_catalog crc part = Inr c \<Longrightarrow> list_all entry_wf (c_entries c)"
  by (auto simp: validate_part_catalog_def decode_and_bound_def Let_def validate_catalog_layout_iff canonical_layout_def
      split: if_splits sum.splits)

lemma plan_parts_planned: "plan_parts env j parts st = Inr st' \<Longrightarrow> planned (ps_by_type st) \<Longrightarrow> planned (ps_by_type st')"
proof (induction parts arbitrary: st)
  case (Cons r rs)
  obtain part c where c: "read_part j r = Inr part" "validate_part_catalog (se_crc env) part = Inr c" "c_format_version c = FORMAT_VERSION"
    using Cons.prems(1) by (auto split: sum.splits if_splits)
  obtain n m where es: "plan_entries r (c_entries c) (ps_section_count st) (ps_by_type st) = Inr (n, m)"
    using Cons.prems(1) c by (auto split: sum.splits)
  then have "planned m" using plan_entries_planned validated_entries_wf [OF c(2)] Cons.prems(2) by blast
  then show ?case using Cons.IH Cons.prems(1) c es by simp
qed simp

lemma plan_segment_Inr:
  assumes "plan_segment env j = Inr plan"
  shows "planned (sp_by_type plan)" and "sp_window_count plan = of_nat (length (j_parts j))" and "length (j_parts j) < u32_limit"
proof -
  show short: "length (j_parts j) < u32_limit" using assms by (simp add: plan_segment_def split: if_splits)
  then obtain st where st: "plan_parts env j (j_parts j) plan_start = Inr st" using assms by (auto simp: plan_segment_def split: sum.splits)
  have "planned (ps_by_type st)" by (rule plan_parts_planned [OF st]) (simp add: plan_start_def planned_def)
  then show "planned (sp_by_type plan)" and "sp_window_count plan = of_nat (length (j_parts j))"
    using assms short st by (auto simp: plan_segment_def Let_def)
qed

section \<open>Sealed segments are valid\<close>

definition body_written :: "arrow_backend \<Rightarrow> section_input \<Rightarrow> bool" where
  "body_written backend s \<longleftrightarrow> (\<exists>p b. ab_write backend p b = Inr (si_body s))"

definition section_sized :: "section_input \<Rightarrow> bool" where
  "section_sized s \<longleftrightarrow> length (si_body s) \<le> 8388608 \<and> si_rows s \<noteq> 0 \<and> si_rows s \<le> MAX_PHYSICAL_SECTION_ROWS"

lemma rows_sized:
  fixes w :: u32
  assumes "0 < unat w" and "unat w \<le> 65536"
  shows "w \<noteq> 0 \<and> w \<le> MAX_PHYSICAL_SECTION_ROWS"
  using assms by (auto simp: MAX_PHYSICAL_SECTION_ROWS_def word_le_nat_alt)

lemma data_input_sized:
  assumes input: "data_input env j p s" and "p \<in> set m" and "planned m"
  shows "section_sized s" and "body_written (se_backend env) s" and "si_type_id s = fst p"
proof -
  obtain body rows where body: "seal_data_body env j (fst p) (snd p) = Inr (body, rows)"
    and s: "s = \<lparr>si_type_id = fst p, si_rows = rows, si_body = body\<rparr>"
    using input unfolding data_input_def by blast
  note sizes = seal_data_body_sizes [OF body]
  have "\<forall>(t, ds) \<in> set m. ds \<noteq> [] \<and> (\<forall>d \<in> set ds. entry_wf (sx_entry d) \<and> e_type_id (sx_entry d) = t)"
    using assms(3) by (simp add: planned_def)
  then have "snd p \<noteq> [] \<and> (\<forall>d \<in> set (snd p). entry_wf (sx_entry d))" using assms(2) by fastforce
  then obtain d ds where "snd p = d # ds" "entry_wf (sx_entry d)" by (cases "snd p") auto
  then have "0 < unat rows" using sizes(2) by (simp add: entry_wf_def unat_gt_0)
  then show "section_sized s" using sizes(1,3) rows_sized by (simp add: section_sized_def s)
  show "body_written (se_backend env) s" using sizes(4) unfolding body_written_def s by auto
  show "si_type_id s = fst p" by (simp add: s)
qed

lemma dict_input_sized:
  assumes "dict_part_ok backend t x"
  shows "section_sized (dict_input x)" and "body_written backend (dict_input x)" and "si_type_id (dict_input x) = t"
proof -
  have x: "dx_type_id x = t" "length (dx_body x) \<le> 8388608" "0 < dx_rows x" "dx_rows x \<le> 65536"
    using assms by (simp_all add: dict_part_ok_def)
  then have "unat (of_nat (dx_rows x) :: u32) = dx_rows x" by (intro unat_of_nat_32) simp
  then show "section_sized (dict_input x)"
    using x rows_sized [of "of_nat (dx_rows x)"] by (simp add: section_sized_def dict_input_def)
  show "body_written backend (dict_input x)" using assms by (auto simp: dict_part_ok_def body_written_def dict_input_def)
  show "si_type_id (dict_input x) = t" using x by (simp add: dict_input_def)
qed

lemma sized_total:
  assumes "list_all section_sized ss" and "length ss \<le> MAX_CATALOG_ENTRIES"
  shows "length (concat (map si_body ss)) \<le> 17592186044416"
proof -
  have "length (concat (map si_body ss)) \<le> 8388608 * length ss"
    using assms(1) by (induction ss) (simp_all add: section_sized_def)
  moreover have "length ss \<le> 2097152"
    using assms(2) by (simp add: MAX_CATALOG_ENTRIES_def MAX_CATALOG_BYTES_def layout_lens)
  ultimately show ?thesis by linarith
qed

lemma sealed_order:
  assumes types: "sorted_wrt (<) (map si_type_id (ds @ map dict_input xs))"
    and data: "\<forall>s \<in> set ds. si_type_id s \<noteq> DICT_STRINGS_TYPE_ID \<and> si_type_id s \<noteq> DICT_BLOBS_TYPE_ID"
    and dict: "dict_parts_ok backend xs"
  shows "sorted_wrt (<) (map (\<lambda>s. section_order_of (si_type_id s)) (ds @ map dict_input xs))"
proof -
  have increasing: "sorted_wrt (\<lambda>x y. si_type_id x < si_type_id y) ds" using types by (simp add: sorted_wrt_append sorted_wrt_map)
  have order: "section_order_of (si_type_id s) = Data (si_type_id s)" if "s \<in> set ds" for s
    using data that by (simp add: section_order_of_def)
  have front: "sorted_wrt (<) (map (\<lambda>s. section_order_of (si_type_id s)) ds)"
    unfolding sorted_wrt_map
    by (rule sorted_wrt_mono_rel [OF _ increasing]) (simp add: order less_section_order_def word_less_nat_alt)
  obtain first second where xs: "xs = first @ second"
    "first = [] \<or> (\<exists>s. first = [s] \<and> dict_part_ok backend DICT_STRINGS_TYPE_ID s)"
    "second = [] \<or> (\<exists>s. second = [s] \<and> dict_part_ok backend DICT_BLOBS_TYPE_ID s)"
    using dict unfolding dict_parts_ok_def by blast
  have "map (\<lambda>s. section_order_of (si_type_id s)) (map dict_input xs) \<in> {[], [Strings], [Blobs], [Strings, Blobs]}"
    using xs dict_input_sized(3) [of backend]
    by (auto simp: section_order_of_def DICT_STRINGS_TYPE_ID_def DICT_BLOBS_TYPE_ID_def)
  then show ?thesis
    using front data
    by (auto simp: sorted_wrt_append section_order_of_def less_section_order_def)
qed

text \<open>The sections of a completed build.\<close>

lemma list_all2_member: "list_all2 P xs ys \<Longrightarrow> y \<in> set ys \<Longrightarrow> \<exists>x \<in> set xs. P x y"
  by (induction rule: list_all2_induct) auto

lemma built_sections:
  assumes "build_segment env j = (Inr (n, plan), bytes)"
  obtains ss where "bytes = part_bytes (se_crc env) (segment_catalog plan (fst (build_entries (se_crc env) ss MAGIC))) (concat (map si_body ss))"
    and "n = length ss" and "n \<le> MAX_CATALOG_ENTRIES" and "list_all section_sized ss" and "list_all (body_written (se_backend env)) ss"
    and "sorted_wrt (<) (map (\<lambda>s. section_order_of (si_type_id s)) ss)" and "plan_segment env j = Inr plan"
proof -
  obtain dictionary ds xs where built: "plan_segment env j = Inr plan"
    "list_all2 (data_input env j) (data_plan (sp_by_type plan)) ds" "normalized_sections env dictionary = Inr xs"
    "sorted_wrt (<) (map si_type_id (ds @ map dict_input xs))" "n = length (ds @ map dict_input xs)" "n \<le> MAX_CATALOG_ENTRIES"
    "bytes = part_bytes (se_crc env) (segment_catalog plan (fst (build_entries (se_crc env) (ds @ map dict_input xs) MAGIC)))
       (concat (map si_body (ds @ map dict_input xs)))"
    using build_segment_Inr [OF assms] by metis
  note planned = plan_segment_Inr(1) [OF built(1)]
  have data: "section_sized s \<and> body_written (se_backend env) s \<and> si_type_id s \<noteq> DICT_STRINGS_TYPE_ID \<and> si_type_id s \<noteq> DICT_BLOBS_TYPE_ID"
    if "s \<in> set ds" for s
  proof -
    obtain p where p: "p \<in> set (data_plan (sp_by_type plan))" "data_input env j p s"
      using list_all2_member [OF built(2)] \<open>s \<in> set ds\<close> by blast
    then have "p \<in> set (sp_by_type plan)" and "fst p \<noteq> DICT_STRINGS_TYPE_ID" and "fst p \<noteq> DICT_BLOBS_TYPE_ID"
      by (auto simp: data_plan_def)
    then show ?thesis using data_input_sized [OF p(2) _ planned] by simp
  qed
  have dict: "dict_parts_ok (se_backend env) xs"
    using built(3) encode_sealed_entries_ok [of "se_backend env" _ xs]
    by (cases "encode_sealed_entries (se_backend env) (map normalized_snapshot (nd_values dictionary))")
       (auto simp: normalized_sections_def)
  then have dicts: "section_sized (dict_input x) \<and> body_written (se_backend env) (dict_input x)" if "x \<in> set xs" for x
  proof -
    obtain t where "dict_part_ok (se_backend env) t x" using dict \<open>x \<in> set xs\<close> unfolding dict_parts_ok_def by auto
    then show ?thesis using dict_input_sized by blast
  qed
  show thesis
  proof (rule that [of "ds @ map dict_input xs"])
    show "sorted_wrt (<) (map (\<lambda>s. section_order_of (si_type_id s)) (ds @ map dict_input xs))"
      using sealed_order [OF built(4) _ dict] data by blast
  qed (use built data dicts in \<open>auto simp: list_all_iff\<close>)
qed

text \<open>The catalog of a sealed segment describes bodies that tile the file.\<close>

lemma built_layout:
  fixes crc :: "u8 list \<Rightarrow> u32"
  assumes "list_all section_sized ss" and few: "length ss \<le> MAX_CATALOG_ENTRIES"
  defines "es \<equiv> fst (build_entries crc ss MAGIC)"
  shows "bodies_tile 4 es" and "4 + sum_list (body_lens es) = 4 + length (concat (map si_body ss))"
    and "4 + length (concat (map si_body ss)) < usize_limit"
proof -
  note total = sized_total [OF assms(1,2)]
  then show "4 + length (concat (map si_body ss)) < usize_limit" by simp
  then have short: "length (MAGIC @ concat (map si_body ss)) < usize_limit" by simp
  show "bodies_tile 4 es" using build_entries_tile [OF short, of crc] by (simp add: es_def)
  show "4 + sum_list (body_lens es) = 4 + length (concat (map si_body ss))"
    using build_entries_lens [OF short, of crc] by (simp add: es_def length_concat comp_def)
qed

lemma built_valid:
  assumes "build_segment env j = (Inr (n, plan), bytes)"
  shows "validate_bytes (se_crc env) bytes \<lparr>ss_sections = n, ss_bytes = length bytes, ss_min_ts = sp_min_ts plan, ss_max_ts = sp_max_ts plan\<rparr>"
proof -
  obtain ss where ss: "bytes = part_bytes (se_crc env) (segment_catalog plan (fst (build_entries (se_crc env) ss MAGIC))) (concat (map si_body ss))"
    "n = length ss" "n \<le> MAX_CATALOG_ENTRIES" "list_all section_sized ss"
    using built_sections [OF assms] by metis
  let ?es = "fst (build_entries (se_crc env) ss MAGIC)"
  have few: "length ss \<le> MAX_CATALOG_ENTRIES" using ss by simp
  note layout = built_layout(1,2) [OF ss(4) few, where crc = "se_crc env"] built_layout(3) [OF ss(4) few]
  have "list_all (entry_inside (4 + length (concat (map si_body ss)))) ?es"
    using tile_entry_inside [OF layout(1) _ layout(2,3)] by (simp add: list_all_iff)
  moreover have "length ?es = n" by (simp add: build_entries_fields ss)
  ultimately show ?thesis
    using validate_bytes_part [of "segment_catalog plan ?es" "concat (map si_body ss)" "se_crc env"] ss
    by (simp add: segment_catalog_def)
qed

lemma built_canonical:
  assumes built: "build_segment env j = (Inr (n, plan), bytes)"
    and backend: "\<And>p b body. ab_write (se_backend env) p b = Inr body \<Longrightarrow> body \<noteq> []"
  shows "\<exists>c. validate_part (se_crc env) bytes = Inr c \<and> length (c_entries c) = n
    \<and> c_min_ts c = sp_min_ts plan \<and> c_max_ts c = sp_max_ts plan \<and> unat (c_window_count c) = length (j_parts j)"
proof -
  obtain ss where ss: "bytes = part_bytes (se_crc env) (segment_catalog plan (fst (build_entries (se_crc env) ss MAGIC))) (concat (map si_body ss))"
    "n = length ss" "n \<le> MAX_CATALOG_ENTRIES" "list_all section_sized ss" "list_all (body_written (se_backend env)) ss"
    "sorted_wrt (<) (map (\<lambda>s. section_order_of (si_type_id s)) ss)" and plan: "plan_segment env j = Inr plan"
    using built_sections [OF built] by metis
  let ?c = "segment_catalog plan (fst (build_entries (se_crc env) ss MAGIC))"
  have "section_ok s" if "s \<in> set ss" for s
    using ss(4,5) backend that by (auto simp: section_ok_def section_sized_def list_all_iff body_written_def)
  then have canonical: "sections_canonical ss" using ss(6) by (simp add: sections_canonical_def list_all_iff)
  have entries: "c_entries ?c = fst (build_entries (se_crc env) ss MAGIC)" by (simp add: segment_catalog_def)
  have len: "encoded_len ?c = 32 * n + 32" by (simp add: encoded_len_catalog build_entries_fields ss)
  moreover have "32 * n + 32 \<le> 67108864" using ss(3) by (simp add: MAX_CATALOG_ENTRIES_def MAX_CATALOG_BYTES_def layout_lens)
  ultimately have fits: "encoded_len ?c < u32_limit" and small: "length (part_bytes (se_crc env) ?c (concat (map si_body ss))) < usize_limit"
    using sized_total [OF ss(4)] ss(2,3) by (simp_all add: length_part_bytes)
  have "validate_part (se_crc env) bytes = Inr ?c"
    using assembled_valid(2) [OF canonical entries fits small] ss(1) by simp
  moreover have "unat (c_window_count ?c) = length (j_parts j)"
    using plan_segment_Inr(2,3) [OF plan] by (simp add: segment_catalog_def unat_of_nat_32)
  ultimately show ?thesis
    by (intro exI [of _ ?c]) (simp add: segment_catalog_def build_entries_fields ss)
qed

end
