(* ===== verification/Segment_Seal.thy ===== *)
theory Segment_Seal
  imports Segment_Format
begin

text \<open>
  Sealing as a whole: what one attempt leaves behind, what a success means, and that after any number of
  failed or crashed attempts the next undisturbed one publishes the segment.
\<close>

section \<open>Steps that leave names and contents alone\<close>

definition kept :: "day_fs \<Rightarrow> day_fs \<Rightarrow> bool" where
  "kept s0 s \<longleftrightarrow> (\<forall>k. content s k = content s0 k \<and> (synced s0 k \<longrightarrow> synced s k)) \<and> dy_next s = dy_next s0
     \<and> dy_names s = dy_names s0 \<and> dy_durable s = dy_durable s0"

lemma kept_refl [simp]: "kept s s"
  by (simp add: kept_def)

lemma kept_trans: "kept s0 s1 \<Longrightarrow> kept s1 s2 \<Longrightarrow> kept s0 s2"
  by (simp add: kept_def)

lemma planless_kept [simp]: "planless (kept s0)" "planless (\<lambda>s. kept s0 s \<and> P)"
  by (simp_all add: planless_def kept_def)

lemma kept_published: "kept s0 s1 \<Longrightarrow> published_from t s1 s \<Longrightarrow> published_from t s0 s"
  and published_kept: "published_from t s0 s \<Longrightarrow> kept s s1 \<Longrightarrow> published_from t s0 s1"
  and published_of_kept: "kept s0 s \<Longrightarrow> published_from t s0 s"
  by (auto simp: kept_def published_from_def)

lemma published_prepared [simp]:
  "published_from (t\<lparr>pt_prepared_identity := i\<rparr>) = published_from t" "published_from (t\<lparr>pt_published := b\<rparr>) = published_from t"
  by (simp_all add: published_from_def fun_eq_iff)

lemma ends_seal_bind:
  assumes "ends E Q r" and "\<And>x s. Q x s \<Longrightarrow> ends E Q' (k x s)"
  shows "ends E Q' (seal_bind err r k)"
  using assms by (cases r; cases "fst r") (auto simp: seal_bind_def ends_def)

lemma ends_seal_try:
  assumes "ends E Q r" and "\<And>x s. Q x s \<Longrightarrow> ends E Q' (k x s)"
  shows "ends E Q' (seal_try r k)"
  using assms by (cases r; cases "fst r") (auto simp: seal_try_def ends_def)

text \<open>The reading calls, with what they return.\<close>

lemma kept_calls:
  assumes "kept s0 s"
  shows kept_length: "ends (kept s0) (\<lambda>n s. kept s0 s \<and> n = length (content s0 i)) (file_length i s)"
    and kept_identity: "ends (kept s0) (\<lambda>f s. kept s0 s \<and> fi_len f = length (content s0 i)) (identity_from_file i s)"
    and kept_open: "ends (kept s0) (\<lambda>i s. kept s0 s \<and> dy_names s0 name = Some (FileEntry i)) (open_regular_at name s)"
    and kept_noop: "ends (kept s0) (\<lambda>_. kept s0) (fs_call (\<lambda>s. (Inr u, s)) s)"
    and kept_sync: "ends (kept s0) (\<lambda>_. kept s0) (file_sync_all i s)"
  unfolding file_length_def identity_from_file_def open_regular_at_def file_sync_all_def
  by (rule ends_call [OF planless_kept(1) planless_kept(1) assms];
      auto simp: kept_def content_def synced_def identity_of_def split: option.splits day_entry.splits)+

lemma kept_validate:
  assumes "kept s0 s"
  shows "ends (kept s0) (\<lambda>b s. kept s0 s \<and> b = validate_bytes (se_crc env) (content s0 i) expected) (validate_segment env i expected s)"
  unfolding validate_segment_def
  by (rule ends_seal_bind [OF kept_length [OF assms]]) (auto simp: kept_def)

text \<open>The comparison by chunks is equality.\<close>

lemma chunks_equal_iff:
  "offset \<le> len \<Longrightarrow> len \<le> length left \<Longrightarrow> len \<le> length right \<Longrightarrow> chunks_equal left right offset len \<longleftrightarrow> subslice offset len left = subslice offset len right"
proof (induction left right offset len rule: chunks_equal.induct)
  case (1 left right offset len)
  show ?case
  proof (cases "offset < len")
    case True
    let ?mid = "offset + min (len - offset) COMPARE_BUFFER_BYTES"
    have mid: "offset < ?mid" "?mid \<le> len" using True by (auto simp: COMPARE_BUFFER_BYTES_def)
    have split: "subslice offset len xs = subslice offset ?mid xs @ subslice ?mid len xs" for xs :: "u8 list"
      using mid by (simp add: append_slices)
    have "length (subslice offset ?mid left) = length (subslice offset ?mid right)"
      using 1(3,4) mid by (simp add: length_subslice)
    moreover have "chunks_equal left right ?mid len \<longleftrightarrow> subslice ?mid len left = subslice ?mid len right"
      using 1 True mid(2) by (simp add: Let_def)
    ultimately show ?thesis
      using True unfolding chunks_equal.simps [of left right offset len] Let_def split [of left] split [of right]
      by simp
  qed (use 1 in \<open>simp add: chunks_equal.simps subslice_def\<close>)
qed

lemma kept_files_equal:
  assumes "kept s0 s"
  shows "ends (kept s0) (\<lambda>b s. kept s0 s \<and> (b \<longrightarrow> content s0 left = content s0 right)) (files_equal left right s)"
proof -
  have chunks: "content s0 left = content s0 right" if "length (content s0 right) = length (content s0 left)"
    and "chunks_equal (content s0 left) (content s0 right) 0 (length (content s0 left))"
  proof -
    have "subslice 0 (length (content s0 left)) (content s0 left) = subslice 0 (length (content s0 left)) (content s0 right)"
      using that chunks_equal_iff [of 0 "length (content s0 left)" "content s0 left" "content s0 right"] by simp
    then show ?thesis using that(1) by (simp add: slice_all)
  qed
  have reread: "ends (kept s0) (\<lambda>b s. kept s0 s \<and> (b \<longrightarrow> content s0 left = content s0 right))
      (seal_bind seal_io (identity_from_file left s) (\<lambda>left_now s. if left_now \<noteq> l then (Inr False, s)
        else seal_bind seal_io (identity_from_file right s) (\<lambda>right_now s. (Inr (right_now = r), s))))"
    if "kept s0 s" "content s0 left = content s0 right" for l r s
  proof (rule ends_seal_bind [OF kept_identity [OF that(1)]])
    fix x :: file_identity and s1 assume s1: "kept s0 s1 \<and> fi_len x = length (content s0 left)"
    have "ends (kept s0) (\<lambda>b s. kept s0 s \<and> (b \<longrightarrow> content s0 left = content s0 right))
        (seal_bind seal_io (identity_from_file right s1) (\<lambda>right_now s. (Inr (right_now = r), s)))"
      by (rule ends_seal_bind [OF kept_identity]) (use s1 that(2) in auto)
    then show "ends (kept s0) (\<lambda>b s. kept s0 s \<and> (b \<longrightarrow> content s0 left = content s0 right))
        (if x \<noteq> l then (Inr False, s1) else seal_bind seal_io (identity_from_file right s1) (\<lambda>right_now s. (Inr (right_now = r), s)))"
      using s1 by simp
  qed
  show ?thesis
    unfolding files_equal_def
  proof (rule ends_seal_bind [OF kept_identity [OF assms]], rule ends_seal_bind [OF kept_identity], erule conjunct1)
    fix l r :: file_identity and s1 s2
    assume l: "kept s0 s1 \<and> fi_len l = length (content s0 left)" and r: "kept s0 s2 \<and> fi_len r = length (content s0 right)"
    then have same: "content s2 left = content s0 left" "content s2 right = content s0 right" by (simp_all add: kept_def)
    show "ends (kept s0) (\<lambda>b s. kept s0 s \<and> (b \<longrightarrow> content s0 left = content s0 right))
        (if fi_len r \<noteq> fi_len l then (Inr False, s2)
         else if \<not> chunks_equal (content s2 left) (content s2 right) 0 (fi_len l) then (Inr False, s2)
         else seal_bind seal_io (identity_from_file left s2) (\<lambda>left_now s.
              if left_now \<noteq> l then (Inr False, s)
              else seal_bind seal_io (identity_from_file right s) (\<lambda>right_now s. (Inr (right_now = r), s))))"
      using l r reread [of s2] chunks by (simp add: same)
  qed
qed

text \<open>Success on a taken name: the name denotes a regular file with the generated bytes.\<close>

definition named_equal :: "string \<Rightarrow> nat \<Rightarrow> day_fs \<Rightarrow> bool" where
  "named_equal name i s \<longleftrightarrow> (\<exists>k. dy_names s name = Some (FileEntry k) \<and> content s i = content s k)"

lemma kept_check_existing:
  assumes "kept s0 s"
  shows "ends (kept s0) (\<lambda>_ s. kept s0 s \<and> named_equal (pt_final_name t) (pt_inode t) s0) (check_existing env t summary s)"
  unfolding check_existing_def
proof (rule ends_seal_bind [OF kept_open [OF assms]], rule ends_seal_bind [OF kept_identity], erule conjunct1,
    rule ends_seal_try [OF kept_validate], erule conjunct1)
  fix existing s1 and identity :: file_identity and s2 valid s3
  assume named: "kept s0 s1 \<and> dy_names s0 (pt_final_name t) = Some (FileEntry existing)"
    and s3: "kept s0 s3 \<and> valid = validate_bytes (se_crc env) (content s0 existing) summary"
  let ?Q = "\<lambda>_ s. kept s0 s \<and> named_equal (pt_final_name t) (pt_inode t) s0"
  have named_again: "ends (kept s0) ?Q (seal_bind seal_io (identity_from_file i s) (\<lambda>named_identity s.
      if named_identity \<noteq> identity then (Inl ExistingSegmentMismatch, s) else (Inr (), s)))"
    if "kept s0 s" "named_equal (pt_final_name t) (pt_inode t) s0" for i s
    by (rule ends_seal_bind [OF kept_identity [OF that(1)]]) (use that(2) in auto)
  have reopened: "ends (kept s0) ?Q (seal_bind SealLayout (open_regular_at (pt_final_name t) s) (\<lambda>named s.
      seal_bind seal_io (identity_from_file named s) (\<lambda>named_identity s.
      if named_identity \<noteq> identity then (Inl ExistingSegmentMismatch, s) else (Inr (), s))))"
    if "kept s0 s" "named_equal (pt_final_name t) (pt_inode t) s0" for s
    by (rule ends_seal_bind [OF kept_open [OF that(1)]]) (use named_again that(2) in simp)
  have reread: "ends (kept s0) ?Q (seal_bind seal_io (identity_from_file existing s) (\<lambda>identity_now s.
      if identity_now \<noteq> identity then (Inl ExistingSegmentMismatch, s)
      else seal_bind SealLayout (open_regular_at (pt_final_name t) s) (\<lambda>named s.
        seal_bind seal_io (identity_from_file named s) (\<lambda>named_identity s.
        if named_identity \<noteq> identity then (Inl ExistingSegmentMismatch, s) else (Inr (), s)))))"
    if "kept s0 s" "named_equal (pt_final_name t) (pt_inode t) s0" for s
    by (rule ends_seal_bind [OF kept_identity [OF that(1)]]) (use reopened that(2) in simp)
  have compared: "ends (kept s0) ?Q (seal_try (files_equal (pt_inode t) existing s3) (\<lambda>equal s.
      if \<not> equal then (Inl ExistingSegmentMismatch, s)
      else seal_bind seal_io (identity_from_file existing s) (\<lambda>identity_now s.
        if identity_now \<noteq> identity then (Inl ExistingSegmentMismatch, s)
        else seal_bind SealLayout (open_regular_at (pt_final_name t) s) (\<lambda>named s.
          seal_bind seal_io (identity_from_file named s) (\<lambda>named_identity s.
          if named_identity \<noteq> identity then (Inl ExistingSegmentMismatch, s) else (Inr (), s))))))"
    by (rule ends_seal_try [OF kept_files_equal [OF conjunct1 [OF s3]]])
       (use named reread in \<open>simp add: named_equal_def\<close>)
  show "ends (kept s0) ?Q (if \<not> valid then (Inl ExistingSegmentInvalid, s3)
      else seal_try (files_equal (pt_inode t) existing s3) (\<lambda>equal s.
      if \<not> equal then (Inl ExistingSegmentMismatch, s)
      else seal_bind seal_io (identity_from_file existing s) (\<lambda>identity_now s.
        if identity_now \<noteq> identity then (Inl ExistingSegmentMismatch, s)
        else seal_bind SealLayout (open_regular_at (pt_final_name t) s) (\<lambda>named s.
          seal_bind seal_io (identity_from_file named s) (\<lambda>named_identity s.
          if named_identity \<noteq> identity then (Inl ExistingSegmentMismatch, s) else (Inr (), s))))))"
    using compared s3 by simp
qed

section \<open>The draft\<close>

text \<open>The day with one new file, which only the temporary name denotes.\<close>

definition drafted :: "day_fs \<Rightarrow> pgm_temp \<Rightarrow> u8 list \<Rightarrow> day_fs \<Rightarrow> bool" where
  "drafted s t body s1 \<longleftrightarrow> pt_inode t = dy_next s \<and> dy_next s1 = dy_next s + 1
     \<and> dy_names s1 = (dy_names s)(pt_temp_name t := Some (FileEntry (dy_next s))) \<and> dy_names s (pt_temp_name t) = None
     \<and> dy_durable s1 = dy_durable s \<and> content s1 (dy_next s) = body
     \<and> (\<forall>k. k \<noteq> dy_next s \<longrightarrow> content s1 k = content s k \<and> (synced s k \<longrightarrow> synced s1 k))"

lemma planless_drafted [simp]: "planless (drafted s t body)"
  by (simp add: planless_def drafted_def)

definition temp_for :: "segment_address \<Rightarrow> nat \<Rightarrow> nat \<Rightarrow> nat \<Rightarrow> pgm_temp" where
  "temp_for address pid sequence i = \<lparr>pt_inode = i, pt_prepared_identity = None, pt_temp_name = temporary_name address TmpPgm pid sequence,
     pt_final_name = pgm_name address, pt_id = sa_id address, pt_published = False\<rparr>"

lemma create_pgm_temp_ends:
  "ends (kept s) (\<lambda>t s1. t = temp_for address pid sequence (dy_next s) \<and> drafted s t [] s1) (create_pgm_temp address pid sequence s)"
  unfolding create_pgm_temp_def Let_def
proof (rule ends_bind [OF kept_noop [OF kept_refl]], rule ends_bind)
  fix x s1 assume s1: "kept s s1"
  let ?temp = "temporary_name address TmpPgm pid sequence"
  show "ends (kept s) (\<lambda>i s1. i = dy_next s \<and> drafted s (temp_for address pid sequence i) [] s1) (create_regular_at ?temp s1)"
    unfolding create_regular_at_def
    by (rule ends_call [OF planless_kept(1) planless_kept(1) s1])
       (auto simp: kept_def drafted_def temp_for_def content_def synced_def)
qed (auto simp: temp_for_def)

lemma file_write_ends:
  assumes "drafted s t [] s1" and "pt_inode t = i"
  shows "ends (\<lambda>s2. \<exists>body. drafted s t body s2) (\<lambda>_. drafted s t data) (file_write i data s1)"
proof -
  obtain o1 s2 where call: "next_fs s1 = (o1, s2)" by fastforce
  have s2: "drafted s t [] s2" using planless_next [OF planless_drafted call] assms(1) by simp
  then have "drafted s t d (append_data d i s2)" for d
    using assms(2) by (auto simp: drafted_def append_data_def touch_def content_def synced_def)
  then show ?thesis using call by (cases o1) (auto simp: file_write_def)
qed

text \<open>Where the writer stops, the draft has some bytes; where it succeeds, the built ones.\<close>

definition summary_of :: "nat \<Rightarrow> segment_plan \<Rightarrow> u8 list \<Rightarrow> seal_summary" where
  "summary_of n plan bytes = \<lparr>ss_sections = n, ss_bytes = length bytes, ss_min_ts = sp_min_ts plan, ss_max_ts = sp_max_ts plan\<rparr>"

definition draft_kept :: "day_fs \<Rightarrow> pgm_temp \<Rightarrow> u8 list \<Rightarrow> day_fs \<Rightarrow> bool" where
  "draft_kept s t body s3 \<longleftrightarrow> (\<exists>s2. drafted s t body s2 \<and> kept s2 s3)"

definition built_draft :: "seal_env \<Rightarrow> journal \<Rightarrow> day_fs \<Rightarrow> pgm_temp \<Rightarrow> seal_summary \<Rightarrow> day_fs \<Rightarrow> bool" where
  "built_draft env j s t summary s3 \<longleftrightarrow> (\<exists>n plan bytes. build_segment env j = (Inr (n, plan), bytes)
     \<and> summary = summary_of n plan bytes \<and> draft_kept s t bytes s3)"

lemma draft_kept_trans: "draft_kept s t body s3 \<Longrightarrow> kept s3 s4 \<Longrightarrow> draft_kept s t body s4"
  using kept_trans unfolding draft_kept_def by blast

lemma drafted_kept: "drafted s t body s2 \<Longrightarrow> draft_kept s t body s2"
  using kept_refl unfolding draft_kept_def by blast

lemma drafted_some: "drafted s t body s2 \<Longrightarrow> \<exists>body. draft_kept s t body s2"
  using drafted_kept by blast

lemma ends_drafted:
  assumes "ends (kept s3) Q r" and "draft_kept s t body s3"
  shows "ends (\<lambda>s3. \<exists>body. draft_kept s t body s3) Q r"
  using assms draft_kept_trans by (cases r; cases "fst r") (fastforce simp: ends_def)+

lemma write_tmp_ends:
  assumes created: "drafted s t [] s1"
  shows "ends (\<lambda>s3. \<exists>body. draft_kept s t body s3) (built_draft env j s t) (write_tmp env j t s1)"
proof -
  obtain built bytes where build: "build_segment env j = (built, bytes)" by fastforce
  have written: "ends (\<lambda>s3. \<exists>body. draft_kept s t body s3) (\<lambda>_. drafted s t bytes) (file_write (pt_inode t) bytes s1)"
    using file_write_ends [OF created refl, of bytes] drafted_kept
    by (cases "file_write (pt_inode t) bytes s1"; cases "fst (file_write (pt_inode t) bytes s1)"; simp; blast)
  have finished: "ends (\<lambda>s3. \<exists>body. draft_kept s t body s3) (built_draft env j s t)
      (seal_bind seal_io (file_length (pt_inode t) s2) (\<lambda>len s. seal_bind seal_io (file_sync_all (pt_inode t) s) (\<lambda>_ s.
        (Inr \<lparr>ss_sections = n, ss_bytes = len, ss_min_ts = sp_min_ts plan, ss_max_ts = sp_max_ts plan\<rparr>, s))))"
    if "built = Inr (n, plan)" and s2: "drafted s t bytes s2" for n plan s2
  proof (rule ends_drafted [OF _ drafted_kept [OF s2]], rule ends_seal_bind [OF kept_length [OF kept_refl]])
    fix len s3 assume s3: "kept s2 s3 \<and> len = length (content s2 (pt_inode t))"
    have "len = length bytes" using s2 s3 by (simp add: drafted_def)
    moreover have "draft_kept s t bytes s4" if "kept s2 s4" for s4 using draft_kept_trans [OF drafted_kept [OF s2] that] .
    ultimately show "ends (kept s2) (built_draft env j s t) (seal_bind seal_io (file_sync_all (pt_inode t) s3) (\<lambda>_ s.
        (Inr \<lparr>ss_sections = n, ss_bytes = len, ss_min_ts = sp_min_ts plan, ss_max_ts = sp_max_ts plan\<rparr>, s)))"
      by (intro ends_seal_bind [OF kept_sync [OF conjunct1 [OF s3]]])
         (use build that in \<open>simp add: built_draft_def summary_of_def\<close>)
  qed
  show ?thesis
    unfolding write_tmp_def build prod.case
    by (rule ends_seal_bind [OF written]) (auto simp: finished split: sum.split intro: drafted_some)
qed

section \<open>One attempt\<close>

text \<open>
  What an attempt leaves: nothing; a draft, or no longer one, whatever the final name; or, with the built bytes in the draft, any
  state of its publication.
\<close>

lemma elsewhere_simps [simp]:
  "drop_temp (t\<lparr>pt_final_name := other\<rparr>) s = drop_temp t s"
  by (simp add: drop_temp_def split: prod.split sum.split)

definition built_as :: "seal_env \<Rightarrow> journal \<Rightarrow> u8 list \<Rightarrow> bool" where
  "built_as env j bytes \<longleftrightarrow> (\<exists>n plan. build_segment env j = (Inr (n, plan), bytes))"

definition attempt_left :: "seal_env \<Rightarrow> journal \<Rightarrow> day_fs \<Rightarrow> pgm_temp \<Rightarrow> day_fs \<Rightarrow> bool" where
  "attempt_left env j s t s' \<longleftrightarrow> kept s s' \<or> (\<exists>body s2. drafted s t body s2
     \<and> ((\<forall>other. other \<noteq> pt_temp_name t \<longrightarrow> published_from (t\<lparr>pt_final_name := other\<rparr>) s2 s') \<or> (built_as env j body \<and> published_from t s2 s')))"

text \<open>A success: the final name denotes, also after a crash, a file with the built bytes.\<close>

definition sealed_as :: "seal_env \<Rightarrow> journal \<Rightarrow> string \<Rightarrow> seal_summary \<Rightarrow> day_fs \<Rightarrow> bool" where
  "sealed_as env j final summary s \<longleftrightarrow> (\<exists>n plan bytes k. build_segment env j = (Inr (n, plan), bytes) \<and> summary = summary_of n plan bytes
     \<and> dy_names s final = Some (FileEntry k) \<and> dy_durable s final = Some (FileEntry k) \<and> content s k = bytes)"

lemma drop_left: "drop_temp (t\<lparr>pt_prepared_identity := x\<rparr>) s = drop_temp t s" "drop_temp (t\<lparr>pt_published := True\<rparr>) s = s"
  by (simp_all add: drop_temp_def split: prod.split sum.split)

lemma failed_draft:
  assumes "draft_kept s t body s3"
  shows "attempt_left env j s t (drop_temp t s3)"
proof -
  obtain s2 where s2: "drafted s t body s2" "kept s2 s3" using assms unfolding draft_kept_def by blast
  have "published_from (t\<lparr>pt_final_name := other\<rparr>) s2 (drop_temp t s3)" if "other \<noteq> pt_temp_name t" for other
    using drop_temp_published [of "t\<lparr>pt_final_name := other\<rparr>", OF _ published_of_kept [OF s2(2)]] that by simp
  then show ?thesis using s2(1) unfolding attempt_left_def by blast
qed

lemma discard_synced: "ends (\<lambda>_. True) (\<lambda>t' s. dy_durable s = dy_names s \<and> t' = t\<lparr>pt_published := True\<rparr>) (discard t s)"
proof -
  have any: "ends (\<lambda>_. True) (\<lambda>_ _. True) r" for r :: "'a fs_result" by (cases r; cases "fst r") auto
  have sync: "ends (\<lambda>_. True) (\<lambda>_ s. dy_durable s = dy_names s) (directory_sync_all s)" for s
    unfolding directory_sync_all_def by (rule ends_call [of _ "\<lambda>_. True"]) (simp_all add: planless_def)
  show ?thesis
    unfolding discard_def
    by (rule ends_bind [OF any], rule ends_bind [OF any]) (simp, intro impI, rule ends_bind [OF sync], simp)
qed

text \<open>The part of an attempt after the checks of the draft.\<close>

lemma publish_left:
  assumes names: "pt_temp_name t \<noteq> pt_final_name t" and draft: "drafted s t bytes s2" "kept s2 s3"
    and build: "build_segment env j = (Inr (n, plan), bytes)"
    and t': "t' = t\<lparr>pt_prepared_identity := x\<rparr>" and run: "publish t' s3 = (r, s4)"
  shows "published_from t s2 s4"
    and "r = Inr t'' \<Longrightarrow> t'' = t'\<lparr>pt_published := True\<rparr> \<and> sealed_as env j (pt_final_name t) (summary_of n plan bytes) s4"
proof -
  have ends: "ends (published_from t s3) (published_as t' s3) (r, s4)"
    using publish_ends [of t' s3] names by (simp add: t' run [unfolded t'])
  then have s34: "published_from t s3 s4" by (cases r) (auto simp: t')
  then show "published_from t s2 s4" using kept_published [OF draft(2)] by simp
  assume "r = Inr t''"
  then have over: "publication_done t' s3 s4" "t'' = t'\<lparr>pt_published := True\<rparr>" using ends by simp_all
  have "content s4 (pt_inode t) = bytes"
    using s34 draft by (simp add: published_from_def kept_def drafted_def)
  then have "sealed_as env j (pt_final_name t) (summary_of n plan bytes) s4"
    using build over by (auto simp: sealed_as_def publication_done_def t')
  then show "t'' = t'\<lparr>pt_published := True\<rparr> \<and> sealed_as env j (pt_final_name t) (summary_of n plan bytes) s4" using over by simp
qed

lemma existing_left:
  assumes names: "pt_temp_name t \<noteq> pt_final_name t" and draft: "drafted s t bytes s2" and s4: "published_from t s2 s4"
    and build: "build_segment env j = (Inr (n, plan), bytes)" and t': "t' = t\<lparr>pt_prepared_identity := x\<rparr>"
    and check: "check_existing env t' summary s4 = (Inr u, s5)" and run: "discard t' s5 = (r, s6)"
  shows "published_from t s2 s6"
    and "r = Inr t'' \<Longrightarrow> t'' = t'\<lparr>pt_published := True\<rparr> \<and> sealed_as env j (pt_final_name t) (summary_of n plan bytes) s6"
proof -
  have "kept s4 s5" and "named_equal (pt_final_name t) (pt_inode t) s4"
    using kept_check_existing [OF kept_refl, of s4 t' env summary] check by (simp_all add: t')
  then obtain k where s5: "published_from t s2 s5" "dy_names s5 (pt_final_name t) = Some (FileEntry k)" "content s5 (pt_inode t) = content s5 k"
    using published_kept [OF s4] unfolding named_equal_def by (auto simp: kept_def)
  have left: "ends (published_from t s0) (\<lambda>_. published_from t s0) (r, s6)" if "published_from t s0 s5" for s0
    using discard_ends [of t' s0 s5] names that by (simp add: t' run [unfolded t'])
  then show "published_from t s2 s6" using s5(1) by (cases r) simp_all
  assume r: "r = Inr t''"
  have s56: "published_from t s5 s6" using left [OF published_from_refl] by (simp add: r)
  then have name: "dy_names s6 (pt_final_name t) = Some (FileEntry k)" using s5(2) unfolding published_from_def by auto
  have over: "dy_durable s6 = dy_names s6" "t'' = t'\<lparr>pt_published := True\<rparr>" using discard_synced [of t' s5] by (simp_all add: run r)
  have "content s5 (pt_inode t) = bytes" using s5(1) draft by (simp add: published_from_def drafted_def)
  then have "content s6 k = bytes" using s5(3) s56 by (simp add: published_from_def)
  then have "sealed_as env j (pt_final_name t) (summary_of n plan bytes) s6"
    using build over name by (auto simp: sealed_as_def)
  then show "t'' = t'\<lparr>pt_published := True\<rparr> \<and> sealed_as env j (pt_final_name t) (summary_of n plan bytes) s6" using over by simp
qed

lemma try_clone_ends:
  assumes "kept s0 s"
  shows "ends (kept s0) (\<lambda>t' s. kept s0 s \<and> (\<exists>x. t' = t\<lparr>pt_prepared_identity := x\<rparr>)) (try_clone_file t s)"
  unfolding try_clone_file_def
  by (rule ends_bind [OF kept_noop [OF assms]], rule ends_bind [OF kept_identity]) auto

lemma publish_or_compare_left:
  assumes names: "pt_temp_name t \<noteq> pt_final_name t" and draft: "drafted s t bytes s2" "kept s2 s3"
    and build: "build_segment env j = (Inr (n, plan), bytes)" and x: "t2 = t\<lparr>pt_prepared_identity := x\<rparr>"
    and run: "publish_or_compare env t2 (summary_of n plan bytes) s3 = (r, t', s')"
  shows "attempt_left env j s t (drop_temp t' s') \<and> (\<forall>summary. r = Inr summary \<longrightarrow> sealed_as env j (pt_final_name t) summary (drop_temp t' s'))"
proof -
  obtain q s4 where q: "publish t2 s3 = (q, s4)" by fastforce
  note published = publish_left [OF names draft build x q] and start = run [unfolded publish_or_compare_def q]
  have left: "attempt_left env j s t (drop_temp t2 s5)" "attempt_left env j s t s5" if "published_from t s2 s5" for s5
    using that drop_temp_published [OF names that] draft(1) build unfolding attempt_left_def built_as_def x drop_left by blast+
  show ?thesis
  proof (cases q)
    case (Inr t3)
    then show ?thesis using start published(2) [OF Inr] left(2) [OF published(1)] by (auto simp: x drop_left)
  next
    case failed: (Inl e)
    show ?thesis
    proof (cases "\<exists>i. e = SegmentAlreadyExists i")
      case False
      then have "isl r" "t' = t2" "s' = s4" using start failed by (auto split: layout_error.splits)
      then show ?thesis using left(1) [OF published(1)] by auto
    next
      case taken: True
      obtain h s5 where h: "check_existing env t2 (summary_of n plan bytes) s4 = (h, s5)" by fastforce
      have s5: "published_from t s2 s5"
        using kept_check_existing [OF kept_refl, of s4 t2 env "summary_of n plan bytes"] published_kept [OF published(1)]
        unfolding h by (cases h) auto
      obtain g s6 where g: "discard t2 s5 = (g, s6)" by fastforce
      show ?thesis
      proof (cases h)
        case (Inl e1)
        then have "isl r" "t' = t2" "s' = s5" using start failed taken h by auto
        then show ?thesis using left(1) [OF s5] by auto
      next
        case same: (Inr u)
        note existing = existing_left [OF names draft(1) published(1) build x h [unfolded same] g]
        have "(r, t', s') = (case g of Inl e \<Rightarrow> (Inl (SealLayout e), t2, s6) | Inr t \<Rightarrow> (Inr (summary_of n plan bytes), t, s6))"
          using start failed taken h same g by (auto split: sum.split)
        then show ?thesis using existing left [OF existing(1)] by (cases g) (auto simp: x drop_left)
      qed
    qed
  qed
qed

lemma seal_temp_left:
  assumes created: "drafted s t [] s1" and names: "pt_temp_name t \<noteq> pt_final_name t" and run: "seal_temp env j t s1 = (r, t', s')"
  shows "attempt_left env j s t (drop_temp t' s') \<and> (\<forall>summary. r = Inr summary \<longrightarrow> sealed_as env j (pt_final_name t) summary (drop_temp t' s'))"
proof -
  obtain w s3 where w: "write_tmp env j t s1 = (w, s3)" by fastforce
  note written = write_tmp_ends [OF created, of env j, unfolded w]
  show ?thesis
  proof (cases w)
    case (Inl e)
    then show ?thesis using written run w failed_draft by (auto simp: seal_temp_def)
  next
    case summary: (Inr summary)
    obtain n plan bytes where build: "build_segment env j = (Inr (n, plan), bytes)" "summary = summary_of n plan bytes"
      and s3: "draft_kept s t bytes s3"
      using written unfolding summary ends_Inr built_draft_def by blast
    obtain c s4 where c: "try_clone_file t s3 = (c, s4)" by fastforce
    have s4: "draft_kept s t bytes s4"
      using try_clone_ends [OF kept_refl, of s3 t] draft_kept_trans [OF s3] unfolding c by (cases c) auto
    show ?thesis
    proof (cases c)
      case (Inl e)
      then show ?thesis using run w summary c failed_draft [OF s4] by (auto simp: seal_temp_def)
    next
      case t2: (Inr t2)
      then obtain x where x: "t2 = t\<lparr>pt_prepared_identity := x\<rparr>" using try_clone_ends [OF kept_refl, of s3 t] by (auto simp: c)
      obtain v s5 where v: "validate_segment env (pt_inode t2) summary s4 = (v, s5)" by fastforce
      have s5: "draft_kept s t bytes s5"
        using kept_validate [OF kept_refl, of s4 env "pt_inode t2" summary] draft_kept_trans [OF s4] unfolding v by (cases v) simp_all
      note start = run [unfolded seal_temp_def w prod.case sum.case summary c t2 v]
      show ?thesis
      proof (cases "v = Inr True")
        case False
        then have "t' = t2 \<and> s' = s5 \<and> isl r" using start by (cases v) auto
        then show ?thesis using failed_draft [OF s5] by (auto simp: x drop_left)
      next
        case True
        then have "publish_or_compare env t2 (summary_of n plan bytes) s5 = (r, t', s')" using start build(2) by simp
        then show ?thesis
          using s5 publish_or_compare_left [OF names _ _ build(1) x] unfolding draft_kept_def by blast
      qed
    qed
  qed
qed

lemma temp_for_names: "pt_temp_name (temp_for address pid sequence i) \<noteq> pt_final_name (temp_for address pid sequence i)"
proof
  assume "pt_temp_name (temp_for address pid sequence i) = pt_final_name (temp_for address pid sequence i)"
  then have "split_char CHR ''.'' (temporary_name address TmpPgm pid sequence) = split_char CHR ''.'' (pgm_name address)"
    by (simp add: temp_for_def)
  then show False by (simp add: split_temporary split_final)
qed

lemma seal_left:
  assumes run: "seal_segment env j address pid sequence s = (r, s')"
  defines "t \<equiv> temp_for address pid sequence (dy_next s)"
  shows "attempt_left env j s t s' \<and> (\<forall>summary. r = Inr summary \<longrightarrow> sealed_as env j (pgm_name address) summary s')"
proof (cases "fst (create_pgm_temp address pid sequence s)")
  case (Inl e)
  then obtain s1 where c: "create_pgm_temp address pid sequence s = (Inl e, s1)" by (metis prod.collapse)
  then have "kept s s1" using create_pgm_temp_ends [of s address pid sequence] by simp
  then show ?thesis using run c by (auto simp: seal_segment_def attempt_left_def split: if_splits)
next
  case (Inr t0)
  then obtain s1 where c: "create_pgm_temp address pid sequence s = (Inr t0, s1)" by (metis prod.collapse)
  then have t0: "t0 = t" and s1: "drafted s t [] s1"
    using create_pgm_temp_ends [of s address pid sequence] by (auto simp: t_def)
  show ?thesis
  proof (cases "j_parts j = [] \<or> (j_segment_id j \<noteq> None \<and> the (j_segment_id j) \<noteq> sa_id address)")
    case True
    then show ?thesis using run by (auto simp: seal_segment_def attempt_left_def split: if_splits)
  next
    case False
    obtain r1 t1 s2 where temp: "seal_temp env j t s1 = (r1, t1, s2)" by (cases "seal_temp env j t s1") auto
    have "r = r1" "s' = drop_temp t1 s2" using run False temp by (auto simp: seal_segment_def c t0)
    moreover have "pt_temp_name t \<noteq> pt_final_name t" unfolding t_def by (rule temp_for_names)
    ultimately show ?thesis
      using seal_temp_left [OF s1 _ temp] by (simp add: t_def temp_for_def)
  qed
qed

section \<open>Any number of attempts\<close>

text \<open>The name is free or denotes a synchronised file with the given bytes, now and after a crash.\<close>

definition held :: "u8 list \<Rightarrow> day_fs \<Rightarrow> day_entry option \<Rightarrow> bool" where
  "held bytes s e \<longleftrightarrow> e = None \<or> (\<exists>k. e = Some (FileEntry k) \<and> k < dy_next s \<and> synced s k \<and> content s k = bytes)"

definition free_or :: "u8 list \<Rightarrow> string \<Rightarrow> day_fs \<Rightarrow> bool" where
  "free_or bytes name s \<longleftrightarrow> held bytes s (dy_names s name) \<and> held bytes s (dy_durable s name)"

lemma held_mono:
  assumes "held bytes s e" and "dy_next s \<le> dy_next s'"
    and "\<And>k. k < dy_next s \<Longrightarrow> synced s k \<Longrightarrow> content s' k = content s k \<and> synced s' k"
  shows "held bytes s' e"
  using assms unfolding held_def by fastforce

lemma free_or_mono:
  assumes "free_or bytes name s" and names: "dy_names s' name \<in> {dy_names s name, dy_durable s name}"
    and durable: "dy_durable s' name \<in> {dy_names s name, dy_durable s name}" and grown: "dy_next s \<le> dy_next s'"
    and same: "\<And>k. k < dy_next s \<Longrightarrow> synced s k \<Longrightarrow> content s' k = content s k \<and> synced s' k"
  shows "free_or bytes name s'"
proof -
  have "held bytes s' e" if "e \<in> {dy_names s name, dy_durable s name}" for e
  proof (rule held_mono [OF _ grown same])
    show "held bytes s e" using assms(1) that by (auto simp: free_or_def)
  qed
  then show ?thesis using names durable by (simp add: free_or_def)
qed

lemma free_or_crash: "free_or bytes name s \<Longrightarrow> after_crash s s' \<Longrightarrow> free_or bytes name s'"
  by (rule free_or_mono [of bytes name s]) (simp_all add: after_crash_def)

lemma free_or_plan [simp]: "free_or bytes name (s\<lparr>dy_plan := p\<rparr>) \<longleftrightarrow> free_or bytes name s"
  by (simp add: free_or_def held_def)

lemma free_or_drafted:
  assumes "free_or bytes name s" and "drafted s t body s1" and "pt_temp_name t \<noteq> name"
  shows "free_or bytes name s1"
  by (rule free_or_mono [OF assms(1)]) (use assms(2,3) in \<open>simp_all add: drafted_def\<close>)

lemma free_or_published:
  assumes ok: "free_or bytes (pt_final_name t) s" and from_s: "published_from t s s'"
    and inode: "content s (pt_inode t) = bytes" "pt_inode t < dy_next s"
  shows "free_or bytes (pt_final_name t) s'"
proof -
  let ?F = "pt_final_name t"
  have same: "dy_next s' = dy_next s" "content s' k = content s k" "synced s k \<Longrightarrow> synced s' k" for k
    using from_s by (simp_all add: published_from_def)
  have old: "held bytes s' e" if "held bytes s e" for e by (rule held_mono [OF that]) (simp_all add: same)
  have name: "held bytes s' (dy_names s' ?F)"
  proof (cases "dy_names s' ?F = dy_names s ?F")
    case True
    then show ?thesis using ok old by (simp add: free_or_def)
  next
    case False
    then have "dy_names s' ?F = Some (FileEntry (pt_inode t))" "synced s' (pt_inode t)" using from_s unfolding published_from_def by blast+
    then show ?thesis using inode by (simp add: held_def same)
  qed
  have "dy_durable s' ?F = dy_durable s ?F \<or> dy_durable s' ?F = dy_names s ?F \<or> dy_durable s' ?F = dy_names s' ?F"
    using from_s unfolding published_from_def by blast
  then have "held bytes s' (dy_durable s' ?F)" using name ok old unfolding free_or_def by metis
  then show ?thesis using name by (simp add: free_or_def)
qed

lemma other_name: "\<exists>other :: string. other \<noteq> a \<and> other \<noteq> b"
  by (intro exI [of _ "a @ b @ ''x''"]) simp

lemma free_or_left:
  assumes ok: "free_or bytes (pt_final_name t) s" and left: "attempt_left env j s t s'" and names: "pt_temp_name t \<noteq> pt_final_name t"
    and built: "built_as env j bytes"
  shows "free_or bytes (pt_final_name t) s'"
proof -
  consider "kept s s'" | body s2 where "drafted s t body s2" "\<And>other. other \<noteq> pt_temp_name t \<Longrightarrow> published_from (t\<lparr>pt_final_name := other\<rparr>) s2 s'"
    | body s2 where "drafted s t body s2" "built_as env j body" "published_from t s2 s'"
    using left unfolding attempt_left_def by blast
  then show ?thesis
  proof cases
    case 1
    then show ?thesis by (intro free_or_mono [OF ok]) (simp_all add: kept_def)
  next
    case 2
    have s2: "free_or bytes (pt_final_name t) s2" by (rule free_or_drafted [OF ok 2(1) names])
    obtain other where other: "other \<noteq> pt_temp_name t" "other \<noteq> pt_final_name t" using other_name by blast
    note s' = 2(2) [OF other(1)]
    have name: "dy_names s' (pt_final_name t) = dy_names s2 (pt_final_name t)"
      using s' names other(2) unfolding published_from_def by simp
    have "dy_durable s' (pt_final_name t) = dy_durable s2 (pt_final_name t) \<or> dy_durable s' (pt_final_name t) = dy_names s2 (pt_final_name t)
        \<or> dy_durable s' (pt_final_name t) = dy_names s' (pt_final_name t)"
      using s' unfolding published_from_def by blast
    moreover have "dy_next s' = dy_next s2" "content s' k = content s2 k" "synced s2 k \<Longrightarrow> synced s' k" for k
      using s' by (simp_all add: published_from_def)
    ultimately show ?thesis
      by (intro free_or_mono [OF s2]) (auto simp: name)
  next
    case 3
    have "body = bytes" using 3(2) built by (auto simp: built_as_def)
    then have "content s2 (pt_inode t) = bytes" "pt_inode t < dy_next s2" using 3(1) by (simp_all add: drafted_def)
    then show ?thesis using free_or_published [OF free_or_drafted [OF ok 3(1) names] 3(3)] by blast
  qed
qed

section \<open>Undisturbed attempts\<close>

lemma quiet_next: "dy_plan s = [] \<Longrightarrow> next_fs s = (FsOk, s)"
  by (simp add: next_fs_def)

lemma quiet_calls:
  assumes "dy_plan s = []"
  shows "fs_call f s = f s" and "identity_from_file i s = (Inr (identity_of i (dy_files s i)), s)"
    and "file_length i s = (Inr (length (content s i)), s)"
    and "dy_names s name = Some (FileEntry k) \<Longrightarrow> open_regular_at name s = (Inr k, s)"
    and "validate_segment env i expected s = (Inr (validate_bytes (se_crc env) (content s i) expected), s)"
  using assms
  by (simp_all add: fs_call_def quiet_next identity_from_file_def file_length_def open_regular_at_def validate_segment_def seal_bind_def)

lemma identity_len: "fi_len (identity_of i (dy_files s i)) = length (content s i)"
  by (simp add: identity_of_def content_def)

lemma quiet_files_equal:
  assumes quiet: "dy_plan s = []" and same: "content s left = content s right"
  shows "files_equal left right s = (Inr True, s)"
proof -
  have "chunks_equal (content s right) (content s right) 0 (length (content s right))"
    by (simp add: chunks_equal_iff)
  then show ?thesis
    by (simp add: files_equal_def seal_bind_def quiet_calls(2) [OF quiet] identity_len same)
qed

lemma quiet_check_existing:
  assumes quiet: "dy_plan s = []" and "dy_names s (pt_final_name t) = Some (FileEntry k)"
    and same: "content s (pt_inode t) = content s k" and valid: "validate_bytes (se_crc env) (content s k) summary"
  shows "check_existing env t summary s = (Inr (), s)"
  by (simp add: check_existing_def seal_bind_def seal_try_def quiet_calls [OF quiet] assms(2) quiet_files_equal [OF quiet same] valid)

lemma quiet_write_tmp:
  assumes quiet: "dy_plan s = []" and build: "build_segment env j = (Inr (n, plan), bytes)" and empty: "content s (pt_inode t) = []"
  obtains s' where "write_tmp env j t s = (Inr (summary_of n plan bytes), s')" and "dy_plan s' = []" and "dy_names s' = dy_names s"
    and "content s' (pt_inode t) = bytes" and "\<And>k. k \<noteq> pt_inode t \<Longrightarrow> content s' k = content s k"
proof -
  let ?i = "pt_inode t"
  let ?s1 = "append_data bytes ?i s"
  let ?s2 = "?s1\<lparr>dy_files := (dy_files ?s1)(?i := (dy_files ?s1 ?i)\<lparr>df_durable := df_bytes (dy_files ?s1 ?i)\<rparr>)\<rparr>"
  have s1: "dy_plan ?s1 = []" using quiet by (simp add: append_data_def)
  have written: "content ?s1 ?i = bytes" using empty by (simp add: append_data_def touch_def content_def)
  have "write_tmp env j t s = (Inr (summary_of n plan bytes), ?s2)"
    by (simp add: write_tmp_def build seal_bind_def file_write_def quiet_next [OF quiet] quiet_calls [OF s1] written file_sync_all_def
        summary_of_def)
  moreover have "content ?s2 = content ?s1" by (auto simp: content_def fun_eq_iff)
  ultimately show thesis
    using that [of ?s2] s1 written by (simp add: append_data_def touch_def content_def)
qed

lemma quiet_discard:
  assumes quiet: "dy_plan s = []" and named: "dy_names s (pt_temp_name t) = Some (FileEntry (pt_inode t))"
  shows "\<exists>s'. discard t s = (Inr (t\<lparr>pt_published := True\<rparr>), s')"
  using assms
  by (simp add: discard_def fs_bind_def unlink_named_if_identity_def quiet_calls(2,4) [OF quiet] same_named_object_def unlink_at_def
      quiet_calls(1) [OF quiet] directory_sync_all_def fs_call_def next_fs_def touch_def)

text \<open>A published draft, or the same bytes under the final name already.\<close>

lemma quiet_publish_or_compare:
  assumes place: "in_place t s" and valid: "validate_bytes (se_crc env) (content s (pt_inode t)) summary"
    and name: "dy_names s (pt_final_name t) = None \<or>
      (\<exists>k. dy_names s (pt_final_name t) = Some (FileEntry k) \<and> content s k = content s (pt_inode t))"
  shows "\<exists>s'. publish_or_compare env t summary s = (Inr summary, t\<lparr>pt_published := True\<rparr>, s')"
proof (cases "dy_names s (pt_final_name t)")
  case None
  then show ?thesis using publish_quiet [OF place] by (auto simp: publish_or_compare_def)
next
  case (Some e)
  then obtain k where k: "dy_names s (pt_final_name t) = Some (FileEntry k)" "content s k = content s (pt_inode t)" using name by auto
  obtain s1 where s1: "publish t s = (Inl (SegmentAlreadyExists (pt_id t)), s1)" "dy_plan s1 = []" "dy_names s1 = dy_names s"
    "\<And>k. content s1 k = content s k"
    using publish_exists_quiet [OF place] Some by auto
  have check: "check_existing env t summary s1 = (Inr (), s1)"
    by (rule quiet_check_existing [OF s1(2), where k = k]) (use s1 k valid in simp_all)
  obtain s2 where "discard t s1 = (Inr (t\<lparr>pt_published := True\<rparr>), s2)"
    using quiet_discard [OF s1(2)] place s1(3) by (auto simp: in_place_def)
  then show ?thesis by (simp add: publish_or_compare_def s1 check)
qed

lemma quiet_seal:
  assumes quiet: "dy_plan s = []" and build: "build_segment env j = (Inr (n, plan), bytes)" and ok: "free_or bytes (pgm_name address) s"
    and temp: "dy_names s (temporary_name address TmpPgm pid sequence) = None"
    and journal: "j_parts j \<noteq> []" "j_segment_id j = None \<or> j_segment_id j = Some (sa_id address)"
  shows "\<exists>s'. seal_segment env j address pid sequence s = (Inr (summary_of n plan bytes), s')"
proof -
  let ?t = "temp_for address pid sequence (dy_next s)" and ?F = "pgm_name address"
  have names: "temporary_name address TmpPgm pid sequence \<noteq> ?F" using temp_for_names by (simp add: temp_for_def)
  obtain s1 where s1: "create_pgm_temp address pid sequence s = (Inr ?t, s1)" "dy_plan s1 = []"
    using temp by (simp add: create_pgm_temp_def fs_bind_def quiet_calls(1) [OF quiet] Let_def create_regular_at_def temp_for_def quiet)
  have draft: "drafted s ?t [] s1" using create_pgm_temp_ends [of s address pid sequence] s1(1) by simp
  then have empty: "content s1 (pt_inode ?t) = []" by (simp add: drafted_def temp_for_def)
  obtain s2 where s2: "write_tmp env j ?t s1 = (Inr (summary_of n plan bytes), s2)" "dy_plan s2 = []" "dy_names s2 = dy_names s1"
    "content s2 (pt_inode ?t) = bytes" "\<And>k. k \<noteq> pt_inode ?t \<Longrightarrow> content s2 k = content s1 k"
    using quiet_write_tmp [OF s1(2) build empty] by metis
  let ?t2 = "?t\<lparr>pt_prepared_identity := Some (identity_of (pt_inode ?t) (dy_files s2 (pt_inode ?t)))\<rparr>"
  have clone: "try_clone_file ?t s2 = (Inr ?t2, s2)"
    by (simp add: try_clone_file_def fs_bind_def quiet_calls(1,2) [OF s2(2)])
  have valid: "validate_bytes (se_crc env) (content s2 (pt_inode ?t)) (summary_of n plan bytes)"
    using built_valid [OF build] s2(4) by (simp add: summary_of_def)
  have named: "dy_names s2 = (dy_names s)(pt_temp_name ?t := Some (FileEntry (pt_inode ?t)))" "pt_inode ?t = dy_next s"
    using draft s2(3) by (simp_all add: drafted_def temp_for_def)
  have place: "in_place ?t2 s2"
    using s2(2) named names by (simp add: in_place_def temp_for_def)
  have "dy_names s ?F = None \<or> (\<exists>k. dy_names s ?F = Some (FileEntry k) \<and> k < dy_next s \<and> content s k = bytes)"
    using ok by (auto simp: free_or_def held_def)
  then have name: "dy_names s2 ?F = None \<or> (\<exists>k. dy_names s2 ?F = Some (FileEntry k) \<and> content s2 k = content s2 (pt_inode ?t))"
  proof
    assume "\<exists>k. dy_names s ?F = Some (FileEntry k) \<and> k < dy_next s \<and> content s k = bytes"
    then obtain k where k: "dy_names s ?F = Some (FileEntry k)" "k < dy_next s" "content s k = bytes" by blast
    then have "content s2 k = bytes" using s2(5) [of k] draft named(2) by (simp add: drafted_def)
    then show ?thesis using k(1) named(1) names s2(4) by (simp add: temp_for_def)
  qed (use named names in \<open>simp add: temp_for_def\<close>)
  have "\<exists>s3. publish_or_compare env ?t2 (summary_of n plan bytes) s2 = (Inr (summary_of n plan bytes), ?t2\<lparr>pt_published := True\<rparr>, s3)"
    by (rule quiet_publish_or_compare [OF place]) (use valid name in \<open>simp_all add: temp_for_def\<close>)
  then obtain s3 where "publish_or_compare env ?t2 (summary_of n plan bytes) s2 = (Inr (summary_of n plan bytes), ?t2\<lparr>pt_published := True\<rparr>, s3)"
    by blast
  then have "seal_temp env j ?t s1 = (Inr (summary_of n plan bytes), ?t2\<lparr>pt_published := True\<rparr>, s3)"
    using valid by (simp add: seal_temp_def s2(1) clone quiet_calls(5) [OF s2(2)])
  then show ?thesis using journal by (auto simp: seal_segment_def s1(1))
qed

end
