(* ===== verification/Segment_Sample.thy ===== *)
theory Segment_Sample
  imports Segment_Seal
begin

text \<open>
  A journal of two parts and its sealed segment, on which the properties of sealing are instantiated.
  The first part has two rows of a data section and a dictionary of one string, the second part one
  more row.  The Parquet files are stand-ins whose fifth byte says what they hold.
\<close>

definition sample_file :: "u8 \<Rightarrow> u8 list" where
  "sample_file k = PARQUET_MAGIC @ [k, 1, 2, 3] @ [0, 0, 0, 0] @ PARQUET_MAGIC"

definition sample_strings :: record_batch where
  "sample_strings = \<lparr>rb_fields = strings_schema, rb_rows = [[CInt 5, CBytes [65, 66]]]\<rparr>"

definition data_file :: "record_batch \<Rightarrow> parquet_file" where
  "data_file b = \<lparr>pf_row_groups = 1, pf_num_rows = int (num_rows b), pf_schema = rb_fields b, pf_batches = \<lambda>_. Inr [Inr b]\<rparr>"

definition seal_backend :: arrow_backend where
  "seal_backend = \<lparr>ab_parsers = sample_parsers,
     ab_open = \<lambda>bs. Inr (data_file (if bs ! 4 = 9 then sample_batch [(2, 7), (1, 5)]
       else if bs ! 4 = 8 then sample_batch [(1, 3)] else sample_strings)),
     ab_write = \<lambda>_ b. Inr (80 # map (\<lambda>row. case row of [CInt x, CInt y] \<Rightarrow> of_int (16 * x + y) | _ \<Rightarrow> 0) (rb_rows b)),
     ab_lexsort = sample_lexsort\<rparr>"

definition sample_seal_env :: seal_env where
  "sample_seal_env = \<lparr>se_crc = sum_crc, se_backend = seal_backend, se_registry = sample_registry, se_xxh = \<lambda>_. 5\<rparr>"

definition first_sections :: "section_input list" where
  "first_sections = [\<lparr>si_type_id = 1006001, si_rows = 2, si_body = sample_file 9\<rparr>,
     \<lparr>si_type_id = 3001001, si_rows = 1, si_body = sample_file 7\<rparr>]"

definition second_sections :: "section_input list" where
  "second_sections = [\<lparr>si_type_id = 1006001, si_rows = 1, si_body = sample_file 8\<rparr>]"

definition part_of :: "section_input list \<Rightarrow> part_meta \<Rightarrow> u8 list" where
  "part_of ss meta = part_bytes sum_crc (part_catalog (fst (build_entries sum_crc ss MAGIC)) meta) (concat (map si_body ss))"

definition first_part :: "u8 list" where
  "first_part = part_of first_sections \<lparr>pm_min_ts = 5, pm_max_ts = 6\<rparr>"

definition second_part :: "u8 list" where
  "second_part = part_of second_sections \<lparr>pm_min_ts = 2, pm_max_ts = 9\<rparr>"

definition sample_journal :: journal where
  "sample_journal = demo_journal\<lparr>j_file := (j_file demo_journal)\<lparr>jf_bytes := journal_bytes sum_crc (Some 1709164800000000) [first_part, second_part]\<rparr>,
     j_end := 300, j_segment_id := Some 1709164800000000,
     j_parts := [\<lparr>jp_raw = \<lparr>pr_offset = 52, pr_len = 140\<rparr>, jp_generation = 0\<rparr>,
                 \<lparr>jp_raw = \<lparr>pr_offset = 208, pr_len = 92\<rparr>, jp_generation = 0\<rparr>]\<rparr>"

lemma sample_env_simps [simp]:
  "se_crc sample_seal_env = sum_crc" "se_backend sample_seal_env = seal_backend" "se_registry sample_seal_env = sample_registry"
  "se_xxh sample_seal_env = (\<lambda>_. 5)"
  by (simp_all add: sample_seal_env_def)

lemma length_sample_file: "length (sample_file k) = 16"
  by (simp add: sample_file_def PARQUET_MAGIC_def)

lemma part_of_valid:
  assumes "sections_canonical ss" and "length ss \<le> 10" and "length (concat (map si_body ss)) \<le> 1000"
  shows "validate_part sum_crc (part_of ss meta) = Inr (part_catalog (fst (build_entries sum_crc ss MAGIC)) meta)"
    and "map (entry_body (part_of ss meta)) (fst (build_entries sum_crc ss MAGIC)) = map si_body ss"
    and "length (part_of ss meta) = length (concat (map si_body ss)) + 32 * length ss + 44"
proof -
  let ?c = "part_catalog (fst (build_entries sum_crc ss MAGIC)) meta"
  have len: "encoded_len ?c = 32 * length ss + 32" by (simp add: encoded_len_def part_catalog_def build_entries_fields layout_lens)
  show total: "length (part_of ss meta) = length (concat (map si_body ss)) + 32 * length ss + 44"
    by (simp add: part_of_def length_part_bytes len)
  have entries: "c_entries ?c = fst (build_entries sum_crc ss MAGIC)" by (simp add: part_catalog_def)
  have fits: "encoded_len ?c < u32_limit" and small: "length (part_bytes sum_crc ?c (concat (map si_body ss))) < usize_limit"
    using assms(2,3) total by (simp_all add: len part_of_def)
  show "validate_part sum_crc (part_of ss meta) = Inr ?c" and "map (entry_body (part_of ss meta)) (fst (build_entries sum_crc ss MAGIC)) = map si_body ss"
    using assembled_valid(2,3) [OF assms(1) entries fits small] by (simp_all add: part_of_def entries)
qed

lemma sample_canonical: "sections_canonical first_sections" "sections_canonical second_sections"
  by (simp_all add: sections_canonical_def first_sections_def second_sections_def section_ok_def MAX_PHYSICAL_SECTION_ROWS_def
      section_order_of_def DICT_STRINGS_TYPE_ID_def DICT_BLOBS_TYPE_ID_def less_section_order_def word_le_nat_alt
      length_sample_file, simp_all add: sample_file_def)

lemma sample_sizes:
  "length first_sections \<le> 10" "length (concat (map si_body first_sections)) \<le> 1000"
  "length second_sections \<le> 10" "length (concat (map si_body second_sections)) \<le> 1000"
  by (simp_all add: first_sections_def second_sections_def length_sample_file)

lemmas first_valid = part_of_valid [OF sample_canonical(1) sample_sizes(1,2), of "\<lparr>pm_min_ts = 5, pm_max_ts = 6\<rparr>", folded first_part_def]
lemmas second_valid = part_of_valid [OF sample_canonical(2) sample_sizes(3,4), of "\<lparr>pm_min_ts = 2, pm_max_ts = 9\<rparr>", folded second_part_def]

lemma sample_lengths: "length first_part = 140" "length second_part = 92"
  by (simp_all add: first_valid(3) second_valid(3), simp_all add: first_sections_def second_sections_def length_sample_file)

lemma sample_part_ok: "part_ok sum_crc (jc_limits config_default) first_part" "part_ok sum_crc (jc_limits config_default) second_part"
  using first_valid(1) second_valid(1) by (simp_all add: part_ok_def sample_lengths config_default_def MAX_PART_LEN_def)

lemma sample_journal_holds: "journal_holds sum_crc (Some 1709164800000000) [first_part, second_part] sample_journal"
  using demo_segment_id sample_part_ok
  by (simp add: journal_holds_def holdable_def sample_journal_def demo_journal_def frames_of_def sample_lengths FRAME_HEADER_LEN_def
      validate_config_def config_default_def MAX_JOURNAL_LEN_def MAX_JOURNAL_PARTS_def MAX_PART_LEN_def part_ok_def JOURNAL_HEADER_LEN_def)

text \<open>Reading the parts and the bodies of their sections.\<close>

definition first_ref :: journal_part_ref where
  "first_ref = \<lparr>jp_raw = \<lparr>pr_offset = 52, pr_len = 140\<rparr>, jp_generation = 0\<rparr>"

definition second_ref :: journal_part_ref where
  "second_ref = \<lparr>jp_raw = \<lparr>pr_offset = 208, pr_len = 92\<rparr>, jp_generation = 0\<rparr>"

lemma sample_refs:
  "\<lparr>jp_raw = refs_from 36 [first_part, second_part] ! 0, jp_generation = j_generation sample_journal\<rparr> = first_ref"
  "\<lparr>jp_raw = refs_from 36 [first_part, second_part] ! 1, jp_generation = j_generation sample_journal\<rparr> = second_ref"
  by (simp_all add: first_ref_def second_ref_def sample_lengths FRAME_HEADER_LEN_def sample_journal_def demo_journal_def)

lemma sample_parts: "j_parts sample_journal = [first_ref, second_ref]"
  by (simp add: sample_journal_def first_ref_def second_ref_def)

lemma sample_reads:
  "read_part sample_journal first_ref = Inr first_part" "read_part sample_journal second_ref = Inr second_part"
  using read_part_index [OF sample_journal_holds, of 0, unfolded sample_refs] read_part_index [OF sample_journal_holds, of 1, unfolded sample_refs]
  by simp_all

lemma sample_ranges:
  "offset + len \<le> 140 \<Longrightarrow> read_part_range sample_journal first_ref offset len = Inr (subslice offset (offset + len) first_part)"
  "offset + len \<le> 92 \<Longrightarrow> read_part_range sample_journal second_ref offset len = Inr (subslice offset (offset + len) second_part)"
  using read_part_range_index [OF sample_journal_holds, of 0 offset len, unfolded sample_refs]
    read_part_range_index [OF sample_journal_holds, of 1 offset len, unfolded sample_refs]
  by (simp_all add: sample_lengths)

definition sample_entry :: "u32 \<Rightarrow> u32 \<Rightarrow> u64 \<Rightarrow> u8 \<Rightarrow> entry" where
  "sample_entry t rows at k = \<lparr>e_type_id = t, e_flags = 0, e_offset = at, e_len = 16, e_rows = rows, e_crc32c = sum_crc (sample_file k)\<rparr>"

lemma sample_entry_simps [simp]: "e_rows (sample_entry t rows at k) = rows" "e_type_id (sample_entry t rows at k) = t"
  by (simp_all add: sample_entry_def)

lemma sample_entries:
  "fst (build_entries sum_crc first_sections MAGIC) = [sample_entry 1006001 2 4 9, sample_entry 3001001 1 20 7]"
  "fst (build_entries sum_crc second_sections MAGIC) = [sample_entry 1006001 1 4 8]"
  by (simp_all add: first_sections_def second_sections_def sample_entry_def length_sample_file)

lemma sample_bodies:
  "entry_body first_part (sample_entry 1006001 2 4 9) = sample_file 9" "entry_body first_part (sample_entry 3001001 1 20 7) = sample_file 7"
  "entry_body second_part (sample_entry 1006001 1 4 8) = sample_file 8"
  using first_valid(2) second_valid(2) unfolding sample_entries by (simp_all add: first_sections_def second_sections_def)

lemma sample_verified:
  "read_verified_body sample_seal_env sample_journal \<lparr>sx_part = first_ref, sx_entry = sample_entry 1006001 2 4 9\<rparr> = Inr (sample_file 9)"
  "read_verified_body sample_seal_env sample_journal \<lparr>sx_part = first_ref, sx_entry = sample_entry 3001001 1 20 7\<rparr> = Inr (sample_file 7)"
  "read_verified_body sample_seal_env sample_journal \<lparr>sx_part = second_ref, sx_entry = sample_entry 1006001 1 4 8\<rparr> = Inr (sample_file 8)"
  using sample_bodies
  by (simp_all add: read_verified_body_def sample_entry_def sample_ranges entry_body_def verify_section_def sample_seal_env_def)

text \<open>The plan.\<close>

definition data_descriptors :: "section_descriptor list" where
  "data_descriptors = [\<lparr>sx_part = first_ref, sx_entry = sample_entry 1006001 2 4 9\<rparr>, \<lparr>sx_part = second_ref, sx_entry = sample_entry 1006001 1 4 8\<rparr>]"

definition sample_plan :: segment_plan where
  "sample_plan = \<lparr>sp_by_type = [(1006001, data_descriptors), (3001001, [\<lparr>sx_part = first_ref, sx_entry = sample_entry 3001001 1 20 7\<rparr>])],
     sp_min_ts = 2, sp_max_ts = 9, sp_window_count = 2\<rparr>"

lemma sample_catalogs:
  "validate_part_catalog sum_crc first_part = Inr (part_catalog [sample_entry 1006001 2 4 9, sample_entry 3001001 1 20 7] \<lparr>pm_min_ts = 5, pm_max_ts = 6\<rparr>)"
  "validate_part_catalog sum_crc second_part = Inr (part_catalog [sample_entry 1006001 1 4 8] \<lparr>pm_min_ts = 2, pm_max_ts = 9\<rparr>)"
  using first_valid(1) second_valid(1) by (simp_all add: validate_part_catalog_def validate_part_Inr sample_entries)

lemma sample_planned: "plan_segment sample_seal_env sample_journal = Inr sample_plan"
  by (simp add: plan_segment_def sample_parts plan_start_def sample_reads sample_seal_env_def sample_catalogs part_catalog_def
      usize_checked_add_def section_bounds push_descriptor_def om_get_def sample_plan_def data_descriptors_def Let_def
      i64_min_def i64_max_def i64_MIN_def i64_MAX_def)

text \<open>The dictionary.\<close>

lemma sample_preflight:
  "validate_parquet_decode_work sample_parsers (sample_file k) MAX_DECODED_SECTION_BYTES = Inr ()"
  "validate_plain_parquet_decode_work sample_parsers (sample_file k) MAX_DECODED_SECTION_BYTES = Inr ()"
proof -
  note data = sample_page_def sample_metadata_def sample_parsers_def sample_file_def PARQUET_MAGIC_def
    ENC_PLAIN_def ENC_RLE_def section_bounds compact_input_new_def remaining_len_def subslice_def u32_from_le_def
  have footer: "parse_footer sample_parsers (sample_file k) = Inr (sample_metadata, 8)"
    by (simp add: parse_footer_def data)
  have "walk_chunks sample_parsers plain MAX_DECODED_SECTION_BYTES (sample_file k) [\<lparr>cr_start = 4, cr_end = 8, cr_data_start = 4,
      cr_declared = 4, cr_values = 2, cr_has_dictionary = False\<rparr>] 0 0 = Inr 4" for plain
    by (simp add: walk_pages.simps page_at_def page_step_def page_position_def page_types usize_checked_add_def
        validate_page_header_def validate_data_page_def validate_data_encoding_def validate_level_encoding_def
        add_page_values_def page_value_limit_def add_work_def checked_nonnegative_def data)
  then have "validate_file_metadata sample_parsers (sample_file k) sample_metadata 8 MAX_DECODED_SECTION_BYTES plain =
      Inr \<lparr>pp_rows = 2, pp_decoded_bytes = 4\<rparr>" for plain
    by (simp add: validate_file_metadata_def checked_rows_def checked_nonnegative_def usize_checked_add_def add_work_def
        chunk_range_of_def chunk_start_def page_value_limit_def section_bounds sample_metadata_def PARQUET_MAGIC_def)
  then have "validate_parquet_decode_profile sample_parsers (sample_file k) MAX_DECODED_SECTION_BYTES plain =
      Inr \<lparr>pp_rows = 2, pp_decoded_bytes = 4\<rparr>" for plain
    by (simp add: validate_parquet_decode_profile_def footer length_sample_file) (simp add: section_bounds)
  then show "validate_parquet_decode_work sample_parsers (sample_file k) MAX_DECODED_SECTION_BYTES = Inr ()"
    and "validate_plain_parquet_decode_work sample_parsers (sample_file k) MAX_DECODED_SECTION_BYTES = Inr ()"
    by (simp_all add: validate_parquet_decode_work_def validate_plain_parquet_decode_work_def parquet_decode_profile_def
        plain_parquet_decode_profile_def)
qed

lemma sample_opened:
  "ab_open seal_backend (sample_file 9) = Inr (data_file (sample_batch [(2, 7), (1, 5)]))"
  "ab_open seal_backend (sample_file 8) = Inr (data_file (sample_batch [(1, 3)]))"
  "ab_open seal_backend (sample_file 7) = Inr (data_file sample_strings)"
  "ab_parsers seal_backend = sample_parsers"
  by (simp_all add: seal_backend_def sample_file_def PARQUET_MAGIC_def)

definition sample_dictionary :: normalized_dictionary where
  "sample_dictionary = \<lparr>nd_values = [(5, VString [65, 66])], nd_string_rows = 1, nd_blob_rows = 0, nd_string_bytes = 2, nd_blob_bytes = 0\<rparr>"

lemma sample_normalized:
  "normalize_dictionary sample_seal_env sample_journal [\<lparr>sx_part = first_ref, sx_entry = sample_entry 3001001 1 20 7\<rparr>] [] = Inr sample_dictionary"
proof -
  have opened: "open_dictionary_body sample_seal_env 3001001 1 False (sample_file 7) = Inr ([Inr sample_strings], 1)"
    by (simp add: open_dictionary_body_def sample_opened sample_preflight)
       (simp add: data_file_def claimed_row_count_def section_bounds dictionary_schema_matches_def sample_strings_def)
  have columns: "dictionary_columns_of False sample_strings = Inr (StringColumns 0 1)"
    by (simp add: dictionary_columns_of_def required_column_def sample_strings_def strings_schema_def column_cells_def)
  have rows: "dictionary_batches (\<lambda>_. 5) False [Inr sample_strings] 0 0 normalized_default = Inr (1, sample_dictionary)"
    by (simp add: columns usize_checked_add_def, simp add: sample_strings_def dictionary_row_def ordered_str_id_def str_id_from_raw_def
        str_id_of_def normalized_insert_def normalized_default_def om_get_def grow_counters_def usize_checked_add_def section_bounds
        sample_dictionary_def)
  have "decode_dictionary_body sample_seal_env sample_journal \<lparr>sx_part = first_ref, sx_entry = sample_entry 3001001 1 20 7\<rparr> normalized_default
      = Inr sample_dictionary"
    using opened rows sample_verified(2)
    by (simp add: decode_dictionary_body_def Let_def DICT_STRINGS_TYPE_ID_def DICT_BLOBS_TYPE_ID_def sample_entry_def)
  then show ?thesis by (simp add: normalize_dictionary_def)
qed

definition sample_dict_section :: dict_section where
  "sample_dict_section = \<lparr>dx_type_id = 3001001, dx_rows = 1, dx_body = [80, 0]\<rparr>"

lemma sample_dict_encoded: "normalized_sections sample_seal_env sample_dictionary = Inr [sample_dict_section]"
proof -
  let ?e = "\<lparr>es_str_id = 5, es_stored_bytes = [65, 66], es_full_len = 2, es_truncated = False, es_full_sha256 = None,
    es_placement = PStrings, es_hot = HotNone, es_blob_required = False\<rparr> :: entry_snapshot"
  let ?load = "\<lparr>ld_string_rows = 1, ld_string_bytes = 2, ld_blob_rows = 0, ld_blob_bytes = 0, ld_truncated = 0\<rparr>"
  have "\<exists>b. sealed_dictionary_body_bound PStrings 1 2 0 = Inr b" by (simp add: dict_bound_fits dict_fits_def)
  then obtain b where "sealed_dictionary_body_bound PStrings 1 2 0 = Inr b" by blast
  then have check: "check_load ?load = Inr ()" by (simp add: check_load_def)
  have tally: "tally_entries [?e] no_load = Inr ?load" by (simp add: no_load_def usize_checked_add_def)
  have "encode_strings seal_backend SealedDictProfile [?e] = Inr sample_dict_section"
    by (simp add: encode_strings_def check_dict_rows_def section_bounds dict_section_of_def seal_backend_def string_row_def
        sample_dict_section_def DICT_STRINGS_TYPE_ID_def sort_key_def)
  then have "encode_entries_with_properties seal_backend SealedDictProfile [?e] = Inr [sample_dict_section]"
    by (simp add: encode_entries_with_properties_def is_strings_def)
  then have "encode_sealed_entries seal_backend [?e] = Inr [sample_dict_section]"
    unfolding encode_sealed_entries_def tally sum.case check .
  then show ?thesis by (simp add: normalized_sections_def sample_dictionary_def normalized_snapshot_def numeral_2_eq_2)
qed

text \<open>The data section: three rows from two parts, in canonical order.\<close>

lemma sample_data_body: "seal_data_body sample_seal_env sample_journal 1006001 data_descriptors = Inr ([80, 19, 21, 39], 3)"
proof -
  note data = sample_registry_def sample_contract_def ts_column_def sample_gate_def
  let ?c = "sample_contract 1006001 []" and ?b = "sample_batch [(2, 7), (1, 5), (1, 3)]" and ?sorted = "sample_batch [(1, 3), (1, 5), (2, 7)]"
  let ?batches = "[sample_batch [(2, 7), (1, 5)], sample_batch [(1, 3)]]"
  have contract: "contract_of sample_registry 1006001 = Some ?c"
    by (simp add: contract_of_def sample_registry_def sample_contract_def)
  have none: "list_columns ?c = []" by (simp add: list_columns_def data)
  have names: "canonical_names ?c = [''ts'', ''bytes'']" by (simp add: canonical_names_def data)
  have decoded: "\<exists>stats. decode_any seal_backend sample_registry 1006001 (sample_file k) = Inr \<lparr>dc_batches = [b], dc_stats = stats\<rparr>
      \<and> ds_rows stats = num_rows b \<and> ds_list_i32_child_values stats = 0"
    if "ab_open seal_backend (sample_file k) = Inr (data_file b)" "rb_fields b = build_arrow_schema ?c" "num_rows b \<le> 3" for k b
  proof -
    have "capped_reader seal_backend (sample_file k) = Inr (build_arrow_schema ?c, [Inr b], 1, num_rows b)"
      by (simp add: capped_reader_def length_sample_file sample_opened(4) sample_preflight that(1))
         (use that in \<open>simp add: section_bounds data_file_def claimed_row_count_def\<close>)
    then show ?thesis
      using that by (simp add: decode_any_def contract decode_batches_def none schema_matches_iff section_bounds)
  qed
  have bounds: "\<exists>b. sealed_data_body_bound sample_registry 1006001 n 0 = Inr b" if "n \<le> 3" for n
    unfolding body_bound_iff contract using that
    by (auto simp: none section_bounds sealed_bounds column_load_def plain_column_size_new_def plain_body_def
        page_bound_def zstd_bound_def sample_contract_def ts_column_def)
  have open9: "ab_open seal_backend (sample_file 9) = Inr (data_file (sample_batch [(2, 7), (1, 5)]))"
    and open8: "ab_open seal_backend (sample_file 8) = Inr (data_file (sample_batch [(1, 3)]))"
    by (rule sample_opened)+
  obtain st9 where st9: "decode_any seal_backend sample_registry 1006001 (sample_file 9) = Inr \<lparr>dc_batches = [sample_batch [(2, 7), (1, 5)]], dc_stats = st9\<rparr>"
    "ds_rows st9 = 2" "ds_list_i32_child_values st9 = 0"
    using decoded [OF open9] by (auto simp: sample_batch_def)
  obtain st8 where st8: "decode_any seal_backend sample_registry 1006001 (sample_file 8) = Inr \<lparr>dc_batches = [sample_batch [(1, 3)]], dc_stats = st8\<rparr>"
    "ds_rows st8 = 1" "ds_list_i32_child_values st8 = 0"
    using decoded [OF open8] by (auto simp: sample_batch_def)
  obtain b2 b3 where b: "sealed_data_body_bound sample_registry 1006001 (Suc (Suc 0)) 0 = Inr b2" "sealed_data_body_bound sample_registry 1006001 (Suc (Suc (Suc 0))) 0 = Inr b3"
    using bounds [of "Suc (Suc 0)"] bounds [of "Suc (Suc (Suc 0))"] by auto
  have three: "(3 :: nat) = Suc (Suc (Suc 0))" by simp
  have batches: "decode_descriptors sample_seal_env sample_journal 1006001 data_descriptors 0 0 = Inr (?batches, 3)"
    using sample_verified(1,3) st9 st8 b
    by (simp add: data_descriptors_def usize_checked_add_def three)
  have rows: "aggregate_rows 1006001 data_descriptors = Inr 3"
    by (simp add: aggregate_rows_def data_descriptors_def sample_entry_def usize_checked_add_def section_bounds)
  have scan: "sealed_batches_scan ?c ?batches 0 [] = Inr (3, [])"
    by (simp add: schema_matches_iff sample_batch_def usize_checked_add_def check_row_cap_def section_bounds)
  have "sort_key (\<lambda>i. [[CInt 2, CInt 7], [CInt 1, CInt 5], [CInt 1, CInt 3]] ! i) [0..<3] = [2, 1, 0]"
    by (simp add: upt_rec sort_key_def insort_key.simps less_eq_cell_def less_cell_def)
  then have "sort_by_columns seal_backend ?b [''ts'', ''bytes''] = Inr ?sorted"
    by (simp add: sort_by_columns_def sample_batch_def build_arrow_schema_def seal_backend_def sample_lexsort_def
        row_key_def take_rows_def less_eq_cell_def less_cell_def data)
  then have sorted: "sort_canonical seal_backend ?b ?c = Inr ?sorted"
    using names by (simp add: sort_canonical_def sample_contract_def sample_batch_def)
  have merged: "merge_batches ?c ?batches = ?b"
    by (simp add: merge_batches_def concat_batches_def sample_batch_def)
  have wrote: "ab_write seal_backend SealedProfile ?sorted = Inr [80, 19, 21, 39]"
    by (simp add: seal_backend_def sample_batch_def)
  have "encode_sealed_batches seal_backend sample_registry 1006001 ?batches = Inr [80, 19, 21, 39]"
    by (simp add: encode_sealed_batches_def contract none scan b(2) [folded three] merged sorted wrote cap_body_def section_bounds del: sealed_batches_scan.simps)
  then show ?thesis by (simp add: seal_data_body_def rows batches)
qed

text \<open>The segment.\<close>

definition sample_sealed :: "section_input list" where
  "sample_sealed = [\<lparr>si_type_id = 1006001, si_rows = 3, si_body = [80, 19, 21, 39]\<rparr>, \<lparr>si_type_id = 3001001, si_rows = 1, si_body = [80, 0]\<rparr>]"

definition sample_segment :: "u8 list" where
  "sample_segment = part_bytes sum_crc (segment_catalog sample_plan (fst (build_entries sum_crc sample_sealed MAGIC))) (concat (map si_body sample_sealed))"

lemma sample_built: "build_segment sample_seal_env sample_journal = (Inr (2, sample_plan), sample_segment)"
proof -
  have plan: "data_plan (sp_by_type sample_plan) = [(1006001, data_descriptors)]"
    "descriptors_of DICT_STRINGS_TYPE_ID (sp_by_type sample_plan) = [\<lparr>sx_part = first_ref, sx_entry = sample_entry 3001001 1 20 7\<rparr>]"
    "descriptors_of DICT_BLOBS_TYPE_ID (sp_by_type sample_plan) = []"
    by (simp_all add: data_plan_def sample_plan_def descriptors_of_def om_get_def DICT_STRINGS_TYPE_ID_def DICT_BLOBS_TYPE_ID_def)
  have limit: "MAX_CATALOG_ENTRIES = 2097151" by (simp add: MAX_CATALOG_ENTRIES_def MAX_CATALOG_BYTES_def layout_lens)
  let ?out = "\<lparr>so_bytes = MAGIC @ [80, 19, 21, 39] @ [80, 0], so_entries = fst (build_entries sum_crc sample_sealed MAGIC), so_offset = 10\<rparr>"
  let ?data = "\<lparr>so_bytes = MAGIC @ [80, 19, 21, 39], so_entries = [\<lparr>e_type_id = 1006001, e_flags = 0, e_offset = 4, e_len = 4, e_rows = 3,
    e_crc32c = sum_crc [80, 19, 21, 39]\<rparr>], so_offset = 8\<rparr>"
  have data: "write_data_sections sample_seal_env sample_journal [(1006001, data_descriptors)] out_start = (Inr (), ?data)"
    by (simp add: sample_data_body write_section_def out_start_def checked_catalog_entries_def usize_checked_add_def limit checked_add_def Let_def)
  have dict: "write_dict_sections sample_seal_env [sample_dict_section] ?data = (Inr (), ?out)"
    by (simp add: sample_dict_section_def write_section_def checked_catalog_entries_def usize_checked_add_def limit checked_add_def Let_def
        sample_sealed_def)
  have "encoded_len (segment_catalog sample_plan (fst (build_entries sum_crc sample_sealed MAGIC))) < u32_limit"
    by (simp add: encoded_len_catalog build_entries_fields sample_sealed_def)
  then have "catalog_encode sum_crc (segment_catalog sample_plan (fst (build_entries sum_crc sample_sealed MAGIC)))
      = Some (catalog_block sum_crc (segment_catalog sample_plan (fst (build_entries sum_crc sample_sealed MAGIC)))
          @ tail_encode \<lparr>t_catalog_len = of_nat (encoded_len (segment_catalog sample_plan (fst (build_entries sum_crc sample_sealed MAGIC))))\<rparr>)"
    by (rule catalog_encode_block)
  then show ?thesis
    unfolding build_segment_def sample_planned plan sum.case sample_normalized data prod.case sample_dict_encoded dict
    by (simp add: build_entries_fields(4) sample_segment_def part_bytes_def, simp add: sample_sealed_def)
qed

lemma sample_not_empty: "\<forall>p b. ab_write (se_backend sample_seal_env) p b \<noteq> Inr []"
  by (simp add: seal_backend_def)

end
