(* ===== verification/Segment_Merge.thy ===== *)
theory Segment_Merge
  imports Segment_Sample
begin

text \<open>
  What a sealed segment holds of the parts of its journal: every data section is the sealed encoding of the
  rows of all parts, the dictionary is the union of their dictionaries, and the time range covers theirs.
\<close>

section \<open>The sections of the parts\<close>

definition part_entries :: "(u8 list \<Rightarrow> u32) \<Rightarrow> u8 list \<Rightarrow> entry list" where
  "part_entries crc p = (case validate_part_catalog crc p of Inl _ \<Rightarrow> [] | Inr c \<Rightarrow> c_entries c)"

definition part_sections :: "(u8 list \<Rightarrow> u32) \<Rightarrow> u32 \<Rightarrow> u8 list \<Rightarrow> (u32 \<times> u8 list) list" where
  "part_sections crc t p = map (\<lambda>e. (e_rows e, entry_body p e)) (filter (\<lambda>e. e_type_id e = t) (part_entries crc p))"

text \<open>The sections of one type in the order of the parts, with their row counts.\<close>

definition sections_of_type :: "(u8 list \<Rightarrow> u32) \<Rightarrow> u32 \<Rightarrow> u8 list list \<Rightarrow> (u32 \<times> u8 list) list" where
  "sections_of_type crc t ps = concat (map (part_sections crc t) ps)"

definition types_of :: "(u8 list \<Rightarrow> u32) \<Rightarrow> u8 list list \<Rightarrow> u32 set" where
  "types_of crc ps = (\<Union>p \<in> set ps. e_type_id ` set (part_entries crc p))"

definition merged_section :: "seal_env \<Rightarrow> u8 list list \<Rightarrow> section_input \<Rightarrow> bool" where
  "merged_section env ps s \<longleftrightarrow> (let parts = sections_of_type (se_crc env) (si_type_id s) ps in
     (\<exists>decoded. list_all2 (\<lambda>(rows, body) d. decode_any (se_backend env) (se_registry env) (si_type_id s) body = Inr d
           \<and> ds_rows (dc_stats d) = unat rows) parts decoded
        \<and> encode_sealed_batches (se_backend env) (se_registry env) (si_type_id s) (concat (map dc_batches decoded)) = Inr (si_body s))
     \<and> unat (si_rows s) = sum_list (map (\<lambda>(rows, body). unat rows) parts))"

section \<open>The plan lists them\<close>

definition descriptors_in :: "u32 \<Rightarrow> journal_part_ref \<Rightarrow> entry list \<Rightarrow> section_descriptor list" where
  "descriptors_in t r es = map (\<lambda>e. \<lparr>sx_part = r, sx_entry = e\<rparr>) (filter (\<lambda>e. e_type_id e = t) es)"

lemma descriptors_push:
  "descriptors_of t (push_descriptor d m) = descriptors_of t m @ (if e_type_id (sx_entry d) = t then [d] else [])"
  by (auto simp: descriptors_of_def push_descriptor_def Let_def om_get_insert split: option.split)

lemma push_keys:
  "om_ok m \<Longrightarrow> om_ok (push_descriptor d m)" "fst ` set (push_descriptor d m) = insert (e_type_id (sx_entry d)) (fst ` set m)"
  by (simp_all add: push_descriptor_def Let_def om_ok_insert om_insert_keys)

lemma plan_entries_content:
  "plan_entries r es n m = Inr (n', m') \<Longrightarrow> descriptors_of t m' = descriptors_of t m @ descriptors_in t r es
     \<and> (om_ok m \<longrightarrow> om_ok m') \<and> fst ` set m' = fst ` set m \<union> e_type_id ` set es"
proof (induction es arbitrary: n m)
  case (Cons e es)
  have rest: "plan_entries r es (n + 1) (push_descriptor \<lparr>sx_part = r, sx_entry = e\<rparr> m) = Inr (n', m')"
    using Cons.prems by (auto simp: usize_checked_add_def split: if_splits)
  show ?case
    using Cons.IH [OF rest] by (simp add: descriptors_push push_keys descriptors_in_def)
qed (simp add: descriptors_in_def)

lemma plan_parts_content:
  assumes "list_all2 (\<lambda>r p. read_part j r = Inr p) rs ps" and "plan_parts env j rs st = Inr st'"
  shows "descriptors_of t (ps_by_type st') = descriptors_of t (ps_by_type st)
        @ concat (map2 (\<lambda>r p. descriptors_in t r (part_entries (se_crc env) p)) rs ps)
     \<and> (om_ok (ps_by_type st) \<longrightarrow> om_ok (ps_by_type st'))
     \<and> fst ` set (ps_by_type st') = fst ` set (ps_by_type st) \<union> types_of (se_crc env) ps"
  using assms
proof (induction arbitrary: st rule: list_all2_induct)
  case (Cons r rs p ps)
  obtain c n m where c: "validate_part_catalog (se_crc env) p = Inr c"
    and es: "plan_entries r (c_entries c) (ps_section_count st) (ps_by_type st) = Inr (n, m)"
    and rest: "plan_parts env j rs \<lparr>ps_section_count = n, ps_by_type = m,
        ps_min_ts = i64_min (ps_min_ts st) (c_min_ts c), ps_max_ts = i64_max (ps_max_ts st) (c_max_ts c)\<rparr> = Inr st'"
    using Cons.hyps(1) Cons.prems by (auto split: sum.splits if_splits)
  have entries: "part_entries (se_crc env) p = c_entries c" by (simp add: part_entries_def c)
  show ?case
    using Cons.IH [OF rest] plan_entries_content [OF es, of t] by (simp add: entries types_of_def Un_assoc)
qed (simp add: types_of_def)

section \<open>Reading them back\<close>

definition reads_part :: "journal \<Rightarrow> journal_part_ref \<Rightarrow> u8 list \<Rightarrow> bool" where
  "reads_part j r p \<longleftrightarrow> read_part j r = Inr p \<and> length p < usize_limit
     \<and> (\<forall>offset len. read_part_range j r offset len =
          (if offset + len \<le> length p then Inr (subslice offset (offset + len) p) else Inl (StalePartRef offset len)))"

lemma holds_reads:
  assumes j: "journal_holds crc sid ps j"
  shows "list_all2 (reads_part j) (j_parts j) ps"
proof (rule list_all2_all_nthI)
  show "length (j_parts j) = length ps" using j by (simp add: journal_holds_def)
  fix i assume "i < length (j_parts j)"
  then have i: "i < length ps" using j by (simp add: journal_holds_def)
  have ref: "j_parts j ! i = \<lparr>jp_raw = refs_from 36 ps ! i, jp_generation = j_generation j\<rparr>"
    using j i by (simp add: journal_holds_def)
  have "part_ok crc (jc_limits (j_config j)) (ps ! i)" using j i by (auto simp: journal_holds_def holdable_def)
  then have "length (ps ! i) \<le> unat (jl_max_part_len (jc_limits (j_config j)))" by (simp add: part_ok_def)
  then have "length (ps ! i) < usize_limit" using unat_less_64 [of "jl_max_part_len (jc_limits (j_config j))"] by simp
  then show "reads_part j (j_parts j ! i) (ps ! i)"
    unfolding reads_part_def ref using read_part_index [OF j i] read_part_range_index [OF j i] by simp
qed

lemma read_verified_entry:
  assumes "reads_part j r p" and run: "read_verified_body env j \<lparr>sx_part = r, sx_entry = e\<rparr> = Inr body"
  shows "body = entry_body p e"
proof -
  have fits: "unat (e_offset e) + unat (e_len e) \<le> length p" and body: "body = subslice (unat (e_offset e)) (unat (e_offset e) + unat (e_len e)) p"
    using assms by (auto simp: reads_part_def read_verified_body_def verify_section_def split: sum.splits if_splits)
  have "unat (e_offset e + e_len e) = unat (e_offset e) + unat (e_len e)"
    using fits assms(1) by (intro unat_add_lem [THEN iffD1]) (simp add: reads_part_def)
  then show ?thesis by (simp add: body entry_body_def)
qed

definition reads_section :: "seal_env \<Rightarrow> journal \<Rightarrow> u32 \<times> u8 list \<Rightarrow> section_descriptor \<Rightarrow> bool" where
  "reads_section env j s d \<longleftrightarrow> fst s = e_rows (sx_entry d) \<and> (\<forall>body. read_verified_body env j d = Inr body \<longrightarrow> snd s = body)"

lemma reads_sections:
  assumes "list_all2 (reads_part j) rs ps"
  shows "list_all2 (reads_section env j) (sections_of_type crc t ps) (concat (map2 (\<lambda>r p. descriptors_in t r (part_entries crc p)) rs ps))"
  using assms
proof (induction rule: list_all2_induct)
  case (Cons r rs p ps)
  have "list_all2 (reads_section env j) (part_sections crc t p) (descriptors_in t r (part_entries crc p))"
    using read_verified_entry [OF Cons.hyps(1), of env]
    by (auto simp: part_sections_def descriptors_in_def list_all2_map1 list_all2_map2 list_all2_same reads_section_def)
  then show ?case using Cons.IH by (simp add: sections_of_type_def list_all2_appendI)
qed (simp add: sections_of_type_def)

section \<open>Data sections\<close>

lemma decode_descriptors_content:
  "decode_descriptors env j t ds rows0 values0 = Inr (batches, rows) \<Longrightarrow>
     \<exists>decoded. list_all2 (\<lambda>d dec. \<exists>body. read_verified_body env j d = Inr body \<and> decode_any (se_backend env) (se_registry env) t body = Inr dec
         \<and> ds_rows (dc_stats dec) = unat (e_rows (sx_entry d))) ds decoded
       \<and> batches = concat (map dc_batches decoded)"
proof (induction ds arbitrary: rows0 values0 batches rows)
  case (Cons d ds)
  obtain body where body: "read_verified_body env j d = Inr body" using Cons.prems by (auto split: sum.splits)
  obtain dec where dec: "decode_any (se_backend env) (se_registry env) t body = Inr dec" using Cons.prems body by (auto split: sum.splits)
  then have count: "ds_rows (dc_stats dec) = unat (e_rows (sx_entry d))" using Cons.prems body by (auto simp: Let_def split: if_splits)
  obtain r v bs where rest: "decode_descriptors env j t ds r v = Inr (bs, rows)" "batches = dc_batches dec @ bs"
    using Cons.prems body dec by (auto simp: Let_def split: if_splits option.splits sum.splits)
  obtain decoded where "list_all2 (\<lambda>d dec. \<exists>body. read_verified_body env j d = Inr body \<and> decode_any (se_backend env) (se_registry env) t body = Inr dec
         \<and> ds_rows (dc_stats dec) = unat (e_rows (sx_entry d))) ds decoded" "bs = concat (map dc_batches decoded)"
    using Cons.IH [OF rest(1)] by blast
  then show ?case using body dec count rest(2) by (intro exI [of _ "dec # decoded"]) simp
qed simp

lemma reads_section_rows:
  "list_all2 (reads_section env j) ss ds \<Longrightarrow> map (\<lambda>(rows, body). unat rows) ss = map (\<lambda>d. unat (e_rows (sx_entry d))) ds"
  by (induction rule: list_all2_induct) (auto simp: reads_section_def)

lemma data_input_merged:
  assumes input: "data_input env j (t, ds) s"
    and reads: "list_all2 (reads_section env j) (sections_of_type (se_crc env) t ps) ds"
  shows "merged_section env ps s"
proof -
  obtain body rows where body: "seal_data_body env j t ds = Inr (body, rows)"
    and s: "s = \<lparr>si_type_id = t, si_rows = rows, si_body = body\<rparr>"
    using input unfolding data_input_def by auto
  obtain batches n where batches: "decode_descriptors env j t ds 0 0 = Inr (batches, n)"
    and encoded: "encode_sealed_batches (se_backend env) (se_registry env) t batches = Inr body"
    using body by (auto simp: seal_data_body_def split: sum.splits if_splits)
  obtain decoded where decoded: "list_all2 (\<lambda>d dec. \<exists>body. read_verified_body env j d = Inr body
      \<and> decode_any (se_backend env) (se_registry env) t body = Inr dec \<and> ds_rows (dc_stats dec) = unat (e_rows (sx_entry d))) ds decoded"
    "batches = concat (map dc_batches decoded)"
    using decode_descriptors_content [OF batches] by blast
  have "list_all2 (\<lambda>(rows, body) d. decode_any (se_backend env) (se_registry env) t body = Inr d \<and> ds_rows (dc_stats d) = unat rows)
      (sections_of_type (se_crc env) t ps) decoded"
    by (rule list_all2_trans [OF _ reads decoded(1)]) (auto simp: reads_section_def)
  moreover have "unat rows = sum_list (map (\<lambda>(rows, body). unat rows) (sections_of_type (se_crc env) t ps))"
    using seal_data_body_sizes(2) [OF body] reads_section_rows [OF reads] by simp
  ultimately show ?thesis using encoded decoded(2) by (auto simp: merged_section_def s Let_def)
qed

section \<open>Dictionaries\<close>

text \<open>The values of all sections of a dictionary type.\<close>

definition values_of_type :: "seal_env \<Rightarrow> u8 list list \<Rightarrow> u32 \<Rightarrow> (str_id \<times> dictionary_value) list \<Rightarrow> bool" where
  "values_of_type env ps t vs \<longleftrightarrow> (\<exists>vss. vs = concat vss
     \<and> list_all2 (\<lambda>(rows, body) vs. section_values env t rows body = Some vs) (sections_of_type (se_crc env) t ps) vss)"

lemma read_values:
  assumes "list_all2 (reads_section env j) ss ds" and "map (descriptor_values env j) ds = map Some vss"
    and "\<forall>d \<in> set ds. e_type_id (sx_entry d) = t"
  shows "list_all2 (\<lambda>(rows, body) vs. section_values env t rows body = Some vs) ss vss"
  using assms
proof (induction arbitrary: vss rule: list_all2_induct)
  case (Cons s ss d ds)
  obtain vs rest where vss: "vss = vs # rest" "descriptor_values env j d = Some vs" using Cons.prems by (cases vss) auto
  then obtain body where "read_verified_body env j d = Inr body" "section_values env t (e_rows (sx_entry d)) body = Some vs"
    using Cons.prems(2) by (auto simp: descriptor_values_def Let_def split: if_splits sum.splits)
  then have "case s of (rows, body) \<Rightarrow> section_values env t rows body = Some vs"
    using Cons.hyps(1) by (auto simp: reads_section_def)
  then show ?case using Cons.IH [of rest] Cons.prems vss(1) by (cases s) simp
qed simp

lemma normalized_values:
  assumes run: "normalize_dictionary env j strings blobs = Inr nd"
    and strings: "list_all2 (reads_section env j) (sections_of_type (se_crc env) DICT_STRINGS_TYPE_ID ps) strings"
      "\<forall>d \<in> set strings. e_type_id (sx_entry d) = DICT_STRINGS_TYPE_ID"
    and blobs: "list_all2 (reads_section env j) (sections_of_type (se_crc env) DICT_BLOBS_TYPE_ID ps) blobs"
      "\<forall>d \<in> set blobs. e_type_id (sx_entry d) = DICT_BLOBS_TYPE_ID"
  obtains vs ws where "values_of_type env ps DICT_STRINGS_TYPE_ID vs" and "values_of_type env ps DICT_BLOBS_TYPE_ID ws"
    and "functional_list (vs @ ws)" and "nd_values nd = union_of (vs @ ws)"
proof -
  obtain vss where vss: "map (descriptor_values env j) (strings @ blobs) = map Some vss" "functional_list (concat vss)"
    and nd: "nd = normalized_of (union_of (concat vss))"
    using run unfolding normalize_dictionary_Inr by blast
  let ?first = "take (length strings) vss" and ?second = "drop (length strings) vss"
  have "length vss = length strings + length blobs" using arg_cong [OF vss(1), of length] by simp
  then have "map (descriptor_values env j) strings = map Some ?first" "map (descriptor_values env j) blobs = map Some ?second"
    using arg_cong [OF vss(1), of "take (length strings)"] arg_cong [OF vss(1), of "drop (length strings)"]
    by (simp_all add: take_map drop_map)
  then have "values_of_type env ps DICT_STRINGS_TYPE_ID (concat ?first)" "values_of_type env ps DICT_BLOBS_TYPE_ID (concat ?second)"
    using read_values [OF strings(1) _ strings(2)] read_values [OF blobs(1) _ blobs(2)] unfolding values_of_type_def by blast+
  moreover have "concat vss = concat ?first @ concat ?second" by (simp flip: concat_append)
  ultimately show thesis using that vss(2) nd by (simp add: normalized_of_def)
qed

section \<open>Times\<close>

definition part_catalog_of :: "(u8 list \<Rightarrow> u32) \<Rightarrow> u8 list \<Rightarrow> catalog option" where
  "part_catalog_of crc p = (case validate_part_catalog crc p of Inl _ \<Rightarrow> None | Inr c \<Rightarrow> Some c)"

definition first_time :: "(u8 list \<Rightarrow> u32) \<Rightarrow> u8 list list \<Rightarrow> int" where
  "first_time crc ps = Min ((\<lambda>p. sint (c_min_ts (the (part_catalog_of crc p)))) ` set ps)"

definition last_time :: "(u8 list \<Rightarrow> u32) \<Rightarrow> u8 list list \<Rightarrow> int" where
  "last_time crc ps = Max ((\<lambda>p. sint (c_max_ts (the (part_catalog_of crc p)))) ` set ps)"

lemma i64_min_sint: "sint (i64_min a b) = min (sint a) (sint b)" and i64_max_sint: "sint (i64_max a b) = max (sint a) (sint b)"
  by (simp_all add: i64_min_def i64_max_def)

lemma plan_parts_times:
  assumes "list_all2 (\<lambda>r p. read_part j r = Inr p) rs ps" and "plan_parts env j rs st = Inr st'"
  shows "sint (ps_min_ts st') = Min (insert (sint (ps_min_ts st)) ((\<lambda>p. sint (c_min_ts (the (part_catalog_of (se_crc env) p)))) ` set ps))
    \<and> sint (ps_max_ts st') = Max (insert (sint (ps_max_ts st)) ((\<lambda>p. sint (c_max_ts (the (part_catalog_of (se_crc env) p)))) ` set ps))"
  using assms
proof (induction arbitrary: st rule: list_all2_induct)
  case (Cons r rs p ps)
  obtain c n m where c: "validate_part_catalog (se_crc env) p = Inr c"
    and rest: "plan_parts env j rs \<lparr>ps_section_count = n, ps_by_type = m,
        ps_min_ts = i64_min (ps_min_ts st) (c_min_ts c), ps_max_ts = i64_max (ps_max_ts st) (c_max_ts c)\<rparr> = Inr st'"
    using Cons.hyps(1) Cons.prems by (auto split: sum.splits if_splits)
  have "the (part_catalog_of (se_crc env) p) = c" by (simp add: part_catalog_of_def c)
  then show ?case
    using Cons.IH [OF rest] by (cases "ps = []") (simp_all add: i64_min_sint i64_max_sint min.assoc max.assoc)
qed simp

lemma plan_times:
  assumes reads: "list_all2 (\<lambda>r p. read_part j r = Inr p) (j_parts j) ps" and plan: "plan_segment env j = Inr plan" and "ps \<noteq> []"
  shows "if last_time (se_crc env) ps < first_time (se_crc env) ps then sp_min_ts plan = 0 \<and> sp_max_ts plan = 0
    else sint (sp_min_ts plan) = first_time (se_crc env) ps \<and> sint (sp_max_ts plan) = last_time (se_crc env) ps"
proof -
  obtain st where st: "plan_parts env j (j_parts j) plan_start = Inr st" using plan by (auto simp: plan_segment_def split: if_splits sum.splits)
  let ?lo = "(\<lambda>p. sint (c_min_ts (the (part_catalog_of (se_crc env) p)))) ` set ps"
  let ?hi = "(\<lambda>p. sint (c_max_ts (the (part_catalog_of (se_crc env) p)))) ` set ps"
  have times: "sint (ps_min_ts st) = Min (insert (sint i64_MAX) ?lo)" "sint (ps_max_ts st) = Max (insert (sint i64_MIN) ?hi)"
    using plan_parts_times [OF reads st] by (simp_all add: plan_start_def)
  have bounds: "sint x \<le> sint i64_MAX" "sint i64_MIN \<le> sint x" for x :: i64
    using sint_lt [of x] sint_ge [of x] by (simp_all add: i64_MAX_def i64_MIN_def)
  have some: "set ps \<noteq> {}" using assms(3) by simp
  then obtain p where p: "p \<in> set ps" by fastforce
  have "Min ?lo \<le> sint i64_MAX" using p bounds(1) by (meson Min_le finite_imageI finite_set image_eqI order_trans)
  moreover have "sint i64_MIN \<le> Max ?hi" using p bounds(2) by (meson Max_ge finite_imageI finite_set image_eqI order_trans)
  ultimately have "sint (ps_min_ts st) = first_time (se_crc env) ps" "sint (ps_max_ts st) = last_time (se_crc env) ps"
    using some by (simp_all add: times first_time_def last_time_def min_absorb2 max_absorb2)
  then show ?thesis using plan st by (auto simp: plan_segment_def Let_def split: if_splits)
qed

section \<open>The whole segment\<close>

lemma data_plan_descriptors:
  assumes "om_ok m" and "p \<in> set (data_plan m)"
  shows "snd p = descriptors_of (fst p) m"
proof -
  have "(fst p, snd p) \<in> set m" using assms(2) by (auto simp: data_plan_def)
  then have "om_get m (fst p) = Some (snd p)" using om_entries [OF assms(1)] by blast
  then show ?thesis by (simp add: descriptors_of_def)
qed

lemma list_all2_fst_types:
  "list_all2 (data_input env j) ps ds \<Longrightarrow> map si_type_id ds = map fst ps"
  by (induction rule: list_all2_induct) (auto simp: data_input_def)

lemma built_content:
  assumes j: "journal_holds (se_crc env) sid ps j" and built: "build_segment env j = (Inr (n, plan), bytes)" and "ps \<noteq> []"
  shows "\<exists>data dict vs ws.
      bytes = part_bytes (se_crc env) (segment_catalog plan (fst (build_entries (se_crc env) (data @ map dict_input dict) MAGIC)))
        (concat (map si_body (data @ map dict_input dict)))
    \<and> sorted_wrt (<) (map si_type_id data)
    \<and> si_type_id ` set data = types_of (se_crc env) ps - {DICT_STRINGS_TYPE_ID, DICT_BLOBS_TYPE_ID}
    \<and> list_all (merged_section env ps) data
    \<and> values_of_type env ps DICT_STRINGS_TYPE_ID vs \<and> values_of_type env ps DICT_BLOBS_TYPE_ID ws \<and> functional_list (vs @ ws)
    \<and> encode_sealed_entries (se_backend env) (map normalized_snapshot (union_of (vs @ ws))) = Inr dict
    \<and> (if last_time (se_crc env) ps < first_time (se_crc env) ps then sp_min_ts plan = 0 \<and> sp_max_ts plan = 0
       else sint (sp_min_ts plan) = first_time (se_crc env) ps \<and> sint (sp_max_ts plan) = last_time (se_crc env) ps)"
proof -
  let ?crc = "se_crc env" and ?m = "sp_by_type plan"
  obtain nd data dict where parts: "plan_segment env j = Inr plan"
    "normalize_dictionary env j (descriptors_of DICT_STRINGS_TYPE_ID ?m) (descriptors_of DICT_BLOBS_TYPE_ID ?m) = Inr nd"
    "list_all2 (data_input env j) (data_plan ?m) data" "normalized_sections env nd = Inr dict"
    "sorted_wrt (<) (map si_type_id (data @ map dict_input dict))"
    "bytes = part_bytes ?crc (segment_catalog plan (fst (build_entries ?crc (data @ map dict_input dict) MAGIC)))
        (concat (map si_body (data @ map dict_input dict)))"
    using build_segment_Inr [OF built] by metis
  obtain st where st: "plan_parts env j (j_parts j) plan_start = Inr st" "?m = ps_by_type st"
    using parts(1) by (auto simp: plan_segment_def Let_def split: if_splits sum.splits)
  note reads = holds_reads [OF j]
  have plain: "list_all2 (\<lambda>r p. read_part j r = Inr p) (j_parts j) ps"
    using reads by (rule list_all2_mono) (simp add: reads_part_def)
  have content: "descriptors_of t ?m = concat (map2 (\<lambda>r p. descriptors_in t r (part_entries ?crc p)) (j_parts j) ps)"
    "om_ok ?m" "fst ` set ?m = types_of ?crc ps" for t
    using plan_parts_content [OF plain st(1), of t] unfolding st(2) by (simp_all add: plan_start_def descriptors_of_def om_get_def om_ok_def)
  have sections: "list_all2 (reads_section env j) (sections_of_type ?crc t ps) (descriptors_of t ?m)" for t
    unfolding content(1) by (rule reads_sections [OF reads])
  have typed: "\<forall>d \<in> set (descriptors_of t ?m). e_type_id (sx_entry d) = t" for t
    unfolding content(1) by (auto simp: descriptors_in_def)
  have "merged_section env ps s" if s: "s \<in> set data" for s
  proof -
    obtain p where p: "p \<in> set (data_plan ?m)" "data_input env j p s" using list_all2_member [OF parts(3) s] by blast
    have "data_input env j (fst p, descriptors_of (fst p) ?m) s"
      using p(2) data_plan_descriptors [OF content(2) p(1)] by (metis prod.collapse)
    then show ?thesis using data_input_merged sections by blast
  qed
  moreover have "si_type_id ` set data = types_of ?crc ps - {DICT_STRINGS_TYPE_ID, DICT_BLOBS_TYPE_ID}"
  proof -
    have "si_type_id ` set data = fst ` set (data_plan ?m)" using arg_cong [OF list_all2_fst_types [OF parts(3)], of set] by simp
    also have "\<dots> = fst ` set ?m - {DICT_STRINGS_TYPE_ID, DICT_BLOBS_TYPE_ID}" by (force simp: data_plan_def)
    finally show ?thesis by (simp add: content(3))
  qed
  moreover obtain vs ws where "values_of_type env ps DICT_STRINGS_TYPE_ID vs" "values_of_type env ps DICT_BLOBS_TYPE_ID ws"
    "functional_list (vs @ ws)" "nd_values nd = union_of (vs @ ws)"
    using normalized_values [OF parts(2) sections typed sections typed] by blast
  moreover have "encode_sealed_entries (se_backend env) (map normalized_snapshot (nd_values nd)) = Inr dict"
    using parts(4) by (cases "encode_sealed_entries (se_backend env) (map normalized_snapshot (nd_values nd))") (simp_all add: normalized_sections_def)
  ultimately show ?thesis
    using parts(5,6) plan_times [OF plain parts(1) assms(3)] by (intro exI [of _ data] exI [of _ dict] exI [of _ vs] exI [of _ ws]) (simp add: list_all_iff sorted_wrt_append)
qed

text \<open>
  C6. A sealed segment holds what the parts of its journal hold.  It has one data section for each data type of
  the parts, in ascending order, and each is the sealed encoding of the rows of all parts, with their number;
  its dictionary encodes the union of the values of all dictionary sections, none of which has two
  values for an id; and its time range is the one of the parts.
\<close>

theorem sealed_content:
  assumes j: "journal_holds (se_crc env) sid ps j" and built: "build_segment env j = (Inr (n, plan), bytes)" and "ps \<noteq> []"
  shows "\<exists>data dict vs ws.
      bytes = part_bytes (se_crc env) (segment_catalog plan (fst (build_entries (se_crc env) (data @ map dict_input dict) MAGIC)))
        (concat (map si_body (data @ map dict_input dict)))
    \<and> sorted_wrt (<) (map si_type_id data)
    \<and> si_type_id ` set data = types_of (se_crc env) ps - {DICT_STRINGS_TYPE_ID, DICT_BLOBS_TYPE_ID}
    \<and> list_all (merged_section env ps) data
    \<and> values_of_type env ps DICT_STRINGS_TYPE_ID vs \<and> values_of_type env ps DICT_BLOBS_TYPE_ID ws \<and> functional_list (vs @ ws)
    \<and> encode_sealed_entries (se_backend env) (map normalized_snapshot (union_of (vs @ ws))) = Inr dict
    \<and> (if last_time (se_crc env) ps < first_time (se_crc env) ps then sp_min_ts plan = 0 \<and> sp_max_ts plan = 0
       else sint (sp_min_ts plan) = first_time (se_crc env) ps \<and> sint (sp_max_ts plan) = last_time (se_crc env) ps)"
  by (rule built_content [OF j built assms(3)])

lemma sample_types: "types_of sum_crc [first_part, second_part] = {1006001, 3001001}"
proof -
  have entries: "part_entries sum_crc first_part = [sample_entry 1006001 2 4 9, sample_entry 3001001 1 20 7]"
    "part_entries sum_crc second_part = [sample_entry 1006001 1 4 8]"
    by (simp_all add: part_entries_def sample_catalogs part_catalog_def)
  show ?thesis
    unfolding types_of_def list.set UN_insert UN_empty entries image_insert image_empty sample_entry_simps by blast
qed

lemma sealed_content_witness:
  "\<exists>data. si_type_id ` set data = {1006001} \<and> list_all (merged_section sample_seal_env [first_part, second_part]) data"
proof -
  have holds: "journal_holds (se_crc sample_seal_env) (Some 1709164800000000) [first_part, second_part] sample_journal"
    using sample_journal_holds by simp
  have "{1006001, 3001001} - {DICT_STRINGS_TYPE_ID, DICT_BLOBS_TYPE_ID} = {1006001}"
    by (auto simp: DICT_STRINGS_TYPE_ID_def DICT_BLOBS_TYPE_ID_def)
  then show ?thesis using sealed_content [OF holds sample_built] by (auto simp: sample_types)
qed

end
