(* ===== verification/Segment_Correct.thy ===== *)
theory Segment_Correct
  imports Segment_Merge
begin

text \<open>
  The properties of sealing: a built segment is valid, an attempt replaces nothing and its success means
  that the segment is in place for good, and attempts can be repeated after any failure or crash.
\<close>

section \<open>Validity\<close>

text \<open>
  C16. Whatever the writer completes passes its own check, so \<open>GeneratedSegmentInvalid\<close> is never the result of a
  build; and if the Parquet writer never returns an empty body, the segment passes the full validation of a
  part: bodies in canonical order that tile the file, with the checksums, the time range of the parts and
  one window per part.
\<close>

theorem sealed_segment_valid:
  assumes built: "build_segment env j = (Inr (n, plan), bytes)"
    and backend: "\<forall>p b. ab_write (se_backend env) p b \<noteq> Inr []"
  shows "validate_bytes (se_crc env) bytes \<lparr>ss_sections = n, ss_bytes = length bytes, ss_min_ts = sp_min_ts plan, ss_max_ts = sp_max_ts plan\<rparr>
    \<and> (\<exists>c. validate_part (se_crc env) bytes = Inr c \<and> length (c_entries c) = n
         \<and> c_min_ts c = sp_min_ts plan \<and> c_max_ts c = sp_max_ts plan \<and> unat (c_window_count c) = length (j_parts j))"
  by (intro conjI built_valid [OF built] built_canonical [OF built]) (use backend in auto)

lemma sealed_segment_valid_witness:
  "validate_bytes sum_crc sample_segment \<lparr>ss_sections = 2, ss_bytes = length sample_segment, ss_min_ts = 2, ss_max_ts = 9\<rparr>
   \<and> (\<exists>c. validate_part sum_crc sample_segment = Inr c \<and> unat (c_window_count c) = 2)"
  using sealed_segment_valid [OF sample_built sample_not_empty] by (auto simp: sample_plan_def sample_parts)

section \<open>One attempt\<close>

lemma attempt_names:
  assumes left: "attempt_left env j s t s'" and names: "pt_temp_name t \<noteq> pt_final_name t"
  shows "m \<noteq> pt_temp_name t \<Longrightarrow> m \<noteq> pt_final_name t \<Longrightarrow> dy_names s' m = dy_names s m"
    and "dy_names s (pt_final_name t) \<noteq> None \<Longrightarrow> dy_names s' (pt_final_name t) = dy_names s (pt_final_name t)"
    and "k < dy_next s \<Longrightarrow> content s' k = content s k"
proof -
  consider "kept s s'" | body s2 where "drafted s t body s2" "\<And>other. other \<noteq> pt_temp_name t \<Longrightarrow> published_from (t\<lparr>pt_final_name := other\<rparr>) s2 s'"
    | body s2 where "drafted s t body s2" "published_from t s2 s'"
    using left unfolding attempt_left_def by blast
  then have all: "(m \<noteq> pt_temp_name t \<and> m \<noteq> pt_final_name t \<longrightarrow> dy_names s' m = dy_names s m)
      \<and> (dy_names s (pt_final_name t) \<noteq> None \<longrightarrow> dy_names s' (pt_final_name t) = dy_names s (pt_final_name t))
      \<and> (k < dy_next s \<longrightarrow> content s' k = content s k)" for m k
  proof cases
    case 1
    then show ?thesis by (simp add: kept_def)
  next
    case 2
    have same: "dy_names s' m = dy_names s m" if "m \<noteq> pt_temp_name t" for m
    proof -
      obtain other where other: "other \<noteq> pt_temp_name t" "other \<noteq> m" using other_name by blast
      show ?thesis using 2(1) 2(2) [OF other(1)] other(2) that by (simp add: drafted_def published_from_def)
    qed
    obtain other where "other \<noteq> pt_temp_name t" using other_name by blast
    then have "content s' k = content s2 k" using 2(2) by (simp add: published_from_def)
    then show ?thesis using same names 2(1) by (simp add: drafted_def)
  next
    case 3
    have "dy_names s2 m = dy_names s m" if "m \<noteq> pt_temp_name t" for m using 3(1) that by (simp add: drafted_def)
    moreover have "dy_names s' (pt_final_name t) = dy_names s2 (pt_final_name t)" if "dy_names s2 (pt_final_name t) \<noteq> None"
      using 3(2) that unfolding published_from_def by blast
    moreover have "dy_names s' m = dy_names s2 m" if "m \<noteq> pt_temp_name t" "m \<noteq> pt_final_name t" for m
      using 3(2) that unfolding published_from_def by blast
    moreover have "content s' k = content s k" if "k < dy_next s" using 3 that by (simp add: drafted_def published_from_def)
    ultimately show ?thesis using names by metis
  qed
  show "m \<noteq> pt_temp_name t \<Longrightarrow> m \<noteq> pt_final_name t \<Longrightarrow> dy_names s' m = dy_names s m"
    and "dy_names s (pt_final_name t) \<noteq> None \<Longrightarrow> dy_names s' (pt_final_name t) = dy_names s (pt_final_name t)"
    and "k < dy_next s \<Longrightarrow> content s' k = content s k"
    using all by blast+
qed

lemma attempt_synced:
  assumes left: "attempt_left env j s t s'" and names: "pt_temp_name t \<noteq> pt_final_name t"
  shows "k < dy_next s \<Longrightarrow> synced s k \<Longrightarrow> synced s' k"
    and "dy_names s' (pt_final_name t) \<noteq> dy_names s (pt_final_name t)
      \<Longrightarrow> dy_names s' (pt_final_name t) = Some (FileEntry k) \<Longrightarrow> synced s' k"
proof -
  consider "kept s s'" | body s2 where "drafted s t body s2" "\<And>other. other \<noteq> pt_temp_name t \<Longrightarrow> published_from (t\<lparr>pt_final_name := other\<rparr>) s2 s'"
    | body s2 where "drafted s t body s2" "published_from t s2 s'"
    using left unfolding attempt_left_def by blast
  then have all: "(k < dy_next s \<and> synced s k \<longrightarrow> synced s' k)
      \<and> (dy_names s' (pt_final_name t) \<noteq> dy_names s (pt_final_name t)
          \<longrightarrow> dy_names s' (pt_final_name t) = Some (FileEntry k) \<longrightarrow> synced s' k)" for k
  proof cases
    case 1
    then show ?thesis by (simp add: kept_def)
  next
    case 2
    obtain other where other: "other \<noteq> pt_temp_name t" "other \<noteq> pt_final_name t" using other_name by blast
    then have s': "published_from (t\<lparr>pt_final_name := other\<rparr>) s2 s'" using 2(2) by blast
    then have "dy_names s' (pt_final_name t) = dy_names s (pt_final_name t)"
      using 2(1) other names by (simp add: drafted_def published_from_def)
    moreover have "synced s' k" if "k < dy_next s" "synced s k"
      using s' 2(1) that by (simp add: drafted_def published_from_def)
    ultimately show ?thesis by blast
  next
    case 3
    have "synced s' k" if "k < dy_next s" "synced s k"
      using 3 that by (simp add: drafted_def published_from_def)
    moreover have "dy_names s2 (pt_final_name t) = dy_names s (pt_final_name t)"
      using 3(1) names by (simp add: drafted_def)
    moreover have "synced s' k" if "dy_names s' (pt_final_name t) \<noteq> dy_names s2 (pt_final_name t)"
        "dy_names s' (pt_final_name t) = Some (FileEntry k)"
      using 3(2) that by (simp add: published_from_def)
    ultimately show ?thesis by metis
  qed
  show "k < dy_next s \<Longrightarrow> synced s k \<Longrightarrow> synced s' k"
    and "dy_names s' (pt_final_name t) \<noteq> dy_names s (pt_final_name t)
      \<Longrightarrow> dy_names s' (pt_final_name t) = Some (FileEntry k) \<Longrightarrow> synced s' k"
    using all by blast+
qed

text \<open>
  C7. Sealing never replaces a file and its success is durable.  Whatever calls fail, a taken final name keeps
  its file and every other name but the temporary one its entry, and existing files keep their contents.  After
  a success the final name denotes a file with exactly the built bytes, whether it was published or was there
  before, in memory and on disk; and after any crash that follows, the final name still denotes a file and this
  file still holds exactly those bytes.  For a file that was there before, this last part asks that its own
  contents were synchronised: an attempt that finds the name taken compares the file and synchronises the
  directory, but does not synchronise that file again.  When the name was free there is no such condition.
\<close>

theorem seal_exact:
  assumes run: "seal_segment env j address pid sequence s = (r, s')"
  shows "(dy_names s (pgm_name address) \<noteq> None \<longrightarrow> dy_names s' (pgm_name address) = dy_names s (pgm_name address))
    \<and> (\<forall>m. m \<noteq> temporary_name address TmpPgm pid sequence \<and> m \<noteq> pgm_name address \<longrightarrow> dy_names s' m = dy_names s m)
    \<and> (\<forall>k < dy_next s. content s' k = content s k)
    \<and> (\<forall>summary. r = Inr summary \<longrightarrow> (\<exists>n plan bytes k. build_segment env j = (Inr (n, plan), bytes)
         \<and> summary = \<lparr>ss_sections = n, ss_bytes = length bytes, ss_min_ts = sp_min_ts plan, ss_max_ts = sp_max_ts plan\<rparr>
         \<and> dy_names s' (pgm_name address) = Some (FileEntry k) \<and> dy_durable s' (pgm_name address) = Some (FileEntry k)
         \<and> content s' k = bytes
         \<and> (dy_names s (pgm_name address) = None \<or> k < dy_next s \<and> synced s k \<longrightarrow>
              synced s' k \<and> (\<forall>s''. after_crash s' s'' \<longrightarrow> file_at s'' (pgm_name address) = Some bytes))))"
proof -
  let ?t = "temp_for address pid sequence (dy_next s)" and ?F = "pgm_name address"
  have left: "attempt_left env j s ?t s'" and sealed: "\<forall>summary. r = Inr summary \<longrightarrow> sealed_as env j ?F summary s'"
    using seal_left [OF run] by blast+
  have t: "pt_temp_name ?t = temporary_name address TmpPgm pid sequence" "pt_final_name ?t = ?F"
    by (simp_all add: temp_for_def)
  have synced: "synced s' k" if "dy_names s' ?F = Some (FileEntry k)" "dy_names s ?F = None \<or> k < dy_next s \<and> synced s k" for k
    using attempt_synced [OF left temp_for_names, of k] that unfolding t by auto
  have crashed: "file_at s'' ?F = Some (content s' k)"
    if "after_crash s' s''" "synced s' k" "dy_names s' ?F = Some (FileEntry k)" "dy_durable s' ?F = Some (FileEntry k)" for s'' k
    using crash_name [OF that(1), of ?F] that by (simp add: file_at_def after_crash_def)
  have "\<exists>n plan bytes k. build_segment env j = (Inr (n, plan), bytes) \<and> summary = summary_of n plan bytes
         \<and> dy_names s' ?F = Some (FileEntry k) \<and> dy_durable s' ?F = Some (FileEntry k) \<and> content s' k = bytes
         \<and> (dy_names s ?F = None \<or> k < dy_next s \<and> synced s k \<longrightarrow>
              synced s' k \<and> (\<forall>s''. after_crash s' s'' \<longrightarrow> file_at s'' ?F = Some bytes))"
    if "r = Inr summary" for summary
    using sealed that synced crashed unfolding sealed_as_def by blast
  then show ?thesis
    using attempt_names [OF left temp_for_names] unfolding t summary_of_def by blast
qed

section \<open>Repeated attempts\<close>

text \<open>Attempts with any outcomes of their calls, and crashes after any of them.\<close>

inductive seal_history :: "seal_env \<Rightarrow> journal \<Rightarrow> segment_address \<Rightarrow> day_fs \<Rightarrow> day_fs \<Rightarrow> bool" for env j address s0 where
  history_start: "seal_history env j address s0 s0"
| history_attempt: "seal_history env j address s0 s \<Longrightarrow> seal_segment env j address pid sequence (s\<lparr>dy_plan := p\<rparr>) = (r, s')
    \<Longrightarrow> seal_history env j address s0 s'"
| history_crash: "seal_history env j address s0 s \<Longrightarrow> after_crash s s' \<Longrightarrow> seal_history env j address s0 s'"

lemma history_free_or:
  assumes "seal_history env j address s0 s" and free: "free_or bytes (pgm_name address) s0" and built: "built_as env j bytes"
  shows "free_or bytes (pgm_name address) s"
  using assms(1)
proof induction
  case (history_attempt s pid sequence p r s')
  let ?t = "temp_for address pid sequence (dy_next s)"
  have "attempt_left env j (s\<lparr>dy_plan := p\<rparr>) ?t s'" using seal_left [OF history_attempt.hyps(2)] by simp
  moreover have "free_or bytes (pt_final_name ?t) (s\<lparr>dy_plan := p\<rparr>)" using history_attempt.IH by (simp add: temp_for_def)
  ultimately have "free_or bytes (pt_final_name ?t) s'" using free_or_left [OF _ _ temp_for_names built] by blast
  then show ?case by (simp add: temp_for_def)
qed (use free free_or_crash in blast)+

lemma free_or_file_at:
  "free_or bytes name s \<Longrightarrow> dy_names s name = None \<or> file_at s name = Some bytes"
  by (auto simp: free_or_def held_def file_at_def)

text \<open>
  C8. From a day where the final name is free, after any number of attempts to seal, each stopped anywhere by a
  failure or a crash, the final name is free or denotes a file with the complete segment: no attempt
  leaves a partial segment under it.
\<close>

theorem seal_history_safe:
  assumes history: "seal_history env j address s0 s" and build: "build_segment env j = (Inr (n, plan), bytes)"
    and free: "dy_names s0 (pgm_name address) = None" "dy_durable s0 (pgm_name address) = None"
  shows "dy_names s (pgm_name address) = None \<or> file_at s (pgm_name address) = Some bytes"
proof -
  have "free_or bytes (pgm_name address) s0" using free by (simp add: free_or_def held_def)
  then show ?thesis using history_free_or [OF history] build free_or_file_at unfolding built_as_def by blast
qed

text \<open>
  C5. After any number of failed or crashed attempts the next one succeeds when no call fails and its temporary
  name is free: it publishes the segment, or finds it under the final name and accepts it, and from
  then on no crash takes it away.
\<close>

theorem seal_retry:
  assumes history: "seal_history env j address s0 s" and build: "build_segment env j = (Inr (n, plan), bytes)"
    and free: "dy_names s0 (pgm_name address) = None" "dy_durable s0 (pgm_name address) = None"
    and journal: "j_parts j \<noteq> []" "j_segment_id j = None \<or> j_segment_id j = Some (sa_id address)"
    and temp: "dy_names s (temporary_name address TmpPgm pid sequence) = None"
  shows "\<exists>summary s'. seal_segment env j address pid sequence (s\<lparr>dy_plan := []\<rparr>) = (Inr summary, s')
    \<and> ss_bytes summary = length bytes \<and> (\<forall>s''. after_crash s' s'' \<longrightarrow> file_at s'' (pgm_name address) = Some bytes)"
proof -
  let ?F = "pgm_name address" and ?s = "s\<lparr>dy_plan := []\<rparr>"
  have built: "built_as env j bytes" using build by (auto simp: built_as_def)
  have "free_or bytes ?F s0" using free by (simp add: free_or_def held_def)
  then have ok: "free_or bytes ?F ?s" using history_free_or [OF history _ built] by simp
  obtain s' where run: "seal_segment env j address pid sequence ?s = (Inr (summary_of n plan bytes), s')"
    using quiet_seal [OF _ build ok _ journal, of pid sequence] temp by auto
  have "seal_history env j address s0 s'" by (rule history_attempt [OF history run])
  then have ok': "free_or bytes ?F s'" using history_free_or [OF _ \<open>free_or bytes ?F s0\<close> built] by blast
  obtain k where k: "dy_names s' ?F = Some (FileEntry k)" "dy_durable s' ?F = Some (FileEntry k)"
    using seal_left [OF run] unfolding sealed_as_def by blast
  then have synced: "synced s' k" "content s' k = bytes" using ok' by (simp_all add: free_or_def held_def)
  have "file_at s'' ?F = Some bytes" if crash: "after_crash s' s''" for s''
    using crash_name [OF crash, of ?F] k synced crash by (simp add: file_at_def after_crash_def)
  then show ?thesis using run by (auto simp: summary_of_def)
qed

section \<open>A day with a torn attempt\<close>

definition sample_address :: segment_address where
  "sample_address = \<lparr>sa_id = 1709164800000000, sa_day = \<lparr>ud_year = 2024, ud_month = 2, ud_day = 29\<rparr>\<rparr>"

definition sample_day :: day_fs where
  "sample_day = \<lparr>dy_files = (\<lambda>_. \<lparr>df_bytes = [], df_durable = [], df_mtime = 0, df_ctime = 0\<rparr>), dy_names = Map.empty,
     dy_durable = Map.empty, dy_next = 0, dy_clock = 0, dy_plan = []\<rparr>"

lemma sample_day_free: "dy_names sample_day name = None" "dy_durable sample_day name = None"
  by (simp_all add: sample_day_def)

lemma sample_journal_sealable: "j_parts sample_journal \<noteq> []" "j_segment_id sample_journal = None \<or> j_segment_id sample_journal = Some (sa_id sample_address)"
  by (simp_all add: sample_journal_def sample_address_def)

lemma seal_exact_witness:
  "\<exists>summary s' k. seal_segment sample_seal_env sample_journal sample_address 7 0 sample_day = (Inr summary, s')
     \<and> dy_names s' (pgm_name sample_address) = Some (FileEntry k) \<and> content s' k = sample_segment \<and> ss_sections summary = 2
     \<and> synced s' k \<and> (\<forall>s''. after_crash s' s'' \<longrightarrow> file_at s'' (pgm_name sample_address) = Some sample_segment)"
proof -
  have "free_or sample_segment (pgm_name sample_address) sample_day" by (simp add: free_or_def held_def sample_day_free)
  moreover have "dy_plan sample_day = []" by (simp add: sample_day_def)
  ultimately obtain s' where run: "seal_segment sample_seal_env sample_journal sample_address 7 0 sample_day = (Inr (summary_of 2 sample_plan sample_segment), s')"
    using quiet_seal [OF _ sample_built _ _ sample_journal_sealable] sample_day_free by blast
  then show ?thesis using seal_exact [OF run] by (auto simp: sample_built summary_of_def sample_day_free)
qed

text \<open>The third call, which writes the segment, stops after three bytes.\<close>

definition torn_day :: day_fs where
  "torn_day = snd (seal_segment sample_seal_env sample_journal sample_address 7 0 (sample_day\<lparr>dy_plan := [FsOk, FsOk, FsFail 3 28]\<rparr>))"

lemma torn_run: "\<exists>r. seal_segment sample_seal_env sample_journal sample_address 7 0 (sample_day\<lparr>dy_plan := [FsOk, FsOk, FsFail 3 28]\<rparr>) = (r, torn_day)"
  unfolding torn_day_def by (metis prod.collapse)

lemma torn_history: "seal_history sample_seal_env sample_journal sample_address sample_day torn_day"
  using history_attempt [OF history_start] torn_run by blast

lemma seal_history_safe_witness:
  "dy_names torn_day (pgm_name sample_address) = None \<or> file_at torn_day (pgm_name sample_address) = Some sample_segment"
  by (rule seal_history_safe [OF torn_history sample_built sample_day_free])

lemma torn_temporary_free: "dy_names torn_day (temporary_name sample_address TmpPgm 7 1) = None"
proof -
  let ?t = "temp_for sample_address 7 0 0"
  obtain r where run: "seal_segment sample_seal_env sample_journal sample_address 7 0 (sample_day\<lparr>dy_plan := [FsOk, FsOk, FsFail 3 28]\<rparr>) = (r, torn_day)"
    using torn_run by blast
  have left: "attempt_left sample_seal_env sample_journal (sample_day\<lparr>dy_plan := [FsOk, FsOk, FsFail 3 28]\<rparr>) ?t torn_day"
    using seal_left [OF run] by (simp add: sample_day_def)
  have names: "temporary_name sample_address TmpPgm 7 1 \<noteq> pt_temp_name ?t" "temporary_name sample_address TmpPgm 7 1 \<noteq> pt_final_name ?t"
    by (simp_all add: temp_for_def temporary_name_def pgm_name_def sample_address_def dec_digits.simps)
  show ?thesis using attempt_names(1) [OF left temp_for_names names] sample_day_free by simp
qed

lemma seal_retry_witness:
  "\<exists>summary s'. seal_segment sample_seal_env sample_journal sample_address 7 1 (torn_day\<lparr>dy_plan := []\<rparr>) = (Inr summary, s')
     \<and> ss_bytes summary = 114 \<and> file_at s' (pgm_name sample_address) = Some sample_segment"
proof -
  have "length sample_segment = 114"
    by (simp add: sample_segment_def length_part_bytes encoded_len_catalog build_entries_fields sample_sealed_def)
  then show ?thesis
    using seal_retry [OF torn_history sample_built sample_day_free sample_journal_sealable torn_temporary_free] after_crash_refl by fastforce
qed

end
