(* ===== verification/Log_Tail.thy ===== *)
theory Log_Tail
  imports Prelude
begin

text \<open>
  The tailer of the PostgreSQL server log (\<open>crates/kronika-source-log/src/tailer.rs\<close>): from a saved
  position it reads a bounded batch of physical lines and says where the next batch resumes.  A file is its
  identity and its bytes.  The system calls are an environment: how the open ends, what \<open>lseek(SEEK_DATA)\<close>
  finds, how many bytes each \<open>read\<close> returns, and what each look at the clock shows; a batch may be cut at
  any byte.  Offsets and counters are naturals that saturate at the width of the code's integers.
\<close>

section \<open>Data\<close>

datatype parser_kind = Stderr | Csvlog | Unknown

record tail_caps =
  max_lines :: nat
  max_bytes :: nat
  max_duration :: nat
  max_line_len :: nat
  max_backlog_bytes :: nat
  backlog_tail_bytes :: nat

definition READ_BUF_SIZE :: nat where "READ_BUF_SIZE = 65536"

definition default_caps :: tail_caps where
  "default_caps =
     \<lparr>max_lines = 4096, max_bytes = 1048576, max_duration = 50000000, max_line_len = 65536,
      max_backlog_bytes = 64 * 1048576, backlog_tail_bytes = 1048576\<rparr>"

record tail_gaps =
  backlog_bytes_skipped :: nat
  sparse_bytes_skipped :: nat
  truncated_lines :: nat
  binary_lines_dropped :: nat
  rotations :: nat
  missing_files :: nat
  budget_exhaustions :: nat

definition no_gaps :: tail_gaps where
  "no_gaps = \<lparr>backlog_bytes_skipped = 0, sparse_bytes_skipped = 0, truncated_lines = 0, binary_lines_dropped = 0,
     rotations = 0, missing_files = 0, budget_exhaustions = 0\<rparr>"

definition has_any :: "tail_gaps \<Rightarrow> bool" where
  "has_any g \<longleftrightarrow> backlog_bytes_skipped g \<noteq> 0 \<or> sparse_bytes_skipped g \<noteq> 0 \<or> truncated_lines g \<noteq> 0
     \<or> binary_lines_dropped g \<noteq> 0 \<or> rotations g \<noteq> 0 \<or> missing_files g \<noteq> 0 \<or> budget_exhaustions g \<noteq> 0"

record tail_line =
  tl_offset :: nat
  tl_bytes :: "u8 list"
  tl_truncated :: bool

record log_identity =
  li_dev :: nat
  li_inode :: nat

record tail_state =
  ts_path :: string
  ts_dev :: nat
  ts_inode :: nat
  ts_offset :: nat
  ts_parser :: parser_kind
  ts_skip :: bool

record tail_batch =
  tb_lines :: "tail_line list"
  tb_gaps :: tail_gaps
  tb_next :: "tail_state option"
  tb_unread :: nat

text \<open>Increments of the \<open>u32\<close> counters; the \<open>u64\<close> ones use \<open>saturating_add\<close>.\<close>

definition saturating_inc :: "nat \<Rightarrow> nat" where
  "saturating_inc n = min (n + 1) (u32_limit - 1)"

section \<open>The environment of one batch\<close>

datatype tail_error = OffsetExceedsI64 | NegativeOffset | OsFailure nat

datatype open_outcome = Opened | NotFound | OpenFailed nat

datatype seek_outcome = SeekFound int | SeekENXIO | SeekEINVAL | SeekENOTTY | SeekErrno nat

record tail_env =
  te_open :: open_outcome
  te_metadata :: "tail_error option"
  te_seek_data :: "nat \<Rightarrow> seek_outcome"
  te_seek_start :: "tail_error option"
  te_read :: "nat \<Rightarrow> nat \<Rightarrow> tail_error + nat"
  te_elapsed :: "nat \<Rightarrow> nat"

record log_file =
  lf_identity :: log_identity
  lf_bytes :: "u8 list"

section \<open>Where a batch starts\<close>

definition initial_offset ::
    "string \<Rightarrow> parser_kind \<Rightarrow> tail_state option \<Rightarrow> bool \<Rightarrow> nat \<Rightarrow> log_identity \<Rightarrow> tail_gaps
       \<Rightarrow> nat \<times> bool \<times> tail_gaps" where
  "initial_offset path parser st start_at_beginning file_size ident g =
     (case st of
        None \<Rightarrow> (if start_at_beginning then 0 else file_size, False, g)
      | Some s \<Rightarrow>
          if ts_path s \<noteq> path \<or> ts_parser s \<noteq> parser
          then (0, False, g\<lparr>rotations := saturating_inc (rotations g)\<rparr>)
          else if ts_dev s = li_dev ident \<and> ts_inode s = li_inode ident \<and> file_size \<ge> ts_offset s
          then (ts_offset s, ts_skip s, g)
          else (0, ts_skip s, g\<lparr>rotations := saturating_inc (rotations g)\<rparr>))"

definition apply_backlog_guard ::
    "nat \<Rightarrow> tail_caps \<Rightarrow> nat \<Rightarrow> bool \<Rightarrow> tail_gaps \<Rightarrow> nat \<times> bool \<times> tail_gaps" where
  "apply_backlog_guard file_size caps cursor skip g =
     (let lag = file_size - cursor; new_offset = file_size - backlog_tail_bytes caps in
      if lag \<le> max_backlog_bytes caps then (cursor, skip, g)
      else if new_offset > cursor
      then (new_offset, True,
            g\<lparr>backlog_bytes_skipped := saturating_add (backlog_bytes_skipped g) (new_offset - cursor)\<rparr>)
      else (cursor, skip, g))"

definition seek_next_data :: "tail_env \<Rightarrow> nat \<Rightarrow> nat \<Rightarrow> tail_error + nat option" where
  "seek_next_data env offset file_size =
     (if offset \<ge> file_size then Inr None
      else if offset \<ge> 2 ^ 63 then Inl OffsetExceedsI64
      else case te_seek_data env offset of
             SeekFound found \<Rightarrow> if found < 0 then Inl NegativeOffset else Inr (Some (nat found))
           | SeekENXIO \<Rightarrow> Inr None
           | SeekEINVAL \<Rightarrow> Inr (Some offset)
           | SeekENOTTY \<Rightarrow> Inr (Some offset)
           | SeekErrno e \<Rightarrow> Inl (OsFailure e))"

definition next_state :: "string \<Rightarrow> parser_kind \<Rightarrow> log_identity \<Rightarrow> nat \<Rightarrow> bool \<Rightarrow> tail_state" where
  "next_state path parser ident offset skip =
     \<lparr>ts_path = path, ts_dev = li_dev ident, ts_inode = li_inode ident, ts_offset = offset,
      ts_parser = parser, ts_skip = skip\<rparr>"

section \<open>The read loop\<close>

text \<open>The local variables of \<open>read_opened_file\<close>, with the number of reads and looks at the clock so far.\<close>

record tail_run =
  tr_cursor :: nat
  tr_remaining :: nat
  tr_lines :: "tail_line list"
  tr_line :: "u8 list"
  tr_line_start :: nat
  tr_committed :: nat
  tr_skip :: bool
  tr_truncated :: bool
  tr_verify :: bool
  tr_gaps :: tail_gaps
  tr_reads :: nat
  tr_looks :: nat

definition look :: "tail_env \<Rightarrow> tail_caps \<Rightarrow> tail_run \<Rightarrow> bool \<times> tail_run" where
  "look env caps r =
     (te_elapsed env (tr_looks r) \<ge> max_duration caps, r\<lparr>tr_looks := tr_looks r + 1\<rparr>)"

definition consume_segment :: "tail_caps \<Rightarrow> u8 list \<Rightarrow> tail_run \<Rightarrow> tail_run" where
  "consume_segment caps segment r =
     (if segment = [] then r
      else if tr_skip r then r
      else if 0 \<in> set segment
      then r\<lparr>tr_line := [], tr_skip := True, tr_truncated := False,
             tr_gaps := (tr_gaps r)\<lparr>binary_lines_dropped := saturating_inc (binary_lines_dropped (tr_gaps r))\<rparr>\<rparr>
      else let available = max_line_len caps - length (tr_line r) in
        if length segment \<le> available then r\<lparr>tr_line := tr_line r @ segment\<rparr>
        else r\<lparr>tr_lines := tr_lines r @
                 [\<lparr>tl_offset = tr_line_start r, tl_bytes = tr_line r @ take available segment, tl_truncated = True\<rparr>],
               tr_line := [], tr_skip := True, tr_truncated := True,
               tr_gaps := (tr_gaps r)\<lparr>truncated_lines := saturating_inc (truncated_lines (tr_gaps r))\<rparr>\<rparr>)"

definition advance :: "nat \<Rightarrow> tail_run \<Rightarrow> tail_run" where
  "advance n r = r\<lparr>tr_cursor := saturating_add (tr_cursor r) n\<rparr>"

text \<open>What the newline after a segment does.\<close>

definition finish_line :: "tail_run \<Rightarrow> tail_run" where
  "finish_line r =
     (let cursor = saturating_add (tr_cursor r) 1 in
      r\<lparr>tr_cursor := cursor,
        tr_lines := (if \<not> tr_skip r \<and> tr_line r \<noteq> []
                     then tr_lines r @
                       [\<lparr>tl_offset = tr_line_start r, tl_bytes = tr_line r, tl_truncated = tr_truncated r\<rparr>]
                     else tr_lines r),
        tr_line := [], tr_truncated := False, tr_skip := False, tr_committed := cursor, tr_line_start := cursor\<rparr>)"

definition pause_line :: "tail_run \<Rightarrow> tail_run" where
  "pause_line r = (if tr_skip r \<or> tr_truncated r then r\<lparr>tr_committed := tr_cursor r\<rparr> else r)"

text \<open>The inner loop over one buffer; the result is what it leaves of the buffer.\<close>

function (sequential) scan_chunk :: "tail_env \<Rightarrow> tail_caps \<Rightarrow> u8 list \<Rightarrow> tail_run \<Rightarrow> u8 list \<times> tail_run" where
  "scan_chunk env caps rest r =
     (if rest = [] \<or> length (tr_lines r) \<ge> max_lines caps then (rest, r)
      else case look env caps r of (passed, r1) \<Rightarrow>
        if passed then (rest, r1)
        else
          let segment = takeWhile (\<lambda>b. b \<noteq> 10) rest;
              r2 = advance (length segment) (consume_segment caps segment r1)
          in case dropWhile (\<lambda>b. b \<noteq> 10) rest of
               [] \<Rightarrow> ([], pause_line r2)
             | newline # rest' \<Rightarrow> scan_chunk env caps rest' (finish_line r2))"
  by pat_completeness auto

termination scan_chunk
proof (relation "measure (\<lambda>(env, caps, rest, r). length rest)")
  show "wf (measure (\<lambda>(env :: tail_env, caps :: tail_caps, rest :: u8 list, r :: tail_run). length rest))" by simp
next
  fix env :: tail_env and caps :: tail_caps and rest rest' :: "u8 list" and r r1 r2 :: tail_run
    and x passed segment newline
  assume "dropWhile (\<lambda>b. b \<noteq> 10) rest = newline # rest'"
  then have "length (newline # rest') \<le> length rest" by (metis length_dropWhile_le)
  then show "((env, caps, rest', finish_line r2), env, caps, rest, r)
      \<in> measure (\<lambda>(env, caps, rest, r). length rest)" by simp
qed

declare scan_chunk.simps [simp del]

text \<open>
  The first buffers after \<open>SEEK_DATA\<close> found no data: a buffer of zeros is a hole, which is skipped.
\<close>

definition skip_hole :: "tail_env \<Rightarrow> tail_caps \<Rightarrow> u8 list \<Rightarrow> tail_run \<Rightarrow> bool \<times> tail_run" where
  "skip_hole env caps buf r =
     (if tr_verify r
      then case look env caps r of (passed, r1) \<Rightarrow>
        if passed then (False, r1)
        else if \<forall>b\<in>set buf. b = 0
        then let cursor = saturating_add (tr_cursor r1) (length buf) in
             (True, r1\<lparr>tr_cursor := cursor, tr_committed := cursor, tr_skip := True,
                tr_gaps := (tr_gaps r1)\<lparr>sparse_bytes_skipped :=
                  saturating_add (sparse_bytes_skipped (tr_gaps r1)) (length buf)\<rparr>\<rparr>)
        else (False, r1\<lparr>tr_verify := False\<rparr>)
      else (False, r))"

definition exhaust_budget :: "tail_run \<Rightarrow> tail_run" where
  "exhaust_budget r =
     r\<lparr>tr_gaps := (tr_gaps r)\<lparr>budget_exhaustions := saturating_inc (budget_exhaustions (tr_gaps r))\<rparr>\<rparr>"

lemma look_remaining [simp]: "tr_remaining (snd (look env caps r)) = tr_remaining r"
  by (simp add: look_def)

lemma skip_hole_remaining: "tr_remaining (snd (skip_hole env caps buf r)) = tr_remaining r"
  by (simp add: skip_hole_def look_def Let_def)

lemma scan_step_remaining [simp]:
  "tr_remaining (advance n r) = tr_remaining r" "tr_remaining (consume_segment caps segment r) = tr_remaining r"
  "tr_remaining (finish_line r) = tr_remaining r" "tr_remaining (pause_line r) = tr_remaining r"
  "tr_remaining (exhaust_budget r) = tr_remaining r"
  by (simp_all add: advance_def consume_segment_def finish_line_def pause_line_def exhaust_budget_def Let_def)

lemma scan_chunk_go:
  assumes "rest \<noteq> []" and "length (tr_lines r) < max_lines caps" and "te_elapsed env (tr_looks r) < max_duration caps"
  shows "scan_chunk env caps rest r =
    (let segment = takeWhile (\<lambda>b. b \<noteq> 10) rest;
         r2 = advance (length segment) (consume_segment caps segment (snd (look env caps r)))
     in case dropWhile (\<lambda>b. b \<noteq> 10) rest of
          [] \<Rightarrow> ([], pause_line r2)
        | newline # rest' \<Rightarrow> scan_chunk env caps rest' (finish_line r2))"
  using assms by (subst scan_chunk.simps) (simp add: look_def not_le)

text \<open>The cases of one turn of the inner loop.\<close>

lemma scan_chunk_cases:
  obtains (stop) "rest = [] \<or> length (tr_lines r) \<ge> max_lines caps" "scan_chunk env caps rest r = (rest, r)"
  | (deadline) "rest \<noteq> []" "te_elapsed env (tr_looks r) \<ge> max_duration caps"
      "scan_chunk env caps rest r = (rest, snd (look env caps r))"
  | (partial) "rest \<noteq> []" "length (tr_lines r) < max_lines caps" "10 \<notin> set rest"
      "scan_chunk env caps rest r =
         ([], pause_line (advance (length rest) (consume_segment caps rest (snd (look env caps r)))))"
  | (complete) segment rest' where "rest = segment @ 10 # rest'" "length (tr_lines r) < max_lines caps" "10 \<notin> set segment"
      "scan_chunk env caps rest r =
         scan_chunk env caps rest' (finish_line (advance (length segment) (consume_segment caps segment (snd (look env caps r)))))"
proof -
  let ?segment = "takeWhile (\<lambda>b. b \<noteq> 10) rest"
  consider "rest = [] \<or> length (tr_lines r) \<ge> max_lines caps"
    | "rest \<noteq> []" "length (tr_lines r) < max_lines caps" "te_elapsed env (tr_looks r) \<ge> max_duration caps"
    | "rest \<noteq> []" "length (tr_lines r) < max_lines caps" "te_elapsed env (tr_looks r) < max_duration caps" "10 \<notin> set rest"
    | "rest \<noteq> []" "length (tr_lines r) < max_lines caps" "te_elapsed env (tr_looks r) < max_duration caps" "10 \<in> set rest"
    by linarith
  then show thesis
  proof cases
    case 1
    then show thesis by (intro stop) (simp_all add: scan_chunk.simps [of env caps rest r])
  next
    case 2
    then show thesis by (intro deadline) (simp_all add: scan_chunk.simps [of env caps rest r] look_def)
  next
    case 3
    have whole: "?segment = rest" "dropWhile (\<lambda>b. b \<noteq> 10) rest = []"
      using 3(4) by (auto simp: takeWhile_eq_all_conv dropWhile_eq_Nil_conv)
    show thesis
      by (rule partial [OF 3(1,2,4)]) (simp only: scan_chunk_go [OF 3(1-3)] whole Let_def list.case)
  next
    case 4
    obtain segment rest' where whole: "rest = segment @ 10 # rest'" "10 \<notin> set segment"
      using split_list_first [OF 4(4)] by blast
    have all: "\<And>b. b \<in> set segment \<Longrightarrow> b \<noteq> 10" using whole(2) by auto
    have parts: "?segment = segment" "dropWhile (\<lambda>b. b \<noteq> 10) rest = 10 # rest'"
      unfolding whole(1) by (subst takeWhile_append2 dropWhile_append2, erule all, simp)+
    show thesis
      by (rule complete [OF whole(1) 4(2) whole(2)]) (simp only: scan_chunk_go [OF 4(1-3)] parts Let_def list.case)
  qed
qed

lemma scan_chunk_remaining: "tr_remaining (snd (scan_chunk env caps rest r)) = tr_remaining r"
proof (induction rest arbitrary: r rule: length_induct)
  case (1 rest)
  show ?case
  proof (cases rule: scan_chunk_cases [of rest caps r env])
    case (complete segment rest')
    then show ?thesis using 1 [rule_format, of rest'] by simp
  qed simp_all
qed

text \<open>One turn of the outer loop; the flag says whether the loop goes around.\<close>

definition tail_turn :: "tail_env \<Rightarrow> tail_caps \<Rightarrow> u8 list \<Rightarrow> tail_run \<Rightarrow> tail_error + bool \<times> tail_run" where
  "tail_turn env caps bytes r =
     (if tr_remaining r = 0 \<or> length (tr_lines r) \<ge> max_lines caps then Inr (False, r)
      else case look env caps r of (passed, r1) \<Rightarrow>
        if passed \<or> tr_cursor r1 \<ge> length bytes then Inr (False, r1)
        else
          let to_read = min READ_BUF_SIZE (min (tr_remaining r1) (length bytes - tr_cursor r1)) in
          if to_read = 0 then Inr (False, r1)
          else case te_read env (tr_reads r1) to_read of
            Inl e \<Rightarrow> Inl e
          | Inr k \<Rightarrow>
              let n = min k to_read; buf = take n (drop (tr_cursor r1) bytes);
                  r2 = r1\<lparr>tr_reads := tr_reads r1 + 1, tr_remaining := tr_remaining r1 - n\<rparr>
              in if n = 0 then Inr (False, r2)
                 else case skip_hole env caps buf r2 of (hole, r3) \<Rightarrow>
                   if hole then Inr (True, r3)
                   else case scan_chunk env caps buf r3 of (rest, r4) \<Rightarrow>
                     if rest \<noteq> [] then Inr (False, exhaust_budget r4) else Inr (True, r4))"

text \<open>The cases of one turn of the outer loop.\<close>

lemma tail_turn_cases:
  obtains (stop) r' where "tail_turn env caps bytes r = Inr (False, r')" "r' = r \<or> r' = snd (look env caps r)"
      "tr_remaining r = 0 \<or> length (tr_lines r) \<ge> max_lines caps
         \<or> te_elapsed env (tr_looks r) \<ge> max_duration caps \<or> tr_cursor r \<ge> length bytes"
  | (failure) e m where "0 < m" "te_read env (tr_reads r) m = Inl e" "tail_turn env caps bytes r = Inl e"
  | (ended) m where "0 < m" "te_read env (tr_reads r) m = Inr 0" "tail_turn env caps bytes r =
        Inr (False, (snd (look env caps r))\<lparr>tr_reads := tr_reads r + 1\<rparr>)"
  | (buffer) n buf r2 where "0 < n" "n \<le> READ_BUF_SIZE" "n \<le> tr_remaining r" "n \<le> length bytes - tr_cursor r"
      "length (tr_lines r) < max_lines caps" "buf = take n (drop (tr_cursor r) bytes)"
      "r2 = (snd (look env caps r))\<lparr>tr_reads := tr_reads r + 1, tr_remaining := tr_remaining r - n\<rparr>"
      "tail_turn env caps bytes r =
        (case skip_hole env caps buf r2 of (hole, r3) \<Rightarrow>
           if hole then Inr (True, r3)
           else case scan_chunk env caps buf r3 of (rest, r4) \<Rightarrow>
             if rest \<noteq> [] then Inr (False, exhaust_budget r4) else Inr (True, r4))"
proof -
  define r1 where "r1 = snd (look env caps r)"
  define to_read where "to_read = min READ_BUF_SIZE (min (tr_remaining r) (length bytes - tr_cursor r))"
  have same: "tr_remaining r1 = tr_remaining r" "tr_cursor r1 = tr_cursor r" "tr_reads r1 = tr_reads r"
    by (simp_all add: look_def r1_def)
  have looked: "look env caps r = (te_elapsed env (tr_looks r) \<ge> max_duration caps, r1)"
    by (simp add: look_def r1_def)
  consider "tr_remaining r = 0 \<or> length (tr_lines r) \<ge> max_lines caps"
    | "tr_remaining r \<noteq> 0" "length (tr_lines r) < max_lines caps"
      "te_elapsed env (tr_looks r) \<ge> max_duration caps \<or> tr_cursor r \<ge> length bytes \<or> to_read = 0"
    | "tr_remaining r \<noteq> 0" "length (tr_lines r) < max_lines caps"
      "te_elapsed env (tr_looks r) < max_duration caps" "tr_cursor r < length bytes" "to_read \<noteq> 0"
    by linarith
  then show thesis
  proof cases
    case 1
    then show thesis by (intro stop [of r]) (auto simp: tail_turn_def)
  next
    case 2
    then show thesis
      by (intro stop [of r1])
        (auto simp: tail_turn_def looked same Let_def r1_def [symmetric] to_read_def READ_BUF_SIZE_def)
  next
    case 3
    have turn: "tail_turn env caps bytes r = (case te_read env (tr_reads r) to_read of
        Inl e \<Rightarrow> Inl e
      | Inr k \<Rightarrow>
          let n = min k to_read; buf = take n (drop (tr_cursor r) bytes);
              r2 = r1\<lparr>tr_reads := tr_reads r + 1, tr_remaining := tr_remaining r - n\<rparr>
          in if n = 0 then Inr (False, r2)
             else case skip_hole env caps buf r2 of (hole, r3) \<Rightarrow>
               if hole then Inr (True, r3)
               else case scan_chunk env caps buf r3 of (rest, r4) \<Rightarrow>
                 if rest \<noteq> [] then Inr (False, exhaust_budget r4) else Inr (True, r4))"
      using 3(1-4) 3(5)
      unfolding tail_turn_def looked prod.case same Let_def to_read_def [symmetric] by simp
    show thesis
    proof (cases "te_read env (tr_reads r) to_read")
      case (Inl e)
      then show thesis using 3(5) by (intro failure [of to_read e]) (simp_all add: turn)
    next
      case (Inr k)
      define n where "n = min k to_read"
      have turn': "tail_turn env caps bytes r =
          (let buf = take n (drop (tr_cursor r) bytes);
               r2 = r1\<lparr>tr_reads := tr_reads r + 1, tr_remaining := tr_remaining r - n\<rparr>
           in if n = 0 then Inr (False, r2)
              else case skip_hole env caps buf r2 of (hole, r3) \<Rightarrow>
                if hole then Inr (True, r3)
                else case scan_chunk env caps buf r3 of (rest, r4) \<Rightarrow>
                  if rest \<noteq> [] then Inr (False, exhaust_budget r4) else Inr (True, r4))"
        unfolding turn Inr sum.case n_def [symmetric] Let_def by (rule refl)
      show thesis
      proof (cases "n = 0")
        case True
        have "r1\<lparr>tr_reads := tr_reads r + 1, tr_remaining := tr_remaining r\<rparr> = r1\<lparr>tr_reads := tr_reads r + 1\<rparr>"
          by (simp add: same [symmetric])
        moreover have "k = 0" using True 3(5) by (simp add: n_def)
        ultimately show thesis using turn' True 3(5) Inr
          by (intro ended [of to_read]) (simp_all add: Let_def r1_def [symmetric])
      next
        case False
        have "n \<le> to_read" by (simp add: n_def)
        then have "n \<le> READ_BUF_SIZE" "n \<le> tr_remaining r" "n \<le> length bytes - tr_cursor r"
          by (simp_all add: to_read_def)
        moreover have "0 < n" using False by simp
        ultimately show thesis using 3(2) turn' False
          by (intro buffer [OF _ _ _ _ _ refl refl, of n]) (simp_all only: Let_def r1_def [symmetric] if_False)
      qed
    qed
  qed
qed

lemma tail_turn_decreases:
  assumes again: "tail_turn env caps bytes r = Inr (True, r')"
  shows "tr_remaining r' < tr_remaining r"
proof (cases rule: tail_turn_cases [of env caps bytes r])
  case (buffer n buf r2)
  have "tr_remaining r' = tr_remaining r2"
    using again skip_hole_remaining [of env caps buf r2]
      scan_chunk_remaining [of env caps buf "snd (skip_hole env caps buf r2)"]
    by (auto simp: buffer(8) split: prod.splits if_splits)
  then show ?thesis using buffer(1,3) by (simp add: buffer(7))
qed (simp_all add: again)

function tail_loop :: "tail_env \<Rightarrow> tail_caps \<Rightarrow> u8 list \<Rightarrow> tail_run \<Rightarrow> tail_error + tail_run" where
  "tail_loop env caps bytes r =
     (case tail_turn env caps bytes r of
        Inl e \<Rightarrow> Inl e
      | Inr (again, r') \<Rightarrow> if again then tail_loop env caps bytes r' else Inr r')"
  by pat_completeness auto

termination tail_loop
  by (relation "measure (\<lambda>(env, caps, bytes, r). tr_remaining r)") (auto dest: tail_turn_decreases)

declare tail_loop.simps [simp del]

section \<open>One batch\<close>

definition tail_run_new :: "tail_caps \<Rightarrow> nat \<Rightarrow> bool \<Rightarrow> bool \<Rightarrow> tail_gaps \<Rightarrow> tail_run" where
  "tail_run_new caps cursor skip verify g =
     \<lparr>tr_cursor = cursor, tr_remaining = max_bytes caps, tr_lines = [], tr_line = [], tr_line_start = cursor,
      tr_committed = cursor, tr_skip = skip, tr_truncated = False, tr_verify = verify, tr_gaps = g,
      tr_reads = 0, tr_looks = 0\<rparr>"

text \<open>After the loop: the budget counter and the offset of the next batch.\<close>

definition account_budget :: "tail_env \<Rightarrow> tail_caps \<Rightarrow> tail_run \<Rightarrow> tail_run" where
  "account_budget env caps r =
     (if tr_remaining r = 0 \<or> length (tr_lines r) \<ge> max_lines caps then exhaust_budget r
      else case look env caps r of (passed, r1) \<Rightarrow> if passed then exhaust_budget r1 else r1)"

definition resume_offset :: "tail_run \<Rightarrow> nat" where
  "resume_offset r =
     (if tr_skip r \<or> tr_truncated r then max (tr_committed r) (tr_cursor r)
      else if tr_line r = [] then tr_cursor r
      else tr_committed r)"

definition finish_batch :: "string \<Rightarrow> parser_kind \<Rightarrow> log_file \<Rightarrow> tail_run \<Rightarrow> tail_batch" where
  "finish_batch path parser file r =
     (let resume = min (resume_offset r) (length (lf_bytes file)) in
      \<lparr>tb_lines = tr_lines r, tb_gaps = tr_gaps r,
       tb_next = Some (next_state path parser (lf_identity file) resume (tr_skip r \<or> tr_truncated r)),
       tb_unread = length (lf_bytes file) - resume\<rparr>)"

text \<open>The hole that \<open>SEEK_DATA\<close> reports at the cursor, and the state the loop starts in.\<close>

definition start_run :: "tail_env \<Rightarrow> tail_caps \<Rightarrow> nat \<Rightarrow> nat \<times> bool \<times> tail_gaps \<Rightarrow> tail_error + tail_run" where
  "start_run env caps file_size start =
     (case start of (cursor, skip, g) \<Rightarrow>
      case seek_next_data env cursor file_size of
        Inl e \<Rightarrow> Inl e
      | Inr found \<Rightarrow>
          let r = (case found of
               Some data_offset \<Rightarrow>
                 if data_offset > cursor
                 then tail_run_new caps data_offset True False
                   (g\<lparr>sparse_bytes_skipped := saturating_add (sparse_bytes_skipped g) (data_offset - cursor)\<rparr>)
                 else tail_run_new caps cursor skip False g
             | None \<Rightarrow> tail_run_new caps cursor skip True g)
          in case te_seek_start env of Some e \<Rightarrow> Inl e | None \<Rightarrow> Inr r)"

definition read_opened_file ::
    "tail_env \<Rightarrow> string \<Rightarrow> parser_kind \<Rightarrow> tail_state option \<Rightarrow> bool \<Rightarrow> tail_caps \<Rightarrow> log_file
       \<Rightarrow> tail_error + tail_batch" where
  "read_opened_file env path parser st start_at_beginning caps file =
     (case te_metadata env of
        Some e \<Rightarrow> Inl e
      | None \<Rightarrow>
          let file_size = length (lf_bytes file) in
          case initial_offset path parser st start_at_beginning file_size (lf_identity file) no_gaps of
            (cursor, skip, g) \<Rightarrow>
              if file_size \<le> cursor
              then Inr \<lparr>tb_lines = [], tb_gaps = g,
                     tb_next = Some (next_state path parser (lf_identity file) cursor skip), tb_unread = 0\<rparr>
              else
                case start_run env caps file_size (apply_backlog_guard file_size caps cursor skip g) of
                  Inl e \<Rightarrow> Inl e
                | Inr r \<Rightarrow>
                    case tail_loop env caps (lf_bytes file) r of
                      Inl e \<Rightarrow> Inl e
                    | Inr r' \<Rightarrow> Inr (finish_batch path parser file (account_budget env caps r')))"

definition read_batch ::
    "tail_env \<Rightarrow> string \<Rightarrow> parser_kind \<Rightarrow> tail_state option \<Rightarrow> bool \<Rightarrow> tail_caps \<Rightarrow> log_file
       \<Rightarrow> tail_error + tail_batch" where
  "read_batch env path parser st start_at_beginning caps file =
     (case te_open env of
        NotFound \<Rightarrow> Inr \<lparr>tb_lines = [], tb_gaps = no_gaps\<lparr>missing_files := 1\<rparr>, tb_next = st, tb_unread = 0\<rparr>
      | OpenFailed e \<Rightarrow> Inl (OsFailure e)
      | Opened \<Rightarrow> read_opened_file env path parser st start_at_beginning caps file)"

end
