(* ===== verification/Log_State.thy ===== *)
theory Log_State
  imports Log_Tail
begin

text \<open>
  The state file of the log tailer (\<open>crates/kronika-source-log/src/state.rs\<close>): \<open>render\<close> writes the saved position as
  \<open>key=value\<close> lines, \<open>parse_state\<close> reads them back, ignoring what it does not know.  Paths are UTF-8 text, so
  that \<open>Path::display\<close> is the text itself; numbers are \<open>u64\<close>.
\<close>

section \<open>Numbers and lines of text\<close>

fun display_nat :: "nat \<Rightarrow> string" where
  "display_nat n =
     (if n < 10 then [char_of (48 + n)] else display_nat (n div 10) @ [char_of (48 + n mod 10)])"

declare display_nat.simps [simp del]

definition digit :: "char \<Rightarrow> bool" where
  "digit c \<longleftrightarrow> 48 \<le> (of_char c :: nat) \<and> (of_char c :: nat) \<le> 57"

definition decimal_value :: "string \<Rightarrow> nat" where
  "decimal_value s = foldl (\<lambda>n c. 10 * n + (of_char c - 48)) 0 s"

text \<open>\<open>str::parse::<u64>\<close>: an optional plus sign, digits, and a value that fits.\<close>

definition parse_u64 :: "string \<Rightarrow> nat option" where
  "parse_u64 s =
     (let ds = (case s of CHR ''+'' # c # cs \<Rightarrow> c # cs | _ \<Rightarrow> s) in
      if ds \<noteq> [] \<and> list_all digit ds \<and> decimal_value ds < 2 ^ 64 then Some (decimal_value ds) else None)"

definition strip_cr :: "string \<Rightarrow> string" where
  "strip_cr s = (if s \<noteq> [] \<and> last s = CHR 0x0D then butlast s else s)"

text \<open>\<open>str::lines\<close>: a line that ends with its newline also loses one carriage return before it.\<close>

function text_lines :: "string \<Rightarrow> string list" where
  "text_lines s =
     (case dropWhile (\<lambda>c. c \<noteq> CHR 0x0A) s of
        [] \<Rightarrow> if s = [] then [] else [s]
      | newline # rest \<Rightarrow> strip_cr (takeWhile (\<lambda>c. c \<noteq> CHR 0x0A) s) # text_lines rest)"
  by pat_completeness auto

termination text_lines
proof (relation "measure length", simp, goal_cases)
  case (1 s newline rest)
  then have "length (newline # rest) \<le> length s" by (metis length_dropWhile_le)
  then show ?case by simp
qed

declare text_lines.simps [simp del]

definition split_once :: "char \<Rightarrow> string \<Rightarrow> (string \<times> string) option" where
  "split_once sep s =
     (case dropWhile (\<lambda>c. c \<noteq> sep) s of
        [] \<Rightarrow> None
      | _ # rest \<Rightarrow> Some (takeWhile (\<lambda>c. c \<noteq> sep) s, rest))"

section \<open>The state file\<close>

fun parser_name :: "parser_kind \<Rightarrow> string" where
  "parser_name Stderr = ''stderr''"
| "parser_name Csvlog = ''csvlog''"
| "parser_name Unknown = ''unknown''"

definition parser_of_name :: "string \<Rightarrow> parser_kind option" where
  "parser_of_name s =
     (if s = ''stderr'' then Some Stderr else if s = ''csvlog'' then Some Csvlog
      else if s = ''unknown'' then Some Unknown else None)"

definition display_bool :: "bool \<Rightarrow> string" where
  "display_bool b = (if b then ''true'' else ''false'')"

definition text_line :: "string \<Rightarrow> string" where
  "text_line s = s @ [CHR 0x0A]"

definition render :: "tail_state \<Rightarrow> string" where
  "render st =
     text_line ''version=1'' @ text_line (''path='' @ ts_path st) @ text_line (''dev='' @ display_nat (ts_dev st))
     @ text_line (''inode='' @ display_nat (ts_inode st)) @ text_line (''offset='' @ display_nat (ts_offset st))
     @ text_line (''parser='' @ parser_name (ts_parser st))
     @ text_line (''skip_until_newline='' @ display_bool (ts_skip st))"

record parsed_state =
  ps_path :: "string option"
  ps_dev :: "nat option"
  ps_inode :: "nat option"
  ps_offset :: "nat option"
  ps_parser :: "parser_kind option"
  ps_skip :: bool

definition parse_entry :: "parsed_state \<Rightarrow> string \<Rightarrow> parsed_state" where
  "parse_entry p line =
     (case split_once CHR ''='' line of
        None \<Rightarrow> p
      | Some (key, val) \<Rightarrow>
          if key = ''path'' then p\<lparr>ps_path := Some val\<rparr>
          else if key = ''dev'' then p\<lparr>ps_dev := parse_u64 val\<rparr>
          else if key = ''inode'' then p\<lparr>ps_inode := parse_u64 val\<rparr>
          else if key = ''offset'' then p\<lparr>ps_offset := parse_u64 val\<rparr>
          else if key = ''parser'' then p\<lparr>ps_parser := parser_of_name val\<rparr>
          else if key = ''skip_until_newline'' then p\<lparr>ps_skip := (val = ''true'')\<rparr>
          else p)"

definition parse_state :: "string \<Rightarrow> tail_state option" where
  "parse_state text =
     (let p = foldl parse_entry
        \<lparr>ps_path = None, ps_dev = None, ps_inode = None, ps_offset = None, ps_parser = None, ps_skip = False\<rparr>
        (text_lines text) in
      case (ps_path p, ps_dev p, ps_inode p, ps_offset p, ps_parser p) of
        (Some path, Some dev, Some inode, Some offset, Some parser) \<Rightarrow>
          Some \<lparr>ts_path = path, ts_dev = dev, ts_inode = inode, ts_offset = offset, ts_parser = parser, ts_skip = ps_skip p\<rparr>
      | _ \<Rightarrow> None)"

section \<open>Round trip\<close>

lemma display_nat_digits: "display_nat n \<noteq> [] \<and> list_all digit (display_nat n)"
proof (induction n rule: display_nat.induct)
  case (1 n)
  have one: "digit (char_of (48 + d :: nat))" if "d < 10" for d using that by (simp add: digit_def)
  show ?case using 1 one [of n] one [of "n mod 10"] by (subst (1 2) display_nat.simps) simp
qed

lemma digits_display: "decimal_value (display_nat n) = n"
proof (induction n rule: display_nat.induct)
  case (1 n)
  have one: "of_char (char_of (48 + d :: nat)) - 48 = d" if "d < 10" for d using that by simp
  show ?case using 1 one [of n] one [of "n mod 10"] by (subst display_nat.simps) (simp add: decimal_value_def)
qed

lemma parse_display: "n < 2 ^ 64 \<Longrightarrow> parse_u64 (display_nat n) = Some n"
proof -
  assume n: "n < 2 ^ 64"
  obtain c cs where cs: "display_nat n = c # cs" using display_nat_digits by (meson neq_Nil_conv)
  have "c \<noteq> CHR ''+''" using display_nat_digits [of n] by (auto simp: cs digit_def)
  then have "(case display_nat n of CHR ''+'' # c # cs \<Rightarrow> c # cs | _ \<Rightarrow> display_nat n) = display_nat n"
    by (simp add: cs split: list.splits char.splits bool.splits)
  then show ?thesis using display_nat_digits digits_display n by (simp add: parse_u64_def)
qed

lemma text_lines_line:
  assumes "CHR 0x0A \<notin> set s"
  shows "text_lines (text_line s @ rest) = strip_cr s # text_lines rest"
proof -
  have all: "\<And>c. c \<in> set s \<Longrightarrow> c \<noteq> CHR 0x0A" using assms by auto
  have "takeWhile (\<lambda>c. c \<noteq> CHR 0x0A) (s @ CHR 0x0A # rest) = s"
    "dropWhile (\<lambda>c. c \<noteq> CHR 0x0A) (s @ CHR 0x0A # rest) = CHR 0x0A # rest"
    by (subst takeWhile_append2 dropWhile_append2, erule all, simp)+
  then show ?thesis unfolding text_lines.simps [of "text_line s @ rest"]
    by (simp only: text_line_def append.assoc append_Cons append_Nil list.case)
qed

lemma no_control:
  assumes "list_all digit s" shows "CHR 0x0A \<notin> set s" and "strip_cr (k @ s) = (if s = [] then strip_cr k else k @ s)"
proof -
  have "\<not> digit CHR 0x0A" "\<not> digit CHR 0x0D" by (simp_all add: digit_def)
  then show "CHR 0x0A \<notin> set s" "strip_cr (k @ s) = (if s = [] then strip_cr k else k @ s)"
    using assms by (auto simp: strip_cr_def list_all_iff dest: last_in_set)
qed

text \<open>
  Reading back a saved position gives the position: for every state whose path has no newline, the parsed state
  is the saved one, except that a carriage return at the end of the path is lost.
\<close>

theorem state_roundtrip:
  assumes "CHR 0x0A \<notin> set (ts_path st)"
    and "ts_dev st < 2 ^ 64" and "ts_inode st < 2 ^ 64" and "ts_offset st < 2 ^ 64"
  shows "parse_state (render st) = Some (st\<lparr>ts_path := strip_cr (ts_path st)\<rparr>)"
proof -
  have numbers: "CHR 0x0A \<notin> set (key @ display_nat n)" "strip_cr (key @ display_nat n) = key @ display_nat n"
    if "CHR 0x0A \<notin> set key" for key n
    using display_nat_digits [of n] no_control that by auto
  have path: "strip_cr (''path='' @ p) = ''path='' @ strip_cr p" for p by (auto simp: strip_cr_def)
  have names: "CHR 0x0A \<notin> set (''parser='' @ parser_name k)" "strip_cr (''parser='' @ parser_name k) = ''parser='' @ parser_name k"
    "parser_of_name (parser_name k) = Some k" for k
    by (cases k; simp add: strip_cr_def parser_of_name_def)+
  have bools: "CHR 0x0A \<notin> set (''skip_until_newline='' @ display_bool b)"
    "strip_cr (''skip_until_newline='' @ display_bool b) = ''skip_until_newline='' @ display_bool b"
    "(display_bool b = ''true'') = b" for b
    by (cases b; simp add: strip_cr_def display_bool_def)+
  have line: "text_lines (text_line l @ rest) = l # text_lines rest"
    if "CHR 0x0A \<notin> set l" "strip_cr l = l" for l rest using text_lines_line [OF that(1)] that(2) by simp
  have last: "text_lines (text_line l) = [l]" if "CHR 0x0A \<notin> set l" "strip_cr l = l" for l
    using line [OF that, of "[]"] by (simp add: text_lines.simps [of "[]"])
  have version: "CHR 0x0A \<notin> set ''version=1''" "strip_cr ''version=1'' = ''version=1''" by (simp_all add: strip_cr_def)
  have path_line: "text_lines (text_line (''path='' @ ts_path st) @ rest) = (''path='' @ strip_cr (ts_path st)) # text_lines rest" for rest
    using text_lines_line [of "''path='' @ ts_path st" rest] assms(1) by (simp only: path) simp
  have dev: "CHR 0x0A \<notin> set ''dev=''" and inode: "CHR 0x0A \<notin> set ''inode=''" and offset: "CHR 0x0A \<notin> set ''offset=''"
    by simp_all
  have lines: "text_lines (render st) = [''version=1'', ''path='' @ strip_cr (ts_path st), ''dev='' @ display_nat (ts_dev st),
      ''inode='' @ display_nat (ts_inode st), ''offset='' @ display_nat (ts_offset st),
      ''parser='' @ parser_name (ts_parser st), ''skip_until_newline='' @ display_bool (ts_skip st)]"
    unfolding render_def line [OF version] path_line line [OF numbers(1,2) [OF dev]] line [OF numbers(1,2) [OF inode]]
      line [OF numbers(1,2) [OF offset]] line [OF names(1,2)] last [OF bools(1,2)] by (rule refl)
  have entries: "parse_entry p ''version=1'' = p" "parse_entry p (''path='' @ v) = p\<lparr>ps_path := Some v\<rparr>"
    "parse_entry p (''dev='' @ v) = p\<lparr>ps_dev := parse_u64 v\<rparr>" "parse_entry p (''inode='' @ v) = p\<lparr>ps_inode := parse_u64 v\<rparr>"
    "parse_entry p (''offset='' @ v) = p\<lparr>ps_offset := parse_u64 v\<rparr>"
    "parse_entry p (''parser='' @ v) = p\<lparr>ps_parser := parser_of_name v\<rparr>"
    "parse_entry p (''skip_until_newline='' @ v) = p\<lparr>ps_skip := (v = ''true'')\<rparr>" for p v
    by (simp_all add: parse_entry_def split_once_def)
  show ?thesis
    unfolding parse_state_def lines foldl_Cons foldl_Nil entries names(3) bools(3) using assms by (simp add: parse_display)
qed

theorem state_roundtrip_witness:
  "parse_state (render \<lparr>ts_path = ''/var/log/pg'', ts_dev = 10, ts_inode = 20, ts_offset = 2 ^ 63, ts_parser = Stderr,
      ts_skip = True\<rparr>)
    = Some \<lparr>ts_path = ''/var/log/pg'', ts_dev = 10, ts_inode = 20, ts_offset = 2 ^ 63, ts_parser = Stderr, ts_skip = True\<rparr>"
  by (subst state_roundtrip) (simp_all add: strip_cr_def)

end
