(* ===== verification/Log_Tail_Exact.thy ===== *)
theory Log_Tail_Exact
  imports Log_Tail
begin

text \<open>
  What the batches of the log tailer deliver.  \<open>log_records\<close> says which record each physical line gives; a
  byte machine computes the same records one byte at a time; the loops of the code are proved to take the steps of
  that machine, however the bytes are cut into buffers and batches.
\<close>

section \<open>The records of a log\<close>

text \<open>A line that is empty or has a NUL byte gives none; a line over the cap gives its prefix, marked.\<close>

definition line_record :: "nat \<Rightarrow> nat \<Rightarrow> u8 list \<Rightarrow> tail_line list" where
  "line_record cap off l =
     (if l = [] \<or> 0 \<in> set l then []
      else if length l \<le> cap then [\<lparr>tl_offset = off, tl_bytes = l, tl_truncated = False\<rparr>]
      else [\<lparr>tl_offset = off, tl_bytes = take cap l, tl_truncated = True\<rparr>])"

text \<open>An unfinished line at the end counts once it is over the cap.\<close>

function log_records :: "nat \<Rightarrow> nat \<Rightarrow> u8 list \<Rightarrow> tail_line list" where
  "log_records cap off bs =
     (let l = takeWhile (\<lambda>b. b \<noteq> 10) bs in
      case dropWhile (\<lambda>b. b \<noteq> 10) bs of
        [] \<Rightarrow> if length l \<le> cap then [] else line_record cap off l
      | newline # rest \<Rightarrow> line_record cap off l @ log_records cap (off + length l + 1) rest)"
  by pat_completeness auto

termination log_records
proof (relation "measure (\<lambda>(cap, off, bs). length bs)", simp, goal_cases)
  case (1 cap off bs l newline rest)
  then have "length (newline # rest) \<le> length bs" by (metis length_dropWhile_le)
  then show ?case by simp
qed

declare log_records.simps [simp del]

lemma log_records_unfinished:
  "10 \<notin> set bs \<Longrightarrow> log_records cap off bs = (if length bs \<le> cap then [] else line_record cap off bs)"
proof -
  assume none: "10 \<notin> set bs"
  have "takeWhile (\<lambda>b. b \<noteq> 10) bs = bs" "dropWhile (\<lambda>b. b \<noteq> 10) bs = []"
    using none by (auto simp: takeWhile_eq_all_conv dropWhile_eq_Nil_conv)
  then show ?thesis unfolding log_records.simps [of cap off bs] by (simp only: Let_def list.case)
qed

lemma log_records_line:
  assumes "10 \<notin> set l"
  shows "log_records cap off (l @ 10 # rest) = line_record cap off l @ log_records cap (off + length l + 1) rest"
proof -
  have all: "\<And>b. b \<in> set l \<Longrightarrow> b \<noteq> 10" using assms by auto
  have "takeWhile (\<lambda>b. b \<noteq> 10) (l @ 10 # rest) = l" "dropWhile (\<lambda>b. b \<noteq> 10) (l @ 10 # rest) = 10 # rest"
    by (subst takeWhile_append2 dropWhile_append2, erule all, simp)+
  then show ?thesis unfolding log_records.simps [of cap off "l @ 10 # rest"] by (simp only: Let_def list.case)
qed

text \<open>
  The code looks for NUL bytes in a whole buffer before it applies the cap, so a NUL that follows the prefix of an
  over-long line may or may not be seen first.  The exact statements are about logs without such lines.
\<close>

primrec early_nuls :: "nat \<Rightarrow> nat \<Rightarrow> u8 list \<Rightarrow> bool" where
  "early_nuls cap k [] = True"
| "early_nuls cap k (b # bs) =
     (if b = 10 then early_nuls cap 0 bs else (b = 0 \<longrightarrow> k \<le> cap) \<and> early_nuls cap (k + 1) bs)"

lemma early_nuls_mono: "early_nuls cap k bs \<Longrightarrow> j \<le> k \<Longrightarrow> early_nuls cap j bs"
  by (induction bs arbitrary: j k) (auto split: if_splits)

lemma early_nuls_append: "early_nuls cap k (xs @ ys) \<Longrightarrow> early_nuls cap k xs \<and> (\<exists>j. early_nuls cap j ys)"
  by (induction xs arbitrary: k) (auto split: if_splits)

lemma early_nuls_drop: "early_nuls cap k bs \<Longrightarrow> \<exists>j. early_nuls cap j (drop n bs)"
  using early_nuls_append [of cap k "take n bs" "drop n bs"] by simp

lemma early_nuls_segment:
  "early_nuls cap k (s @ rest) \<Longrightarrow> 10 \<notin> set s \<Longrightarrow> early_nuls cap (k + length s) rest"
  by (induction s arbitrary: k) (auto split: if_splits simp flip: add_Suc)

lemma early_nul_at:
  "early_nuls cap k (s @ 0 # rest) \<Longrightarrow> 10 \<notin> set s \<Longrightarrow> k + length s \<le> cap"
  using early_nuls_segment [of cap k s "0 # rest"] by (simp split: if_splits)

section \<open>The byte machine\<close>

text \<open>The start and the stored bytes of the current line, and whether the rest of it is skipped.\<close>

type_synonym line_state = "nat \<times> u8 list \<times> bool"

fun line_step :: "nat \<Rightarrow> nat \<Rightarrow> line_state \<Rightarrow> u8 \<Rightarrow> tail_line list \<times> line_state" where
  "line_step cap pos (start, line, skip) b =
     (if b = 10
      then (if \<not> skip \<and> line \<noteq> [] then [\<lparr>tl_offset = start, tl_bytes = line, tl_truncated = False\<rparr>] else [],
            (pos + 1, [], False))
      else if skip then ([], (start, line, True))
      else if b = 0 then ([], (start, [], True))
      else if length line < cap then ([], (start, line @ [b], False))
      else ([\<lparr>tl_offset = start, tl_bytes = line, tl_truncated = True\<rparr>], (start, [], True)))"

primrec emitted :: "nat \<Rightarrow> nat \<Rightarrow> line_state \<Rightarrow> u8 list \<Rightarrow> tail_line list" where
  "emitted cap pos s [] = []"
| "emitted cap pos s (b # bs) = fst (line_step cap pos s b) @ emitted cap (pos + 1) (snd (line_step cap pos s b)) bs"

primrec after :: "nat \<Rightarrow> nat \<Rightarrow> line_state \<Rightarrow> u8 list \<Rightarrow> line_state" where
  "after cap pos s [] = s"
| "after cap pos s (b # bs) = after cap (pos + 1) (snd (line_step cap pos s b)) bs"

declare line_step.simps [simp del]

lemma emitted_append:
  "emitted cap pos s (xs @ ys) = emitted cap pos s xs @ emitted cap (pos + length xs) (after cap pos s xs) ys"
  by (induction xs arbitrary: pos s) auto

lemma after_append: "after cap pos s (xs @ ys) = after cap (pos + length xs) (after cap pos s xs) ys"
  by (induction xs arbitrary: pos s) auto

lemma skipping:
  assumes "10 \<notin> set s"
  shows "emitted cap pos (start, line, True) s = []" and "after cap pos (start, line, True) s = (start, line, True)"
  using assms by (induction s arbitrary: pos) (auto simp: line_step.simps)

lemma storing:
  assumes "10 \<notin> set s" and "0 \<notin> set s" and "length line + length s \<le> cap"
  shows "emitted cap pos (start, line, False) s = []"
    and "after cap pos (start, line, False) s = (start, line @ s, False)"
  using assms by (induction s arbitrary: pos line) (auto simp: line_step.simps)

lemma truncating:
  assumes s: "10 \<notin> set s" "0 \<notin> set s" and over: "cap < length line + length s" and line: "length line \<le> cap"
  shows "emitted cap pos (start, line, False) s =
      [\<lparr>tl_offset = start, tl_bytes = line @ take (cap - length line) s, tl_truncated = True\<rparr>]"
    and "after cap pos (start, line, False) s = (start, [], True)"
proof -
  define p where "p = take (cap - length line) s"
  have len: "length line + length p = cap" using over line by (simp add: p_def)
  have "drop (cap - length line) s \<noteq> []" using over line by simp
  then obtain b t where bt: "drop (cap - length line) s = b # t" by (cases "drop (cap - length line) s") auto
  have parts: "s = p @ b # t" using append_take_drop_id [of "cap - length line" s] by (simp only: p_def bt)
  have clean: "10 \<notin> set p" "0 \<notin> set p" "b \<noteq> 10" "b \<noteq> 0" "10 \<notin> set t" using s by (auto simp: parts)
  note stored = storing [OF clean(1,2), of line cap pos start]
  have "after cap (pos + length p) (start, line @ p, False) [b] = (start, [], True)"
    "emitted cap (pos + length p) (start, line @ p, False) [b] =
       [\<lparr>tl_offset = start, tl_bytes = line @ p, tl_truncated = True\<rparr>]"
    using clean len by (simp_all add: line_step.simps)
  then have "emitted cap pos (start, line, False) (p @ [b] @ t) =
      [\<lparr>tl_offset = start, tl_bytes = line @ p, tl_truncated = True\<rparr>]"
    "after cap pos (start, line, False) (p @ [b] @ t) = (start, [], True)"
    using stored len skipping [OF clean(5), of cap _ start "[]"] by (simp_all only: emitted_append after_append) simp_all
  moreover have "s = p @ [b] @ t" by (simp add: parts)
  ultimately show "emitted cap pos (start, line, False) s =
      [\<lparr>tl_offset = start, tl_bytes = line @ take (cap - length line) s, tl_truncated = True\<rparr>]"
    "after cap pos (start, line, False) s = (start, [], True)"
    unfolding p_def [symmetric] by (simp_all only:)
qed

lemma dropping:
  assumes s: "10 \<notin> set s" "0 \<in> set s" and early: "early_nuls cap k (s @ rest)" and line: "length line \<le> k"
  shows "emitted cap pos (start, line, False) s = []" and "after cap pos (start, line, False) s = (start, [], True)"
proof -
  obtain p t where parts: "s = p @ 0 # t" "0 \<notin> set p" using split_list_first [OF s(2)] by blast
  have clean: "10 \<notin> set p" "10 \<notin> set t" using s(1) by (auto simp: parts(1))
  have "k + length p \<le> cap" using early_nul_at [of cap k p "t @ rest"] early clean by (simp add: parts(1))
  then have fits: "length line + length p \<le> cap" using line by simp
  note stored = storing [OF clean(1) parts(2) fits, of pos start]
  have zero: "line_step cap q (start, line @ p, False) 0 = ([], (start, [], True))" for q
    by (simp add: line_step.simps)
  show "emitted cap pos (start, line, False) s = []"
    "after cap pos (start, line, False) s = (start, [], True)"
    unfolding parts(1) emitted_append after_append stored emitted.simps after.simps zero
    by (simp_all add: skipping [OF clean(2)])
qed

lemma stored_bounded: "length line \<le> cap \<Longrightarrow> after cap pos (start, line, skip) bs = (start', line', skip') \<Longrightarrow> length line' \<le> cap"
proof (induction bs arbitrary: pos start line skip)
  case Nil
  then show ?case by simp
next
  case (Cons b bs)
  obtain s l k where step: "snd (line_step cap pos (start, line, skip) b) = (s, l, k)" by (metis prod_cases3)
  have "length l \<le> cap" using step Cons.prems(1) by (auto simp: line_step.simps split: if_splits)
  then show ?case using Cons.IH [of l "pos + 1" s k] Cons.prems(2) by (simp add: step)
qed

text \<open>The start of a skipped line plays no role.\<close>

lemma skip_start: "emitted cap pos (a, [], True) bs = emitted cap pos (c, [], True) bs
    \<and> (after cap pos (a, [], True) bs = (a, [], True) \<and> after cap pos (c, [], True) bs = (c, [], True)
       \<or> after cap pos (a, [], True) bs = after cap pos (c, [], True) bs)"
proof (induction bs arbitrary: pos)
  case Nil
  then show ?case by simp
next
  case (Cons b bs)
  then show ?case by (cases "b = 10") (auto simp: line_step.simps)
qed

text \<open>A stored line is the end of what was read, and nothing is emitted while it is stored.\<close>

lemma clean_cut:
  assumes "after cap o1 (o1, [], skip) D = (start, line, False)"
  shows "\<exists>D1. D = D1 @ line \<and> start = o1 + length D1 \<and> emitted cap o1 (o1, [], skip) D1 = emitted cap o1 (o1, [], skip) D
    \<and> after cap o1 (o1, [], skip) D1 = (start, [], False)"
  using assms
proof (induction D arbitrary: start line rule: rev_induct)
  case Nil
  then show ?case by simp
next
  case (snoc b D)
  obtain s l k where before: "after cap o1 (o1, [], skip) D = (s, l, k)" by (metis prod_cases3)
  have now: "snd (line_step cap (o1 + length D) (s, l, k) b) = (start, line, False)"
    using snoc.prems by (simp add: after_append before)
  show ?case
  proof (cases "b = 10")
    case True
    then show ?thesis using now snoc.prems
      by (intro exI [of _ "D @ [b]"]) (auto simp: line_step.simps)
  next
    case False
    then have k: "k = False" "s = start" "line = l @ [b]" "fst (line_step cap (o1 + length D) (s, l, k) b) = []"
      using now by (auto simp: line_step.simps split: if_splits)
    obtain D1 where "D = D1 @ l" "start = o1 + length D1"
      "emitted cap o1 (o1, [], skip) D1 = emitted cap o1 (o1, [], skip) D"
      "after cap o1 (o1, [], skip) D1 = (start, [], False)"
      using snoc.IH [of s l] before k(1,2) by auto
    moreover have "emitted cap o1 (o1, [], skip) (D @ [b]) = emitted cap o1 (o1, [], skip) D"
      using k(4) by (simp add: emitted_append before)
    ultimately show ?thesis using k(3) by (intro exI [of _ D1]) simp
  qed
qed

text \<open>The machine computes the records of the log.\<close>

lemma line_record_machine:
  assumes "10 \<notin> set l" and early: "early_nuls cap k (l @ rest)"
  shows "emitted cap pos (start, [], False) l @ (if newline then fst (line_step cap p (after cap pos (start, [], False) l) 10) else [])
    = (if newline \<or> cap < length l then line_record cap start l else [])"
proof -
  consider "0 \<in> set l" | "0 \<notin> set l" "length l \<le> cap" | "0 \<notin> set l" "cap < length l" by linarith
  then show ?thesis
  proof cases
    case 1
    then show ?thesis using dropping [OF assms(1) 1 early, of "[]"]
      by (simp add: line_record_def line_step.simps)
  next
    case 2
    then show ?thesis using storing [OF assms(1) 2(1), of "[]"]
      by (auto simp: line_record_def line_step.simps)
  next
    case 3
    then have "l \<noteq> []" by auto
    then show ?thesis using truncating [OF assms(1) 3(1), of cap "[]"] 3
      by (simp add: line_record_def line_step.simps)
  qed
qed

lemma machine_log_records:
  "early_nuls cap k bs \<Longrightarrow> emitted cap off (off, [], False) bs = log_records cap off bs"
proof (induction bs arbitrary: off k rule: length_induct)
  case (1 bs)
  show ?case
  proof (cases "10 \<in> set bs")
    case False
    then show ?thesis using line_record_machine [of bs cap k "[]" off off False] 1(2)
      by (simp add: log_records_unfinished)
  next
    case True
    then obtain l rest where parts: "bs = l @ 10 # rest" "10 \<notin> set l" using split_list_first [of 10 bs] by blast
    have early: "early_nuls cap k (l @ 10 # rest)" using 1(2) by (simp add: parts(1))
    have rest: "early_nuls cap 0 rest" using early_nuls_segment [OF early parts(2)] by simp
    obtain s l' k' where mid: "after cap off (off, [], False) l = (s, l', k')" by (metis prod_cases3)
    have nl: "snd (line_step cap (off + length l) (s, l', k') 10) = (off + length l + 1, [], False)"
      by (simp add: line_step.simps)
    have "emitted cap off (off, [], False) bs =
        (emitted cap off (off, [], False) l @ fst (line_step cap (off + length l) (after cap off (off, [], False) l) 10))
        @ emitted cap (off + length l + 1) (off + length l + 1, [], False) rest"
      by (simp add: parts(1) emitted_append mid nl)
    also have "\<dots> = line_record cap off l @ log_records cap (off + length l + 1) rest"
      using line_record_machine [OF parts(2) early, of off off True "off + length l"]
        1(1) [rule_format, of rest 0 "off + length l + 1"] rest
      by (simp add: parts(1))
    finally show ?thesis by (simp add: parts(1) log_records_line [OF parts(2)])
  qed
qed

section \<open>The loops take the machine's steps\<close>

definition line_state_of :: "tail_run \<Rightarrow> line_state" where
  "line_state_of r = (tr_line_start r, tr_line r, tr_skip r)"

text \<open>What the loops keep about the committed offset and the flags.\<close>

definition tail_settled :: "tail_run \<Rightarrow> bool" where
  "tail_settled r \<longleftrightarrow> (tr_truncated r \<longrightarrow> tr_skip r) \<and> tr_committed r \<le> tr_cursor r
     \<and> (\<not> tr_skip r \<longrightarrow> tr_committed r = tr_line_start r) \<and> (tr_skip r \<longrightarrow> tr_line r = [])"

text \<open>The gap counters that tell of bytes not read as lines.\<close>

definition losses :: "tail_gaps \<Rightarrow> nat \<times> nat \<times> nat" where
  "losses g = (backlog_bytes_skipped g, sparse_bytes_skipped g, rotations g)"

text \<open>A run with the lines, the position and the line state of the machine after \<open>bs\<close>.\<close>

definition steps_to :: "nat \<Rightarrow> tail_run \<Rightarrow> u8 list \<Rightarrow> tail_run \<Rightarrow> bool" where
  "steps_to cap r bs r' \<longleftrightarrow>
     tr_cursor r' = tr_cursor r + length bs
     \<and> tr_lines r' = tr_lines r @ emitted cap (tr_cursor r) (line_state_of r) bs
     \<and> line_state_of r' = after cap (tr_cursor r) (line_state_of r) bs
     \<and> tail_settled r' \<and> losses (tr_gaps r') = losses (tr_gaps r)"

lemma steps_to_refl: "tail_settled r \<Longrightarrow> steps_to cap r [] r"
  by (simp add: steps_to_def)

lemma steps_to_trans: "steps_to cap r xs r' \<Longrightarrow> steps_to cap r' ys r'' \<Longrightarrow> steps_to cap r (xs @ ys) r''"
  by (simp add: steps_to_def emitted_append after_append)

lemma steps_to_settled: "steps_to cap r bs r' \<Longrightarrow> tail_settled r'"
  by (simp add: steps_to_def)

lemma looked [simp]:
  "tr_cursor (snd (look env caps r)) = tr_cursor r" "tr_lines (snd (look env caps r)) = tr_lines r"
  "line_state_of (snd (look env caps r)) = line_state_of r" "tail_settled (snd (look env caps r)) = tail_settled r"
  "tr_gaps (snd (look env caps r)) = tr_gaps r"
  by (simp_all add: look_def line_state_of_def tail_settled_def)

lemma steps_to_look [simp]: "steps_to cap (snd (look env caps r)) bs r' = steps_to cap r bs r'"
  by (simp add: steps_to_def)

lemma steps_to_looked: "tail_settled r \<Longrightarrow> steps_to cap r [] (snd (look env caps r))"
  by (simp add: steps_to_def)

text \<open>A piece of a line without its newline.\<close>

lemma consume_segment_steps:
  assumes tail_settled: "tail_settled r" and s: "10 \<notin> set s"
    and early: "early_nuls (max_line_len caps) k (s @ rest)" and k: "\<not> tr_skip r \<longrightarrow> length (tr_line r) \<le> k"
    and line: "length (tr_line r) \<le> max_line_len caps"
    and room: "tr_cursor r + length s < usize_limit"
    and r': "r' = advance (length s) (consume_segment caps s r)"
  shows "steps_to (max_line_len caps) r s r'"
proof -
  have state: "line_state_of r = (tr_line_start r, tr_line r, tr_skip r)" by (simp add: line_state_of_def)
  have cursor: "tr_cursor r' = tr_cursor r + length s"
    using room by (simp add: r' advance_def consume_segment_def saturating_add_def Let_def)
  have rest: "losses (tr_gaps r') = losses (tr_gaps r)"
    by (simp add: losses_def r' advance_def consume_segment_def Let_def)
  consider "s = []" | "s \<noteq> []" "tr_skip r" | "s \<noteq> []" "\<not> tr_skip r" "0 \<in> set s"
    | "s \<noteq> []" "\<not> tr_skip r" "0 \<notin> set s" "length (tr_line r) + length s \<le> max_line_len caps"
    | "s \<noteq> []" "\<not> tr_skip r" "0 \<notin> set s" "max_line_len caps < length (tr_line r) + length s"
    by linarith
  then show ?thesis
  proof cases
    case 1
    then show ?thesis using tail_settled cursor rest
      by (simp add: steps_to_def r' advance_def consume_segment_def line_state_of_def tail_settled_def)
  next
    case 2
    then show ?thesis using tail_settled cursor rest skipping [OF s] state
      by (simp add: steps_to_def r' advance_def consume_segment_def line_state_of_def tail_settled_def saturating_add_def)
  next
    case 3
    have fit: "length (tr_line r) \<le> k" using k 3(2) by simp
    show ?thesis using 3 tail_settled cursor rest dropping [OF s 3(3) early fit] state
      by (simp add: steps_to_def r' advance_def consume_segment_def line_state_of_def tail_settled_def saturating_add_def)
  next
    case 4
    have "length s \<le> max_line_len caps - length (tr_line r)" using 4(4) by simp
    then show ?thesis using 4 tail_settled cursor rest storing [OF s 4(3,4)] state
      by (simp add: steps_to_def r' advance_def consume_segment_def line_state_of_def tail_settled_def saturating_add_def)
  next
    case 5
    have "\<not> length s \<le> max_line_len caps - length (tr_line r)" using 5(4) line by simp
    then show ?thesis using 5 tail_settled cursor rest truncating [OF s 5(3,4) line] state
      by (simp add: steps_to_def r' advance_def consume_segment_def line_state_of_def tail_settled_def saturating_add_def Let_def)
  qed
qed

lemma finish_line_steps:
  assumes "tail_settled r" and "tr_cursor r + 1 < usize_limit"
  shows "steps_to cap r [10] (finish_line r)"
  using assms
  by (auto simp: steps_to_def finish_line_def losses_def saturating_add_def line_state_of_def tail_settled_def line_step.simps Let_def)

lemma pause_line_steps: "steps_to cap r bs r' \<Longrightarrow> steps_to cap r bs (pause_line r')"
  by (auto simp: steps_to_def pause_line_def line_state_of_def tail_settled_def)

text \<open>What a settled run of the machine still holds of the current line.\<close>

definition tail_within :: "nat \<Rightarrow> tail_run \<Rightarrow> u8 list \<Rightarrow> bool" where
  "tail_within cap r bs \<longleftrightarrow> tail_settled r \<and> length (tr_line r) \<le> cap \<and> tr_cursor r + length bs < usize_limit
     \<and> (\<exists>k. early_nuls cap k bs \<and> (\<not> tr_skip r \<longrightarrow> length (tr_line r) \<le> k))"

primrec column :: "nat \<Rightarrow> u8 list \<Rightarrow> nat" where
  "column k [] = k"
| "column k (b # bs) = column (if b = 10 then 0 else k + 1) bs"

lemma early_nuls_column: "early_nuls cap k (xs @ ys) \<Longrightarrow> early_nuls cap (column k xs) ys"
  by (induction xs arbitrary: k) (auto split: if_splits)

lemma stored_column:
  "\<not> skip \<longrightarrow> length line \<le> k \<Longrightarrow> after cap pos (start, line, skip) bs = (start', line', skip')
     \<Longrightarrow> \<not> skip' \<longrightarrow> length line' \<le> column k bs"
proof (induction bs arbitrary: pos start line skip k)
  case Nil
  then show ?case by simp
next
  case (Cons b bs)
  obtain s l j where step: "snd (line_step cap pos (start, line, skip) b) = (s, l, j)" by (metis prod_cases3)
  have "\<not> j \<longrightarrow> length l \<le> (if b = 10 then 0 else k + 1)"
    using step Cons.prems(1) by (auto simp: line_step.simps split: if_splits)
  then show ?case using Cons.IH [of j l "if b = 10 then 0 else k + 1" "pos + 1" s] Cons.prems(2) by (simp add: step)
qed

lemma within_steps:
  assumes "tail_within cap r (xs @ ys)" and "steps_to cap r xs r'"
  shows "tail_within cap r' ys"
proof -
  obtain k where k: "early_nuls cap k (xs @ ys)" "\<not> tr_skip r \<longrightarrow> length (tr_line r) \<le> k"
    and bound: "length (tr_line r) \<le> cap" "tr_cursor r + length (xs @ ys) < usize_limit"
    using assms(1) by (auto simp: tail_within_def)
  have state: "after cap (tr_cursor r) (tr_line_start r, tr_line r, tr_skip r) xs = (tr_line_start r', tr_line r', tr_skip r')"
    using assms(2) by (simp add: steps_to_def line_state_of_def)
  have "length (tr_line r') \<le> cap" by (rule stored_bounded [OF bound(1) state])
  moreover have "\<not> tr_skip r' \<longrightarrow> length (tr_line r') \<le> column k xs" by (rule stored_column [OF k(2) state])
  ultimately show ?thesis
    using early_nuls_column [OF k(1)] assms(2) bound(2) by (auto simp: tail_within_def steps_to_def)
qed

lemma segment_within:
  assumes "tail_within (max_line_len caps) r (s @ rest)" and "10 \<notin> set s"
  shows "steps_to (max_line_len caps) r s (advance (length s) (consume_segment caps s r))"
  using assms consume_segment_steps [of r s caps _ rest] by (auto simp: tail_within_def)

lemma scan_chunk_steps:
  assumes "tail_within (max_line_len caps) r (buf @ ahead)" and "scan_chunk env caps buf r = (rest, r')"
  shows "\<exists>xs. buf = xs @ rest \<and> steps_to (max_line_len caps) r xs r'"
  using assms
proof (induction buf arbitrary: r rule: length_induct)
  case (1 buf)
  let ?cap = "max_line_len caps" and ?r = "snd (look env caps r)"
  have tail_settled: "tail_settled r" and tail_within: "tail_within ?cap ?r (buf @ ahead)"
    using 1(2) by (auto simp: tail_within_def look_def tail_settled_def)
  show ?case
  proof (cases rule: scan_chunk_cases [of buf caps r env])
    case stop
    then show ?thesis using 1(3) tail_settled by (auto intro: steps_to_refl)
  next
    case deadline
    then show ?thesis using 1(3) tail_settled by (auto intro: steps_to_looked)
  next
    case partial
    then show ?thesis using 1(3) segment_within [OF tail_within partial(3)] by (auto dest: pause_line_steps)
  next
    case (complete segment buf')
    let ?r1 = "advance (length segment) (consume_segment caps segment ?r)"
    have w: "tail_within ?cap ?r (segment @ 10 # buf' @ ahead)" using tail_within by (simp add: complete(1))
    have s1: "steps_to ?cap ?r segment ?r1" by (rule segment_within [OF w complete(3)])
    have w1: "tail_within ?cap ?r1 ([10] @ buf' @ ahead)" using within_steps [OF w s1] by simp
    have s2: "steps_to ?cap ?r1 [10] (finish_line ?r1)"
      using w1 by (intro finish_line_steps) (auto simp: tail_within_def)
    have w2: "tail_within ?cap (finish_line ?r1) (buf' @ ahead)" by (rule within_steps [OF w1 s2])
    obtain xs where xs: "buf' = xs @ rest" "steps_to ?cap (finish_line ?r1) xs r'"
      using 1(1) [rule_format, of buf' "finish_line ?r1"] w2 1(3) complete(1,4) by auto
    have "steps_to ?cap r ((segment @ [10]) @ xs) r'"
      using steps_to_trans [OF steps_to_trans [OF s1 s2] xs(2)] by simp
    then show ?thesis using complete(1) xs(1) by (intro exI [of _ "segment @ [10] @ xs"]) simp
  qed
qed

text \<open>A turn of the outer loop that meets no hole.\<close>

lemma skip_hole_steps:
  assumes run: "skip_hole env caps buf r = (hole, r')" and buf: "buf \<noteq> []" and tail_settled: "tail_settled r"
  shows "if hole then sparse_bytes_skipped (tr_gaps r') \<noteq> 0 else steps_to cap r [] r'"
proof (cases "tr_verify r")
  case False
  then show ?thesis using run tail_settled by (auto simp: skip_hole_def intro: steps_to_refl)
next
  case True
  define r1 where "r1 = snd (look env caps r)"
  have looked: "look env caps r = (te_elapsed env (tr_looks r) \<ge> max_duration caps, r1)"
    by (simp add: look_def r1_def)
  have r1: "steps_to cap r [] r1" unfolding r1_def by (rule steps_to_looked [OF tail_settled])
  define filled where "filled = saturating_add (tr_cursor r1) (length buf)"
  define r2 where "r2 = r1\<lparr>tr_cursor := filled, tr_committed := filled, tr_skip := True,
      tr_gaps := (tr_gaps r1)\<lparr>sparse_bytes_skipped :=
        saturating_add (sparse_bytes_skipped (tr_gaps r1)) (length buf)\<rparr>\<rparr>"
  have eq: "skip_hole env caps buf r =
      (if te_elapsed env (tr_looks r) \<ge> max_duration caps then (False, r1)
       else if \<forall>b\<in>set buf. b = 0 then (True, r2) else (False, r1\<lparr>tr_verify := False\<rparr>))"
    unfolding skip_hole_def looked prod.case Let_def r2_def filled_def by (simp only: True if_True)
  have "sparse_bytes_skipped (tr_gaps r2) \<noteq> 0" using buf by (simp add: r2_def saturating_add_def)
  moreover have "steps_to cap r [] (r1\<lparr>tr_verify := False\<rparr>)"
    using r1 by (auto simp: steps_to_def line_state_of_def tail_settled_def)
  ultimately show ?thesis using run r1 unfolding eq by (simp only: split: if_splits) auto
qed

lemma exhaust_budget_steps: "steps_to cap r bs r' \<Longrightarrow> steps_to cap r bs (exhaust_budget r')"
  by (simp add: steps_to_def exhaust_budget_def losses_def line_state_of_def tail_settled_def)

lemma scan_chunk_sparse: "sparse_bytes_skipped (tr_gaps (snd (scan_chunk env caps rest r))) = sparse_bytes_skipped (tr_gaps r)"
proof (induction rest arbitrary: r rule: length_induct)
  case (1 rest)
  have step: "sparse_bytes_skipped (tr_gaps (advance n (consume_segment caps s r))) = sparse_bytes_skipped (tr_gaps r)"
    "sparse_bytes_skipped (tr_gaps (finish_line r)) = sparse_bytes_skipped (tr_gaps r)"
    "sparse_bytes_skipped (tr_gaps (pause_line r)) = sparse_bytes_skipped (tr_gaps r)" for n s r
    by (simp_all add: advance_def consume_segment_def finish_line_def pause_line_def Let_def)
  show ?case
  proof (cases rule: scan_chunk_cases [of rest caps r env])
    case (complete segment rest')
    then show ?thesis using 1 [rule_format, of rest'] by (simp add: step)
  qed (simp_all add: step)
qed

lemma scan_chunk_verify: "tr_verify (snd (scan_chunk env caps rest r)) = tr_verify r"
proof (induction rest arbitrary: r rule: length_induct)
  case (1 rest)
  have step: "tr_verify (advance n (consume_segment caps s r)) = tr_verify r" "tr_verify (finish_line r) = tr_verify r"
    "tr_verify (pause_line r) = tr_verify r" "tr_verify (snd (look env caps r)) = tr_verify r" for n s r
    by (simp_all add: advance_def consume_segment_def finish_line_def pause_line_def look_def Let_def)
  show ?case
  proof (cases rule: scan_chunk_cases [of rest caps r env])
    case (complete segment rest')
    then show ?thesis using 1 [rule_format, of rest'] by (simp add: step)
  qed (simp_all add: step)
qed

lemma skip_hole_sparse:
  "sparse_bytes_skipped (tr_gaps r) \<noteq> 0 \<Longrightarrow> sparse_bytes_skipped (tr_gaps (snd (skip_hole env caps buf r))) \<noteq> 0"
  by (simp add: skip_hole_def look_def saturating_add_def Let_def)

lemma tail_turn_steps:
  assumes turn: "tail_turn env caps bytes r = Inr (again, r')"
    and tail_within: "tail_within (max_line_len caps) r (drop (tr_cursor r) bytes)"
    and lossless: "sparse_bytes_skipped (tr_gaps r') = 0"
  shows "\<exists>xs ys. drop (tr_cursor r) bytes = xs @ ys \<and> steps_to (max_line_len caps) r xs r'
    \<and> (again \<longrightarrow> length xs + tr_remaining r' = tr_remaining r)"
proof -
  let ?cap = "max_line_len caps"
  have tail_settled: "tail_settled r" using tail_within by (simp add: tail_within_def)
  note still = steps_to_refl [OF tail_settled, of ?cap] steps_to_looked [OF tail_settled, of ?cap env caps]
  show ?thesis
  proof (cases rule: tail_turn_cases [of env caps bytes r])
    case (stop r0)
    then show ?thesis using turn still by auto
  next
    case failure
    then show ?thesis using turn by simp
  next
    case ended
    have "steps_to ?cap r [] ((snd (look env caps r))\<lparr>tr_reads := tr_reads r + 1\<rparr>)"
      using still(2) by (auto simp: steps_to_def line_state_of_def tail_settled_def)
    then show ?thesis using turn ended by auto
  next
    case (buffer n buf r2)
    have r2: "steps_to ?cap r [] r2" "tr_remaining r2 = tr_remaining r - n"
      using still(2) by (auto simp: buffer(7) steps_to_def line_state_of_def tail_settled_def)
    have length_buf: "length buf = n" using buffer(4) by (simp add: buffer(6))
    have split: "drop (tr_cursor r) bytes = buf @ drop n (drop (tr_cursor r) bytes)"
      by (simp only: buffer(6) append_take_drop_id)
    obtain hole r3 where hole: "skip_hole env caps buf r2 = (hole, r3)" by (metis prod.exhaust)
    have r3: "tr_remaining r3 = tr_remaining r - n" using skip_hole_remaining [of env caps buf r2] r2(2) by (simp add: hole)
    have not_hole: "\<not> hole"
      using turn lossless skip_hole_steps [OF hole _ steps_to_settled [OF r2(1)]] buffer(1) length_buf
      by (auto simp: buffer(8) hole)
    then have "steps_to ?cap r2 [] r3"
      using skip_hole_steps [OF hole _ steps_to_settled [OF r2(1)], of ?cap] buffer(1) length_buf by auto
    then have to3: "steps_to ?cap r [] r3" using steps_to_trans [OF r2(1)] by fastforce
    obtain rest r4 where scan: "scan_chunk env caps buf r3 = (rest, r4)" by (metis prod.exhaust)
    have r4: "tr_remaining r4 = tr_remaining r - n" using scan_chunk_remaining [of env caps buf r3] r3 by (simp add: scan)
    have "tail_within ?cap r ([] @ buf @ drop n (drop (tr_cursor r) bytes))"
      using tail_within by (simp only: append_Nil split [symmetric])
    then have "tail_within ?cap r3 (buf @ drop n (drop (tr_cursor r) bytes))" using to3 by (rule within_steps)
    then obtain xs where xs: "buf = xs @ rest" "steps_to ?cap r3 xs r4" using scan_chunk_steps [OF _ scan] by blast
    have to4: "steps_to ?cap r xs r4" using steps_to_trans [OF to3 xs(2)] by simp
    have result: "r' = (if rest \<noteq> [] then exhaust_budget r4 else r4)" "again \<longleftrightarrow> rest = []"
      using turn not_hole by (auto simp: buffer(8) hole scan split: if_splits)
    have "steps_to ?cap r xs r'" using to4 exhaust_budget_steps [OF to4] by (simp add: result(1))
    moreover have "again \<longrightarrow> length xs + tr_remaining r' = tr_remaining r"
      using xs(1) length_buf r4 buffer(3) by (auto simp: result)
    moreover have "drop (tr_cursor r) bytes = xs @ rest @ drop n (drop (tr_cursor r) bytes)"
      by (subst split) (simp only: xs(1) append.assoc)
    ultimately show ?thesis by blast
  qed
qed

lemma tail_turn_sparse:
  assumes "tail_turn env caps bytes r = Inr (again, r')" and "sparse_bytes_skipped (tr_gaps r) \<noteq> 0"
  shows "sparse_bytes_skipped (tr_gaps r') \<noteq> 0"
proof (cases rule: tail_turn_cases [of env caps bytes r])
  case (buffer n buf r2)
  have "sparse_bytes_skipped (tr_gaps r2) \<noteq> 0" using assms(2) by (simp add: buffer(7))
  then have kept: "sparse_bytes_skipped (tr_gaps (snd (skip_hole env caps buf r2))) \<noteq> 0" by (rule skip_hole_sparse)
  obtain hole r3 where hole: "skip_hole env caps buf r2 = (hole, r3)" by (metis prod.exhaust)
  obtain rest r4 where scan: "scan_chunk env caps buf r3 = (rest, r4)" by (metis prod.exhaust)
  show ?thesis
    using assms(1) kept scan_chunk_sparse [of env caps buf r3]
    by (auto simp: buffer(8) hole scan exhaust_budget_def split: if_splits)
qed (use assms in \<open>auto\<close>)

lemma tail_loop_sparse:
  "tail_loop env caps bytes r = Inr r' \<Longrightarrow> sparse_bytes_skipped (tr_gaps r) \<noteq> 0 \<Longrightarrow> sparse_bytes_skipped (tr_gaps r') \<noteq> 0"
proof (induction env caps bytes r rule: tail_loop.induct)
  case (1 env caps bytes r)
  obtain again r1 where turn: "tail_turn env caps bytes r = Inr (again, r1)"
    using 1(2) by (cases "tail_turn env caps bytes r") (auto simp: tail_loop.simps [of env caps bytes r])
  have "sparse_bytes_skipped (tr_gaps r1) \<noteq> 0" by (rule tail_turn_sparse [OF turn 1(3)])
  then show ?case using 1(1) [OF turn refl] 1(2) by (auto simp: tail_loop.simps [of env caps bytes r] turn split: if_splits)
qed

lemma tail_loop_steps:
  assumes "tail_loop env caps bytes r = Inr r'"
    and "tail_within (max_line_len caps) r (drop (tr_cursor r) bytes)" and "sparse_bytes_skipped (tr_gaps r') = 0"
  shows "\<exists>xs ys. drop (tr_cursor r) bytes = xs @ ys \<and> steps_to (max_line_len caps) r xs r'"
  using assms
proof (induction env caps bytes r rule: tail_loop.induct)
  case (1 env caps bytes r)
  obtain again r1 where turn: "tail_turn env caps bytes r = Inr (again, r1)"
    using 1(2) by (cases "tail_turn env caps bytes r") (auto simp: tail_loop.simps [of env caps bytes r])
  show ?case
  proof (cases again)
    case False
    then have "r' = r1" using 1(2) by (simp add: tail_loop.simps [of env caps bytes r] turn)
    then show ?thesis using tail_turn_steps [OF turn 1(3)] 1(4) by auto
  next
    case True
    then have loop: "tail_loop env caps bytes r1 = Inr r'" using 1(2) by (simp add: tail_loop.simps [of env caps bytes r] turn)
    have "sparse_bytes_skipped (tr_gaps r1) = 0" using tail_loop_sparse [OF loop] 1(4) by auto
    then obtain xs ys where xs: "drop (tr_cursor r) bytes = xs @ ys" "steps_to (max_line_len caps) r xs r1"
      using tail_turn_steps [OF turn 1(3)] by auto
    have "drop (tr_cursor r1) bytes = drop (length xs) (drop (tr_cursor r) bytes)"
      using xs(2) by (simp add: steps_to_def add.commute)
    then have next_drop: "drop (tr_cursor r1) bytes = ys" by (simp add: xs(1))
    then have "tail_within (max_line_len caps) r1 (drop (tr_cursor r1) bytes)"
      using within_steps [of _ r xs ys r1] 1(3) xs by simp
    then obtain xs' ys' where "ys = xs' @ ys'" "steps_to (max_line_len caps) r1 xs' r'"
      using 1(1) [OF turn refl True loop _ 1(4)] next_drop by auto
    then show ?thesis using steps_to_trans [OF xs(2)] xs(1) by (metis append.assoc)
  qed
qed

section \<open>One batch\<close>

lemma account_budget_steps: "steps_to cap r bs r' \<Longrightarrow> steps_to cap r bs (account_budget env caps r')"
proof -
  assume steps: "steps_to cap r bs r'"
  have "steps_to cap r bs (snd (look env caps r'))"
    using steps_to_trans [OF steps steps_to_looked [OF steps_to_settled [OF steps]]] by simp
  then show ?thesis
    using steps by (auto simp: account_budget_def split: prod.split intro: exhaust_budget_steps)
qed

lemma tail_run_new_within:
  assumes "cursor \<le> length bytes" and "length bytes < usize_limit" and "early_nuls cap 0 bytes"
  shows "tail_within cap (tail_run_new caps cursor skip verify g) (drop cursor bytes)"
  using assms early_nuls_drop [OF assms(3), of cursor] by (auto simp: tail_within_def tail_settled_def tail_run_new_def)

text \<open>Where a batch that reads on starts.\<close>

definition batch_start :: "tail_state option \<Rightarrow> bool \<Rightarrow> nat \<Rightarrow> nat \<times> bool" where
  "batch_start st start_at_beginning file_size =
     (case st of None \<Rightarrow> (if start_at_beginning then 0 else file_size, False) | Some s \<Rightarrow> (ts_offset s, ts_skip s))"

text \<open>A read from \<open>o\<close> to \<open>o'\<close>: the lines of the bytes between, and the state they leave.\<close>

definition reads_lines :: "nat \<Rightarrow> u8 list \<Rightarrow> nat \<times> bool \<Rightarrow> tail_line list \<Rightarrow> nat \<times> bool \<Rightarrow> bool" where
  "reads_lines cap bytes = (\<lambda>(o1, skip1) lines (o2, skip2).
     o1 \<le> o2 \<and> o2 \<le> length bytes \<and> lines = emitted cap o1 (o1, [], skip1) (subslice o1 o2 bytes)
     \<and> (\<exists>start. after cap o1 (o1, [], skip1) (subslice o1 o2 bytes) = (start, [], skip2) \<and> (\<not> skip2 \<longrightarrow> start = o2)))"

lemma resume_reads:
  assumes steps: "steps_to cap r xs r'" and r: "line_state_of r = (tr_cursor r, [], skip)" "tr_lines r = []"
    and bytes: "drop (tr_cursor r) bytes = xs @ ys" and bound: "tr_cursor r \<le> length bytes"
  shows "resume_offset r' \<le> length bytes
    \<and> reads_lines cap bytes (tr_cursor r, skip) (tr_lines r') (resume_offset r', tr_skip r' \<or> tr_truncated r')"
proof -
  let ?o = "tr_cursor r"
  have state: "after cap ?o (?o, [], skip) xs = (tr_line_start r', tr_line r', tr_skip r')"
    and lines: "tr_lines r' = emitted cap ?o (?o, [], skip) xs" and cursor: "tr_cursor r' = ?o + length xs"
    using steps by (simp_all add: steps_to_def r) (simp add: line_state_of_def)
  have tail_settled: "tail_settled r'" by (rule steps_to_settled [OF steps])
  have tail_within: "?o + length xs \<le> length bytes" using bytes bound by (metis length_append length_drop le_add1 le_diff_conv2 add.commute)
  have slice: "subslice ?o (?o + length zs) bytes = zs" if "xs = zs @ zs'" for zs zs'
    using bytes that by (simp add: subslice_def)
  show ?thesis
  proof (cases "tr_skip r'")
    case True
    have "tr_line r' = []" "resume_offset r' = ?o + length xs"
      using True tail_settled cursor by (auto simp: tail_settled_def resume_offset_def)
    then show ?thesis using True tail_within state lines slice [of xs "[]"] by (auto simp: reads_lines_def)
  next
    case False
    then obtain zs where zs: "xs = zs @ tr_line r'" "tr_line_start r' = ?o + length zs"
      "emitted cap ?o (?o, [], skip) zs = emitted cap ?o (?o, [], skip) xs"
      "after cap ?o (?o, [], skip) zs = (tr_line_start r', [], False)"
      using clean_cut state by (metis (full_types))
    have "resume_offset r' = ?o + length zs" "\<not> tr_truncated r'"
      using False tail_settled cursor zs(1,2) by (auto simp: tail_settled_def resume_offset_def)
    then show ?thesis using False tail_within lines zs slice [OF zs(1)] by (auto simp: reads_lines_def)
  qed
qed

lemma account_budget_losses: "losses (tr_gaps (account_budget env caps r)) = losses (tr_gaps r)"
  by (auto simp: account_budget_def exhaust_budget_def look_def losses_def)

lemma start_run_exact:
  assumes start: "start_run env caps file_size (cursor, skip, g) = Inr r" and lossless: "sparse_bytes_skipped (tr_gaps r) = 0"
  obtains verify where "r = tail_run_new caps cursor skip verify g"
proof -
  have gone: "sparse_bytes_skipped (tr_gaps (tail_run_new caps d k False
      (g\<lparr>sparse_bytes_skipped := saturating_add (sparse_bytes_skipped g) (d - cursor)\<rparr>))) \<noteq> 0" if "d > cursor" for d k
    using that by (simp add: tail_run_new_def saturating_add_def)
  obtain found where found: "seek_next_data env cursor file_size = Inr found" and started: "te_seek_start env = None"
    using start by (auto simp: start_run_def split: sum.splits option.splits)
  show thesis
  proof (cases found)
    case None
    then show thesis using start that [of True] by (simp add: start_run_def found started)
  next
    case (Some d)
    then have "r = (if d > cursor
        then tail_run_new caps d True False
          (g\<lparr>sparse_bytes_skipped := saturating_add (sparse_bytes_skipped g) (d - cursor)\<rparr>)
        else tail_run_new caps cursor skip False g)"
      using start by (simp add: start_run_def found started)
    then show thesis using that [of False] lossless gone [of d True] by (metis (full_types))
  qed
qed

lemma backlog_exact:
  "apply_backlog_guard file_size caps cursor skip g = (c, k, g') \<Longrightarrow> backlog_bytes_skipped g' = 0
     \<Longrightarrow> c = cursor \<and> k = skip \<and> g' = g"
  by (auto simp: apply_backlog_guard_def saturating_add_def Let_def split: if_splits)

lemma initial_exact:
  assumes "initial_offset path parser st sab file_size ident no_gaps = (cursor, skip, g)" and "rotations g = 0"
  shows "(cursor, skip) = batch_start st sab file_size \<and> g = no_gaps \<and> cursor \<le> file_size"
  using assms
  by (auto simp: initial_offset_def batch_start_def saturating_inc_def split: option.splits if_splits)

text \<open>A batch that skips no bytes reads the lines from where \<open>initial_offset\<close> puts it.\<close>

lemma opened_batch_from:
  assumes run: "read_opened_file env path parser st sab caps file = Inr b"
    and size: "length (lf_bytes file) < usize_limit" and early: "early_nuls (max_line_len caps) 0 (lf_bytes file)"
    and lossless: "backlog_bytes_skipped (tb_gaps b) = 0" "sparse_bytes_skipped (tb_gaps b) = 0"
    and initial: "initial_offset path parser st sab (length (lf_bytes file)) (lf_identity file) no_gaps = (o1, k1, g)"
    and bound: "o1 \<le> length (lf_bytes file)"
  shows "rotations (tb_gaps b) = rotations g
    \<and> (\<exists>o2 k2. tb_next b = Some (next_state path parser (lf_identity file) o2 k2)
         \<and> reads_lines (max_line_len caps) (lf_bytes file) (o1, k1) (tb_lines b) (o2, k2))"
proof -
  let ?bytes = "lf_bytes file" and ?cap = "max_line_len caps"
  have no_error: "te_metadata env = None" using run by (auto simp: read_opened_file_def split: option.splits)
  show ?thesis
  proof (cases "length ?bytes \<le> o1")
    case True
    then have b: "b = \<lparr>tb_lines = [], tb_gaps = g,
        tb_next = Some (next_state path parser (lf_identity file) o1 k1), tb_unread = 0\<rparr>"
      using run by (simp add: read_opened_file_def no_error initial)
    have "reads_lines ?cap ?bytes (o1, k1) [] (o1, k1)" using bound by (simp add: reads_lines_def subslice_def)
    then show ?thesis by (auto simp: b)
  next
    case False
    obtain c k g' where guard: "apply_backlog_guard (length ?bytes) caps o1 k1 g = (c, k, g')" by (metis prod_cases3)
    obtain r where start: "start_run env caps (length ?bytes) (c, k, g') = Inr r"
      using run False by (auto simp: read_opened_file_def no_error initial guard split: sum.splits)
    obtain r1 where loop: "tail_loop env caps ?bytes r = Inr r1"
      using run False by (auto simp: read_opened_file_def no_error initial guard start split: sum.splits)
    let ?r2 = "account_budget env caps r1"
    have b: "b = finish_batch path parser file ?r2"
      using run False by (simp add: read_opened_file_def no_error initial guard start loop)
    have counted: "losses (tb_gaps b) = losses (tr_gaps r1)"
      by (simp add: b finish_batch_def account_budget_losses Let_def)
    then have clean: "backlog_bytes_skipped (tr_gaps r1) = 0" "sparse_bytes_skipped (tr_gaps r1) = 0"
      using lossless by (simp_all add: losses_def)
    have "sparse_bytes_skipped (tr_gaps r) = 0" using tail_loop_sparse [OF loop] clean(2) by auto
    then obtain verify where r: "r = tail_run_new caps c k verify g'" by (rule start_run_exact [OF start])
    have c: "c \<le> length ?bytes"
      using guard False by (auto simp: apply_backlog_guard_def Let_def split: if_splits)
    have tail_within: "tail_within ?cap r (drop (tr_cursor r) ?bytes)"
      using tail_run_new_within [OF c size early] by (simp add: r tail_run_new_def)
    obtain xs ys where xs: "drop (tr_cursor r) ?bytes = xs @ ys" "steps_to ?cap r xs r1"
      using tail_loop_steps [OF loop tail_within clean(2)] by auto
    have kept: "losses (tr_gaps r1) = losses g'" using xs(2) by (simp add: steps_to_def r tail_run_new_def)
    then have "backlog_bytes_skipped g' = 0" using clean(1) by (simp add: losses_def)
    then have same: "c = o1" "k = k1" "g' = g" using backlog_exact [OF guard] by auto
    have "resume_offset ?r2 \<le> length ?bytes
      \<and> reads_lines ?cap ?bytes (o1, k1) (tr_lines ?r2) (resume_offset ?r2, tr_skip ?r2 \<or> tr_truncated ?r2)"
      using resume_reads [OF account_budget_steps [OF xs(2)], of k ?bytes ys env caps] xs(1) c
      by (simp add: r tail_run_new_def line_state_of_def same)
    moreover have "rotations (tb_gaps b) = rotations g" using counted kept same(3) by (simp add: losses_def)
    ultimately show ?thesis by (auto simp: b finish_batch_def Let_def min_absorb1)
  qed
qed

lemma opened_batch_exact:
  assumes run: "read_opened_file env path parser st sab caps file = Inr b"
    and size: "length (lf_bytes file) < usize_limit" and early: "early_nuls (max_line_len caps) 0 (lf_bytes file)"
    and lossless: "losses (tb_gaps b) = (0, 0, 0)"
  shows "\<exists>o2 skip2. tb_next b = Some (next_state path parser (lf_identity file) o2 skip2)
    \<and> reads_lines (max_line_len caps) (lf_bytes file) (batch_start st sab (length (lf_bytes file))) (tb_lines b) (o2, skip2)"
proof -
  obtain o1 k1 g where initial:
    "initial_offset path parser st sab (length (lf_bytes file)) (lf_identity file) no_gaps = (o1, k1, g)" by (metis prod_cases3)
  have bound: "o1 \<le> length (lf_bytes file)"
    using initial by (auto simp: initial_offset_def split: option.splits if_splits)
  have clean: "backlog_bytes_skipped (tb_gaps b) = 0" "sparse_bytes_skipped (tb_gaps b) = 0" "rotations (tb_gaps b) = 0"
    using lossless by (simp_all add: losses_def)
  note from_initial = opened_batch_from [OF run size early clean(1,2) initial bound]
  have "rotations g = 0" using from_initial clean(3) by simp
  then have "batch_start st sab (length (lf_bytes file)) = (o1, k1)" using initial_exact [OF initial] by simp
  then show ?thesis using from_initial by simp
qed

section \<open>Histories\<close>

lemma reads_lines_trans:
  assumes "reads_lines cap bytes a ls b" and "reads_lines cap bytes b ls' c"
  shows "reads_lines cap bytes a (ls @ ls') c"
proof -
  obtain o1 k1 o2 k2 o3 k3 where ends: "a = (o1, k1)" "b = (o2, k2)" "c = (o3, k3)" by (metis prod.exhaust)
  obtain s2 where ab: "o1 \<le> o2" "ls = emitted cap o1 (o1, [], k1) (subslice o1 o2 bytes)"
    "after cap o1 (o1, [], k1) (subslice o1 o2 bytes) = (s2, [], k2)" "\<not> k2 \<longrightarrow> s2 = o2" "o2 \<le> length bytes"
    using assms(1) by (auto simp: ends reads_lines_def)
  obtain s3 where bc: "o2 \<le> o3" "ls' = emitted cap o2 (o2, [], k2) (subslice o2 o3 bytes)"
    "after cap o2 (o2, [], k2) (subslice o2 o3 bytes) = (s3, [], k3)" "\<not> k3 \<longrightarrow> s3 = o3" "o3 \<le> length bytes"
    using assms(2) by (auto simp: ends reads_lines_def)
  have slices: "subslice o1 o3 bytes = subslice o1 o2 bytes @ subslice o2 o3 bytes"
    by (rule append_slices [OF ab(1) bc(1), symmetric])
  have reached: "o1 + length (subslice o1 o2 bytes) = o2" using ab(1,5) by (simp add: length_subslice)
  have from_s2: "emitted cap o2 (s2, [], k2) bs = emitted cap o2 (o2, [], k2) bs" for bs
    using ab(4) skip_start [of cap o2 s2 bs o2] by (cases k2) auto
  have "\<exists>s. after cap o2 (s2, [], k2) (subslice o2 o3 bytes) = (s, [], k3) \<and> (\<not> k3 \<longrightarrow> s = o3)"
    using ab(4) bc(3,4) skip_start [of cap o2 s2 "subslice o2 o3 bytes" o2] by (cases k2) auto
  then show ?thesis
    using ab(1) bc(1,5) unfolding ends reads_lines_def prod.case slices emitted_append after_append reached ab(2,3) bc(2) from_s2
    by auto
qed

text \<open>What was read stays read when the log grows.\<close>

lemma reads_lines_grow: "reads_lines cap bytes a ls b \<Longrightarrow> reads_lines cap (bytes @ added) a ls b"
  by (auto simp: reads_lines_def slice_append_left split: prod.splits)

end
