(* ===== verification/Log_Tail_History.thy ===== *)
theory Log_Tail_History
  imports Log_Tail_Exact
begin

text \<open>
  Sequences of batches of the log tailer: whatever the budgets, short reads and deadlines, the lines of the
  committed batches are the records of the log up to the saved offset; undisturbed batches reach the end of
  the log; and what a rotation of the file does.
\<close>

section \<open>Histories of committed batches\<close>

text \<open>
  The log grows between batches; a batch counts when its state is saved (\<open>commit\<close>).  The budgets may differ from
  batch to batch, the cap on a line stays.  The batches report no skipped bytes and no rotation.
\<close>

inductive log_history ::
    "string \<Rightarrow> parser_kind \<Rightarrow> log_identity \<Rightarrow> bool \<Rightarrow> nat \<Rightarrow> u8 list \<Rightarrow> tail_state option \<Rightarrow> tail_line list \<Rightarrow> bool"
  for path :: string and parser :: parser_kind and ident :: log_identity and sab :: bool and cap :: nat where
  history_new: "log_history path parser ident sab cap bytes None []"
| history_written: "log_history path parser ident sab cap bytes st ls
    \<Longrightarrow> log_history path parser ident sab cap (bytes @ added) st ls"
| history_batch: "log_history path parser ident sab cap bytes st ls \<Longrightarrow> max_line_len caps = cap
    \<Longrightarrow> read_batch env path parser st sab caps \<lparr>lf_identity = ident, lf_bytes = bytes\<rparr> = Inr b
    \<Longrightarrow> losses (tb_gaps b) = (0, 0, 0)
    \<Longrightarrow> log_history path parser ident sab cap bytes (tb_next b) (ls @ tb_lines b)"

lemma history_reads:
  assumes "log_history path parser ident sab cap bytes st ls"
  shows "length bytes < usize_limit \<Longrightarrow> early_nuls cap 0 bytes \<Longrightarrow>
    (case st of
       None \<Rightarrow> ls = []
     | Some s \<Rightarrow> s = next_state path parser ident (ts_offset s) (ts_skip s)
         \<and> (\<exists>o1. (sab \<longrightarrow> o1 = 0) \<and> reads_lines cap bytes (o1, False) ls (ts_offset s, ts_skip s)))"
  using assms
proof (induction rule: log_history.induct)
  case (history_new bytes)
  then show ?case by simp
next
  case (history_written bytes st ls added)
  then have before: "case st of None \<Rightarrow> ls = [] | Some s \<Rightarrow> s = next_state path parser ident (ts_offset s) (ts_skip s)
      \<and> (\<exists>o1. (sab \<longrightarrow> o1 = 0) \<and> reads_lines cap bytes (o1, False) ls (ts_offset s, ts_skip s))"
    using early_nuls_append [of cap 0 bytes added] by simp
  show ?case
  proof (cases st)
    case None
    then show ?thesis using before by simp
  next
    case (Some s)
    then show ?thesis using before reads_lines_grow by fastforce
  qed
next
  case (history_batch bytes st ls caps env b)
  let ?file = "\<lparr>lf_identity = ident, lf_bytes = bytes\<rparr>"
  note before = history_batch.IH [OF history_batch.prems]
  show ?case
  proof (cases "te_open env")
    case NotFound
    then have "tb_next b = st" "tb_lines b = []" using history_batch(3) by (auto simp: read_batch_def)
    then show ?thesis using before by (cases st) simp_all
  next
    case (OpenFailed e)
    then show ?thesis using history_batch(3) by (simp add: read_batch_def)
  next
    case Opened
    then have run: "read_opened_file env path parser st sab caps ?file = Inr b"
      using history_batch(3) by (simp add: read_batch_def)
    obtain o2 k2 where b: "tb_next b = Some (next_state path parser ident o2 k2)"
      "reads_lines cap bytes (batch_start st sab (length bytes)) (tb_lines b) (o2, k2)"
      using opened_batch_exact [OF run] history_batch.prems history_batch(2,4) by auto
    have "\<exists>o1. (sab \<longrightarrow> o1 = 0) \<and> reads_lines cap bytes (o1, False) (ls @ tb_lines b) (o2, k2)"
    proof (cases st)
      case None
      then show ?thesis using b(2) before by (auto simp: batch_start_def split: if_splits)
    next
      case (Some s)
      then obtain o1 where o1: "sab \<longrightarrow> o1 = 0" "reads_lines cap bytes (o1, False) ls (ts_offset s, ts_skip s)"
        using before by auto
      have "reads_lines cap bytes (ts_offset s, ts_skip s) (tb_lines b) (o2, k2)"
        using b(2) by (simp add: batch_start_def Some)
      then show ?thesis using o1 reads_lines_trans by blast
    qed
    then show ?thesis by (simp add: b(1) next_state_def)
  qed
qed

lemma reads_records:
  assumes "reads_lines cap bytes (o1, False) ls (o2, k2)" and "early_nuls cap 0 bytes"
  shows "ls = log_records cap o1 (subslice o1 o2 bytes)"
proof -
  obtain j where "early_nuls cap j (drop o1 bytes)" using early_nuls_drop [OF assms(2)] by blast
  then have "early_nuls cap j (subslice o1 o2 bytes)"
    using early_nuls_append [of cap j "take (o2 - o1) (drop o1 bytes)" "drop (o2 - o1) (drop o1 bytes)"]
    by (simp only: subslice_def append_take_drop_id)
  then show ?thesis using machine_log_records assms(1) by (simp add: reads_lines_def)
qed

lemma boundary:
  assumes "after cap o1 (o1, [], False) D = (start, [], False)" and "D \<noteq> []"
  shows "last D = 10"
proof -
  obtain D' b where D: "D = D' @ [b]" using assms(2) by (metis rev_exhaust)
  obtain s l k where before: "after cap o1 (o1, [], False) D' = (s, l, k)" by (metis prod_cases3)
  have "snd (line_step cap (o1 + length D') (s, l, k) b) = (start, [], False)"
    using assms(1) by (simp add: D after_append before)
  then show ?thesis by (auto simp: D line_step.simps split: if_splits)
qed

text \<open>
  C13. Batches that report no loss deliver every record exactly once and in order.  Take batches of one file that
  the server appends to, each from the state that the one before saved, that all report no bytes skipped by the
  backlog guard or over a hole and no rotation, with the same line cap throughout and any other budgets, deadlines
  and short reads.  Then the lines of all batches are the records of the bytes from the first offset to the saved
  one, and the saved offset is at the start of a line, unless the rest of an over-long or binary line is being
  skipped.  This is for a file below \<open>2^64\<close> bytes in which no NUL stands more than \<open>max_line_len\<close> bytes into its
  line (\<open>early_nuls\<close>).  Without the condition the statement is false: when the first NUL of a line comes later, the
  code drops the line if one read brings it whole, and delivers its truncated start if a read ends between the cap
  and the NUL (\<open>late_nul_depends_on_reads\<close>).
\<close>

theorem tail_exact:
  assumes "log_history path parser ident sab cap bytes (Some s) ls"
    and "length bytes < usize_limit" and "early_nuls cap 0 bytes"
  shows "\<exists>o1. (sab \<longrightarrow> o1 = 0) \<and> o1 \<le> ts_offset s \<and> ts_offset s \<le> length bytes
    \<and> ls = log_records cap o1 (subslice o1 (ts_offset s) bytes)
    \<and> (ts_skip s \<or> ts_offset s = o1 \<or> bytes ! (ts_offset s - 1) = 10)"
proof -
  obtain o1 where o1: "sab \<longrightarrow> o1 = 0" and reads: "reads_lines cap bytes (o1, False) ls (ts_offset s, ts_skip s)"
    using history_reads [OF assms(1-3)] by auto
  then have bounds: "o1 \<le> ts_offset s" "ts_offset s \<le> length bytes" by (auto simp: reads_lines_def)
  let ?D = "subslice o1 (ts_offset s) bytes"
  have "bytes ! (ts_offset s - 1) = 10" if "\<not> ts_skip s" "ts_offset s \<noteq> o1"
  proof -
    have len: "length ?D = ts_offset s - o1" using bounds by (simp add: length_subslice)
    then have "?D \<noteq> []" using that bounds by auto
    moreover have "last ?D = bytes ! (ts_offset s - 1)" if "?D \<noteq> []"
      using that len bounds by (auto simp: last_conv_nth subslice_def)
    ultimately show ?thesis using boundary [of cap o1 ?D] reads that(1) by (auto simp: reads_lines_def)
  qed
  then show ?thesis using o1 bounds reads_records [OF reads assms(3)] by blast
qed

section \<open>Undisturbed batches\<close>

text \<open>No deadline passes, no call fails, the file has no holes, and every read returns something.\<close>

definition calm :: "tail_caps \<Rightarrow> tail_env \<Rightarrow> bool" where
  "calm caps env \<longleftrightarrow> te_open env = Opened \<and> te_metadata env = None \<and> te_seek_start env = None
     \<and> (\<forall>off. te_seek_data env off = SeekFound (int off)) \<and> (\<forall>k. te_elapsed env k < max_duration caps)
     \<and> (\<forall>k n. 0 < n \<longrightarrow> (\<exists>m > 0. te_read env k n = Inr m))"

lemma calm_chunk:
  assumes "calm caps env" and "scan_chunk env caps rest r = (rest', r')" and "rest' \<noteq> []"
  shows "length (tr_lines r') \<ge> max_lines caps"
  using assms(2,3)
proof (induction rest arbitrary: r rule: length_induct)
  case (1 rest)
  show ?case
  proof (cases rule: scan_chunk_cases [of rest caps r env])
    case deadline
    moreover have "te_elapsed env (tr_looks r) < max_duration caps" using assms(1) by (simp add: calm_def)
    ultimately show ?thesis by simp
  next
    case (complete segment rest1)
    then show ?thesis using 1(1) [rule_format, of rest1] 1(2,3) by simp
  qed (use 1(2,3) in auto)
qed

lemma calm_turn:
  assumes calm: "calm caps env" and verify: "\<not> tr_verify r"
  shows "\<exists>again r'. tail_turn env caps bytes r = Inr (again, r') \<and> \<not> tr_verify r'
    \<and> sparse_bytes_skipped (tr_gaps r') = sparse_bytes_skipped (tr_gaps r)
    \<and> (\<not> again \<longrightarrow> length (tr_lines r') \<ge> max_lines caps
         \<or> (tr_remaining r = 0 \<or> tr_cursor r \<ge> length bytes) \<and> tr_cursor r' = tr_cursor r)"
proof -
  have quick: "te_elapsed env k < max_duration caps" for k using calm by (simp add: calm_def)
  have reads: "te_read env k n \<noteq> Inl e" "te_read env k n \<noteq> Inr 0" if "0 < n" for k n e
    using calm that unfolding calm_def by (metis sum.distinct(1), metis less_irrefl sum.inject(2))
  have looked: "\<not> tr_verify (snd (look env caps r))" using verify by (simp add: look_def)
  show ?thesis
  proof (cases rule: tail_turn_cases [of env caps bytes r])
    case (stop r')
    then show ?thesis using verify looked quick [of "tr_looks r"] by (cases "r' = r") auto
  next
    case (failure e m)
    then show ?thesis using reads by simp
  next
    case (ended m)
    then show ?thesis using reads by simp
  next
    case (buffer n buf r2)
    have r2: "\<not> tr_verify r2" "sparse_bytes_skipped (tr_gaps r2) = sparse_bytes_skipped (tr_gaps r)"
      using looked by (simp_all add: buffer(7))
    then have hole: "skip_hole env caps buf r2 = (False, r2)" by (simp add: skip_hole_def)
    obtain rest r4 where scan: "scan_chunk env caps buf r2 = (rest, r4)" by (metis prod.exhaust)
    have r4: "\<not> tr_verify r4" "sparse_bytes_skipped (tr_gaps r4) = sparse_bytes_skipped (tr_gaps r)"
      using scan_chunk_sparse [of env caps buf r2] scan_chunk_verify [of env caps buf r2] r2 by (simp_all add: scan)
    show ?thesis
    proof (cases "rest = []")
      case True
      then show ?thesis using r4 by (intro exI [of _ True] exI [of _ r4]) (simp add: buffer(8) hole scan)
    next
      case False
      then show ?thesis using r4 calm_chunk [OF calm scan]
        by (intro exI [of _ False] exI [of _ "exhaust_budget r4"]) (simp add: buffer(8) hole scan exhaust_budget_def)
    qed
  qed
qed

lemma calm_loop:
  assumes calm: "calm caps env"
  shows "\<not> tr_verify r \<Longrightarrow> tail_within (max_line_len caps) r (drop (tr_cursor r) bytes)
    \<Longrightarrow> sparse_bytes_skipped (tr_gaps r) = 0
    \<Longrightarrow> \<exists>r' xs ys. tail_loop env caps bytes r = Inr r' \<and> drop (tr_cursor r) bytes = xs @ ys
      \<and> steps_to (max_line_len caps) r xs r'
      \<and> (length (tr_lines r') \<ge> max_lines caps \<or> length bytes \<le> tr_cursor r' \<or> length xs = tr_remaining r)"
proof (induction "tr_remaining r" arbitrary: r rule: less_induct)
  case less
  let ?cap = "max_line_len caps"
  obtain again r1 where turn: "tail_turn env caps bytes r = Inr (again, r1)" and verify: "\<not> tr_verify r1"
    and sparse: "sparse_bytes_skipped (tr_gaps r1) = 0"
    and stop: "\<not> again \<longrightarrow> length (tr_lines r1) \<ge> max_lines caps
         \<or> (tr_remaining r = 0 \<or> tr_cursor r \<ge> length bytes) \<and> tr_cursor r1 = tr_cursor r"
    using calm_turn [OF calm less(2), of bytes] less(4) by auto
  obtain xs ys where xs: "drop (tr_cursor r) bytes = xs @ ys" "steps_to ?cap r xs r1"
    "again \<longrightarrow> length xs + tr_remaining r1 = tr_remaining r"
    using tail_turn_steps [OF turn less(3) sparse] by auto
  show ?case
  proof (cases again)
    case False
    have "tail_loop env caps bytes r = Inr r1" by (simp add: tail_loop.simps [of env caps bytes r] turn False)
    moreover have "length (tr_lines r1) \<ge> max_lines caps \<or> length bytes \<le> tr_cursor r1 \<or> length xs = tr_remaining r"
      using stop False xs(2) by (auto simp: steps_to_def)
    ultimately show ?thesis using xs(1,2) by blast
  next
    case True
    have going: "tail_turn env caps bytes r = Inr (True, r1)" using turn True by simp
    have "drop (tr_cursor r1) bytes = drop (length xs) (drop (tr_cursor r) bytes)"
      using xs(2) by (simp add: steps_to_def add.commute)
    then have next_drop: "drop (tr_cursor r1) bytes = ys" by (simp add: xs(1))
    then have "tail_within ?cap r1 (drop (tr_cursor r1) bytes)"
      using within_steps [of _ r xs ys r1] less(3) xs by simp
    then obtain r' xs' ys' where rest: "tail_loop env caps bytes r1 = Inr r'" "ys = xs' @ ys'" "steps_to ?cap r1 xs' r'"
      "length (tr_lines r') \<ge> max_lines caps \<or> length bytes \<le> tr_cursor r' \<or> length xs' = tr_remaining r1"
      using less(1) [OF tail_turn_decreases [OF going] verify _ sparse] next_drop by auto
    have "tail_loop env caps bytes r = Inr r'" by (simp add: tail_loop.simps [of env caps bytes r] turn True rest(1))
    moreover have "drop (tr_cursor r) bytes = (xs @ xs') @ ys'" by (simp add: xs(1) rest(2))
    moreover have "length xs' = tr_remaining r1 \<longrightarrow> length (xs @ xs') = tr_remaining r" using xs(3) True by simp
    ultimately show ?thesis using steps_to_trans [OF xs(2) rest(3)] rest(4) by blast
  qed
qed

text \<open>Positions where no record is left: the rest is no complete line and not over the cap.\<close>

definition drained :: "nat \<Rightarrow> u8 list \<Rightarrow> nat \<times> bool \<Rightarrow> bool" where
  "drained cap bytes = (\<lambda>(o1, k). o1 \<le> length bytes \<and> 10 \<notin> set (drop o1 bytes) \<and> length (drop o1 bytes) \<le> cap)"

lemma stored_no_newline:
  "10 \<notin> set line \<Longrightarrow> after cap pos (start, line, skip) bs = (start', line', skip') \<Longrightarrow> 10 \<notin> set line'"
proof (induction bs arbitrary: pos start line skip)
  case Nil
  then show ?case by simp
next
  case (Cons b bs)
  obtain s l k where step: "snd (line_step cap pos (start, line, skip) b) = (s, l, k)" by (metis prod_cases3)
  have "10 \<notin> set l" using step Cons.prems(1) by (auto simp: line_step.simps split: if_splits)
  then show ?case using Cons.IH [of l "pos + 1" s k] Cons.prems(2) by (simp add: step)
qed

lemma drained_silent:
  assumes "drained cap bytes (o1, k)" and "early_nuls cap j (drop o1 bytes)"
  shows "emitted cap o1 (o1, [], k) (drop o1 bytes) = []"
proof (cases k)
  case True
  then show ?thesis using assms(1) skipping(1) [of "drop o1 bytes" cap o1 o1 "[]"] by (simp add: drained_def)
next
  case False
  then show ?thesis
    using assms machine_log_records [OF assms(2), of o1] log_records_unfinished [of "drop o1 bytes" cap o1]
    by (simp add: drained_def)
qed

text \<open>The loop of an undisturbed batch moves on or nothing is left.\<close>

lemma calm_loop_progress:
  assumes r: "line_state_of r = (tr_cursor r, [], k)" "tr_lines r = []" "tr_cursor r < length bytes"
    and steps: "steps_to cap r xs r'" and bytes: "drop (tr_cursor r) bytes = xs @ ys"
    and ends: "length (tr_lines r') \<ge> m \<or> length bytes \<le> tr_cursor r' \<or> length xs = budget"
    and budgets: "0 < m" "cap < budget"
  shows "tr_cursor r < resume_offset r' \<or> drained cap bytes (tr_cursor r, k)"
proof -
  let ?o = "tr_cursor r"
  have state: "after cap ?o (?o, [], k) xs = (tr_line_start r', tr_line r', tr_skip r')"
    and lines: "tr_lines r' = emitted cap ?o (?o, [], k) xs" and cursor: "tr_cursor r' = ?o + length xs"
    using steps by (simp_all add: steps_to_def r) (simp add: line_state_of_def)
  have tail_settled: "tail_settled r'" by (rule steps_to_settled [OF steps])
  have nonempty: "xs \<noteq> []" using ends budgets r(3) cursor lines by auto
  show ?thesis
  proof (cases "tr_skip r'")
    case True
    then have "resume_offset r' = ?o + length xs" using tail_settled cursor by (auto simp: tail_settled_def resume_offset_def)
    then show ?thesis using nonempty by simp
  next
    case False
    then obtain zs where zs: "xs = zs @ tr_line r'" "tr_line_start r' = ?o + length zs"
      "emitted cap ?o (?o, [], k) zs = emitted cap ?o (?o, [], k) xs"
      using clean_cut state by (metis (full_types))
    have resume: "resume_offset r' = ?o + length zs"
      using False tail_settled cursor zs(1,2) by (auto simp: tail_settled_def resume_offset_def)
    show ?thesis
    proof (cases "zs = []")
      case True
      have short: "length xs \<le> cap" using stored_bounded [OF _ state] zs(1) True by simp
      moreover have "10 \<notin> set xs" using stored_no_newline [OF _ state] zs(1) True by simp
      moreover have "length bytes \<le> ?o + length xs"
        using ends budgets short zs(3) True lines cursor by auto
      moreover have "length bytes - ?o = length xs + length ys" using arg_cong [OF bytes, of length] by simp
      ultimately have all: "length ys = 0" "length bytes - ?o \<le> cap" by arith+
      then have "drop ?o bytes = xs" using bytes by simp
      then show ?thesis using r(3) all(2) \<open>10 \<notin> set xs\<close> by (simp add: drained_def)
    next
      case False
      then show ?thesis using resume by simp
    qed
  qed
qed

lemma calm_batch:
  assumes calm: "calm caps env" and caps: "0 < max_lines caps" "max_line_len caps < max_bytes caps"
    and size: "length bytes < 2 ^ 63" "length bytes \<le> max_backlog_bytes caps"
    and early: "early_nuls (max_line_len caps) 0 bytes"
    and st: "st = None \<or> st = Some (next_state path parser ident o1 k)"
    and start: "batch_start st True (length bytes) = (o1, k)" "o1 \<le> length bytes"
  shows "\<exists>b o2 k2. read_batch env path parser st True caps \<lparr>lf_identity = ident, lf_bytes = bytes\<rparr> = Inr b
    \<and> tb_next b = Some (next_state path parser ident o2 k2)
    \<and> reads_lines (max_line_len caps) bytes (o1, k) (tb_lines b) (o2, k2)
    \<and> (o1 < o2 \<or> drained (max_line_len caps) bytes (o1, k))"
proof -
  let ?file = "\<lparr>lf_identity = ident, lf_bytes = bytes\<rparr>" and ?cap = "max_line_len caps"
  have initial: "initial_offset path parser st True (length bytes) ident no_gaps = (o1, k, no_gaps)"
    using st start by (auto simp: initial_offset_def batch_start_def next_state_def)
  have opened: "read_batch env path parser st True caps ?file = read_opened_file env path parser st True caps ?file"
    using calm by (simp add: read_batch_def calm_def)
  have no_error: "te_metadata env = None" "te_seek_start env = None" "te_seek_data env o1 = SeekFound (int o1)"
    using calm by (simp_all add: calm_def)
  show ?thesis
  proof (cases "length bytes \<le> o1")
    case True
    then have "o1 = length bytes" using start(2) by simp
    then show ?thesis
      by (simp add: opened read_opened_file_def no_error initial reads_lines_def drained_def subslice_def)
        (rule exI [of _ "length bytes"]; simp)
  next
    case False
    let ?r = "tail_run_new caps o1 k False no_gaps"
    have guard: "apply_backlog_guard (length bytes) caps o1 k no_gaps = (o1, k, no_gaps)"
      using size(2) by (simp add: apply_backlog_guard_def Let_def)
    have begun: "start_run env caps (length bytes) (o1, k, no_gaps) = Inr ?r"
      using False size(1) by (simp add: start_run_def seek_next_data_def no_error)
    have tail_within: "tail_within ?cap ?r (drop (tr_cursor ?r) bytes)"
      using tail_run_new_within [OF start(2) _ early] size(1) by (simp add: tail_run_new_def)
    obtain r' xs ys where loop: "tail_loop env caps bytes ?r = Inr r'" "drop o1 bytes = xs @ ys" "steps_to ?cap ?r xs r'"
      "length (tr_lines r') \<ge> max_lines caps \<or> length bytes \<le> tr_cursor r' \<or> length xs = max_bytes caps"
      using calm_loop [OF calm _ tail_within] by (auto simp: tail_run_new_def no_gaps_def)
    let ?r2 = "account_budget env caps r'"
    have same: "tr_lines ?r2 = tr_lines r'" "tr_cursor ?r2 = tr_cursor r'"
      by (auto simp: account_budget_def exhaust_budget_def look_def)
    have fresh: "line_state_of ?r = (tr_cursor ?r, [], k)" "tr_lines ?r = []" "tr_cursor ?r = o1"
      by (simp_all add: tail_run_new_def line_state_of_def)
    have steps: "steps_to ?cap ?r xs ?r2" by (rule account_budget_steps [OF loop(3)])
    have reads: "resume_offset ?r2 \<le> length bytes"
      "reads_lines ?cap bytes (o1, k) (tr_lines ?r2) (resume_offset ?r2, tr_skip ?r2 \<or> tr_truncated ?r2)"
      using resume_reads [OF steps fresh(1,2), of bytes ys] loop(2) start(2) by (simp_all add: fresh(3))
    have "o1 < resume_offset ?r2 \<or> drained ?cap bytes (o1, k)"
      using calm_loop_progress [OF fresh(1,2) _ steps _ _ caps, of bytes ys] loop(2,4) False
      by (simp add: fresh(3) same)
    moreover have "read_batch env path parser st True caps ?file = Inr (finish_batch path parser ?file ?r2)"
      using False by (simp add: opened read_opened_file_def no_error initial guard begun loop(1))
    ultimately show ?thesis using reads by (simp add: finish_batch_def Let_def min_absorb1) blast
  qed
qed

text \<open>Batch after batch, each from the state the one before has saved.\<close>

primrec deliver ::
    "string \<Rightarrow> parser_kind \<Rightarrow> tail_caps \<Rightarrow> log_file \<Rightarrow> tail_env list \<Rightarrow> tail_state option
       \<Rightarrow> tail_error + tail_line list \<times> tail_state option" where
  "deliver path parser caps file [] st = Inr ([], st)"
| "deliver path parser caps file (env # envs) st =
     (case read_batch env path parser st True caps file of
        Inl e \<Rightarrow> Inl e
      | Inr b \<Rightarrow>
          (case deliver path parser caps file envs (tb_next b) of
             Inl e \<Rightarrow> Inl e
           | Inr (ls, st') \<Rightarrow> Inr (tb_lines b @ ls, st')))"

lemma deliver_reads:
  assumes caps: "0 < max_lines caps" "max_line_len caps < max_bytes caps"
    and size: "length bytes < 2 ^ 63" "length bytes \<le> max_backlog_bytes caps"
    and early: "early_nuls (max_line_len caps) 0 bytes"
  shows "\<forall>env\<in>set envs. calm caps env \<Longrightarrow> st = None \<or> st = Some (next_state path parser ident o1 k)
    \<Longrightarrow> batch_start st True (length bytes) = (o1, k) \<Longrightarrow> o1 \<le> length bytes
    \<Longrightarrow> \<exists>ls st' o2 k2. deliver path parser caps \<lparr>lf_identity = ident, lf_bytes = bytes\<rparr> envs st = Inr (ls, st')
      \<and> reads_lines (max_line_len caps) bytes (o1, k) ls (o2, k2)
      \<and> (length bytes \<le> o1 + length envs \<longrightarrow> ls = emitted (max_line_len caps) o1 (o1, [], k) (drop o1 bytes))"
proof (induction envs arbitrary: st o1 k)
  case Nil
  then show ?case by (auto simp: reads_lines_def subslice_def)
next
  case (Cons env envs)
  let ?file = "\<lparr>lf_identity = ident, lf_bytes = bytes\<rparr>" and ?cap = "max_line_len caps"
  obtain b o2 k2 where b: "read_batch env path parser st True caps ?file = Inr b"
    "tb_next b = Some (next_state path parser ident o2 k2)" "reads_lines ?cap bytes (o1, k) (tb_lines b) (o2, k2)"
    "o1 < o2 \<or> drained ?cap bytes (o1, k)"
    using calm_batch [OF _ caps size early Cons.prems(2-4), of env] Cons.prems(1) by auto
  have o2: "o2 \<le> length bytes" "o1 \<le> o2" using b(3) by (auto simp: reads_lines_def)
  obtain ls st' o3 k3 where later: "deliver path parser caps ?file envs (tb_next b) = Inr (ls, st')"
    "reads_lines ?cap bytes (o2, k2) ls (o3, k3)"
    "length bytes \<le> o2 + length envs \<longrightarrow> ls = emitted ?cap o2 (o2, [], k2) (drop o2 bytes)"
    using Cons.IH [of "tb_next b" o2 k2] Cons.prems(1) o2(1) b(2) by (auto simp: batch_start_def next_state_def)
  have all: "reads_lines ?cap bytes (o1, k) (tb_lines b @ ls) (o3, k3)" by (rule reads_lines_trans [OF b(3) later(2)])
  have "tb_lines b @ ls = emitted ?cap o1 (o1, [], k) (drop o1 bytes)" if enough: "length bytes \<le> o1 + length (env # envs)"
  proof (cases "drained ?cap bytes (o1, k)")
    case True
    obtain j where "early_nuls ?cap j (drop o1 bytes)" using early_nuls_drop [OF early] by blast
    then have silent: "emitted ?cap o1 (o1, [], k) (drop o1 bytes) = []" by (rule drained_silent [OF True])
    have "emitted ?cap o1 (o1, [], k) (take (o3 - o1) (drop o1 bytes) @ drop (o3 - o1) (drop o1 bytes)) = []"
      unfolding append_take_drop_id by (rule silent)
    then have "emitted ?cap o1 (o1, [], k) (subslice o1 o3 bytes) = []"
      by (simp only: emitted_append append_is_Nil_conv subslice_def)
    then show ?thesis using all silent by (simp add: reads_lines_def)
  next
    case False
    then have "o1 < o2" using b(4) by simp
    then have rest: "ls = emitted ?cap o2 (o2, [], k2) (drop o2 bytes)" using later(3) enough by simp
    obtain s2 where s2: "tb_lines b = emitted ?cap o1 (o1, [], k) (subslice o1 o2 bytes)"
      "after ?cap o1 (o1, [], k) (subslice o1 o2 bytes) = (s2, [], k2)" "\<not> k2 \<longrightarrow> s2 = o2"
      using b(3) by (auto simp: reads_lines_def)
    have "drop o1 bytes = subslice o1 o2 bytes @ drop o2 bytes"
      using append_take_drop_id [of "o2 - o1" "drop o1 bytes"] o2(2) by (simp add: subslice_def)
    moreover have "emitted ?cap o2 (s2, [], k2) bs = emitted ?cap o2 (o2, [], k2) bs" for bs
      using s2(3) skip_start [of ?cap o2 s2 bs o2] by (cases k2) auto
    moreover have "o1 + length (subslice o1 o2 bytes) = o2" using o2 by (simp add: length_subslice)
    ultimately show ?thesis by (simp add: emitted_append s2(1,2) rest)
  qed
  then show ?case using all by (simp add: b(1) later(1)) blast
qed

text \<open>
  C14. Bounded batches reach the end of the log.  Undisturbed batches, each started from the state the one before
  left, deliver all records of a log from its first byte, and as many batches as the log has bytes are enough; so the tailer
  never stays at one place.  Undisturbed means that the log does not change and has no holes, every call succeeds, no
  read is empty and no deadline passes (\<open>calm\<close>); the caps are the same in all batches.  It is assumed that a line over the cap fits a batch (the line cap is below the byte budget, as in the
  default caps) and that a batch may deliver a line; that the log is not longer than the backlog cap, above which
  the first batch skips to the tail of the log, and below \<open>2^63\<close> bytes, the largest offset of \<open>lseek\<close>; and that
  no NUL stands more than \<open>max_line_len\<close> bytes into its line (\<open>early_nuls\<close>, as for the exactness of batches).
\<close>

theorem tail_complete:
  assumes "0 < max_lines caps" and "max_line_len caps < max_bytes caps"
    and "length bytes < 2 ^ 63" and "length bytes \<le> max_backlog_bytes caps"
    and "early_nuls (max_line_len caps) 0 bytes"
    and "\<forall>env\<in>set envs. calm caps env" and "length bytes \<le> length envs"
  shows "\<exists>st. deliver path parser caps \<lparr>lf_identity = ident, lf_bytes = bytes\<rparr> envs None
    = Inr (log_records (max_line_len caps) 0 bytes, st)"
proof -
  have start: "batch_start None True (length bytes) = (0, False)" by (simp add: batch_start_def)
  show ?thesis
    using deliver_reads [OF assms(1-6) _ start] assms(7) machine_log_records [OF assms(5)] by auto
qed

section \<open>Rotation\<close>


section \<open>A small log\<close>

definition sample_caps :: tail_caps where
  "sample_caps = \<lparr>max_lines = 1, max_bytes = 8, max_duration = 50, max_line_len = 2, max_backlog_bytes = 64,
     backlog_tail_bytes = 16\<rparr>"

definition sample_env :: tail_env where
  "sample_env = \<lparr>te_open = Opened, te_metadata = None, te_seek_data = (\<lambda>off. SeekFound (int off)),
     te_seek_start = None, te_read = (\<lambda>k n. Inr n), te_elapsed = (\<lambda>k. 0)\<rparr>"

definition sample_ident :: log_identity where
  "sample_ident = \<lparr>li_dev = 7, li_inode = 11\<rparr>"

text \<open>The lines \<open>abc\<close>, over the cap, and \<open>x\<close>.\<close>

definition sample_log :: "u8 list" where
  "sample_log = [97, 98, 99, 10, 120, 10]"

lemmas sample_run_defs = sample_caps_def sample_env_def sample_ident_def sample_log_def read_batch_def
  read_opened_file_def initial_offset_def no_gaps_def next_state_def start_run_def seek_next_data_def
  apply_backlog_guard_def tail_run_new_def look_def READ_BUF_SIZE_def skip_hole_def consume_segment_def advance_def
  finish_line_def pause_line_def saturating_add_def saturating_inc_def account_budget_def exhaust_budget_def
  finish_batch_def resume_offset_def losses_def

lemma sample_first:
  "\<exists>b. read_batch sample_env ''log'' Stderr None True sample_caps \<lparr>lf_identity = sample_ident, lf_bytes = sample_log\<rparr> = Inr b
    \<and> tb_lines b = [\<lparr>tl_offset = 0, tl_bytes = [97, 98], tl_truncated = True\<rparr>] \<and> losses (tb_gaps b) = (0, 0, 0)
    \<and> tb_next b = Some (next_state ''log'' Stderr sample_ident 4 False)"
  by (simp add: sample_run_defs tail_loop.simps [of sample_env] tail_loop.simps scan_chunk.simps tail_turn_def Let_def)

lemma sample_calm: "calm sample_caps sample_env"
  by (simp add: calm_def sample_env_def sample_caps_def)

lemma sample_early: "early_nuls 2 0 sample_log" "max_line_len sample_caps = 2" "length sample_log = 6"
  by (simp_all add: sample_log_def sample_caps_def)

theorem tail_exact_witness:
  "\<exists>o1. (True \<longrightarrow> o1 = 0) \<and> o1 \<le> 4
    \<and> [\<lparr>tl_offset = 0, tl_bytes = [97, 98], tl_truncated = True\<rparr>] = log_records 2 o1 (subslice o1 4 sample_log)"
proof -
  obtain b where b: "read_batch sample_env ''log'' Stderr None True sample_caps
      \<lparr>lf_identity = sample_ident, lf_bytes = sample_log\<rparr> = Inr b"
    "tb_lines b = [\<lparr>tl_offset = 0, tl_bytes = [97, 98], tl_truncated = True\<rparr>]" "losses (tb_gaps b) = (0, 0, 0)"
    "tb_next b = Some (next_state ''log'' Stderr sample_ident 4 False)" using sample_first by blast
  have "log_history ''log'' Stderr sample_ident True 2 sample_log (tb_next b) ([] @ tb_lines b)"
    by (rule history_batch [OF history_new sample_early(2) b(1,3)])
  then have "log_history ''log'' Stderr sample_ident True 2 sample_log
      (Some (next_state ''log'' Stderr sample_ident 4 False)) [\<lparr>tl_offset = 0, tl_bytes = [97, 98], tl_truncated = True\<rparr>]"
    by (simp add: b(2,4))
  from tail_exact [OF this] show ?thesis using sample_early by (auto simp: next_state_def)
qed

theorem tail_complete_witness:
  "\<exists>st. deliver ''log'' Stderr sample_caps \<lparr>lf_identity = sample_ident, lf_bytes = sample_log\<rparr>
      (replicate 6 sample_env) None
    = Inr ([\<lparr>tl_offset = 0, tl_bytes = [97, 98], tl_truncated = True\<rparr>,
            \<lparr>tl_offset = 4, tl_bytes = [120], tl_truncated = False\<rparr>], st)"
proof -
  have records: "log_records 2 0 sample_log = [\<lparr>tl_offset = 0, tl_bytes = [97, 98], tl_truncated = True\<rparr>,
      \<lparr>tl_offset = 4, tl_bytes = [120], tl_truncated = False\<rparr>]"
    by (simp add: log_records.simps line_record_def sample_log_def)
  show ?thesis
    using tail_complete [of sample_caps sample_log "replicate 6 sample_env" "''log''" Stderr sample_ident]
      sample_calm sample_early records by (simp add: sample_caps_def)
qed

text \<open>
  The line \<open>abc\<close>, NUL, with a cap of two: one read of the whole line drops it, and a read of three bytes makes the
  same batch deliver its start.  Neither reports skipped bytes or a rotation.
\<close>

definition late_nul_log :: "u8 list" where
  "late_nul_log = [97, 98, 99, 0, 10]"

lemma late_nul_depends_on_reads:
  "\<exists>b. read_batch sample_env ''log'' Stderr None True sample_caps \<lparr>lf_identity = sample_ident, lf_bytes = late_nul_log\<rparr> = Inr b
    \<and> tb_lines b = [] \<and> losses (tb_gaps b) = (0, 0, 0)"
  "\<exists>b. read_batch (sample_env\<lparr>te_read := (\<lambda>k n. Inr (min 3 n))\<rparr>) ''log'' Stderr None True sample_caps
      \<lparr>lf_identity = sample_ident, lf_bytes = late_nul_log\<rparr> = Inr b
    \<and> tb_lines b = [\<lparr>tl_offset = 0, tl_bytes = [97, 98], tl_truncated = True\<rparr>] \<and> losses (tb_gaps b) = (0, 0, 0)"
  "\<not> early_nuls 2 0 late_nul_log"
  by (simp_all add: sample_run_defs late_nul_log_def tail_loop.simps scan_chunk.simps tail_turn_def Let_def)




end
