(* ===== verification/Spec2Isabelle.thy ===== *)
theory Spec2Isabelle
  imports Interner Layout_Scan_Exact Journal_Recovery Coverage Segment_Admission Segment_Correct
    Log_State Log_Tail_History
begin

text \<open>
  PgKronika records the diagnostic history of a PostgreSQL instance.  A collector reads statistics,
  buffers them as typed rows and lines of the server log, and appends one part per collection window to the journal
  \<open>active.parts\<close>; a full or old journal is sealed into an immutable PGM segment file under a calendar
  directory, and readers open segments and live parts.  This development models the storage path in
  between: the byte formats, the journal, the dictionaries that give strings their identities, the sealing
  of a journal into a segment and its publication, and the directory tree that holds the segments.

  \<^bold>\<open>Theories and code.\<close>
  \<^item> Prelude: machine integers, slices, little-endian codecs and the interface \<open>fixed_codec\<close> of the
    checksummed fixed-width records.  The checksum is a parameter of every definition that uses it.
  \<^item> Catalog (\<open>kronika-format/src/catalog.rs\<close>): the end catalog and tail index of a PGM, the zeroed-field
    checksum, and the layout check of its sections.
  \<^item> Journal_Frames, Parts (\<open>parts.rs\<close>): root header, reset marker and frame header; building and
    validating one PGM part.
  \<^item> Journal_Scan, Recovery_Scan (\<open>parts.rs\<close>, \<open>read_at.rs\<close>): the in-memory scanner, the strict and the
    bounded recovery scanner over an abstract reader (locale \<open>read_at\<close>, interpreted on byte slices).
  \<^item> Ordered_Map, Dictionary (\<open>dict.rs\<close>, \<open>str_id.rs\<close>), Interner (\<open>kronika-writer/src/interner.rs\<close>):
    content-addressed strings with placement and hot requirements, per segment and per window.
  \<^item> Layout_Time, Layout_Names, Layout_Scan, Layout_Scan_Exact (\<open>kronika-layout\<close>): the proleptic calendar
    behind segment addresses, the grammar of every file name of the data root, and the bounded
    traversal of the tree with its retry loop.
  \<^item> Journal (\<open>kronika-writer/src/journal.rs\<close>): the file-backed journal as a handle over a file whose next
    faults are given; Journal_Correct, Journal_Reset and Journal_Life hold its theory.
  \<^item> Journal_Recovery (\<open>kronika-writer/src/recovery.rs\<close>): the inspection of a journal file that does not
    open, and the replay of its verified parts into a fresh journal.
  \<^item> Section_Contract, Thrift_Input, Parquet_Preflight, Section_Codec (\<open>kronika-registry\<close>): the contracts of the
    section types and their linter, the bounded reader of Parquet metadata and the admission of a body
    before it is decoded, and the section codec over Arrow batches.
  \<^item> Map_Union, Dict_Codec (\<open>kronika-writer/src/dict.rs\<close>), Segment_Admission
    (\<open>pg_kronika-collector/src/segments.rs\<close>): unions of id-value lists, the dictionary sections with their size
    bounds, and the account that decides whether one more window still fits the open segment.
  \<^item> Pgm_Publish (\<open>PgmTemp\<close> in \<open>kronika-layout/src/root.rs\<close>): a day directory as files by inode, names, the names
    that a crash keeps and the outcomes of the next calls; creating, publishing and discarding a temporary.
  \<^item> Segment_Dictionary, Segment (\<open>kronika-writer/src/segment.rs\<close>): merging the dictionaries of a journal, and
    planning, building, validating and publishing its segment.  Segment_Format treats the bytes, Segment_Merge
    their content, Segment_Seal the attempts, Segment_Sample has an example journal, Segment_Correct the properties.
  \<^item> Log_Tail, Log_State (\<open>kronika-source-log/src/tailer.rs\<close>, \<open>state.rs\<close>): one bounded batch of lines of the server
    log and the text of the saved position.  Log_Tail_Exact relates its loops to a machine that reads one byte at a
    time, Log_Tail_History treats sequences of batches.
  \<^item> Coverage (\<open>kronika-analytics/src/overview/coverage.rs\<close>): the spans of time that the overview covers.

  \<^bold>\<open>State and operations.\<close>  A Rust struct is a record, an enum a datatype, \<open>Result\<close> a sum with the
  error on the left.  A \<open>&mut self\<close> method takes the state and returns it.  Sized integers of the byte
  formats are words; lengths and counters of type \<open>usize\<close> are natural numbers with checked or saturating
  addition at \<open>2 ^ 64\<close>.  A sorted map is an association list with its order as invariant (Ordered_Map).

  \<^bold>\<open>What the lemmas show.\<close>  The codecs are exact: a decoder accepts the encodings and nothing else.  A
  valid part consists of the bodies, entries and catalog that the builder writes and of nothing else; only its
  format version and window count are not checked.  The scanners recover every valid
  frame in front of the first damage, report damage as disjoint regions that tile the file, and agree
  with each other.  The dictionaries keep their byte count and resolve every identity they issued, in
  any insertion order.  The traversal returns exactly the segments that path lookup finds, within its
  limits.  The journal refines a list of parts: appends are atomic under every sequence of I/O faults,
  a committed reset completes after any number of crashes, every reachable handle, opened or made over a
  fresh slot, is sound or poisoned, and a part reference never reads another part.  Recovery calls a file clean exactly
  when \<open>open\<close> accepts it without rewriting it, verifies every leading frame that append has written, and replays
  exactly the verified parts, or a prefix of them when it fails.  An admitted Parquet body is what its footer declares, whatever the
  parser of its metadata does the reader stays bounded, and a sealed section depends only on its rows.
  Windows are admitted exactly when one sealed segment can hold them.  A built segment passes every validation
  and holds the merged rows and dictionaries of its journal; publication is atomic and replaces nothing; after any failures and crashes the final name is free or denotes
  the complete segment, the next undisturbed attempt succeeds, and no later crash takes the segment away.  The
  batches of the log tailer that report no loss deliver exactly the records of the log, in whatever pieces it is read,
  and within the backlog cap they reach its end; both need that no NUL stands behind the line cap, where the code
  depends on the pieces.  A rotation during a skipped line costs the first line of the new file.  Coverage is the
  canonical normal form of the set of its points, with exact durations on the whole range of times.

  \<^bold>\<open>Bounds and fuel.\<close>  Loops over buffers recurse on the distance to the end of the buffer, with
  \<open>termination\<close> proofs; no definition uses fuel.  The retry loop of the traversal runs over the code's
  own constant number of attempts.

  \<^bold>\<open>Not modelled.\<close>  Locks, the creation of day directories, the publication of overview sidecars, quarantine and
  removal are system calls whose outcomes the code forwards.  The buffered output of sealing is one write
  that may stop after any prefix, and an open segment file is read without errors.  The clock, short reads and
  holes of a log file are an environment of its batch; saving the position is a rename.  Arrow's sort and the Parquet reader, writer and metadata parsers are
  third-party and parameters of the definitions, with what the code relies on as hypotheses.
  The PostgreSQL and operating-system sources, the recognition of events in log lines, the overview index of the reader, the incident
  analysis, the web server and its frontend, the command line tools and the test harness are outside.
  The owner lease of the journal and read errors other than a short file are outside its model.
\<close>

end
